(* ===== verification/Prelude.thy ===== *)
theory Prelude
  imports Main "HOL-Library.Multiset"
begin

text \<open>
  Shared vocabulary of the development: the type of Python strings, results with an
  error, slices, the stable descending sort behind every re-ranking step, ordered
  dictionaries, and the interfaces (locales) that several components implement.
\<close>

named_theorems guard_simps \<open>equations that decide the guards of an operation\<close>
named_theorems step_preserves \<open>one operation keeps the invariant of its component\<close>

section \<open>Python values\<close>

text \<open>
  A Python string is a sequence of code points, so a string whose characters are
  inspected is a list of natural numbers. Identifiers that the code only compares
  (row ids, digests, paths) are HOL strings.
\<close>

type_synonym ustr = "nat list"

definition lit :: "string \<Rightarrow> ustr" where
  "lit s = map of_char s"

lemma length_lit [simp]: "length (lit s) = length s"
  by (simp add: lit_def)

text \<open>\<open>s[a:b]\<close> for bounds that are not negative.\<close>

definition slice :: "nat \<Rightarrow> nat \<Rightarrow> 'a list \<Rightarrow> 'a list" where
  "slice a b s = take (b - a) (drop a s)"

text \<open>\<open>str.isspace\<close> of one code point: the set \<open>str.strip\<close> removes.\<close>

definition is_space :: "nat \<Rightarrow> bool" where
  "is_space c \<longleftrightarrow> (9 \<le> c \<and> c \<le> 13) \<or> (28 \<le> c \<and> c \<le> 32) \<or> c = 133 \<or> c = 160 \<or> c = 5760
     \<or> (8192 \<le> c \<and> c \<le> 8202) \<or> c = 8232 \<or> c = 8233 \<or> c = 8239 \<or> c = 8287 \<or> c = 12288"

definition strip :: "ustr \<Rightarrow> ustr" where
  "strip s = rev (dropWhile is_space (rev (dropWhile is_space s)))"

text \<open>\<open>not s.strip()\<close>: the string holds nothing but whitespace.\<close>

definition blank :: "ustr \<Rightarrow> bool" where
  "blank s \<longleftrightarrow> list_all is_space s"

lemma blank_iff_strip: "blank s \<longleftrightarrow> strip s = []"
proof -
  have "strip s = [] \<longleftrightarrow> (\<forall>c \<in> set (dropWhile is_space s). is_space c)"
    by (simp add: strip_def dropWhile_eq_Nil_conv)
  also have "\<dots> \<longleftrightarrow> (\<forall>c \<in> set s. is_space c)"
  proof
    assume all: "\<forall>c \<in> set (dropWhile is_space s). is_space c"
    then have "dropWhile is_space s = []"
      by (metis dropWhile_eq_Cons_conv list.set_intros(1) neq_Nil_conv)
    then show "\<forall>c \<in> set s. is_space c"
      by (simp add: dropWhile_eq_Nil_conv)
  qed (auto dest: set_dropWhileD)
  finally show ?thesis by (simp add: blank_def list_all_iff)
qed

text \<open>\<open>sep.join(parts)\<close>\<close>

fun join_with :: "'a list \<Rightarrow> 'a list list \<Rightarrow> 'a list" where
  "join_with sep [] = []"
| "join_with sep [x] = x"
| "join_with sep (x # y # zs) = x @ sep @ join_with sep (y # zs)"

text \<open>\<open>str.split(c)\<close> on a single character.\<close>

fun split_on :: "'a \<Rightarrow> 'a list \<Rightarrow> 'a list list" where
  "split_on c [] = [[]]"
| "split_on c (x # xs) =
     (if x = c then [] # split_on c xs
      else case split_on c xs of [] \<Rightarrow> [[x]] | p # ps \<Rightarrow> (x # p) # ps)"

lemma split_on_not_Nil [simp]: "split_on c xs \<noteq> []"
  by (induction xs) (auto split: list.splits)

lemma split_on_append [simp]: "split_on c (xs @ c # ys) = split_on c xs @ split_on c ys"
  by (induction xs) (auto split: list.splits)

lemma split_on_absent: "c \<notin> set xs \<Longrightarrow> split_on c xs = [xs]"
  by (induction xs) auto

lemma join_split_on: "join_with [c] (split_on c xs) = xs"
proof (induction xs)
  case Nil
  show ?case by simp
next
  case (Cons x xs)
  obtain p ps where s: "split_on c xs = p # ps"
    by (cases "split_on c xs") auto
  with Cons show ?case
    by (cases ps) auto
qed

section \<open>Results\<close>

type_synonym ('e, 'a) result = "'e + 'a"

definition bind_res :: "('e, 'a) result \<Rightarrow> ('a \<Rightarrow> ('e, 'b) result) \<Rightarrow> ('e, 'b) result" where
  "bind_res r f = (case r of Inl e \<Rightarrow> Inl e | Inr x \<Rightarrow> f x)"

lemma bind_res_simps [simp]:
  "bind_res (Inl e) f = Inl e"
  "bind_res (Inr x) f = f x"
  by (simp_all add: bind_res_def)

lemma bind_res_Inr_conv: "bind_res r f = Inr y \<longleftrightarrow> (\<exists>x. r = Inr x \<and> f x = Inr y)"
  by (cases r) auto

fun map_res :: "('a \<Rightarrow> ('e, 'b) result) \<Rightarrow> 'a list \<Rightarrow> ('e, 'b list) result" where
  "map_res f [] = Inr []"
| "map_res f (x # xs) = bind_res (f x) (\<lambda>y. bind_res (map_res f xs) (\<lambda>ys. Inr (y # ys)))"

lemma map_res_Inr_conv: "map_res f xs = Inr ys \<longleftrightarrow> list_all2 (\<lambda>x y. f x = Inr y) xs ys"
proof (induction xs arbitrary: ys)
  case Nil
  show ?case by auto
next
  case (Cons x xs)
  show ?case
    by (cases ys) (auto simp: bind_res_Inr_conv Cons)
qed

section \<open>Ordered dictionaries\<close>

text \<open>
  A Python dict keeps insertion order. Where the order is visible the model is an
  association list with distinct keys; assigning to a present key keeps its place.
\<close>

type_synonym ('k, 'v) odict = "('k \<times> 'v) list"

fun od_set :: "'k \<Rightarrow> 'v \<Rightarrow> ('k, 'v) odict \<Rightarrow> ('k, 'v) odict" where
  "od_set k v [] = [(k, v)]"
| "od_set k v ((k', v') # d) = (if k' = k then (k, v) # d else (k', v') # od_set k v d)"

definition od_del :: "'k \<Rightarrow> ('k, 'v) odict \<Rightarrow> ('k, 'v) odict" where
  "od_del k d = filter (\<lambda>p. fst p \<noteq> k) d"

abbreviation od_keys :: "('k, 'v) odict \<Rightarrow> 'k list" where
  "od_keys d \<equiv> map fst d"

abbreviation od_ok :: "('k, 'v) odict \<Rightarrow> bool" where
  "od_ok d \<equiv> distinct (map fst d)"

lemma od_set_keys [simp]: "fst ` set (od_set k v d) = insert k (fst ` set d)"
proof (induction d)
  case (Cons p d)
  then show ?case by (cases p) auto
qed simp

lemma od_set_ok [simp]: "od_ok d \<Longrightarrow> od_ok (od_set k v d)"
proof (induction d)
  case (Cons p d)
  then show ?case by (cases p) auto
qed simp

lemma map_of_od_set [simp]: "map_of (od_set k v d) = (map_of d)(k \<mapsto> v)"
  by (induction d) (auto simp: fun_eq_iff)

lemma map_of_od_del [simp]: "map_of (od_del k d) = (map_of d)(k := None)"
  by (induction d) (auto simp: od_del_def fun_eq_iff)

lemma od_del_ok [simp]: "od_ok d \<Longrightarrow> od_ok (od_del k d)"
  by (auto simp: od_del_def distinct_map inj_on_def)

lemma od_del_keys [simp]: "fst ` set (od_del k d) = fst ` set d - {k}"
  by (auto simp: od_del_def)

lemma od_set_absent: "k \<notin> set (od_keys d) \<Longrightarrow> od_set k v d = d @ [(k, v)]"
  by (induction d) auto

section \<open>Stable descending sort\<close>

text \<open>
  \<open>list.sort(key=f, reverse=True)\<close> and \<open>sorted(xs, key=f, reverse=True)\<close> keep the
  order of elements with equal keys; \<open>heapq.nlargest(n, xs, key=f)\<close> is documented as
  the first \<open>n\<close> elements of the latter.
\<close>

definition sort_desc :: "('a \<Rightarrow> 'k::linordered_ab_group_add) \<Rightarrow> 'a list \<Rightarrow> 'a list" where
  "sort_desc f xs = sort_key (\<lambda>x. - f x) xs"

abbreviation descending :: "'k::linorder list \<Rightarrow> bool" where
  "descending \<equiv> sorted_wrt (\<ge>)"

lemma mset_sort_desc [simp]: "mset (sort_desc f xs) = mset xs"
  by (simp add: sort_desc_def)

lemma set_sort_desc [simp]: "set (sort_desc f xs) = set xs"
  by (simp add: sort_desc_def)

lemma length_sort_desc [simp]: "length (sort_desc f xs) = length xs"
  by (simp add: sort_desc_def)

lemma distinct_sort_desc [simp]: "distinct (sort_desc f xs) = distinct xs"
  by (simp add: sort_desc_def)

lemma sort_desc_Nil [simp]: "sort_desc f [] = []"
  by (simp add: sort_desc_def)

lemma descending_sort_desc: "descending (map f (sort_desc f xs))"
proof -
  have "sorted (map (\<lambda>x. - f x) (sort_desc f xs))"
    by (simp add: sort_desc_def)
  then show ?thesis
    by (simp add: sorted_map sorted_wrt_map)
qed

lemma sort_desc_stable: "filter (\<lambda>x. f x = k) (sort_desc f xs) = filter (\<lambda>x. f x = k) xs"
proof -
  have "filter (\<lambda>x. - f x = - k) (sort_key (\<lambda>x. - f x) xs) = filter (\<lambda>x. - f x = - k) xs"
    by (rule sort_key_stable)
  then show ?thesis
    by (simp add: sort_desc_def)
qed

lemma sort_desc_sorted: "descending (map f xs) \<Longrightarrow> sort_desc f xs = xs"
proof -
  assume "descending (map f xs)"
  then have "sorted (map (\<lambda>x. - f x) xs)"
    by (simp add: sorted_map sorted_wrt_map)
  then show ?thesis
    unfolding sort_desc_def by (rule sort_key_id_if_sorted)
qed

section \<open>Interfaces shared by several components\<close>

text \<open>
  A component whose operations are the events of a deterministic machine: a run of legal
  events keeps every invariant a single one keeps.
\<close>

primrec legal_run :: "('s \<Rightarrow> 'e \<Rightarrow> bool) \<Rightarrow> ('s \<Rightarrow> 'e \<Rightarrow> 's) \<Rightarrow> 's \<Rightarrow> 'e list \<Rightarrow> bool" where
  "legal_run legal step s [] = True"
| "legal_run legal step s (e # es) = (legal s e \<and> legal_run legal step (step s e) es)"

lemma legal_run_True [simp]: "legal_run (\<lambda>_ _. True) step s es"
  by (induction es arbitrary: s) auto

lemma legal_run_append:
  "legal_run legal step s (es @ fs) \<longleftrightarrow> legal_run legal step s es \<and> legal_run legal step (foldl step s es) fs"
  by (induction es arbitrary: s) auto

locale machine =
  fixes step :: "'s \<Rightarrow> 'e \<Rightarrow> 's"
    and legal :: "'s \<Rightarrow> 'e \<Rightarrow> bool"
    and inv :: "'s \<Rightarrow> bool"
  assumes step_inv: "inv s \<Longrightarrow> legal s e \<Longrightarrow> inv (step s e)"
begin

lemma run_inv: "inv s \<Longrightarrow> legal_run legal step s es \<Longrightarrow> inv (foldl step s es)"
  by (induction es arbitrary: s) (auto intro: step_inv)

lemma run_prefix_inv:
  "inv s \<Longrightarrow> legal_run legal step s (es @ fs) \<Longrightarrow> inv (foldl step s es)"
  by (induction es arbitrary: s) (auto intro: step_inv)

end

text \<open>
  An atomic test-and-set: \<open>claim\<close> answers whether the caller won; the claims that count
  are the legal ones (in time, say). The laws are what a
  guarded UPDATE or an INSERT OR IGNORE gives: a winner finds the slot free and takes
  it, a loser finds it taken and changes nothing the slot depends on.
\<close>

primrec attempts :: "('c \<Rightarrow> 's \<Rightarrow> bool \<times> 's) \<Rightarrow> 'c list \<Rightarrow> 's \<Rightarrow> bool list" where
  "attempts claim [] s = []"
| "attempts claim (c # cs) s = (let (w, s') = claim c s in w # attempts claim cs s')"

locale timed_test_and_set =
  fixes ok :: "'s \<Rightarrow> bool"
    and free :: "'s \<Rightarrow> bool"
    and legal :: "'c \<Rightarrow> bool"
    and claim :: "'c \<Rightarrow> 's \<Rightarrow> bool \<times> 's"
  assumes keeps_ok: "ok s \<Longrightarrow> legal c \<Longrightarrow> ok (snd (claim c s))"
    and win_needs_free: "ok s \<Longrightarrow> legal c \<Longrightarrow> fst (claim c s) \<Longrightarrow> free s"
    and win_takes: "ok s \<Longrightarrow> legal c \<Longrightarrow> fst (claim c s) \<Longrightarrow> \<not> free (snd (claim c s))"
    and lose_keeps: "ok s \<Longrightarrow> legal c \<Longrightarrow> \<not> free s \<Longrightarrow> \<not> free (snd (claim c s))"
begin

lemma taken_never_won: "ok s \<Longrightarrow> list_all legal cs \<Longrightarrow> \<not> free s \<Longrightarrow> True \<notin> set (attempts claim cs s)"
proof (induction cs arbitrary: s)
  case (Cons c cs)
  then have "\<not> fst (claim c s)" "\<not> free (snd (claim c s))" "ok (snd (claim c s))"
    using win_needs_free lose_keeps keeps_ok by auto
  with Cons show ?case by (auto simp: split_beta)
qed simp

lemma one_legal_winner: "ok s \<Longrightarrow> list_all legal cs \<Longrightarrow> length (filter (\<lambda>w. w) (attempts claim cs s)) \<le> 1"
proof (induction cs arbitrary: s)
  case (Cons c cs)
  then have keep: "ok (snd (claim c s))" and legal: "legal c" "list_all legal cs" using keeps_ok by auto
  show ?case
  proof (cases "fst (claim c s)")
    case True
    then have "True \<notin> set (attempts claim cs (snd (claim c s)))"
      using taken_never_won[OF keep legal(2)] win_takes[OF Cons.prems(1) legal(1)] by blast
    then have "filter (\<lambda>w. w) (attempts claim cs (snd (claim c s))) = []"
      by (auto simp: filter_empty_conv)
    with True show ?thesis by (simp add: split_beta)
  next
    case False
    then show ?thesis using Cons.IH[OF keep legal(2)] by (simp add: split_beta)
  qed
qed simp

end

text \<open>The same without a condition on the claims.\<close>

locale test_and_set =
  fixes ok :: "'s \<Rightarrow> bool"
    and free :: "'s \<Rightarrow> bool"
    and claim :: "'c \<Rightarrow> 's \<Rightarrow> bool \<times> 's"
  assumes keeps_ok: "ok s \<Longrightarrow> ok (snd (claim c s))"
    and win_needs_free: "ok s \<Longrightarrow> fst (claim c s) \<Longrightarrow> free s"
    and win_takes: "ok s \<Longrightarrow> fst (claim c s) \<Longrightarrow> \<not> free (snd (claim c s))"
    and lose_keeps: "ok s \<Longrightarrow> \<not> free s \<Longrightarrow> \<not> free (snd (claim c s))"

sublocale test_and_set \<subseteq> timed: timed_test_and_set ok free "\<lambda>_. True" claim
  by unfold_locales (auto intro: keeps_ok win_needs_free win_takes lose_keeps dest: win_takes lose_keeps)

context test_and_set
begin

lemma at_most_one_winner: "ok s \<Longrightarrow> length (filter (\<lambda>w. w) (attempts claim cs s)) \<le> 1"
  by (rule timed.one_legal_winner) (simp_all add: list_all_iff)

end

end
