(* ===== verification/Models.thy ===== *)
theory Models
  imports Prelude Complex_Main
begin

text \<open>
  The core data model (\<open>memtomem/models.py\<close>): chunk metadata, chunks and search
  results. Timestamps are integers, embeddings lists of reals. \<open>chunk_core\<close> holds the
  fields the chunkers read and rewrite; \<open>chunk\<close> extends it with the stored identity.
  SHA-256 of the NFC-normalised body is not code of the repository: it is the parameter
  \<open>digest\<close> wherever a digest is computed.
\<close>

datatype chunk_type = MarkdownSection | PythonFunction | PythonClass | JsFunction
  | RstSection | RawText | Procedure

text \<open>The ADR-0011 scope axis; any other stored text decodes verbatim.\<close>

record chunk_metadata =
  md_source_file :: string
  md_heading_hierarchy :: "ustr list"
  md_chunk_type :: chunk_type
  md_start_line :: int
  md_end_line :: int
  md_language :: string
  md_tags :: "string list"
  md_namespace :: ustr
  md_overlap_before :: nat
  md_overlap_after :: nat
  md_parent_context :: ustr
  md_file_context :: ustr
  md_valid_from_unix :: "int option"
  md_valid_to_unix :: "int option"
  md_scope :: ustr
  md_project_root :: "string option"
  md_origin :: "string option"
  md_source_span_hash :: "string option"
  md_retrieval_context :: ustr
  md_redaction_count :: int
  md_source_read_only :: bool
  md_entry_created_at :: "int option"

definition UNTAGGED_NAMESPACE :: ustr where
  "UNTAGGED_NAMESPACE = lit ''default''"

definition stored_namespace :: "ustr option \<Rightarrow> ustr" where
  "stored_namespace resolved = (case resolved of None \<Rightarrow> UNTAGGED_NAMESPACE | Some n \<Rightarrow> n)"

text \<open>\<open>ChunkMetadata(source_file=...)\<close> with every other field at its default.\<close>

definition default_metadata :: "string \<Rightarrow> chunk_metadata" where
  "default_metadata path = \<lparr>md_source_file = path, md_heading_hierarchy = [],
     md_chunk_type = RawText, md_start_line = 0, md_end_line = 0, md_language = ''en'',
     md_tags = [], md_namespace = UNTAGGED_NAMESPACE, md_overlap_before = 0,
     md_overlap_after = 0, md_parent_context = [], md_file_context = [],
     md_valid_from_unix = None, md_valid_to_unix = None, md_scope = lit ''user'',
     md_project_root = None, md_origin = None, md_source_span_hash = None,
     md_retrieval_context = [], md_redaction_count = 0, md_source_read_only = False,
     md_entry_created_at = None\<rparr>"

record chunk_core =
  ch_content :: ustr
  ch_metadata :: chunk_metadata
  ch_line_map :: "int list option"

record chunk = chunk_core +
  ch_id :: string
  ch_content_hash :: string
  ch_embedding :: "real list"
  ch_created_at :: int
  ch_updated_at :: int

text \<open>Number of newlines of a body (code point 10).\<close>

definition newlines :: "ustr \<Rightarrow> nat" where
  "newlines s = count_list s 10"

lemma newlines_append [simp]: "newlines (s @ t) = newlines s + newlines t"
  by (simp add: newlines_def)

definition source_line_map :: "('a) chunk_core_scheme \<Rightarrow> int list" where
  "source_line_map c =
     (case ch_line_map c of
        Some m \<Rightarrow> m
      | None \<Rightarrow>
          (let count = newlines (ch_content c) + 1; start = md_start_line (ch_metadata c)
           in if start \<ge> 1 then map (\<lambda>i. start + int i) [0..<count] else replicate count 0))"

text \<open>The separators \<open>" > "\<close> and \<open>"\n\n"\<close>.\<close>

definition hierarchy_sep :: ustr where
  "hierarchy_sep = [32, 62, 32]"

definition blank_line :: ustr where
  "blank_line = [10, 10]"

definition retrieval_content :: "('a) chunk_core_scheme \<Rightarrow> ustr" where
  "retrieval_content c =
     (let md = ch_metadata c in
      if md_retrieval_context md \<noteq> [] then md_retrieval_context md @ blank_line @ ch_content c
      else if md_heading_hierarchy md = [] then ch_content c
      else join_with hierarchy_sep (md_heading_hierarchy md) @ blank_line @ ch_content c)"

text \<open>
  What \<open>_expand_context\<close> attaches to a hit. The ranked siblings and related chunks are
  opaque objects to every modelled consumer and stay out of the record.
\<close>

record context_info =
  ci_window_before :: "chunk list"
  ci_window_after :: "chunk list"
  ci_parent_content :: "ustr option"
  ci_parent_heading :: "ustr option"
  ci_sibling_count :: int
  ci_chunk_position :: int
  ci_total_chunks_in_file :: int
  ci_context_tier_used :: "string option"

record search_result =
  sr_chunk :: chunk
  sr_score :: real
  sr_rank :: nat
  sr_source :: string
  sr_context :: "context_info option"
  sr_via_session_summary :: bool

lemma length_source_line_map:
  "ch_line_map c = None \<Longrightarrow> length (source_line_map c) = newlines (ch_content c) + 1"
  by (simp add: source_line_map_def Let_def)

text \<open>A chunk with default metadata, for concrete examples.\<close>

definition sample_chunk :: "string \<Rightarrow> string \<Rightarrow> ustr \<Rightarrow> chunk" where
  "sample_chunk i h body = \<lparr>ch_content = body, ch_metadata = default_metadata ''/m/a.md'',
     ch_line_map = None, ch_id = i, ch_content_hash = h, ch_embedding = [], ch_created_at = 0,
     ch_updated_at = 0\<rparr>"

end
