(* ===== verification/Json.thy ===== *)
theory Json
  imports Prelude Complex_Main
begin

text \<open>
  JSON documents as \<open>json.loads\<close> returns them (an object keeps its members in order, the
  keys distinct; \<open>NaN\<close> and \<open>Infinity\<close> are accepted) and the conversions \<open>float(x)\<close> and
  \<open>int(x)\<close> with the exceptions they raise. Numeric text is read by the interpreter: its
  readers are the parameters \<open>float_str\<close> and \<open>int_str\<close>.
\<close>

datatype json =
    JNull
  | JBool bool
  | JInt int
  | JFloat real
  | JInfinite bool
  | JNaN
  | JStr string
  | JArr "json list"
  | JObj "(string \<times> json) list"

datatype py_exc = KeyErr | TypeErr | ValueErr | OverflowErr

text \<open>The first integers whose conversion to a binary64 float overflows.\<close>

definition FLOAT_INT_LIMIT :: int where
  "FLOAT_INT_LIMIT = 2 ^ 1024 - 2 ^ 970"

text \<open>A float is \<open>Some r\<close> when finite and \<open>None\<close> when it is infinite or not a number.\<close>

fun py_float :: "(string \<Rightarrow> real option option) \<Rightarrow> json \<Rightarrow> (py_exc, real option) result" where
  "py_float float_str (JInt i) =
     (if \<bar>i\<bar> \<ge> FLOAT_INT_LIMIT then Inl OverflowErr else Inr (Some (real_of_int i)))"
| "py_float float_str (JFloat r) = Inr (Some r)"
| "py_float float_str (JInfinite _) = Inr None"
| "py_float float_str JNaN = Inr None"
| "py_float float_str (JBool b) = Inr (Some (if b then 1 else 0))"
| "py_float float_str (JStr s) = (case float_str s of None \<Rightarrow> Inl ValueErr | Some x \<Rightarrow> Inr x)"
| "py_float float_str _ = Inl TypeErr"

fun py_int :: "(string \<Rightarrow> int option) \<Rightarrow> json \<Rightarrow> (py_exc, int) result" where
  "py_int int_str (JInt i) = Inr i"
| "py_int int_str (JFloat r) = Inr (if 0 \<le> r then \<lfloor>r\<rfloor> else \<lceil>r\<rceil>)"
| "py_int int_str (JInfinite _) = Inl OverflowErr"
| "py_int int_str JNaN = Inl ValueErr"
| "py_int int_str (JBool b) = Inr (if b then 1 else 0)"
| "py_int int_str (JStr s) = (case int_str s of None \<Rightarrow> Inl ValueErr | Some i \<Rightarrow> Inr i)"
| "py_int int_str _ = Inl TypeErr"

text \<open>\<open>d[k]\<close>, and \<open>d.get(k)\<close> with a missing member read as null.\<close>

definition j_at :: "(string \<times> json) list \<Rightarrow> string \<Rightarrow> (py_exc, json) result" where
  "j_at d k = (case map_of d k of None \<Rightarrow> Inl KeyErr | Some v \<Rightarrow> Inr v)"

definition j_get :: "(string \<times> json) list \<Rightarrow> string \<Rightarrow> json" where
  "j_get d k = (case map_of d k of None \<Rightarrow> JNull | Some v \<Rightarrow> v)"

definition j_get_or :: "(string \<times> json) list \<Rightarrow> string \<Rightarrow> json \<Rightarrow> json" where
  "j_get_or d k dflt = (case map_of d k of None \<Rightarrow> dflt | Some v \<Rightarrow> v)"

end
