(* ===== verification/Pinned.thy ===== *)
theory Pinned
  imports Models Json "HOL-Library.List_Lexorder" "HOL-Library.Char_ord" "HOL-Library.Product_Lexorder"
begin

text \<open>
  Pinned Context blocks and the composed bundle (\<open>pinned.py\<close>). Files are the state: for each
  scope, the Markdown files below its \<open>pinned\<close> directory by their path parts. YAML, the privacy
  guard, \<open>str()\<close> of a value and \<open>int()\<close> of a text are parameters; YAML values are modelled as
  those JSON has, so a YAML date as a field is left out, and reading YAML may raise any exception.
\<close>

section \<open>Scopes\<close>

datatype target_scope = UserScope | ProjectShared | ProjectLocal

fun SCOPE_RANK :: "target_scope \<Rightarrow> nat" where
  "SCOPE_RANK UserScope = 0"
| "SCOPE_RANK ProjectShared = 1"
| "SCOPE_RANK ProjectLocal = 2"

lemma SCOPE_RANK_inj [simp]: "SCOPE_RANK a = SCOPE_RANK b \<longleftrightarrow> a = b"
  by (cases a; cases b) simp_all

text \<open>Scopes in the order of their rank.\<close>

instantiation target_scope :: linorder
begin

definition less_eq_target_scope :: "target_scope \<Rightarrow> target_scope \<Rightarrow> bool" where
  "less_eq_target_scope a b = (SCOPE_RANK a \<le> SCOPE_RANK b)"

definition less_target_scope :: "target_scope \<Rightarrow> target_scope \<Rightarrow> bool" where
  "less_target_scope a b = (SCOPE_RANK a < SCOPE_RANK b)"

instance
  by standard (auto simp: less_eq_target_scope_def less_target_scope_def dest: antisym)

end

section \<open>Files\<close>

text \<open>
  The exceptions: those of plain Python, \<open>YAMLError\<close>, \<open>OSError\<close>, the two the module raises, and any
  other by its class (\<open>yaml.safe_load\<close> also raises \<open>IndexError\<close>, \<open>AttributeError\<close> and \<open>RecursionError\<close>).
\<close>

datatype pin_error = Py py_exc | YamlFails | FileFails | ConfigFails | ScopeFails | OtherExc string

record pinned_block =
  pb_id :: string
  pb_content :: ustr
  pb_scope :: target_scope
  pb_path :: "string list"
  pb_description :: string
  pb_priority :: int
  pb_agent :: json

text \<open>
  The files of a scope as \<open>(path parts, text)\<close>; None is a file that cannot be read or decoded.
  \<open>ps_base_error\<close> is the error of looking for the scope's directory or walking it, as a
  \<open>PermissionError\<close> of \<open>base.exists()\<close>; \<open>ps_refused\<close> is the remembered refusal of the user tier.
\<close>

record pinned_store =
  ps_files :: "target_scope \<Rightarrow> (string list \<times> ustr option) list"
  ps_base_error :: "target_scope \<Rightarrow> pin_error option"
  ps_user_base :: bool
  ps_project :: bool
  ps_refused :: bool

text \<open>Truth value of a YAML value.\<close>

fun py_truthy :: "json \<Rightarrow> bool" where
  "py_truthy JNull = False"
| "py_truthy (JBool b) = b"
| "py_truthy (JInt i) = (i \<noteq> 0)"
| "py_truthy (JFloat r) = (r \<noteq> 0)"
| "py_truthy (JStr s) = (s \<noteq> [])"
| "py_truthy (JArr xs) = (xs \<noteq> [])"
| "py_truthy (JObj d) = (d \<noteq> [])"
| "py_truthy _ = True"

definition rstrip_newlines :: "ustr \<Rightarrow> ustr" where
  "rstrip_newlines s = rev (dropWhile (\<lambda>c. c = 10) (rev s))"

definition rstrip :: "ustr \<Rightarrow> ustr" where
  "rstrip s = rev (dropWhile is_space (rev s))"

text \<open>The fences \<open>"---\n"\<close> and \<open>"\n---\n"\<close>.\<close>

definition OPEN_FENCE :: ustr where "OPEN_FENCE = [45, 45, 45, 10]"
definition CLOSE_FENCE :: ustr where "CLOSE_FENCE = [10, 45, 45, 45, 10]"

definition split_frontmatter ::
  "(ustr \<Rightarrow> (pin_error, json) result) \<Rightarrow> ustr \<Rightarrow> (pin_error, (string \<times> json) list \<times> ustr) result" where
  "split_frontmatter yaml str =
     (if take 4 str \<noteq> OPEN_FENCE then Inl (Py ValueErr)
      else case find (\<lambda>i. take 5 (drop i str) = CLOSE_FENCE) [4..<length str] of
          None \<Rightarrow> Inl (Py ValueErr)
        | Some m \<Rightarrow>
            (case yaml (slice 4 m str) of
               Inl e \<Rightarrow> Inl e
             | Inr md \<Rightarrow>
                 (case (if py_truthy md then md else JObj []) of
                    JObj d \<Rightarrow> Inr (d, rstrip_newlines (drop (m + 5) str))
                  | _ \<Rightarrow> Inl (Py ValueErr))))"

definition lift_py :: "(py_exc, 'a) result \<Rightarrow> (pin_error, 'a) result" where
  "lift_py r = (case r of Inl e \<Rightarrow> Inl (Py e) | Inr x \<Rightarrow> Inr x)"

definition read_block ::
  "(ustr \<Rightarrow> (pin_error, json) result) \<Rightarrow> (json \<Rightarrow> string) \<Rightarrow> (string \<Rightarrow> int option) \<Rightarrow> target_scope
    \<Rightarrow> string list \<times> ustr option \<Rightarrow> (pin_error, pinned_block) result" where
  "read_block yaml py_str int_str scope file =
     (case snd file of
        None \<Rightarrow> Inl FileFails
      | Some str \<Rightarrow>
          bind_res (split_frontmatter yaml str) (\<lambda>p.
            bind_res (lift_py (j_at (fst p) ''id'')) (\<lambda>i.
              bind_res (lift_py (py_int int_str (j_get_or (fst p) ''priority'' (JInt 0)))) (\<lambda>prio.
                Inr \<lparr>pb_id = py_str i, pb_content = snd p, pb_scope = scope, pb_path = fst file,
                  pb_description = py_str (j_get_or (fst p) ''description'' (JStr [])),
                  pb_priority = prio, pb_agent = j_get (fst p) ''agent_id''\<rparr>))))"

text \<open>The exceptions \<open>_read_scope\<close> skips a file for.\<close>

definition skipped :: "pin_error \<Rightarrow> bool" where
  "skipped e \<longleftrightarrow> e \<in> {Py KeyErr, Py TypeErr, Py ValueErr, YamlFails, FileFails}"

fun read_files ::
  "(ustr \<Rightarrow> (pin_error, json) result) \<Rightarrow> (json \<Rightarrow> string) \<Rightarrow> (string \<Rightarrow> int option) \<Rightarrow> target_scope
    \<Rightarrow> (string list \<times> ustr option) list \<Rightarrow> (pin_error, pinned_block list) result" where
  "read_files yaml py_str int_str scope [] = Inr []"
| "read_files yaml py_str int_str scope (f # fs) =
     (case read_block yaml py_str int_str scope f of
        Inr b \<Rightarrow> bind_res (read_files yaml py_str int_str scope fs) (\<lambda>bs. Inr (b # bs))
      | Inl e \<Rightarrow> if skipped e then read_files yaml py_str int_str scope fs else Inl e)"

definition read_scope ::
  "(ustr \<Rightarrow> (pin_error, json) result) \<Rightarrow> (json \<Rightarrow> string) \<Rightarrow> (string \<Rightarrow> int option) \<Rightarrow> pinned_store \<Rightarrow> target_scope
    \<Rightarrow> (pin_error, pinned_block list) result" where
  "read_scope yaml py_str int_str st scope =
     (if scope = UserScope \<and> \<not> ps_user_base st then Inr []
      else case ps_base_error st scope of
          Some e \<Rightarrow> Inl e
        | None \<Rightarrow> read_files yaml py_str int_str scope (sort_key fst (ps_files st scope)))"

section \<open>Which block wins\<close>

text \<open>\<open>block.agent_id in {None, agent_id}\<close>: a list or mapping cannot be hashed.\<close>

fun agent_applies :: "string option \<Rightarrow> json \<Rightarrow> (pin_error, bool) result" where
  "agent_applies agent JNull = Inr True"
| "agent_applies agent (JStr s) = Inr (agent = Some s)"
| "agent_applies agent (JArr xs) = Inl (Py TypeErr)"
| "agent_applies agent (JObj d) = Inl (Py TypeErr)"
| "agent_applies agent _ = Inr False"

fun applicable_blocks :: "string option \<Rightarrow> pinned_block list \<Rightarrow> (pin_error, pinned_block list) result" where
  "applicable_blocks agent [] = Inr []"
| "applicable_blocks agent (b # bs) =
     bind_res (agent_applies agent (pb_agent b)) (\<lambda>hit.
       bind_res (applicable_blocks agent bs) (\<lambda>rest. Inr (if hit then b # rest else rest)))"

definition block_rank :: "pinned_block \<Rightarrow> nat \<times> target_scope" where
  "block_rank b = (if py_truthy (pb_agent b) then 1 else 0, pb_scope b)"

definition winner_step :: "(string, pinned_block) odict \<Rightarrow> pinned_block \<Rightarrow> (string, pinned_block) odict" where
  "winner_step winners b =
     (case map_of winners (pb_id b) of
        None \<Rightarrow> od_set (pb_id b) b winners
      | Some w \<Rightarrow> if block_rank w < block_rank b then od_set (pb_id b) b winners else winners)"

definition list_order :: "pinned_block \<Rightarrow> int \<times> string" where
  "list_order b = (- pb_priority b, pb_id b)"

definition list_blocks ::
  "(ustr \<Rightarrow> (pin_error, json) result) \<Rightarrow> (json \<Rightarrow> string) \<Rightarrow> (string \<Rightarrow> int option) \<Rightarrow> string option \<Rightarrow> pinned_store
    \<Rightarrow> (pin_error, pinned_block list) result" where
  "list_blocks yaml py_str int_str agent st =
     bind_res (map_res (read_scope yaml py_str int_str st)
         (if ps_project st then [UserScope, ProjectShared, ProjectLocal] else [UserScope])) (\<lambda>candidates.
       bind_res (applicable_blocks agent (concat candidates)) (\<lambda>blocks.
         Inr (sort_key list_order (map snd (foldl winner_step [] blocks)))))"

text \<open>What the fold leaves: for every id the first block of the highest rank.\<close>

definition wins :: "pinned_block list \<Rightarrow> string \<Rightarrow> pinned_block \<Rightarrow> bool" where
  "wins bs i w \<longleftrightarrow> w \<in> set bs \<and> pb_id w = i \<and> (\<forall>b \<in> set bs. pb_id b = i \<longrightarrow> block_rank b \<le> block_rank w)"

definition best_of :: "pinned_block list \<Rightarrow> (string, pinned_block) odict \<Rightarrow> bool" where
  "best_of bs winners \<longleftrightarrow> od_ok winners \<and>
     (\<forall>i. case map_of winners i of None \<Rightarrow> i \<notin> pb_id ` set bs | Some w \<Rightarrow> wins bs i w)"

lemma wins_other: "pb_id b \<noteq> i \<Longrightarrow> wins (bs @ [b]) i w = wins bs i w"
  by (auto simp: wins_def)

lemma wins_new: "pb_id b \<notin> pb_id ` set bs \<Longrightarrow> wins (bs @ [b]) (pb_id b) b"
proof -
  assume "pb_id b \<notin> pb_id ` set bs"
  then have "pb_id c \<noteq> pb_id b" if "c \<in> set bs" for c using that by (metis image_eqI)
  then show ?thesis unfolding wins_def by simp
qed

lemma wins_replace: "wins bs (pb_id b) w \<Longrightarrow> block_rank w < block_rank b \<Longrightarrow> wins (bs @ [b]) (pb_id b) b"
proof -
  assume w: "wins bs (pb_id b) w" and less: "block_rank w < block_rank b"
  have "block_rank c \<le> block_rank b" if "c \<in> set bs" "pb_id c = pb_id b" for c
  proof -
    have "block_rank c \<le> block_rank w" using w that by (simp add: wins_def)
    also have "\<dots> \<le> block_rank b" using less by (rule less_imp_le)
    finally show ?thesis .
  qed
  then show ?thesis unfolding wins_def by simp
qed

lemma wins_keep: "wins bs (pb_id b) w \<Longrightarrow> \<not> block_rank w < block_rank b \<Longrightarrow> wins (bs @ [b]) (pb_id b) w"
  by (auto simp: wins_def not_less)

lemma winner_step_best:
  assumes "best_of bs winners"
  shows "best_of (bs @ [b]) (winner_step winners b)"
proof -
  have ok: "od_ok winners" and at_id: "\<And>i. case map_of winners i of None \<Rightarrow> i \<notin> pb_id ` set bs | Some w \<Rightarrow> wins bs i w"
    using assms by (simp_all add: best_of_def)
  have "case map_of (winner_step winners b) i of None \<Rightarrow> i \<notin> pb_id ` set (bs @ [b]) | Some w \<Rightarrow> wins (bs @ [b]) i w" for i
  proof (cases "i = pb_id b")
    case False
    then have "map_of (winner_step winners b) i = map_of winners i"
      by (simp add: winner_step_def split: option.split)
    with at_id[of i] False show ?thesis by (auto simp: wins_other split: option.splits)
  next
    case True
    show ?thesis
    proof (cases "map_of winners (pb_id b)")
      case None
      with at_id[of "pb_id b"] True show ?thesis by (simp add: winner_step_def wins_new)
    next
      case (Some w)
      with at_id[of "pb_id b"] True show ?thesis
        using wins_replace[of bs b w] wins_keep[of bs b w] by (cases "block_rank w < block_rank b") (simp_all add: winner_step_def)
    qed
  qed
  moreover have "od_ok (winner_step winners b)" using ok by (simp add: winner_step_def split: option.split)
  ultimately show ?thesis by (simp add: best_of_def)
qed

lemma winners_best: "best_of bs (foldl winner_step [] bs)"
proof (induction bs rule: rev_induct)
  case Nil
  show ?case by (simp add: best_of_def)
next
  case (snoc b bs)
  from winner_step_best[OF this, of b] show ?case by simp
qed

section \<open>Listing\<close>

definition pinned_scopes :: "pinned_store \<Rightarrow> target_scope list" where
  "pinned_scopes st = (if ps_project st then [UserScope, ProjectShared, ProjectLocal] else [UserScope])"

abbreviation unhashable :: "json \<Rightarrow> bool" where
  "unhashable j \<equiv> (case j of JArr _ \<Rightarrow> True | JObj _ \<Rightarrow> True | _ \<Rightarrow> False)"

definition applies :: "string option \<Rightarrow> pinned_block \<Rightarrow> bool" where
  "applies agent b \<longleftrightarrow> pb_agent b = JNull \<or> (\<exists>s. pb_agent b = JStr s \<and> agent = Some s)"

lemma py_int_errors: "py_int int_str j = Inl e \<Longrightarrow> e \<in> {OverflowErr, ValueErr, TypeErr}"
  by (cases "(int_str, j)" rule: py_int.cases) (auto split: option.splits)

lemma read_block_escapes:
  "read_block yaml py_str int_str scope f = Inl e \<Longrightarrow> \<not> skipped e \<Longrightarrow> e = Py OverflowErr \<or> (\<exists>s. yaml s = Inl e)"
  by (auto simp: read_block_def bind_res_def lift_py_def j_at_def skipped_def split_frontmatter_def
      split: option.splits sum.splits if_splits json.splits dest!: py_int_errors)

lemma read_files_result:
  "case read_files yaml py_str int_str scope fs of
     Inl e \<Rightarrow> \<not> skipped e \<and> Inl e \<in> read_block yaml py_str int_str scope ` set fs
   | Inr bs \<Rightarrow> set bs = {b. Inr b \<in> read_block yaml py_str int_str scope ` set fs} \<and>
       {e. Inl e \<in> read_block yaml py_str int_str scope ` set fs} \<subseteq> Collect skipped"
proof (induction yaml py_str int_str scope fs rule: read_files.induct)
  case (2 yaml py_str int_str scope f fs)
  show ?case
  proof (cases "read_block yaml py_str int_str scope f")
    case (Inl e)
    then show ?thesis using 2(1)[OF Inl] by (cases "skipped e") (auto split: sum.splits)
  next
    case (Inr b)
    then show ?thesis using 2(2)[OF Inr] by (auto split: sum.splits)
  qed
qed simp

lemma applicable_result:
  "case applicable_blocks agent bs of
     Inl e \<Rightarrow> e = Py TypeErr \<and> (\<exists>b \<in> set bs. unhashable (pb_agent b))
   | Inr out \<Rightarrow> out = filter (applies agent) bs"
proof (induction bs)
  case (Cons b bs)
  then show ?case
    by (cases "(agent, pb_agent b)" rule: agent_applies.cases) (auto simp: applies_def split: sum.splits)
qed simp

text \<open>The scopes a listing reads, and what reading a file of theirs gives.\<close>

definition scopes_read :: "pinned_store \<Rightarrow> target_scope list" where
  "scopes_read st = filter (\<lambda>s. s \<noteq> UserScope \<or> ps_user_base st) (pinned_scopes st)"

definition reads_file ::
  "(ustr \<Rightarrow> (pin_error, json) result) \<Rightarrow> (json \<Rightarrow> string) \<Rightarrow> (string \<Rightarrow> int option) \<Rightarrow> pinned_store
    \<Rightarrow> (pin_error, pinned_block) result \<Rightarrow> bool" where
  "reads_file yaml py_str int_str st r \<longleftrightarrow>
     (\<exists>scope \<in> set (scopes_read st). \<exists>f \<in> set (ps_files st scope). read_block yaml py_str int_str scope f = r)"

definition scope_reads ::
  "(ustr \<Rightarrow> (pin_error, json) result) \<Rightarrow> (json \<Rightarrow> string) \<Rightarrow> (string \<Rightarrow> int option) \<Rightarrow> pinned_store
    \<Rightarrow> target_scope \<Rightarrow> (pin_error, pinned_block) result set" where
  "scope_reads yaml py_str int_str st scope =
     (if scope = UserScope \<and> \<not> ps_user_base st then {}
      else read_block yaml py_str int_str scope ` set (ps_files st scope))"

lemma reads_file_scopes:
  "{r. reads_file yaml py_str int_str st r} = (\<Union>scope \<in> set (pinned_scopes st). scope_reads yaml py_str int_str st scope)"
  by (auto simp: reads_file_def scopes_read_def scope_reads_def)

lemma read_scope_result:
  "case read_scope yaml py_str int_str st scope of
     Inl e \<Rightarrow> (scope \<noteq> UserScope \<or> ps_user_base st) \<and> ps_base_error st scope = Some e \<or>
       \<not> skipped e \<and> Inl e \<in> scope_reads yaml py_str int_str st scope
   | Inr bs \<Rightarrow> set bs = {b. Inr b \<in> scope_reads yaml py_str int_str st scope} \<and>
       {e. Inl e \<in> scope_reads yaml py_str int_str st scope} \<subseteq> Collect skipped"
  using read_files_result[where yaml = yaml and py_str = py_str and int_str = int_str and scope = scope
      and fs = "sort_key fst (ps_files st scope)"]
  by (cases "scope = UserScope \<and> \<not> ps_user_base st"; cases "ps_base_error st scope")
    (auto simp: read_scope_def scope_reads_def split: sum.splits)

lemma read_scopes_result:
  "case map_res (read_scope yaml py_str int_str st) scopes of
     Inl e \<Rightarrow> (\<exists>scope \<in> set scopes. (scope \<noteq> UserScope \<or> ps_user_base st) \<and> ps_base_error st scope = Some e) \<or>
       \<not> skipped e \<and> Inl e \<in> (\<Union>scope \<in> set scopes. scope_reads yaml py_str int_str st scope)
   | Inr bss \<Rightarrow> set (concat bss) = {b. Inr b \<in> (\<Union>scope \<in> set scopes. scope_reads yaml py_str int_str st scope)} \<and>
       {e. Inl e \<in> (\<Union>scope \<in> set scopes. scope_reads yaml py_str int_str st scope)} \<subseteq> Collect skipped"
proof (induction scopes)
  case (Cons x xs)
  with read_scope_result[where yaml = yaml and py_str = py_str and int_str = int_str and st = st and scope = x] show ?case
    by (auto simp: bind_res_def split: sum.splits)
qed simp

lemma list_map_snd_best:
  assumes "best_of bs winners"
  shows "pb_id ` set (map snd winners) = pb_id ` set bs \<and> distinct (map pb_id (map snd winners)) \<and>
    list_all (\<lambda>w. wins bs (pb_id w) w) (map snd winners)"
proof -
  have ok: "od_ok winners" and at_id: "\<And>i. case map_of winners i of None \<Rightarrow> i \<notin> pb_id ` set bs | Some w \<Rightarrow> wins bs i w"
    using assms by (simp_all add: best_of_def)
  have entry: "wins bs i w" if "(i, w) \<in> set winners" for i w
    using at_id[of i] that ok by (simp add: map_of_is_SomeI)
  then have ids: "map pb_id (map snd winners) = map fst winners"
    by (auto simp: wins_def)
  have "i \<in> fst ` set winners" if "i \<in> pb_id ` set bs" for i
  proof -
    have "map_of winners i \<noteq> None" using at_id[of i] that by (cases "map_of winners i") auto
    then show ?thesis by (simp add: map_of_eq_None_iff)
  qed
  moreover have "i \<in> pb_id ` set bs" if "(i, w) \<in> set winners" for i w
    using entry[OF that] by (auto simp: wins_def)
  ultimately have "fst ` set winners = pb_id ` set bs" by force
  then have "pb_id ` set (map snd winners) = pb_id ` set bs" using arg_cong[OF ids, of set] by (metis list.set_map)
  moreover have "list_all (\<lambda>w. wins bs (pb_id w) w) (map snd winners)"
    using entry by (fastforce simp: list_all_iff wins_def)
  moreover have "distinct (map pb_id (map snd winners))" unfolding ids by (rule ok)
  ultimately show ?thesis by blast
qed

lemma distinct_map_sort_key: "distinct (map f (sort_key k xs)) = distinct (map f xs)"
  by (simp add: distinct_map)

text \<open>
  C29. What a listing returns, and every way it can fail. A listing that returns has read every
  file of its scopes, and skipped those whose reading raised a \<open>KeyError\<close>, \<open>TypeError\<close>, \<open>ValueError\<close>, \<open>OSError\<close> or
  \<open>YAMLError\<close>: of the blocks that apply to the agent, each id is listed once with a block
  of the highest rank (an agent's block over a general one, then the narrower scope), by
  descending priority and then id. A listing fails in three ways only: a scope's
  directory cannot be looked at or walked (outside the \<open>try\<close>); a file raises an exception of another class, which is the
  \<open>OverflowError\<close> of an infinite priority or whatever else the YAML reader raised; or a block that was
  read has an agent id that is a list or a mapping (\<open>TypeError\<close>).
\<close>

theorem pinned_list_spec:
  "case list_blocks yaml py_str int_str agent st of
     Inl e \<Rightarrow> (\<exists>scope \<in> set (scopes_read st). ps_base_error st scope = Some e) \<or>
       reads_file yaml py_str int_str st (Inl e) \<and> \<not> skipped e \<and> (e = Py OverflowErr \<or> (\<exists>s. yaml s = Inl e)) \<or>
       e = Py TypeErr \<and> (\<exists>b. reads_file yaml py_str int_str st (Inr b) \<and> unhashable (pb_agent b))
   | Inr out \<Rightarrow> {e. reads_file yaml py_str int_str st (Inl e)} \<subseteq> Collect skipped \<and>
       (\<exists>blocks. set blocks = {b. reads_file yaml py_str int_str st (Inr b)} \<and>
         (let bs = filter (applies agent) blocks in
          pb_id ` set out = pb_id ` set bs \<and> distinct (map pb_id out) \<and>
          list_all (\<lambda>w. wins bs (pb_id w) w) out \<and> sorted (map list_order out)))"
proof -
  let ?read = "map_res (read_scope yaml py_str int_str st) (pinned_scopes st)"
  have def': "list_blocks yaml py_str int_str agent st = bind_res ?read (\<lambda>candidates.
      bind_res (applicable_blocks agent (concat candidates)) (\<lambda>bs. Inr (sort_key list_order (map snd (foldl winner_step [] bs)))))"
    by (simp add: list_blocks_def pinned_scopes_def)
  have files: "r \<in> (\<Union>scope \<in> set (pinned_scopes st). scope_reads yaml py_str int_str st scope) \<longleftrightarrow>
      reads_file yaml py_str int_str st r" for r
    using reads_file_scopes[of yaml py_str int_str st] by blast
  note read = read_scopes_result[where yaml = yaml and py_str = py_str and int_str = int_str and st = st
      and scopes = "pinned_scopes st", unfolded files]
  show ?thesis
  proof (cases ?read)
    case (Inl e)
    have "e = Py OverflowErr \<or> (\<exists>s. yaml s = Inl e)" if "reads_file yaml py_str int_str st (Inl e)" "\<not> skipped e"
      using that(1) read_block_escapes[OF _ that(2)] unfolding reads_file_def by blast
    with read Inl show ?thesis by (auto simp: def' scopes_read_def)
  next
    case (Inr candidates)
    with read have blocks: "set (concat candidates) = {b. reads_file yaml py_str int_str st (Inr b)}"
      and errors: "{e. reads_file yaml py_str int_str st (Inl e)} \<subseteq> Collect skipped" by (simp_all del: set_concat)
    show ?thesis
    proof (cases "applicable_blocks agent (concat candidates)")
      case fails: (Inl e)
      with applicable_result[where agent = agent and bs = "concat candidates"] blocks Inr show ?thesis
        by (auto simp: def' simp del: set_concat)
    next
      case bs: (Inr bs)
      then have "bs = filter (applies agent) (concat candidates)"
        using applicable_result[where agent = agent and bs = "concat candidates"] by simp
      with Inr bs blocks errors list_map_snd_best[OF winners_best[of bs]] show ?thesis
        by (auto simp: def' Let_def list_all_iff distinct_map_sort_key simp del: map_map set_concat
            intro!: exI[of _ "concat candidates"])
    qed
  qed
qed

section \<open>Writing, reading and deleting one block\<close>

definition PINNED_BLOCK_MAX_CHARS :: nat where "PINNED_BLOCK_MAX_CHARS = 2000"
definition PINNED_TOTAL_MAX_CHARS :: int where "PINNED_TOTAL_MAX_CHARS = 6000"

definition id_char :: "char \<Rightarrow> bool" where
  "id_char c \<longleftrightarrow> (let n = of_char c :: nat in
     (65 \<le> n \<and> n \<le> 90) \<or> (97 \<le> n \<and> n \<le> 122) \<or> (48 \<le> n \<and> n \<le> 57) \<or> n = 46 \<or> n = 95 \<or> n = 45)"

definition valid_id :: "string \<Rightarrow> bool" where
  "valid_id s \<longleftrightarrow> s \<noteq> [] \<and> list_all id_char s \<and> s \<noteq> ''.'' \<and> s \<noteq> ''..''"

text \<open>\<open>_base\<close>: a user tier or a project root has to exist; and the path below that directory.\<close>

definition check_base :: "pinned_store \<Rightarrow> target_scope \<Rightarrow> (pin_error, unit) result" where
  "check_base st scope =
     (if scope = UserScope then (if ps_user_base st then Inr () else Inl ConfigFails)
      else if ps_project st then Inr () else Inl ScopeFails)"

definition block_path ::
  "pinned_store \<Rightarrow> target_scope \<Rightarrow> string \<Rightarrow> string option \<Rightarrow> (pin_error, string list) result" where
  "block_path st scope block_id agent =
     (if \<not> valid_id block_id then Inl (Py ValueErr)
      else case agent of
          Some a \<Rightarrow>
            if \<not> valid_id a then Inl (Py ValueErr)
            else bind_res (check_base st scope) (\<lambda>_. Inr [''agents'', a, block_id @ ''.md''])
        | None \<Rightarrow> bind_res (check_base st scope) (\<lambda>_. Inr [''general'', block_id @ ''.md'']))"

definition write_file :: "target_scope \<Rightarrow> string list \<Rightarrow> ustr \<Rightarrow> pinned_store \<Rightarrow> pinned_store" where
  "write_file scope path str st = st\<lparr>ps_files := (ps_files st)(scope := od_set path (Some str) (ps_files st scope))\<rparr>"

text \<open>
  \<open>guard\<close> is the privacy write guard on the text it scans, \<open>read_only\<close> the check of the resolved
  path, \<open>dump\<close> is \<open>yaml.safe_dump(...).rstrip()\<close>; \<open>of_string\<close> gives the code points of a string.
\<close>

definition set_block ::
  "(ustr \<Rightarrow> target_scope \<Rightarrow> bool \<Rightarrow> bool) \<Rightarrow> (target_scope \<Rightarrow> string list \<Rightarrow> bool) \<Rightarrow> ((string \<times> json) list \<Rightarrow> ustr)
    \<Rightarrow> string \<Rightarrow> ustr \<Rightarrow> target_scope \<Rightarrow> string option \<Rightarrow> string \<Rightarrow> int \<Rightarrow> bool \<Rightarrow> bool \<Rightarrow> pinned_store
    \<Rightarrow> (pin_error, pinned_block) result \<times> pinned_store" where
  "set_block guard read_only dump block_id content scope agent description priority confirm force st =
     (if length content > PINNED_BLOCK_MAX_CHARS then (Inl (Py ValueErr), st)
      else if scope = ProjectShared \<and> \<not> confirm then (Inl (Py ValueErr), st)
      else if scope = UserScope \<and> ps_refused st then (Inl ConfigFails, st)
      else if \<not> guard (content @ [10] @ lit description) scope force then (Inl (Py ValueErr), st)
      else case block_path st scope block_id agent of
          Inl e \<Rightarrow> (Inl e, st)
        | Inr path \<Rightarrow>
            (let agent_json = (case agent of None \<Rightarrow> JNull | Some a \<Rightarrow> JStr a) in
             if read_only scope path then (Inl ConfigFails, st)
             else (Inr \<lparr>pb_id = block_id, pb_content = rstrip content, pb_scope = scope, pb_path = path,
                 pb_description = description, pb_priority = priority, pb_agent = agent_json\<rparr>,
               write_file scope path (OPEN_FENCE @ dump [(''id'', JStr block_id), (''description'', JStr description),
                 (''priority'', JInt priority), (''agent_id'', agent_json)] @ CLOSE_FENCE @ rstrip content @ [10]) st)))"

definition get_block ::
  "(ustr \<Rightarrow> (pin_error, json) result) \<Rightarrow> (json \<Rightarrow> string) \<Rightarrow> (string \<Rightarrow> int option) \<Rightarrow> string \<Rightarrow> target_scope \<Rightarrow> string option
    \<Rightarrow> pinned_store \<Rightarrow> (pin_error, pinned_block option) result" where
  "get_block yaml py_str int_str block_id scope agent st =
     (if scope = UserScope \<and> \<not> ps_user_base st then Inr None
      else bind_res (block_path st scope block_id agent) (\<lambda>path.
        case map_of (ps_files st scope) path of
          None \<Rightarrow> Inr None
        | Some None \<Rightarrow> Inl FileFails
        | Some (Some str) \<Rightarrow>
            bind_res (split_frontmatter yaml str) (\<lambda>p.
              bind_res (lift_py (py_int int_str (j_get_or (fst p) ''priority'' (JInt 0)))) (\<lambda>prio.
                Inr (Some \<lparr>pb_id = py_str (j_get_or (fst p) ''id'' (JStr block_id)), pb_content = snd p, pb_scope = scope,
                  pb_path = path, pb_description = py_str (j_get_or (fst p) ''description'' (JStr [])),
                  pb_priority = prio, pb_agent = j_get (fst p) ''agent_id''\<rparr>)))))"

definition delete_block ::
  "(target_scope \<Rightarrow> string list \<Rightarrow> bool) \<Rightarrow> string \<Rightarrow> target_scope \<Rightarrow> string option \<Rightarrow> bool \<Rightarrow> pinned_store
    \<Rightarrow> (pin_error, bool) result \<times> pinned_store" where
  "delete_block read_only block_id scope agent confirm st =
     (if scope = ProjectShared \<and> \<not> confirm then (Inl (Py ValueErr), st)
      else if scope = UserScope \<and> ps_refused st then (Inl ConfigFails, st)
      else case block_path st scope block_id agent of
          Inl e \<Rightarrow> (Inl e, st)
        | Inr path \<Rightarrow>
            if read_only scope path then (Inl ConfigFails, st)
            else (Inr (map_of (ps_files st scope) path \<noteq> None),
                  st\<lparr>ps_files := (ps_files st)(scope := od_del path (ps_files st scope))\<rparr>))"

section \<open>Composing a bundle\<close>

datatype score_scale = RerankScale | RrfScale | Bm25Scale | DenseScale | NoScale

record context_payload =
  cp_id :: string
  cp_content :: ustr
  cp_source :: string
  cp_namespace :: ustr

definition context_chunk_payload :: "chunk \<Rightarrow> context_payload" where
  "context_chunk_payload c = \<lparr>cp_id = ch_id c, cp_content = ch_content c,
     cp_source = md_source_file (ch_metadata c), cp_namespace = md_namespace (ch_metadata c)\<rparr>"

record bundle_context =
  bc_before :: "context_payload list"
  bc_after :: "context_payload list"
  bc_position :: int
  bc_total :: int

record bundle_item =
  bi_hit :: context_payload
  bi_score :: real
  bi_context :: "bundle_context option"

record context_bundle =
  cb_pinned :: "pinned_block list"
  cb_retrieved :: "bundle_item list"
  cb_max_chars :: int
  cb_used_chars :: int
  cb_omitted :: "string list"
  cb_warned :: bool
  cb_score_scale :: "score_scale option"
  cb_reranker :: "string option"

definition new_bundle :: "context_bundle \<Rightarrow> (pin_error, context_bundle) result" where
  "new_bundle b =
     (if cb_reranker b \<noteq> None \<and> cb_score_scale b \<noteq> Some RerankScale then Inl (Py ValueErr)
      else if cb_score_scale b = Some RerankScale \<and> cb_reranker b = None then Inl (Py ValueErr)
      else Inr b)"

abbreviation chars :: "'a list \<Rightarrow> int" where
  "chars s \<equiv> int (length s)"

text \<open>The pinned loop: blocks taken, ids omitted, characters used.\<close>

fun take_pinned :: "int \<Rightarrow> int \<Rightarrow> pinned_block list \<Rightarrow> pinned_block list \<times> string list \<times> int" where
  "take_pinned budget used [] = ([], [], used)"
| "take_pinned budget used (b # bs) =
     (if used + chars (pb_content b) > budget
      then (let r = take_pinned budget used bs in (fst r, pb_id b # fst (snd r), snd (snd r)))
      else (let r = take_pinned budget (used + chars (pb_content b)) bs in (b # fst r, snd r)))"

fun take_hits :: "int \<Rightarrow> int \<Rightarrow> search_result list \<Rightarrow> search_result list \<times> int" where
  "take_hits max_chars used [] = ([], used)"
| "take_hits max_chars used (r # rs) =
     (if used + chars (ch_content (sr_chunk r)) > max_chars then take_hits max_chars used rs
      else (let q = take_hits max_chars (used + chars (ch_content (sr_chunk r))) rs in (r # fst q, snd q)))"

text \<open>The selection state of one matched hit; hits without context have no window.\<close>

record window =
  wn_info :: "context_info option"
  wn_before :: "chunk list"
  wn_after :: "chunk list"

type_synonym alloc = "int \<times> string list"

text \<open>Take a chunk unless it is out already or does not fit: the chunks taken, and the state.\<close>

definition try_chunk :: "int \<Rightarrow> chunk option \<Rightarrow> alloc \<Rightarrow> chunk list \<times> alloc" where
  "try_chunk max_chars c st =
     (case c of
        None \<Rightarrow> ([], st)
      | Some c \<Rightarrow>
          if ch_id c \<in> set (snd st) then ([], st)
          else if fst st + chars (ch_content c) \<le> max_chars
          then ([c], (fst st + chars (ch_content c), ch_id c # snd st)) else ([], st))"

definition before_candidate :: "nat \<Rightarrow> context_info \<Rightarrow> chunk option" where
  "before_candidate d ci = (let ws = ci_window_before ci in
     if d < length ws then Some (ws ! (length ws - (d + 1))) else None)"

definition after_candidate :: "nat \<Rightarrow> context_info \<Rightarrow> chunk option" where
  "after_candidate d ci = (let ws = ci_window_after ci in if d < length ws then Some (ws ! d) else None)"

definition allocate_window :: "int \<Rightarrow> nat \<Rightarrow> window \<Rightarrow> alloc \<Rightarrow> window \<times> alloc" where
  "allocate_window max_chars d w st =
     (case wn_info w of
        None \<Rightarrow> (w, st)
      | Some ci \<Rightarrow>
          (let before = try_chunk max_chars (before_candidate d ci) st;
               after = try_chunk max_chars (after_candidate d ci) (snd before)
           in (w\<lparr>wn_before := wn_before w @ fst before, wn_after := wn_after w @ fst after\<rparr>, snd after)))"

fun allocate_round :: "int \<Rightarrow> nat \<Rightarrow> window list \<Rightarrow> alloc \<Rightarrow> window list \<times> alloc" where
  "allocate_round max_chars d [] st = ([], st)"
| "allocate_round max_chars d (w # ws) st =
     (let a = allocate_window max_chars d w st; r = allocate_round max_chars d ws (snd a)
      in (fst a # fst r, snd r))"

definition window_reach :: "window \<Rightarrow> nat" where
  "window_reach w = (case wn_info w of None \<Rightarrow> 0
     | Some ci \<Rightarrow> max (length (ci_window_before ci)) (length (ci_window_after ci)))"

definition allocate :: "int \<Rightarrow> window list \<Rightarrow> alloc \<Rightarrow> window list \<times> alloc" where
  "allocate max_chars ws st =
     foldl (\<lambda>p d. allocate_round max_chars d (fst p) (snd p)) (ws, st) [0..<foldl max 0 (map window_reach ws)]"

definition finish_item :: "search_result \<times> window \<Rightarrow> bundle_item" where
  "finish_item p =
     \<lparr>bi_hit = context_chunk_payload (sr_chunk (fst p)), bi_score = sr_score (fst p),
      bi_context = (case wn_info (snd p) of
          None \<Rightarrow> None
        | Some ci \<Rightarrow>
            if wn_before (snd p) \<noteq> [] \<or> wn_after (snd p) \<noteq> []
            then Some \<lparr>bc_before = map context_chunk_payload (rev (wn_before (snd p))),
              bc_after = map context_chunk_payload (wn_after (snd p)), bc_position = ci_chunk_position ci,
              bc_total = ci_total_chunks_in_file ci\<rparr>
            else None)\<rparr>"

text \<open>\<open>search\<close> is what the pipeline would answer: hits, scale and reranker; None without a pipeline.\<close>

definition compose ::
  "pinned_block list \<Rightarrow> (search_result list \<times> score_scale option \<times> string option) option \<Rightarrow> string option \<Rightarrow> int
    \<Rightarrow> (pin_error, context_bundle) result" where
  "compose blocks search query max_chars =
     (let pins = take_pinned (min PINNED_TOTAL_MAX_CHARS max_chars) 0 blocks;
          used = snd (snd pins);
          bundle = \<lparr>cb_pinned = fst pins, cb_retrieved = [], cb_max_chars = max_chars, cb_used_chars = used,
            cb_omitted = fst (snd pins), cb_warned = (fst (snd pins) \<noteq> []), cb_score_scale = None, cb_reranker = None\<rparr>
      in case search of
           Some (results, scale, reranker) \<Rightarrow>
             if query \<noteq> None \<and> query \<noteq> Some [] \<and> used < max_chars then
               (let hits = take_hits max_chars used results;
                    windows = map (\<lambda>r. \<lparr>wn_info = sr_context r, wn_before = [], wn_after = []\<rparr>) (fst hits);
                    filled = allocate max_chars windows (snd hits, map (\<lambda>r. ch_id (sr_chunk r)) (fst hits))
                in new_bundle (bundle\<lparr>cb_retrieved := map finish_item (zip (fst hits) (fst filled)),
                     cb_used_chars := fst (snd filled),
                     cb_score_scale := (if fst hits \<noteq> [] then scale else None),
                     cb_reranker := (if fst hits \<noteq> [] then reranker else None)\<rparr>))
             else new_bundle bundle
         | None \<Rightarrow> new_bundle bundle)"

definition compose_context ::
  "(ustr \<Rightarrow> (pin_error, json) result) \<Rightarrow> (json \<Rightarrow> string) \<Rightarrow> (string \<Rightarrow> int option) \<Rightarrow> string option \<Rightarrow> pinned_store
    \<Rightarrow> (search_result list \<times> score_scale option \<times> string option) option \<Rightarrow> string option \<Rightarrow> int
    \<Rightarrow> (pin_error, context_bundle) result" where
  "compose_context yaml py_str int_str agent st search query max_chars =
     bind_res (list_blocks yaml py_str int_str agent st) (\<lambda>blocks. compose blocks search query max_chars)"

section \<open>A written block reads back\<close>

lemma rstrip_end: "rstrip_newlines (rstrip s @ [10]) = rstrip s"
proof (cases "dropWhile is_space (rev s)")
  case Nil
  show ?thesis unfolding rstrip_newlines_def rstrip_def Nil by simp
next
  case (Cons c cs)
  then have "\<not> is_space c" by (metis dropWhile_eq_Cons_conv)
  then have "c \<noteq> 10" by (auto simp: is_space_def)
  with Cons show ?thesis by (simp add: rstrip_newlines_def rstrip_def)
qed

text \<open>The YAML text holds no closing fence, not even across its end.\<close>

definition fence_free :: "ustr \<Rightarrow> bool" where
  "fence_free d \<longleftrightarrow> list_all (\<lambda>i. take 5 (drop i (d @ CLOSE_FENCE)) \<noteq> CLOSE_FENCE) [0..<length d]"

lemma find_first:
  "k \<in> set xs \<Longrightarrow> P k \<Longrightarrow> sorted_wrt (<) xs \<Longrightarrow> (\<And>i. i \<in> set xs \<Longrightarrow> i < k \<Longrightarrow> \<not> P i) \<Longrightarrow> find P xs = Some k"
  for k :: nat
  by (induction xs) auto

lemma split_written:
  assumes "fence_free d" and "yaml d = Inr (JObj (p # ps))"
  shows "split_frontmatter yaml (OPEN_FENCE @ d @ CLOSE_FENCE @ rest) = Inr (p # ps, rstrip_newlines rest)"
proof -
  let ?t = "OPEN_FENCE @ d @ CLOSE_FENCE @ rest"
  have open4: "length OPEN_FENCE = 4" and close5: "length CLOSE_FENCE = 5"
    by (simp_all add: OPEN_FENCE_def CLOSE_FENCE_def)
  have early: "take 5 (drop i ?t) \<noteq> CLOSE_FENCE" if i: "4 \<le> i" "i < length d + 4" for i
  proof -
    have "take 5 (drop i ?t) = take 5 (drop (i - 4) (d @ CLOSE_FENCE))"
      using i by (simp add: open4 close5 drop_append take_append)
    moreover have "i - 4 < length d" using i by simp
    ultimately show ?thesis using assms(1) by (simp add: fence_free_def list_all_iff)
  qed
  have "find (\<lambda>i. take 5 (drop i ?t) = CLOSE_FENCE) [4..<length ?t] = Some (length d + 4)"
  proof (rule find_first)
    show "take 5 (drop (length d + 4) ?t) = CLOSE_FENCE" by (simp add: open4 close5 drop_append)
    show "\<not> take 5 (drop i ?t) = CLOSE_FENCE" if "i \<in> set [4..<length ?t]" "i < length d + 4" for i
      using early that by simp
  qed (auto simp: open4 close5 simp del: upt_Suc)
  moreover have "take 4 ?t = OPEN_FENCE" by (simp add: open4)
  moreover have "slice 4 (length d + 4) ?t = d" by (simp add: slice_def open4)
  moreover have "drop (length d + 4 + 5) ?t = rest" by (simp add: open4 close5 drop_append)
  ultimately show ?thesis using assms(2) by (simp add: split_frontmatter_def)
qed

definition block_fields :: "string \<Rightarrow> string \<Rightarrow> int \<Rightarrow> string option \<Rightarrow> (string \<times> json) list" where
  "block_fields block_id description priority agent = [(''id'', JStr block_id), (''description'', JStr description),
     (''priority'', JInt priority), (''agent_id'', case agent of None \<Rightarrow> JNull | Some a \<Rightarrow> JStr a)]"

lemma block_path_ok:
  "block_path st scope block_id agent = Inr path \<Longrightarrow>
   (scope \<noteq> UserScope \<or> ps_user_base st) \<and>
   path = (case agent of None \<Rightarrow> [''general'', block_id @ ''.md''] | Some a \<Rightarrow> [''agents'', a, block_id @ ''.md''])"
  by (auto simp: block_path_def check_base_def bind_res_Inr_conv split: if_splits option.splits)

lemma set_block_ok:
  assumes "set_block guard read_only dump block_id content scope agent description priority confirm force st = (Inr b, st')"
  obtains path where "block_path st scope block_id agent = Inr path"
    "b = \<lparr>pb_id = block_id, pb_content = rstrip content, pb_scope = scope, pb_path = path,
       pb_description = description, pb_priority = priority, pb_agent = (case agent of None \<Rightarrow> JNull | Some a \<Rightarrow> JStr a)\<rparr>"
    "st' = write_file scope path (OPEN_FENCE @ dump (block_fields block_id description priority agent) @
       CLOSE_FENCE @ rstrip content @ [10]) st"
  using assms by (auto simp: set_block_def block_fields_def Let_def split: if_splits sum.splits)

lemma check_base_write [simp]: "check_base (write_file sc p s st) scope = check_base st scope"
  by (simp add: check_base_def write_file_def)

lemma block_path_write [simp]: "block_path (write_file sc p s st) scope block_id agent = block_path st scope block_id agent"
  by (cases agent) (simp_all add: block_path_def)

lemma write_file_base [simp]: "ps_user_base (write_file sc p s st) = ps_user_base st"
  by (simp add: write_file_def)

text \<open>
  A block that is set reads back as it was returned, and writing it leaves every other
  block as it was. (The YAML library reads the mappings it writes and writes no document
  separator inside one.)
\<close>

theorem pinned_set_get:
  assumes set: "set_block guard read_only dump block_id content scope agent description priority confirm force st = (Inr b, st')"
    and yaml: "yaml (dump (block_fields block_id description priority agent)) = Inr (JObj (block_fields block_id description priority agent))"
    and fence: "fence_free (dump (block_fields block_id description priority agent))"
    and str: "\<And>s. py_str (JStr s) = s"
    and other: "(scope', block_id', agent') \<noteq> (scope, block_id, agent)"
  shows "get_block yaml py_str int_str block_id scope agent st' = Inr (Some b) \<and>
    get_block yaml py_str int_str block_id' scope' agent' st' = get_block yaml py_str int_str block_id' scope' agent' st"
proof -
  obtain path where path: "block_path st scope block_id agent = Inr path"
    and b: "b = \<lparr>pb_id = block_id, pb_content = rstrip content, pb_scope = scope, pb_path = path,
       pb_description = description, pb_priority = priority, pb_agent = (case agent of None \<Rightarrow> JNull | Some a \<Rightarrow> JStr a)\<rparr>"
    and st': "st' = write_file scope path (OPEN_FENCE @ dump (block_fields block_id description priority agent) @
       CLOSE_FENCE @ rstrip content @ [10]) st"
    using set_block_ok[OF set] .
  let ?d = "block_fields block_id description priority agent"
  have "split_frontmatter yaml (OPEN_FENCE @ dump ?d @ CLOSE_FENCE @ rstrip content @ [10]) = Inr (?d, rstrip content)"
    using split_written[OF fence, of yaml _ _ "rstrip content @ [10]"] yaml rstrip_end by (simp add: block_fields_def)
  then have this_block: "get_block yaml py_str int_str block_id scope agent st' = Inr (Some b)"
    using block_path_ok[OF path] path str
    by (simp add: get_block_def st' b) (simp add: write_file_def block_fields_def lift_py_def j_get_or_def j_get_def)
  have "get_block yaml py_str int_str block_id' scope' agent' st' = get_block yaml py_str int_str block_id' scope' agent' st"
  proof (cases "block_path st scope' block_id' agent'")
    case (Inl e)
    then show ?thesis by (simp add: get_block_def st')
  next
    case (Inr path')
    then have "scope' = scope \<Longrightarrow> path' \<noteq> path"
      using block_path_ok[OF path] block_path_ok[OF Inr] other by (auto split: option.splits)
    then have "map_of (ps_files st' scope') path' = map_of (ps_files st scope') path'"
      by (simp add: st' write_file_def)
    with Inr show ?thesis by (simp add: get_block_def st')
  qed
  with this_block show ?thesis ..
qed

definition sample_store :: pinned_store where
  "sample_store = \<lparr>ps_files = (\<lambda>_. []), ps_base_error = (\<lambda>_. None), ps_user_base = True, ps_project = False, ps_refused = False\<rparr>"

theorem pinned_set_get_witness:
  "\<exists>b st'. set_block (\<lambda>_ _ _. True) (\<lambda>_ _. False) (\<lambda>_. [97]) ''a'' [104, 105, 10] UserScope None [] 0 False False sample_store = (Inr b, st') \<and>
     get_block (\<lambda>_. Inr (JObj (block_fields ''a'' [] 0 None))) (\<lambda>j. case j of JStr s \<Rightarrow> s | _ \<Rightarrow> []) (\<lambda>_. None)
       ''a'' UserScope None st' = Inr (Some b) \<and> pb_content b = [104, 105]"
proof -
  let ?set = "set_block (\<lambda>_ _ _. True) (\<lambda>_ _. False) (\<lambda>_. [97]) ''a'' [104, 105, 10] UserScope None [] 0 False False sample_store"
  have "case fst ?set of Inl e \<Rightarrow> False | Inr b \<Rightarrow> pb_content b = [104, 105]"
    by (simp add: set_block_def block_path_def check_base_def valid_id_def id_char_def sample_store_def
        PINNED_BLOCK_MAX_CHARS_def Let_def rstrip_def is_space_def)
  then obtain b st' where run: "?set = (Inr b, st')" "pb_content b = [104, 105]"
    by (cases ?set) (auto split: sum.splits)
  have "fence_free [97]" by (simp add: fence_free_def CLOSE_FENCE_def)
  with pinned_set_get[OF run(1), of "\<lambda>_. Inr (JObj (block_fields ''a'' [] 0 None))" "\<lambda>j. case j of JStr s \<Rightarrow> s | _ \<Rightarrow> []"
      ProjectShared "''b''" None "\<lambda>_. None"] run show ?thesis
    by auto
qed

section \<open>A bundle stays within its budget\<close>

definition chunk_chars :: "chunk list \<Rightarrow> int" where
  "chunk_chars cs = (\<Sum>c \<leftarrow> cs. chars (ch_content c))"

text \<open>What taking the chunks \<open>cs\<close> does to the allocation state.\<close>

definition adds :: "int \<Rightarrow> chunk list \<Rightarrow> alloc \<Rightarrow> alloc \<Rightarrow> bool" where
  "adds max_chars cs st st' \<longleftrightarrow> fst st' = fst st + chunk_chars cs \<and> (fst st \<le> max_chars \<longrightarrow> fst st' \<le> max_chars) \<and>
     set (snd st') = set (snd st) \<union> ch_id ` set cs \<and> distinct (map ch_id cs) \<and> ch_id ` set cs \<inter> set (snd st) = {}"

lemma adds_Nil [simp]: "adds max_chars [] st st"
  by (simp add: adds_def chunk_chars_def)

lemma adds_trans: "adds m cs st st1 \<Longrightarrow> adds m ds st1 st2 \<Longrightarrow> adds m (cs @ ds) st st2"
  unfolding adds_def chunk_chars_def by auto

lemma try_chunk_adds: "adds m (fst (try_chunk m c st)) st (snd (try_chunk m c st))"
  by (auto simp: try_chunk_def adds_def chunk_chars_def split: option.split)

definition chosen :: "window list \<Rightarrow> chunk list" where
  "chosen ws = concat (map (\<lambda>w. wn_before w @ wn_after w) ws)"

lemma allocate_window_adds:
  "\<exists>cs. adds m cs st (snd (allocate_window m d w st)) \<and>
     mset (wn_before (fst (allocate_window m d w st)) @ wn_after (fst (allocate_window m d w st)))
       = mset (wn_before w @ wn_after w) + mset cs \<and>
     wn_info (fst (allocate_window m d w st)) = wn_info w"
proof (cases "wn_info w")
  case None
  then show ?thesis by (intro exI[of _ "[]"]) (simp add: allocate_window_def)
next
  case (Some ci)
  let ?b = "try_chunk m (before_candidate d ci) st"
  let ?a = "try_chunk m (after_candidate d ci) (snd ?b)"
  have "adds m (fst ?b @ fst ?a) st (snd ?a)" by (rule adds_trans) (rule try_chunk_adds)+
  with Some show ?thesis by (intro exI[of _ "fst ?b @ fst ?a"]) (simp add: allocate_window_def Let_def)
qed

lemma allocate_round_adds:
  "\<exists>cs. adds m cs st (snd (allocate_round m d ws st)) \<and>
     mset (chosen (fst (allocate_round m d ws st))) = mset (chosen ws) + mset cs \<and>
     map wn_info (fst (allocate_round m d ws st)) = map wn_info ws"
proof (induction m d ws st rule: allocate_round.induct)
  case (1 m d st)
  show ?case by (intro exI[of _ "[]"]) simp
next
  case (2 m d w ws st)
  let ?a = "allocate_window m d w st"
  let ?r = "allocate_round m d ws (snd ?a)"
  obtain cs where cs: "adds m cs st (snd ?a)" "wn_info (fst ?a) = wn_info w"
    "mset (wn_before (fst ?a) @ wn_after (fst ?a)) = mset (wn_before w @ wn_after w) + mset cs"
    using allocate_window_adds by blast
  obtain ds where ds: "adds m ds (snd ?a) (snd ?r)" "mset (chosen (fst ?r)) = mset (chosen ws) + mset ds"
    "map wn_info (fst ?r) = map wn_info ws"
    using 2[OF refl] by blast
  have "mset (chosen (fst ?a # fst ?r)) = mset (chosen (w # ws)) + mset (cs @ ds)"
    using cs(3) ds(2) by (simp add: chosen_def)
  with adds_trans[OF cs(1) ds(1)] cs(2) ds(3) show ?case
    by (intro exI[of _ "cs @ ds"]) (simp add: Let_def)
qed

lemma allocate_adds:
  "\<exists>cs. adds m cs st (snd (foldl (\<lambda>p d. allocate_round m d (fst p) (snd p)) (ws, st) ds)) \<and>
     mset (chosen (fst (foldl (\<lambda>p d. allocate_round m d (fst p) (snd p)) (ws, st) ds))) = mset (chosen ws) + mset cs \<and>
     map wn_info (fst (foldl (\<lambda>p d. allocate_round m d (fst p) (snd p)) (ws, st) ds)) = map wn_info ws"
proof (induction ds rule: rev_induct)
  case Nil
  show ?case by (intro exI[of _ "[]"]) simp
next
  case (snoc d ds)
  let ?p = "foldl (\<lambda>p d. allocate_round m d (fst p) (snd p)) (ws, st) ds"
  obtain cs where cs: "adds m cs st (snd ?p)" "mset (chosen (fst ?p)) = mset (chosen ws) + mset cs"
    "map wn_info (fst ?p) = map wn_info ws" using snoc by blast
  obtain es where es: "adds m es (snd ?p) (snd (allocate_round m d (fst ?p) (snd ?p)))"
    "mset (chosen (fst (allocate_round m d (fst ?p) (snd ?p)))) = mset (chosen (fst ?p)) + mset es"
    "map wn_info (fst (allocate_round m d (fst ?p) (snd ?p))) = map wn_info (fst ?p)"
    using allocate_round_adds by blast
  from adds_trans[OF cs(1) es(1)] cs es show ?case by (intro exI[of _ "cs @ es"]) simp
qed

lemma take_pinned_ok:
  "used \<le> budget \<Longrightarrow> case take_pinned budget used bs of (pins, omitted, spent) \<Rightarrow>
     spent = used + (\<Sum>b \<leftarrow> pins. chars (pb_content b)) \<and> spent \<le> budget \<and>
     mset (map pb_id pins) + mset omitted = mset (map pb_id bs)"
proof (induction budget used bs rule: take_pinned.induct)
  case (2 budget used b bs)
  show ?case
  proof (cases "used + chars (pb_content b) > budget")
    case True
    then show ?thesis using 2(1)[OF True 2(3)] by (auto simp: Let_def split: prod.splits)
  next
    case False
    then show ?thesis using 2(2)[OF False] by (auto simp: Let_def split: prod.splits)
  qed
qed simp

lemma take_hits_ok:
  "used \<le> m \<Longrightarrow> snd (take_hits m used rs) = used + (\<Sum>r \<leftarrow> fst (take_hits m used rs). chars (ch_content (sr_chunk r))) \<and>
     snd (take_hits m used rs) \<le> m"
  by (induction m used rs rule: take_hits.induct) (auto simp: Let_def)

text \<open>A hit without context has no window, and never gets one.\<close>

definition idle :: "window \<Rightarrow> bool" where
  "idle w \<longleftrightarrow> (wn_info w = None \<longrightarrow> wn_before w = [] \<and> wn_after w = [])"

lemma allocate_round_idle: "list_all idle ws \<Longrightarrow> list_all idle (fst (allocate_round m d ws st))"
  by (induction m d ws st rule: allocate_round.induct)
     (auto simp: Let_def allocate_window_def idle_def split: option.split)

lemma allocate_idle: "list_all idle ws \<Longrightarrow>
  list_all idle (fst (foldl (\<lambda>p d. allocate_round m d (fst p) (snd p)) (ws, st) ds))"
  by (induction ds rule: rev_induct) (simp_all add: allocate_round_idle)

definition item_context :: "bundle_item \<Rightarrow> context_payload list" where
  "item_context i = (case bi_context i of None \<Rightarrow> [] | Some c \<Rightarrow> bc_before c @ bc_after c)"

definition payload_chars :: "context_payload list \<Rightarrow> int" where
  "payload_chars ps = (\<Sum>p \<leftarrow> ps. chars (cp_content p))"

lemma item_context_finish: "idle w \<Longrightarrow>
  mset (item_context (finish_item (r, w))) = image_mset context_chunk_payload (mset (wn_before w @ wn_after w))"
  by (auto simp: item_context_def finish_item_def idle_def split: option.split)

lemma items_context: "length rs = length ws \<Longrightarrow> list_all idle ws \<Longrightarrow>
  mset (concat (map item_context (map finish_item (zip rs ws)))) = image_mset context_chunk_payload (mset (chosen ws))"
proof (induction rs ws rule: list_induct2)
  case (Cons r rs w ws)
  then show ?case using item_context_finish[of w r] by (simp add: chosen_def)
qed (simp add: chosen_def)

lemma items_hits: "length rs = length ws \<Longrightarrow>
  map bi_hit (map finish_item (zip rs ws)) = map (\<lambda>r. context_chunk_payload (sr_chunk r)) rs"
  by (induction rs ws rule: list_induct2) (simp_all add: finish_item_def)

lemma payload_simps [simp]: "cp_id (context_chunk_payload c) = ch_id c" "cp_content (context_chunk_payload c) = ch_content c"
  by (simp_all add: context_chunk_payload_def)

lemma payload_chars_mset: "mset ps = mset qs \<Longrightarrow> payload_chars ps = payload_chars qs"
  unfolding payload_chars_def by (metis mset_map sum_mset_sum_list)

lemma payload_chars_map [simp]: "payload_chars (map context_chunk_payload cs) = chunk_chars cs"
  by (simp add: payload_chars_def chunk_chars_def comp_def)

text \<open>The windows a bundle is filled with, from the hits taken and the characters they use.\<close>

definition fill :: "int \<Rightarrow> search_result list \<Rightarrow> int \<Rightarrow> window list \<times> alloc" where
  "fill max_chars hits used = allocate max_chars (map (\<lambda>r. \<lparr>wn_info = sr_context r, wn_before = [], wn_after = []\<rparr>) hits)
     (used, map (\<lambda>r. ch_id (sr_chunk r)) hits)"

lemma fill_items:
  assumes "used \<le> m" and filled: "fill m hits used = (ws, used', ids)"
  defines "items \<equiv> map finish_item (zip hits ws)"
  shows "map bi_hit items = map (\<lambda>r. context_chunk_payload (sr_chunk r)) hits"
    and "used' = used + payload_chars (concat (map item_context items))" and "used' \<le> m"
    and "distinct (map cp_id (concat (map item_context items)))"
    and "cp_id ` set (concat (map item_context items)) \<inter> cp_id ` set (map bi_hit items) = {}"
proof -
  let ?ws = "map (\<lambda>r. \<lparr>wn_info = sr_context r, wn_before = [], wn_after = []\<rparr>) hits"
  let ?st = "(used, map (\<lambda>r. ch_id (sr_chunk r)) hits)"
  let ?ds = "[0..<foldl max 0 (map window_reach ?ws)]"
  let ?ctx = "concat (map item_context items)"
  have run: "foldl (\<lambda>p d. allocate_round m d (fst p) (snd p)) (?ws, ?st) ?ds = (ws, used', ids)"
    using filled unfolding fill_def allocate_def .
  obtain cs where cs: "adds m cs ?st (used', ids)" "mset (chosen ws) = mset (chosen ?ws) + mset cs"
    "map wn_info ws = map wn_info ?ws"
    using allocate_adds[of m ?st ?ws ?ds] unfolding run by auto
  have none: "chosen ?ws = []" by (simp add: chosen_def)
  have len: "length hits = length ws" using arg_cong[OF cs(3), of length] by simp
  have idle: "list_all idle ws"
    using allocate_idle[of ?ws m ?st ?ds] unfolding run by (simp add: list_all_iff idle_def)
  have ctx: "mset ?ctx = mset (map context_chunk_payload cs)"
    using items_context[OF len idle] cs(2) none by (simp add: items_def)
  show hits: "map bi_hit items = map (\<lambda>r. context_chunk_payload (sr_chunk r)) hits"
    unfolding items_def by (rule items_hits[OF len])
  have ids: "mset (map cp_id ?ctx) = mset (map ch_id cs)"
    using arg_cong[OF ctx, of "image_mset cp_id"] by (simp add: multiset.map_comp comp_def)
  show "used' = used + payload_chars ?ctx" "used' \<le> m"
    using cs(1) assms(1) payload_chars_mset[OF ctx] by (simp_all add: adds_def)
  show "distinct (map cp_id ?ctx)"
    using cs(1) mset_eq_imp_distinct_iff[OF ids] by (simp add: adds_def)
  have "set (map cp_id ?ctx) = ch_id ` set cs" using mset_eq_setD[OF ids] by simp
  moreover have "ch_id ` set cs \<inter> set (map (\<lambda>r. ch_id (sr_chunk r)) hits) = {}" using cs(1) by (simp add: adds_def)
  moreover have "cp_id ` set (map bi_hit items) = set (map (\<lambda>r. ch_id (sr_chunk r)) hits)"
    unfolding hits by (simp add: image_image)
  ultimately show "cp_id ` set ?ctx \<inter> cp_id ` set (map bi_hit items) = {}" by simp
qed

lemma new_bundle_ok: "new_bundle b = Inr c \<Longrightarrow> c = b"
  by (auto simp: new_bundle_def split: if_splits)

definition asks :: "string option \<Rightarrow> int \<Rightarrow> int \<Rightarrow> bool" where
  "asks query used max_chars \<longleftrightarrow> query \<noteq> None \<and> query \<noteq> Some [] \<and> used < max_chars"

lemma compose_plain:
  assumes "take_pinned (min PINNED_TOTAL_MAX_CHARS max_chars) 0 blocks = (pins, omitted, used)"
    and "search = None \<or> \<not> asks query used max_chars" and "compose blocks search query max_chars = Inr b"
  shows "b = \<lparr>cb_pinned = pins, cb_retrieved = [], cb_max_chars = max_chars, cb_used_chars = used,
    cb_omitted = omitted, cb_warned = (omitted \<noteq> []), cb_score_scale = None, cb_reranker = None\<rparr>"
proof (cases search)
  case None
  with assms(1,3) show ?thesis by (simp add: compose_def Let_def new_bundle_def)
next
  case (Some s)
  with assms(2) have "\<not> asks query used max_chars" by simp
  with assms(1,3) Some show ?thesis
    by (cases s) (simp add: compose_def new_bundle_def asks_def if_not_P)
qed

lemma compose_filled:
  assumes "take_pinned (min PINNED_TOTAL_MAX_CHARS max_chars) 0 blocks = (pins, omitted, used)"
    and "asks query used max_chars" and "take_hits max_chars used results = (hits, spent)"
    and "fill max_chars hits spent = (ws, used', ids)"
    and "compose blocks (Some (results, scale, reranker)) query max_chars = Inr b"
  shows "cb_pinned b = pins" "cb_omitted b = omitted" "cb_used_chars b = used'"
    "cb_retrieved b = map finish_item (zip hits ws)"
  using assms by (simp_all add: compose_def fill_def asks_def) (drule new_bundle_ok, simp)+

text \<open>
  C27. A composed bundle stays within its budget: the characters it reports are those of its
  pinned blocks, its hits and their context together, and at most the maximum; the pinned
  blocks stay within their own maximum, each block is either included or reported as omitted,
  and no context chunk is emitted twice or repeats a hit.
\<close>

theorem compose_within_budget:
  assumes "compose blocks search query max_chars = Inr b" and "0 \<le> max_chars"
  shows "cb_used_chars b \<le> max_chars \<and>
    cb_used_chars b = (\<Sum>p \<leftarrow> cb_pinned b. chars (pb_content p)) + payload_chars (map bi_hit (cb_retrieved b)) +
      payload_chars (concat (map item_context (cb_retrieved b))) \<and>
    (\<Sum>p \<leftarrow> cb_pinned b. chars (pb_content p)) \<le> PINNED_TOTAL_MAX_CHARS \<and>
    mset (map pb_id (cb_pinned b)) + mset (cb_omitted b) = mset (map pb_id blocks) \<and>
    distinct (map cp_id (concat (map item_context (cb_retrieved b)))) \<and>
    cp_id ` set (concat (map item_context (cb_retrieved b))) \<inter> cp_id ` set (map bi_hit (cb_retrieved b)) = {}"
proof -
  obtain pins omitted used where pins: "take_pinned (min PINNED_TOTAL_MAX_CHARS max_chars) 0 blocks = (pins, omitted, used)"
    by (metis prod_cases3)
  have used: "used = (\<Sum>p \<leftarrow> pins. chars (pb_content p))" "used \<le> max_chars" "used \<le> PINNED_TOTAL_MAX_CHARS"
    "mset (map pb_id pins) + mset omitted = mset (map pb_id blocks)"
    using take_pinned_ok[of 0 "min PINNED_TOTAL_MAX_CHARS max_chars" blocks] assms(2) pins
    by (simp_all add: PINNED_TOTAL_MAX_CHARS_def)
  show ?thesis
  proof (cases "search = None \<or> \<not> asks query used max_chars")
    case True
    show ?thesis using used unfolding compose_plain[OF pins True assms(1)] by (simp add: payload_chars_def)
  next
    case False
    then obtain results scale reranker where search: "search = Some (results, scale, reranker)" by auto
    obtain hits spent where hits: "take_hits max_chars used results = (hits, spent)" by fastforce
    obtain ws used' ids where filled: "fill max_chars hits spent = (ws, used', ids)" by (metis prod_cases3)
    have spent: "spent = used + payload_chars (map (\<lambda>r. context_chunk_payload (sr_chunk r)) hits)" "spent \<le> max_chars"
      using take_hits_ok[OF used(2), of results] hits by (simp_all add: payload_chars_def comp_def)
    have asks: "asks query used max_chars" using False by simp
    note out = compose_filled[OF pins asks hits filled assms(1)[unfolded search]]
    note items = fill_items[OF spent(2) filled]
    show ?thesis unfolding out using used items(2-5) spent(1) by (simp only: items(1))
  qed
qed

definition sample_block :: "string \<Rightarrow> ustr \<Rightarrow> pinned_block" where
  "sample_block i str = \<lparr>pb_id = i, pb_content = str, pb_scope = UserScope, pb_path = [], pb_description = [],
     pb_priority = 0, pb_agent = JNull\<rparr>"

definition sample_hit :: "string \<Rightarrow> chunk list \<Rightarrow> chunk list \<Rightarrow> search_result" where
  "sample_hit i before after = \<lparr>sr_chunk = sample_chunk i ''a.md'' [1, 2], sr_score = 1, sr_rank = 1, sr_source = ''fused'',
     sr_context = Some \<lparr>ci_window_before = before, ci_window_after = after, ci_parent_content = None, ci_parent_heading = None,
       ci_sibling_count = 0, ci_chunk_position = 0, ci_total_chunks_in_file = 3, ci_context_tier_used = None\<rparr>,
     sr_via_session_summary = False\<rparr>"

definition sample_compose :: "(pin_error, context_bundle) result" where
  "sample_compose = compose [sample_block ''a'' [1, 2], sample_block ''b'' (replicate 9 1)]
     (Some ([sample_hit ''x'' [sample_chunk ''w'' ''a.md'' [7]] [sample_chunk ''y'' ''a.md'' [3, 4]],
       sample_hit ''y'' [] []], Some RrfScale, None)) (Some ''q'') 7"

theorem compose_within_budget_witness:
  "case sample_compose of Inl _ \<Rightarrow> False
   | Inr b \<Rightarrow> cb_used_chars b = 7 \<and> cb_omitted b = [''b''] \<and>
       map cp_id (concat (map item_context (cb_retrieved b))) = [''w''] \<and>
       distinct (map cp_id (concat (map item_context (cb_retrieved b))))"
proof -
  have run: "case sample_compose of Inl _ \<Rightarrow> False
    | Inr b \<Rightarrow> cb_used_chars b = 7 \<and> cb_omitted b = [''b''] \<and>
       map cp_id (concat (map item_context (cb_retrieved b))) = [''w'']"
    by code_simp
  then obtain b where b: "sample_compose = Inr b" by (auto split: sum.splits)
  then show ?thesis
    using run compose_within_budget[OF b[unfolded sample_compose_def]] unfolding b sum.case by simp
qed

end
