(* ===== verification/Budget.thy ===== *)
theory Budget
  imports Models "HOL-Library.Sublist"
begin

text \<open>
  Exact token budgets (\<open>chunking/bounded.py\<close>, first half): \<open>TokenBudget\<close> and
  \<open>bound_chunks\<close>. The tokenizer is a third-party package: it is the field \<open>tb_encode\<close>, the
  number of ids of a text, about which nothing is assumed, monotonicity least of all.
\<close>

section \<open>Spans of a text\<close>

type_synonym span = "nat \<times> nat"

abbreviation part_of :: "'a list \<Rightarrow> span \<Rightarrow> 'a list" where
  "part_of str s \<equiv> slice (fst s) (snd s) str"

text \<open>Non-empty spans that follow each other from \<open>a\<close> to \<open>b\<close>.\<close>

fun covers :: "nat \<Rightarrow> nat \<Rightarrow> span list \<Rightarrow> bool" where
  "covers a b [] \<longleftrightarrow> a = b"
| "covers a b (s # ss) \<longleftrightarrow> fst s = a \<and> a < snd s \<and> covers (snd s) b ss"

lemma covers_le: "covers a b ss \<Longrightarrow> a \<le> b"
  by (induction ss arbitrary: a) force+

lemma covers_append [simp]: "covers a b (xs @ ys) \<longleftrightarrow> (\<exists>m. covers a m xs \<and> covers m b ys)"
  by (induction xs arbitrary: a) auto

lemma slice_append:
  assumes "a \<le> m" "m \<le> b"
  shows "slice a m t @ slice m b t = slice a b t"
proof -
  have "drop m t = drop (m - a) (drop a t)" using assms by simp
  moreover have "b - a = (m - a) + (b - m)" using assms by simp
  ultimately show ?thesis unfolding slice_def by (simp only: take_add)
qed

lemma slice_all [simp]: "slice 0 (length t) t = t"
  by (simp add: slice_def)

lemma slice_self [simp]: "slice a a t = []"
  by (simp add: slice_def)

lemma length_slice: "b \<le> length t \<Longrightarrow> length (slice a b t) = b - a"
  by (simp add: slice_def)

lemma covers_concat: "covers a b ss \<Longrightarrow> concat (map (part_of t) ss) = slice a b t"
proof (induction ss arbitrary: a)
  case (Cons s ss)
  then have "fst s = a" "a < snd s" "covers (snd s) b ss" by auto
  with Cons.IH[of "snd s"] covers_le[of "snd s" b ss] show ?case
    by (simp add: slice_append)
qed simp

lemma covers_inside: "covers a b ss \<Longrightarrow> s \<in> set ss \<Longrightarrow> fst s < snd s" "covers a b ss \<Longrightarrow> s \<in> set ss \<Longrightarrow> snd s \<le> b"
  by (induction ss arbitrary: a) (auto dest: covers_le)

section \<open>The budget\<close>

datatype budget_error = NotPositive | NoCharacterFits | DescriptionTooLong | BodyTooLong | ComposedTooLong

record token_budget =
  tb_encode :: "ustr \<Rightarrow> bool \<Rightarrow> nat"
  tb_body :: int
  tb_context :: int
  tb_model :: int
  tb_input_prefix :: ustr

definition new_budget ::
  "(ustr \<Rightarrow> bool \<Rightarrow> nat) \<Rightarrow> int \<Rightarrow> int \<Rightarrow> int \<Rightarrow> ustr \<Rightarrow> (budget_error, token_budget) result" where
  "new_budget encode body context model input_prefix =
     (if body < 1 then Inl NotPositive
      else Inr \<lparr>tb_encode = encode, tb_body = body, tb_context = context, tb_model = model,
        tb_input_prefix = input_prefix\<rparr>)"

definition token_count :: "token_budget \<Rightarrow> ustr \<Rightarrow> bool \<Rightarrow> int" where
  "token_count b str special =
     int (tb_encode b (if special then tb_input_prefix b @ str else str) special)"

text \<open>The binary search of \<open>prefix\<close>: a fitting prefix, not the longest.\<close>

function prefix_search :: "token_budget \<Rightarrow> ustr \<Rightarrow> int \<Rightarrow> nat \<Rightarrow> nat \<Rightarrow> nat" where
  "prefix_search b str limit low high =
     (if low + 1 < high
      then let mid = (low + high) div 2
        in if token_count b (take mid str) False \<le> limit then prefix_search b str limit mid high
           else prefix_search b str limit low mid
      else low)"
  by pat_completeness auto
termination
  by (relation "measure (\<lambda>(b, str, limit, low, high). high - low)") (auto simp: Let_def)

declare prefix_search.simps [simp del]

definition budget_prefix :: "token_budget \<Rightarrow> ustr \<Rightarrow> int \<Rightarrow> (budget_error, nat) result" where
  "budget_prefix b str limit =
     (if token_count b str False \<le> limit then Inr (length str)
      else let low = prefix_search b str limit 0 (length str)
        in if low = 0 then Inl NoCharacterFits else Inr low)"

definition trim :: "token_budget \<Rightarrow> ustr \<Rightarrow> int \<Rightarrow> (budget_error, ustr) result" where
  "trim b str limit =
     (if str = [] then Inr [] else bind_res (budget_prefix b str limit) (\<lambda>n. Inr (take n str)))"

text \<open>\<open>bisect.bisect_right\<close> on a sorted list, and \<open>text.rfind("\n", start, end) + 1\<close>.\<close>

definition bisect_right :: "nat list \<Rightarrow> nat \<Rightarrow> nat" where
  "bisect_right bs x = length (takeWhile (\<lambda>b. b \<le> x) bs)"

definition after_newline :: "ustr \<Rightarrow> nat \<Rightarrow> nat \<Rightarrow> nat" where
  "after_newline str start stop =
     (case filter (\<lambda>i. str ! i = 10) [start..<min stop (length str)] of
        [] \<Rightarrow> 0 | js \<Rightarrow> last js + 1)"

definition cut_at :: "token_budget \<Rightarrow> ustr \<Rightarrow> nat list \<Rightarrow> nat \<Rightarrow> nat \<Rightarrow> nat" where
  "cut_at b str boundaries start stop =
     (if stop < length str
      then let i = bisect_right boundaries stop;
               boundary = (if i = 0 then 0 else boundaries ! (i - 1));
               preferred = (if boundary \<le> start then after_newline str start stop else boundary)
        in if preferred > start \<and> token_count b (slice start preferred str) False \<le> tb_body b
           then preferred else stop
      else stop)"

definition window_end :: "token_budget \<Rightarrow> nat \<Rightarrow> nat" where
  "window_end b start = start + nat (min 65536 (max 256 (tb_body b * 4)))"

function spans_from :: "token_budget \<Rightarrow> ustr \<Rightarrow> nat list \<Rightarrow> nat \<Rightarrow> (budget_error, span list) result" where
  "spans_from b str boundaries start =
     (if start < length str
      then case budget_prefix b (slice start (window_end b start) str) (tb_body b) of
          Inl e \<Rightarrow> Inl e
        | Inr n \<Rightarrow>
            (let stop = cut_at b str boundaries start (start + n) in
             case spans_from b str boundaries stop of
               Inl e \<Rightarrow> Inl e
             | Inr rest \<Rightarrow> Inr ((start, stop) # rest))
      else Inr [])"
  by pat_completeness auto

definition budget_spans :: "token_budget \<Rightarrow> ustr \<Rightarrow> nat list \<Rightarrow> (budget_error, span list) result" where
  "budget_spans b str boundaries = spans_from b str boundaries 0"

section \<open>What a search returns fits\<close>

lemma prefix_search_bounds: "low \<le> high \<Longrightarrow> low \<le> prefix_search b str limit low high \<and> prefix_search b str limit low high \<le> high"
proof (induction b str limit low high rule: prefix_search.induct)
  case (1 b str limit low high)
  show ?case
  proof (cases "low + 1 < high")
    case True
    let ?mid = "(low + high) div 2"
    have "low \<le> ?mid" "?mid \<le> high" using True by auto
    with 1(1,2)[OF True refl] True show ?thesis
      by (subst (1 2) prefix_search.simps) (auto simp: Let_def)
  qed (use 1(3) in \<open>simp add: prefix_search.simps\<close>)
qed

lemma prefix_search_fits:
  "low = 0 \<or> token_count b (take low str) False \<le> limit \<Longrightarrow>
   prefix_search b str limit low high = 0 \<or> token_count b (take (prefix_search b str limit low high) str) False \<le> limit"
proof (induction b str limit low high rule: prefix_search.induct)
  case (1 b str limit low high)
  show ?case
  proof (cases "low + 1 < high")
    case True
    then show ?thesis using 1(1,2)[OF True refl] 1(3)
      by (subst (1 2) prefix_search.simps) (simp add: Let_def)
  qed (use 1(3) in \<open>simp add: prefix_search.simps\<close>)
qed

text \<open>A search that ends at zero has tried the first character and seen it fail.\<close>

lemma prefix_search_zero:
  "prefix_search b str limit low high = 0 \<Longrightarrow> low < high \<Longrightarrow> \<not> token_count b (take high str) False \<le> limit
   \<Longrightarrow> \<not> token_count b (take 1 str) False \<le> limit"
proof (induction b str limit low high rule: prefix_search.induct)
  case (1 b str limit low high)
  show ?case
  proof (cases "low + 1 < high")
    case True
    let ?mid = "(low + high) div 2"
    have mid: "low < ?mid" "?mid < high" using True by auto
    show ?thesis
    proof (cases "token_count b (take ?mid str) False \<le> limit")
      case fits: True
      have "prefix_search b str limit ?mid high = 0"
        using 1(3) True fits by (subst (asm) prefix_search.simps) (simp add: Let_def)
      with prefix_search_bounds[of ?mid high b str limit] mid show ?thesis by simp
    next
      case False
      have "prefix_search b str limit low ?mid = 0"
        using 1(3) True False by (subst (asm) prefix_search.simps) (simp add: Let_def)
      from 1(2)[OF True refl False this mid(1) False] show ?thesis .
    qed
  next
    case False
    with 1(3,4) have "low = 0" "high = 1" by (simp_all add: prefix_search.simps)
    with 1(5) show ?thesis by simp
  qed
qed

lemma budget_prefix_ok:
  assumes "budget_prefix b str limit = Inr n"
  shows "n \<le> length str" and "token_count b (take n str) False \<le> limit" and "str \<noteq> [] \<Longrightarrow> 0 < n"
  using assms prefix_search_bounds[of 0 "length str" b str limit] prefix_search_fits[of 0 b str limit "length str"]
  by (auto simp: budget_prefix_def Let_def split: if_splits)

lemma budget_prefix_fails:
  "budget_prefix b str limit = Inl e \<Longrightarrow> e = NoCharacterFits \<and> (str \<noteq> [] \<longrightarrow> \<not> token_count b [hd str] False \<le> limit)"
proof -
  assume a: "budget_prefix b str limit = Inl e"
  then have "e = NoCharacterFits" "\<not> token_count b str False \<le> limit" "prefix_search b str limit 0 (length str) = 0"
    by (auto simp: budget_prefix_def Let_def split: if_splits)
  moreover have "str \<noteq> [] \<Longrightarrow> take 1 str = [hd str]" by (cases str) auto
  ultimately show ?thesis using prefix_search_zero[of b str limit 0 "length str"] by auto
qed

lemma trim_ok: "trim b str limit = Inr t \<Longrightarrow>
    (\<exists>n. t = take n str) \<and> (str \<noteq> [] \<longrightarrow> t \<noteq> [] \<and> token_count b t False \<le> limit)"
  by (auto simp: trim_def bind_res_Inr_conv dest: budget_prefix_ok split: if_splits)

lemma window_gt: "start < window_end b start"
  by (simp add: window_end_def min_def max_def)

lemma slice_not_Nil: "a < b \<Longrightarrow> a < length t \<Longrightarrow> slice a b t \<noteq> []"
  by (simp add: slice_def)

lemma take_slice: "n \<le> length (slice a b t) \<Longrightarrow> take n (slice a b t) = slice a (a + n) t"
  unfolding slice_def length_take length_drop by (simp add: min.absorb1)

lemma after_newline_range:
  "after_newline str start stop = 0 \<or> (start < after_newline str start stop \<and> after_newline str start stop \<le> stop)"
proof (cases "filter (\<lambda>i. str ! i = 10) [start..<min stop (length str)]")
  case (Cons x xs)
  then have "last (x # xs) \<in> set (filter (\<lambda>i. str ! i = 10) [start..<min stop (length str)])"
    by (metis last_in_set list.distinct(1))
  then have "start \<le> last (x # xs)" "last (x # xs) < stop" by auto
  then show ?thesis unfolding after_newline_def Cons by auto
qed (simp add: after_newline_def)

lemma bisect_right_le:
  "0 < bisect_right bs x \<Longrightarrow> bs ! (bisect_right bs x - 1) \<le> x"
proof -
  let ?t = "takeWhile (\<lambda>b. b \<le> x) bs"
  assume "0 < bisect_right bs x"
  then have i: "length ?t - 1 < length ?t" by (simp add: bisect_right_def)
  then have "bs ! (length ?t - 1) = ?t ! (length ?t - 1)" by (rule takeWhile_nth[symmetric])
  moreover have "?t ! (length ?t - 1) \<in> set ?t" using i by (rule nth_mem)
  ultimately show ?thesis using set_takeWhileD by (fastforce simp: bisect_right_def)
qed

lemma cut_at_range: "start < stop \<Longrightarrow> start < cut_at b str bs start stop \<and> cut_at b str bs start stop \<le> stop"
  using after_newline_range[of str start stop] bisect_right_le[of bs stop]
  by (auto simp: cut_at_def Let_def)

lemma cut_at_fits:
  "token_count b (slice start stop str) False \<le> tb_body b \<Longrightarrow>
   token_count b (slice start (cut_at b str bs start stop) str) False \<le> tb_body b"
  by (auto simp: cut_at_def Let_def)

lemma window_prefix:
  assumes "start < length str" and "budget_prefix b (slice start (window_end b start) str) limit = Inr n"
  shows "0 < n" and "start + n \<le> length str" and "token_count b (slice start (start + n) str) False \<le> limit"
proof -
  note ok = budget_prefix_ok[OF assms(2)]
  show "0 < n" using ok(3) slice_not_Nil[OF window_gt assms(1)] .
  show "start + n \<le> length str" using ok(1) assms(1) unfolding slice_def length_take length_drop by linarith
  show "token_count b (slice start (start + n) str) False \<le> limit" using ok(1,2) by (simp add: take_slice)
qed

termination spans_from
proof (relation "measure (\<lambda>(b, str, boundaries, start). length str - start)", goal_cases)
  case (2 b str boundaries start n stop)
  have "start < stop" using window_prefix(1)[OF 2(1,2)] cut_at_range[of start "start + n" b str boundaries] 2(3) by simp
  with 2(1) show ?case by simp
qed simp

declare spans_from.simps [simp del]

lemma spans_from_ok:
  "start \<le> length str \<Longrightarrow> spans_from b str bs start = Inr sp \<Longrightarrow>
   covers start (length str) sp \<and> list_all (\<lambda>s. token_count b (part_of str s) False \<le> tb_body b) sp"
proof (induction b str bs start arbitrary: sp rule: spans_from.induct)
  case (1 b str bs start)
  show ?case
  proof (cases "start < length str")
    case True
    with 1(3) obtain n where n: "budget_prefix b (slice start (window_end b start) str) (tb_body b) = Inr n"
      by (subst (asm) spans_from.simps) (auto split: sum.splits)
    let ?stop = "cut_at b str bs start (start + n)"
    obtain rest where rest: "spans_from b str bs ?stop = Inr rest" "sp = (start, ?stop) # rest"
      using 1(3) True n by (subst (asm) spans_from.simps) (auto simp: Let_def split: sum.splits)
    note w = window_prefix[OF True n]
    have cut: "start < ?stop" "?stop \<le> length str" using cut_at_range[of start "start + n" b str bs] w by auto
    from 1(1)[OF True n refl cut(2) rest(1)] cut(1) cut_at_fits[OF w(3)] show ?thesis
      by (simp add: rest(2))
  qed (use 1(2,3) in \<open>simp add: spans_from.simps\<close>)
qed

lemma spans_from_fails:
  "spans_from b str bs start = Inl e \<Longrightarrow> e = NoCharacterFits \<and> (\<exists>c \<in> set str. \<not> token_count b [c] False \<le> tb_body b)"
proof (induction b str bs start rule: spans_from.induct)
  case (1 b str bs start)
  then have True: "start < length str" by (subst (asm) (2) spans_from.simps) (auto split: if_splits)
  show ?case
  proof (cases "budget_prefix b (slice start (window_end b start) str) (tb_body b)")
    case (Inl e')
    then have "e = e'" using 1(2) True by (simp add: spans_from.simps)
    moreover have "hd (slice start (window_end b start) str) \<in> set str"
      using slice_not_Nil[OF window_gt True, of b]
      by (metis hd_in_set in_set_dropD in_set_takeD slice_def)
    ultimately show ?thesis using budget_prefix_fails[OF Inl] slice_not_Nil[OF window_gt True, of b] by blast
  next
    case (Inr n)
    with 1(2) True have "spans_from b str bs (cut_at b str bs start (start + n)) = Inl e"
      by (subst (asm) spans_from.simps) (simp add: Let_def split: sum.splits)
    from 1(1)[OF True Inr refl this] show ?thesis .
  qed
qed

text \<open>
  Splitting is lossless and exact: the spans of a text are non-empty, follow one another
  from its first to its last character, so that their slices concatenate to the text, and
  each of them measures within the body budget, whatever the boundaries and however the
  tokenizer counts. It fails only when some single character of the text does not fit.
\<close>

theorem spans_partition:
  "case budget_spans b str boundaries of
     Inl e \<Rightarrow> e = NoCharacterFits \<and> (\<exists>c \<in> set str. tb_body b < token_count b [c] False)
   | Inr sp \<Rightarrow> covers 0 (length str) sp \<and> concat (map (part_of str) sp) = str \<and>
       list_all (\<lambda>s. token_count b (part_of str s) False \<le> tb_body b) sp"
proof (cases "budget_spans b str boundaries")
  case (Inl e)
  then have "spans_from b str boundaries 0 = Inl e" by (simp add: budget_spans_def)
  from spans_from_fails[OF this] obtain c where "e = NoCharacterFits" "c \<in> set str" "tb_body b < token_count b [c] False"
    by (auto simp: not_le)
  with Inl show ?thesis by auto
next
  case (Inr sp)
  with spans_from_ok[of 0 str b boundaries sp] covers_concat[of 0 "length str" sp str] show ?thesis
    by (simp add: budget_spans_def)
qed

section \<open>Descriptions\<close>

definition validate_description :: "token_budget \<Rightarrow> chunk \<Rightarrow> (budget_error, unit) result" where
  "validate_description b c =
     (let shown = (if md_retrieval_context (ch_metadata c) \<noteq> [] then md_retrieval_context (ch_metadata c)
                   else join_with hierarchy_sep (md_heading_hierarchy (ch_metadata c)))
      in if token_count b shown False > tb_context b then Inl DescriptionTooLong else Inr ())"

definition validate_body :: "token_budget \<Rightarrow> chunk \<Rightarrow> (budget_error, unit) result" where
  "validate_body b c = (if token_count b (ch_content c) False > tb_body b then Inl BodyTooLong else Inr ())"

definition validate_composed :: "token_budget \<Rightarrow> chunk \<Rightarrow> (budget_error, unit) result" where
  "validate_composed b c =
     (if token_count b (retrieval_content c) True > tb_model b then Inl ComposedTooLong else Inr ())"

definition validate :: "token_budget \<Rightarrow> chunk \<Rightarrow> (budget_error, unit) result" where
  "validate b c =
     bind_res (validate_description b c) (\<lambda>_. bind_res (validate_body b c) (\<lambda>_. validate_composed b c))"

definition with_context :: "ustr \<Rightarrow> chunk \<Rightarrow> chunk" where
  "with_context t c = c\<lparr>ch_metadata := (ch_metadata c)\<lparr>md_retrieval_context := t\<rparr>\<rparr>"

text \<open>The search for a shorter description, upwards from \<open>low\<close>.\<close>

function shrink :: "token_budget \<Rightarrow> chunk \<Rightarrow> ustr \<Rightarrow> nat \<Rightarrow> nat \<Rightarrow> nat" where
  "shrink b c ctx low high =
     (if low < high
      then let mid = (low + high + 1) div 2
        in if token_count b (retrieval_content (with_context (take mid ctx) c)) True \<le> tb_model b
           then shrink b c ctx mid high else shrink b c ctx low (mid - 1)
      else low)"
  by pat_completeness auto
termination
  by (relation "measure (\<lambda>(b, c, ctx, low, high). high - low)") (auto simp: Let_def)

declare shrink.simps [simp del]

definition describe :: "token_budget \<Rightarrow> chunk \<Rightarrow> ustr \<Rightarrow> (budget_error, chunk) result" where
  "describe b chunk description =
     bind_res (trim b description (tb_context b)) (\<lambda>ctx.
       let c = with_context ctx chunk in
       if ctx = [] then bind_res (validate b c) (\<lambda>_. Inr c)
       else if token_count b (retrieval_content c) True > tb_model b
         then let low = shrink b chunk ctx 0 (length ctx);
                  c' = with_context (take (max 1 low) ctx) chunk
           in bind_res (validate_description b c') (\<lambda>_.
                bind_res (if low > 0 then Inr () else validate_composed b c') (\<lambda>_.
                  bind_res (validate_body b c') (\<lambda>_. Inr c')))
         else bind_res (validate_body b c) (\<lambda>_. Inr c))"

lemmas validate_defs = validate_def validate_description_def validate_body_def validate_composed_def

lemma with_context_simps [simp]:
  "ch_content (with_context t c) = ch_content c"
  "md_retrieval_context (ch_metadata (with_context t c)) = t"
  "md_heading_hierarchy (ch_metadata (with_context t c)) = md_heading_hierarchy (ch_metadata c)"
  "md_start_line (ch_metadata (with_context t c)) = md_start_line (ch_metadata c)"
  "md_end_line (ch_metadata (with_context t c)) = md_end_line (ch_metadata c)"
  "ch_content_hash (with_context t c) = ch_content_hash c"
  by (simp_all add: with_context_def)

lemma shrink_fits:
  "low = 0 \<or> token_count b (retrieval_content (with_context (take low ctx) c)) True \<le> tb_model b \<Longrightarrow>
   shrink b c ctx low high = 0 \<or>
   token_count b (retrieval_content (with_context (take (shrink b c ctx low high) ctx) c)) True \<le> tb_model b"
proof (induction b c ctx low high rule: shrink.induct)
  case (1 b c ctx low high)
  show ?case
  proof (cases "low < high")
    case True
    then show ?thesis using 1(1,2)[OF True refl] 1(3) by (subst (1 2) shrink.simps) (simp add: Let_def)
  qed (use 1(3) in \<open>simp add: shrink.simps\<close>)
qed

text \<open>
  A described chunk passes every check: when \<open>describe\<close> returns, the body is untouched, the
  stored description is a prefix of the one asked for, and description, body and the composed
  text handed to the embedder are each within their own budget.
\<close>

lemma describe_sound:
  assumes "describe b chunk description = Inr c"
  shows "validate b c = Inr () \<and> (\<exists>n. c = with_context (take n description) chunk)"
proof -
  obtain ctx where ctx: "trim b description (tb_context b) = Inr ctx"
    using assms by (auto simp: describe_def bind_res_Inr_conv)
  obtain n where n: "ctx = take n description" using trim_ok[OF ctx] by blast
  have fits: "ctx \<noteq> [] \<Longrightarrow> token_count b ctx False \<le> tb_context b"
    using trim_ok[OF ctx] by (cases "description = []") auto
  consider (empty) "ctx = []"
    | (short) "ctx \<noteq> []" "token_count b (retrieval_content (with_context ctx chunk)) True \<le> tb_model b"
    | (long) "ctx \<noteq> []" "tb_model b < token_count b (retrieval_content (with_context ctx chunk)) True"
    by fastforce
  then show ?thesis
  proof cases
    case empty
    with assms ctx have "c = with_context [] chunk" "validate b c = Inr ()"
      by (auto simp: describe_def Let_def bind_res_Inr_conv)
    then show ?thesis by (intro conjI exI[of _ 0]) simp_all
  next
    case short
    with assms ctx have c: "c = with_context ctx chunk" "validate_body b c = Inr ()"
      by (auto simp: describe_def Let_def bind_res_Inr_conv)
    with short fits have "validate b c = Inr ()" by (simp add: validate_defs Let_def split: if_splits)
    with c n show ?thesis by blast
  next
    case long
    let ?low = "shrink b chunk ctx 0 (length ctx)"
    have c: "c = with_context (take (max 1 ?low) ctx) chunk" "validate_description b c = Inr ()"
      "validate_body b c = Inr ()" "0 < ?low \<or> validate_composed b c = Inr ()"
      using assms ctx long by (auto simp: describe_def Let_def bind_res_Inr_conv split: if_splits)
    have "0 < ?low \<Longrightarrow> validate_composed b c = Inr ()"
      using shrink_fits[of 0 b ctx chunk "length ctx"] c(1) by (simp add: validate_composed_def max_def)
    with c have "validate b c = Inr ()" by (auto simp: validate_def)
    moreover have "take (max 1 ?low) ctx = take (min (max 1 ?low) n) description" using n by simp
    ultimately show ?thesis using c(1) by metis
  qed
qed

text \<open>A tokenizer that counts characters, for concrete examples.\<close>

definition char_budget :: "int \<Rightarrow> int \<Rightarrow> int \<Rightarrow> token_budget" where
  "char_budget body ctx model = \<lparr>tb_encode = (\<lambda>t _. length t), tb_body = body, tb_context = ctx,
     tb_model = model, tb_input_prefix = []\<rparr>"

lemmas budget_eval = char_budget_def token_count_def budget_prefix_def trim_def Let_def

theorem spans_partition_witness:
  "budget_spans (char_budget 3 9 9) [97, 98, 10, 99, 100] [] = Inr [(0, 3), (3, 5)] \<and>
   concat (map (part_of [97, 98, 10, 99, 100]) [(0, 3), (3, 5)]) = [97, 98, 10, 99, 100::nat]"
proof
  show run: "budget_spans (char_budget 3 9 9) [97, 98, 10, 99, 100] [] = Inr [(0, 3), (3, 5)]"
    by code_simp
  show "concat (map (part_of [97, 98, 10, 99, 100]) [(0, 3), (3, 5)]) = [97, 98, 10, 99, 100::nat]"
    using spans_partition[where b = "char_budget 3 9 9" and str = "[97, 98, 10, 99, 100]" and boundaries = "[]"] unfolding run by simp
qed

section \<open>Bounding a list of chunks\<close>

definition fragment_lines :: "int list \<Rightarrow> nat \<Rightarrow> nat \<Rightarrow> (int \<times> int) option" where
  "fragment_lines line_map first final =
     (let window = slice first (final + 1) line_map;
          positive = filter (\<lambda>n. n > 0) window;
          ls = (if positive \<noteq> [] then positive else map uminus (filter (\<lambda>n. n < 0) window))
      in if ls \<noteq> [] then Some (Min (set ls), Max (set ls))
         else let nearest = (\<lambda>ns. case filter (\<lambda>n. n \<noteq> 0) ns of [] \<Rightarrow> 0 | n # _ \<Rightarrow> \<bar>n\<bar>);
                  before = nearest (rev (take first line_map));
                  anchor = (if before \<noteq> 0 then before else nearest (drop (final + 1) line_map))
           in if anchor \<noteq> 0 then Some (anchor, anchor) else None)"

text \<open>\<open>str(n)\<close> of a count, \<open>Path.name\<close> of a normalised POSIX path.\<close>

fun decimal :: "nat \<Rightarrow> ustr" where
  "decimal n = (if n < 10 then [48 + n] else decimal (n div 10) @ [48 + n mod 10])"

declare decimal.simps [simp del]

definition path_name :: "string \<Rightarrow> ustr" where
  "path_name p = map of_char (rev (takeWhile (\<lambda>c. c \<noteq> CHR ''/'') (rev p)))"

text \<open>The texts \<open>"File: "\<close> and \<open>"Fragment "\<close>.\<close>

definition FILE_LABEL :: ustr where
  "FILE_LABEL = [70, 105, 108, 101, 58, 32]"

definition FRAGMENT_LABEL :: ustr where
  "FRAGMENT_LABEL = [70, 114, 97, 103, 109, 101, 110, 116, 32]"

text \<open>
  A chunk built from a body: \<open>Chunk.__post_init__\<close> computes the digest, \<open>ident\<close> is the
  \<open>uuid4\<close> it draws and \<open>now\<close> the clock.
\<close>

definition new_chunk :: "(ustr \<Rightarrow> string) \<Rightarrow> string \<Rightarrow> int \<Rightarrow> ustr \<Rightarrow> chunk_metadata \<Rightarrow> chunk" where
  "new_chunk digest ident now content md = \<lparr>ch_content = content, ch_metadata = md, ch_line_map = None,
     ch_id = ident, ch_content_hash = digest content, ch_embedding = [], ch_created_at = now,
     ch_updated_at = now\<rparr>"

definition fragment_meta :: "bool \<Rightarrow> chunk \<Rightarrow> nat \<Rightarrow> span \<Rightarrow> chunk_metadata" where
  "fragment_meta preserve chunk n s =
     (let md = ch_metadata chunk; len = length (ch_content chunk);
          body = part_of (ch_content chunk) s;
          offset = newlines (take (fst s) (ch_content chunk));
          virtual = (preserve \<or> n = 1);
          fallback = (md_start_line md + int offset, md_start_line md + int offset + int (newlines (butlast body)));
          place = (case fragment_lines (source_line_map chunk) offset (offset + newlines (butlast body)) of
                     Some l \<Rightarrow> l | None \<Rightarrow> fallback)
      in md\<lparr>md_source_read_only := md_source_read_only md \<or> n > 1 \<or> preserve,
            md_source_span_hash := None,
            md_start_line := (if virtual then md_start_line md else fst place),
            md_end_line := (if virtual then md_end_line md else snd place),
            md_overlap_before := min (snd s) (md_overlap_before md) - fst s,
            md_overlap_after := snd s - max (fst s) (len - md_overlap_after md)\<rparr>)"

text \<open>Placed by the line map, yet holding no line of its own.\<close>

definition sourceless :: "bool \<Rightarrow> chunk \<Rightarrow> nat \<Rightarrow> span \<Rightarrow> bool" where
  "sourceless preserve chunk n s =
     (let offset = newlines (take (fst s) (ch_content chunk));
          last_line = offset + newlines (butlast (part_of (ch_content chunk) s));
          line_map = source_line_map chunk
      in \<not> (preserve \<or> n = 1) \<and> fragment_lines line_map offset last_line \<noteq> None \<and>
         \<not> list_ex (\<lambda>k. k > 0) (slice offset (last_line + 1) line_map))"

definition fragment_description :: "chunk \<Rightarrow> nat \<Rightarrow> nat \<Rightarrow> ustr" where
  "fragment_description chunk n index =
     (let md = ch_metadata chunk in
      join_with [10] (filter (\<lambda>t. t \<noteq> [])
        [md_retrieval_context md, join_with hierarchy_sep (md_heading_hierarchy md),
         FILE_LABEL @ path_name (md_source_file md),
         FRAGMENT_LABEL @ decimal (index + 1) @ [47] @ decimal n]))"

definition fragment_of ::
  "token_budget \<Rightarrow> (ustr \<Rightarrow> string) \<Rightarrow> (nat \<Rightarrow> string) \<Rightarrow> int \<Rightarrow> bool \<Rightarrow> chunk \<Rightarrow> nat \<Rightarrow> nat \<times> span
    \<Rightarrow> (budget_error, chunk \<times> bool) result" where
  "fragment_of b digest ident now preserve chunk n item =
     (let md = fragment_meta preserve chunk n (snd item);
          part = (if n = 1 then chunk\<lparr>ch_metadata := md\<rparr>
                  else new_chunk digest (ident (fst item)) now (part_of (ch_content chunk) (snd item)) md)
      in bind_res (describe b part (fragment_description chunk n (fst item)))
           (\<lambda>c. Inr (c, sourceless preserve chunk n (snd item))))"

definition fragments_of ::
  "token_budget \<Rightarrow> (ustr \<Rightarrow> string) \<Rightarrow> (nat \<Rightarrow> nat \<Rightarrow> string) \<Rightarrow> int \<Rightarrow> bool \<Rightarrow> nat \<times> chunk
    \<Rightarrow> (budget_error, (chunk \<times> bool) list) result" where
  "fragments_of b digest ident now preserve item =
     bind_res (budget_spans b (ch_content (snd item)) []) (\<lambda>spans.
       map_res (fragment_of b digest (ident (fst item)) now preserve (snd item) (length spans)) (enumerate 0 spans))"

type_synonym storage_key = "string \<times> int"

definition chunk_key :: "chunk \<Rightarrow> storage_key" where
  "chunk_key c = (ch_content_hash c, md_start_line (ch_metadata c))"

fun drop_copies :: "storage_key list \<Rightarrow> (chunk \<times> bool) list \<Rightarrow> chunk list" where
  "drop_copies owned [] = []"
| "drop_copies owned ((c, copy) # rest) =
     (if copy then
        if chunk_key c \<in> set owned then drop_copies owned rest
        else c # drop_copies (chunk_key c # owned) rest
      else c # drop_copies owned rest)"

definition bound_chunks ::
  "token_budget \<Rightarrow> (ustr \<Rightarrow> string) \<Rightarrow> (nat \<Rightarrow> nat \<Rightarrow> string) \<Rightarrow> int \<Rightarrow> bool \<Rightarrow> chunk list
    \<Rightarrow> (budget_error, chunk list) result" where
  "bound_chunks b digest ident now preserve chunks =
     bind_res (map_res (fragments_of b digest ident now preserve) (enumerate 0 chunks)) (\<lambda>parts.
       let found = concat parts;
           owned = map (\<lambda>p. chunk_key (fst p)) (filter (\<lambda>p. \<not> snd p) found)
       in Inr (drop_copies owned found))"

lemma fragment_of_ok:
  assumes "fragment_of b digest ident now preserve chunk n (i, s) = Inr p"
    and "n = 1 \<Longrightarrow> part_of (ch_content chunk) s = ch_content chunk"
  shows "ch_content (fst p) = part_of (ch_content chunk) s \<and> validate b (fst p) = Inr ()"
proof -
  obtain part c where c: "describe b part (fragment_description chunk n i) = Inr c" "fst p = c"
    "ch_content part = part_of (ch_content chunk) s"
    using assms by (fastforce simp: fragment_of_def Let_def bind_res_Inr_conv new_chunk_def split: if_splits)
  from describe_sound[OF c(1)] c(2,3) show ?thesis by auto
qed

lemma fragments_of_ok:
  assumes "fragments_of b digest ident now preserve (k, chunk) = Inr ps"
  shows "concat (map (\<lambda>p. ch_content (fst p)) ps) = ch_content chunk \<and> list_all (\<lambda>p. validate b (fst p) = Inr ()) ps"
proof -
  obtain sp where sp: "budget_spans b (ch_content chunk) [] = Inr sp"
    and fr: "list_all2 (\<lambda>x y. fragment_of b digest (ident k) now preserve chunk (length sp) x = Inr y) (enumerate 0 sp) ps"
    using assms by (auto simp: fragments_of_def bind_res_Inr_conv map_res_Inr_conv)
  have whole: "concat (map (part_of (ch_content chunk)) sp) = ch_content chunk"
    using spans_from_ok[of 0 "ch_content chunk" b "[]" sp] sp covers_concat[of 0 "length (ch_content chunk)" sp "ch_content chunk"]
    by (simp add: budget_spans_def)
  have len: "length ps = length sp" using fr by (simp add: list_all2_conv_all_nth)
  have one: "part_of (ch_content chunk) (sp ! i) = ch_content chunk" if "length sp = 1" "i < length sp" for i
    using that whole by (cases sp) auto
  have "ch_content (fst (ps ! i)) = part_of (ch_content chunk) (sp ! i) \<and> validate b (fst (ps ! i)) = Inr ()"
    if i: "i < length sp" for i
  proof -
    have "fragment_of b digest (ident k) now preserve chunk (length sp) (i, sp ! i) = Inr (ps ! i)"
      using fr i len by (auto simp: list_all2_conv_all_nth nth_enumerate_eq)
    from fragment_of_ok[OF this] one[OF _ i] show ?thesis by blast
  qed
  then have "map (\<lambda>p. ch_content (fst p)) ps = map (part_of (ch_content chunk)) sp"
    and "list_all (\<lambda>p. validate b (fst p) = Inr ()) ps"
    using len by (auto intro!: nth_equalityI simp: list_all_length)
  then show ?thesis by (simp add: whole)
qed

text \<open>A chunk the line map of which is its span line for line has no borrowed fragment.\<close>

abbreviation plain_lines :: "chunk \<Rightarrow> bool" where
  "plain_lines c \<equiv> ch_line_map c = None \<and> 1 \<le> md_start_line (ch_metadata c)"

lemma not_sourceless:
  assumes "preserve \<or> plain_lines chunk"
  shows "\<not> sourceless preserve chunk n s"
proof (cases "preserve")
  case False
  with assms have plain: "plain_lines chunk" by simp
  let ?lm = "source_line_map chunk"
  have "length ?lm = newlines (ch_content chunk) + 1" and pos: "\<forall>k \<in> set ?lm. 0 < k"
    using plain by (auto simp: source_line_map_def Let_def)
  moreover have "newlines (take (fst s) (ch_content chunk)) \<le> newlines (ch_content chunk)"
    by (metis append_take_drop_id le_add1 newlines_append)
  ultimately have "newlines (take (fst s) (ch_content chunk)) < length ?lm" by simp
  then have "slice (newlines (take (fst s) (ch_content chunk))) (k + 1) ?lm \<noteq> []"
    if "newlines (take (fst s) (ch_content chunk)) \<le> k" for k
    using slice_not_Nil[of "newlines (take (fst s) (ch_content chunk))" "k + 1" ?lm] that by simp
  then have "list_ex (\<lambda>k. k > 0) (slice (newlines (take (fst s) (ch_content chunk))) (k + 1) ?lm)"
    if "newlines (take (fst s) (ch_content chunk)) \<le> k" for k
    using that pos by (metis in_set_dropD in_set_takeD list.set_intros(1) list_ex_iff neq_Nil_conv slice_def)
  then show ?thesis by (simp add: sourceless_def Let_def)
qed (simp add: sourceless_def Let_def)

lemma fragments_of_flags:
  "fragments_of b digest ident now preserve (k, chunk) = Inr ps \<Longrightarrow> preserve \<or> plain_lines chunk \<Longrightarrow>
   list_all (\<lambda>p. \<not> snd p) ps"
proof -
  assume a: "fragments_of b digest ident now preserve (k, chunk) = Inr ps" and plain: "preserve \<or> plain_lines chunk"
  then obtain xs n where "list_all2 (\<lambda>x y. fragment_of b digest (ident k) now preserve chunk n x = Inr y) xs ps"
    by (auto simp: fragments_of_def bind_res_Inr_conv map_res_Inr_conv)
  then show ?thesis
    by (induction rule: list_all2_induct)
      (use not_sourceless[OF plain] in \<open>auto simp: fragment_of_def Let_def bind_res_Inr_conv\<close>)
qed

lemma drop_copies_all: "list_all (\<lambda>p. \<not> snd p) ps \<Longrightarrow> drop_copies owned ps = map fst ps"
  by (induction owned ps rule: drop_copies.induct) auto

lemma concat_map_concat: "concat (map f (concat xss)) = concat (map (\<lambda>xs. concat (map f xs)) xss)"
  by (induction xss) simp_all

lemma drop_copies_subseq: "subseq (drop_copies owned ps) (map fst ps)"
  by (induction owned ps rule: drop_copies.induct) auto

lemma drop_copies_covers:
  "p \<in> set ps \<Longrightarrow> chunk_key (fst p) \<in> set owned \<union> chunk_key ` set (drop_copies owned ps)"
proof (induction owned ps arbitrary: p rule: drop_copies.induct)
  case (2 owned c copy rest)
  show ?case
  proof (cases "p = (c, copy)")
    case False
    with 2(4) have "p \<in> set rest" by simp
    with 2(1-3)[of p] show ?thesis by auto
  qed (auto)
qed simp

lemma drop_copies_owned:
  "(c, False) \<in> set ps \<Longrightarrow> c \<in> set (drop_copies owned ps)"
  by (induction owned ps rule: drop_copies.induct) auto

lemma drop_copies_keys:
  "set (map (\<lambda>p. chunk_key (fst p)) (filter (\<lambda>p. \<not> snd p) ps)) \<subseteq> set owned \<Longrightarrow>
   distinct (map (\<lambda>p. chunk_key (fst p)) (filter (\<lambda>p. \<not> snd p) ps)) \<Longrightarrow>
   distinct (map chunk_key (drop_copies owned ps)) \<and>
   set (map chunk_key (drop_copies owned ps)) \<inter> set owned
     \<subseteq> set (map (\<lambda>p. chunk_key (fst p)) (filter (\<lambda>p. \<not> snd p) ps))"
proof (induction owned ps rule: drop_copies.induct)
  case (2 owned c copy rest)
  let ?own = "\<lambda>ps. map (\<lambda>p. chunk_key (fst p)) (filter (\<lambda>p. \<not> snd p) ps)"
  show ?case
  proof (cases copy)
    case False
    with 2 have ih: "distinct (map chunk_key (drop_copies owned rest))"
      "set (map chunk_key (drop_copies owned rest)) \<inter> set owned \<subseteq> set (?own rest)"
      and c: "chunk_key c \<in> set owned" "chunk_key c \<notin> set (?own rest)" by auto
    then have "chunk_key c \<notin> set (map chunk_key (drop_copies owned rest))" by blast
    with ih False show ?thesis by auto
  next
    case True
    show ?thesis
    proof (cases "chunk_key c \<in> set owned")
      case seen: True
      with True 2(1) 2(4,5) show ?thesis by simp
    next
      case False
      have sub: "set (?own rest) \<subseteq> set (chunk_key c # owned)" and dist: "distinct (?own rest)"
        using 2(4,5) True by auto
      from 2(2)[OF True False sub dist] have ih:
        "distinct (map chunk_key (drop_copies (chunk_key c # owned) rest))"
        "set (map chunk_key (drop_copies (chunk_key c # owned) rest)) \<inter> set (chunk_key c # owned) \<subseteq> set (?own rest)"
        by blast+
      have "chunk_key c \<notin> set (?own rest)" using 2(4) True False by auto
      with ih(2) have "chunk_key c \<notin> set (map chunk_key (drop_copies (chunk_key c # owned) rest))" by auto
      with ih True False show ?thesis by auto
    qed
  qed
qed simp

lemma bound_chunks_fragments:
  assumes "bound_chunks b digest ident now preserve chunks = Inr out"
  shows "\<exists>frags. concat (map (\<lambda>p. ch_content (fst p)) frags) = concat (map ch_content chunks) \<and>
    list_all (\<lambda>p. validate b (fst p) = Inr ()) frags \<and> subseq out (map fst frags) \<and>
    (\<forall>p \<in> set frags. chunk_key (fst p) \<in> chunk_key ` set out \<and> (\<not> snd p \<longrightarrow> fst p \<in> set out)) \<and>
    (distinct (map (\<lambda>p. chunk_key (fst p)) (filter (\<lambda>p. \<not> snd p) frags)) \<longrightarrow> distinct (map chunk_key out)) \<and>
    (preserve \<or> list_all plain_lines chunks \<longrightarrow> out = map fst frags)"
proof -
  obtain parts where parts: "list_all2 (\<lambda>x y. fragments_of b digest ident now preserve x = Inr y) (enumerate 0 chunks) parts"
    and out: "out = drop_copies (map (\<lambda>p. chunk_key (fst p)) (filter (\<lambda>p. \<not> snd p) (concat parts))) (concat parts)"
    using assms by (auto simp: bound_chunks_def bind_res_Inr_conv map_res_Inr_conv Let_def)
  let ?fr = "concat parts"
  let ?own = "map (\<lambda>p. chunk_key (fst p)) (filter (\<lambda>p. \<not> snd p) ?fr)"
  have len: "length parts = length chunks" using parts by (simp add: list_all2_conv_all_nth)
  have part: "concat (map (\<lambda>p. ch_content (fst p)) (parts ! i)) = ch_content (chunks ! i) \<and>
      list_all (\<lambda>p. validate b (fst p) = Inr ()) (parts ! i)" if "i < length chunks" for i
  proof (rule fragments_of_ok)
    show "fragments_of b digest ident now preserve (i, chunks ! i) = Inr (parts ! i)"
      using parts that len by (auto simp: list_all2_conv_all_nth nth_enumerate_eq)
  qed
  have "map (\<lambda>ps. concat (map (\<lambda>p. ch_content (fst p)) ps)) parts = map ch_content chunks"
    using part len by (intro nth_equalityI) simp_all
  then have bodies: "concat (map (\<lambda>p. ch_content (fst p)) ?fr) = concat (map ch_content chunks)"
    by (simp only: concat_map_concat)
  have valid: "list_all (\<lambda>p. validate b (fst p) = Inr ()) ?fr"
    using part len by (fastforce simp: list_all_iff in_set_conv_nth[of _ parts])
  have "list_all (\<lambda>p. \<not> snd p) (parts ! i)" if "preserve \<or> list_all plain_lines chunks" "i < length chunks" for i
    using fragments_of_flags[of b digest ident now preserve i "chunks ! i" "parts ! i"] parts that len
    by (auto simp: list_all2_conv_all_nth nth_enumerate_eq list_all_length)
  then have "preserve \<or> list_all plain_lines chunks \<longrightarrow> list_all (\<lambda>p. \<not> snd p) ?fr"
    using len by (fastforce simp: list_all_iff in_set_conv_nth[of _ parts])
  then have exact: "preserve \<or> list_all plain_lines chunks \<longrightarrow> out = map fst ?fr"
    unfolding out using drop_copies_all by blast
  have mine: "fst p \<in> set out" if "p \<in> set ?fr" "\<not> snd p" for p
  proof -
    have "(fst p, False) = p" using that(2) by (cases p) simp
    with that(1) show ?thesis unfolding out by (intro drop_copies_owned) (simp only:)
  qed
  have keys: "chunk_key (fst p) \<in> chunk_key ` set out" if p: "p \<in> set ?fr" for p
  proof -
    have "k \<in> chunk_key ` set out" if "k \<in> set ?own" for k
      using that mine by (auto simp del: set_concat)
    then show ?thesis using drop_copies_covers[OF p, of ?own] unfolding out by blast
  qed
  have "distinct ?own \<longrightarrow> distinct (map chunk_key out)"
    unfolding out using drop_copies_keys[of ?fr ?own] by blast
  moreover have "subseq out (map fst ?fr)" unfolding out by (rule drop_copies_subseq)
  ultimately show ?thesis
    using bodies valid keys mine exact by (intro exI[of _ ?fr]) blast
qed

lemma bound_chunks_exact:
  assumes "bound_chunks b digest ident now preserve chunks = Inr out" and "preserve \<or> list_all plain_lines chunks"
  shows "concat (map ch_content out) = concat (map ch_content chunks) \<and> list_all (\<lambda>c. validate b c = Inr ()) out"
proof -
  obtain frags :: "(chunk \<times> bool) list" where
    "concat (map (\<lambda>p. ch_content (fst p)) frags) = concat (map ch_content chunks)"
    "list_all (\<lambda>p. validate b (fst p) = Inr ()) frags" "out = map fst frags"
    using bound_chunks_fragments[OF assms(1)] assms(2) by blast
  then show ?thesis by (simp add: comp_def list_all_length)
qed

text \<open>
  C24. Bounding chunks loses no text: when it returns, the chunks were cut into fragments whose
  bodies concatenate to the bodies given, every fragment passes the description, body and
  composed budget, and the result is those fragments in order, less copies of borrowed text
  whose storage key a kept chunk has; if the fragments with lines of their own have distinct
  storage keys, so has the whole result.
\<close>

theorem bound_chunks_lossless:
  assumes "bound_chunks b digest ident now preserve chunks = Inr out"
  shows "\<exists>frags. concat (map (\<lambda>p. ch_content (fst p)) frags) = concat (map ch_content chunks) \<and>
    list_all (\<lambda>p. validate b (fst p) = Inr ()) frags \<and> subseq out (map fst frags) \<and>
    (\<forall>p \<in> set frags. chunk_key (fst p) \<in> chunk_key ` set out \<and> (\<not> snd p \<longrightarrow> fst p \<in> set out)) \<and>
    (distinct (map (\<lambda>p. chunk_key (fst p)) (filter (\<lambda>p. \<not> snd p) frags)) \<longrightarrow> distinct (map chunk_key out))"
  using bound_chunks_fragments[OF assms] by blast

definition sample_bounded :: "(budget_error, chunk list) result" where
  "sample_bounded = bound_chunks (char_budget 3 99 199) (\<lambda>_. ''d'') (\<lambda>_ _. ''u'') 0 False
     [sample_chunk ''a'' ''h'' [97, 98, 10, 99, 100]]"

theorem bound_chunks_lossless_witness:
  "\<exists>out (frags :: (chunk \<times> bool) list). sample_bounded = Inr out \<and> map ch_content out = [[97, 98, 10], [99, 100]] \<and>
     concat (map (\<lambda>p. ch_content (fst p)) frags) = [97, 98, 10, 99, 100] \<and> subseq out (map fst frags)"
proof -
  have "case sample_bounded of Inl _ \<Rightarrow> False | Inr out \<Rightarrow> map ch_content out = [[97, 98, 10], [99, 100]]"
    by code_simp
  then obtain out where out: "sample_bounded = Inr out" "map ch_content out = [[97, 98, 10], [99, 100]]"
    by (auto split: sum.splits)
  from bound_chunks_lossless[OF out(1)[unfolded sample_bounded_def]] obtain frags :: "(chunk \<times> bool) list" where
    "concat (map (\<lambda>p. ch_content (fst p)) frags) = concat (map ch_content [sample_chunk ''a'' ''h'' [97, 98, 10, 99, 100]])"
    "subseq out (map fst frags)" by blast
  with out show ?thesis by (intro exI[of _ out] exI[of _ frags]) (simp add: sample_chunk_def)
qed

end
