(* ===== verification/Merging.thy ===== *)
theory Merging
  imports Budget "HOL-Library.List_Lexorder" "HOL-Library.Char_ord" "HOL-Library.Code_Target_Nat"
begin

text \<open>
  Merging short chunks and adding overlap (\<open>indexing/engine.py\<close>, the post-processing after a
  chunker). Chunks are merged pairwise in three passes; \<open>ident\<close> is the \<open>uuid4\<close> drawn for a
  merged or widened chunk, and \<open>as_tuple\<close> the order in which the interpreter lists a set.
\<close>

section \<open>Which chunks may be merged\<close>

text \<open>Hangul syllables count two characters a token when they are more than three in ten.\<close>

definition estimate_tokens :: "ustr \<Rightarrow> int" where
  "estimate_tokens s =
     (let korean = length (filter (\<lambda>c. 44032 \<le> c \<and> c \<le> 55203) s);
          ratio = (if 10 * korean > 3 * length s then 2 else 4)
      in int (max 1 (length s div ratio)))"

definition is_strict_prefix :: "'a list \<Rightarrow> 'a list \<Rightarrow> bool" where
  "is_strict_prefix shorter longer \<longleftrightarrow>
     length shorter < length longer \<and> take (length shorter) longer = shorter"

definition heading_level :: "ustr \<Rightarrow> nat" where
  "heading_level heading =
     (let stripped = dropWhile is_space heading;
          level = length (takeWhile (\<lambda>c. c = 35) stripped)
      in if level = 0 \<or> level > 6 then 0
         else if length stripped \<le> level \<or> stripped ! level \<noteq> 32 then 0
         else level)"

abbreviation headings :: "chunk \<Rightarrow> ustr list" where
  "headings c \<equiv> md_heading_hierarchy (ch_metadata c)"

definition can_merge :: "bool \<Rightarrow> chunk \<Rightarrow> chunk \<Rightarrow> bool" where
  "can_merge current_is_short current nxt =
     (let ch = headings current; nh = headings nxt in
      if md_source_file (ch_metadata current) \<noteq> md_source_file (ch_metadata nxt) then False
      else if ch = nh then True
      else if ch = [] then True
      else if length ch \<ge> 2 \<and> length nh \<ge> 2 \<and> butlast ch = butlast nh then True
      else if is_strict_prefix ch nh \<or> is_strict_prefix nh ch then True
      else if current_is_short \<and> nh \<noteq> [] then
        (if hd ch = hd nh then True
         else let cur_level = heading_level (hd ch); nxt_level = heading_level (hd nh)
           in cur_level \<noteq> 0 \<and> nxt_level \<noteq> 0 \<and> cur_level > nxt_level)
      else False)"

section \<open>Merging two chunks\<close>

fun common_prefix :: "'a list \<Rightarrow> 'a list \<Rightarrow> 'a list" where
  "common_prefix (a # as) (b # bs) = (if a = b then a # common_prefix as bs else [])"
| "common_prefix _ _ = []"

definition merged_hierarchy :: "chunk \<Rightarrow> chunk \<Rightarrow> ustr list" where
  "merged_hierarchy current nxt =
     (let ch = headings current; nh = headings nxt in
      if ch = nh \<or> ch = [] then (if nh \<noteq> [] then nh else ch)
      else if common_prefix ch nh \<noteq> [] then common_prefix ch nh else nh)"

definition prepend_dropped_headings :: "ustr \<Rightarrow> ustr list \<Rightarrow> ustr" where
  "prepend_dropped_headings content dropped =
     (if dropped = [] then content else join_with [10] dropped @ blank_line @ content)"

definition build_merged_content :: "chunk \<Rightarrow> chunk \<Rightarrow> ustr list \<Rightarrow> ustr" where
  "build_merged_content current nxt hierarchy =
     prepend_dropped_headings (ch_content current) (drop (length hierarchy) (headings current)) @ blank_line @
     prepend_dropped_headings (ch_content nxt) (drop (length hierarchy) (headings nxt))"

text \<open>The zeros of the line map for restored headings.\<close>

definition label_lines :: "ustr list \<Rightarrow> int list" where
  "label_lines dropped = (if dropped = [] then [] else replicate (newlines (join_with [10] dropped) + 2) 0)"

definition earliest :: "int option \<Rightarrow> int option \<Rightarrow> int option" where
  "earliest a b = (case a of None \<Rightarrow> b | Some s \<Rightarrow> (case b of None \<Rightarrow> a | Some t \<Rightarrow> Some (min s t)))"

type_synonym merge_env = "(ustr \<Rightarrow> string) \<times> (chunk \<Rightarrow> chunk \<Rightarrow> string) \<times> int \<times> (string set \<Rightarrow> string list)"

definition merge_pair :: "merge_env \<Rightarrow> chunk \<Rightarrow> chunk \<Rightarrow> chunk" where
  "merge_pair env current nxt =
     (case env of (digest, ident, now, as_tuple) \<Rightarrow>
        let md = ch_metadata current; nd = ch_metadata nxt;
            hierarchy = merged_hierarchy current nxt;
            line_map = label_lines (drop (length hierarchy) (md_heading_hierarchy md)) @ source_line_map current @ [0] @
              label_lines (drop (length hierarchy) (md_heading_hierarchy nd)) @ source_line_map nxt
        in (new_chunk digest (ident current nxt) now (build_merged_content current nxt hierarchy)
             (md\<lparr>md_heading_hierarchy := hierarchy, md_end_line := md_end_line nd,
                md_tags := as_tuple (set (md_tags md) \<union> set (md_tags nd)),
                md_entry_created_at := earliest (md_entry_created_at md) (md_entry_created_at nd)\<rparr>))
           \<lparr>ch_line_map := Some line_map\<rparr>)"

section \<open>The three passes\<close>

fun grow_chunk :: "(chunk \<Rightarrow> chunk \<Rightarrow> bool) \<Rightarrow> (chunk \<Rightarrow> chunk \<Rightarrow> chunk) \<Rightarrow> chunk \<Rightarrow> chunk list \<Rightarrow> chunk \<times> chunk list" where
  "grow_chunk join glue c [] = (c, [])"
| "grow_chunk join glue c (n # ns) = (if join c n then grow_chunk join glue (glue c n) ns else (c, n # ns))"

lemma grow_chunk_length [termination_simp]: "length (snd (grow_chunk join glue c ns)) \<le> length ns"
  by (induction join glue c ns rule: grow_chunk.induct) auto

fun pack_chunks :: "(chunk \<Rightarrow> chunk \<Rightarrow> bool) \<Rightarrow> (chunk \<Rightarrow> chunk \<Rightarrow> chunk) \<Rightarrow> chunk list \<Rightarrow> chunk list" where
  "pack_chunks join glue [] = []"
| "pack_chunks join glue (c # cs) =
     (let r = grow_chunk join glue c cs in fst r # pack_chunks join glue (snd r))"

definition short_joins :: "int \<Rightarrow> int \<Rightarrow> chunk \<Rightarrow> chunk \<Rightarrow> bool" where
  "short_joins least most c n \<longleftrightarrow>
     estimate_tokens (ch_content c) < least \<and> can_merge True c n \<and>
     \<not> (estimate_tokens (ch_content c) + estimate_tokens (ch_content n) + 1 > most \<and>
        estimate_tokens (ch_content n) \<le> most)"

definition packing_joins :: "int \<Rightarrow> int \<Rightarrow> chunk \<Rightarrow> chunk \<Rightarrow> bool" where
  "packing_joins goal most c n \<longleftrightarrow>
     estimate_tokens (ch_content c) < goal \<and> can_merge False c n \<and>
     estimate_tokens (ch_content c) + estimate_tokens (ch_content n) + 1 \<le> most"

definition tail_joins :: "int \<Rightarrow> int \<Rightarrow> chunk \<Rightarrow> chunk \<Rightarrow> bool" where
  "tail_joins least most p l \<longleftrightarrow>
     estimate_tokens (ch_content l) < least \<and>
     (estimate_tokens (ch_content p) + estimate_tokens (ch_content l) + 1 \<le> most \<or> estimate_tokens (ch_content p) > most) \<and>
     can_merge True p l"

definition tail_sweep :: "(chunk \<Rightarrow> chunk \<Rightarrow> bool) \<Rightarrow> (chunk \<Rightarrow> chunk \<Rightarrow> chunk) \<Rightarrow> chunk list \<Rightarrow> chunk list" where
  "tail_sweep join glue cs =
     (if length cs \<ge> 2 \<and> join (cs ! (length cs - 2)) (last cs)
      then take (length cs - 2) cs @ [glue (cs ! (length cs - 2)) (last cs)] else cs)"

definition merge_short_chunks :: "merge_env \<Rightarrow> int \<Rightarrow> int \<Rightarrow> int \<Rightarrow> chunk list \<Rightarrow> chunk list" where
  "merge_short_chunks env min_tokens max_tokens target_tokens chunks =
     (if min_tokens \<le> 0 \<or> length chunks \<le> 1 then chunks
      else let most = (if max_tokens \<le> min_tokens then max (min_tokens * 4) 512 else max_tokens);
               pass1 = pack_chunks (short_joins min_tokens most) (merge_pair env) chunks;
               pass2 = (if target_tokens > min_tokens \<and> length pass1 > 1
                        then pack_chunks (packing_joins target_tokens most) (merge_pair env) pass1 else pass1)
           in tail_sweep (tail_joins min_tokens most) (merge_pair env) pass2)"

section \<open>Overlap between neighbours\<close>

definition borrow_before :: "nat \<Rightarrow> chunk \<Rightarrow> ustr \<times> int list" where
  "borrow_before amount prev =
     (let body = ch_content prev;
          prefix = (if length body > amount then drop (length body - amount) body else body);
          first = newlines (take (length body - length prefix) body)
      in (prefix, map (\<lambda>n. - \<bar>n\<bar>) (drop first (source_line_map prev))))"

definition borrow_after :: "nat \<Rightarrow> chunk \<Rightarrow> ustr \<times> int list" where
  "borrow_after amount nxt =
     (let suffix = take amount (ch_content nxt)
      in (suffix, map (\<lambda>n. - \<bar>n\<bar>) (take (newlines suffix + 1) (source_line_map nxt))))"

definition same_file :: "chunk \<Rightarrow> chunk \<Rightarrow> bool" where
  "same_file c d \<longleftrightarrow> md_source_file (ch_metadata c) = md_source_file (ch_metadata d)"

definition widen ::
  "(ustr \<Rightarrow> string) \<Rightarrow> (chunk \<Rightarrow> string) \<Rightarrow> int \<Rightarrow> nat \<Rightarrow> chunk option \<Rightarrow> chunk \<Rightarrow> chunk option \<Rightarrow> chunk" where
  "widen digest ident now amount prev c nxt =
     (let before = (case prev of Some p \<Rightarrow> if same_file p c then borrow_before amount p else ([], []) | None \<Rightarrow> ([], []));
          after = (case nxt of Some n \<Rightarrow> if same_file n c then borrow_after amount n else ([], []) | None \<Rightarrow> ([], []));
          ob = length (fst before); oa = length (fst after)
      in if ob = 0 \<and> oa = 0 then c
         else (new_chunk digest (ident c) now
                (join_with [10] ((if fst before \<noteq> [] then [fst before] else []) @ [ch_content c] @
                   (if fst after \<noteq> [] then [fst after] else [])))
                ((ch_metadata c)\<lparr>md_overlap_before := ob, md_overlap_after := oa\<rparr>))
              \<lparr>ch_line_map := Some (snd before @ source_line_map c @ snd after)\<rparr>)"

fun widen_all ::
  "(ustr \<Rightarrow> string) \<Rightarrow> (chunk \<Rightarrow> string) \<Rightarrow> int \<Rightarrow> nat \<Rightarrow> chunk option \<Rightarrow> chunk list \<Rightarrow> chunk list" where
  "widen_all digest ident now amount prev [] = []"
| "widen_all digest ident now amount prev (c # cs) =
     widen digest ident now amount prev c (case cs of [] \<Rightarrow> None | n # _ \<Rightarrow> Some n) #
     widen_all digest ident now amount (Some c) cs"

definition add_overlap ::
  "(ustr \<Rightarrow> string) \<Rightarrow> (chunk \<Rightarrow> string) \<Rightarrow> int \<Rightarrow> int \<Rightarrow> chunk list \<Rightarrow> chunk list" where
  "add_overlap digest ident now overlap_tokens chunks =
     (if overlap_tokens \<le> 0 \<or> length chunks \<le> 1 then chunks
      else widen_all digest ident now (nat (min (overlap_tokens * 3) 5000)) None chunks)"

section \<open>Lines and where they come from\<close>

abbreviation lines :: "ustr \<Rightarrow> ustr list" where
  "lines s \<equiv> split_on 10 s"

lemma length_lines [simp]: "length (lines s) = newlines s + 1"
  by (induction s) (auto simp: newlines_def split: list.split)

text \<open>Every line of the body has an entry in the line map.\<close>

definition aligned :: "chunk \<Rightarrow> bool" where
  "aligned c \<longleftrightarrow> length (source_line_map c) = newlines (ch_content c) + 1"

text \<open>The lines that come from the file, with the entries of the line map.\<close>

definition body_lines :: "chunk \<Rightarrow> (ustr \<times> int) list" where
  "body_lines c = filter (\<lambda>p. snd p \<noteq> 0) (zip (lines (ch_content c)) (source_line_map c))"

text \<open>Those of them that are its own, not borrowed from a neighbour.\<close>

definition own_lines :: "chunk \<Rightarrow> (ustr \<times> int) list" where
  "own_lines c = filter (\<lambda>p. snd p > 0) (zip (lines (ch_content c)) (source_line_map c))"

lemma source_line_map_set [simp]: "source_line_map (c\<lparr>ch_line_map := Some m\<rparr>) = m"
  by (simp add: source_line_map_def)

lemma zip_zeros [simp]: "filter (\<lambda>p. snd p \<noteq> 0) (zip xs (replicate n (0::int))) = []"
  by (auto simp: filter_empty_conv set_zip)

lemma label_lines_prepended:
  assumes "length m = newlines body + 1"
  shows "length (label_lines d @ m) = newlines (prepend_dropped_headings body d) + 1 \<and>
    filter (\<lambda>p. snd p \<noteq> 0) (zip (lines (prepend_dropped_headings body d)) (label_lines d @ m)) =
    filter (\<lambda>p. snd p \<noteq> 0) (zip (lines body) m)"
proof (cases "d = []")
  case True
  then show ?thesis using assms by (simp add: label_lines_def prepend_dropped_headings_def)
next
  case False
  let ?h = "join_with [10] d"
  have body: "prepend_dropped_headings body d = ?h @ 10 # [] @ 10 # body"
    using False by (simp add: prepend_dropped_headings_def blank_line_def)
  have labels: "label_lines d @ m = replicate (newlines ?h + 1) 0 @ [0] @ m"
    using False by (simp add: label_lines_def replicate_app_Cons_same)
  show ?thesis
    unfolding body labels split_on_append using assms by (simp add: zip_append newlines_def del: replicate_Suc)
qed

lemma merge_pair_lines:
  assumes "aligned a" and "aligned b"
  shows "aligned (merge_pair env a b) \<and> body_lines (merge_pair env a b) = body_lines a @ body_lines b"
proof -
  let ?h = "merged_hierarchy a b"
  note left = label_lines_prepended[OF assms(1)[unfolded aligned_def], of "drop (length ?h) (headings a)"]
  note right = label_lines_prepended[OF assms(2)[unfolded aligned_def], of "drop (length ?h) (headings b)"]
  have body: "ch_content (merge_pair env a b) = prepend_dropped_headings (ch_content a) (drop (length ?h) (headings a)) @
      10 # [] @ 10 # prepend_dropped_headings (ch_content b) (drop (length ?h) (headings b))"
    by (simp add: merge_pair_def Let_def new_chunk_def build_merged_content_def blank_line_def split_beta)
  have line_map: "source_line_map (merge_pair env a b) = (label_lines (drop (length ?h) (headings a)) @ source_line_map a) @
      [0] @ (label_lines (drop (length ?h) (headings b)) @ source_line_map b)"
    by (simp add: merge_pair_def Let_def split_beta)
  show ?thesis
    unfolding aligned_def body_lines_def body line_map using left right
    by (simp add: zip_append newlines_def del: append_assoc)
qed

section \<open>What the three passes build\<close>

text \<open>A chunk built from a run of chunks by merges the relaxed gate allows.\<close>

inductive merged_of :: "merge_env \<Rightarrow> chunk list \<Rightarrow> chunk \<Rightarrow> bool" for env where
  alone: "merged_of env [c] c"
| pair: "merged_of env xs a \<Longrightarrow> merged_of env ys b \<Longrightarrow> can_merge True a b \<Longrightarrow> merged_of env (xs @ ys) (merge_pair env a b)"

abbreviation merged_list :: "merge_env \<Rightarrow> chunk list \<Rightarrow> chunk list \<Rightarrow> bool" where
  "merged_list env cs ds \<equiv> \<exists>groups. concat groups = cs \<and> list_all2 (merged_of env) groups ds"

lemma can_merge_relaxed: "can_merge short a b \<Longrightarrow> can_merge True a b"
  by (auto simp: can_merge_def Let_def split: if_splits)

lemma merged_list_refl: "merged_list env cs cs"
  by (rule exI[of _ "map (\<lambda>c. [c]) cs"]) (auto simp: list_all2_conv_all_nth intro: merged_of.alone)

lemma merged_list_Nil: "merged_list env [] []"
  by (rule exI[of _ "[]"]) simp

lemma merged_list_Cons: "merged_of env xs d \<Longrightarrow> merged_list env cs ds \<Longrightarrow> merged_list env (xs @ cs) (d # ds)"
  by (metis concat.simps(2) list_all2_Cons)

lemma merged_of_trans:
  "merged_of env ys c \<Longrightarrow> list_all2 (merged_of env) groups ys \<Longrightarrow> merged_of env (concat groups) c"
proof (induction arbitrary: groups rule: merged_of.induct)
  case (alone c)
  then obtain g where "groups = [g]" "merged_of env g c" by (auto simp: list_all2_Cons2)
  then show ?case by simp
next
  case (pair xs a ys b)
  then obtain gs hs where "groups = gs @ hs" "list_all2 (merged_of env) gs xs" "list_all2 (merged_of env) hs ys"
    by (auto simp: list_all2_append2)
  with pair show ?case by (auto intro: merged_of.pair)
qed

lemma merged_list_trans: "merged_list env as bs \<Longrightarrow> merged_list env bs cs \<Longrightarrow> merged_list env as cs"
proof -
  have "merged_list env as cs" if "concat gs = as" "list_all2 (merged_of env) gs (concat hs)" "list_all2 (merged_of env) hs cs"
    for gs hs
    using that
  proof (induction hs arbitrary: gs as cs)
    case Nil
    then show ?case by (auto intro: merged_list_Nil)
  next
    case (Cons h hs)
    then obtain g1 g2 c ds where gs: "gs = g1 @ g2" "list_all2 (merged_of env) g1 h" "list_all2 (merged_of env) g2 (concat hs)"
      and cs: "cs = c # ds" "merged_of env h c" "list_all2 (merged_of env) hs ds"
      by (auto simp: list_all2_append2 list_all2_Cons1)
    from Cons.IH[OF refl gs(3) cs(3)] merged_of_trans[OF cs(2) gs(2)] show ?case
      using Cons.prems(1) gs(1) cs(1) merged_list_Cons by (metis concat_append)
  qed
  then show "merged_list env as bs \<Longrightarrow> merged_list env bs cs \<Longrightarrow> merged_list env as cs" by blast
qed

lemma grow_chunk_merged:
  "\<lbrakk>\<And>a b. join a b \<Longrightarrow> can_merge True a b; merged_of env xs c\<rbrakk> \<Longrightarrow>
   \<exists>used. ns = used @ snd (grow_chunk join (merge_pair env) c ns) \<and>
     merged_of env (xs @ used) (fst (grow_chunk join (merge_pair env) c ns))"
proof (induction ns arbitrary: xs c)
  case (Cons n ns)
  show ?case
  proof (cases "join c n")
    case True
    from merged_of.pair[OF Cons.prems(2) merged_of.alone Cons.prems(1)[OF True]]
    obtain used where "ns = used @ snd (grow_chunk join (merge_pair env) (merge_pair env c n) ns)"
      "merged_of env ((xs @ [n]) @ used) (fst (grow_chunk join (merge_pair env) (merge_pair env c n) ns))"
      using Cons.IH[OF Cons.prems(1)] by blast
    with True show ?thesis by (intro exI[of _ "n # used"]) simp
  qed (use Cons.prems in simp)
qed simp

lemma pack_chunks_merged:
  "(\<And>a b. join a b \<Longrightarrow> can_merge True a b) \<Longrightarrow> merged_list env cs (pack_chunks join (merge_pair env) cs)"
proof (induction join "merge_pair env" cs rule: pack_chunks.induct)
  case (2 join c cs)
  let ?r = "grow_chunk join (merge_pair env) c cs"
  obtain used where used: "cs = used @ snd ?r" "merged_of env ([c] @ used) (fst ?r)"
    using grow_chunk_merged[of join env "[c]" c cs] 2(2) merged_of.alone by blast
  from merged_list_Cons[OF used(2) 2(1)[OF refl 2(2)]] used(1) show ?case by (simp add: Let_def)
qed (simp add: merged_list_Nil)

lemma last_two: "length cs \<ge> 2 \<Longrightarrow> \<exists>bs p l. cs = bs @ [p, l]"
proof (cases cs rule: rev_cases)
  case (snoc xs l)
  then show "length cs \<ge> 2 \<Longrightarrow> ?thesis" by (cases xs rule: rev_cases) auto
qed simp

lemma tail_sweep_merged:
  assumes "\<And>a b. join a b \<Longrightarrow> can_merge True a b"
  shows "merged_list env cs (tail_sweep join (merge_pair env) cs)"
proof (cases "length cs \<ge> 2 \<and> join (cs ! (length cs - 2)) (last cs)")
  case True
  let ?p = "cs ! (length cs - 2)"
  obtain bs p l where "cs = bs @ [p, l]" using last_two True by blast
  then have cs: "cs = take (length cs - 2) cs @ [?p] @ [last cs]" by (simp add: nth_append)
  obtain groups where groups: "concat groups = take (length cs - 2) cs" "list_all2 (merged_of env) groups (take (length cs - 2) cs)"
    using merged_list_refl by blast
  have "merged_of env ([?p] @ [last cs]) (merge_pair env ?p (last cs))"
    using assms True by (intro merged_of.pair merged_of.alone) blast
  with groups cs show ?thesis
    using True by (intro exI[of _ "groups @ [[?p] @ [last cs]]"]) (simp add: tail_sweep_def list_all2_appendI)
next
  case False
  then have "tail_sweep join (merge_pair env) cs = cs" by (simp only: tail_sweep_def if_False)
  then show ?thesis using merged_list_refl by simp
qed

lemma merge_short_merged: "merged_list env chunks (merge_short_chunks env least most goal chunks)"
proof -
  have joins: "short_joins l m a b \<Longrightarrow> can_merge True a b" "packing_joins l m a b \<Longrightarrow> can_merge True a b"
    "tail_joins l m a b \<Longrightarrow> can_merge True a b" for l m a b
    by (auto simp: short_joins_def packing_joins_def tail_joins_def dest: can_merge_relaxed)
  have pass2: "merged_list env chunks (if p then pack_chunks (packing_joins g m) (merge_pair env) cs else cs)"
    if "merged_list env chunks cs" for p g m cs
    using merged_list_trans[OF that pack_chunks_merged[OF joins(2)]] that by simp
  show ?thesis
    unfolding merge_short_chunks_def Let_def if_distribR
    using merged_list_trans[OF pass2[OF pack_chunks_merged[OF joins(1)]] tail_sweep_merged[OF joins(3)]]
      merged_list_refl by simp
qed

section \<open>A merged chunk carries the lines of its parts\<close>

definition entry_time :: "chunk list \<Rightarrow> int option" where
  "entry_time g = foldr (\<lambda>x. earliest (md_entry_created_at (ch_metadata x))) g None"

lemma earliest_simps [simp]: "earliest None b = b" "earliest a None = a"
  by (simp_all add: earliest_def split: option.split)

lemma earliest_assoc: "earliest (earliest a b) c = earliest a (earliest b c)"
  by (auto simp: earliest_def split: option.split)

lemma entry_time_append [simp]: "entry_time (xs @ ys) = earliest (entry_time xs) (entry_time ys)"
  by (induction xs) (simp_all add: entry_time_def earliest_assoc)

lemma merge_pair_meta:
  "ch_metadata (merge_pair (digest, ident, now, as_tuple) a b) = (ch_metadata a)\<lparr>
     md_heading_hierarchy := merged_hierarchy a b, md_end_line := md_end_line (ch_metadata b),
     md_tags := as_tuple (set (md_tags (ch_metadata a)) \<union> set (md_tags (ch_metadata b))),
     md_entry_created_at := earliest (md_entry_created_at (ch_metadata a)) (md_entry_created_at (ch_metadata b))\<rparr>"
  by (simp add: merge_pair_def Let_def new_chunk_def)

definition tags_of :: "chunk \<Rightarrow> string set" where
  "tags_of c = set (md_tags (ch_metadata c))"

text \<open>What a chunk merged from a run of chunks owes to them.\<close>

definition carries :: "chunk list \<Rightarrow> chunk \<Rightarrow> bool" where
  "carries g c \<longleftrightarrow> g \<noteq> [] \<and> aligned c \<and> body_lines c = concat (map body_lines g) \<and>
     list_all (\<lambda>x. same_file x c) g \<and> tags_of c = \<Union> (set (map tags_of g)) \<and>
     md_start_line (ch_metadata c) = md_start_line (ch_metadata (hd g)) \<and>
     md_end_line (ch_metadata c) = md_end_line (ch_metadata (last g)) \<and>
     md_entry_created_at (ch_metadata c) = entry_time g"

lemma merged_of_carries:
  assumes "merged_of (digest, ident, now, as_tuple) g c" and "list_all aligned g"
    and "\<And>S. finite S \<Longrightarrow> set (as_tuple S) = S"
  shows "carries g c"
  using assms(1,2)
proof (induction rule: merged_of.induct)
  case (alone c)
  then show ?case by (simp add: carries_def same_file_def entry_time_def)
next
  case (pair xs a ys b)
  then have a: "carries xs a" and b: "carries ys b" by simp_all
  have lines: "aligned (merge_pair (digest, ident, now, as_tuple) a b) \<and>
      body_lines (merge_pair (digest, ident, now, as_tuple) a b) = body_lines a @ body_lines b"
    using a b by (intro merge_pair_lines) (simp_all add: carries_def)
  have "same_file a b" using pair.hyps(3) by (auto simp: can_merge_def same_file_def Let_def split: if_splits)
  with a b have files: "list_all (\<lambda>x. same_file x (merge_pair (digest, ident, now, as_tuple) a b)) (xs @ ys)"
    by (auto simp: carries_def list_all_iff same_file_def merge_pair_meta)
  from a b lines files show ?case
    by (simp add: carries_def merge_pair_meta tags_of_def assms(3) del: Union_iff)
qed

text \<open>
  C17. Merging short chunks loses nothing: the chunks are cut into consecutive runs of one file,
  one run for each merged chunk, whose body holds exactly the lines of its run, in order and
  with their source lines, beside label lines mapped to no line at all; it spans from the start
  of the first to the end of the last, has the tags of all and the time of the earliest entry.
\<close>

theorem merge_keeps_lines:
  assumes "list_all aligned chunks" and "\<And>S. finite S \<Longrightarrow> set (as_tuple S) = S"
  shows "\<exists>groups. concat groups = chunks \<and>
    list_all2 carries groups (merge_short_chunks (digest, ident, now, as_tuple) least most goal chunks)"
proof -
  obtain groups where groups: "concat groups = chunks"
    "list_all2 (merged_of (digest, ident, now, as_tuple)) groups (merge_short_chunks (digest, ident, now, as_tuple) least most goal chunks)"
    using merge_short_merged by blast
  have "list_all2 carries groups (merge_short_chunks (digest, ident, now, as_tuple) least most goal chunks)"
    using groups(2)
  proof (rule list.rel_mono_strong)
    fix g c assume "g \<in> set groups" and c: "merged_of (digest, ident, now, as_tuple) g c"
    then have "list_all aligned g" using assms(1) groups(1) by (auto simp: list_all_iff)
    from merged_of_carries[OF c this assms(2)] show "carries g c" .
  qed
  with groups(1) show ?thesis by blast
qed

section \<open>Headings survive within a top-level entry\<close>

text \<open>
  The chunks of one top-level heading level: every chunk has a heading, and the first ones have
  the same level (0 for a heading that is not markdown).
\<close>

definition rooted :: "nat \<Rightarrow> chunk \<Rightarrow> bool" where
  "rooted level c \<longleftrightarrow> headings c \<noteq> [] \<and> heading_level (hd (headings c)) = level"

definition keeps_headings :: "chunk \<Rightarrow> chunk \<Rightarrow> bool" where
  "keeps_headings x c \<longleftrightarrow> hd (headings x) = hd (headings c) \<and>
     list_all (\<lambda>h. h \<in> set (headings c) \<or> sublist h (ch_content c)) (headings x) \<and> sublist (ch_content x) (ch_content c)"

lemma common_prefix_take: "common_prefix xs ys = take (length (common_prefix xs ys)) xs"
  by (induction xs ys rule: common_prefix.induct) auto

lemma common_prefix_sym: "common_prefix xs ys = common_prefix ys xs"
  by (induction xs ys rule: common_prefix.induct) auto

lemma hd_butlast: "butlast xs = butlast ys \<Longrightarrow> length xs \<ge> 2 \<Longrightarrow> length ys \<ge> 2 \<Longrightarrow> hd xs = hd ys"
  by (cases xs; cases ys) (auto split: if_splits)

lemma hd_strict_prefix: "is_strict_prefix xs ys \<Longrightarrow> xs \<noteq> [] \<Longrightarrow> hd xs = hd ys"
  by (cases xs; cases ys) (auto simp: is_strict_prefix_def)

lemma can_merge_root:
  assumes gate: "can_merge True a b" and "rooted k a" and "rooted k b"
  shows "hd (headings a) = hd (headings b)"
proof (rule ccontr)
  assume apart: "hd (headings a) \<noteq> hd (headings b)"
  have some: "headings a \<noteq> []" "headings b \<noteq> []" and levels: "heading_level (hd (headings a)) = heading_level (hd (headings b))"
    using assms by (simp_all add: rooted_def)
  have "headings a \<noteq> headings b" "\<not> is_strict_prefix (headings a) (headings b)" "\<not> is_strict_prefix (headings b) (headings a)"
    using apart some hd_strict_prefix by metis+
  moreover have "\<not> (length (headings a) \<ge> 2 \<and> length (headings b) \<ge> 2 \<and> butlast (headings a) = butlast (headings b))"
    using apart hd_butlast by blast
  ultimately show False
    using gate apart some levels unfolding can_merge_def Let_def by (simp split: if_splits)
qed

lemma sublist_right: "sublist x zs \<Longrightarrow> sublist x (ys @ zs)"
  unfolding sublist_def by (metis append.assoc)

lemma sublist_trans: "sublist x y \<Longrightarrow> sublist y z \<Longrightarrow> sublist x z"
  unfolding sublist_def by (metis append.assoc)

lemma sublist_left: "sublist x ys \<Longrightarrow> sublist x (ys @ zs)"
  unfolding sublist_def by (metis append.assoc)

lemma sublist_join: "x \<in> set xs \<Longrightarrow> sublist x (join_with sep xs)"
proof (induction sep xs rule: join_with.induct)
  case (3 sep x' y zs)
  then show ?case
    by (cases "x = x'") (simp_all add: sublist_left sublist_right)
qed simp_all

lemma headings_kept:
  "h \<in> set hs \<Longrightarrow> h \<in> set (take n hs) \<or> sublist h (prepend_dropped_headings body (drop n hs))"
proof -
  assume "h \<in> set hs"
  then consider "h \<in> set (take n hs)" | "h \<in> set (drop n hs)" by (metis Un_iff append_take_drop_id set_append)
  then show ?thesis
  proof cases
    case 2
    then have "drop n hs \<noteq> []" by auto
    with 2 show ?thesis by (simp add: prepend_dropped_headings_def sublist_left sublist_join)
  qed simp
qed

lemma body_kept: "sublist body (prepend_dropped_headings body d)"
  by (simp add: prepend_dropped_headings_def sublist_right)

lemma merged_hierarchy_root:
  assumes "headings a \<noteq> []" "headings b \<noteq> []" "hd (headings a) = hd (headings b)"
  shows "merged_hierarchy a b = take (length (merged_hierarchy a b)) (headings a) \<and>
    merged_hierarchy a b = take (length (merged_hierarchy a b)) (headings b) \<and>
    merged_hierarchy a b \<noteq> [] \<and> hd (merged_hierarchy a b) = hd (headings a)"
proof (cases "headings a = headings b")
  case True
  then show ?thesis using assms by (simp add: merged_hierarchy_def)
next
  case False
  obtain h xs ys where hs: "headings a = h # xs" "headings b = h # ys" using assms by (cases "headings a"; cases "headings b") auto
  then have "merged_hierarchy a b = common_prefix (headings a) (headings b)" using False by (simp add: merged_hierarchy_def)
  then show ?thesis
    using common_prefix_take[of "headings a" "headings b"] common_prefix_take[of "headings b" "headings a"]
      common_prefix_sym[of "headings a" "headings b"] hs by (metis common_prefix.simps(1) list.distinct(1) list.sel(1))
qed

lemma merge_pair_headings:
  assumes "rooted k a" and "rooted k b" and "hd (headings a) = hd (headings b)"
  shows "rooted k (merge_pair env a b) \<and> keeps_headings a (merge_pair env a b) \<and> keeps_headings b (merge_pair env a b)"
proof -
  let ?h = "merged_hierarchy a b" and ?c = "merge_pair env a b"
  let ?left = "prepend_dropped_headings (ch_content a) (drop (length ?h) (headings a))"
  let ?right = "prepend_dropped_headings (ch_content b) (drop (length ?h) (headings b))"
  have root: "?h = take (length ?h) (headings a)" "?h = take (length ?h) (headings b)" "?h \<noteq> []" "hd ?h = hd (headings a)"
    using merged_hierarchy_root[of a b] assms by (simp_all add: rooted_def)
  have hs: "headings ?c = ?h" by (simp add: merge_pair_def Let_def new_chunk_def split_beta)
  have body: "ch_content ?c = ?left @ blank_line @ ?right"
    by (simp add: merge_pair_def Let_def new_chunk_def build_merged_content_def split_beta)
  have kept: "h \<in> set ?h \<or> sublist h (prepend_dropped_headings body (drop (length ?h) hs))"
    if "?h = take (length ?h) hs" "h \<in> set hs" for h hs body
    using headings_kept[OF that(2), of "length ?h" body] that(1) by simp
  have "keeps_headings a ?c"
    unfolding keeps_headings_def hs body list_all_iff
  proof (intro conjI ballI)
    show "hd (headings a) = hd ?h" using root(4) by simp
    show "h \<in> set ?h \<or> sublist h (?left @ blank_line @ ?right)" if "h \<in> set (headings a)" for h
      using kept[OF root(1) that, of "ch_content a"] sublist_left by blast
    show "sublist (ch_content a) (?left @ blank_line @ ?right)" by (rule sublist_left[OF body_kept])
  qed
  moreover have "keeps_headings b ?c"
    unfolding keeps_headings_def hs body list_all_iff
  proof (intro conjI ballI)
    show "hd (headings b) = hd ?h" using root(4) assms(3) by simp
    show "h \<in> set ?h \<or> sublist h (?left @ blank_line @ ?right)" if "h \<in> set (headings b)" for h
      using kept[OF root(2) that, of "ch_content b"] sublist_right by blast
    show "sublist (ch_content b) (?left @ blank_line @ ?right)" by (rule sublist_right[OF sublist_right[OF body_kept]])
  qed
  ultimately show ?thesis using root assms(1) hs by (simp add: rooted_def)
qed

lemma keeps_headings_trans:
  assumes x: "keeps_headings x b" and b: "keeps_headings b c"
  shows "keeps_headings x c"
proof -
  have body: "sublist (ch_content b) (ch_content c)" using b by (simp add: keeps_headings_def)
  have "h \<in> set (headings c) \<or> sublist h (ch_content c)" if "h \<in> set (headings x)" for h
  proof (cases "h \<in> set (headings b)")
    case True
    with b show ?thesis by (simp add: keeps_headings_def list_all_iff)
  next
    case False
    with x that have "sublist h (ch_content b)" by (auto simp: keeps_headings_def list_all_iff)
    from sublist_trans[OF this body] show ?thesis ..
  qed
  moreover have "sublist (ch_content x) (ch_content c)" using x sublist_trans[OF _ body] by (simp add: keeps_headings_def)
  ultimately show ?thesis using x b by (simp add: keeps_headings_def list_all_iff)
qed

lemma merged_of_headings:
  "merged_of env g c \<Longrightarrow> list_all (rooted k) g \<Longrightarrow> rooted k c \<and> list_all (\<lambda>x. keeps_headings x c) g"
proof (induction rule: merged_of.induct)
  case (alone c)
  then show ?case by (simp add: keeps_headings_def list_all_iff)
next
  case (pair xs a ys b)
  then have a: "rooted k a" "list_all (\<lambda>x. keeps_headings x a) xs" and b: "rooted k b" "list_all (\<lambda>x. keeps_headings x b) ys"
    by simp_all
  note both = merge_pair_headings[OF a(1) b(1) can_merge_root[OF pair.hyps(3) a(1) b(1)], of env]
  have "list_all (\<lambda>x. keeps_headings x (merge_pair env a b)) (xs @ ys)"
    using a(2) b(2) both by (auto simp: list_all_iff intro: keeps_headings_trans)
  with both show ?case by simp
qed

text \<open>
  Where all top-level headings have one level, entries are never mixed and no heading is
  lost: a merged chunk only joins chunks under its own top-level heading, holds their bodies,
  and every heading of theirs is still in its hierarchy or written out in its body.
\<close>

theorem merge_keeps_headings:
  assumes "list_all (rooted level) chunks"
  shows "\<exists>groups. concat groups = chunks \<and>
    list_all2 (\<lambda>g c. list_all (\<lambda>x. keeps_headings x c) g) groups (merge_short_chunks env least most goal chunks)"
proof -
  obtain groups where groups: "concat groups = chunks"
    "list_all2 (merged_of env) groups (merge_short_chunks env least most goal chunks)"
    using merge_short_merged by blast
  have "list_all2 (\<lambda>g c. list_all (\<lambda>x. keeps_headings x c) g) groups (merge_short_chunks env least most goal chunks)"
    using groups(2)
  proof (rule list.rel_mono_strong)
    fix g c assume "g \<in> set groups" and c: "merged_of env g c"
    then have "list_all (rooted level) g" using assms groups(1) by (auto simp: list_all_iff)
    from merged_of_headings[OF c this] show "list_all (\<lambda>x. keeps_headings x c) g" by blast
  qed
  with groups(1) show ?thesis by blast
qed

text \<open>
  Across levels a heading can vanish: a short chunk under \<open>## A\<close> folded into the section under
  \<open># B\<close> after it leaves \<open>## A\<close> neither in the hierarchy nor in the body.
\<close>

lemma inversion_drops_heading:
  assumes "headings a = [lit ''## A'']" and "headings b = [lit ''# B'']" and "ch_content a = [97]" and "ch_content b = [98]"
    and "md_source_file (ch_metadata a) = md_source_file (ch_metadata b)"
  shows "can_merge True a b \<and> headings (merge_pair env a b) = [lit ''# B''] \<and>
    ch_content (merge_pair env a b) = [97, 10, 10, 98]"
  using assms
  by (simp add: can_merge_def merge_pair_def merged_hierarchy_def build_merged_content_def prepend_dropped_headings_def
      new_chunk_def heading_level_def is_strict_prefix_def is_space_def lit_def blank_line_def Let_def split_beta)

section \<open>Examples of merging\<close>

definition sample_section :: "string list \<Rightarrow> int \<Rightarrow> ustr \<Rightarrow> chunk" where
  "sample_section hs line body = (let c = sample_chunk ''i'' ''h'' body in
     c\<lparr>ch_metadata := (ch_metadata c)\<lparr>md_heading_hierarchy := map lit hs, md_start_line := line, md_end_line := line\<rparr>\<rparr>)"

definition sample_sections :: "chunk list" where
  "sample_sections = [sample_section [''## T'', ''### A''] 3 [97], sample_section [''## T'', ''### B''] 7 [98],
     sample_section [''## U''] 9 [99]]"

definition sample_env :: merge_env where
  "sample_env = (\<lambda>_. ''d'', \<lambda>_ _. ''u'', 0, sorted_list_of_set)"

lemma sample_merge:
  "map headings (merge_short_chunks sample_env 8 64 0 sample_sections) = [[lit ''## T''], [lit ''## U'']]"
  "map body_lines (merge_short_chunks sample_env 8 64 0 sample_sections) = [[([97], 3), ([98], 7)], [([99], 9)]]"
  "list_all aligned sample_sections" "list_all (rooted 2) sample_sections"
  by code_simp+

theorem merge_keeps_lines_witness:
  "map body_lines (merge_short_chunks sample_env 8 64 0 sample_sections) = [[([97], 3), ([98], 7)], [([99], 9)]] \<and>
   (\<exists>groups. concat groups = sample_sections \<and> list_all2 carries groups (merge_short_chunks sample_env 8 64 0 sample_sections))"
  using merge_keeps_lines[OF sample_merge(3) set_sorted_list_of_set, of "\<lambda>_. ''d''" "\<lambda>_ _. ''u''" 0 8 64 0] sample_merge(2)
  by (simp add: sample_env_def)

theorem merge_keeps_headings_witness:
  "map headings (merge_short_chunks sample_env 8 64 0 sample_sections) = [[lit ''## T''], [lit ''## U'']] \<and>
   (\<exists>groups. concat groups = sample_sections \<and>
     list_all2 (\<lambda>g c. list_all (\<lambda>x. keeps_headings x c) g) groups (merge_short_chunks sample_env 8 64 0 sample_sections))"
  using merge_keeps_headings[OF sample_merge(4), of sample_env 8 64 0] sample_merge(1) by simp

section \<open>Overlap is the edge of a neighbour\<close>

text \<open>
  What the chunk at a position borrows when \<open>n\<close> characters may be lent: the end of the chunk
  before and the start of the chunk after, where they are of the same file; and the text it has
  then, the loans set off by a newline.
\<close>

definition lent_before :: "nat \<Rightarrow> chunk list \<Rightarrow> nat \<Rightarrow> ustr" where
  "lent_before n cs i =
     (if 0 < i \<and> same_file (cs ! (i - 1)) (cs ! i)
      then let s = ch_content (cs ! (i - 1)) in drop (length s - n) s else [])"

definition lent_after :: "nat \<Rightarrow> chunk list \<Rightarrow> nat \<Rightarrow> ustr" where
  "lent_after n cs i =
     (if Suc i < length cs \<and> same_file (cs ! Suc i) (cs ! i) then take n (ch_content (cs ! Suc i)) else [])"

definition framed :: "ustr \<Rightarrow> ustr \<Rightarrow> ustr \<Rightarrow> ustr" where
  "framed p s q = (if p = [] then [] else p @ [10]) @ s @ (if q = [] then [] else 10 # q)"

definition overlap_amount :: "int \<Rightarrow> nat" where
  "overlap_amount overlap_tokens = nat (min (overlap_tokens * 3) 5000)"

text \<open>
  Chunk \<open>w\<close> is \<open>c\<close> with the loans \<open>p\<close> and \<open>q\<close> around its text: the lengths it records are
  those of the loans, whatever \<open>c\<close> recorded, and its other fields are those of \<open>c\<close>; its line map fits; its own lines are those of \<open>c\<close>.
\<close>

definition borrows :: "ustr \<Rightarrow> ustr \<Rightarrow> chunk \<Rightarrow> chunk \<Rightarrow> bool" where
  "borrows p q c w \<longleftrightarrow>
     ch_content w = framed p (ch_content c) q \<and>
     (if p = [] \<and> q = [] then w = c
      else ch_metadata w = (ch_metadata c)\<lparr>md_overlap_before := length p, md_overlap_after := length q\<rparr>) \<and>
     aligned w \<and> own_lines w = own_lines c"

lemma borrow_before_lines:
  assumes "aligned p" and "ch_content p \<noteq> []" and "0 < n"
  shows "fst (borrow_before n p) \<noteq> [] \<and> length (snd (borrow_before n p)) = newlines (fst (borrow_before n p)) + 1 \<and>
    list_all (\<lambda>k. k \<le> 0) (snd (borrow_before n p))"
proof -
  let ?body = "ch_content p"
  define skipped where "skipped = length ?body - n"
  have prefix: "fst (borrow_before n p) = drop skipped ?body"
    by (simp add: borrow_before_def Let_def skipped_def)
  have first: "snd (borrow_before n p) = map (\<lambda>n. - \<bar>n\<bar>) (drop (newlines (take skipped ?body)) (source_line_map p))"
    by (simp add: borrow_before_def Let_def skipped_def)
  have "newlines (take skipped ?body) + newlines (drop skipped ?body) = newlines ?body"
    by (metis append_take_drop_id newlines_append)
  then have "length (snd (borrow_before n p)) = newlines (drop skipped ?body) + 1"
    using assms(1) by (simp add: first aligned_def)
  moreover have "skipped < length ?body" using assms(2,3) by (simp add: skipped_def)
  ultimately show ?thesis by (simp add: prefix first list_all_iff)
qed

lemma borrow_after_lines:
  assumes "aligned p" and "ch_content p \<noteq> []" and "0 < n"
  shows "fst (borrow_after n p) \<noteq> [] \<and> length (snd (borrow_after n p)) = newlines (fst (borrow_after n p)) + 1 \<and>
    list_all (\<lambda>k. k \<le> 0) (snd (borrow_after n p))"
proof -
  have "newlines (take n (ch_content p)) + newlines (drop n (ch_content p)) = newlines (ch_content p)"
    by (metis append_take_drop_id newlines_append)
  with assms show ?thesis by (simp add: borrow_after_def Let_def aligned_def list_all_iff)
qed

lemma zip_borrowed: "list_all (\<lambda>k. k \<le> (0::int)) ks \<Longrightarrow> filter (\<lambda>p. snd p > 0) (zip xs ks) = []"
  by (auto simp: filter_empty_conv list_all_iff dest!: set_zip_rightD)

text \<open>A loan from a neighbour: text with a line of the map for each of its lines, or nothing.\<close>

definition loan :: "ustr \<times> int list \<Rightarrow> bool" where
  "loan b \<longleftrightarrow> b = ([], []) \<or>
     (fst b \<noteq> [] \<and> length (snd b) = newlines (fst b) + 1 \<and> list_all (\<lambda>k. k \<le> 0) (snd b))"

lemma joined_loans:
  assumes "loan p" and "loan q" and "length m = newlines body + 1"
  defines "joined \<equiv> join_with [10] ((if fst p \<noteq> [] then [fst p] else []) @ [body] @ (if fst q \<noteq> [] then [fst q] else []))"
  shows "length (snd p @ m @ snd q) = newlines joined + 1 \<and>
    filter (\<lambda>e. snd e > 0) (zip (lines joined) (snd p @ m @ snd q)) = filter (\<lambda>e. snd e > 0) (zip (lines body) m) \<and>
    drop (if fst p \<noteq> [] then length (fst p) + 1 else 0) joined = body @ (if fst q \<noteq> [] then 10 # fst q else [])"
proof -
  define rest where "rest = body @ (if fst q \<noteq> [] then 10 # fst q else [])"
  have tail: "length (m @ snd q) = newlines rest + 1 \<and>
    filter (\<lambda>e. snd e > 0) (zip (lines rest) (m @ snd q)) = filter (\<lambda>e. snd e > 0) (zip (lines body) m)"
    using assms(2,3) by (auto simp: rest_def loan_def newlines_def zip_append zip_borrowed)
  have joined: "joined = (if fst p \<noteq> [] then fst p @ 10 # rest else rest)"
    by (simp add: joined_def rest_def)
  have "length (snd p @ m @ snd q) = newlines joined + 1 \<and>
    filter (\<lambda>e. snd e > 0) (zip (lines joined) (snd p @ m @ snd q)) = filter (\<lambda>e. snd e > 0) (zip (lines body) m)"
  proof (cases "fst p = []")
    case True
    with assms(1) have "p = ([], [])" by (simp add: loan_def)
    with tail joined show ?thesis by simp
  next
    case False
    with assms(1) have p: "length (snd p) = newlines (fst p) + 1" "list_all (\<lambda>k. k \<le> 0) (snd p)" by (auto simp: loan_def)
    have j: "joined = fst p @ 10 # rest" using False joined by simp
    show ?thesis unfolding j split_on_append using p tail by (simp add: zip_append zip_borrowed newlines_def)
  qed
  moreover have "drop (if fst p \<noteq> [] then length (fst p) + 1 else 0) joined = rest" by (simp add: joined)
  ultimately show ?thesis by (simp add: rest_def)
qed

lemma borrow_before_text: "fst (borrow_before n p) = drop (length (ch_content p) - n) (ch_content p)"
  by (simp add: borrow_before_def Let_def)

lemma borrow_after_text: "fst (borrow_after n p) = take n (ch_content p)"
  by (simp add: borrow_after_def Let_def)

lemma widen_borrows:
  fixes prev nxt :: "chunk option"
  assumes c: "aligned c"
    and around: "\<forall>x. prev = Some x \<or> nxt = Some x \<longrightarrow> aligned x \<and> ch_content x \<noteq> []" and n: "0 < n"
  defines "p \<equiv> (case prev of Some x \<Rightarrow> if same_file x c then borrow_before n x else ([], []) | None \<Rightarrow> ([], []))"
    and "q \<equiv> (case nxt of Some x \<Rightarrow> if same_file x c then borrow_after n x else ([], []) | None \<Rightarrow> ([], []))"
  shows "borrows (fst p) (fst q) c (widen digest ident now n prev c nxt)"
proof -
  let ?w = "widen digest ident now n prev c nxt"
  have loans: "loan p" "loan q"
    using around borrow_before_lines[OF _ _ n] borrow_after_lines[OF _ _ n]
    by (auto simp: p_def q_def loan_def split: option.split)
  show ?thesis
  proof (cases "fst p = [] \<and> fst q = []")
    case True
    then have "?w = c" by (simp add: widen_def p_def[symmetric] q_def[symmetric] Let_def)
    then show ?thesis using c True by (simp add: borrows_def framed_def)
  next
    case False
    let ?joined = "join_with [10] ((if fst p \<noteq> [] then [fst p] else []) @ [ch_content c] @ (if fst q \<noteq> [] then [fst q] else []))"
    have "?w = (new_chunk digest (ident c) now ?joined
        ((ch_metadata c)\<lparr>md_overlap_before := length (fst p), md_overlap_after := length (fst q)\<rparr>))
        \<lparr>ch_line_map := Some (snd p @ source_line_map c @ snd q)\<rparr>"
      unfolding widen_def p_def[symmetric] q_def[symmetric] Let_def
      by (rule if_not_P) (use False in simp)
    then have w: "ch_content ?w = ?joined" "source_line_map ?w = snd p @ source_line_map c @ snd q"
      "ch_metadata ?w = (ch_metadata c)\<lparr>md_overlap_before := length (fst p), md_overlap_after := length (fst q)\<rparr>"
      by (simp_all only: source_line_map_set) (simp_all add: new_chunk_def)
    have "?joined = framed (fst p) (ch_content c) (fst q)" by (auto simp: framed_def)
    with joined_loans[OF loans c[unfolded aligned_def]] w False show ?thesis
      unfolding borrows_def aligned_def own_lines_def by (simp only: if_False simp_thms)
  qed
qed

lemma widen_all_length [simp]: "length (widen_all digest ident now n prev cs) = length cs"
  by (induction cs arbitrary: prev) simp_all

lemma widen_all_nth:
  "i < length cs \<Longrightarrow> widen_all digest ident now n prev cs ! i =
     widen digest ident now n (if i = 0 then prev else Some (cs ! (i - 1))) (cs ! i)
       (if Suc i < length cs then Some (cs ! Suc i) else None)"
proof (induction cs arbitrary: prev i)
  case (Cons c cs)
  show ?case
  proof (cases i)
    case 0
    then show ?thesis by (cases cs) simp_all
  next
    case (Suc j)
    with Cons show ?thesis by (cases j) simp_all
  qed
qed simp

lemma nothing_lent: "lent_before 0 cs i = []" "lent_after 0 cs i = []"
  by (simp_all add: lent_before_def lent_after_def Let_def)

lemma nobody_lends:
  assumes "length cs \<le> 1" "i < length cs"
  shows "lent_before n cs i = []" "lent_after n cs i = []"
proof -
  have "i = 0" using assms by simp
  then show "lent_before n cs i = []" "lent_after n cs i = []"
    using assms by (simp_all add: lent_before_def lent_after_def)
qed

text \<open>
  C19. Overlap is the edge of a neighbour, set off by a newline and recorded. When no chunk is
  empty and each line map fits its text, every chunk keeps its place and its text, framed by the
  last characters of the chunk before and the first of the chunk after, where these are of the
  same file: three characters for each token of overlap, at most 5000, or the whole neighbour. The lengths a
  chunk records are exactly those of these two loans, whatever overlap it recorded before, so they
  and the newlines beside them can be taken off again; a chunk that borrows nothing is unchanged.
  The line map still has an entry for every line, and only the chunk's own lines count as its own.
\<close>

theorem overlap_strips:
  assumes "list_all (\<lambda>c. aligned c \<and> ch_content c \<noteq> []) chunks"
  shows "length (add_overlap digest ident now overlap_tokens chunks) = length chunks \<and>
    list_all (\<lambda>i. borrows (lent_before (overlap_amount overlap_tokens) chunks i)
        (lent_after (overlap_amount overlap_tokens) chunks i) (chunks ! i)
        (add_overlap digest ident now overlap_tokens chunks ! i)) [0..<length chunks]"
  (is "_ \<and> list_all (\<lambda>i. borrows (lent_before ?n _ _) _ _ _) _")
proof (cases "overlap_tokens \<le> 0 \<or> length chunks \<le> 1")
  case True
  then have same: "add_overlap digest ident now overlap_tokens chunks = chunks" by (auto simp: add_overlap_def)
  have "?n = 0 \<or> length chunks \<le> 1" using True by (auto simp: overlap_amount_def)
  then have "lent_before ?n chunks i = []" "lent_after ?n chunks i = []" if "i < length chunks" for i
    using nobody_lends[OF _ that] nothing_lent by auto
  with assms(1) same show ?thesis by (simp add: borrows_def framed_def list_all_length)
next
  case False
  then have n: "0 < ?n" and out: "add_overlap digest ident now overlap_tokens chunks = widen_all digest ident now ?n None chunks"
    by (auto simp: overlap_amount_def add_overlap_def)
  have ok: "aligned (chunks ! j)" "ch_content (chunks ! j) \<noteq> []" if "j < length chunks" for j
    using assms(1) that by (simp_all add: list_all_length)
  have "borrows (lent_before ?n chunks i) (lent_after ?n chunks i) (chunks ! i) (widen_all digest ident now ?n None chunks ! i)"
    if i: "i < length chunks" for i
  proof -
    let ?prev = "if i = 0 then None else Some (chunks ! (i - 1))"
      and ?nxt = "if Suc i < length chunks then Some (chunks ! Suc i) else None"
    have "\<forall>x. ?prev = Some x \<or> ?nxt = Some x \<longrightarrow> aligned x \<and> ch_content x \<noteq> []"
      using i ok by (auto split: if_splits)
    from widen_borrows[OF ok(1)[OF i] this n, of digest ident now] show ?thesis
      by (auto simp: widen_all_nth[OF i] lent_before_def lent_after_def borrow_before_text borrow_after_text Let_def
          split: if_splits)
  qed
  with out show ?thesis by (simp add: list_all_length)
qed

text \<open>A chunk that comes with two borrowed characters and the blank line after them.\<close>

definition with_prefix :: chunk where
  "with_prefix = (let c = sample_sections ! 1 in
     c\<lparr>ch_content := lit ''ab'' @ [10, 10] @ ch_content c,
       ch_line_map := Some ([- 1, 0] @ source_line_map c),
       ch_metadata := (ch_metadata c)\<lparr>md_overlap_before := 2\<rparr>\<rparr>)"

abbreviation sample_run :: "chunk list" where
  "sample_run \<equiv> [sample_sections ! 0, with_prefix, sample_sections ! 2]"

lemma sample_overlap:
  "map ch_content (add_overlap (\<lambda>_. ''d'') (\<lambda>_. ''u'') 0 1 sample_sections) = [[97, 10, 98], [97, 10, 98, 10, 99], [98, 10, 99]]"
  "map (\<lambda>c. md_overlap_before (ch_metadata c)) (add_overlap (\<lambda>_. ''d'') (\<lambda>_. ''u'') 0 1 sample_run) = [0, 1, 3]"
  "list_all (\<lambda>c. aligned c \<and> ch_content c \<noteq> []) sample_run"
  by code_simp+

theorem overlap_strips_witness:
  "length (add_overlap (\<lambda>_. ''d'') (\<lambda>_. ''u'') 0 1 sample_run) = 3 \<and>
   list_all (\<lambda>i. borrows (lent_before 3 sample_run i) (lent_after 3 sample_run i) (sample_run ! i)
     (add_overlap (\<lambda>_. ''d'') (\<lambda>_. ''u'') 0 1 sample_run ! i)) [0, 1, 2]"
proof -
  have "overlap_amount 1 = 3" by (simp add: overlap_amount_def)
  with overlap_strips[OF sample_overlap(3), of "\<lambda>_. ''d''" "\<lambda>_. ''u''" 0 1] show ?thesis
    by (simp add: upt_rec numeral_3_eq_3 numeral_2_eq_2)
qed

end
