(* ===== verification/Packing.thy ===== *)
theory Packing
  imports Budget
begin

text \<open>
  The passes of \<open>chunking/bounded.py\<close> that regroup spans: blank gaps, the floor for short
  spans, the packing goal, and the same for JSON members. Every pass joins neighbours only,
  so it keeps the partition of the text.
\<close>

section \<open>The passes over code spans\<close>

abbreviation span_tokens :: "token_budget \<Rightarrow> ustr \<Rightarrow> span \<Rightarrow> int" where
  "span_tokens b str s \<equiv> token_count b (part_of str s) False"

abbreviation span_fits :: "token_budget \<Rightarrow> ustr \<Rightarrow> span \<Rightarrow> bool" where
  "span_fits b str s \<equiv> span_tokens b str s \<le> tb_body b"

definition attach_blank_step :: "token_budget \<Rightarrow> ustr \<Rightarrow> span list \<Rightarrow> span \<Rightarrow> span list" where
  "attach_blank_step b str packed s =
     (if packed \<noteq> [] \<and> blank (part_of str s) \<and> span_fits b str (fst (last packed), snd s)
      then butlast packed @ [(fst (last packed), snd s)] else packed @ [s])"

definition attach_blank :: "token_budget \<Rightarrow> ustr \<Rightarrow> span list \<Rightarrow> span list" where
  "attach_blank b str spans = foldl (attach_blank_step b str) [] spans"

text \<open>
  \<open>_merge_short_code_spans\<close>: the span and count of a join, and the count of the neighbour;
  None where the neighbour is missing or the join does not fit.
\<close>

definition join_left :: "token_budget \<Rightarrow> ustr \<Rightarrow> (span \<times> int) list \<Rightarrow> span \<Rightarrow> (span \<times> int \<times> int) option" where
  "join_left b str merged s =
     (if merged = [] then None
      else let joined = (fst (fst (last merged)), snd s) in
        if span_fits b str joined then Some (joined, span_tokens b str joined, snd (last merged)) else None)"

definition join_right :: "token_budget \<Rightarrow> ustr \<Rightarrow> span \<Rightarrow> (span \<times> int) list \<Rightarrow> (span \<times> int \<times> int) option" where
  "join_right b str s rest =
     (if rest = [] then None
      else let joined = (fst s, snd (fst (hd rest))) in
        if span_fits b str joined then Some (joined, span_tokens b str joined, snd (hd rest)) else None)"

function (sequential) merge_short_loop ::
  "token_budget \<Rightarrow> ustr \<Rightarrow> int \<Rightarrow> (span \<times> int) list \<Rightarrow> (span \<times> int) list \<Rightarrow> (span \<times> int) list" where
  "merge_short_loop b str least merged [] = merged"
| "merge_short_loop b str least merged (p # rest) =
     (let left = join_left b str merged (fst p); right = join_right b str (fst p) rest in
      if snd p < least \<and> left \<noteq> None \<and> (right = None \<or> snd (snd (the left)) \<le> snd (snd (the right)))
      then merge_short_loop b str least (butlast merged @ [(fst (the left), fst (snd (the left)))]) rest
      else if snd p < least \<and> right \<noteq> None
      then merge_short_loop b str least merged ((fst (the right), fst (snd (the right))) # tl rest)
      else merge_short_loop b str least (merged @ [p]) rest)"
  by pat_completeness auto

lemma join_right_not_Nil: "join_right b str s rest = Some q \<Longrightarrow> rest \<noteq> []"
  by (auto simp: join_right_def)

termination merge_short_loop
  by (relation "measure (\<lambda>(b, str, least, merged, pending). length pending)")
    (auto dest!: join_right_not_Nil)

definition merge_short_code_spans :: "token_budget \<Rightarrow> ustr \<Rightarrow> int \<Rightarrow> span list \<Rightarrow> span list" where
  "merge_short_code_spans b str least spans =
     (if least \<le> 0 \<or> length spans \<le> 1 then spans
      else map fst (merge_short_loop b str least [] (map (\<lambda>s. (s, span_tokens b str s)) spans)))"

declare merge_short_loop.simps(2) [simp del]

text \<open>\<open>_pack_code_spans\<close>: grow one span as far as goal and ceiling allow, then the next.\<close>

fun grow_span :: "token_budget \<Rightarrow> ustr \<Rightarrow> int \<Rightarrow> int \<Rightarrow> span \<Rightarrow> int \<Rightarrow> span list \<Rightarrow> span \<times> span list" where
  "grow_span b str goal cap s tokens [] = (s, [])"
| "grow_span b str goal cap s tokens (n # rest) =
     (if tokens < goal \<and> span_tokens b str (fst s, snd n) \<le> cap
      then grow_span b str goal cap (fst s, snd n) (span_tokens b str (fst s, snd n)) rest
      else (s, n # rest))"

lemma grow_span_length [termination_simp]: "length (snd (grow_span b str goal cap s tokens rest)) \<le> length rest"
  by (induction b str goal cap s tokens rest rule: grow_span.induct) (auto intro: le_SucI)

fun pack_loop :: "token_budget \<Rightarrow> ustr \<Rightarrow> int \<Rightarrow> int \<Rightarrow> span list \<Rightarrow> span list" where
  "pack_loop b str goal cap [] = []"
| "pack_loop b str goal cap (s # rest) =
     (let grown = grow_span b str goal cap s (span_tokens b str s) rest
      in fst grown # pack_loop b str goal cap (snd grown))"

definition pack_code_spans :: "token_budget \<Rightarrow> ustr \<Rightarrow> int \<Rightarrow> int \<Rightarrow> span list \<Rightarrow> span list" where
  "pack_code_spans b str goal cap spans =
     (if goal \<le> 0 \<or> length spans \<le> 1 then spans else pack_loop b str goal cap spans)"

section \<open>A pass keeps the partition and the budget\<close>

locale span_pass =
  fixes pass :: "span list \<Rightarrow> span list" and good :: "span \<Rightarrow> bool"
  assumes keeps_cover: "covers x y ss \<Longrightarrow> covers x y (pass ss)"
    and keeps_good: "list_all good ss \<Longrightarrow> list_all good (pass ss)"
begin

lemma keeps_text: "covers 0 (length t) ss \<Longrightarrow> concat (map (part_of t) (pass ss)) = t"
  using keeps_cover[of 0 "length t" ss] covers_concat[of 0 "length t" "pass ss" t] by simp

end

locale span_passes = p: span_pass p good + q: span_pass q good
  for p q :: "span list \<Rightarrow> span list" and good
begin

lemma both: "span_pass (\<lambda>ss. q (p ss)) good"
  by unfold_locales (auto intro: q.keeps_cover p.keeps_cover q.keeps_good p.keeps_good)

end

sublocale span_passes \<subseteq> seq: span_pass "\<lambda>ss. q (p ss)" good
  by (rule both)

lemma covers_join_last:
  "covers x m packed \<Longrightarrow> packed \<noteq> [] \<Longrightarrow> m < n \<Longrightarrow> covers x n (butlast packed @ [(fst (last packed), n)])"
  by (induction packed arbitrary: x) (auto split: if_splits)

lemma list_all_butlast: "list_all P xs \<Longrightarrow> list_all P (butlast xs)"
  by (auto simp: list_all_iff dest: in_set_butlastD)

lemma attach_blank_keeps:
  "covers x m packed \<Longrightarrow> covers m y ss \<Longrightarrow> covers x y (foldl (attach_blank_step b str) packed ss)"
proof (induction ss arbitrary: packed m)
  case (Cons s ss)
  have "covers x (snd s) (attach_blank_step b str packed s)"
    using Cons.prems covers_join_last[OF Cons.prems(1)] by (auto simp: attach_blank_step_def)
  with Cons.IH[OF this] Cons.prems show ?case by simp
qed simp

lemma attach_blank_fits:
  "list_all (span_fits b str) packed \<Longrightarrow> list_all (span_fits b str) ss \<Longrightarrow>
   list_all (span_fits b str) (foldl (attach_blank_step b str) packed ss)"
proof (induction ss arbitrary: packed)
  case (Cons s ss)
  then have "list_all (span_fits b str) (attach_blank_step b str packed s)"
    by (simp add: attach_blank_step_def list_all_butlast)
  with Cons show ?case by simp
qed simp

interpretation gaps: span_pass "attach_blank b str" "span_fits b str" for b str
  by unfold_locales (simp_all add: attach_blank_def attach_blank_keeps[of _ _ "[]"] attach_blank_fits)

lemma join_left_Some:
  "join_left b str merged s = Some q \<Longrightarrow> merged \<noteq> [] \<and> fst q = (fst (fst (last merged)), snd s) \<and> span_fits b str (fst q)"
  by (auto simp: join_left_def Let_def split: if_splits)

lemma join_right_Some:
  "join_right b str s rest = Some q \<Longrightarrow>
   rest \<noteq> [] \<and> fst q = (fst s, snd (fst (hd rest))) \<and> span_fits b str (fst q)"
  by (auto simp: join_right_def Let_def split: if_splits)

lemmas merge_short_loop_Cons = merge_short_loop.simps(2)[unfolded Let_def]

lemma merge_short_loop_cases:
  obtains (left) q where "join_left b str merged (fst p) = Some q"
      "merge_short_loop b str least merged (p # rest)
        = merge_short_loop b str least (butlast merged @ [(fst q, fst (snd q))]) rest"
    | (right) q where "join_right b str (fst p) rest = Some q"
      "merge_short_loop b str least merged (p # rest)
        = merge_short_loop b str least merged ((fst q, fst (snd q)) # tl rest)"
    | (keep) "merge_short_loop b str least merged (p # rest) = merge_short_loop b str least (merged @ [p]) rest"
proof (cases "snd p < least \<and> join_left b str merged (fst p) \<noteq> None \<and> (join_right b str (fst p) rest = None \<or>
    snd (snd (the (join_left b str merged (fst p)))) \<le> snd (snd (the (join_right b str (fst p) rest))))")
  case True
  then obtain q where q: "join_left b str merged (fst p) = Some q" by auto
  have "merge_short_loop b str least merged (p # rest)
      = merge_short_loop b str least (butlast merged @ [(fst q, fst (snd q))]) rest"
    by (subst merge_short_loop_Cons) (simp only: if_P[OF True], simp only: q option.sel)
  with q left show ?thesis by blast
next
  case no_left: False
  show ?thesis
  proof (cases "snd p < least \<and> join_right b str (fst p) rest \<noteq> None")
    case True
    then obtain q where q: "join_right b str (fst p) rest = Some q" by auto
    moreover have "merge_short_loop b str least merged (p # rest)
        = merge_short_loop b str least merged ((fst q, fst (snd q)) # tl rest)"
      by (subst merge_short_loop_Cons) (simp only: if_not_P[OF no_left] if_P[OF True], simp only: q option.sel)
    ultimately show ?thesis using right by blast
  next
    case False
    have "merge_short_loop b str least merged (p # rest) = merge_short_loop b str least (merged @ [p]) rest"
      by (subst merge_short_loop_Cons) (simp only: if_not_P[OF no_left] if_not_P[OF False])
    with keep show ?thesis by blast
  qed
qed

lemma merge_short_loop_keeps:
  "covers x m (map fst merged) \<Longrightarrow> covers m y (map fst pending) \<Longrightarrow>
   covers x y (map fst (merge_short_loop b str least merged pending))"
proof (induction "length pending" arbitrary: merged pending m)
  case (Suc k)
  then obtain p rest where pending: "pending = p # rest" by (cases pending) auto
  have "covers x y (map fst (merge_short_loop b str least merged (p # rest)))"
  proof (cases rule: merge_short_loop_cases[of b str merged p least rest])
    case (left q)
    note q = join_left_Some[OF left(1)]
    have "covers x (snd (fst p)) (map fst (butlast merged @ [(fst q, fst (snd q))]))"
      using covers_join_last[OF Suc.prems(1), of "snd (fst p)"] q Suc.prems(2) pending
      by (simp add: map_butlast last_map)
    with left(2) Suc pending show ?thesis by simp
  next
    case (right q)
    note q = join_right_Some[OF right(1)]
    then obtain n ns where rest: "rest = n # ns" by (cases rest) auto
    have "covers m y (map fst ((fst q, fst (snd q)) # tl rest))"
      using q rest Suc.prems(2) pending by auto
    with right(2) Suc pending rest show ?thesis by simp
  next
    case keep
    have "covers x (snd (fst p)) (map fst (merged @ [p]))" using Suc.prems pending by auto
    with keep Suc pending show ?thesis by simp
  qed
  then show ?case by (simp only: pending)
qed simp

lemma merge_short_loop_fits:
  "list_all (span_fits b str) (map fst merged) \<Longrightarrow> list_all (span_fits b str) (map fst pending) \<Longrightarrow>
   list_all (span_fits b str) (map fst (merge_short_loop b str least merged pending))"
proof (induction "length pending" arbitrary: merged pending)
  case (Suc k)
  then obtain p rest where pending: "pending = p # rest" by (cases pending) auto
  have "list_all (span_fits b str) (map fst (merge_short_loop b str least merged (p # rest)))"
  proof (cases rule: merge_short_loop_cases[of b str merged p least rest])
    case (left q)
    have "list_all (span_fits b str) (map fst (butlast merged @ [(fst q, fst (snd q))]))"
      using join_left_Some[OF left(1)] list_all_butlast[OF Suc.prems(1)] by (auto simp: map_butlast)
    with left(2) Suc pending show ?thesis by simp
  next
    case (right q)
    note q = join_right_Some[OF right(1)]
    then obtain n ns where rest: "rest = n # ns" by (cases rest) auto
    have "list_all (span_fits b str) (map fst ((fst q, fst (snd q)) # tl rest))"
      using q rest Suc.prems(2) pending by auto
    with right(2) Suc pending rest show ?thesis by simp
  next
    case keep
    with Suc pending show ?thesis by simp
  qed
  then show ?case by (simp only: pending)
qed simp

interpretation short: span_pass "merge_short_code_spans b str least" "span_fits b str" for b str least
  by unfold_locales
    (simp_all add: merge_short_code_spans_def merge_short_loop_keeps[of _ _ "[]"] merge_short_loop_fits comp_def)

lemma grow_span_keeps:
  "x < snd s \<Longrightarrow> fst s = x \<Longrightarrow> covers (snd s) y rest \<Longrightarrow> grow_span b str goal cap s tokens rest = (s', rest') \<Longrightarrow>
   fst s' = x \<and> x < snd s' \<and> covers (snd s') y rest'"
proof (induction b str goal cap s tokens rest rule: grow_span.induct)
  case (2 b str goal cap s tokens n rest)
  then show ?case by (auto split: if_splits)
qed auto

lemma grow_span_fits:
  "cap \<le> tb_body b \<Longrightarrow> span_fits b str s \<Longrightarrow> list_all (span_fits b str) rest \<Longrightarrow>
   grow_span b str goal cap s tokens rest = (s', rest') \<Longrightarrow> span_fits b str s' \<and> list_all (span_fits b str) rest'"
proof (induction b str goal cap s tokens rest rule: grow_span.induct)
  case (2 b str goal cap s tokens n rest)
  then show ?case by (auto split: if_splits)
qed auto

lemma pack_loop_keeps: "covers x y ss \<Longrightarrow> covers x y (pack_loop b str goal cap ss)"
proof (induction b str goal cap ss arbitrary: x rule: pack_loop.induct)
  case (2 b str goal cap s rest)
  obtain s' rest' where g: "grow_span b str goal cap s (span_tokens b str s) rest = (s', rest')" by fastforce
  from grow_span_keeps[OF _ _ _ g, of x y] 2(2) have "fst s' = x" "x < snd s'" "covers (snd s') y rest'" by auto
  with 2(1)[of "(s', rest')" "snd s'"] g show ?case by simp
qed simp

lemma pack_loop_fits:
  "cap \<le> tb_body b \<Longrightarrow> list_all (span_fits b str) ss \<Longrightarrow> list_all (span_fits b str) (pack_loop b str goal cap ss)"
proof (induction b str goal cap ss rule: pack_loop.induct)
  case (2 b str goal cap s rest)
  obtain s' rest' where g: "grow_span b str goal cap s (span_tokens b str s) rest = (s', rest')" by fastforce
  from grow_span_fits[OF 2(2) _ _ g] 2(3) have "span_fits b str s'" "list_all (span_fits b str) rest'" by auto
  with 2(1)[of "(s', rest')"] 2(2) g show ?case by simp
qed simp

text \<open>The ceiling the chunkers pass: \<open>min(max_chunk_tokens or body, body)\<close>.\<close>

definition packing_ceiling :: "token_budget \<Rightarrow> int \<Rightarrow> int" where
  "packing_ceiling b max_chunk = min (if max_chunk \<noteq> 0 then max_chunk else tb_body b) (tb_body b)"

interpretation packing: span_pass "pack_code_spans b str goal (packing_ceiling b max_chunk)" "span_fits b str"
  for b str goal max_chunk
  by unfold_locales (simp_all add: pack_code_spans_def pack_loop_keeps pack_loop_fits packing_ceiling_def)

interpretation gaps_short: span_passes "attach_blank b str" "merge_short_code_spans b str least" "span_fits b str"
  for b str least
  by unfold_locales

interpretation regroup: span_passes "\<lambda>ss. merge_short_code_spans b str least (attach_blank b str ss)"
    "pack_code_spans b str goal (packing_ceiling b max_chunk)" "span_fits b str" for b str least goal max_chunk
  by unfold_locales

end
