(* ===== verification/CodeChunks.thy ===== *)
theory CodeChunks
  imports Packing "HOL-Library.Product_Lexorder" "HOL-Library.Code_Target_Nat"
begin

text \<open>
  \<open>chunk_code\<close> of \<open>chunking/bounded.py\<close>: sections between symbol boundaries, exact spans, the
  regrouping passes, and one described chunk per span. The parsers (\<open>ast\<close>, tree-sitter) are
  the parameter \<open>structure\<close>: the symbols and statement offsets they report, or None for an
  exception the code catches.
\<close>

datatype symbol_kind = ClassSymbol | FunctionSymbol

record symbol =
  sy_start :: nat
  sy_end :: nat
  sy_name :: ustr
  sy_signature :: ustr
  sy_doc :: ustr
  sy_kind :: symbol_kind

definition enclosing_symbols :: "symbol list \<Rightarrow> nat \<Rightarrow> nat \<Rightarrow> symbol list" where
  "enclosing_symbols symbols start stop =
     sort_key (\<lambda>s. (int (sy_start s), - int (sy_end s)))
       (filter (\<lambda>s. sy_start s \<le> start \<and> stop \<le> sy_end s) symbols)"

text \<open>Where each line starts, closed by the end of the text.\<close>

definition line_table :: "ustr \<Rightarrow> nat list" where
  "line_table str =
     (let starts = 0 # map Suc (filter (\<lambda>i. str ! i = 10) [0..<length str])
      in if last starts \<noteq> length str then starts @ [length str] else starts)"

definition section_cuts :: "ustr \<Rightarrow> symbol list \<Rightarrow> nat list" where
  "section_cuts str symbols =
     sort (remdups ([0, length str] @ map sy_start symbols @ map sy_end symbols))"

definition section_spans ::
  "token_budget \<Rightarrow> ustr \<Rightarrow> nat list \<Rightarrow> nat \<times> nat \<Rightarrow> (budget_error, span list) result" where
  "section_spans b str statements sec =
     bind_res (budget_spans b (part_of str sec)
         (sort (remdups (map (\<lambda>p. p - fst sec) (filter (\<lambda>p. fst sec < p \<and> p < snd sec) statements)))))
       (\<lambda>spans. Inr (map (\<lambda>s. (fst sec + fst s, fst sec + snd s)) spans))"

record code_config =
  cc_max_chunk :: int
  cc_min_chunk :: int
  cc_target_chunk :: int

definition code_spans ::
  "token_budget \<Rightarrow> code_config \<Rightarrow> ustr \<Rightarrow> symbol list \<Rightarrow> nat list \<Rightarrow> (budget_error, span list) result" where
  "code_spans b cfg str symbols statements =
     (let cuts = section_cuts str symbols in
      bind_res (map_res (section_spans b str statements) (zip cuts (tl cuts))) (\<lambda>parts.
        Inr (pack_code_spans b str (cc_target_chunk cfg) (packing_ceiling b (cc_max_chunk cfg))
               (merge_short_code_spans b str (cc_min_chunk cfg) (attach_blank b str (concat parts))))))"

text \<open>\<open>Path.suffix\<close> and \<open>Path.stem\<close> of a name.\<close>

definition path_suffix :: "ustr \<Rightarrow> ustr" where
  "path_suffix nm =
     (let tail = rev (takeWhile (\<lambda>c. c \<noteq> 46) (rev nm))
      in if tail \<noteq> [] \<and> length tail + 1 < length nm then 46 # tail else [])"

definition path_stem :: "ustr \<Rightarrow> ustr" where
  "path_stem nm = take (length nm - length (path_suffix nm)) nm"

definition py_suffix :: ustr where "py_suffix = [46, 112, 121]"
definition ts_suffix :: ustr where "ts_suffix = [46, 116, 115]"
definition tsx_suffix :: ustr where "tsx_suffix = [46, 116, 115, 120]"

definition code_chunk_type :: "ustr \<Rightarrow> symbol list \<Rightarrow> chunk_type" where
  "code_chunk_type ext enclosing =
     (if enclosing = [] then RawText
      else if ext = py_suffix
        then (if sy_kind (last enclosing) = ClassSymbol then PythonClass else PythonFunction)
        else JsFunction)"

definition code_chunk ::
  "(ustr \<Rightarrow> string) \<Rightarrow> string \<Rightarrow> int \<Rightarrow> string \<Rightarrow> ustr \<Rightarrow> symbol list \<Rightarrow> span \<Rightarrow> chunk" where
  "code_chunk digest ident now path str symbols s =
     (let start = fst s; stop = snd s; enclosing = enclosing_symbols symbols start stop;
          ext = path_suffix (path_name path); ls = line_table str
      in new_chunk digest ident now (part_of str s)
        ((default_metadata path)\<lparr>
           md_heading_hierarchy := path_stem (path_name path) # map sy_name enclosing,
           md_chunk_type := code_chunk_type ext enclosing,
           md_start_line := int (bisect_right ls start),
           md_end_line := int (bisect_right ls (max start (stop - 1))),
           md_source_read_only :=
             ((start > 0 \<and> str ! (start - 1) \<noteq> 10) \<or> (stop < length str \<and> str ! (stop - 1) \<noteq> 10)),
           md_language := (if ext = py_suffix then ''python''
             else if ext = ts_suffix \<or> ext = tsx_suffix then ''typescript'' else ''javascript'')\<rparr>))"

text \<open>\<open>str.splitlines\<close>: every Unicode line break, CRLF as one.\<close>

definition is_break :: "nat \<Rightarrow> bool" where
  "is_break c \<longleftrightarrow> (10 \<le> c \<and> c \<le> 13) \<or> (28 \<le> c \<and> c \<le> 30) \<or> c = 133 \<or> c = 8232 \<or> c = 8233"

fun splitlines_from :: "ustr \<Rightarrow> ustr \<Rightarrow> ustr list" where
  "splitlines_from cur [] = (if cur = [] then [] else [rev cur])"
| "splitlines_from cur (c # rest) =
     (if c = 13 \<and> rest \<noteq> [] \<and> hd rest = 10 then rev cur # splitlines_from [] (tl rest)
      else if is_break c then rev cur # splitlines_from [] rest
      else splitlines_from (c # cur) rest)"

definition starts_with :: "ustr \<Rightarrow> ustr \<Rightarrow> bool" where
  "starts_with p s \<longleftrightarrow> take (length p) s = p"

definition comment_line :: "ustr \<Rightarrow> bool" where
  "comment_line l \<longleftrightarrow>
     list_ex (\<lambda>p. starts_with p (dropWhile is_space l)) [[35], [47, 47], [47, 42], [42]]"

definition nearby_comments :: "ustr \<Rightarrow> nat \<Rightarrow> ustr" where
  "nearby_comments str start =
     (let lines = splitlines_from [] (slice (start - 2000) start str);
          nearby = drop (length lines - 6) lines
      in join_with [10] (map strip (filter comment_line nearby)))"

definition code_identity :: "ustr list \<Rightarrow> string \<Rightarrow> nat \<Rightarrow> nat \<Rightarrow> ustr" where
  "code_identity hierarchy path seen totals =
     join_with hierarchy_sep hierarchy @ [10] @ FILE_LABEL @ path_name path @ [10] @
     FRAGMENT_LABEL @ decimal seen @ [47] @ decimal totals"

definition symbol_details :: "token_budget \<Rightarrow> int \<Rightarrow> symbol \<Rightarrow> (budget_error, ustr list) result" where
  "symbol_details b limit s =
     bind_res (trim b (sy_signature s) limit) (\<lambda>sig. bind_res (trim b (sy_doc s) limit) (\<lambda>doc. Inr [sig, doc]))"

text \<open>One pass of the describing loop; \<open>hs\<close> are the hierarchies of all chunks in order.\<close>

definition describe_code ::
  "token_budget \<Rightarrow> string \<Rightarrow> ustr \<Rightarrow> symbol list \<Rightarrow> ustr list list \<Rightarrow> nat \<times> span \<times> chunk
    \<Rightarrow> (budget_error, chunk) result" where
  "describe_code b path str symbols hs item =
     (let i = fst item; s = fst (snd item); c = snd (snd item);
          hierarchy = md_heading_hierarchy (ch_metadata c);
          identity = code_identity hierarchy path (count_list (take (Suc i) hs) hierarchy) (count_list hs hierarchy);
          limit = max 1 (tb_context b div 4)
      in bind_res (trim b (nearby_comments str (fst s)) limit) (\<lambda>comments.
           bind_res (map_res (symbol_details b limit) (rev (enclosing_symbols symbols (fst s) (snd s)))) (\<lambda>details.
             describe b c (join_with [10] (filter (\<lambda>t. t \<noteq> []) (identity # comments # concat details))))))"

definition chunk_code ::
  "(ustr \<Rightarrow> (symbol list \<times> nat list) option) \<Rightarrow> token_budget \<Rightarrow> code_config \<Rightarrow> (ustr \<Rightarrow> string)
    \<Rightarrow> (nat \<Rightarrow> string) \<Rightarrow> int \<Rightarrow> string \<Rightarrow> ustr \<Rightarrow> (budget_error, chunk list) result" where
  "chunk_code structure b cfg digest ident now path str =
     (if blank str then Inr []
      else let found = (case structure str of Some p \<Rightarrow> p | None \<Rightarrow> ([], [])) in
        bind_res (code_spans b cfg str (fst found) (snd found)) (\<lambda>packed.
          let chunks = map (\<lambda>(i, s). code_chunk digest (ident i) now path str (fst found) s) (enumerate 0 packed);
              hs = map (\<lambda>c. md_heading_hierarchy (ch_metadata c)) chunks
          in map_res (describe_code b path str (fst found) hs) (enumerate 0 (zip packed chunks))))"

section \<open>The chunks partition the file\<close>

lemma cuts_from:
  assumes "sorted_wrt (<) (c # cs)"
    and "map_res (section_spans b str statements) (zip (c # cs) cs) = Inr parts"
    and "last (c # cs) \<le> length str"
  shows "covers c (last (c # cs)) (concat parts) \<and> list_all (span_fits b str) (concat parts)"
  using assms
proof (induction cs arbitrary: c parts)
  case Nil
  then show ?case by simp
next
  case (Cons d ds)
  obtain p ps where parts: "parts = p # ps" "section_spans b str statements (c, d) = Inr p"
    "map_res (section_spans b str statements) (zip (d # ds) ds) = Inr ps"
    using Cons.prems(2) by (auto simp: bind_res_Inr_conv)
  have cd: "c < d" and len: "d \<le> length str"
  proof -
    show "c < d" using Cons.prems(1) by simp
    have "d \<le> last (d # ds)" using Cons.prems(1) by (cases ds) (auto simp: less_imp_le)
    then show "d \<le> length str" using Cons.prems(3) by simp
  qed
  obtain sp where sp: "p = map (\<lambda>s. (c + fst s, c + snd s)) sp"
    "covers 0 (length (slice c d str)) sp" "list_all (\<lambda>s. token_count b (part_of (slice c d str) s) False \<le> tb_body b) sp"
    using parts(2) spans_from_ok[of 0 "slice c d str" b]
    by (fastforce simp: section_spans_def bind_res_Inr_conv budget_spans_def)
  have shift: "covers (c + x) (c + y) (map (\<lambda>s. (c + fst s, c + snd s)) ss) \<longleftrightarrow> covers x y ss" for x y ss
    by (induction ss arbitrary: x) auto
  have cover: "covers c d p"
    using sp(1,2) shift[of 0 "length (slice c d str)" sp] cd len by (simp add: length_slice)
  have inside: "part_of (slice c d str) s = part_of str (c + fst s, c + snd s)" if "snd s \<le> d - c" for s
    using that by (simp add: slice_def min_def drop_take add.commute)
  have "snd s \<le> d - c" if "s \<in> set sp" for s
    using covers_inside(2)[OF sp(2) that] len by (simp add: length_slice)
  then have fits: "list_all (span_fits b str) p"
    using sp(3) inside by (auto simp: sp(1) list_all_iff)
  from Cons.IH[OF _ parts(3)] Cons.prems(1,3) have
    "covers d (last (d # ds)) (concat ps)" "list_all (span_fits b str) (concat ps)" by auto
  with cover fits show ?case by (auto simp: parts(1))
qed

lemma section_cuts_ends:
  assumes "list_all (\<lambda>s. sy_start s \<le> length str \<and> sy_end s \<le> length str) symbols"
  obtains cs where "section_cuts str symbols = 0 # cs" "sorted_wrt (<) (0 # cs)" "last (0 # cs) = length str"
proof -
  let ?cs = "section_cuts str symbols"
  have sorted: "sorted_wrt (<) ?cs" by (simp add: section_cuts_def strict_sorted_iff)
  have set: "0 \<in> set ?cs" "length str \<in> set ?cs" "\<forall>x \<in> set ?cs. x \<le> length str"
    using assms by (auto simp: section_cuts_def list_all_iff)
  obtain c cs where cs: "?cs = c # cs" using set(1) by (cases ?cs) auto
  have c: "c = 0" using sorted set(1) cs by auto
  have "length str \<le> last ?cs"
    using sorted set(2) unfolding cs
    by (induction cs arbitrary: c) (auto simp: less_imp_le intro: order.trans)
  moreover have "last ?cs \<in> set ?cs" using cs by simp
  ultimately have "last ?cs = length str" using set(3) by force
  with cs c sorted show ?thesis using that by metis
qed

lemma code_spans_ok:
  assumes "code_spans b cfg str symbols statements = Inr sp"
    and "list_all (\<lambda>s. sy_start s \<le> length str \<and> sy_end s \<le> length str) symbols"
  shows "covers 0 (length str) sp \<and> list_all (span_fits b str) sp"
proof -
  obtain cs where cs: "section_cuts str symbols = 0 # cs" "sorted_wrt (<) (0 # cs)" "last (0 # cs) = length str"
    using section_cuts_ends[OF assms(2)] .
  obtain parts where parts: "map_res (section_spans b str statements) (zip (0 # cs) cs) = Inr parts"
    and sp: "sp = pack_code_spans b str (cc_target_chunk cfg) (packing_ceiling b (cc_max_chunk cfg))
        (merge_short_code_spans b str (cc_min_chunk cfg) (attach_blank b str (concat parts)))"
    using assms(1) cs(1) by (auto simp: code_spans_def Let_def bind_res_Inr_conv)
  from cuts_from[OF cs(2) parts] cs(3) have "covers 0 (length str) (concat parts)" "list_all (span_fits b str) (concat parts)"
    by simp_all
  then show ?thesis
    unfolding sp by (intro conjI regroup.seq.keeps_cover regroup.seq.keeps_good)
qed

lemma newlines_take: "k \<le> length str \<Longrightarrow> newlines (take k str) = length (filter (\<lambda>i. str ! i = 10) [0..<k])"
proof (induction k)
  case (Suc k)
  then have "take (Suc k) str = take k str @ [str ! k]" by (simp add: take_Suc_conv_app_nth)
  then have "newlines (take (Suc k) str) = newlines (take k str) + newlines [str ! k]" by simp
  with Suc show ?case by (simp add: newlines_def)
qed (simp add: newlines_def)

lemma bisect_right_filter: "sorted xs \<Longrightarrow> bisect_right xs x = length (filter (\<lambda>y. y \<le> x) xs)"
proof (induction xs)
  case (Cons y ys)
  then show ?case by (auto simp: bisect_right_def filter_empty_conv intro: order.trans)
qed (simp add: bisect_right_def)

lemma line_table_sorted: "sorted (line_table str)"
proof -
  have s: "sorted (0 # map Suc (filter (\<lambda>i. str ! i = 10) [0..<length str]))"
    by (simp add: sorted_map sorted_wrt_filter del: upt_Suc)
  have "\<forall>x \<in> set (0 # map Suc (filter (\<lambda>i. str ! i = 10) [0..<length str])). x \<le> length str" by auto
  with s show ?thesis unfolding line_table_def Let_def by (auto simp: sorted_append)
qed

lemma line_of_offset:
  assumes "k < length str"
  shows "bisect_right (line_table str) k = Suc (newlines (take k str))"
proof -
  let ?nl = "\<lambda>n. filter (\<lambda>i. str ! i = 10) [0..<n]"
  have "[0..<length str] = [0..<k] @ [k..<length str]" using assms upt_add_eq_append[of 0 k "length str - k"] by simp
  then have "filter (\<lambda>y. y \<le> k) (map Suc (?nl (length str))) = map Suc (?nl k)"
    by (auto simp: filter_map comp_def filter_empty_conv intro: filter_cong)
  then have "length (filter (\<lambda>y. y \<le> k) (line_table str)) = Suc (length (?nl k))"
    using assms by (simp add: line_table_def Let_def)
  then show ?thesis using assms by (simp add: bisect_right_filter[OF line_table_sorted] newlines_take)
qed

lemma code_chunk_fields:
  "ch_content (code_chunk digest ident now path str symbols s) = part_of str s"
  "fst s < snd s \<Longrightarrow> snd s \<le> length str \<Longrightarrow>
     md_start_line (ch_metadata (code_chunk digest ident now path str symbols s)) = 1 + int (newlines (take (fst s) str))"
  "fst s < snd s \<Longrightarrow> snd s \<le> length str \<Longrightarrow>
     md_end_line (ch_metadata (code_chunk digest ident now path str symbols s)) = 1 + int (newlines (take (snd s - 1) str))"
  by (simp_all add: code_chunk_def new_chunk_def Let_def line_of_offset max.absorb2)

lemma describe_code_ok:
  assumes "describe_code b path str symbols hs (i, s, c) = Inr d"
  shows "validate b d = Inr () \<and> (\<exists>t. d = with_context t c)"
  using assms describe_sound by (fastforce simp: describe_code_def Let_def bind_res_Inr_conv)

text \<open>
  C23. Code chunking is lossless: a blank file gives no chunk; otherwise, when it returns, there
  is a partition of the whole text into non-empty spans such that the chunks are its pieces in
  order, each within every token budget and each with the line numbers of its first and last
  character. The parser only has to report offsets inside the text; when it fails the same
  holds without symbols.
\<close>

theorem chunk_code_lossless:
  assumes "chunk_code structure b cfg digest ident now path str = Inr cs"
    and "\<And>symbols statements. structure str = Some (symbols, statements) \<Longrightarrow>
      list_all (\<lambda>s. sy_start s \<le> length str \<and> sy_end s \<le> length str) symbols"
  shows "if blank str then cs = []
    else concat (map ch_content cs) = str \<and> list_all (\<lambda>c. validate b c = Inr ()) cs \<and>
      (\<exists>sp. covers 0 (length str) sp \<and> map ch_content cs = map (part_of str) sp \<and>
        map (\<lambda>c. md_start_line (ch_metadata c)) cs = map (\<lambda>s. 1 + int (newlines (take (fst s) str))) sp \<and>
        map (\<lambda>c. md_end_line (ch_metadata c)) cs = map (\<lambda>s. 1 + int (newlines (take (snd s - 1) str))) sp)"
proof (cases "blank str")
  case True
  with assms(1) show ?thesis by (simp add: chunk_code_def)
next
  case False
  let ?found = "case structure str of Some p \<Rightarrow> p | None \<Rightarrow> ([], [])"
  have inside: "list_all (\<lambda>s. sy_start s \<le> length str \<and> sy_end s \<le> length str) (fst ?found)"
    using assms(2) by (cases "structure str") auto
  obtain sp where sp: "code_spans b cfg str (fst ?found) (snd ?found) = Inr sp"
    using assms(1) False by (auto simp: chunk_code_def Let_def bind_res_Inr_conv)
  let ?chunk = "\<lambda>i. code_chunk digest (ident i) now path str (fst ?found) (sp ! i)"
  have cover: "covers 0 (length str) sp" using code_spans_ok[OF sp inside] by blast
  obtain hs where run: "list_all2 (\<lambda>x y. describe_code b path str (fst ?found) hs x = Inr y)
      (enumerate 0 (zip sp (map (\<lambda>(i, s). code_chunk digest (ident i) now path str (fst ?found) s) (enumerate 0 sp)))) cs"
    using assms(1) False sp by (auto simp: chunk_code_def Let_def map_res_Inr_conv)
  then have len: "length cs = length sp" by (simp add: list_all2_conv_all_nth)
  have each: "validate b (cs ! i) = Inr () \<and> (\<exists>t. cs ! i = with_context t (?chunk i))" if i: "i < length sp" for i
  proof (rule describe_code_ok)
    show "describe_code b path str (fst ?found) hs (i, sp ! i, ?chunk i) = Inr (cs ! i)"
      using run i len by (auto simp: list_all2_conv_all_nth nth_enumerate_eq)
  qed
  have chunk: "ch_content (cs ! i) = part_of str (sp ! i)"
    "md_start_line (ch_metadata (cs ! i)) = 1 + int (newlines (take (fst (sp ! i)) str))"
    "md_end_line (ch_metadata (cs ! i)) = 1 + int (newlines (take (snd (sp ! i) - 1) str))" if i: "i < length sp" for i
  proof -
    obtain t where "cs ! i = with_context t (?chunk i)" using each[OF i] by blast
    then show "ch_content (cs ! i) = part_of str (sp ! i)"
      "md_start_line (ch_metadata (cs ! i)) = 1 + int (newlines (take (fst (sp ! i)) str))"
      "md_end_line (ch_metadata (cs ! i)) = 1 + int (newlines (take (snd (sp ! i) - 1) str))"
      using covers_inside[OF cover nth_mem[OF i]] by (simp_all add: code_chunk_fields)
  qed
  have contents: "map ch_content cs = map (part_of str) sp"
    using chunk(1) len by (intro nth_equalityI) simp_all
  moreover have "map (\<lambda>c. md_start_line (ch_metadata c)) cs = map (\<lambda>s. 1 + int (newlines (take (fst s) str))) sp"
    using chunk(2) len by (intro nth_equalityI) simp_all
  moreover have "map (\<lambda>c. md_end_line (ch_metadata c)) cs = map (\<lambda>s. 1 + int (newlines (take (snd s - 1) str))) sp"
    using chunk(3) len by (intro nth_equalityI) simp_all
  moreover have "list_all (\<lambda>c. validate b c = Inr ()) cs" using each len by (simp add: list_all_length)
  moreover have "concat (map (part_of str) sp) = str" using covers_concat[OF cover, of str] by simp
  ultimately show ?thesis using False cover by auto
qed

definition sample_structure :: "ustr \<Rightarrow> (symbol list \<times> nat list) option" where
  "sample_structure str = Some ([\<lparr>sy_start = 3, sy_end = 6, sy_name = [102], sy_signature = [102], sy_doc = [],
     sy_kind = FunctionSymbol\<rparr>], [])"

definition sample_code :: "(budget_error, chunk list) result" where
  "sample_code = chunk_code sample_structure (char_budget 3 99 199) \<lparr>cc_max_chunk = 0, cc_min_chunk = 0, cc_target_chunk = 0\<rparr>
     (\<lambda>_. ''d'') (\<lambda>_. ''u'') 0 ''/m/a.py'' [97, 98, 10, 99, 100, 10]"

theorem chunk_code_lossless_witness:
  "\<exists>cs. sample_code = Inr cs \<and> concat (map ch_content cs) = [97, 98, 10, 99, 100, 10] \<and>
     map (\<lambda>c. md_start_line (ch_metadata c)) cs = [1, 2]"
proof -
  have "case sample_code of Inl _ \<Rightarrow> False | Inr cs \<Rightarrow> map (\<lambda>c. md_start_line (ch_metadata c)) cs = [1, 2]"
    by code_simp
  then obtain cs where cs: "sample_code = Inr cs" "map (\<lambda>c. md_start_line (ch_metadata c)) cs = [1, 2]"
    by (auto split: sum.splits)
  have "\<not> blank [97, 98, 10, 99, 100, 10]" by (simp add: blank_def is_space_def)
  with chunk_code_lossless[OF cs(1)[unfolded sample_code_def]] cs show ?thesis
    by (auto simp: sample_structure_def)
qed

end
