(* ===== verification/JsonChunks.thy ===== *)
theory JsonChunks
  imports CodeChunks
begin

text \<open>
  JSON chunking of \<open>chunking/bounded.py\<close>: \<open>_pack_json_siblings\<close> and \<open>chunk_json\<close>. The standard
  library's decoder is the parameter \<open>raw_decode\<close> (with the hook that rejects duplicate keys):
  the value at an offset, as far as the code looks at it, and the offset after it, or None for
  a \<open>ValueError\<close> or \<open>RecursionError\<close>. \<open>blake2b\<close> is the parameter \<open>digest8\<close>.
\<close>

section \<open>Packing siblings\<close>

record json_member =
  jm_start :: nat
  jm_value_start :: nat
  jm_end :: nat
  jm_name :: ustr
  jm_tokens :: int

text \<open>\<open>~\<close> becomes \<open>~0\<close> and then \<open>/\<close> becomes \<open>~1\<close>.\<close>

definition pointer_segment :: "ustr \<Rightarrow> ustr" where
  "pointer_segment nm =
     concat (map (\<lambda>c. if c = 47 then [126, 49] else [c])
       (concat (map (\<lambda>c. if c = 126 then [126, 48] else [c]) nm)))"

definition json_member_anchor :: "(ustr \<Rightarrow> nat) \<Rightarrow> json_member \<Rightarrow> int \<Rightarrow> int \<Rightarrow> int \<Rightarrow> bool" where
  "json_member_anchor digest8 m weight least goal =
     (if goal \<le> 0 then True
      else int (digest8 (pointer_segment (jm_name m))) mod max 1 (goal - least) < weight)"

definition group_tokens :: "token_budget \<Rightarrow> ustr \<Rightarrow> json_member list \<Rightarrow> nat \<Rightarrow> nat \<Rightarrow> int" where
  "group_tokens b str ms first past =
     token_count b (slice (jm_start (ms ! first)) (jm_end (ms ! (past - 1))) str) False"

text \<open>The first loop, over the token count of a group and the anchors.\<close>

function cut_groups :: "(nat \<Rightarrow> nat \<Rightarrow> int) \<Rightarrow> (nat \<Rightarrow> bool) \<Rightarrow> int \<Rightarrow> int \<Rightarrow> nat \<Rightarrow> nat \<Rightarrow> nat \<Rightarrow> span list" where
  "cut_groups tokens anchor least cap n start stop =
     (if stop < n then
        (if stop > start \<and> tokens start (stop + 1) > cap
         then (start, stop) # cut_groups tokens anchor least cap n stop stop
         else if tokens start (stop + 1) \<ge> least \<and> anchor stop
         then (start, stop + 1) # cut_groups tokens anchor least cap n (stop + 1) (stop + 1)
         else cut_groups tokens anchor least cap n start (stop + 1))
      else if start < stop then [(start, stop)] else [])"
  by pat_completeness auto
termination
  by (relation "measure (\<lambda>(tokens, anchor, least, cap, n, start, stop). 2 * (n - stop) + (if stop > start then 1 else 0))")
    auto

declare cut_groups.simps [simp del]

text \<open>The second loop: fold a short group into a neighbour, or move a boundary.\<close>

definition fold_left :: "span list \<Rightarrow> nat \<Rightarrow> span list" where
  "fold_left gs i = take (i - 1) gs @ (fst (gs ! (i - 1)), snd (gs ! i)) # drop (i + 1) gs"

definition fold_right :: "span list \<Rightarrow> nat \<Rightarrow> span list" where
  "fold_right gs i = take i gs @ (fst (gs ! i), snd (gs ! (i + 1))) # drop (i + 2) gs"

definition move_boundary :: "(nat \<Rightarrow> nat \<Rightarrow> int) \<Rightarrow> int \<Rightarrow> int \<Rightarrow> span list \<Rightarrow> nat \<Rightarrow> span list" where
  "move_boundary tokens least cap gs i =
     (if i = 0 then gs
      else let p = gs ! (i - 1); g = gs ! i in
        case find (\<lambda>m. least \<le> tokens (fst p) m \<and> tokens (fst p) m \<le> cap \<and>
                       least \<le> tokens m (snd g) \<and> tokens m (snd g) \<le> cap) (rev [fst p + 1..<snd p]) of
          None \<Rightarrow> gs
        | Some m \<Rightarrow> gs[i - 1 := (fst p, m), i := (m, snd g)])"

function settle_groups :: "(nat \<Rightarrow> nat \<Rightarrow> int) \<Rightarrow> int \<Rightarrow> int \<Rightarrow> span list \<Rightarrow> nat \<Rightarrow> span list" where
  "settle_groups tokens least cap gs i =
     (if least > 0 \<and> i < length gs then
        (if tokens (fst (gs ! i)) (snd (gs ! i)) \<ge> least then settle_groups tokens least cap gs (i + 1)
         else if i > 0 \<and> tokens (fst (gs ! (i - 1))) (snd (gs ! i)) \<le> cap
         then settle_groups tokens least cap (fold_left gs i) (i - 1)
         else if i + 1 < length gs \<and> tokens (fst (gs ! i)) (snd (gs ! (i + 1))) \<le> cap
         then settle_groups tokens least cap (fold_right gs i) i
         else settle_groups tokens least cap (move_boundary tokens least cap gs i) (i + 1))
      else gs)"
  by pat_completeness auto

lemma length_move_boundary [simp]: "length (move_boundary tokens least cap gs i) = length gs"
  by (simp add: move_boundary_def Let_def split: option.split)

termination settle_groups
  by (relation "measure (\<lambda>(tokens, least, cap, gs, i). 2 * length gs - i)")
    (auto simp: fold_left_def fold_right_def)

declare settle_groups.simps [simp del]

definition pack_json_siblings ::
  "(ustr \<Rightarrow> nat) \<Rightarrow> token_budget \<Rightarrow> ustr \<Rightarrow> json_member list \<Rightarrow> int \<Rightarrow> int \<Rightarrow> int \<Rightarrow> span list" where
  "pack_json_siblings digest8 b str ms least goal cap =
     settle_groups (group_tokens b str ms) least cap
       (cut_groups (group_tokens b str ms) (\<lambda>i. json_member_anchor digest8 (ms ! i) (jm_tokens (ms ! i)) least goal)
          least cap (length ms) 0 0) 0"

section \<open>Groups partition the members and respect the ceiling\<close>

abbreviation group_ok :: "(nat \<Rightarrow> nat \<Rightarrow> int) \<Rightarrow> int \<Rightarrow> span \<Rightarrow> bool" where
  "group_ok tokens cap g \<equiv> snd g = fst g + 1 \<or> tokens (fst g) (snd g) \<le> cap"

lemma cut_groups_ok:
  "start \<le> stop \<Longrightarrow> stop \<le> n \<Longrightarrow> (stop > start \<longrightarrow> group_ok tokens cap (start, stop)) \<Longrightarrow>
   covers start n (cut_groups tokens anchor least cap n start stop) \<and>
   list_all (group_ok tokens cap) (cut_groups tokens anchor least cap n start stop)"
proof (induction tokens anchor least cap n start stop rule: cut_groups.induct)
  case (1 tokens anchor least cap n start stop)
  consider (cut) "stop < n" "stop > start" "tokens start (stop + 1) > cap"
    | (anchor) "stop < n" "\<not> (stop > start \<and> tokens start (stop + 1) > cap)" "tokens start (stop + 1) \<ge> least" "anchor stop"
    | (grow) "stop < n" "\<not> (stop > start \<and> tokens start (stop + 1) > cap)" "\<not> (tokens start (stop + 1) \<ge> least \<and> anchor stop)"
    | (finished) "\<not> stop < n" by blast
  then show ?case
  proof cases
    case cut
    then show ?thesis using 1(1)[OF cut(1)] 1(6) by (subst (1 2) cut_groups.simps) auto
  next
    case anchor
    then have "group_ok tokens cap (start, stop + 1)" using 1(4) by (cases "start = stop") auto
    then show ?thesis using anchor 1(2)[OF anchor(1,2)] 1(4) by (subst (1 2) cut_groups.simps) auto
  next
    case grow
    then have "group_ok tokens cap (start, stop + 1)" using 1(4) by (cases "start = stop") auto
    then show ?thesis using grow 1(3)[OF grow] 1(4) by (subst (1 2) cut_groups.simps) auto
  next
    case finished
    then show ?thesis using 1(4-6) by (subst (1 2) cut_groups.simps) auto
  qed
qed

lemma split_two:
  assumes "0 < i" and "i < length gs"
  shows "gs = take (i - 1) gs @ gs ! (i - 1) # gs ! i # drop (i + 1) gs"
proof -
  have "drop (i - 1) gs = gs ! (i - 1) # gs ! i # drop (i + 1) gs"
    using assms Cons_nth_drop_Suc[of "i - 1" gs] Cons_nth_drop_Suc[of i gs] by simp
  then show ?thesis by (metis append_take_drop_id)
qed

text \<open>Both folds and the move replace two neighbours \<open>p\<close>, \<open>g\<close> in place.\<close>

lemma covers_two: "covers x y (xs @ p # g # ys) \<longleftrightarrow>
    covers x (fst p) xs \<and> fst p < snd p \<and> snd p = fst g \<and> fst g < snd g \<and> covers (snd g) y ys"
  by (auto dest: sym)

lemma fold_left_ok:
  assumes "0 < i" "i < length gs" "covers x y gs" "list_all (group_ok tokens cap) gs"
    and "tokens (fst (gs ! (i - 1))) (snd (gs ! i)) \<le> cap"
  shows "covers x y (fold_left gs i) \<and> list_all (group_ok tokens cap) (fold_left gs i)"
proof -
  note s = split_two[OF assms(1,2)]
  have "covers x y (take (i - 1) gs @ gs ! (i - 1) # gs ! i # drop (i + 1) gs)"
    "list_all (group_ok tokens cap) (take (i - 1) gs @ gs ! (i - 1) # gs ! i # drop (i + 1) gs)"
    using assms(3,4) s by simp_all
  with assms(5) show ?thesis unfolding fold_left_def covers_two by auto
qed

lemma fold_right_left: "fold_right gs i = fold_left gs (i + 1)"
  by (simp add: fold_left_def fold_right_def)

lemma update_two: "j = length xs \<Longrightarrow> (xs @ p # g # ys)[j := a, Suc j := c] = xs @ a # c # ys"
  by (simp add: list_update_append)

lemma find_Some_mem: "find P xs = Some m \<Longrightarrow> m \<in> set xs \<and> P m"
  by (induction xs) (auto split: if_splits)

lemma move_boundary_ok:
  assumes "i < length gs" "covers x y gs" "list_all (group_ok tokens cap) gs"
  shows "covers x y (move_boundary tokens least cap gs i) \<and> list_all (group_ok tokens cap) (move_boundary tokens least cap gs i)"
proof (cases "move_boundary tokens least cap gs i = gs")
  case False
  let ?p = "gs ! (i - 1)" and ?g = "gs ! i"
  let ?P = "\<lambda>m. least \<le> tokens (fst ?p) m \<and> tokens (fst ?p) m \<le> cap \<and> least \<le> tokens m (snd ?g) \<and> tokens m (snd ?g) \<le> cap"
  have i: "0 < i" using False by (cases "i = 0") (simp_all add: move_boundary_def)
  then obtain m where found: "find ?P (rev [fst ?p + 1..<snd ?p]) = Some m"
    using False by (cases "find ?P (rev [fst ?p + 1..<snd ?p])") (simp_all add: move_boundary_def Let_def)
  from find_Some_mem[OF found] have m: "m \<in> set (rev [fst ?p + 1..<snd ?p])"
    "tokens (fst ?p) m \<le> cap" "tokens m (snd ?g) \<le> cap"
    by auto
  have mv: "move_boundary tokens least cap gs i = gs[i - 1 := (fst ?p, m), i := (m, snd ?g)]"
    using i found by (simp add: move_boundary_def Let_def)
  note s = split_two[OF i assms(1)]
  have upd: "gs[i - 1 := (fst ?p, m), i := (m, snd ?g)] = take (i - 1) gs @ (fst ?p, m) # (m, snd ?g) # drop (i + 1) gs"
    using update_two[of "i - 1" "take (i - 1) gs" ?p ?g "drop (i + 1) gs" "(fst ?p, m)" "(m, snd ?g)"] i assms(1)
    unfolding s[symmetric] by simp
  have "covers x y (take (i - 1) gs @ ?p # ?g # drop (i + 1) gs)"
    "list_all (group_ok tokens cap) (take (i - 1) gs @ ?p # ?g # drop (i + 1) gs)"
    using assms(2,3) s by simp_all
  with m show ?thesis unfolding mv upd covers_two by auto
qed (use assms in simp)

lemma settle_groups_ok:
  "covers x y gs \<Longrightarrow> list_all (group_ok tokens cap) gs \<Longrightarrow>
   covers x y (settle_groups tokens least cap gs i) \<and> list_all (group_ok tokens cap) (settle_groups tokens least cap gs i)"
proof (induction tokens least cap gs i rule: settle_groups.induct)
  case (1 tokens least cap gs i)
  consider (stop) "\<not> (least > 0 \<and> i < length gs)"
    | (enough) "least > 0 \<and> i < length gs" "tokens (fst (gs ! i)) (snd (gs ! i)) \<ge> least"
    | (left) "least > 0 \<and> i < length gs" "\<not> tokens (fst (gs ! i)) (snd (gs ! i)) \<ge> least"
        "i > 0 \<and> tokens (fst (gs ! (i - 1))) (snd (gs ! i)) \<le> cap"
    | (right) "least > 0 \<and> i < length gs" "\<not> tokens (fst (gs ! i)) (snd (gs ! i)) \<ge> least"
        "\<not> (i > 0 \<and> tokens (fst (gs ! (i - 1))) (snd (gs ! i)) \<le> cap)"
        "i + 1 < length gs \<and> tokens (fst (gs ! i)) (snd (gs ! (i + 1))) \<le> cap"
    | (move) "least > 0 \<and> i < length gs" "\<not> tokens (fst (gs ! i)) (snd (gs ! i)) \<ge> least"
        "\<not> (i > 0 \<and> tokens (fst (gs ! (i - 1))) (snd (gs ! i)) \<le> cap)"
        "\<not> (i + 1 < length gs \<and> tokens (fst (gs ! i)) (snd (gs ! (i + 1))) \<le> cap)" by blast
  then show ?case
  proof cases
    case stop
    have "settle_groups tokens least cap gs i = gs"
      by (subst settle_groups.simps) (rule if_not_P[OF stop])
    with 1(5,6) show ?thesis by simp
  next
    case enough
    with 1(1)[OF enough 1(5,6)] show ?thesis by (subst (1 2) settle_groups.simps) simp
  next
    case left
    with 1(2)[OF left] fold_left_ok[of i gs x y tokens cap] 1(5,6) show ?thesis
      by (subst (1 2) settle_groups.simps) simp
  next
    case right
    have "settle_groups tokens least cap gs i = settle_groups tokens least cap (fold_right gs i) i"
      by (subst settle_groups.simps) (simp only: if_P[OF right(1)] if_not_P[OF right(2)] if_not_P[OF right(3)] if_P[OF right(4)])
    with 1(3)[OF right] fold_left_ok[of "i + 1" gs x y tokens cap] 1(5,6) right(4) show ?thesis
      by (simp add: fold_right_left)
  next
    case move
    have "settle_groups tokens least cap gs i
        = settle_groups tokens least cap (move_boundary tokens least cap gs i) (i + 1)"
      by (subst settle_groups.simps) (simp only: if_P[OF move(1)] if_not_P[OF move(2)] if_not_P[OF move(3)] if_not_P[OF move(4)])
    with 1(4)[OF move] move_boundary_ok[of i gs x y tokens cap least] 1(5,6) move(1) show ?thesis by simp
  qed
qed

text \<open>
  Packing JSON siblings partitions them: the groups are non-empty, follow one another from
  the first member to the last, and every group of two or more members measures within the
  ceiling, for any floor, goal, digest and tokenizer.
\<close>

lemma pack_json_covers:
  "covers 0 (length ms) (pack_json_siblings digest8 b str ms least goal cap)"
  unfolding pack_json_siblings_def
  by (rule settle_groups_ok[THEN conjunct1]) (use cut_groups_ok[where cap = cap] in auto)

theorem pack_json_partition:
  "let gs = pack_json_siblings digest8 b str ms least goal cap in
     covers 0 (length ms) gs \<and>
     list_all (\<lambda>g. snd g = fst g + 1 \<or> group_tokens b str ms (fst g) (snd g) \<le> cap) gs"
  unfolding pack_json_siblings_def Let_def
  by (rule settle_groups_ok) (use cut_groups_ok in auto)

section \<open>Splitting a document\<close>

datatype json_failure = ParserFails | IndexEscapes

text \<open>What the code asks of a decoded value.\<close>

datatype decoded = DObject nat | DArray nat | DText ustr | DScalar

fun container_members :: "decoded \<Rightarrow> nat" where
  "container_members (DObject n) = n"
| "container_members (DArray n) = n"
| "container_members _ = 0"

fun is_object :: "decoded \<Rightarrow> bool" where
  "is_object (DObject n) = True"
| "is_object _ = False"

type_synonym decoder = "ustr \<Rightarrow> nat \<Rightarrow> (decoded \<times> nat) option"

definition skip_space :: "ustr \<Rightarrow> nat \<Rightarrow> nat" where
  "skip_space str pos = pos + length (takeWhile is_space (drop pos str))"

text \<open>\<open>str(key)\<close>; \<open>str_of\<close> would be the text of a key that is not a string.\<close>

definition key_text :: "(decoded \<Rightarrow> ustr) \<Rightarrow> decoded \<Rightarrow> ustr" where
  "key_text str_of v = (case v of DText s \<Rightarrow> s | _ \<Rightarrow> str_of v)"

text \<open>The name of a member and the offset after the colon.\<close>

definition member_name ::
  "decoder \<Rightarrow> (decoded \<Rightarrow> ustr) \<Rightarrow> ustr \<Rightarrow> bool \<Rightarrow> nat \<Rightarrow> nat \<Rightarrow> (json_failure, ustr \<times> nat) result" where
  "member_name raw_decode str_of str obj index start =
     (if obj then
        (case raw_decode str start of
           None \<Rightarrow> Inl ParserFails
         | Some (key, stop) \<Rightarrow>
             (let c = skip_space str stop in
              if c \<ge> length str then Inl IndexEscapes
              else if str ! c \<noteq> 58 then Inl ParserFails
              else Inr (key_text str_of key, c + 1)))
      else Inr (decimal index, start))"

definition after_member :: "ustr \<Rightarrow> bool \<Rightarrow> nat \<Rightarrow> (json_failure, nat) result" where
  "after_member str again c =
     (if again then
        (if c \<ge> length str then Inl IndexEscapes
         else if str ! c \<noteq> 44 then Inl ParserFails else Inr (c + 1))
      else Inr c)"

fun scan_members ::
  "decoder \<Rightarrow> (decoded \<Rightarrow> ustr) \<Rightarrow> token_budget \<Rightarrow> ustr \<Rightarrow> bool \<Rightarrow> nat \<Rightarrow> nat \<Rightarrow> nat
    \<Rightarrow> (json_failure, json_member list) result" where
  "scan_members raw_decode str_of b str obj 0 index cursor = Inr []"
| "scan_members raw_decode str_of b str obj (Suc k) index cursor =
     (let start = skip_space str cursor in
      bind_res (member_name raw_decode str_of str obj index start) (\<lambda>named.
        let vs = skip_space str (snd named) in
        (case raw_decode str vs of
           None \<Rightarrow> Inl ParserFails
         | Some (v, stop) \<Rightarrow>
             bind_res (after_member str (k > 0) (skip_space str stop)) (\<lambda>c.
               bind_res (scan_members raw_decode str_of b str obj k (index + 1) c) (\<lambda>ms.
                 Inr (\<lparr>jm_start = start, jm_value_start = vs, jm_end = stop, jm_name = fst named,
                   jm_tokens = token_count b (slice start stop str) False\<rparr> # ms))))))"

datatype json_job = VisitMember json_member | EmitGroup json_member json_member

definition run_jobs :: "(json_member list \<Rightarrow> span list) \<Rightarrow> json_member list \<Rightarrow> json_job list" where
  "run_jobs pack run =
     (if run = [] then []
      else map (\<lambda>g. if snd g = fst g + 1 then VisitMember (run ! fst g)
                    else EmitGroup (run ! fst g) (run ! (snd g - 1))) (pack run))"

fun plan_jobs :: "(json_member list \<Rightarrow> span list) \<Rightarrow> int \<Rightarrow> json_member list \<Rightarrow> json_member list \<Rightarrow> json_job list" where
  "plan_jobs pack cap run [] = run_jobs pack run"
| "plan_jobs pack cap run (m # ms) =
     (if jm_tokens m \<le> cap then plan_jobs pack cap (run @ [m]) ms
      else run_jobs pack run @ VisitMember m # plan_jobs pack cap [] ms)"

text \<open>\<open>json.dumps\<close> of a string with \<open>ensure_ascii=False\<close>, and of the range descriptor.\<close>

definition hex_digit :: "nat \<Rightarrow> nat" where
  "hex_digit d = (if d < 10 then 48 + d else 87 + d)"

definition json_escape :: "nat \<Rightarrow> ustr" where
  "json_escape c =
     (if c = 34 \<or> c = 92 then [92, c] else if c = 10 then [92, 110] else if c = 13 then [92, 114]
      else if c = 9 then [92, 116] else if c = 12 then [92, 102] else if c = 8 then [92, 98]
      else if c < 32 then [92, 117, 48, 48, hex_digit (c div 16), hex_digit (c mod 16)] else [c])"

definition json_quote :: "ustr \<Rightarrow> ustr" where
  "json_quote s = [34] @ concat (map json_escape s) @ [34]"

definition pointer_or_root :: "ustr \<Rightarrow> ustr" where
  "pointer_or_root pointer = (if pointer = [] then [47] else pointer)"

definition group_label :: "ustr \<Rightarrow> ustr \<Rightarrow> ustr \<Rightarrow> ustr" where
  "group_label pointer first final =
     [123] @ json_quote [112, 97, 114, 101, 110, 116] @ [58] @ json_quote (pointer_or_root pointer) @
     [44] @ json_quote [102, 105, 114, 115, 116] @ [58] @ json_quote first @
     [44] @ json_quote [108, 97, 115, 116] @ [58] @ json_quote final @ [125]"

text \<open>What \<open>emit\<close> is called with.\<close>

record json_draft =
  jd_pos :: nat
  jd_end :: nat
  jd_body :: ustr
  jd_label :: ustr
  jd_grouped :: bool

text \<open>\<open>visit\<close>, with the number of levels still allowed: 33 at the root.\<close>

primrec visit ::
  "decoder \<Rightarrow> (decoded \<Rightarrow> ustr) \<Rightarrow> (ustr \<Rightarrow> nat) \<Rightarrow> token_budget \<Rightarrow> code_config \<Rightarrow> ustr \<Rightarrow> nat
    \<Rightarrow> nat \<Rightarrow> ustr \<Rightarrow> (json_failure, json_draft list \<times> nat) result" where
  "visit raw_decode str_of digest8 b cfg str 0 = (\<lambda>off pointer. Inl ParserFails)"
| "visit raw_decode str_of digest8 b cfg str (Suc levels) = (\<lambda>off pointer.
     let pos = skip_space str off in
     case raw_decode str pos of
       None \<Rightarrow> Inl ParserFails
     | Some (v, stop) \<Rightarrow>
         (let raw = slice pos stop str; cap = packing_ceiling b (cc_max_chunk cfg) in
          if token_count b raw False > tb_body b \<and> container_members v > 0
          then bind_res (scan_members raw_decode str_of b str (is_object v) (container_members v) 0 (pos + 1)) (\<lambda>ms.
            bind_res (map_res (\<lambda>job. case job of
                VisitMember m \<Rightarrow>
                  bind_res (visit raw_decode str_of digest8 b cfg str levels (jm_value_start m)
                      (pointer @ [47] @ pointer_segment (jm_name m))) (\<lambda>r. Inr (fst r))
              | EmitGroup f l \<Rightarrow>
                  Inr [\<lparr>jd_pos = jm_start f, jd_end = jm_end l, jd_body = slice (jm_start f) (jm_end l) str,
                    jd_label = group_label pointer (jm_name f) (jm_name l), jd_grouped = True\<rparr>])
              (plan_jobs (\<lambda>run. pack_json_siblings digest8 b str run (cc_min_chunk cfg) (cc_target_chunk cfg) cap)
                 cap [] ms)) (\<lambda>dss. Inr (concat dss, stop)))
          else Inr ([\<lparr>jd_pos = pos, jd_end = stop,
            jd_body = (case v of DText t \<Rightarrow> if token_count b raw False > tb_body b then t else raw | _ \<Rightarrow> raw),
            jd_label = pointer_or_root pointer, jd_grouped = False\<rparr>], stop)))"

definition MEMBERS_LABEL :: ustr where
  "MEMBERS_LABEL = [74, 83, 79, 78, 32, 109, 101, 109, 98, 101, 114, 115, 58, 32]"

definition POINTER_LABEL :: ustr where
  "POINTER_LABEL = [74, 83, 79, 78, 32, 112, 111, 105, 110, 116, 101, 114, 58, 32]"

definition draft_chunk ::
  "(ustr \<Rightarrow> string) \<Rightarrow> (nat \<Rightarrow> string) \<Rightarrow> int \<Rightarrow> string \<Rightarrow> ustr \<Rightarrow> nat \<times> json_draft \<Rightarrow> chunk" where
  "draft_chunk digest ident now path str item =
     (let d = snd item in
      new_chunk digest (ident (fst item)) now (jd_body d)
        ((default_metadata path)\<lparr>
           md_heading_hierarchy := [path_stem (path_name path), jd_label d],
           md_start_line := int (newlines (take (jd_pos d) str)) + 1,
           md_end_line := int (newlines (take (jd_end d) str)) + 1,
           md_retrieval_context := (if jd_grouped d then MEMBERS_LABEL else POINTER_LABEL) @ jd_label d\<rparr>))"

text \<open>\<open>split_source_lines\<close> of \<open>chunking/base.py\<close>, without the line ends.\<close>

definition split_source_lines :: "ustr \<Rightarrow> ustr list" where
  "split_source_lines str =
     (if str = [] then []
      else map (\<lambda>l. if l \<noteq> [] \<and> last l = 13 then butlast l else l)
        (if last str = 10 then butlast (split_on 10 str) else split_on 10 str))"

definition whole_chunk :: "(ustr \<Rightarrow> string) \<Rightarrow> string \<Rightarrow> int \<Rightarrow> string \<Rightarrow> ustr \<Rightarrow> chunk" where
  "whole_chunk digest ident now path str =
     new_chunk digest ident now str
       ((default_metadata path)\<lparr>md_start_line := 1, md_end_line := int (length (split_source_lines str))\<rparr>)"

definition parse_json ::
  "decoder \<Rightarrow> (decoded \<Rightarrow> ustr) \<Rightarrow> (ustr \<Rightarrow> nat) \<Rightarrow> token_budget \<Rightarrow> code_config \<Rightarrow> ustr
    \<Rightarrow> (json_failure, json_draft list) result" where
  "parse_json raw_decode str_of digest8 b cfg str =
     bind_res (visit raw_decode str_of digest8 b cfg str 33 0 []) (\<lambda>r.
       if blank (drop (snd r) str) then Inr (fst r) else Inl ParserFails)"

definition seal_chunk :: "chunk \<Rightarrow> chunk" where
  "seal_chunk c = c\<lparr>ch_metadata := (ch_metadata c)\<lparr>md_source_read_only := True, md_source_span_hash := None\<rparr>\<rparr>"

datatype chunk_json_error = JsonIndexError | BudgetError budget_error

definition chunk_json ::
  "decoder \<Rightarrow> (decoded \<Rightarrow> ustr) \<Rightarrow> (ustr \<Rightarrow> nat) \<Rightarrow> token_budget \<Rightarrow> code_config \<Rightarrow> (ustr \<Rightarrow> string)
    \<Rightarrow> (nat \<Rightarrow> string) \<Rightarrow> (nat \<Rightarrow> nat \<Rightarrow> string) \<Rightarrow> int \<Rightarrow> string \<Rightarrow> ustr \<Rightarrow> (chunk_json_error, chunk list) result" where
  "chunk_json raw_decode str_of digest8 b cfg digest ident ident' now path str =
     (case parse_json raw_decode str_of digest8 b cfg str of
        Inl IndexEscapes \<Rightarrow> Inl JsonIndexError
      | parsed \<Rightarrow>
          (let serialized = (case parsed of Inr _ \<Rightarrow> True | Inl _ \<Rightarrow> False);
               chunks = (case parsed of
                   Inr ds \<Rightarrow> map (draft_chunk digest ident now path str) (enumerate 0 ds)
                 | Inl _ \<Rightarrow> [whole_chunk digest (ident 0) now path str])
           in case bound_chunks b digest ident' now serialized chunks of
                Inl e \<Rightarrow> Inl (BudgetError e)
              | Inr out \<Rightarrow> Inr (map seal_chunk out)))"

section \<open>The pieces account for the document\<close>

text \<open>
  The members of a container, read from an offset on: white space, for an object a key, white
  space and a colon, then the value; between two members white space and one comma.
\<close>

fun chained :: "decoder \<Rightarrow> ustr \<Rightarrow> bool \<Rightarrow> nat \<Rightarrow> json_member list \<Rightarrow> bool" where
  "chained raw_decode str obj cursor [] \<longleftrightarrow> True"
| "chained raw_decode str obj cursor (m # ms) \<longleftrightarrow>
     jm_start m = skip_space str cursor \<and>
     (if obj
      then (case raw_decode str (jm_start m) of None \<Rightarrow> False | Some (key, stop) \<Rightarrow>
              let c = skip_space str stop in c < length str \<and> str ! c = 58 \<and> jm_value_start m = skip_space str (c + 1))
      else jm_value_start m = jm_start m) \<and>
     (case raw_decode str (jm_value_start m) of None \<Rightarrow> False | Some (v, stop) \<Rightarrow> jm_end m = stop) \<and>
     (ms = [] \<or>
      (let c = skip_space str (jm_end m) in c < length str \<and> str ! c = 44 \<and> chained raw_decode str obj (c + 1) ms))"

text \<open>
  \<open>pieces raw_decode str pos stop ds\<close>: the drafts \<open>ds\<close> account for the value that the decoder reads from
  \<open>pos\<close> to \<open>stop\<close>. Either one draft has all of it, its text or the string it stands for; or
  the value is a container, and \<open>parts\<close> of its members, all of them and in their order, are accounted
  for one by one or several neighbours in one draft, from the start of the first to the end
  of the last.
\<close>

inductive pieces :: "decoder \<Rightarrow> ustr \<Rightarrow> nat \<Rightarrow> nat \<Rightarrow> json_draft list \<Rightarrow> bool"
  and parts :: "decoder \<Rightarrow> ustr \<Rightarrow> json_member list \<Rightarrow> json_draft list \<Rightarrow> bool"
  for raw_decode str where
  whole: "raw_decode str pos = Some (v, stop) \<Longrightarrow> jd_pos d = pos \<Longrightarrow> jd_end d = stop \<Longrightarrow>
      jd_body d = slice pos stop str \<or> v = DText (jd_body d) \<Longrightarrow> pieces raw_decode str pos stop [d]"
| split: "raw_decode str pos = Some (v, stop) \<Longrightarrow> 0 < container_members v \<Longrightarrow> length ms = container_members v \<Longrightarrow>
      chained raw_decode str (is_object v) (pos + 1) ms \<Longrightarrow> parts raw_decode str ms ds \<Longrightarrow> pieces raw_decode str pos stop ds"
| no_member: "parts raw_decode str [] []"
| member: "pieces raw_decode str (jm_value_start m) (jm_end m) ds \<Longrightarrow> parts raw_decode str ms es \<Longrightarrow>
      parts raw_decode str (m # ms) (ds @ es)"
| neighbours: "g \<noteq> [] \<Longrightarrow> jd_pos d = jm_start m \<Longrightarrow> jd_end d = jm_end (last g) \<Longrightarrow>
      jd_body d = slice (jd_pos d) (jd_end d) str \<Longrightarrow> parts raw_decode str ms ds \<Longrightarrow>
      parts raw_decode str (m # g @ ms) (d # ds)"

inductive_cases pieces_stopE: "pieces raw_decode str pos stop ds"

lemma pieces_decode: "pieces raw_decode str pos stop ds \<Longrightarrow> \<exists>v. raw_decode str pos = Some (v, stop)"
  by (erule pieces_stopE) auto

lemma skip_space_twice [simp]: "skip_space str (skip_space str pos) = skip_space str pos"
proof -
  have "drop (skip_space str pos) str = dropWhile is_space (drop pos str)"
    by (simp add: skip_space_def add.commute[of pos] dropWhile_eq_drop flip: drop_drop)
  then have "takeWhile is_space (drop (skip_space str pos) str) = []"
    by (simp add: takeWhile_eq_Nil_iff) (metis dropWhile_eq_Nil_conv hd_dropWhile)
  then show ?thesis by (simp add: skip_space_def[of str "skip_space str pos"])
qed

lemma scan_chained:
  "scan_members raw_decode str_of b str obj k index cursor = Inr ms \<Longrightarrow>
   length ms = k \<and> chained raw_decode str obj cursor ms"
proof (induction k arbitrary: index cursor ms)
  case (Suc k)
  obtain nm vs v stop c rest where named: "member_name raw_decode str_of str obj index (skip_space str cursor) = Inr (nm, vs)"
    and v: "raw_decode str (skip_space str vs) = Some (v, stop)" and c: "after_member str (k > 0) (skip_space str stop) = Inr c"
    and rest: "scan_members raw_decode str_of b str obj k (index + 1) c = Inr rest"
    and ms: "ms = \<lparr>jm_start = skip_space str cursor, jm_value_start = skip_space str vs, jm_end = stop, jm_name = nm,
      jm_tokens = token_count b (slice (skip_space str cursor) stop str) False\<rparr> # rest"
    using Suc.prems by (auto simp: Let_def bind_res_Inr_conv split: option.splits)
  from Suc.IH[OF rest] have len: "length rest = k" and tail: "chained raw_decode str obj c rest" by auto
  have "rest = [] \<or> (let c = skip_space str stop in c < length str \<and> str ! c = 44 \<and> chained raw_decode str obj (c + 1) rest)"
    using c len tail by (auto simp: after_member_def Let_def split: if_splits)
  with named v len show ?case
    by (auto simp: ms member_name_def Let_def split: if_splits option.splits)
qed simp

lemma chained_values:
  "chained raw_decode str obj cursor ms \<Longrightarrow> m \<in> set ms \<Longrightarrow>
   skip_space str (jm_value_start m) = jm_value_start m \<and> (\<exists>v. raw_decode str (jm_value_start m) = Some (v, jm_end m))"
  by (induction ms arbitrary: cursor) (auto simp: Let_def split: option.splits if_splits)

text \<open>What the drafts of a job account for.\<close>

fun job_done :: "decoder \<Rightarrow> ustr \<Rightarrow> json_job \<Rightarrow> json_draft list \<Rightarrow> bool" where
  "job_done raw_decode str (VisitMember m) ds \<longleftrightarrow> pieces raw_decode str (jm_value_start m) (jm_end m) ds"
| "job_done raw_decode str (EmitGroup f l) ds \<longleftrightarrow>
     (\<exists>d. ds = [d] \<and> jd_pos d = jm_start f \<and> jd_end d = jm_end l \<and> jd_body d = slice (jd_pos d) (jd_end d) str)"

lemma groups_parts:
  assumes "covers i (length run) gs"
    and "list_all2 (job_done raw_decode str) (map (\<lambda>g. if snd g = fst g + 1 then VisitMember (run ! fst g)
      else EmitGroup (run ! fst g) (run ! (snd g - 1))) gs) dss"
  shows "parts raw_decode str (drop i run) (concat dss)"
  using assms
proof (induction gs arbitrary: i dss)
  case Nil
  then show ?case by (auto intro: no_member)
next
  case (Cons g gs)
  then obtain ds rest where dss: "dss = ds # rest" by (cases dss) auto
  have g: "fst g = i" "i < snd g" "covers (snd g) (length run) gs" and le: "snd g \<le> length run"
    using Cons.prems(1) covers_le by auto
  have rest: "parts raw_decode str (drop (snd g) run) (concat rest)"
    using Cons.IH[OF g(3)] Cons.prems(2) dss by simp
  have i: "drop i run = run ! i # drop (Suc i) run" using g le by (simp add: Cons_nth_drop_Suc)
  show ?case
  proof (cases "snd g = i + 1")
    case True
    then have "pieces raw_decode str (jm_value_start (run ! i)) (jm_end (run ! i)) ds"
      using Cons.prems(2) dss g(1) by simp
    from member[OF this rest] show ?thesis using True by (simp add: dss i)
  next
    case False
    let ?group = "take (snd g - Suc i) (drop (Suc i) run)"
    obtain d where d: "ds = [d]" "jd_pos d = jm_start (run ! i)" "jd_end d = jm_end (run ! (snd g - 1))"
        "jd_body d = slice (jd_pos d) (jd_end d) str"
      using Cons.prems(2) dss g(1) False by auto
    have "Suc (snd g - 2) = snd g - 1" using False g(2) by arith
    then have "?group \<noteq> []" "last ?group = run ! (snd g - 1)"
      using False g(2) le by (simp_all add: last_conv_nth)
    from neighbours[OF this(1) d(2) _ d(4) rest] this(2) d(3) have
      "parts raw_decode str (run ! i # ?group @ drop (snd g) run) (d # concat rest)" by simp
    moreover have "?group @ drop (snd g) run = drop (Suc i) run"
      using False g(2) by (metis Suc_leI add_diff_inverse_nat append_take_drop_id drop_drop add.commute less_le_not_le not_less)
    ultimately show ?thesis by (simp add: dss i d(1))
  qed
qed

lemma parts_append:
  assumes "parts raw_decode str xs ds" "parts raw_decode str ys es"
  shows "parts raw_decode str (xs @ ys) (ds @ es)"
  using assms(1)
proof (induction rule: pieces_parts.inducts(2)[where ?P1.0 = "\<lambda>_ _ _. True"])
  case (member m ds ms ds')
  then show ?case using pieces_parts.member[of raw_decode str m ds "ms @ ys"] by simp
next
  case (neighbours g d m ms ds)
  then show ?case using pieces_parts.neighbours[of g d m str raw_decode "ms @ ys" "ds @ es"] by simp
qed (use assms(2) in simp_all)

lemma plan_parts:
  "list_all2 (job_done raw_decode str) (plan_jobs pack cap run ms) dss \<Longrightarrow> (\<And>xs. covers 0 (length xs) (pack xs)) \<Longrightarrow>
    parts raw_decode str (run @ ms) (concat dss)"
proof (induction pack cap run ms arbitrary: dss rule: plan_jobs.induct)
  case (1 pack cap run)
  then show ?case
    using groups_parts[of 0 run "pack run" raw_decode str dss]
    by (cases "run = []") (auto simp: run_jobs_def intro: no_member)
next
  case (2 pack cap run m ms)
  show ?case
  proof (cases "jm_tokens m \<le> cap")
    case True
    with 2 show ?thesis by simp
  next
    case False
    then obtain xs ds ys where dss: "dss = xs @ ds # ys"
      and xs: "list_all2 (job_done raw_decode str) (run_jobs pack run) xs"
      and ds: "job_done raw_decode str (VisitMember m) ds"
      and ys: "list_all2 (job_done raw_decode str) (plan_jobs pack cap [] ms) ys"
      using "2.prems"(1) by (auto simp: list_all2_append1 list_all2_Cons1)
    have "parts raw_decode str run (concat xs)"
      using groups_parts[of 0 run "pack run" raw_decode str xs] xs "2.prems"(2)[of run]
      by (cases "run = []") (auto simp: run_jobs_def intro: no_member)
    moreover have "parts raw_decode str (m # ms) (ds @ concat ys)"
      using member[of raw_decode str m ds ms] ds "2.IH"(2)[OF False ys "2.prems"(2)] by simp
    ultimately show ?thesis using parts_append by (simp add: dss)
  qed
qed

lemma plan_members:
  "VisitMember m \<in> set (plan_jobs pack cap run ms) \<Longrightarrow> (\<And>xs. covers 0 (length xs) (pack xs)) \<Longrightarrow> m \<in> set (run @ ms)"
proof (induction pack cap run ms rule: plan_jobs.induct)
  have runs: "m \<in> set run" if job: "VisitMember m \<in> set (run_jobs pack run)" and pack: "\<And>xs. covers 0 (length xs) (pack xs)" for pack run
  proof -
    obtain g where "g \<in> set (pack run)" "m = run ! fst g"
      using job by (force simp: run_jobs_def split: if_splits)
    moreover from this pack[of run] have "fst g < length run"
      using covers_inside[of 0 "length run" "pack run" g] by auto
    ultimately show ?thesis by simp
  qed
  {
    case (1 pack cap run)
    then show ?case using runs by simp
  next
    case (2 pack cap run m' ms)
    then show ?case using runs[of pack run] by (auto split: if_splits)
  }
qed

lemma visit_pieces:
  "visit raw_decode str_of digest8 b cfg str levels off pointer = Inr (ds, stop) \<Longrightarrow>
   pieces raw_decode str (skip_space str off) stop ds"
proof (induction levels arbitrary: off pointer ds stop)
  case (Suc levels)
  let ?pos = "skip_space str off"
  obtain v stop' where v: "raw_decode str ?pos = Some (v, stop')"
    using Suc.prems by (cases "raw_decode str ?pos") (auto simp: Let_def)
  show ?case
  proof (cases "token_count b (slice ?pos stop' str) False > tb_body b \<and> container_members v > 0")
    case False
    then have "ds = [\<lparr>jd_pos = ?pos, jd_end = stop',
        jd_body = (case v of DText t \<Rightarrow> if token_count b (slice ?pos stop' str) False > tb_body b then t else slice ?pos stop' str
           | _ \<Rightarrow> slice ?pos stop' str),
        jd_label = pointer_or_root pointer, jd_grouped = False\<rparr>]" "stop = stop'"
      using Suc.prems v
      by (simp only: visit.simps Let_def option.case prod.case if_False sum.inject prod.inject; blast)+
    then show ?thesis using v by (cases v) (auto intro!: whole)
  next
    case True
    let ?job = "\<lambda>job. case job of
        VisitMember m \<Rightarrow> bind_res (visit raw_decode str_of digest8 b cfg str levels (jm_value_start m)
            (pointer @ [47] @ pointer_segment (jm_name m))) (\<lambda>r. Inr (fst r))
      | EmitGroup f l \<Rightarrow> Inr [\<lparr>jd_pos = jm_start f, jd_end = jm_end l, jd_body = slice (jm_start f) (jm_end l) str,
          jd_label = group_label pointer (jm_name f) (jm_name l), jd_grouped = True\<rparr>]"
    let ?pack = "\<lambda>run. pack_json_siblings digest8 b str run (cc_min_chunk cfg) (cc_target_chunk cfg)
        (packing_ceiling b (cc_max_chunk cfg))"
    let ?plan = "plan_jobs ?pack (packing_ceiling b (cc_max_chunk cfg)) []"
    have pack: "covers 0 (length xs) (?pack xs)" for xs
      using pack_json_covers by blast
    have "bind_res (scan_members raw_decode str_of b str (is_object v) (container_members v) 0 (?pos + 1)) (\<lambda>ms.
        bind_res (map_res ?job (?plan ms)) (\<lambda>dss. Inr (concat dss, stop'))) = Inr (ds, stop)"
      using Suc.prems v by (simp only: visit.simps Let_def option.case prod.case if_P[OF True])
    then obtain ms dss where scan: "scan_members raw_decode str_of b str (is_object v) (container_members v) 0 (?pos + 1) = Inr ms"
      and run: "map_res ?job (?plan ms) = Inr dss" and ds: "ds = concat dss" "stop = stop'"
      unfolding bind_res_Inr_conv sum.inject prod.inject by blast
    note ms = scan_chained[OF scan]
    have "job_done raw_decode str job es" if job: "job \<in> set (?plan ms)" "?job job = Inr es" for job es
    proof (cases job)
      case (VisitMember m)
      then obtain e where e: "visit raw_decode str_of digest8 b cfg str levels (jm_value_start m)
          (pointer @ [47] @ pointer_segment (jm_name m)) = Inr (es, e)"
        using job(2) by (auto simp: bind_res_Inr_conv)
      have "m \<in> set ms" using plan_members[of m ?pack _ "[]" ms] job(1) pack by (simp add: VisitMember)
      then obtain v' where "skip_space str (jm_value_start m) = jm_value_start m"
          "raw_decode str (jm_value_start m) = Some (v', jm_end m)"
        using chained_values[OF conjunct2[OF ms]] by blast
      with Suc.IH[OF e] pieces_decode[OF Suc.IH[OF e]] show ?thesis by (auto simp: VisitMember)
    qed (use job in auto)
    moreover have "list_all2 (\<lambda>x y. ?job x = Inr y) (?plan ms) dss" using run unfolding map_res_Inr_conv .
    ultimately have "list_all2 (job_done raw_decode str) (?plan ms) dss"
      by (auto simp: list_all2_conv_all_nth)
    then have "parts raw_decode str ms (concat dss)" using plan_parts[OF _ pack] by fastforce
    with split[where raw_decode = raw_decode and str = str and pos = ?pos and v = v and stop = stop' and ms = ms] v ms True ds
    show ?thesis by simp
  qed
qed simp

lemma seal_chunk_simps [simp]:
  "ch_content (seal_chunk c) = ch_content c"
  "md_source_read_only (ch_metadata (seal_chunk c))"
  "md_source_span_hash (ch_metadata (seal_chunk c)) = None"
  by (simp_all add: seal_chunk_def)

lemma seal_chunk_validate [simp]: "validate b (seal_chunk c) = validate b c"
proof -
  have "retrieval_content (seal_chunk c) = retrieval_content c"
    by (simp add: seal_chunk_def retrieval_content_def Let_def)
  then show ?thesis by (simp add: validate_defs) (simp add: seal_chunk_def)
qed


definition sample_decode :: decoder where
  "sample_decode str pos = (if pos = 0 then Some (DArray 2, 7) else if pos = 1 then Some (DScalar, 3)
     else if pos = 5 then Some (DScalar, 6) else None)"

definition sample_json :: "(chunk_json_error, chunk list) result" where
  "sample_json = chunk_json sample_decode (\<lambda>_. []) (\<lambda>_. 0) (char_budget 4 99 199)
     \<lparr>cc_max_chunk = 0, cc_min_chunk = 0, cc_target_chunk = 0\<rparr> (\<lambda>_. ''d'') (\<lambda>_. ''u'') (\<lambda>_ _. ''u'') 0 ''/m/a.json''
     [91, 49, 50, 44, 32, 51, 93]"


end
