(* ===== verification/Indexing.thy ===== *)
theory Indexing
  imports Merging JsonChunks
begin

text \<open>
  From a file to the chunks that are stored (\<open>IndexEngine.chunk_content\<close> in
  \<open>indexing/engine.py\<close>): the choice of a chunker, the post-processing, and which chunks may
  later be rewritten in their source file. The chunkers behind the registry, the parsers and the
  tokenizer are parameters, and so are the masking projection and the configured roots.
\<close>

section \<open>Which chunker\<close>

record index_config = code_config +
  ic_overlap :: int
  ic_hard :: bool

record index_env =
  ie_config :: index_config
  ie_budget :: token_budget
  ie_structure :: "ustr \<Rightarrow> (symbol list \<times> nat list) option"
  ie_decode :: decoder
  ie_str_of :: "decoded \<Rightarrow> ustr"
  ie_digest8 :: "ustr \<Rightarrow> nat"
  ie_registry :: "string \<Rightarrow> ustr \<Rightarrow> chunk list"
  ie_digest :: "ustr \<Rightarrow> string"
  ie_as_tuple :: "string set \<Rightarrow> string list"
  ie_id :: "nat \<Rightarrow> string"
  ie_fragment_id :: "nat \<Rightarrow> nat \<Rightarrow> string"
  ie_merge_id :: "chunk \<Rightarrow> chunk \<Rightarrow> string"
  ie_overlap_id :: "chunk \<Rightarrow> string"
  ie_now :: int
  ie_project :: "string \<Rightarrow> ustr \<Rightarrow> ustr \<times> nat"
  ie_read_only_root :: "string \<Rightarrow> bool"

definition lower_suffix :: "string \<Rightarrow> ustr" where
  "lower_suffix path = map (\<lambda>c. if 65 \<le> c \<and> c \<le> 90 then c + 32 else c) (path_suffix (path_name path))"

definition CODE_SUFFIXES :: "ustr list" where
  "CODE_SUFFIXES = map lit [''.py'', ''.js'', ''.jsx'', ''.ts'', ''.tsx'', ''.mjs'']"

definition post_process :: "index_env \<Rightarrow> chunk list \<Rightarrow> chunk list" where
  "post_process env chunks =
     (let cfg = ie_config env;
          merged = merge_short_chunks (ie_digest env, ie_merge_id env, ie_now env, ie_as_tuple env)
            (cc_min_chunk cfg) (cc_max_chunk cfg) (cc_target_chunk cfg) chunks
      in if ic_overlap cfg > 0 then add_overlap (ie_digest env) (ie_overlap_id env) (ie_now env) (ic_overlap cfg) merged
         else merged)"

definition lift_budget :: "(budget_error, 'a) result \<Rightarrow> (chunk_json_error, 'a) result" where
  "lift_budget r = (case r of Inl e \<Rightarrow> Inl (BudgetError e) | Inr x \<Rightarrow> Inr x)"

definition chunk_projected_content :: "index_env \<Rightarrow> string \<Rightarrow> ustr \<Rightarrow> (chunk_json_error, chunk list) result" where
  "chunk_projected_content env path content =
     (let cfg = ie_config env; b = ie_budget env; ext = lower_suffix path in
      if ic_hard cfg \<and> ext \<in> set CODE_SUFFIXES
      then lift_budget (chunk_code (ie_structure env) b (code_config.truncate cfg) (ie_digest env) (ie_id env) (ie_now env) path content)
      else if ic_hard cfg \<and> ext = lit ''.json''
      then chunk_json (ie_decode env) (ie_str_of env) (ie_digest8 env) b (code_config.truncate cfg) (ie_digest env)
             (ie_id env) (ie_fragment_id env) (ie_now env) path content
      else let chunks = post_process env (ie_registry env path content)
        in if ic_hard cfg then lift_budget (bound_chunks b (ie_digest env) (ie_fragment_id env) (ie_now env) False chunks)
           else Inr chunks)"

section \<open>Masked chunks\<close>

text \<open>The note \<open>"Index masking: n source values masked."\<close>\<close>

definition masking_note :: "nat \<Rightarrow> ustr" where
  "masking_note n = lit ''Index masking: '' @ decimal n @ lit '' source values masked.''"

definition mask_chunk :: "index_env \<Rightarrow> nat \<Rightarrow> chunk \<Rightarrow> (chunk_json_error, chunk) result" where
  "mask_chunk env n c =
     (let md = ch_metadata c;
          base = (if md_retrieval_context md \<noteq> [] then md_retrieval_context md
                  else join_with hierarchy_sep (md_heading_hierarchy md));
          context = join_with [10] (filter (\<lambda>s. s \<noteq> []) [masking_note n, base]);
          masked = c\<lparr>ch_metadata := md\<lparr>md_redaction_count := int n, md_source_read_only := True\<rparr>\<rparr>
      in if ic_hard (ie_config env) then lift_budget (describe (ie_budget env) masked context)
         else Inr (with_context context masked))"

section \<open>Which chunks own their source lines\<close>

definition source_span_hash :: "(ustr \<Rightarrow> string) \<Rightarrow> ustr list \<Rightarrow> int \<Rightarrow> int \<Rightarrow> string option" where
  "source_span_hash sha256 ls start_line end_line =
     (if \<not> (1 \<le> start_line \<and> start_line \<le> end_line \<and> end_line \<le> int (length ls)) then None
      else Some (sha256 (join_with [10] (slice (nat (start_line - 1)) (nat end_line) ls))))"

definition lf_lines :: "ustr \<Rightarrow> ustr list" where
  "lf_lines s = (if s \<noteq> [] \<and> last s = 10 then butlast (split_on 10 s) else split_on 10 s)"

definition incompatible_lines :: "ustr \<Rightarrow> bool" where
  "incompatible_lines s \<longleftrightarrow> splitlines_from [] s \<noteq> lf_lines s"

abbreviation start_of :: "chunk \<Rightarrow> int" where
  "start_of c \<equiv> md_start_line (ch_metadata c)"

abbreviation end_of :: "chunk \<Rightarrow> int" where
  "end_of c \<equiv> md_end_line (ch_metadata c)"

definition placed :: "chunk \<Rightarrow> bool" where
  "placed c \<longleftrightarrow> 1 \<le> start_of c \<and> start_of c \<le> end_of c"

type_synonym line_range = "int \<times> int \<times> nat"

definition line_ranges :: "chunk list \<Rightarrow> line_range list" where
  "line_ranges chunks = sort (map (\<lambda>(i, c). (start_of c, end_of c, i)) (filter (\<lambda>(i, c). placed c) (enumerate 0 chunks)))"

text \<open>The sweep over the sorted ranges: the indices put into \<open>shared_lines\<close>.\<close>

fun shared_indices :: "int \<Rightarrow> int \<Rightarrow> line_range list \<Rightarrow> int list" where
  "shared_indices furthest_end furthest_index [] = []"
| "shared_indices furthest_end furthest_index ((start, stop, i) # rs) =
     (if start \<le> furthest_end then [furthest_index, int i] else []) @
     (if stop > furthest_end then shared_indices stop (int i) rs else shared_indices furthest_end furthest_index rs)"

definition shared_lines :: "chunk list \<Rightarrow> int list" where
  "shared_lines chunks = shared_indices 0 (- 1) (line_ranges chunks)"

definition bind_source ::
  "(ustr \<Rightarrow> string) \<Rightarrow> bool \<Rightarrow> ustr \<Rightarrow> int list \<Rightarrow> nat \<times> chunk \<Rightarrow> chunk" where
  "bind_source sha256 read_only_root original shared item =
     (let c = snd item; md = ch_metadata c;
          read_only = (md_source_read_only md \<or> md_redaction_count md \<noteq> 0 \<or> int (fst item) \<in> set shared \<or>
            incompatible_lines original \<or> read_only_root)
      in c\<lparr>ch_metadata := md\<lparr>md_source_read_only := read_only,
           md_source_span_hash := (if read_only then None
             else source_span_hash sha256 (splitlines_from [] original) (start_of c) (end_of c))\<rparr>\<rparr>)"

definition bind_sources :: "(ustr \<Rightarrow> string) \<Rightarrow> bool \<Rightarrow> ustr \<Rightarrow> chunk list \<Rightarrow> chunk list" where
  "bind_sources sha256 read_only_root original chunks =
     map (bind_source sha256 read_only_root original (shared_lines chunks)) (enumerate 0 chunks)"

fun drop_storage_key_copies :: "storage_key list \<Rightarrow> chunk list \<Rightarrow> chunk list" where
  "drop_storage_key_copies seen [] = []"
| "drop_storage_key_copies seen (c # cs) =
     (if chunk_key c \<in> set seen then drop_storage_key_copies seen cs
      else c # drop_storage_key_copies (chunk_key c # seen) cs)"

definition date_chunk :: "chunk \<Rightarrow> chunk" where
  "date_chunk c = (case md_entry_created_at (ch_metadata c) of None \<Rightarrow> c | Some t \<Rightarrow> c\<lparr>ch_created_at := t\<rparr>)"

definition chunk_content :: "index_env \<Rightarrow> (ustr \<Rightarrow> string) \<Rightarrow> string \<Rightarrow> ustr \<Rightarrow> bool \<Rightarrow> (chunk_json_error, chunk list) result" where
  "chunk_content env sha256 path content exempt =
     (let projection = (if exempt then (content, 0) else ie_project env path content) in
      bind_res (chunk_projected_content env path (fst projection)) (\<lambda>chunks.
        bind_res (if snd projection \<noteq> 0 then map_res (mask_chunk env (snd projection)) chunks else Inr chunks) (\<lambda>masked.
          Inr (map date_chunk (drop_storage_key_copies []
            (bind_sources sha256 (ie_read_only_root env path) content masked))))))"

section \<open>The sweep marks exactly the chunks that share a line\<close>

definition overlaps :: "chunk \<Rightarrow> chunk \<Rightarrow> bool" where
  "overlaps c d \<longleftrightarrow> placed c \<and> placed d \<and> start_of c \<le> end_of d \<and> start_of d \<le> end_of c"

lemma shared_indices_complete:
  "\<lbrakk>sorted (map fst rs); list_all (\<lambda>r. fst r \<le> fst (snd r)) rs\<rbrakk> \<Longrightarrow>
   (\<forall>r \<in> set rs. fst r \<le> fe \<longrightarrow> {fi, int (snd (snd r))} \<subseteq> set (shared_indices fe fi rs)) \<and>
   sorted_wrt (\<lambda>a b. fst b \<le> fst (snd a) \<longrightarrow>
     {int (snd (snd a)), int (snd (snd b))} \<subseteq> set (shared_indices fe fi rs)) rs"
proof (induction fe fi rs rule: shared_indices.induct)
  case (2 fe fi start stop i rs)
  have rs: "sorted (map fst rs)" "list_all (\<lambda>r. fst r \<le> fst (snd r)) rs" "start \<le> stop"
    "\<forall>r \<in> set rs. start \<le> fst r"
    using 2(3,4) by auto
  show ?case
  proof (cases "stop > fe")
    case True
    note IH = 2(1)[OF True rs(1,2)]
    from IH have pairs: "sorted_wrt (\<lambda>a b. fst b \<le> fst (snd a) \<longrightarrow>
        {int (snd (snd a)), int (snd (snd b))} \<subseteq> set (shared_indices fe fi ((start, stop, i) # rs))) rs"
      by (auto simp: True intro: sorted_wrt_mono_rel[rotated])
    with IH True rs(4) show ?thesis by fastforce
  next
    case False
    note IH = 2(2)[OF False rs(1,2)]
    from IH have pairs: "sorted_wrt (\<lambda>a b. fst b \<le> fst (snd a) \<longrightarrow>
        {int (snd (snd a)), int (snd (snd b))} \<subseteq> set (shared_indices fe fi ((start, stop, i) # rs))) rs"
      by (auto simp: False intro: sorted_wrt_mono_rel[rotated])
    with IH False rs(3,4) show ?thesis by fastforce
  qed
qed simp

text \<open>Of two ranges in order that meet, \<open>x\<close> is the index of one.\<close>

definition meets :: "line_range list \<Rightarrow> int \<Rightarrow> bool" where
  "meets rs x \<longleftrightarrow> (\<exists>xs a ys b zs. rs = xs @ a # ys @ b # zs \<and> fst b \<le> fst (snd a) \<and>
     (x = int (snd (snd a)) \<or> x = int (snd (snd b))))"

lemma meets_Cons: "meets rs x \<Longrightarrow> meets (r # rs) x"
  unfolding meets_def by (metis append_Cons)

lemma meets_first:
  assumes "b \<in> set rs" and "fst b \<le> fst (snd a)" and "x = int (snd (snd a)) \<or> x = int (snd (snd b))"
  shows "meets (a # rs) x"
proof -
  obtain ys zs where "rs = ys @ b # zs" using split_list[OF assms(1)] by blast
  then have "a # rs = [] @ a # ys @ b # zs" by simp
  with assms(2,3) show ?thesis unfolding meets_def by blast
qed

lemma shared_indices_sound:
  "x \<in> set (shared_indices fe fi rs) \<Longrightarrow>
   (\<exists>r \<in> set rs. fst r \<le> fe \<and> (x = fi \<or> x = int (snd (snd r)))) \<or> meets rs x"
proof (induction fe fi rs rule: shared_indices.induct)
  case (2 fe fi start stop i rs)
  let ?r = "(start, stop, i)"
  show ?case
  proof (cases "start \<le> fe \<and> (x = fi \<or> x = int i)")
    case True
    then show ?thesis by auto
  next
    case False
    show ?thesis
    proof (cases "stop > fe")
      case True
      with False 2(3) have "x \<in> set (shared_indices stop (int i) rs)" by (auto split: if_splits)
      from 2(1)[OF True this] show ?thesis using meets_Cons meets_first[of _ rs ?r x] by fastforce
    next
      case le: False
      with False 2(3) have "x \<in> set (shared_indices fe fi rs)" by (auto split: if_splits)
      from 2(2)[OF le this] show ?thesis using meets_Cons by auto
    qed
  qed
qed simp

lemma line_ranges_facts:
  "sorted (map fst (line_ranges cs))" "list_all (\<lambda>r. fst r \<le> fst (snd r)) (line_ranges cs)"
  "set (line_ranges cs) = {(start_of (cs ! i), end_of (cs ! i), i) |i. i < length cs \<and> placed (cs ! i)}"
  "distinct (line_ranges cs)"
proof -
  show set: "set (line_ranges cs) = {(start_of (cs ! i), end_of (cs ! i), i) |i. i < length cs \<and> placed (cs ! i)}"
  proof -
    have "set (filter (\<lambda>(i, c). placed c) (enumerate 0 cs)) = (\<lambda>i. (i, cs ! i)) ` {i. i < length cs \<and> placed (cs ! i)}"
      by (auto simp: in_set_enumerate_eq)
    then have "set (line_ranges cs) = (\<lambda>i. (start_of (cs ! i), end_of (cs ! i), i)) ` {i. i < length cs \<and> placed (cs ! i)}"
      unfolding line_ranges_def set_sort set_map by (simp only: image_image split_conv)
    then show ?thesis by blast
  qed
  show "list_all (\<lambda>r. fst r \<le> fst (snd r)) (line_ranges cs)"
    unfolding list_all_iff set by (auto simp: placed_def)
  have "sorted (line_ranges cs)" by (simp add: line_ranges_def)
  then show "sorted (map fst (line_ranges cs))"
    by (auto simp: sorted_wrt_map less_eq_prod_def elim!: sorted_wrt_mono_rel[rotated])
  have "distinct (map fst (filter (\<lambda>(i, c). placed c) (enumerate 0 cs)))"
    by (simp add: distinct_map_filter)
  then show "distinct (line_ranges cs)"
    by (auto simp: line_ranges_def distinct_map inj_on_def)
qed

lemma shared_lines_iff:
  assumes "i < length cs"
  shows "int i \<in> set (shared_lines cs) \<longleftrightarrow> (\<exists>j < length cs. j \<noteq> i \<and> overlaps (cs ! i) (cs ! j))"
proof
  note facts = line_ranges_facts[of cs]
  let ?rs = "line_ranges cs"
  assume "int i \<in> set (shared_lines cs)"
  then have x: "int i \<in> set (shared_indices 0 (- 1) ?rs)" by (simp add: shared_lines_def)
  have "\<not> (\<exists>r \<in> set ?rs. fst r \<le> 0 \<and> (int i = - 1 \<or> int i = int (snd (snd r))))"
    unfolding facts(3) by (auto simp: placed_def)
  with shared_indices_sound[OF x] obtain xs a ys b zs where
    rs: "?rs = xs @ a # ys @ b # zs" and le: "fst b \<le> fst (snd a)" and i: "i = snd (snd a) \<or> i = snd (snd b)"
    by (auto simp: meets_def)
  have "a \<noteq> b" "fst a \<le> fst b" using facts(1,4) unfolding rs by (auto simp: sorted_append)
  moreover have mem: "a \<in> set ?rs" "b \<in> set ?rs" by (simp_all add: rs)
  moreover obtain ja where a: "a = (start_of (cs ! ja), end_of (cs ! ja), ja)" "ja < length cs" "placed (cs ! ja)"
    using mem(1) unfolding facts(3) by blast
  moreover obtain jb where b: "b = (start_of (cs ! jb), end_of (cs ! jb), jb)" "jb < length cs" "placed (cs ! jb)"
    using mem(2) unfolding facts(3) by blast
  ultimately show "\<exists>j < length cs. j \<noteq> i \<and> overlaps (cs ! i) (cs ! j)"
    using le i by (cases "i = ja") (auto simp: overlaps_def placed_def)
next
  note facts = line_ranges_facts[of cs]
  let ?rs = "line_ranges cs"
  assume "\<exists>j < length cs. j \<noteq> i \<and> overlaps (cs ! i) (cs ! j)"
  then obtain j where j: "j < length cs" "j \<noteq> i" "overlaps (cs ! i) (cs ! j)" by blast
  let ?a = "(start_of (cs ! i), end_of (cs ! i), i)" and ?b = "(start_of (cs ! j), end_of (cs ! j), j)"
  have "?a \<in> set ?rs" "?b \<in> set ?rs" using assms j unfolding facts(3) by (auto simp: overlaps_def)
  then obtain m n where m: "m < length ?rs" "?rs ! m = ?a" and n: "n < length ?rs" "?rs ! n = ?b"
    by (meson in_set_conv_nth)
  have pairs: "sorted_wrt (\<lambda>a b. fst b \<le> fst (snd a) \<longrightarrow> {int (snd (snd a)), int (snd (snd b))} \<subseteq> set (shared_lines cs)) ?rs"
    using shared_indices_complete[OF facts(1,2), of 0 "- 1"] by (simp add: shared_lines_def)
  have "m \<noteq> n" using m n j(2) by auto
  then consider "m < n" | "n < m" by linarith
  then show "int i \<in> set (shared_lines cs)"
    using sorted_wrt_nth_less[OF pairs, of m n] sorted_wrt_nth_less[OF pairs, of n m] m n j(3)
    by cases (auto simp: overlaps_def)
qed

section \<open>Writable chunks own their lines alone\<close>

lemma drop_storage_key_copies_ok:
  "subseq (drop_storage_key_copies seen cs) cs \<and> distinct (map chunk_key (drop_storage_key_copies seen cs)) \<and>
   chunk_key ` set (drop_storage_key_copies seen cs) \<inter> set seen = {}"
  by (induction seen cs rule: drop_storage_key_copies.induct) auto

lemma sorted_wrt_subseq: "subseq xs ys \<Longrightarrow> sorted_wrt P ys \<Longrightarrow> sorted_wrt P xs"
proof (induction rule: list_emb.induct)
  case (list_emb_Cons2 x y xs ys)
  then show ?case using list_emb_set[OF list_emb_Cons2(2)] by fastforce
qed simp_all

abbreviation read_only :: "chunk \<Rightarrow> bool" where
  "read_only c \<equiv> md_source_read_only (ch_metadata c)"

definition source_bound :: "index_env \<Rightarrow> (ustr \<Rightarrow> string) \<Rightarrow> string \<Rightarrow> ustr \<Rightarrow> chunk \<Rightarrow> bool" where
  "source_bound env sha256 path content c \<longleftrightarrow>
     (if read_only c then md_source_span_hash (ch_metadata c) = None
      else md_redaction_count (ch_metadata c) = 0 \<and> \<not> ie_read_only_root env path \<and>
        splitlines_from [] content = lf_lines content \<and>
        md_source_span_hash (ch_metadata c) = source_span_hash sha256 (splitlines_from [] content) (start_of c) (end_of c))"

lemma bind_sources_exclusive:
  "sorted_wrt (\<lambda>c d. overlaps c d \<longrightarrow> read_only c \<and> read_only d) (bind_sources sha256 guarded content cs)"
proof -
  let ?bs = "bind_sources sha256 guarded content cs"
  have len: "length ?bs = length cs" by (simp add: bind_sources_def)
  have at: "?bs ! i = bind_source sha256 guarded content (shared_lines cs) (i, cs ! i)" if "i < length cs" for i
    using that by (simp add: bind_sources_def nth_enumerate_eq)
  have "read_only (?bs ! i) \<and> read_only (?bs ! j)" if "i < j" "j < length cs" "overlaps (?bs ! i) (?bs ! j)" for i j
  proof -
    have meet: "overlaps (cs ! i) (cs ! j)" "overlaps (cs ! j) (cs ! i)"
      using that by (auto simp: at bind_source_def Let_def overlaps_def placed_def)
    have i: "i < length cs" and ne: "j \<noteq> i" "i \<noteq> j" using that(1,2) by simp_all
    have "int i \<in> set (shared_lines cs)" "int j \<in> set (shared_lines cs)"
      unfolding shared_lines_iff[OF i] shared_lines_iff[OF that(2)] using meet i that(2) ne by blast+
    with that(1,2) show ?thesis by (simp add: at bind_source_def Let_def)
  qed
  then show ?thesis unfolding sorted_wrt_iff_nth_less len by blast
qed

lemma bind_sources_bound: "list_all (source_bound env sha256 path content) (bind_sources sha256 (ie_read_only_root env path) content cs)"
  by (auto simp: bind_sources_def bind_source_def Let_def list_all_iff source_bound_def incompatible_lines_def)

lemma date_chunk_simps [simp]: "ch_metadata (date_chunk c) = ch_metadata c" "chunk_key (date_chunk c) = chunk_key c"
  by (simp_all add: date_chunk_def chunk_key_def split: option.split)

lemma source_bound_date [simp]: "source_bound env sha256 path content (date_chunk c) = source_bound env sha256 path content c"
  by (simp add: source_bound_def)

lemma overlaps_date [simp]: "overlaps (date_chunk c) (date_chunk d) = overlaps c d"
  by (simp add: overlaps_def placed_def)

text \<open>
  C16. A chunk that may be rewritten in its file owns its lines alone: of two chunks with a line
  in common both are read-only; a writable chunk comes from an unmasked text outside every
  read-only root whose lines the writer splits the same way, and carries the digest of exactly
  its lines; a read-only one carries none; and no storage key is taken twice.
\<close>

theorem writable_chunks_exclusive:
  assumes "chunk_content env sha256 path content exempt = Inr out"
  shows "sorted_wrt (\<lambda>c d. overlaps c d \<longrightarrow> read_only c \<and> read_only d) out \<and>
    list_all (source_bound env sha256 path content) out \<and> distinct (map chunk_key out)"
proof -
  obtain cs where out: "out = map date_chunk (drop_storage_key_copies [] (bind_sources sha256 (ie_read_only_root env path) content cs))"
    using assms by (auto simp: chunk_content_def Let_def bind_res_Inr_conv)
  let ?bs = "bind_sources sha256 (ie_read_only_root env path) content cs"
  let ?kept = "drop_storage_key_copies [] ?bs"
  have kept: "subseq ?kept ?bs" "distinct (map chunk_key ?kept)" using drop_storage_key_copies_ok[of "[]" ?bs] by simp_all
  have "sorted_wrt (\<lambda>c d. overlaps c d \<longrightarrow> read_only c \<and> read_only d) ?kept"
    by (rule sorted_wrt_subseq[OF kept(1) bind_sources_exclusive])
  moreover have "list_all (source_bound env sha256 path content) ?kept"
    using bind_sources_bound[of env sha256 path content cs] list_emb_set[OF kept(1)] by (fastforce simp: list_all_iff)
  ultimately show ?thesis using kept(2) by (simp add: out sorted_wrt_map list.pred_map comp_def)
qed

definition sample_index :: index_env where
  "sample_index = \<lparr>ie_config = \<lparr>cc_max_chunk = 100, cc_min_chunk = 0, cc_target_chunk = 0, ic_overlap = 0, ic_hard = False\<rparr>,
     ie_budget = char_budget 9 9 9, ie_structure = (\<lambda>_. None), ie_decode = sample_decode, ie_str_of = (\<lambda>_. []),
     ie_digest8 = length, ie_registry = (\<lambda>_ _. [sample_section [''## T''] 1 [97], sample_section [''## T''] 1 [97, 98],
       sample_section [''## U''] 2 [99]]), ie_digest = (\<lambda>_. ''d''), ie_as_tuple = (\<lambda>_. []), ie_id = (\<lambda>_. ''u''),
     ie_fragment_id = (\<lambda>_ _. ''u''), ie_merge_id = (\<lambda>_ _. ''u''), ie_overlap_id = (\<lambda>_. ''u''), ie_now = 0,
     ie_project = (\<lambda>_ s. (s, 0)), ie_read_only_root = (\<lambda>_. False)\<rparr>"

definition sample_indexed :: "(chunk_json_error, chunk list) result" where
  "sample_indexed = chunk_content sample_index (\<lambda>s. map (\<lambda>_. CHR ''x'') s) ''/m/a.md'' [97, 98, 10, 99] False"

theorem writable_chunks_exclusive_witness:
  "case sample_indexed of Inl _ \<Rightarrow> False
   | Inr out \<Rightarrow> map (\<lambda>c. (read_only c, md_source_span_hash (ch_metadata c))) out = [(True, None), (False, Some ''x'')] \<and>
       sorted_wrt (\<lambda>c d. overlaps c d \<longrightarrow> read_only c \<and> read_only d) out"
proof -
  have run: "case sample_indexed of Inl _ \<Rightarrow> False
   | Inr out \<Rightarrow> map (\<lambda>c. (read_only c, md_source_span_hash (ch_metadata c))) out = [(True, None), (False, Some ''x'')]"
    by code_simp
  then obtain out where out: "sample_indexed = Inr out" by (auto split: sum.splits)
  show ?thesis using run writable_chunks_exclusive[OF out[unfolded sample_indexed_def]] unfolding out sum.case by blast
qed

end
