(* ===== verification/Versions.thy ===== *)
theory Versions
  imports Json "HOL-Library.List_Lexorder" "HOL-Library.Char_ord"
begin

text \<open>
  The version store of a context artifact (\<open>context/versioning.py\<close>): immutable snapshots under
  \<open>versions/\<close>, a manifest \<open>versions.json\<close> with labels, and what a crash between two writes can
  leave. An operation runs alone under the sidecar lock; it is the list of atomic effects it has
  on the directory, so a crash is a prefix of that list. \<open>shown\<close> is \<open>str\<close> of a JSON value that
  is not a string; the manifest is the document \<open>json\<close> reads back from what it wrote.
\<close>

section \<open>Tags\<close>

datatype version_error = NotFound | LabelMissing | ReservedName | BadLabel | BadTag | NewerSchema
  | DirMissing | WrongLayout | Malformed | NotUtf8 | BadPath

definition is_digit :: "char \<Rightarrow> bool" where
  "is_digit c \<longleftrightarrow> 48 \<le> (of_char c :: nat) \<and> (of_char c :: nat) \<le> 57"

definition valid_tag :: "string \<Rightarrow> bool" where
  "valid_tag t \<longleftrightarrow> (case t of v # d # ds \<Rightarrow> v = CHR ''v'' \<and> is_digit d \<and> d \<noteq> CHR ''0'' \<and> list_all is_digit ds | _ \<Rightarrow> False)"

definition validate_tag :: "string \<Rightarrow> (version_error, string) result" where
  "validate_tag t = (if valid_tag t then Inr t else Inl BadTag)"

definition tag_num :: "string \<Rightarrow> nat" where
  "tag_num t = foldl (\<lambda>n c. 10 * n + (of_char c - 48)) 0 (tl t)"

fun show_nat :: "nat \<Rightarrow> string" where
  "show_nat n = (if n < 10 then [char_of (48 + n)] else show_nat (n div 10) @ [char_of (48 + n mod 10)])"

declare show_nat.simps [simp del]

definition mk_tag :: "nat \<Rightarrow> string" where
  "mk_tag n = CHR ''v'' # show_nat n"

definition RESERVED_LABELS :: "string list" where
  "RESERVED_LABELS = [''latest'']"

definition validate_label_name :: "string \<Rightarrow> (version_error, string) result" where
  "validate_label_name label =
     (if label \<in> set RESERVED_LABELS then Inl ReservedName
      else if valid_tag label then Inl BadLabel else Inr label)"

section \<open>The manifest\<close>

datatype version_layout = FileLayout | TreeLayout

record version_record =
  vr_tag :: string
  vr_created :: string
  vr_note :: string
  vr_layout :: version_layout
  vr_extra :: "(string \<times> json) list"

record versions_manifest =
  vm_versions :: "(string, version_record) odict"
  vm_labels :: "(string, string) odict"
  vm_schema :: int
  vm_extra :: "(string \<times> json) list"

definition SCHEMA_VERSION :: int where "SCHEMA_VERSION = 2"

definition KNOWN_TOP_KEYS :: "string list" where
  "KNOWN_TOP_KEYS = [''schema_version'', ''versions'', ''labels'']"

definition KNOWN_ENTRY_KEYS :: "string list" where
  "KNOWN_ENTRY_KEYS = [''created_at'', ''note'', ''layout'']"

definition unknown_keys :: "string list \<Rightarrow> (string \<times> json) list \<Rightarrow> (string \<times> json) list" where
  "unknown_keys known d = filter (\<lambda>p. fst p \<notin> set known) d"

definition required_schema_version :: "versions_manifest \<Rightarrow> int" where
  "required_schema_version m = (if list_ex (\<lambda>p. vr_layout (snd p) = TreeLayout) (vm_versions m) then 2 else 1)"

fun validate_schema_version :: "json \<Rightarrow> (version_error, int) result" where
  "validate_schema_version JNull = Inr 1"
| "validate_schema_version (JInt v) =
     (if v < 1 then Inl Malformed else if v > SCHEMA_VERSION then Inl NewerSchema else Inr v)"
| "validate_schema_version _ = Inl Malformed"

text \<open>A member that is missing or null reads as an empty object.\<close>

fun object_or_empty :: "json \<Rightarrow> (version_error, (string \<times> json) list) result" where
  "object_or_empty JNull = Inr []"
| "object_or_empty (JObj d) = Inr d"
| "object_or_empty _ = Inl Malformed"

definition py_text :: "(json \<Rightarrow> string) \<Rightarrow> json \<Rightarrow> string" where
  "py_text shown j = (case j of JStr s \<Rightarrow> s | _ \<Rightarrow> shown j)"

definition parse_layout :: "json \<Rightarrow> (version_error, version_layout) result" where
  "parse_layout j = (case j of JStr s \<Rightarrow>
       if s = ''tree'' then Inr TreeLayout else if s = ''file'' then Inr FileLayout else Inl Malformed
     | _ \<Rightarrow> Inl Malformed)"

definition parse_entry :: "(json \<Rightarrow> string) \<Rightarrow> string \<times> json \<Rightarrow> (version_error, string \<times> version_record) result" where
  "parse_entry shown e =
     bind_res (validate_tag (fst e)) (\<lambda>tag.
       let meta = (case snd e of JObj d \<Rightarrow> d | _ \<Rightarrow> []) in
       bind_res (parse_layout (j_get_or meta ''layout'' (JStr ''file''))) (\<lambda>layout.
         Inr (tag, \<lparr>vr_tag = tag, vr_created = py_text shown (j_get_or meta ''created_at'' (JStr [])),
           vr_note = py_text shown (j_get_or meta ''note'' (JStr [])), vr_layout = layout,
           vr_extra = unknown_keys KNOWN_ENTRY_KEYS meta\<rparr>)))"

definition parse_label :: "(json \<Rightarrow> string) \<Rightarrow> string \<times> json \<Rightarrow> (version_error, string \<times> string) result" where
  "parse_label shown e =
     bind_res (validate_label_name (fst e)) (\<lambda>label.
       bind_res (validate_tag (py_text shown (snd e))) (\<lambda>tag. Inr (label, tag)))"

text \<open>What is at the path of the manifest.\<close>

datatype manifest_file = Missing | Unreadable | BadUtf8 | NotJson | Doc json

definition parse_manifest :: "(json \<Rightarrow> string) \<Rightarrow> (string \<times> json) list \<Rightarrow> (version_error, versions_manifest) result" where
  "parse_manifest shown raw =
     bind_res (validate_schema_version (j_get raw ''schema_version'')) (\<lambda>schema.
       bind_res (object_or_empty (j_get raw ''versions'')) (\<lambda>raw_versions.
         bind_res (object_or_empty (j_get raw ''labels'')) (\<lambda>raw_labels.
           bind_res (map_res (parse_entry shown) raw_versions) (\<lambda>versions.
             bind_res (map_res (parse_label shown) raw_labels) (\<lambda>labels.
               let m = \<lparr>vm_versions = versions, vm_labels = labels, vm_schema = schema,
                     vm_extra = unknown_keys KNOWN_TOP_KEYS raw\<rparr>
               in if schema < required_schema_version m then Inl Malformed else Inr m)))))"

definition load_manifest :: "(json \<Rightarrow> string) \<Rightarrow> manifest_file \<Rightarrow> (version_error, versions_manifest) result" where
  "load_manifest shown f =
     (case f of
        Missing \<Rightarrow> Inr \<lparr>vm_versions = [], vm_labels = [], vm_schema = 1, vm_extra = []\<rparr>
      | Unreadable \<Rightarrow> Inl Malformed
      | NotJson \<Rightarrow> Inl Malformed
      | BadUtf8 \<Rightarrow> Inl NotUtf8
      | Doc j \<Rightarrow> (case j of JObj raw \<Rightarrow> parse_manifest shown raw | _ \<Rightarrow> Inl Malformed))"

definition entry_payload :: "version_record \<Rightarrow> json" where
  "entry_payload r = JObj ([(''created_at'', JStr (vr_created r)), (''note'', JStr (vr_note r))] @
     (if vr_layout r = TreeLayout then [(''layout'', JStr ''tree'')] else []) @
     unknown_keys KNOWN_ENTRY_KEYS (sort_key fst (vr_extra r)))"

definition manifest_payload :: "versions_manifest \<Rightarrow> json" where
  "manifest_payload m = JObj ([(''schema_version'', JInt (required_schema_version m)),
     (''versions'', JObj (map (\<lambda>(t, r). (t, entry_payload r)) (sort_key (\<lambda>p. tag_num (fst p)) (vm_versions m)))),
     (''labels'', JObj (map (\<lambda>(l, t). (l, JStr t)) (sort_key fst (vm_labels m))))] @
     unknown_keys KNOWN_TOP_KEYS (sort_key fst (vm_extra m)))"

section \<open>The directory and the effects on it\<close>

datatype stored_snapshot = FileSnap ustr | TreeSnap "(string, ustr) odict"

record version_store =
  vs_dir :: bool
  vs_manifest :: manifest_file
  vs_entries :: "(string, stored_snapshot) odict"

datatype effect = PutFile string ustr | MakeDir string | StageFile string string ustr
  | Promote string string | Discard string | PutManifest json

text \<open>\<open>Promote\<close> is the exclusive rename: it never replaces what is at the target.\<close>

fun apply_effect :: "version_store \<Rightarrow> effect \<Rightarrow> version_store" where
  "apply_effect st (PutFile name bytes) = st\<lparr>vs_entries := od_set name (FileSnap bytes) (vs_entries st)\<rparr>"
| "apply_effect st (MakeDir name) =
     (if map_of (vs_entries st) name = None then st\<lparr>vs_entries := od_set name (TreeSnap []) (vs_entries st)\<rparr> else st)"
| "apply_effect st (StageFile name rel bytes) =
     (case map_of (vs_entries st) name of
        Some (TreeSnap t) \<Rightarrow> st\<lparr>vs_entries := od_set name (TreeSnap (od_set rel bytes t)) (vs_entries st)\<rparr>
      | _ \<Rightarrow> st)"
| "apply_effect st (Promote name target) =
     (case (map_of (vs_entries st) name, map_of (vs_entries st) target) of
        (Some s, None) \<Rightarrow> st\<lparr>vs_entries := od_set target s (od_del name (vs_entries st))\<rparr>
      | _ \<Rightarrow> st)"
| "apply_effect st (Discard name) = st\<lparr>vs_entries := od_del name (vs_entries st)\<rparr>"
| "apply_effect st (PutManifest j) = st\<lparr>vs_manifest := Doc j\<rparr>"

definition apply_effects :: "version_store \<Rightarrow> effect list \<Rightarrow> version_store" where
  "apply_effects = foldl apply_effect"

section \<open>Allocating a tag\<close>

definition md_file :: "string \<Rightarrow> string" where
  "md_file tag = tag @ ''.md''"

definition entry_stem :: "string \<Rightarrow> string" where
  "entry_stem name = (if drop (length name - 3) name = ''.md'' then take (length name - 3) name else name)"

definition next_version_tag :: "versions_manifest \<Rightarrow> string" where
  "next_version_tag m = (case map (tag_num \<circ> fst) (vm_versions m) of [] \<Rightarrow> mk_tag 1 | nums \<Rightarrow> mk_tag (Max (set nums) + 1))"

definition next_tag_reconciled :: "(string, stored_snapshot) odict \<Rightarrow> versions_manifest \<Rightarrow> string" where
  "next_tag_reconciled entries m =
     (case map (tag_num \<circ> fst) (vm_versions m) @ map tag_num (filter valid_tag (map (entry_stem \<circ> fst) entries)) of
        [] \<Rightarrow> mk_tag 1
      | nums \<Rightarrow> mk_tag (Max (set nums) + 1))"

definition with_version :: "version_record \<Rightarrow> versions_manifest \<Rightarrow> versions_manifest" where
  "with_version r m = m\<lparr>vm_versions := od_set (vr_tag r) r (vm_versions m)\<rparr>"

section \<open>Creating a version\<close>

definition new_record :: "string \<Rightarrow> string \<Rightarrow> string \<Rightarrow> version_layout \<Rightarrow> version_record" where
  "new_record tag now note layout = \<lparr>vr_tag = tag, vr_created = now, vr_note = note, vr_layout = layout, vr_extra = []\<rparr>"

type_synonym 'a effectful = "(version_error, 'a) result \<times> effect list"

text \<open>\<open>source\<close> is what the caller read, or the working file: None when that cannot be read.\<close>

definition create_version ::
  "(json \<Rightarrow> string) \<Rightarrow> ustr option \<Rightarrow> string \<Rightarrow> string \<Rightarrow> version_store \<Rightarrow> version_record effectful" where
  "create_version shown source note now st =
     (if \<not> vs_dir st then (Inl DirMissing, [])
      else case source of
          None \<Rightarrow> (Inl Malformed, [])
        | Some bytes \<Rightarrow>
            (case load_manifest shown (vs_manifest st) of
               Inl e \<Rightarrow> (Inl e, [])
             | Inr m \<Rightarrow>
                 (let tag = next_tag_reconciled (vs_entries st) m; r = new_record tag now note FileLayout
                  in if map_of (vs_entries st) (md_file tag) \<noteq> None then (Inl BadTag, [])
                     else (Inr r, [PutFile (md_file tag) bytes, PutManifest (manifest_payload (with_version r m))]))))"

text \<open>A payload path: canonical, relative, without anything Windows or POSIX would reinterpret.\<close>

definition posix_parts :: "string \<Rightarrow> string list" where
  "posix_parts rel = filter (\<lambda>p. p \<noteq> [] \<and> p \<noteq> ''.'') (split_on (CHR ''/'') rel)"

definition valid_relpath :: "string \<Rightarrow> bool" where
  "valid_relpath rel \<longleftrightarrow> rel \<noteq> [] \<and> char_of (0::nat) \<notin> set rel \<and> char_of (92::nat) \<notin> set rel \<and>
     hd rel \<noteq> CHR ''/'' \<and> posix_parts rel \<noteq> [] \<and> ''..'' \<notin> set (posix_parts rel) \<and>
     list_all (\<lambda>p. CHR '':'' \<notin> set p) (posix_parts rel) \<and> join_with ''/'' (posix_parts rel) = rel"

definition VERSIONS_DIRNAME :: string where "VERSIONS_DIRNAME = ''versions''"
definition MANIFEST_FILENAME :: string where "MANIFEST_FILENAME = ''versions.json''"

text \<open>The guard against a snapshot of the version store itself.\<close>

definition validate_tree_payload :: "(string \<times> ustr) list \<Rightarrow> bool" where
  "validate_tree_payload payload \<longleftrightarrow> payload \<noteq> [] \<and>
     list_all (\<lambda>p. hd (split_on (CHR ''/'') (fst p)) \<notin> {VERSIONS_DIRNAME, MANIFEST_FILENAME}) payload"

text \<open>\<open>.staging-<owner>-<pid>-<six hex digits>.tmp\<close>, among the names the glob \<open>.staging-v*.tmp\<close> lists.\<close>

definition is_hex :: "char \<Rightarrow> bool" where
  "is_hex c \<longleftrightarrow> is_digit c \<or> (97 \<le> (of_char c :: nat) \<and> (of_char c :: nat) \<le> 102)"

definition is_staging :: "string \<Rightarrow> bool" where
  "is_staging name \<longleftrightarrow> take 9 name = ''.staging-'' \<and> length name \<ge> 13 \<and> drop (length name - 4) name = ''.tmp'' \<and>
     (case rev (split_on (CHR ''-'') (take (length name - 13) (drop 9 name))) of
        hex # pid # owner \<Rightarrow> length hex = 6 \<and> list_all is_hex hex \<and> pid \<noteq> [] \<and> list_all is_digit pid \<and>
          join_with ''-'' (rev owner) \<noteq> []
      | _ \<Rightarrow> False)"

definition reap_names :: "version_store \<Rightarrow> string list" where
  "reap_names st = filter (\<lambda>n. take 10 n = ''.staging-v'' \<and> drop (length n - 4) n = ''.tmp'' \<and> is_staging n) (map fst (vs_entries st))"

text \<open>
  \<open>aliased\<close>: a case variant of a reserved name is the same directory entry. \<open>misspelt\<close>: the
  manifest did not land under its own name and could not be repaired. \<open>pid\<close> and \<open>hex\<close> are the
  process id and the random digits in the name of the staging directory.
\<close>

definition staging_name :: "string \<Rightarrow> string \<Rightarrow> string \<Rightarrow> string" where
  "staging_name pid hex tag = ''.staging-'' @ tag @ ''-'' @ pid @ ''-'' @ hex @ ''.tmp''"

definition create_tree_version ::
  "(json \<Rightarrow> string) \<Rightarrow> string \<times> string \<Rightarrow> bool \<Rightarrow> bool \<Rightarrow> (string \<times> ustr) list \<Rightarrow> string \<Rightarrow> string
    \<Rightarrow> version_store \<Rightarrow> version_record effectful" where
  "create_tree_version shown suffix aliased misspelt payload note now st =
     (if \<not> vs_dir st then (Inl DirMissing, [])
      else if \<not> validate_tree_payload payload then (Inl Malformed, [])
      else if aliased then (Inl Malformed, [])
      else let reaped = map Discard (reap_names st); clean = apply_effects st reaped;
               staging = (\<lambda>tag. staging_name (fst suffix) (snd suffix) tag) in
        case load_manifest shown (vs_manifest st) of
          Inl e \<Rightarrow> (Inl e, reaped)
        | Inr m \<Rightarrow>
            (let tag = next_tag_reconciled (vs_entries clean) m; r = new_record tag now note TreeLayout
             in if map_of (vs_entries clean) tag \<noteq> None then (Inl BadTag, reaped)
                else if \<not> list_all (\<lambda>p. valid_relpath (fst p)) payload \<or> \<not> distinct (map fst payload)
                then (Inl BadPath, reaped)
                else (if misspelt then Inl Malformed else Inr r,
                  reaped @ [MakeDir (staging tag)] @ map (\<lambda>p. StageFile (staging tag) (fst p) (snd p)) payload @
                  [Promote (staging tag) tag, PutManifest (manifest_payload (with_version r m))])))"

section \<open>Labels and resolution\<close>

definition promote_label :: "(json \<Rightarrow> string) \<Rightarrow> string \<Rightarrow> string \<Rightarrow> version_store \<Rightarrow> unit effectful" where
  "promote_label shown label version st =
     (case bind_res (validate_label_name label) (\<lambda>_. bind_res (validate_tag version) (\<lambda>_. load_manifest shown (vs_manifest st))) of
        Inl e \<Rightarrow> (Inl e, [])
      | Inr m \<Rightarrow>
          (case map_of (vm_versions m) version of
             None \<Rightarrow> (Inl NotFound, [])
           | Some r \<Rightarrow>
               if vr_layout r = TreeLayout then (Inl WrongLayout, [])
               else (Inr (), [PutManifest (manifest_payload (m\<lparr>vm_labels := od_set label version (vm_labels m)\<rparr>))])))"

definition delete_label :: "(json \<Rightarrow> string) \<Rightarrow> string \<Rightarrow> version_store \<Rightarrow> unit effectful" where
  "delete_label shown label st =
     (if label \<in> set RESERVED_LABELS then (Inl ReservedName, [])
      else case load_manifest shown (vs_manifest st) of
          Inl e \<Rightarrow> (Inl e, [])
        | Inr m \<Rightarrow>
            if map_of (vm_labels m) label \<noteq> None
            then (Inr (), [PutManifest (manifest_payload (m\<lparr>vm_labels := od_del label (vm_labels m)\<rparr>))])
            else (Inr (), []))"

definition resolve_version :: "(json \<Rightarrow> string) \<Rightarrow> string \<Rightarrow> version_store \<Rightarrow> (version_error, ustr) result" where
  "resolve_version shown tag st =
     bind_res (validate_tag tag) (\<lambda>_. bind_res (load_manifest shown (vs_manifest st)) (\<lambda>m.
       case map_of (vm_versions m) tag of
         None \<Rightarrow> Inl NotFound
       | Some r \<Rightarrow>
           if vr_layout r = TreeLayout then Inl WrongLayout
           else case map_of (vs_entries st) (md_file tag) of
               Some (FileSnap bytes) \<Rightarrow> Inr bytes
             | _ \<Rightarrow> Inl NotFound))"

definition resolve_version_tree ::
  "(json \<Rightarrow> string) \<Rightarrow> string \<Rightarrow> version_store \<Rightarrow> (version_error, (string, ustr) odict) result" where
  "resolve_version_tree shown tag st =
     bind_res (validate_tag tag) (\<lambda>_. bind_res (load_manifest shown (vs_manifest st)) (\<lambda>m.
       case map_of (vm_versions m) tag of
         None \<Rightarrow> Inl NotFound
       | Some r \<Rightarrow>
           if vr_layout r \<noteq> TreeLayout then Inl WrongLayout
           else case map_of (vs_entries st) tag of
               Some (TreeSnap files) \<Rightarrow> Inr files
             | _ \<Rightarrow> Inl NotFound))"

definition resolve_label :: "(json \<Rightarrow> string) \<Rightarrow> string \<Rightarrow> version_store \<Rightarrow> (version_error, ustr) result" where
  "resolve_label shown label st =
     (if label \<in> set RESERVED_LABELS then Inl ReservedName
      else bind_res (load_manifest shown (vs_manifest st)) (\<lambda>m.
        case map_of (vm_labels m) label of
          None \<Rightarrow> Inl LabelMissing
        | Some tag \<Rightarrow> resolve_version shown tag st))"

text \<open>The bytes a labelled sync deploys; \<open>flat\<close> is the layout without a directory.\<close>

definition label_resolver :: "(json \<Rightarrow> string) \<Rightarrow> string \<Rightarrow> bool \<Rightarrow> version_store \<Rightarrow> (version_error, ustr) result" where
  "label_resolver shown label flat st =
     (if flat then Inl DirMissing
      else if valid_tag label then resolve_version shown label st else resolve_label shown label st)"

section \<open>Tags are numbers\<close>

lemma is_digit_char: "n < 10 \<Longrightarrow> is_digit (char_of (48 + n))" for n :: nat
  by (simp add: is_digit_def)

lemma show_nat_digits: "list_all is_digit (show_nat n) \<and> show_nat n \<noteq> []"
proof (induction n rule: show_nat.induct)
  case (1 n)
  then show ?case unfolding show_nat.simps[of n] by (simp add: is_digit_char)
qed

lemma show_nat_value: "foldl (\<lambda>n c. 10 * n + (of_char c - 48)) 0 (show_nat n) = n"
  by (induction n rule: show_nat.induct) (subst show_nat.simps, simp)

lemma show_nat_head: "0 < n \<Longrightarrow> hd (show_nat n) \<noteq> CHR ''0''"
proof (induction n rule: show_nat.induct)
  case (1 n)
  show ?case
  proof (cases "n < 10")
    case True
    have "(of_char (char_of (48 + n)) :: nat) \<noteq> of_char (CHR ''0'')" using True 1(2) by simp
    then have "char_of (48 + n) \<noteq> CHR ''0''" by metis
    with True show ?thesis by (subst show_nat.simps) simp
  next
    case False
    with 1 show_nat_digits[of "n div 10"] show ?thesis by (subst show_nat.simps) (simp add: hd_append)
  qed
qed

lemma tag_num_mk [simp]: "tag_num (mk_tag n) = n"
  by (simp add: tag_num_def mk_tag_def show_nat_value)

lemma valid_mk_tag: "0 < n \<Longrightarrow> valid_tag (mk_tag n)"
  using show_nat_digits[of n] show_nat_head[of n] by (cases "show_nat n") (simp_all add: valid_tag_def mk_tag_def)

lemma mk_tag_inj: "mk_tag m = mk_tag n \<Longrightarrow> m = n"
  by (metis tag_num_mk)

section \<open>The manifest reads back\<close>

definition record_ok :: "string \<times> version_record \<Rightarrow> bool" where
  "record_ok p \<longleftrightarrow> valid_tag (fst p) \<and> vr_tag (snd p) = fst p \<and> od_ok (vr_extra (snd p)) \<and>
     set (od_keys (vr_extra (snd p))) \<inter> set KNOWN_ENTRY_KEYS = {}"

definition manifest_ok :: "versions_manifest \<Rightarrow> bool" where
  "manifest_ok m \<longleftrightarrow> od_ok (vm_versions m) \<and> list_all record_ok (vm_versions m) \<and>
     od_ok (vm_labels m) \<and> list_all (\<lambda>(l, t). validate_label_name l = Inr l \<and> valid_tag t) (vm_labels m) \<and>
     od_ok (vm_extra m) \<and> set (od_keys (vm_extra m)) \<inter> set KNOWN_TOP_KEYS = {}"

definition sorted_record :: "version_record \<Rightarrow> version_record" where
  "sorted_record r = r\<lparr>vr_extra := sort_key fst (vr_extra r)\<rparr>"

text \<open>The manifest in the order in which it is written.\<close>

definition canonical :: "versions_manifest \<Rightarrow> versions_manifest" where
  "canonical m = \<lparr>vm_versions = map (\<lambda>(t, r). (t, sorted_record r)) (sort_key (\<lambda>p. tag_num (fst p)) (vm_versions m)),
     vm_labels = sort_key fst (vm_labels m), vm_schema = required_schema_version m,
     vm_extra = sort_key fst (vm_extra m)\<rparr>"

lemma map_of_unknown [simp]: "k \<in> set known \<Longrightarrow> map_of (unknown_keys known d) k = None"
  by (auto simp: unknown_keys_def map_of_eq_None_iff)

lemma unknown_keys_all: "set (od_keys d) \<inter> set known = {} \<Longrightarrow> unknown_keys known d = d"
  by (auto simp: unknown_keys_def filter_id_conv)

lemma od_sort_ok [simp]: "od_ok (sort_key f d) = od_ok d"
  by (simp add: distinct_map)

lemma map_of_sort [simp]: "od_ok d \<Longrightarrow> map_of (sort_key f d) = map_of d"
  by (simp add: map_of_inject_set)

lemma parse_entry_payload:
  assumes "record_ok (t, r)"
  shows "parse_entry shown (t, entry_payload r) = Inr (t, sorted_record r)"
proof -
  have extra: "unknown_keys KNOWN_ENTRY_KEYS (sort_key fst (vr_extra r)) = sort_key fst (vr_extra r)"
    using assms by (intro unknown_keys_all) (simp add: record_ok_def)
  have tag: "validate_tag t = Inr t" "vr_tag r = t" using assms by (simp_all add: record_ok_def validate_tag_def)
  have "''layout'' \<notin> fst ` set (vr_extra r)" using assms by (auto simp: record_ok_def KNOWN_ENTRY_KEYS_def)
  then have plain: "map_of (sort_key fst (vr_extra r)) ''layout'' = None" by (simp add: map_of_eq_None_iff)
  show ?thesis
    by (cases r; cases "vr_layout r")
      (use tag extra plain in \<open>simp_all add: parse_entry_def entry_payload_def sorted_record_def j_get_or_def py_text_def parse_layout_def
         KNOWN_ENTRY_KEYS_def unknown_keys_def\<close>)
qed

lemma parse_entries_payload:
  "list_all record_ok vs \<Longrightarrow> map_res (parse_entry shown) (map (\<lambda>(t, r). (t, entry_payload r)) vs) =
     Inr (map (\<lambda>(t, r). (t, sorted_record r)) vs)"
  by (induction vs) (auto simp: parse_entry_payload)

lemma parse_labels_payload:
  "list_all (\<lambda>(l, t). validate_label_name l = Inr l \<and> valid_tag t) ls \<Longrightarrow>
   map_res (parse_label shown) (map (\<lambda>(l, t). (l, JStr t)) ls) = Inr ls"
  by (induction ls) (auto simp: parse_label_def py_text_def validate_tag_def)

lemma required_sorted [simp]: "required_schema_version (canonical m) = required_schema_version m"
  by (force simp: required_schema_version_def canonical_def list_ex_iff sorted_record_def)

lemma load_payload:
  assumes "manifest_ok m"
  shows "load_manifest shown (Doc (manifest_payload m)) = Inr (canonical m)"
proof -
  have vs: "list_all record_ok (sort_key (\<lambda>p. tag_num (fst p)) (vm_versions m))"
    and ls: "list_all (\<lambda>(l, t). validate_label_name l = Inr l \<and> valid_tag t) (sort_key fst (vm_labels m))"
    using assms by (simp_all add: manifest_ok_def list_all_iff)
  have extra: "unknown_keys KNOWN_TOP_KEYS (sort_key fst (vm_extra m)) = sort_key fst (vm_extra m)"
    using assms by (intro unknown_keys_all) (simp add: manifest_ok_def)
  have raw: "unknown_keys KNOWN_TOP_KEYS ((''schema_version'', a) # (''versions'', b) # (''labels'', c) # sort_key fst (vm_extra m)) =
      sort_key fst (vm_extra m)" for a b c
    using extra by (simp add: unknown_keys_def KNOWN_TOP_KEYS_def)
  have schema: "validate_schema_version (JInt (required_schema_version m)) = Inr (required_schema_version m)"
    by (simp add: required_schema_version_def SCHEMA_VERSION_def)
  have "parse_manifest shown ((''schema_version'', JInt (required_schema_version m)) #
      (''versions'', JObj (map (\<lambda>(t, r). (t, entry_payload r)) (sort_key (\<lambda>p. tag_num (fst p)) (vm_versions m)))) #
      (''labels'', JObj (map (\<lambda>(l, t). (l, JStr t)) (sort_key fst (vm_labels m)))) # sort_key fst (vm_extra m)) =
    (if required_schema_version m < required_schema_version (canonical m) then Inl Malformed else Inr (canonical m))"
    unfolding parse_manifest_def
    by (simp add: j_get_def schema parse_entries_payload[OF vs] parse_labels_payload[OF ls] raw Let_def canonical_def
        del: validate_schema_version.simps)
  then show ?thesis
    by (simp add: load_manifest_def manifest_payload_def extra)
qed

lemma sort_key_twice [simp]: "sort_key f (sort_key f xs) = sort_key f xs"
  by (rule sort_key_id_if_sorted) simp

lemma sorted_record_simps [simp]:
  "vr_tag (sorted_record r) = vr_tag r" "vr_layout (sorted_record r) = vr_layout r"
  "entry_payload (sorted_record r) = entry_payload r"
  by (simp_all add: sorted_record_def entry_payload_def)

lemma payload_canonical: "manifest_payload (canonical m) = manifest_payload m"
proof -
  let ?vs = "sort_key (\<lambda>p. tag_num (fst p)) (vm_versions m)"
  have "sorted (map (\<lambda>p. tag_num (fst p)) (map (\<lambda>(t, r). (t, sorted_record r)) ?vs))"
    by (simp add: comp_def split_beta)
  then have "sort_key (\<lambda>p. tag_num (fst p)) (map (\<lambda>(t, r). (t, sorted_record r)) ?vs) = map (\<lambda>(t, r). (t, sorted_record r)) ?vs"
    by (rule sort_key_id_if_sorted)
  then have "map (\<lambda>(t, r). (t, entry_payload r)) (sort_key (\<lambda>p. tag_num (fst p)) (vm_versions (canonical m))) =
      map (\<lambda>(t, r). (t, entry_payload r)) ?vs"
    by (simp add: canonical_def comp_def split_beta)
  then show ?thesis
    unfolding manifest_payload_def by (simp only: required_sorted) (simp add: canonical_def)
qed

lemma map_of_sorted_records: "map_of (map (\<lambda>(t, r). (t, sorted_record r)) vs) t = map_option sorted_record (map_of vs t)"
  by (induction vs) auto

lemma canonical_versions: "od_ok (vm_versions m) \<Longrightarrow>
  map_of (vm_versions (canonical m)) t = map_option sorted_record (map_of (vm_versions m) t)"
  by (simp add: canonical_def map_of_sorted_records)

lemma record_ok_sorted: "record_ok (t, sorted_record r) = record_ok (t, r)"
  by (simp add: record_ok_def) (simp add: sorted_record_def)

lemma canonical_ok:
  assumes "manifest_ok m"
  shows "manifest_ok (canonical m)"
proof -
  have "od_keys (vm_versions (canonical m)) = od_keys (sort_key (\<lambda>p. tag_num (fst p)) (vm_versions m))"
    by (simp add: canonical_def comp_def split_beta)
  then have "od_ok (vm_versions (canonical m))" using assms by (simp add: manifest_ok_def)
  moreover have "list_all record_ok (vm_versions (canonical m))"
    using assms by (auto simp: manifest_ok_def canonical_def list_all_iff record_ok_sorted)
  ultimately show ?thesis
    using assms by (simp add: manifest_ok_def) (simp add: canonical_def list_all_iff)
qed

text \<open>
  C31. A well-formed manifest reads back as it was written: the same versions, labels and unknown members, in
  the order of the file, under the lowest schema that covers its entries; writing what was read
  gives the same document.
\<close>

theorem manifest_roundtrip:
  assumes "manifest_ok m"
  shows "load_manifest shown (Doc (manifest_payload m)) = Inr (canonical m) \<and> manifest_ok (canonical m) \<and>
    map_of (vm_labels (canonical m)) = map_of (vm_labels m) \<and> map_of (vm_extra (canonical m)) = map_of (vm_extra m) \<and>
    map_of (vm_versions (canonical m)) = map_option sorted_record \<circ> map_of (vm_versions m) \<and>
    vm_schema (canonical m) = required_schema_version m \<and>
    manifest_payload (canonical m) = manifest_payload m"
proof -
  have "map_of (vm_labels (canonical m)) = map_of (vm_labels m)" "map_of (vm_extra (canonical m)) = map_of (vm_extra m)"
    "vm_schema (canonical m) = required_schema_version m"
    using assms by (simp_all add: canonical_def manifest_ok_def)
  with load_payload[OF assms] canonical_ok[OF assms] canonical_versions payload_canonical assms show ?thesis
    by (auto simp: manifest_ok_def fun_eq_iff)
qed

definition sample_manifest :: versions_manifest where
  "sample_manifest = \<lparr>vm_versions = [(''v10'', new_record ''v10'' ''t'' ''n'' TreeLayout), (''v2'', new_record ''v2'' ''t'' ''n'' FileLayout)],
     vm_labels = [(''stable'', ''v2'')], vm_schema = 2, vm_extra = [(''owner'', JStr ''me'')]\<rparr>"

theorem manifest_roundtrip_witness:
  "load_manifest (\<lambda>_. []) (Doc (manifest_payload sample_manifest)) = Inr (canonical sample_manifest) \<and>
   map fst (vm_versions (canonical sample_manifest)) = [''v2'', ''v10'']"
proof -
  have "manifest_ok sample_manifest" by code_simp
  then have "load_manifest (\<lambda>_. []) (Doc (manifest_payload sample_manifest)) = Inr (canonical sample_manifest)"
    using manifest_roundtrip by blast
  moreover have "map fst (vm_versions (canonical sample_manifest)) = [''v2'', ''v10'']" by code_simp
  ultimately show ?thesis ..
qed

section \<open>A new tag is new\<close>

lemma entry_stem_md [simp]: "entry_stem (md_file t) = t"
  by (simp add: entry_stem_def md_file_def)

lemma valid_tag_last: "valid_tag t \<Longrightarrow> t \<noteq> [] \<and> is_digit (last t)"
  by (auto simp: valid_tag_def list_all_iff split: list.splits)

lemma entry_stem_tag: "valid_tag t \<Longrightarrow> entry_stem t = t"
proof -
  assume "valid_tag t"
  then have "t \<noteq> []" "is_digit (last t)" using valid_tag_last by auto
  moreover have "\<not> is_digit (CHR ''d'')" by (simp add: is_digit_def)
  ultimately have "t \<noteq> []" "last t \<noteq> CHR ''d''" by metis+
  then have "drop (length t - 3) t \<noteq> ''.md''" by (metis last_drop last.simps list.distinct(1) drop_eq_Nil not_le)
  then show ?thesis by (simp add: entry_stem_def)
qed

lemma next_tag_fresh:
  defines "tag entries m \<equiv> next_tag_reconciled entries m"
  shows "valid_tag (tag entries m)" "map_of (vm_versions m) (tag entries m) = None"
    "map_of entries (md_file (tag entries m)) = None" "map_of entries (tag entries m) = None"
proof -
  let ?nums = "map (tag_num \<circ> fst) (vm_versions m) @ map tag_num (filter valid_tag (map (entry_stem \<circ> fst) entries))"
  have by_nums: "(case ns of [] \<Rightarrow> mk_tag 1 | nums \<Rightarrow> mk_tag (Max (set nums) + 1)) =
      mk_tag (if ns = [] then 1 else Max (set ns) + 1)" for ns :: "nat list"
    by (cases ns) simp_all
  have tag: "tag entries m = mk_tag (if ?nums = [] then 1 else Max (set ?nums) + 1)"
    unfolding tag_def next_tag_reconciled_def by (rule by_nums)
  then show valid: "valid_tag (tag entries m)" by (auto intro!: valid_mk_tag)
  have above: "n < tag_num (tag entries m)" if "n \<in> set ?nums" for n
  proof -
    have "?nums \<noteq> []" using that by (metis empty_iff empty_set)
    moreover have "n \<le> Max (set ?nums)" using that by (rule Max_ge[rotated]) simp
    ultimately show ?thesis by (simp only: tag tag_num_mk if_False)
  qed
  show "map_of (vm_versions m) (tag entries m) = None"
  proof (rule ccontr)
    assume "map_of (vm_versions m) (tag entries m) \<noteq> None"
    then obtain r where "(tag entries m, r) \<in> set (vm_versions m)" by (auto dest: map_of_SomeD)
    then have "(tag_num \<circ> fst) (tag entries m, r) \<in> set (map (tag_num \<circ> fst) (vm_versions m))"
      unfolding set_map by (rule imageI)
    then have "tag_num (tag entries m) \<in> set ?nums" by simp
    from above[OF this] show False by simp
  qed
  have free: "map_of entries n = None" if "entry_stem n = tag entries m" for n
  proof (rule ccontr)
    assume "map_of entries n \<noteq> None"
    then obtain e where e: "(n, e) \<in> set entries" by (auto dest: map_of_SomeD)
    have "entry_stem n \<in> set (filter valid_tag (map (entry_stem \<circ> fst) entries))"
      using that valid imageI[OF e, of "entry_stem \<circ> fst"] by simp
    then have "tag_num (tag entries m) \<in> set ?nums" unfolding that[symmetric] by simp
    from above[OF this] show False by simp
  qed
  show "map_of entries (md_file (tag entries m)) = None" by (rule free) simp
  show "map_of entries (tag entries m) = None" by (rule free) (rule entry_stem_tag[OF valid])
qed

section \<open>Effects that keep the snapshots\<close>

definition row_backed :: "version_store \<Rightarrow> string \<Rightarrow> version_record \<Rightarrow> bool" where
  "row_backed st t r \<longleftrightarrow>
     (if vr_layout r = TreeLayout then \<exists>files. map_of (vs_entries st) t = Some (TreeSnap files)
      else \<exists>bytes. map_of (vs_entries st) (md_file t) = Some (FileSnap bytes))"

text \<open>No row of the manifest points at nothing.\<close>

definition backed :: "(json \<Rightarrow> string) \<Rightarrow> version_store \<Rightarrow> bool" where
  "backed shown st \<longleftrightarrow> (\<forall>m t r. load_manifest shown (vs_manifest st) = Inr m \<longrightarrow> map_of (vm_versions m) t = Some r \<longrightarrow> row_backed st t r)"

definition readable :: "(json \<Rightarrow> string) \<Rightarrow> version_store \<Rightarrow> bool" where
  "readable shown st \<longleftrightarrow> (\<forall>m. load_manifest shown (vs_manifest st) = Inr m \<longrightarrow> manifest_ok m)"

definition same_snapshots :: "(json \<Rightarrow> string) \<Rightarrow> version_store \<Rightarrow> version_store \<Rightarrow> bool" where
  "same_snapshots shown st st' \<longleftrightarrow>
     (\<forall>t bytes. resolve_version shown t st = Inr bytes \<longrightarrow> resolve_version shown t st' = Inr bytes) \<and>
     (\<forall>t files. resolve_version_tree shown t st = Inr files \<longrightarrow> resolve_version_tree shown t st' = Inr files)"

text \<open>Names of staging directories begin with a dot; snapshots never do.\<close>

definition hidden :: "string \<Rightarrow> bool" where
  "hidden n \<longleftrightarrow> take 1 n = ''.''"

lemma tag_public: "valid_tag t \<Longrightarrow> \<not> hidden t" "valid_tag t \<Longrightarrow> \<not> hidden (md_file t)"
  by (auto simp: valid_tag_def hidden_def md_file_def split: list.splits)

text \<open>A manifest that keeps every row and whose new rows have their snapshot.\<close>

definition grows :: "(json \<Rightarrow> string) \<Rightarrow> version_store \<Rightarrow> json \<Rightarrow> bool" where
  "grows shown st j \<longleftrightarrow> (\<exists>m0 m. load_manifest shown (vs_manifest st) = Inr m0 \<and> manifest_ok m \<and> j = manifest_payload m \<and>
     (\<forall>t r. map_of (vm_versions m0) t = Some r \<longrightarrow>
        (\<exists>r'. map_of (vm_versions m) t = Some r' \<and> vr_layout r' = vr_layout r)) \<and>
     (\<forall>t r. map_of (vm_versions m) t = Some r \<longrightarrow>
        (\<exists>r0. map_of (vm_versions m0) t = Some r0 \<and> vr_layout r0 = vr_layout r) \<or> row_backed st t r))"

fun harmless :: "(json \<Rightarrow> string) \<Rightarrow> version_store \<Rightarrow> effect \<Rightarrow> bool" where
  "harmless shown st (PutFile n bytes) \<longleftrightarrow> map_of (vs_entries st) n = None"
| "harmless shown st (MakeDir n) \<longleftrightarrow> hidden n"
| "harmless shown st (StageFile n rel bytes) \<longleftrightarrow> hidden n"
| "harmless shown st (Promote n target) \<longleftrightarrow> hidden n"
| "harmless shown st (Discard n) \<longleftrightarrow> hidden n"
| "harmless shown st (PutManifest j) \<longleftrightarrow> grows shown st j"

lemma row_lookup:
  "(case row of None \<Rightarrow> Inl NotFound | Some r \<Rightarrow> if P r then Inl WrongLayout else body) = Inr x \<longleftrightarrow>
   (\<exists>r. row = Some r \<and> \<not> P r \<and> body = Inr x)"
  by (cases row) auto

lemma snapshot_lookup:
  "(case e of Some (FileSnap bytes) \<Rightarrow> Inr bytes | _ \<Rightarrow> Inl NotFound) = Inr x \<longleftrightarrow> e = Some (FileSnap x)"
  "(case e of Some (TreeSnap files) \<Rightarrow> Inr files | _ \<Rightarrow> Inl NotFound) = Inr y \<longleftrightarrow> e = Some (TreeSnap y)"
  by (auto split: option.splits stored_snapshot.splits)

lemma layout_cases: "l \<noteq> TreeLayout \<longleftrightarrow> l = FileLayout"
  by (cases l) simp_all

lemma resolve_version_iff:
  "resolve_version shown t st = Inr bytes \<longleftrightarrow> valid_tag t \<and> (\<exists>m r. load_manifest shown (vs_manifest st) = Inr m \<and>
     map_of (vm_versions m) t = Some r \<and> vr_layout r = FileLayout \<and> map_of (vs_entries st) (md_file t) = Some (FileSnap bytes))"
  by (auto simp: resolve_version_def validate_tag_def bind_res_Inr_conv row_lookup snapshot_lookup layout_cases)

lemma resolve_tree_iff:
  "resolve_version_tree shown t st = Inr files \<longleftrightarrow> valid_tag t \<and> (\<exists>m r. load_manifest shown (vs_manifest st) = Inr m \<and>
     map_of (vm_versions m) t = Some r \<and> vr_layout r = TreeLayout \<and> map_of (vs_entries st) t = Some (TreeSnap files))"
  by (auto simp: resolve_version_tree_def validate_tag_def bind_res_Inr_conv row_lookup snapshot_lookup)

lemma entries_kept:
  assumes "vs_manifest st' = vs_manifest st"
    and kept: "\<And>n s. \<not> hidden n \<Longrightarrow> map_of (vs_entries st) n = Some s \<Longrightarrow> map_of (vs_entries st') n = Some s"
    and "readable shown st"
  shows "same_snapshots shown st st' \<and> readable shown st' \<and> (backed shown st \<longrightarrow> backed shown st')"
proof -
  have tags: "valid_tag t" if "load_manifest shown (vs_manifest st) = Inr m" "map_of (vm_versions m) t = Some r" for m t r
  proof -
    have "(t, r) \<in> set (vm_versions m)" by (rule map_of_SomeD[OF that(2)])
    moreover have "list_all record_ok (vm_versions m)" using assms(3) that(1) by (auto simp: readable_def manifest_ok_def)
    ultimately show ?thesis by (auto simp: list_all_iff record_ok_def)
  qed
  have "backed shown st'" if "backed shown st"
    using that tags kept tag_public unfolding backed_def row_backed_def assms(1) by metis
  moreover have "same_snapshots shown st st'"
    unfolding same_snapshots_def resolve_version_iff resolve_tree_iff assms(1) using kept tag_public by blast
  ultimately show ?thesis using assms(1,3) by (simp add: readable_def)
qed

lemma od_del_other: "n \<noteq> k \<Longrightarrow> map_of (od_del k d) n = map_of d n"
  by simp

lemma harmless_entries:
  assumes "harmless shown st e" and "\<forall>j. e \<noteq> PutManifest j" and "\<not> hidden n" and "map_of (vs_entries st) n = Some s"
  shows "vs_manifest (apply_effect st e) = vs_manifest st" "map_of (vs_entries (apply_effect st e)) n = Some s"
  using assms by (cases e; auto split: option.split stored_snapshot.split)+

lemma grows_keeps:
  assumes "grows shown st j" and "readable shown st"
  shows "same_snapshots shown st (apply_effect st (PutManifest j)) \<and> readable shown (apply_effect st (PutManifest j)) \<and>
    (backed shown st \<longrightarrow> backed shown (apply_effect st (PutManifest j)))"
proof -
  let ?st = "apply_effect st (PutManifest j)"
  obtain m0 m where m0: "load_manifest shown (vs_manifest st) = Inr m0" and m: "manifest_ok m" "j = manifest_payload m"
    and old: "\<And>t r. map_of (vm_versions m0) t = Some r \<Longrightarrow> \<exists>r'. map_of (vm_versions m) t = Some r' \<and> vr_layout r' = vr_layout r"
    and new: "\<And>t r. map_of (vm_versions m) t = Some r \<Longrightarrow>
        (\<exists>r0. map_of (vm_versions m0) t = Some r0 \<and> vr_layout r0 = vr_layout r) \<or> row_backed st t r"
    using assms(1) unfolding grows_def by blast
  have load: "load_manifest shown (vs_manifest ?st) = Inr (canonical m)" using load_payload[OF m(1)] m(2) by simp
  have rows: "map_of (vm_versions (canonical m)) t = map_option sorted_record (map_of (vm_versions m) t)" for t
    using m(1) by (simp add: canonical_versions manifest_ok_def)
  have kept: "\<exists>r'. map_of (vm_versions (canonical m)) t = Some r' \<and> vr_layout r' = vr_layout r"
    if "map_of (vm_versions m0) t = Some r" for t r
    using old[OF that] by (auto simp: rows)
  have "same_snapshots shown st ?st"
    unfolding same_snapshots_def resolve_version_iff resolve_tree_iff load m0 using kept by fastforce
  moreover have "readable shown ?st" using canonical_ok[OF m(1)] load by (simp add: readable_def)
  moreover have "row_backed ?st t r" if all: "backed shown st" and row: "map_of (vm_versions (canonical m)) t = Some r" for t r
  proof -
    obtain r1 where r1: "map_of (vm_versions m) t = Some r1" "vr_layout r1 = vr_layout r" using row by (auto simp: rows)
    have "row_backed st t r1"
      using new[OF r1(1)] all m0 by (auto simp: backed_def row_backed_def)
    then show ?thesis using r1(2) by (simp add: row_backed_def)
  qed
  ultimately show ?thesis using load by (simp add: backed_def)
qed

lemma harmless_keeps:
  assumes "harmless shown st e" and "readable shown st"
  shows "same_snapshots shown st (apply_effect st e) \<and> readable shown (apply_effect st e) \<and>
    (backed shown st \<longrightarrow> backed shown (apply_effect st e))"
proof (cases "\<exists>j. e = PutManifest j")
  case True
  then show ?thesis using grows_keeps[OF _ assms(2)] assms(1) by auto
next
  case False
  have "vs_manifest (apply_effect st e) = vs_manifest st"
    using False assms(1) by (cases e) (auto split: option.split stored_snapshot.split)
  from entries_kept[OF this _ assms(2)] harmless_entries(2)[OF assms(1)] False show ?thesis by blast
qed

text \<open>The store as a machine whose steps are the effects, seen from a store it started in.\<close>

definition holds_from :: "(json \<Rightarrow> string) \<Rightarrow> version_store \<Rightarrow> version_store \<Rightarrow> bool" where
  "holds_from shown st0 st \<longleftrightarrow> same_snapshots shown st0 st \<and> readable shown st \<and> (backed shown st0 \<longrightarrow> backed shown st)"

lemma same_snapshots_trans: "same_snapshots shown a b \<Longrightarrow> same_snapshots shown b c \<Longrightarrow> same_snapshots shown a c"
  by (simp add: same_snapshots_def)

lemma same_snapshots_refl [simp]: "same_snapshots shown a a"
  by (simp add: same_snapshots_def)

interpretation effects: machine apply_effect "harmless shown" "holds_from shown st0" for shown st0
  by unfold_locales (use harmless_keeps same_snapshots_trans in \<open>fastforce simp: holds_from_def\<close>)

section \<open>The operations only have harmless effects\<close>

definition hidden_effect :: "effect \<Rightarrow> bool" where
  "hidden_effect e = (case e of MakeDir n \<Rightarrow> hidden n | StageFile n _ _ \<Rightarrow> hidden n | Discard n \<Rightarrow> hidden n
     | Promote n _ \<Rightarrow> hidden n | _ \<Rightarrow> False)"

lemma hidden_run:
  "list_all hidden_effect es \<Longrightarrow> legal_run (harmless shown) apply_effect st es \<and>
   vs_manifest (apply_effects st es) = vs_manifest st"
proof (induction es arbitrary: st)
  case (Cons e es)
  then have "harmless shown st e" "vs_manifest (apply_effect st e) = vs_manifest st"
    by (cases e; auto simp: hidden_effect_def split: option.split stored_snapshot.split)+
  with Cons show ?case by (simp add: apply_effects_def)
qed (simp add: apply_effects_def)

lemma with_version_grows:
  assumes "load_manifest shown (vs_manifest st) = Inr m" and "manifest_ok m" and "valid_tag (vr_tag r)"
    and "vr_extra r = []" and "map_of (vm_versions m) (vr_tag r) = None" and "row_backed st (vr_tag r) r"
  shows "grows shown st (manifest_payload (with_version r m))"
proof -
  have "(vr_tag r) \<notin> set (od_keys (vm_versions m))" using assms(5) by (simp add: map_of_eq_None_iff)
  then have "vm_versions (with_version r m) = vm_versions m @ [(vr_tag r, r)]"
    by (simp add: with_version_def od_set_absent)
  moreover have "od_ok (vm_versions (with_version r m))" using assms(2) by (simp add: with_version_def manifest_ok_def)
  ultimately have "manifest_ok (with_version r m)"
    using assms(2-4) by (simp add: manifest_ok_def record_ok_def) (simp add: with_version_def)
  with assms show ?thesis unfolding grows_def
    by (intro exI[of _ m] exI[of _ "with_version r m"]) (auto simp: with_version_def)
qed

lemma promote_grows:
  assumes "load_manifest shown (vs_manifest st) = Inr m" and "manifest_ok m" and "vm_versions m' = vm_versions m"
    and "manifest_ok m'"
  shows "grows shown st (manifest_payload m')"
  unfolding grows_def using assms by (intro exI[of _ m] exI[of _ m']) simp

lemma create_harmless:
  "readable shown st \<Longrightarrow> legal_run (harmless shown) apply_effect st (snd (create_version shown source note now st))"
proof -
  assume readable: "readable shown st"
  show ?thesis
  proof (cases "load_manifest shown (vs_manifest st)")
    case (Inr m)
    let ?tag = "next_tag_reconciled (vs_entries st) m"
    let ?r = "new_record ?tag now note FileLayout"
    note fresh = next_tag_fresh[where entries = "vs_entries st" and m = m]
    have "grows shown (apply_effect st (PutFile (md_file ?tag) bytes)) (manifest_payload (with_version ?r m))" for bytes
      using Inr readable fresh by (intro with_version_grows) (simp_all add: new_record_def readable_def row_backed_def)
    with Inr fresh show ?thesis by (simp add: create_version_def Let_def split: option.split)
  qed (simp add: create_version_def split: option.split)
qed

lemma label_harmless:
  "readable shown st \<Longrightarrow> legal_run (harmless shown) apply_effect st (snd (promote_label shown label version st))"
  "readable shown st \<Longrightarrow> legal_run (harmless shown) apply_effect st (snd (delete_label shown label st))"
proof -
  assume readable: "readable shown st"
  have ok: "manifest_ok m" if "load_manifest shown (vs_manifest st) = Inr m" for m
    using that readable by (simp add: readable_def)
  have delete: "manifest_ok (m\<lparr>vm_labels := od_del l (vm_labels m)\<rparr>)" if "manifest_ok m" for m l
    using that by (auto simp: manifest_ok_def od_del_def distinct_map inj_on_def list_all_iff)
  have set_ok: "list_all P (od_set k v d)" if "list_all P d" "P (k, v)" for P :: "string \<times> string \<Rightarrow> bool" and k v d
    using that by (induction d) auto
  have point: "manifest_ok (m\<lparr>vm_labels := od_set l t (vm_labels m)\<rparr>)"
    if "manifest_ok m" "validate_label_name l = Inr l" "valid_tag t" for m l t
    using that by (simp add: manifest_ok_def set_ok)
  have label: "validate_label_name l = Inr y \<Longrightarrow> validate_label_name l = Inr l" for l y by (auto simp: validate_label_name_def split: if_splits)
  show "legal_run (harmless shown) apply_effect st (snd (delete_label shown label st))"
    using promote_grows[OF _ ok _ delete[OF ok]] by (auto simp: delete_label_def split: sum.split)
  show "legal_run (harmless shown) apply_effect st (snd (promote_label shown label version st))"
    using promote_grows[OF _ ok _ point[OF ok]]
    by (auto simp: promote_label_def bind_res_Inr_conv validate_tag_def dest: label split: sum.split option.split if_splits)
qed

section \<open>Staging directories\<close>

text \<open>The process id in digits and the six random digits.\<close>

definition suffix_ok :: "string \<times> string \<Rightarrow> bool" where
  "suffix_ok s \<longleftrightarrow> fst s \<noteq> [] \<and> list_all is_digit (fst s) \<and> length (snd s) = 6 \<and> list_all is_hex (snd s)"

lemma no_dash: "list_all is_hex s \<Longrightarrow> CHR ''-'' \<notin> set s" "list_all is_digit s \<Longrightarrow> CHR ''-'' \<notin> set s"
proof -
  have "\<not> is_hex (CHR ''-'')" "\<not> is_digit (CHR ''-'')" by (simp_all add: is_hex_def is_digit_def)
  then show "list_all is_hex s \<Longrightarrow> CHR ''-'' \<notin> set s" "list_all is_digit s \<Longrightarrow> CHR ''-'' \<notin> set s"
    by (metis list_all_iff)+
qed

lemma staging_frame:
  "take 9 (''.staging-'' @ core @ ''.tmp'') = ''.staging-''" "13 \<le> length (''.staging-'' @ core @ ''.tmp'')"
  "drop (length (''.staging-'' @ core @ ''.tmp'') - 4) (''.staging-'' @ core @ ''.tmp'') = ''.tmp''"
  "take (length (''.staging-'' @ core @ ''.tmp'') - 13) (drop 9 (''.staging-'' @ core @ ''.tmp'')) = core"
proof -
  have "drop (length (''.staging-'' @ core)) ((''.staging-'' @ core) @ ''.tmp'') = ''.tmp''" by (simp only: drop_append drop_all) simp
  then show "drop (length (''.staging-'' @ core @ ''.tmp'') - 4) (''.staging-'' @ core @ ''.tmp'') = ''.tmp''" by simp
qed simp_all

lemma staging_recognised:
  assumes "valid_tag tag" and "suffix_ok s"
  shows "is_staging (staging_name (fst s) (snd s) tag) \<and> take 10 (staging_name (fst s) (snd s) tag) = ''.staging-v'' \<and>
    drop (length (staging_name (fst s) (snd s) tag) - 4) (staging_name (fst s) (snd s) tag) = ''.tmp''"
proof -
  obtain ds where tag: "tag = CHR ''v'' # ds" using assms(1) by (auto simp: valid_tag_def split: list.splits)
  define core where "core = tag @ CHR ''-'' # fst s @ CHR ''-'' # snd s"
  have name: "staging_name (fst s) (snd s) tag = ''.staging-'' @ core @ ''.tmp''" by (simp add: staging_name_def core_def)
  have dash: "CHR ''-'' \<notin> set (fst s)" "CHR ''-'' \<notin> set (snd s)" using no_dash assms(2) by (auto simp: suffix_ok_def)
  have "split_on (CHR ''-'') core = split_on (CHR ''-'') tag @ [fst s] @ [snd s]"
    unfolding core_def by (simp only: split_on_append split_on_absent[OF dash(1)] split_on_absent[OF dash(2)])
  then have parts: "rev (split_on (CHR ''-'') core) = snd s # fst s # rev (split_on (CHR ''-'') tag)" by simp
  have owner: "join_with ''-'' (rev (rev (split_on (CHR ''-'') tag))) = tag" by (simp only: rev_rev_ident join_split_on)
  have "is_staging (''.staging-'' @ core @ ''.tmp'')"
    unfolding is_staging_def staging_frame parts list.case owner using assms(2) tag staging_frame(2)[of core]
    by (simp add: suffix_ok_def)
  moreover have "take 10 (''.staging-'' @ core @ ''.tmp'') = ''.staging-v''" by (simp add: core_def tag)
  ultimately show ?thesis unfolding name staging_frame by simp
qed

lemma staging_hidden: "hidden (staging_name pid hex tag)"
  by (simp add: hidden_def staging_name_def)

lemma discard_entries:
  "map_of (vs_entries (apply_effects st (map Discard ns))) n = (if n \<in> set ns then None else map_of (vs_entries st) n)"
  by (induction ns arbitrary: st) (auto simp: apply_effects_def)

lemma reap_hidden: "list_all hidden_effect (map Discard (reap_names st))"
proof -
  have "hidden n" if "take 10 n = ''.staging-v''" for n
  proof -
    have "take 1 n = take 1 (take 10 n)" by simp
    also have "\<dots> = ''.''" unfolding that by simp
    finally show ?thesis by (simp add: hidden_def)
  qed
  then show ?thesis by (auto simp: list_all_iff reap_names_def hidden_effect_def)
qed

lemma stage_entries:
  "map_of (vs_entries st) s = Some (TreeSnap t) \<Longrightarrow>
   map_of (vs_entries (apply_effects st (map (\<lambda>p. StageFile s (fst p) (snd p)) ps))) =
     (map_of (vs_entries st))(s \<mapsto> TreeSnap (foldl (\<lambda>d p. od_set (fst p) (snd p) d) t ps))"
  by (induction ps arbitrary: st t) (simp_all add: apply_effects_def fun_upd_idem)

lemma od_set_all: "distinct (map fst (t @ ps)) \<Longrightarrow> foldl (\<lambda>d p. od_set (fst p) (snd p) d) t ps = t @ ps"
proof (induction ps arbitrary: t)
  case (Cons p ps)
  then have "od_set (fst p) (snd p) t = t @ [p]" by (subst od_set_absent) auto
  with Cons show ?case by simp
qed simp

text \<open>Before the rename the staging directory holds the payload, and the tag is free.\<close>

lemma staged_entries:
  fixes payload :: "(string \<times> ustr) list"
  assumes "suffix_ok suffix" and "valid_tag tag" and "map_of (vs_entries st) tag = None"
  defines "staging \<equiv> staging_name (fst suffix) (snd suffix) tag"
  defines "es \<equiv> map Discard (reap_names st) @ [MakeDir staging] @ map (\<lambda>p. StageFile staging (fst p) (snd p)) payload @ [Promote staging tag]"
  assumes "distinct (map fst payload)"
  shows "map_of (vs_entries (apply_effects st es)) tag = Some (TreeSnap payload)"
proof -
  let ?clean = "apply_effects st (map Discard (reap_names st))"
  let ?made = "apply_effect ?clean (MakeDir staging)"
  let ?full = "apply_effects ?made (map (\<lambda>p. StageFile staging (fst p) (snd p)) payload)"
  have free: "map_of (vs_entries ?clean) staging = None"
  proof (cases "map_of (vs_entries st) staging")
    case (Some e)
    then have "staging \<in> set (map fst (vs_entries st))" by (auto dest: map_of_SomeD intro: rev_image_eqI)
    then have "staging \<in> set (reap_names st)"
      using staging_recognised[OF assms(2,1)] by (simp add: reap_names_def staging_def)
    then show ?thesis by (simp add: discard_entries)
  qed (simp add: discard_entries)
  have neq: "staging \<noteq> tag" using staging_hidden tag_public(1)[OF assms(2)] unfolding staging_def by metis
  have tag: "map_of (vs_entries ?clean) tag = None" using assms(3) by (simp add: discard_entries)
  have "map_of (vs_entries ?made) staging = Some (TreeSnap [])" using free by simp
  from stage_entries[OF this, of payload] have full: "map_of (vs_entries ?full) = (map_of (vs_entries ?made))(staging \<mapsto> TreeSnap payload)"
    using od_set_all[of "[]" payload] assms(6) by simp
  have "map_of (vs_entries ?full) tag = None" using full neq tag free by simp
  moreover have "apply_effects st es = apply_effect ?full (Promote staging tag)" by (simp add: es_def apply_effects_def)
  ultimately show ?thesis using full by simp
qed

lemma tree_harmless:
  assumes "readable shown st" and "suffix_ok suffix"
  shows "legal_run (harmless shown) apply_effect st (snd (create_tree_version shown suffix aliased misspelt payload note now st))"
proof -
  let ?reaped = "map Discard (reap_names st)"
  let ?clean = "apply_effects st ?reaped"
  have reaped: "legal_run (harmless shown) apply_effect st ?reaped" "vs_manifest ?clean = vs_manifest st"
    using hidden_run[OF reap_hidden] by blast+
  show ?thesis
  proof (cases "load_manifest shown (vs_manifest st)")
    case (Inl e)
    with reaped show ?thesis by (simp add: create_tree_version_def Let_def)
  next
    case (Inr m)
    let ?tag = "next_tag_reconciled (vs_entries ?clean) m"
    let ?r = "new_record ?tag now note TreeLayout"
    let ?s = "staging_name (fst suffix) (snd suffix) ?tag"
    let ?es = "?reaped @ [MakeDir ?s] @ map (\<lambda>p. StageFile ?s (fst p) (snd p)) payload @ [Promote ?s ?tag]"
    note fresh = next_tag_fresh[where entries = "vs_entries ?clean" and m = m]
    have "?tag \<notin> set (reap_names st)"
      using reap_hidden[of st] tag_public(1)[OF fresh(1)] by (auto simp: list_all_iff hidden_effect_def)
    then have tag: "map_of (vs_entries st) ?tag = None" using fresh(4) by (simp add: discard_entries)
    have hidden: "list_all hidden_effect ?es"
      using reap_hidden[of st] staging_hidden by (auto simp: list_all_iff hidden_effect_def)
    have "grows shown (apply_effects st ?es) (manifest_payload (with_version ?r m))" if "distinct (map fst payload)"
      using Inr assms(1) fresh hidden_run[OF hidden, of shown st] staged_entries[OF assms(2) fresh(1) tag that]
      by (intro with_version_grows) (simp_all add: new_record_def readable_def row_backed_def)
    then have "legal_run (harmless shown) apply_effect st (?es @ [PutManifest (manifest_payload (with_version ?r m))])"
      if "distinct (map fst payload)"
      using that hidden_run[OF hidden, of shown st] by (simp add: legal_run_append apply_effects_def)
    then have "legal_run (harmless shown) apply_effect st (?reaped @ [MakeDir ?s] @ map (\<lambda>p. StageFile ?s (fst p) (snd p)) payload @
        [Promote ?s ?tag, PutManifest (manifest_payload (with_version ?r m))])" if "distinct (map fst payload)"
      using that by simp
    with Inr reaped(1) show ?thesis by (simp add: create_tree_version_def Let_def)
  qed
qed

section \<open>Runs of the store\<close>

text \<open>A JSON object has distinct keys, as \<open>json.loads\<close> returns it.\<close>

definition objects_ok :: "json \<Rightarrow> bool" where
  "objects_ok j = (case j of JObj d \<Rightarrow> od_ok d | _ \<Rightarrow> True)"

definition wf_file :: "manifest_file \<Rightarrow> bool" where
  "wf_file f = (case f of Doc (JObj raw) \<Rightarrow> od_ok raw \<and> objects_ok (j_get raw ''versions'') \<and> objects_ok (j_get raw ''labels'') \<and>
       (case j_get raw ''versions'' of JObj vs \<Rightarrow> list_all (\<lambda>p. objects_ok (snd p)) vs | _ \<Rightarrow> True)
     | _ \<Rightarrow> True)"

lemma unknown_keys_ok: "od_ok d \<Longrightarrow> od_ok (unknown_keys known d) \<and> set (od_keys (unknown_keys known d)) \<inter> set known = {}"
  by (auto simp: unknown_keys_def distinct_map_filter)

lemma parse_entry_ok:
  assumes "parse_entry shown e = Inr p" and "objects_ok (snd e)"
  shows "fst p = fst e \<and> record_ok p"
proof -
  define meta where "meta = (case snd e of JObj d \<Rightarrow> d | _ \<Rightarrow> [])"
  have "od_ok meta" using assms(2) by (auto simp: meta_def objects_ok_def split: json.splits)
  note extra = unknown_keys_ok[OF this, of KNOWN_ENTRY_KEYS]
  obtain l where l: "parse_layout (j_get_or meta ''layout'' (JStr ''file'')) = Inr l"
    using assms(1) by (auto simp: parse_entry_def Let_def bind_res_Inr_conv meta_def)
  with assms(1) have "valid_tag (fst e)" "fst p = fst e" "vr_tag (snd p) = fst e" "vr_extra (snd p) = unknown_keys KNOWN_ENTRY_KEYS meta"
    by (auto simp: parse_entry_def Let_def bind_res_Inr_conv meta_def[symmetric] validate_tag_def split: if_splits)
  with extra show ?thesis by (simp add: record_ok_def)
qed

lemma parse_entries_ok:
  "list_all2 (\<lambda>e p. parse_entry shown e = Inr p) es ps \<Longrightarrow> list_all (\<lambda>e. objects_ok (snd e)) es \<Longrightarrow>
   od_keys ps = od_keys es \<and> list_all record_ok ps"
  by (induction rule: list_all2_induct) (auto dest: parse_entry_ok)

lemma parse_labels_ok:
  "list_all2 (\<lambda>e p. parse_label shown e = Inr p) es ps \<Longrightarrow>
   od_keys ps = od_keys es \<and> list_all (\<lambda>(l, t). validate_label_name l = Inr l \<and> valid_tag t) ps"
  by (induction rule: list_all2_induct)
     (auto simp: parse_label_def bind_res_Inr_conv validate_tag_def validate_label_name_def split: if_splits)

lemma object_or_empty_ok:
  assumes "object_or_empty j = Inr d" and "objects_ok j"
  shows "od_ok d \<and> (d = [] \<or> j = JObj d)"
  using assms by (cases j) (auto simp: objects_ok_def)

lemma load_ok:
  assumes "wf_file f" and "load_manifest shown f = Inr m"
  shows "manifest_ok m"
proof (cases "f = Missing")
  case True
  then show ?thesis using assms(2) by (auto simp: load_manifest_def manifest_ok_def)
next
  case False
  then obtain raw where f: "f = Doc (JObj raw)" and parse: "parse_manifest shown raw = Inr m"
    using assms(2) by (auto simp: load_manifest_def split: manifest_file.splits json.splits)
  obtain vs ls versions labels where objs: "object_or_empty (j_get raw ''versions'') = Inr vs" "object_or_empty (j_get raw ''labels'') = Inr ls"
    and parsed: "list_all2 (\<lambda>e p. parse_entry shown e = Inr p) vs versions" "list_all2 (\<lambda>e p. parse_label shown e = Inr p) ls labels"
    and m: "vm_versions m = versions" "vm_labels m = labels" "vm_extra m = unknown_keys KNOWN_TOP_KEYS raw"
    using parse by (auto simp: parse_manifest_def bind_res_Inr_conv Let_def map_res_Inr_conv split: if_splits)
  have wf: "od_ok raw" "objects_ok (j_get raw ''versions'')" "objects_ok (j_get raw ''labels'')"
    "case j_get raw ''versions'' of JObj vs \<Rightarrow> list_all (\<lambda>p. objects_ok (snd p)) vs | _ \<Rightarrow> True"
    using assms(1) by (simp_all add: f wf_file_def)
  have "list_all (\<lambda>e. objects_ok (snd e)) vs" using object_or_empty_ok[OF objs(1) wf(2)] wf(4) by auto
  then show ?thesis
    using parse_entries_ok[OF parsed(1)] parse_labels_ok[OF parsed(2)] object_or_empty_ok[OF objs(1) wf(2)]
      object_or_empty_ok[OF objs(2) wf(3)] unknown_keys_ok[OF wf(1)] m
    by (simp add: manifest_ok_def)
qed

datatype store_op =
    CreateOp "ustr option" string string
  | TreeOp "string \<times> string" bool bool "(string \<times> ustr) list" string string
  | PromoteOp string string
  | DeleteOp string

fun op_effects :: "(json \<Rightarrow> string) \<Rightarrow> store_op \<Rightarrow> version_store \<Rightarrow> effect list" where
  "op_effects shown (CreateOp source note now) st = snd (create_version shown source note now st)"
| "op_effects shown (TreeOp suffix aliased misspelt payload note now) st =
     snd (create_tree_version shown suffix aliased misspelt payload note now st)"
| "op_effects shown (PromoteOp label version) st = snd (promote_label shown label version st)"
| "op_effects shown (DeleteOp label) st = snd (delete_label shown label st)"

definition op_ok :: "store_op \<Rightarrow> bool" where
  "op_ok op = (case op of TreeOp suffix _ _ _ _ _ \<Rightarrow> suffix_ok suffix | _ \<Rightarrow> True)"

text \<open>
  One step: an operation that runs to its end or to a crash after any number of its effects, or
  one that fails with an exception and removes its staging directory.
\<close>

inductive store_step :: "(json \<Rightarrow> string) \<Rightarrow> version_store \<Rightarrow> version_store \<Rightarrow> bool" for shown where
  run: "op_ok op \<Longrightarrow> store_step shown st (apply_effects st (take k (op_effects shown op st)))"
| abort: "op_ok op \<Longrightarrow> store_step shown st
    (apply_effects st (take k (op_effects shown op st) @ [Discard (staging_name pid hex tag)]))"

lemma op_harmless:
  assumes "readable shown st" and "op_ok op"
  shows "legal_run (harmless shown) apply_effect st (op_effects shown op st)"
  using assms by (cases op) (simp_all add: create_harmless tree_harmless label_harmless op_ok_def)

lemma store_step_holds:
  assumes "store_step shown st st'" and "readable shown st"
  shows "holds_from shown st st'"
proof -
  have start: "holds_from shown st st" using assms(2) by (simp add: holds_from_def)
  have part: "legal_run (harmless shown) apply_effect st (take k (op_effects shown op st))" if "op_ok op" for k op
    using op_harmless[OF assms(2) that] legal_run_append[of _ _ st "take k (op_effects shown op st)" "drop k (op_effects shown op st)"]
    by simp
  have discard: "legal_run (harmless shown) apply_effect s [Discard (staging_name pid hex tag)]" for s pid hex tag
    by (simp add: staging_hidden)
  show ?thesis using assms(1)
  proof cases
    case (run op k)
    then show ?thesis using effects.run_inv[OF start part] by (simp add: apply_effects_def)
  next
    case (abort op k pid hex tag)
    have "legal_run (harmless shown) apply_effect st (take k (op_effects shown op st) @ [Discard (staging_name pid hex tag)])"
      unfolding legal_run_append using part[OF abort(2)] discard by blast
    from effects.run_inv[OF start this] abort(1) show ?thesis by (simp add: apply_effects_def)
  qed
qed

lemma store_run_holds:
  "(store_step shown)\<^sup>*\<^sup>* st st' \<Longrightarrow> readable shown st \<Longrightarrow> holds_from shown st st'"
proof (induction rule: rtranclp_induct)
  case base
  then show ?case by (simp add: holds_from_def)
next
  case (step y z)
  then have "holds_from shown st y" by blast
  moreover from this have "holds_from shown y z" using store_step_holds[OF step(2)] by (simp add: holds_from_def)
  ultimately show ?case using same_snapshots_trans by (auto simp: holds_from_def)
qed

text \<open>
  C30. History is immutable: whatever operations run on a version store, each to its end, to an
  exception or to a crash between two of its writes, a version that resolves keeps resolving to
  the same bytes (or the same tree), and no row of the manifest ever names a missing snapshot.
\<close>

theorem snapshots_immutable:
  assumes "(store_step shown)\<^sup>*\<^sup>* st st'" and "wf_file (vs_manifest st)"
  shows "(\<forall>tag bytes. resolve_version shown tag st = Inr bytes \<longrightarrow> resolve_version shown tag st' = Inr bytes) \<and>
    (\<forall>tag files. resolve_version_tree shown tag st = Inr files \<longrightarrow> resolve_version_tree shown tag st' = Inr files) \<and>
    (backed shown st \<longrightarrow> backed shown st')"
proof -
  have "readable shown st" using load_ok[OF assms(2)] by (simp add: readable_def)
  from store_run_holds[OF assms(1) this] show ?thesis by (simp add: holds_from_def same_snapshots_def)
qed

section \<open>What was created resolves\<close>

lemma with_version_ok:
  assumes "manifest_ok m" and "valid_tag (vr_tag r)" and "vr_extra r = []" and "map_of (vm_versions m) (vr_tag r) = None"
  shows "manifest_ok (with_version r m) \<and> map_of (vm_versions (canonical (with_version r m))) (vr_tag r) = Some (sorted_record r)"
proof -
  have "(vr_tag r) \<notin> set (od_keys (vm_versions m))" using assms(4) by (simp add: map_of_eq_None_iff)
  then have vs: "vm_versions (with_version r m) = vm_versions m @ [(vr_tag r, r)]"
    by (simp add: with_version_def od_set_absent)
  have ok: "od_ok (vm_versions (with_version r m))" using assms(1) by (simp add: with_version_def manifest_ok_def)
  have "map_of (vm_versions (with_version r m)) (vr_tag r) = Some r" by (simp add: with_version_def)
  then have "map_of (vm_versions (canonical (with_version r m))) (vr_tag r) = Some (sorted_record r)"
    by (simp add: canonical_versions[OF ok])
  moreover have "manifest_ok (with_version r m)"
    using assms vs ok by (simp add: manifest_ok_def record_ok_def) (simp add: with_version_def)
  ultimately show ?thesis by simp
qed

lemma new_record_simps [simp]: "vr_tag (new_record t n x l) = t" "vr_extra (new_record t n x l) = []" "vr_layout (new_record t n x l) = l"
  by (simp_all add: new_record_def)

lemma file_created:
  assumes "wf_file (vs_manifest st)" and "create_version shown (Some bytes) note now st = (Inr r, es)"
  shows "resolve_version shown (vr_tag r) (apply_effects st es) = Inr bytes \<and> resolve_version shown (vr_tag r) st = Inl NotFound"
proof -
  obtain m where m: "load_manifest shown (vs_manifest st) = Inr m"
    using assms(2) by (auto simp: create_version_def split: if_splits sum.splits)
  let ?tag = "next_tag_reconciled (vs_entries st) m"
  note fresh = next_tag_fresh[where entries = "vs_entries st" and m = m]
  have run: "vr_tag r = ?tag" "vr_extra r = []" "vr_layout r = FileLayout"
    "es = [PutFile (md_file ?tag) bytes, PutManifest (manifest_payload (with_version r m))]"
    using assms(2) m by (auto simp: create_version_def Let_def split: if_splits)
  have ok: "manifest_ok (with_version r m)" "map_of (vm_versions (canonical (with_version r m))) ?tag = Some (sorted_record r)"
    using with_version_ok[of m r] load_ok[OF assms(1) m] fresh run by simp_all
  have "load_manifest shown (vs_manifest (apply_effects st es)) = Inr (canonical (with_version r m))"
    using load_payload[OF ok(1)] by (simp add: run apply_effects_def)
  then have "resolve_version shown ?tag (apply_effects st es) = Inr bytes"
    unfolding resolve_version_iff using fresh ok(2) run by (auto simp: apply_effects_def)
  moreover have "resolve_version shown ?tag st = Inl NotFound" using fresh m by (simp add: resolve_version_def validate_tag_def)
  ultimately show ?thesis by (simp add: run)
qed

lemma tree_created:
  assumes "wf_file (vs_manifest st)" and "suffix_ok suffix"
    and "create_tree_version shown suffix aliased misspelt payload note now st = (Inr r, es)"
  shows "resolve_version_tree shown (vr_tag r) (apply_effects st es) = Inr payload"
proof -
  let ?reaped = "map Discard (reap_names st)"
  let ?clean = "apply_effects st ?reaped"
  obtain m where m: "load_manifest shown (vs_manifest st) = Inr m"
    using assms(3) by (auto simp: create_tree_version_def Let_def split: if_splits sum.splits)
  let ?tag = "next_tag_reconciled (vs_entries ?clean) m"
  let ?s = "staging_name (fst suffix) (snd suffix) ?tag"
  let ?pre = "?reaped @ [MakeDir ?s] @ map (\<lambda>p. StageFile ?s (fst p) (snd p)) payload @ [Promote ?s ?tag]"
  note fresh = next_tag_fresh[where entries = "vs_entries ?clean" and m = m]
  have run: "vr_tag r = ?tag" "vr_extra r = []" "vr_layout r = TreeLayout" "distinct (map fst payload)"
    "es = ?pre @ [PutManifest (manifest_payload (with_version r m))]"
    using assms(3) m by (auto simp: create_tree_version_def Let_def split: if_splits)
  have ok: "manifest_ok (with_version r m)" "map_of (vm_versions (canonical (with_version r m))) ?tag = Some (sorted_record r)"
    using with_version_ok[of m r] load_ok[OF assms(1) m] fresh run by simp_all
  have "?tag \<notin> set (reap_names st)"
    using reap_hidden[of st] tag_public(1)[OF fresh(1)] by (auto simp: list_all_iff hidden_effect_def)
  then have free: "map_of (vs_entries st) ?tag = None" using fresh(4) by (simp add: discard_entries)
  note staged = staged_entries[OF assms(2) fresh(1) free run(4)]
  have es: "apply_effects st es = (apply_effects st ?pre)\<lparr>vs_manifest := Doc (manifest_payload (with_version r m))\<rparr>"
    unfolding run(5) by (simp add: apply_effects_def)
  have "resolve_version_tree shown ?tag (apply_effects st es) = Inr payload"
    unfolding resolve_tree_iff es using load_payload[OF ok(1)] fresh(1) ok(2) run(3) staged by simp
  then show ?thesis by (simp add: run)
qed

text \<open>
  A created version holds exactly what was given: a file version resolves to the bytes of
  its source under a tag that was not there before, a tree version to its whole payload.
\<close>

theorem created_version_resolves:
  assumes "wf_file (vs_manifest st)" and "suffix_ok suffix"
  shows "(create_version shown (Some bytes) note now st = (Inr r, es) \<longrightarrow>
      resolve_version shown (vr_tag r) (apply_effects st es) = Inr bytes \<and> resolve_version shown (vr_tag r) st = Inl NotFound) \<and>
    (create_tree_version shown suffix aliased misspelt payload note now st = (Inr r, es) \<longrightarrow>
      resolve_version_tree shown (vr_tag r) (apply_effects st es) = Inr payload)"
  using file_created[OF assms(1)] tree_created[OF assms] by blast

section \<open>Labels move, versions stay\<close>

text \<open>
  Moving a label moves nothing else: afterwards it resolves to what the version resolves to
  (an error included), every other label and every version resolve as before, and a label never
  has the name of a version.
\<close>

theorem label_follows_version:
  assumes "wf_file (vs_manifest st)" and "promote_label shown label version st = (Inr (), es)"
  shows "label_resolver shown label False (apply_effects st es) = resolve_version shown version st \<and>
    (\<forall>l. l \<noteq> label \<longrightarrow> label_resolver shown l False (apply_effects st es) = label_resolver shown l False st) \<and> \<not> valid_tag label"
proof -
  obtain m r where m: "load_manifest shown (vs_manifest st) = Inr m" and r: "map_of (vm_versions m) version = Some r"
    and label: "validate_label_name label = Inr label" and version: "valid_tag version"
    and es: "es = [PutManifest (manifest_payload (m\<lparr>vm_labels := od_set label version (vm_labels m)\<rparr>))]"
    using assms(2) by (auto simp: promote_label_def bind_res_Inr_conv validate_tag_def validate_label_name_def
      split: sum.splits option.splits if_splits)
  let ?m = "m\<lparr>vm_labels := od_set label version (vm_labels m)\<rparr>" and ?st = "apply_effects st es"
  have m_ok: "manifest_ok m" by (rule load_ok[OF assms(1) m])
  have "list_all P (od_set k v d)" if "list_all P d" "P (k, v)" for P :: "string \<times> string \<Rightarrow> bool" and k v d
    using that by (induction d) auto
  then have ok: "manifest_ok ?m" using m_ok label version by (simp add: manifest_ok_def)
  have load: "load_manifest shown (vs_manifest ?st) = Inr (canonical ?m)"
    using load_payload[OF ok] by (simp add: es apply_effects_def)
  have entries: "vs_entries ?st = vs_entries st" by (simp add: es apply_effects_def)
  have rows: "map_of (vm_versions (canonical ?m)) t = map_option sorted_record (map_of (vm_versions m) t)" for t
    using ok canonical_versions[of ?m t] by (simp add: manifest_ok_def)
  have labels: "map_of (vm_labels (canonical ?m)) = (map_of (vm_labels m))(label \<mapsto> version)"
    using ok by (simp add: canonical_def manifest_ok_def)
  have same: "resolve_version shown t ?st = resolve_version shown t st" for t
    unfolding resolve_version_def load m entries bind_res_simps rows
    by (cases "map_of (vm_versions m) t") simp_all
  have names: "label \<notin> set RESERVED_LABELS" "\<not> valid_tag label"
    using label by (auto simp: validate_label_name_def split: if_splits)
  have "label_resolver shown label False ?st = resolve_version shown version st"
    using names same by (simp add: label_resolver_def resolve_label_def load labels)
  moreover have "label_resolver shown l False ?st = label_resolver shown l False st" if "l \<noteq> label" for l
    using that same by (cases "map_of (vm_labels m) l") (simp_all add: label_resolver_def resolve_label_def load labels m)
  ultimately show ?thesis using names by blast
qed

section \<open>An example\<close>

text \<open>An empty store; after one file version and a crash that left an orphan \<open>v2.md\<close>.\<close>

definition sample_store0 :: version_store where
  "sample_store0 = \<lparr>vs_dir = True, vs_manifest = Missing, vs_entries = []\<rparr>"

definition sample_run :: "version_store \<Rightarrow> store_op \<Rightarrow> nat \<Rightarrow> version_store" where
  "sample_run st op k = apply_effects st (take k (op_effects (\<lambda>_. []) op st))"

definition sample_store1 :: version_store where
  "sample_store1 = sample_run sample_store0 (CreateOp (Some [1]) ''n'' ''t'') 2"

definition sample_store2 :: version_store where
  "sample_store2 = sample_run (sample_run sample_store1 (CreateOp (Some [2]) ''n'' ''t'') 1)
     (TreeOp (''7'', ''00ffaa'') False False [(''SKILL.md'', [3])] ''n'' ''t'') 9"

lemma sample_store1_steps: "(store_step (\<lambda>_. []))\<^sup>*\<^sup>* sample_store1 sample_store2"
proof -
  have "store_step (\<lambda>_. []) st (sample_run st op k)" if "op_ok op" for st op k
    unfolding sample_run_def by (rule store_step.run[OF that])
  moreover have "op_ok (CreateOp (Some [2]) ''n'' ''t'')" "op_ok (TreeOp (''7'', ''00ffaa'') False False [(''SKILL.md'', [3])] ''n'' ''t'')"
    by code_simp+
  ultimately show ?thesis unfolding sample_store2_def by (blast intro: rtranclp.intros converse_rtranclp_into_rtranclp)
qed

lemma sample_store_values:
  "resolve_version (\<lambda>_. []) ''v1'' sample_store1 = Inr [1]" "wf_file (vs_manifest sample_store1)"
  "map fst (vs_entries sample_store2) = [''v1.md'', ''v2.md'', ''v3'']"
  "resolve_version_tree (\<lambda>_. []) ''v3'' sample_store2 = Inr [(''SKILL.md'', [3])]"
  by code_simp+

theorem snapshots_immutable_witness:
  "map fst (vs_entries sample_store2) = [''v1.md'', ''v2.md'', ''v3''] \<and> resolve_version (\<lambda>_. []) ''v1'' sample_store2 = Inr [1]"
  using snapshots_immutable[OF sample_store1_steps sample_store_values(2)] sample_store_values(1,3) by blast

theorem created_version_resolves_witness:
  "case create_version (\<lambda>_. []) (Some [2]) ''n'' ''t'' sample_store1 of
     (Inr r, es) \<Rightarrow> vr_tag r = ''v2'' \<and> resolve_version (\<lambda>_. []) ''v2'' (apply_effects sample_store1 es) = Inr [2]
   | _ \<Rightarrow> False"
proof -
  have "case create_version (\<lambda>_. []) (Some [2]) ''n'' ''t'' sample_store1 of (Inr r, es) \<Rightarrow> vr_tag r = ''v2'' | _ \<Rightarrow> False"
    by code_simp
  then obtain r es where run: "create_version (\<lambda>_. []) (Some [2]) ''n'' ''t'' sample_store1 = (Inr r, es)" "vr_tag r = ''v2''"
    by (auto split: prod.splits sum.splits)
  have "suffix_ok (''7'', ''00ffaa'')" by code_simp
  from created_version_resolves[OF sample_store_values(2) this, of "\<lambda>_. []" "[2]" "''n''" "''t''" r es] run show ?thesis by simp
qed

theorem label_follows_version_witness:
  "case promote_label (\<lambda>_. []) ''stable'' ''v1'' sample_store1 of
     (Inr _, es) \<Rightarrow> label_resolver (\<lambda>_. []) ''stable'' False (apply_effects sample_store1 es) = Inr [1]
   | _ \<Rightarrow> False"
proof -
  have "fst (promote_label (\<lambda>_. []) ''stable'' ''v1'' sample_store1) = Inr ()" by code_simp
  then obtain es where run: "promote_label (\<lambda>_. []) ''stable'' ''v1'' sample_store1 = (Inr (), es)" by (metis prod.collapse)
  from label_follows_version[OF sample_store_values(2) run] run sample_store_values(1) show ?thesis by simp
qed

end
