(* ===== verification/DirSwap.thy ===== *)
theory DirSwap
  imports Versions
begin

text \<open>
  The crash-safe replacement of a directory tree (\<open>context/_dir_swap.py\<close>), the grammar of the
  names it works on (\<open>context/_names.py\<close>) and the reaper of crash leftovers around it
  (\<open>context/skills.py\<close>). The state is one canonical root: its entries by name, in the order a
  scan lists them; a root that does not exist has no entries. An operation is the list of the
  atomic file system steps it takes, so a crash is a prefix of that list; \<open>rmtree\<close> is one step
  per file. \<open>faults\<close> says which system calls fail and what a writer outside the lock does.
\<close>

section \<open>Names\<close>

datatype swap_error = InvalidName | BadCall | SwapRecovery | SwapForeign | OsFailed

text \<open>A regular expression \<open>^pre(.*)post\Z\<close>: what stands between two literals.\<close>

definition between :: "'a list \<Rightarrow> 'a list \<Rightarrow> 'a list \<Rightarrow> 'a list option" where
  "between pre post s =
     (if length pre + length post \<le> length s \<and> take (length pre) s = pre \<and> drop (length s - length post) s = post
      then Some (take (length s - (length pre + length post)) (drop (length pre) s)) else None)"

text \<open>\<open><pid>-<w hex digits>\<close>\<close>

definition valid_suffix :: "nat \<Rightarrow> string \<Rightarrow> bool" where
  "valid_suffix w s \<longleftrightarrow> (case split_on (CHR ''-'') s of
      [pid, hex] \<Rightarrow> pid \<noteq> [] \<and> list_all is_digit pid \<and> length hex = w \<and> list_all is_hex hex
    | _ \<Rightarrow> False)"

text \<open>\<open>(?P<owner>.+)-<pid>-<hex>\<close>: the owner takes all but the last two dash-separated parts.\<close>

definition split_owner :: "nat \<Rightarrow> string \<Rightarrow> (string \<times> string) option" where
  "split_owner w body = (case rev (split_on (CHR ''-'') body) of
      hex # pid # p # ps \<Rightarrow>
        (let owner = join_with ''-'' (rev (p # ps)); s = pid @ ''-'' @ hex
         in if valid_suffix w s \<and> owner \<noteq> [] \<and> CHR 0x0A \<notin> set owner then Some (owner, s) else None)
    | _ \<Rightarrow> None)"

definition INTERNAL_ARTIFACT_KINDS :: "string list" where
  "INTERNAL_ARTIFACT_KINDS = [''staging'', ''old'', ''migrate'']"

definition REAPABLE_INTERNAL_ARTIFACT_KINDS :: "string list" where
  "REAPABLE_INTERNAL_ARTIFACT_KINDS = [''staging'', ''old'']"

definition KIND_RAND_HEX :: "string \<Rightarrow> nat" where
  "KIND_RAND_HEX kind = (if kind = ''migrate'' then 8 else 6)"

definition owner_under :: "string \<Rightarrow> string \<Rightarrow> string option" where
  "owner_under kind name =
     map_option fst (Option.bind (between (''.'' @ kind @ ''-'') ''.tmp'' name) (split_owner (KIND_RAND_HEX kind)))"

definition internal_artifact_owner :: "string \<Rightarrow> string option" where
  "internal_artifact_owner name =
     (case List.map_filter (\<lambda>kind. owner_under kind name) INTERNAL_ARTIFACT_KINDS of [] \<Rightarrow> None | owner # _ \<Rightarrow> Some owner)"

definition MAX_LEN :: nat where "MAX_LEN = 64"

text \<open>\<open>[A-Za-z0-9._-]\<close>; the tests for blank names and for path separators follow from it.\<close>

definition name_char :: "char \<Rightarrow> bool" where
  "name_char c \<longleftrightarrow> is_digit c \<or> (65 \<le> (of_char c :: nat) \<and> (of_char c :: nat) \<le> 90)
     \<or> (97 \<le> (of_char c :: nat) \<and> (of_char c :: nat) \<le> 122) \<or> c = CHR ''.'' \<or> c = CHR ''_'' \<or> c = CHR ''-''"

definition valid_name :: "string \<Rightarrow> bool" where
  "valid_name s \<longleftrightarrow> s \<noteq> [] \<and> length s \<le> MAX_LEN \<and> s \<noteq> ''.'' \<and> s \<noteq> ''..'' \<and> hd s \<noteq> CHR ''-'' \<and>
     list_all name_char s \<and> internal_artifact_owner s = None"

text \<open>The four names of one transaction.\<close>

record swap_paths =
  sp_name :: string
  sp_suffix :: string
  sp_dst :: string
  sp_old :: string
  sp_staging :: string
  sp_marker :: string

definition staging_of :: "string \<Rightarrow> string \<Rightarrow> string" where
  "staging_of name s = ''.staging-'' @ (name @ ''-'' @ s) @ ''.tmp''"

definition old_of :: "string \<Rightarrow> string \<Rightarrow> string" where
  "old_of name s = ''.old-'' @ (name @ ''-'' @ s) @ ''.tmp''"

definition marker_of :: "string \<Rightarrow> string" where
  "marker_of body = ''.swap-'' @ body @ ''.json''"

definition swap_paths_of :: "string \<Rightarrow> string \<Rightarrow> swap_paths" where
  "swap_paths_of name s = \<lparr>sp_name = name, sp_suffix = s, sp_dst = name, sp_old = old_of name s,
     sp_staging = staging_of name s, sp_marker = marker_of (name @ ''-'' @ s)\<rparr>"

definition marker_match :: "string \<Rightarrow> string \<Rightarrow> string option" where
  "marker_match name entry = (case between (''.swap-'' @ name @ ''-'') ''.json'' entry of
      Some s \<Rightarrow> if valid_suffix 6 s then Some s else None
    | None \<Rightarrow> None)"

definition staging_match :: "string \<Rightarrow> string \<Rightarrow> string option" where
  "staging_match name entry = (case between (''.staging-'' @ name @ ''-'') ''.tmp'' entry of
      Some s \<Rightarrow> if valid_suffix 6 s then Some s else None
    | None \<Rightarrow> None)"

definition staging_path_for :: "string \<Rightarrow> string \<Rightarrow> (swap_error, string) result" where
  "staging_path_for dst s = (if valid_suffix 6 s then Inr (staging_of dst s) else Inl BadCall)"

text \<open>The body of a transient name, which its marker carries verbatim.\<close>

definition transient_body :: "string \<Rightarrow> string option" where
  "transient_body entry =
     (case between ''.staging-'' ''.tmp'' entry of
        Some body \<Rightarrow> if split_owner 6 body \<noteq> None then Some body else None
      | None \<Rightarrow> (case between ''.old-'' ''.tmp'' entry of
            Some body \<Rightarrow> if split_owner 6 body \<noteq> None then Some body else None
          | None \<Rightarrow> None))"

section \<open>The canonical root\<close>

text \<open>What the bounded read of a regular file and \<open>json.loads\<close> make of it.\<close>

datatype file_text = Loaded json | NotJson | TooLong | NoAccess

datatype node = Tree "(string \<times> ustr) list" | Plain file_text | Link | Special

type_synonym canon_root = "(string, node) odict"

datatype fs_step = Create string node | Move string string | Remove string | DropFile string string

fun fs_apply :: "canon_root \<Rightarrow> fs_step \<Rightarrow> canon_root" where
  "fs_apply st (Create x v) = od_set x v st"
| "fs_apply st (Move x y) = (case map_of st x of Some v \<Rightarrow> od_set y v (od_del x st) | None \<Rightarrow> st)"
| "fs_apply st (Remove x) = od_del x st"
| "fs_apply st (DropFile x rel) = (case map_of st x of
      Some (Tree files) \<Rightarrow> od_set x (Tree (filter (\<lambda>f. fst f \<noteq> rel) files)) st
    | _ \<Rightarrow> st)"

definition fs_run :: "canon_root \<Rightarrow> fs_step list \<Rightarrow> canon_root" where
  "fs_run = foldl fs_apply"

text \<open>
  Which calls fail: the marker write, a rename from one name to another, the unlink of the
  marker, and the removal of a tree after so many steps. \<open>intruder\<close> is what a writer outside
  the lock puts at the destination while it is absent.
\<close>

record faults =
  no_marker :: bool
  no_move :: "string \<Rightarrow> string \<Rightarrow> bool"
  no_unlink :: bool
  rmtree_stop :: "string \<Rightarrow> nat option"
  intruder :: "node option"
  clock :: string

type_synonym 'a swap_run = "(swap_error, 'a) result \<times> fs_step list"

text \<open>One operation after another, on the state the first one leaves; an exception ends both.\<close>

definition run_then :: "canon_root \<Rightarrow> 'a swap_run \<Rightarrow> (canon_root \<Rightarrow> 'a \<Rightarrow> 'b swap_run) \<Rightarrow> 'b swap_run" where
  "run_then st r f = (case fst r of
      Inl e \<Rightarrow> (Inl e, snd r)
    | Inr x \<Rightarrow> (let q = f (fs_run st (snd r)) x in (fst q, snd r @ snd q)))"

definition is_tree :: "canon_root \<Rightarrow> string \<Rightarrow> bool" where
  "is_tree st x = (case map_of st x of Some (Tree _) \<Rightarrow> True | _ \<Rightarrow> False)"

definition marker_owns_transient :: "canon_root \<Rightarrow> string \<Rightarrow> bool" where
  "marker_owns_transient st x = (case transient_body x of
      None \<Rightarrow> False
    | Some body \<Rightarrow> (case map_of st (marker_of body) of Some (Plain _) \<Rightarrow> True | _ \<Rightarrow> False))"

datatype rename_error = Occupied | Refused

definition rename_no_replace :: "faults \<Rightarrow> canon_root \<Rightarrow> string \<Rightarrow> string \<Rightarrow> (rename_error, fs_step list) result" where
  "rename_no_replace F st src tgt =
     (if map_of st src = None then Inl Refused
      else if map_of st tgt \<noteq> None then Inl Occupied
      else if no_move F src tgt then Inl Refused
      else Inr [Move src tgt])"

definition removal :: "faults \<Rightarrow> string \<Rightarrow> fs_step list \<Rightarrow> fs_step list" where
  "removal F x steps = (case rmtree_stop F x of None \<Rightarrow> steps | Some k \<Rightarrow> take k steps)"

definition rmtree_quietly :: "faults \<Rightarrow> string \<Rightarrow> canon_root \<Rightarrow> fs_step list" where
  "rmtree_quietly F x st = (case map_of st x of
      Some (Tree files) \<Rightarrow> removal F x (map (\<lambda>f. DropFile x (fst f)) files @ [Remove x])
    | _ \<Rightarrow> [])"

definition outsider :: "faults \<Rightarrow> string \<Rightarrow> fs_step list" where
  "outsider F x = (case intruder F of None \<Rightarrow> [] | Some v \<Rightarrow> [Create x v])"

section \<open>The marker\<close>

definition MARKER_VERSION :: int where "MARKER_VERSION = 1"

definition marker_fields :: "swap_paths \<Rightarrow> (string \<times> string) list" where
  "marker_fields P = [(''name'', sp_name P), (''suffix'', sp_suffix P), (''dst'', sp_dst P),
     (''old'', sp_old P), (''staging'', sp_staging P)]"

definition marker_payload :: "string \<Rightarrow> swap_paths \<Rightarrow> json" where
  "marker_payload now P = JObj [(''created_at'', JStr now), (''dst'', JStr (sp_dst P)), (''name'', JStr (sp_name P)),
     (''old'', JStr (sp_old P)), (''staging'', JStr (sp_staging P)), (''suffix'', JStr (sp_suffix P)),
     (''version'', JInt MARKER_VERSION)]"

text \<open>\<open>payload.get("version") != 1\<close>: True and 1.0 are equal to 1.\<close>

definition version_is_one :: "json \<Rightarrow> bool" where
  "version_is_one j = (case j of JInt i \<Rightarrow> i = MARKER_VERSION | JBool b \<Rightarrow> b | JFloat r \<Rightarrow> r = 1 | _ \<Rightarrow> False)"

definition find_marker :: "string \<Rightarrow> canon_root \<Rightarrow> (swap_error, string option) result" where
  "find_marker name st = (case filter (\<lambda>x. marker_match name x \<noteq> None) (od_keys st) of
      [] \<Rightarrow> Inr None
    | [m] \<Rightarrow> Inr (Some m)
    | _ \<Rightarrow> Inl SwapRecovery)"

definition has_pending_swap :: "string \<Rightarrow> canon_root \<Rightarrow> bool" where
  "has_pending_swap name st = (case find_marker name st of Inl _ \<Rightarrow> True | Inr m \<Rightarrow> m \<noteq> None)"

definition load_marker :: "string \<Rightarrow> node option \<Rightarrow> string \<Rightarrow> (swap_error, swap_paths) result" where
  "load_marker marker content name = (case marker_match name marker of
      None \<Rightarrow> Inl SwapRecovery
    | Some s \<Rightarrow> (case content of
          Some (Plain (Loaded (JObj payload))) \<Rightarrow>
            (let P = swap_paths_of name s
             in if version_is_one (j_get payload ''version'') \<and>
                   list_all (\<lambda>(field, want). j_get payload field = JStr want) (marker_fields P)
                then Inr P else Inl SwapRecovery)
        | _ \<Rightarrow> Inl SwapRecovery))"

definition barrier_unlink_marker :: "faults \<Rightarrow> swap_paths \<Rightarrow> bool \<times> fs_step list" where
  "barrier_unlink_marker F P = (if no_unlink F then (False, []) else (True, [Remove (sp_marker P)]))"

definition clear_marker_or_refuse :: "faults \<Rightarrow> swap_paths \<Rightarrow> unit swap_run" where
  "clear_marker_or_refuse F P =
     (let b = barrier_unlink_marker F P in (if fst b then Inr () else Inl SwapRecovery, snd b))"

section \<open>The forward protocol\<close>

text \<open>The barrier, and the tree it frees only when the marker is gone.\<close>

definition unlink_then_drop :: "faults \<Rightarrow> swap_paths \<Rightarrow> string \<Rightarrow> canon_root \<Rightarrow> fs_step list" where
  "unlink_then_drop F P x st =
     (let b = barrier_unlink_marker F P
      in snd b @ (if fst b then rmtree_quietly F x (fs_run st (snd b)) else []))"

definition unwind_rename1 :: "faults \<Rightarrow> swap_paths \<Rightarrow> canon_root \<Rightarrow> fs_step list" where
  "unwind_rename1 F P st = unlink_then_drop F P (sp_staging P) st"

definition unwind_rename2 :: "faults \<Rightarrow> swap_paths \<Rightarrow> canon_root \<Rightarrow> unit swap_run" where
  "unwind_rename2 F P st = (case rename_no_replace F st (sp_old P) (sp_dst P) of
      Inl _ \<Rightarrow> (Inl SwapRecovery, [])
    | Inr back \<Rightarrow> (Inl OsFailed, back @ unlink_then_drop F P (sp_staging P) (fs_run st back)))"

definition post_commit_cleanup :: "faults \<Rightarrow> swap_paths \<Rightarrow> canon_root \<Rightarrow> fs_step list" where
  "post_commit_cleanup F P st = unlink_then_drop F P (sp_old P) st"

definition rename_in :: "faults \<Rightarrow> swap_paths \<Rightarrow> canon_root \<Rightarrow> unit swap_run" where
  "rename_in F P st = (case rename_no_replace F st (sp_staging P) (sp_dst P) of
      Inl _ \<Rightarrow> unwind_rename2 F P st
    | Inr commit \<Rightarrow> (Inr (), commit @ post_commit_cleanup F P (fs_run st commit)))"

definition rename_aside :: "faults \<Rightarrow> swap_paths \<Rightarrow> canon_root \<Rightarrow> unit swap_run" where
  "rename_aside F P st = (case rename_no_replace F st (sp_dst P) (sp_old P) of
      Inl _ \<Rightarrow> (Inl OsFailed, unwind_rename1 F P st)
    | Inr aside \<Rightarrow> run_then st (Inr (), aside @ outsider F (sp_dst P)) (\<lambda>st' _. rename_in F P st'))"

definition swap_dir_tree :: "faults \<Rightarrow> string \<Rightarrow> string \<Rightarrow> canon_root \<Rightarrow> unit swap_run" where
  "swap_dir_tree F staging dst st =
     (if \<not> valid_name dst then (Inl InvalidName, [])
      else case staging_match dst staging of
          None \<Rightarrow> (Inl BadCall, [])
        | Some s \<Rightarrow>
            (case find_marker dst st of
               Inl e \<Rightarrow> (Inl e, [])
             | Inr (Some _) \<Rightarrow> (Inl SwapRecovery, [])
             | Inr None \<Rightarrow>
                 if \<not> is_tree st staging \<or> \<not> is_tree st dst then (Inl BadCall, [])
                 else let P = swap_paths_of dst s
                   in if no_marker F then (Inl OsFailed, rmtree_quietly F (sp_staging P) st)
                      else run_then st (Inr (), [Create (sp_marker P) (Plain (Loaded (marker_payload (clock F) P)))])
                             (\<lambda>st' _. rename_aside F P st')))"

section \<open>Recovery\<close>

definition present_dir :: "canon_root \<Rightarrow> string \<Rightarrow> (swap_error, bool) result" where
  "present_dir st x = (case map_of st x of None \<Rightarrow> Inr False | Some (Tree _) \<Rightarrow> Inr True | Some _ \<Rightarrow> Inl SwapRecovery)"

definition rename_recovery :: "faults \<Rightarrow> string \<Rightarrow> string \<Rightarrow> canon_root \<Rightarrow> unit swap_run" where
  "rename_recovery F src tgt st =
     (let es = outsider F tgt
      in case rename_no_replace F (fs_run st es) src tgt of
           Inl Occupied \<Rightarrow> (Inl SwapForeign, es)
         | Inl Refused \<Rightarrow> (Inl SwapRecovery, es)
         | Inr m \<Rightarrow> (Inr (), es @ m))"

text \<open>The table of \<open>recover_pending_swaps\<close>: destination, old and staging present or not.\<close>

fun recover_row :: "faults \<Rightarrow> swap_paths \<Rightarrow> bool \<Rightarrow> bool \<Rightarrow> bool \<Rightarrow> canon_root \<Rightarrow> unit swap_run" where
  "recover_row F P True False True st =
     run_then st (Inr (), rmtree_quietly F (sp_staging P) st) (\<lambda>_ _. clear_marker_or_refuse F P)"
| "recover_row F P False True True st =
     run_then st (rename_recovery F (sp_staging P) (sp_dst P) st) (\<lambda>st1 _.
       run_then st1 (clear_marker_or_refuse F P) (\<lambda>st2 _. (Inr (), rmtree_quietly F (sp_old P) st2)))"
| "recover_row F P True True False st =
     run_then st (clear_marker_or_refuse F P) (\<lambda>st1 _. (Inr (), rmtree_quietly F (sp_old P) st1))"
| "recover_row F P True True True st = (Inl SwapForeign, [])"
| "recover_row F P False True False st =
     run_then st (rename_recovery F (sp_old P) (sp_dst P) st) (\<lambda>_ _. clear_marker_or_refuse F P)"
| "recover_row F P False False True st =
     run_then st (rename_recovery F (sp_staging P) (sp_dst P) st) (\<lambda>_ _. clear_marker_or_refuse F P)"
| "recover_row F P _ False False st = clear_marker_or_refuse F P"

definition recover_pending_swaps :: "faults \<Rightarrow> string \<Rightarrow> canon_root \<Rightarrow> bool swap_run" where
  "recover_pending_swaps F name st =
     (if \<not> valid_name name then (Inl InvalidName, [])
      else case find_marker name st of
          Inl e \<Rightarrow> (Inl e, [])
        | Inr None \<Rightarrow> (Inr False, [])
        | Inr (Some marker) \<Rightarrow>
            (case bind_res (load_marker marker (map_of st marker) name) (\<lambda>P.
                    bind_res (present_dir st (sp_dst P)) (\<lambda>d. bind_res (present_dir st (sp_old P)) (\<lambda>old.
                      bind_res (present_dir st (sp_staging P)) (\<lambda>t. Inr (P, d, old, t))))) of
               Inl e \<Rightarrow> (Inl e, [])
             | Inr (P, d, old, t) \<Rightarrow> run_then st (recover_row F P d old t st) (\<lambda>_ _. (Inr True, []))))"

section \<open>The prelude of every writer\<close>

definition remove_internal_artifact :: "faults \<Rightarrow> string \<Rightarrow> canon_root \<Rightarrow> fs_step list" where
  "remove_internal_artifact F x st = (case map_of st x of
      Some (Tree _) \<Rightarrow> rmtree_quietly F x st
    | Some Link \<Rightarrow> removal F x [Remove x]
    | _ \<Rightarrow> [])"

definition iter_own_internal_dirs :: "string \<Rightarrow> string list \<Rightarrow> canon_root \<Rightarrow> (string \<times> string) list" where
  "iter_own_internal_dirs name kinds st =
     concat (map (\<lambda>kind. map (Pair kind) (filter (\<lambda>x. between (''.'' @ kind @ ''-'' @ name @ ''-'') ''.tmp'' x \<noteq> None \<and>
       internal_artifact_owner x = Some name \<and> \<not> marker_owns_transient st x) (od_keys st))) kinds)"

fun reap_all :: "faults \<Rightarrow> string list \<Rightarrow> canon_root \<Rightarrow> fs_step list" where
  "reap_all F [] st = []"
| "reap_all F (x # xs) st = (let es = remove_internal_artifact F x st in es @ reap_all F xs (fs_run st es))"

definition reap_move_aside :: "faults \<Rightarrow> string \<Rightarrow> canon_root \<Rightarrow> fs_step list" where
  "reap_move_aside F name st =
     (if is_tree st name then reap_all F (map snd (iter_own_internal_dirs name [''old''] st)) st else [])"

definition recover_and_reap :: "faults \<Rightarrow> string \<Rightarrow> canon_root \<Rightarrow> unit swap_run" where
  "recover_and_reap F name st =
     run_then st (recover_pending_swaps F name st) (\<lambda>st' _.
       (Inr (), reap_all F (map snd (filter (\<lambda>(kind, _). kind = ''old'' \<longrightarrow> is_tree st' name)
          (iter_own_internal_dirs name REAPABLE_INTERNAL_ARTIFACT_KINDS st'))) st'))"

definition run_swap_prelude :: "faults \<Rightarrow> string \<Rightarrow> bool \<Rightarrow> string \<Rightarrow> canon_root \<Rightarrow> unit swap_run" where
  "run_swap_prelude F kind noncanonical name st =
     (if kind \<noteq> ''skills'' \<or> (noncanonical \<and> \<not> valid_name name) then (Inr (), [])
      else recover_and_reap F name st)"

section \<open>The grammar of names is unambiguous\<close>

lemma between_Some: "between pre post s = Some m \<longleftrightarrow> s = pre @ m @ post"
proof
  assume "between pre post s = Some m"
  then have len: "length pre + length post \<le> length s" and pre: "take (length pre) s = pre"
    and post: "drop (length s - length post) s = post"
    and m: "m = take (length s - (length pre + length post)) (drop (length pre) s)"
    by (auto simp: between_def split: if_splits)
  have "drop (length pre) s = m @ drop (length s - (length pre + length post)) (drop (length pre) s)"
    unfolding m by (rule append_take_drop_id[symmetric])
  also have "drop (length s - (length pre + length post)) (drop (length pre) s) = post"
    using len post by (simp add: add.commute)
  finally show "s = pre @ m @ post" using pre append_take_drop_id[of "length pre" s] by simp
qed (simp add: between_def)

lemma suffix_parts:
  assumes "valid_suffix w s"
  obtains pid hex where "s = pid @ ''-'' @ hex" and "split_on (CHR ''-'') s = [pid, hex]"
    and "valid_suffix w (pid @ ''-'' @ hex)"
proof -
  obtain pid hex where parts: "split_on (CHR ''-'') s = [pid, hex]"
    using assms by (auto simp: valid_suffix_def split: list.splits)
  have "s = pid @ ''-'' @ hex" using join_split_on[of "CHR ''-''" s] parts by simp
  then show thesis using that parts assms by simp
qed

lemma split_body: "valid_suffix w s \<Longrightarrow> \<exists>pid hex. s = pid @ ''-'' @ hex \<and>
    split_on (CHR ''-'') (name @ ''-'' @ s) = split_on (CHR ''-'') name @ [pid, hex]"
  by (erule suffix_parts) auto

lemma body_inj:
  assumes "valid_suffix w s" "valid_suffix w' s'" and eq: "a @ ''-'' @ s = b @ ''-'' @ s'"
  shows "a = b \<and> s = s'"
proof -
  obtain pid hex where s: "s = pid @ ''-'' @ hex" "split_on (CHR ''-'') (a @ ''-'' @ s) = split_on (CHR ''-'') a @ [pid, hex]"
    using split_body[OF assms(1)] by blast
  obtain pid' hex' where s': "s' = pid' @ ''-'' @ hex'" "split_on (CHR ''-'') (b @ ''-'' @ s') = split_on (CHR ''-'') b @ [pid', hex']"
    using split_body[OF assms(2)] by blast
  have "split_on (CHR ''-'') a @ [pid, hex] = split_on (CHR ''-'') b @ [pid', hex']" by (simp only: s(2)[symmetric] s'(2)[symmetric] eq)
  then have "split_on (CHR ''-'') a = split_on (CHR ''-'') b" "pid = pid'" "hex = hex'" by simp_all
  then show ?thesis using s s' by (metis join_split_on)
qed

lemma join_with_two: "xs \<noteq> [] \<Longrightarrow> join_with sep (xs @ [a, b]) = join_with sep xs @ sep @ a @ sep @ b"
  by (induction sep xs rule: join_with.induct) simp_all

lemma split_owner_Some:
  "split_owner w body = Some (owner, s) \<longleftrightarrow>
     body = owner @ ''-'' @ s \<and> valid_suffix w s \<and> owner \<noteq> [] \<and> CHR 0x0A \<notin> set owner"
  (is "?l \<longleftrightarrow> ?r")
proof
  assume ?l
  then obtain hex pid p ps where rs: "rev (split_on (CHR ''-'') body) = hex # pid # p # ps"
    and o: "owner = join_with ''-'' (rev (p # ps))" "s = pid @ ''-'' @ hex" "valid_suffix w s" "owner \<noteq> []" "CHR 0x0A \<notin> set owner"
    by (auto simp: split_owner_def Let_def split: list.splits if_splits)
  have parts: "split_on (CHR ''-'') body = rev (p # ps) @ [pid, hex]" using arg_cong[OF rs, of rev] by simp
  from join_with_two[of "rev (p # ps)" "''-''" pid hex] have "join_with ''-'' (rev (p # ps) @ [pid, hex]) = owner @ ''-'' @ s" by (simp add: o)
  then have "body = owner @ ''-'' @ s" using join_split_on[of "CHR ''-''" body] by (simp only: parts)
  with o show ?r by simp
next
  assume r: ?r
  obtain pid hex where s: "s = pid @ ''-'' @ hex" "split_on (CHR ''-'') (owner @ ''-'' @ s) = split_on (CHR ''-'') owner @ [pid, hex]"
    using split_body r by blast
  obtain p ps where ps: "rev (split_on (CHR ''-'') owner) = p # ps"
    using split_on_not_Nil[of "CHR ''-''" owner] by (cases "rev (split_on (CHR ''-'') owner)") simp_all
  have "rev (split_on (CHR ''-'') body) = rev (split_on (CHR ''-'') owner @ [pid, hex])" using r s(2) by (simp only:)
  then have "rev (split_on (CHR ''-'') body) = hex # pid # p # ps" using ps by simp
  moreover have "join_with ''-'' (rev (p # ps)) = owner" using arg_cong[OF ps, of rev] join_split_on[of "CHR ''-''" owner] by simp
  ultimately show ?l using r s(1) by (simp only: split_owner_def list.case Let_def) simp
qed

lemma owner_under_iff:
  "owner_under kind x = Some owner \<longleftrightarrow> (\<exists>s. x = ''.'' @ kind @ ''-'' @ owner @ ''-'' @ s @ ''.tmp'' \<and>
     valid_suffix (KIND_RAND_HEX kind) s \<and> owner \<noteq> [] \<and> CHR 0x0A \<notin> set owner)"
  by (auto simp: owner_under_def bind_eq_Some_conv between_Some split_owner_Some)

lemma marker_match_iff:
  "marker_match name x = Some s \<longleftrightarrow> x = marker_of (name @ ''-'' @ s) \<and> valid_suffix 6 s"
proof -
  have "marker_match name x = Some s \<longleftrightarrow> between (''.swap-'' @ name @ ''-'') ''.json'' x = Some s \<and> valid_suffix 6 s"
    by (auto simp: marker_match_def split: option.splits)
  then show ?thesis by (simp add: between_Some marker_of_def)
qed

lemma staging_match_iff:
  "staging_match name x = Some s \<longleftrightarrow> x = staging_of name s \<and> valid_suffix 6 s"
proof -
  have "staging_match name x = Some s \<longleftrightarrow> between (''.staging-'' @ name @ ''-'') ''.tmp'' x = Some s \<and> valid_suffix 6 s"
    by (auto simp: staging_match_def split: option.splits)
  then show ?thesis by (simp add: between_Some staging_of_def)
qed

text \<open>
  A name that is shaped like a marker passes \<open>validate_name\<close>; an artifact of such a name is
  mistaken for the marker of another one. The theorems are about the other names.
\<close>

definition plain_name :: "string \<Rightarrow> bool" where
  "plain_name n \<longleftrightarrow> valid_name n \<and> between ''.swap-'' ''.json'' n = None"

definition belongs :: "string \<Rightarrow> string \<Rightarrow> bool" where
  "belongs n x \<longleftrightarrow> x = n \<or> marker_match n x \<noteq> None \<or> owner_under ''staging'' x = Some n \<or> owner_under ''old'' x = Some n"

lemma plain_not_marker: "plain_name n \<Longrightarrow> marker_match m n = None"
proof (cases "marker_match m n")
  case (Some s)
  assume "plain_name n"
  moreover have "between ''.swap-'' ''.json'' n = Some (m @ ''-'' @ s)"
    using Some by (simp add: marker_match_iff marker_of_def between_Some)
  ultimately show ?thesis by (simp add: plain_name_def)
qed simp

lemma plain_no_owner: "plain_name n \<Longrightarrow> kind \<in> set INTERNAL_ARTIFACT_KINDS \<Longrightarrow> owner_under kind n = None"
  by (cases "owner_under kind n")
    (auto simp: plain_name_def valid_name_def internal_artifact_owner_def INTERNAL_ARTIFACT_KINDS_def List.map_filter_def
      split: list.splits if_splits)

lemma kinds_apart:
  "owner_under ''staging'' x = Some a \<Longrightarrow> owner_under ''old'' x = None"
  "owner_under ''staging'' x = Some a \<Longrightarrow> marker_match b x = None"
  "owner_under ''old'' x = Some a \<Longrightarrow> marker_match b x = None"
proof -
  show "owner_under ''staging'' x = Some a \<Longrightarrow> owner_under ''old'' x = None"
    by (cases "owner_under ''old'' x") (auto simp: owner_under_iff)
  show "owner_under ''staging'' x = Some a \<Longrightarrow> marker_match b x = None"
    by (cases "marker_match b x") (auto simp: owner_under_iff marker_match_iff marker_of_def)
  show "owner_under ''old'' x = Some a \<Longrightarrow> marker_match b x = None"
    by (cases "marker_match b x") (auto simp: owner_under_iff marker_match_iff marker_of_def)
qed

lemma marker_inj: "marker_match m x \<noteq> None \<Longrightarrow> marker_match n x \<noteq> None \<Longrightarrow> m = n"
proof -
  assume "marker_match m x \<noteq> None" "marker_match n x \<noteq> None"
  then obtain s s' where "marker_match m x = Some s" "marker_match n x = Some s'" by blast
  then have "marker_of (m @ ''-'' @ s) = marker_of (n @ ''-'' @ s')" "valid_suffix 6 s" "valid_suffix 6 s'"
    by (simp_all add: marker_match_iff)
  then show "m = n" using body_inj[of 6 s 6 s' m n] by (simp add: marker_of_def)
qed

lemma belongs_inj:
  assumes "plain_name m" "plain_name n" "belongs m x" "belongs n x"
  shows "m = n"
  using assms plain_not_marker[of m] plain_not_marker[of n] plain_no_owner[of m] plain_no_owner[of n]
    kinds_apart[of x] marker_inj[of m x n]
  by (auto simp: belongs_def INTERNAL_ARTIFACT_KINDS_def)

section \<open>Runs of file system steps\<close>

lemma fs_run_simps [simp]:
  "fs_run st [] = st" "fs_run st (e # es) = fs_run (fs_apply st e) es"
  "fs_run st (es @ fs) = fs_run (fs_run st es) fs"
  by (simp_all add: fs_run_def)

lemma fs_apply_ok [simp]: "od_ok st \<Longrightarrow> od_ok (fs_apply st e)"
  by (cases e) (auto split: option.splits node.splits)

lemma fs_run_ok: "od_ok st \<Longrightarrow> od_ok (fs_run st es)"
  by (induction es arbitrary: st) auto

primrec stays :: "(canon_root \<Rightarrow> bool) \<Rightarrow> canon_root \<Rightarrow> fs_step list \<Rightarrow> bool" where
  "stays P st [] = P st"
| "stays P st (e # es) = (P st \<and> stays P (fs_apply st e) es)"

lemma stays_append [simp]: "stays P st (es @ fs) \<longleftrightarrow> stays P st es \<and> stays P (fs_run st es) fs"
proof (induction es arbitrary: st)
  case Nil
  show ?case by (cases fs) auto
qed auto

lemma stays_prefix: "stays P st es \<Longrightarrow> P (fs_run st (take k es))"
proof (induction es arbitrary: st k)
  case (Cons e es)
  then show ?case by (cases k) auto
qed simp

lemma stays_end: "stays P st es \<Longrightarrow> P (fs_run st es)"
  using stays_prefix[of P st es "length es"] by simp

lemma stays_start: "stays P st es \<Longrightarrow> P st"
  using stays_prefix[of P st es 0] by simp

text \<open>The names a step writes, and runs that stay on some of them.\<close>

fun touches :: "fs_step \<Rightarrow> string list" where
  "touches (Create x v) = [x]"
| "touches (Move x y) = [x, y]"
| "touches (Remove x) = [x]"
| "touches (DropFile x rel) = [x]"

definition confined :: "(string \<Rightarrow> bool) \<Rightarrow> fs_step list \<Rightarrow> bool" where
  "confined A es \<longleftrightarrow> list_all (\<lambda>e. list_all A (touches e)) es"

lemma confined_simps [simp]:
  "confined A []" "confined A (e # es) \<longleftrightarrow> list_all A (touches e) \<and> confined A es"
  "confined A (es @ fs) \<longleftrightarrow> confined A es \<and> confined A fs"
  by (auto simp: confined_def)

lemma confined_take: "confined A es \<Longrightarrow> confined A (take k es)"
  by (metis append_take_drop_id confined_simps(3))

lemma apply_frame: "x \<notin> set (touches e) \<Longrightarrow> map_of (fs_apply st e) x = map_of st x"
  by (cases e) (auto split: option.splits node.splits)

lemma run_frame: "confined A es \<Longrightarrow> \<not> A x \<Longrightarrow> map_of (fs_run st es) x = map_of st x"
proof (induction es arbitrary: st)
  case (Cons e es)
  then have "x \<notin> set (touches e)" by (auto simp: list_all_iff)
  with Cons show ?case by (simp add: apply_frame)
qed simp

text \<open>Another root that differs in one entry, and there only by what removing a tree leaves.\<close>

definition tree_or_none :: "node option \<Rightarrow> bool" where
  "tree_or_none v = (case v of None \<Rightarrow> True | Some (Tree _) \<Rightarrow> True | _ \<Rightarrow> False)"

definition agree_off :: "string \<Rightarrow> canon_root \<Rightarrow> canon_root \<Rightarrow> bool" where
  "agree_off x st st' \<longleftrightarrow> od_ok st' \<and> (\<forall>y. y \<noteq> x \<longrightarrow> map_of st' y = map_of st y)"

lemma agree_offD: "agree_off x st st' \<Longrightarrow> y \<noteq> x \<Longrightarrow> map_of st' y = map_of st y"
  and agree_off_ok: "agree_off x st st' \<Longrightarrow> od_ok st'"
  by (simp_all add: agree_off_def)

lemma drop_files_stays:
  assumes "map_of st x = Some (Tree files)" and "od_ok st"
    and P: "\<And>st'. agree_off x st st' \<Longrightarrow> tree_or_none (map_of st' x) \<Longrightarrow> P st'"
  shows "stays P st (map (\<lambda>f. DropFile x (fst f)) fs @ [Remove x])"
  using assms
proof (induction fs arbitrary: st files)
  case Nil
  have "P st" using Nil by (simp add: agree_off_def tree_or_none_def)
  moreover have "P (od_del x st)" using Nil(2) by (intro Nil(3)) (simp_all add: agree_off_def tree_or_none_def)
  ultimately show ?case by simp
next
  case (Cons f fs)
  have "P st" using Cons.prems by (simp add: agree_off_def tree_or_none_def)
  moreover have "stays P (fs_apply st (DropFile x (fst f))) (map (\<lambda>f. DropFile x (fst f)) fs @ [Remove x])"
    using Cons.prems by (intro Cons.IH) (auto simp: agree_off_def)
  ultimately show ?case by simp
qed

lemma rmtree_confined: "confined A (rmtree_quietly F x st)" if "A x"
proof -
  have "confined A (map (\<lambda>f. DropFile x (fst f)) fs @ [Remove x])" for fs :: "(string \<times> ustr) list"
    using that by (simp add: confined_def list_all_iff)
  then show ?thesis
    by (auto simp: rmtree_quietly_def removal_def split: option.splits node.splits intro: confined_take)
qed

lemma stays_take: "stays P st es \<Longrightarrow> stays P st (take k es)"
proof (induction es arbitrary: st k)
  case (Cons e es)
  then show ?case by (cases k) auto
qed simp

lemma rmtree_stays:
  assumes "P st" and "od_ok st" and "\<And>st'. agree_off x st st' \<Longrightarrow> tree_or_none (map_of st' x) \<Longrightarrow> P st'"
  shows "stays P st (rmtree_quietly F x st)"
proof (cases "is_tree st x")
  case True
  then obtain files where t: "map_of st x = Some (Tree files)"
    by (auto simp: is_tree_def split: option.splits node.splits)
  have "stays P st (map (\<lambda>f. DropFile x (fst f)) files @ [Remove x])"
    by (rule drop_files_stays[OF t assms(2,3)])
  then have "stays P st (removal F x (map (\<lambda>f. DropFile x (fst f)) files @ [Remove x]))"
    by (cases "rmtree_stop F x") (simp_all only: removal_def option.case stays_take)
  then show ?thesis by (simp only: rmtree_quietly_def t option.case node.case)
next
  case False
  then have "rmtree_quietly F x st = []"
    by (auto simp: is_tree_def rmtree_quietly_def split: option.splits node.splits)
  with assms(1) show ?thesis by simp
qed

lemma rmtree_end: "od_ok st \<Longrightarrow> agree_off x st (fs_run st (rmtree_quietly F x st))"
proof -
  assume "od_ok st"
  then have "stays (agree_off x st) st (rmtree_quietly F x st)" by (intro rmtree_stays) (simp_all add: agree_off_def)
  then show ?thesis by (rule stays_end)
qed

lemma rmtree_gone:
  assumes "tree_or_none (map_of st x)" and "rmtree_stop F x = None"
  shows "map_of (fs_run st (rmtree_quietly F x st)) x = None"
  using assms by (auto simp: rmtree_quietly_def removal_def tree_or_none_def split: option.splits node.splits)

section \<open>What a crash can leave\<close>

definition good_tree :: "((string \<times> ustr) list \<Rightarrow> bool) \<Rightarrow> node option \<Rightarrow> bool" where
  "good_tree good v = (case v of Some (Tree files) \<Rightarrow> good files | _ \<Rightarrow> False)"

text \<open>
  Under a live marker the destination is complete and at most one transient is there, or the
  destination is absent and both the original and the replacement are complete.
\<close>

definition swap_shape :: "((string \<times> ustr) list \<Rightarrow> bool) \<Rightarrow> node option \<Rightarrow> node option \<Rightarrow> node option \<Rightarrow> bool" where
  "swap_shape good d old t \<longleftrightarrow>
     (if d = None then good_tree good old \<and> good_tree good t
      else good_tree good d \<and> tree_or_none old \<and> tree_or_none t \<and> (old = None \<or> t = None))"

definition held :: "((string \<times> ustr) list \<Rightarrow> bool) \<Rightarrow> string \<Rightarrow> canon_root \<Rightarrow> bool" where
  "held good n st \<longleftrightarrow> od_ok st \<and> (case find_marker n st of
      Inl _ \<Rightarrow> False
    | Inr None \<Rightarrow> good_tree good (map_of st n)
    | Inr (Some m) \<Rightarrow> (case load_marker m (map_of st m) n of
          Inl _ \<Rightarrow> False
        | Inr P \<Rightarrow> swap_shape good (map_of st (sp_dst P)) (map_of st (sp_old P)) (map_of st (sp_staging P))))"

text \<open>No marker of \<open>n\<close> but \<open>m\<close>.\<close>

definition sole_marker :: "string \<Rightarrow> string \<Rightarrow> canon_root \<Rightarrow> bool" where
  "sole_marker n m st \<longleftrightarrow> od_ok st \<and> (\<forall>x. marker_match n x \<noteq> None \<longrightarrow> x \<noteq> m \<longrightarrow> map_of st x = None)"

definition unmarked :: "string \<Rightarrow> canon_root \<Rightarrow> bool" where
  "unmarked n st \<longleftrightarrow> od_ok st \<and> (\<forall>x. marker_match n x \<noteq> None \<longrightarrow> map_of st x = None)"

lemma find_marker_none: "od_ok st \<Longrightarrow> find_marker n st = Inr None \<longleftrightarrow> unmarked n st"
proof -
  assume ok: "od_ok st"
  have "filter (\<lambda>x. marker_match n x \<noteq> None) (od_keys st) = [] \<longleftrightarrow> unmarked n st"
    by (auto simp: filter_empty_conv unmarked_def ok map_of_eq_None_iff simp del: not_None_eq)
  then show ?thesis by (auto simp: find_marker_def split: list.splits)
qed

lemma distinct_singleton: "distinct xs \<Longrightarrow> set xs = {m} \<Longrightarrow> xs = [m]"
proof (cases xs)
  case (Cons a ys)
  assume "distinct xs" "set xs = {m}"
  with Cons have "a = m" "set ys \<subseteq> {m}" "m \<notin> set ys" by auto
  then show ?thesis using Cons by (cases ys) auto
qed simp

lemma find_marker_some:
  assumes "od_ok st"
  shows "find_marker n st = Inr (Some m) \<longleftrightarrow> sole_marker n m st \<and> marker_match n m \<noteq> None \<and> map_of st m \<noteq> None"
proof -
  let ?ms = "filter (\<lambda>x. marker_match n x \<noteq> None) (od_keys st)"
  have d: "distinct ?ms" using assms by simp
  have set: "set ?ms = {x. marker_match n x \<noteq> None \<and> map_of st x \<noteq> None}" by (auto simp: map_of_eq_None_iff simp del: not_None_eq)
  have one: "?ms = [m] \<longleftrightarrow> set ?ms = {m}"
  proof
    assume "set ?ms = {m}"
    with d show "?ms = [m]" by (rule distinct_singleton)
  qed simp
  have "find_marker n st = Inr (Some m) \<longleftrightarrow> ?ms = [m]" by (auto simp: find_marker_def split: list.splits)
  also have "\<dots> \<longleftrightarrow> sole_marker n m st \<and> marker_match n m \<noteq> None \<and> map_of st m \<noteq> None"
    unfolding one set using assms by (auto simp: sole_marker_def simp del: not_None_eq)
  finally show ?thesis .
qed

lemma load_markerD:
  assumes "load_marker m v n = Inr P"
  shows "\<exists>s j. marker_match n m = Some s \<and> m = marker_of (n @ ''-'' @ s) \<and> valid_suffix 6 s \<and> P = swap_paths_of n s \<and> v = Some (Plain (Loaded j))"
proof -
  obtain s where s: "marker_match n m = Some s" using assms by (cases "marker_match n m") (simp_all add: load_marker_def)
  moreover have "P = swap_paths_of n s \<and> (\<exists>j. v = Some (Plain (Loaded j)))"
    using assms s by (auto simp: load_marker_def Let_def split: option.splits node.splits file_text.splits json.splits if_splits)
  ultimately show ?thesis using marker_match_iff[of n m s] by blast
qed

lemma load_written: "valid_suffix 6 s \<Longrightarrow>
  load_marker (marker_of (n @ ''-'' @ s)) (Some (Plain (Loaded (marker_payload now (swap_paths_of n s))))) n = Inr (swap_paths_of n s)"
proof -
  assume "valid_suffix 6 s"
  then have "marker_match n (marker_of (n @ ''-'' @ s)) = Some s" by (simp add: marker_match_iff)
  then show ?thesis
    by (simp add: load_marker_def marker_payload_def marker_fields_def j_get_def version_is_one_def)
qed

lemma held_unmarked: "unmarked n st \<Longrightarrow> held good n st \<longleftrightarrow> good_tree good (map_of st n)"
  using find_marker_none[of st n] by (simp add: held_def unmarked_def)

lemma held_marked:
  assumes "sole_marker n m st" and "load_marker m (map_of st m) n = Inr P"
  shows "held good n st \<longleftrightarrow> swap_shape good (map_of st n) (map_of st (sp_old P)) (map_of st (sp_staging P))"
proof -
  have P: "sp_dst P = n" using load_markerD[OF assms(2)] by (auto simp: swap_paths_of_def)
  have "find_marker n st = Inr (Some m)"
    using find_marker_some[of st n m] assms load_markerD[OF assms(2)] by (auto simp: sole_marker_def)
  with assms P show ?thesis by (simp add: held_def sole_marker_def)
qed

lemma held_cases:
  assumes "held good n st"
  obtains (settled) "unmarked n st" "good_tree good (map_of st n)"
    | (pending) s where "valid_suffix 6 s" "sole_marker n (marker_of (n @ ''-'' @ s)) st"
        "load_marker (marker_of (n @ ''-'' @ s)) (map_of st (marker_of (n @ ''-'' @ s))) n = Inr (swap_paths_of n s)"
        "swap_shape good (map_of st n) (map_of st (old_of n s)) (map_of st (staging_of n s))"
proof -
  have ok: "od_ok st" using assms by (simp add: held_def)
  consider (none) "find_marker n st = Inr None" | (some) m where "find_marker n st = Inr (Some m)"
    using assms by (cases "find_marker n st") (auto simp: held_def)
  then show thesis
  proof cases
    case none
    with assms find_marker_none[OF ok] settled show thesis by (simp add: held_def)
  next
    case some
    then obtain P where P: "load_marker m (map_of st m) n = Inr P"
        "swap_shape good (map_of st (sp_dst P)) (map_of st (sp_old P)) (map_of st (sp_staging P))"
      using assms by (auto simp: held_def split: sum.splits)
    from load_markerD[OF P(1)] obtain s where "m = marker_of (n @ ''-'' @ s)" "valid_suffix 6 s" "P = swap_paths_of n s" by blast
    with P some find_marker_some[OF ok] pending show thesis by (auto simp: swap_paths_of_def)
  qed
qed

section \<open>The forward protocol keeps a complete tree\<close>

lemma paths_simps [simp]:
  "sp_name (swap_paths_of n s) = n" "sp_suffix (swap_paths_of n s) = s" "sp_dst (swap_paths_of n s) = n"
  "sp_old (swap_paths_of n s) = old_of n s" "sp_staging (swap_paths_of n s) = staging_of n s"
  "sp_marker (swap_paths_of n s) = marker_of (n @ ''-'' @ s)"
  by (simp_all add: swap_paths_of_def)

lemma name_no_newline: "valid_name n \<Longrightarrow> n \<noteq> [] \<and> CHR 0x0A \<notin> set n"
proof -
  assume "valid_name n"
  moreover have "\<not> name_char (CHR 0x0A)" by (simp add: name_char_def is_digit_def)
  ultimately show ?thesis by (auto simp: valid_name_def list_all_iff)
qed

lemma own_names:
  assumes "valid_name n" and "valid_suffix 6 s"
  shows "owner_under ''old'' (old_of n s) = Some n" "owner_under ''staging'' (staging_of n s) = Some n"
    "marker_match n (marker_of (n @ ''-'' @ s)) = Some s"
  using assms name_no_newline[OF assms(1)]
  by (auto simp: owner_under_iff marker_match_iff old_of_def staging_of_def KIND_RAND_HEX_def)

lemma names_apart:
  assumes "plain_name n" and "valid_suffix 6 s"
  shows "n \<noteq> old_of n s" "n \<noteq> staging_of n s" "n \<noteq> marker_of (n @ ''-'' @ s)" "old_of n s \<noteq> staging_of n s"
    "old_of n s \<noteq> marker_of (n @ ''-'' @ s)" "staging_of n s \<noteq> marker_of (n @ ''-'' @ s)"
    "marker_match n n = None" "marker_match n (old_of n s) = None" "marker_match n (staging_of n s) = None"
proof -
  have v: "valid_name n" using assms(1) by (simp add: plain_name_def)
  note own = own_names[OF v assms(2)]
  have none: "owner_under ''old'' n = None" "owner_under ''staging'' n = None"
    using plain_no_owner[OF assms(1)] by (simp_all add: INTERNAL_ARTIFACT_KINDS_def)
  show "n \<noteq> old_of n s" "n \<noteq> staging_of n s" using own(1,2) none by (metis option.distinct(1))+
  show mm: "marker_match n n = None" by (rule plain_not_marker[OF assms(1)])
  show "n \<noteq> marker_of (n @ ''-'' @ s)" using own(3) mm by (metis option.distinct(1))
  show "old_of n s \<noteq> staging_of n s" by (simp add: old_of_def staging_of_def)
  show mo: "marker_match n (old_of n s) = None" and ms: "marker_match n (staging_of n s) = None"
    using own kinds_apart by blast+
  show "old_of n s \<noteq> marker_of (n @ ''-'' @ s)" "staging_of n s \<noteq> marker_of (n @ ''-'' @ s)"
    using own(3) mo ms by (metis option.distinct(1))+
qed

definition in_swap :: "string \<Rightarrow> string \<Rightarrow> canon_root \<Rightarrow> bool" where
  "in_swap n s st \<longleftrightarrow> plain_name n \<and> valid_suffix 6 s \<and> sole_marker n (marker_of (n @ ''-'' @ s)) st \<and>
     load_marker (marker_of (n @ ''-'' @ s)) (map_of st (marker_of (n @ ''-'' @ s))) n = Inr (swap_paths_of n s)"

lemma in_swap_held: "in_swap n s st \<Longrightarrow>
    held good n st \<longleftrightarrow> swap_shape good (map_of st n) (map_of st (old_of n s)) (map_of st (staging_of n s))"
  using held_marked[of n "marker_of (n @ ''-'' @ s)" st "swap_paths_of n s" good] by (simp add: in_swap_def)

lemma in_swap_frame:
  assumes "in_swap n s st" and "od_ok st'"
    and "\<And>y. y \<notin> {n, old_of n s, staging_of n s} \<Longrightarrow> map_of st' y = map_of st y"
  shows "in_swap n s st'"
proof -
  have n: "plain_name n" "valid_suffix 6 s" using assms(1) by (simp_all add: in_swap_def)
  note apart = names_apart[OF n]
  have "map_of st' y = map_of st y" if y: "marker_match n y \<noteq> None" for y
  proof (rule assms(3))
    show "y \<notin> {n, old_of n s, staging_of n s}" using y apart(7,8,9) by (metis empty_iff insert_iff)
  qed
  moreover have "map_of st' (marker_of (n @ ''-'' @ s)) = map_of st (marker_of (n @ ''-'' @ s))"
    using assms(3)[of "marker_of (n @ ''-'' @ s)"] apart by auto
  ultimately show ?thesis using assms(1,2) by (simp add: in_swap_def sole_marker_def)
qed

lemma unlinked: "in_swap n s st \<Longrightarrow> unmarked n (od_del (marker_of (n @ ''-'' @ s)) st)"
  by (auto simp: in_swap_def sole_marker_def unmarked_def simp del: not_None_eq)

lemma unmarked_frame:
  "unmarked n st \<Longrightarrow> od_ok st' \<Longrightarrow> (\<And>y. marker_match n y \<noteq> None \<Longrightarrow> map_of st' y = map_of st y) \<Longrightarrow> unmarked n st'"
  by (simp add: unmarked_def)

lemma rmtree_settled:
  assumes "unmarked n st" and "good_tree good (map_of st n)" and "x \<noteq> n" and "marker_match n x = None"
  shows "stays (\<lambda>st'. unmarked n st' \<and> good_tree good (map_of st' n)) st (rmtree_quietly F x st)"
proof (rule rmtree_stays)
  show "unmarked n st \<and> good_tree good (map_of st n)" "od_ok st" using assms by (simp_all add: unmarked_def)
  fix st' assume off: "agree_off x st st'"
  have "unmarked n st'"
  proof (rule unmarked_frame[OF assms(1) agree_off_ok[OF off]])
    fix y assume "marker_match n y \<noteq> None"
    with assms(4) have "y \<noteq> x" by auto
    then show "map_of st' y = map_of st y" by (rule agree_offD[OF off])
  qed
  then show "unmarked n st' \<and> good_tree good (map_of st' n)" using assms agree_offD[OF off, of n] by simp
qed

lemma stays_mono: "stays P st es \<Longrightarrow> (\<And>st. P st \<Longrightarrow> Q st) \<Longrightarrow> stays Q st es"
  by (induction es arbitrary: st) auto

lemma stays_held: "stays (\<lambda>st'. unmarked n st' \<and> good_tree good (map_of st' n)) st es \<Longrightarrow> stays (held good n) st es"
  by (erule stays_mono) (simp add: held_unmarked)

lemma unlink_drop_stays:
  assumes sw: "in_swap n s st" and "held good n st" and n: "good_tree good (map_of st n)" and x: "x \<in> {old_of n s, staging_of n s}"
  shows "stays (held good n) st (unlink_then_drop F (swap_paths_of n s) x st)"
    and "map_of (fs_run st (unlink_then_drop F (swap_paths_of n s) x st)) n = map_of st n"
    and "\<not> no_unlink F \<Longrightarrow> unmarked n (fs_run st (unlink_then_drop F (swap_paths_of n s) x st))"
proof -
  have ps: "plain_name n" "valid_suffix 6 s" and ok: "od_ok st" using sw by (simp_all add: in_swap_def sole_marker_def)
  note apart = names_apart[OF ps]
  let ?st = "od_del (marker_of (n @ ''-'' @ s)) st" and ?rm = "rmtree_quietly F x"
  have x': "x \<noteq> n" "marker_match n x = None" using x apart by auto
  have rm: "stays (\<lambda>st'. unmarked n st' \<and> good_tree good (map_of st' n)) ?st (?rm ?st)"
    using n apart unlinked[OF sw] by (intro rmtree_settled x') simp_all
  have split: "unlink_then_drop F (swap_paths_of n s) x st =
      (if no_unlink F then [] else Remove (marker_of (n @ ''-'' @ s)) # ?rm ?st)"
    by (simp add: unlink_then_drop_def barrier_unlink_marker_def)
  show "stays (held good n) st (unlink_then_drop F (swap_paths_of n s) x st)"
    using assms(2) stays_held[OF rm] by (simp add: split)
  have "map_of (fs_run ?st (?rm ?st)) n = map_of st n"
    using agree_offD[OF rmtree_end[of ?st x F], of n] ok x' apart by simp
  then show "map_of (fs_run st (unlink_then_drop F (swap_paths_of n s) x st)) n = map_of st n" by (simp add: split)
  show "\<not> no_unlink F \<Longrightarrow> unmarked n (fs_run st (unlink_then_drop F (swap_paths_of n s) x st))"
    using stays_end[OF rm] by (simp add: split)
qed

lemma map_of_move: "map_of st x = Some v \<Longrightarrow> map_of (fs_apply st (Move x y)) = (map_of st)(x := None, y \<mapsto> v)"
  by simp

declare fs_apply.simps(2) [simp del]

lemma rename_Inr: "rename_no_replace F st src tgt = Inr es \<Longrightarrow>
    es = [Move src tgt] \<and> map_of st src \<noteq> None \<and> map_of st tgt = None \<and> \<not> no_move F src tgt"
  by (simp add: rename_no_replace_def split: if_splits)

text \<open>The state between the renames, and what \<open>swap_dir_tree\<close> reports from there.\<close>

definition swap_reported :: "(string \<times> ustr) list \<Rightarrow> (string \<times> ustr) list \<Rightarrow> string \<Rightarrow> (swap_error, unit) result \<Rightarrow> canon_root \<Rightarrow> bool" where
  "swap_reported t0 t1 n r st \<longleftrightarrow> (case r of
      Inr _ \<Rightarrow> map_of st n = Some (Tree t1)
    | Inl e \<Rightarrow> if e = SwapRecovery then has_pending_swap n st else map_of st n = Some (Tree t0))"

lemma in_swap_found: "in_swap n s st \<Longrightarrow> find_marker n st = Inr (Some (marker_of (n @ ''-'' @ s)))"
proof -
  assume sw: "in_swap n s st"
  then have l: "load_marker (marker_of (n @ ''-'' @ s)) (map_of st (marker_of (n @ ''-'' @ s))) n = Inr (swap_paths_of n s)"
    and m: "sole_marker n (marker_of (n @ ''-'' @ s)) st" by (simp_all add: in_swap_def)
  then show ?thesis using find_marker_some[of st n] load_markerD[OF l] by (auto simp: sole_marker_def)
qed

lemma in_swap_pending: "in_swap n s st \<Longrightarrow> has_pending_swap n st"
  by (simp add: has_pending_swap_def in_swap_found)

lemma moved_in_swap:
  assumes "in_swap n s st" and "map_of st x = Some v" and "x \<in> {n, old_of n s, staging_of n s}" "y \<in> {n, old_of n s, staging_of n s}"
  shows "in_swap n s (fs_apply st (Move x y))"
proof (rule in_swap_frame[OF assms(1)])
  show "od_ok (fs_apply st (Move x y))" using assms(1) by (intro fs_apply_ok) (simp add: in_swap_def sole_marker_def)
  fix z assume "z \<notin> {n, old_of n s, staging_of n s}"
  then have "z \<noteq> x" "z \<noteq> y" using assms(3,4) by auto
  then show "map_of (fs_apply st (Move x y)) z = map_of st z" by (simp only: map_of_move[OF assms(2)]) simp
qed

lemma rename_in_stays:
  assumes sw: "in_swap n s st" and n: "map_of st n = None"
    and old: "map_of st (old_of n s) = Some (Tree t0)" "good t0"
    and new: "map_of st (staging_of n s) = Some (Tree t1)" "good t1"
  shows "stays (held good n) st (snd (rename_in F (swap_paths_of n s) st))" (is ?stay)
    and "swap_reported t0 t1 n (fst (rename_in F (swap_paths_of n s) st)) (fs_run st (snd (rename_in F (swap_paths_of n s) st)))" (is ?rep)
proof -
  let ?P = "swap_paths_of n s"
  note apart = names_apart[of n s]
  have ps: "plain_name n" "valid_suffix 6 s" using sw by (simp_all add: in_swap_def)
  have h: "held good n st" using n old new by (simp add: in_swap_held[OF sw] swap_shape_def good_tree_def)
  have goal: "?stay \<and> ?rep"
  proof (cases "rename_no_replace F st (staging_of n s) n")
    case (Inr es)
    then have es: "es = [Move (staging_of n s) n]" by (blast dest: rename_Inr)
    let ?st = "fs_apply st (Move (staging_of n s) n)"
    have sw': "in_swap n s ?st" using moved_in_swap[OF sw new(1)] by simp
    have m: "map_of ?st = (map_of st)(staging_of n s := None, n \<mapsto> Tree t1)" by (rule map_of_move[OF new(1)])
    have h': "held good n ?st" and g': "good_tree good (map_of ?st n)"
      using apart[OF ps] old new by (simp_all add: in_swap_held[OF sw'] swap_shape_def good_tree_def tree_or_none_def m)
    note drop = unlink_drop_stays[OF sw' h' g', of "old_of n s" F]
    have "rename_in F ?P st = (Inr (), Move (staging_of n s) n # unlink_then_drop F ?P (old_of n s) ?st)"
      using Inr by (simp add: rename_in_def es post_commit_cleanup_def)
    then show ?thesis using h drop(1,2) m by (simp add: swap_reported_def)
  next
    case (Inl e)
    then have r: "rename_in F ?P st = unwind_rename2 F ?P st" by (simp add: rename_in_def)
    show ?thesis
    proof (cases "rename_no_replace F st (old_of n s) n")
      case (Inr es)
      then have es: "es = [Move (old_of n s) n]" by (blast dest: rename_Inr)
      let ?st = "fs_apply st (Move (old_of n s) n)"
      have sw': "in_swap n s ?st" using moved_in_swap[OF sw old(1)] by simp
      have m: "map_of ?st = (map_of st)(old_of n s := None, n \<mapsto> Tree t0)" by (rule map_of_move[OF old(1)])
      have h': "held good n ?st" and g': "good_tree good (map_of ?st n)"
        using apart[OF ps] old new by (simp_all add: in_swap_held[OF sw'] swap_shape_def good_tree_def tree_or_none_def m)
      note drop = unlink_drop_stays[OF sw' h' g', of "staging_of n s" F]
      have "rename_in F ?P st = (Inl OsFailed, Move (old_of n s) n # unlink_then_drop F ?P (staging_of n s) ?st)"
        using Inr by (simp add: r unwind_rename2_def es)
      then show ?thesis using h drop(1,2) m by (simp add: swap_reported_def)
    next
      case (Inl e)
      then have "rename_in F ?P st = (Inl SwapRecovery, [])" by (simp add: r unwind_rename2_def)
      then show ?thesis using h in_swap_pending[OF sw] by (simp add: swap_reported_def)
    qed
  qed
  then show ?stay ?rep by simp_all
qed

lemma rename_aside_stays:
  assumes sw: "in_swap n s st" and quiet: "intruder F = None"
    and n: "map_of st n = Some (Tree t0)" "good t0" and new: "map_of st (staging_of n s) = Some (Tree t1)" "good t1"
    and fresh: "map_of st (old_of n s) = None"
  shows "stays (held good n) st (snd (rename_aside F (swap_paths_of n s) st))" (is ?stay)
    and "swap_reported t0 t1 n (fst (rename_aside F (swap_paths_of n s) st)) (fs_run st (snd (rename_aside F (swap_paths_of n s) st)))" (is ?rep)
proof -
  let ?P = "swap_paths_of n s"
  have ps: "plain_name n" "valid_suffix 6 s" using sw by (simp_all add: in_swap_def)
  note apart = names_apart[OF ps]
  have h: "held good n st" and g: "good_tree good (map_of st n)"
    using n new fresh by (simp_all add: in_swap_held[OF sw] swap_shape_def good_tree_def tree_or_none_def)
  have goal: "?stay \<and> ?rep"
  proof (cases "rename_no_replace F st n (old_of n s)")
    case (Inl e)
    note drop = unlink_drop_stays[OF sw h g, of "staging_of n s" F]
    have "rename_aside F ?P st = (Inl OsFailed, unlink_then_drop F ?P (staging_of n s) st)"
      using Inl by (simp add: rename_aside_def unwind_rename1_def)
    then show ?thesis using drop(1,2) n by (simp add: swap_reported_def)
  next
    case (Inr es)
    then have es: "es = [Move n (old_of n s)]" by (blast dest: rename_Inr)
    let ?st = "fs_apply st (Move n (old_of n s))"
    have sw': "in_swap n s ?st" using moved_in_swap[OF sw n(1)] by simp
    have m: "map_of ?st = (map_of st)(n := None, old_of n s \<mapsto> Tree t0)" by (rule map_of_move[OF n(1)])
    have facts: "map_of ?st n = None" "map_of ?st (old_of n s) = Some (Tree t0)" "map_of ?st (staging_of n s) = Some (Tree t1)"
      using apart new by (simp_all add: m)
    note rin = rename_in_stays[OF sw' facts(1,2) n(2) facts(3) new(2), where F = F]
    have "rename_aside F ?P st = (fst (rename_in F ?P ?st), Move n (old_of n s) # snd (rename_in F ?P ?st))"
      using Inr quiet by (simp add: rename_aside_def es run_then_def outsider_def Let_def)
    then show ?thesis using h rin by simp
  qed
  then show ?stay ?rep by simp_all
qed

lemma written_in_swap:
  assumes "plain_name n" and "valid_suffix 6 s" and "unmarked n st"
  shows "in_swap n s (fs_apply st (Create (marker_of (n @ ''-'' @ s)) (Plain (Loaded (marker_payload now (swap_paths_of n s))))))"
  using assms load_written[OF assms(2), of n now] by (simp add: in_swap_def sole_marker_def unmarked_def)

definition swap_ready :: "((string \<times> ustr) list \<Rightarrow> bool) \<Rightarrow> string \<Rightarrow> string \<Rightarrow> canon_root \<Rightarrow> bool" where
  "swap_ready good n staging st \<longleftrightarrow> (case staging_match n staging of
      None \<Rightarrow> True
    | Some s \<Rightarrow> good_tree good (map_of st staging) \<and> map_of st (old_of n s) = None)"

lemma swap_refused:
  assumes "\<not> (valid_name n \<and> staging_match n staging \<noteq> None \<and> find_marker n st = Inr None \<and> is_tree st staging \<and> is_tree st n)"
  shows "snd (swap_dir_tree F staging n st) = []" and "fst (swap_dir_tree F staging n st) \<noteq> Inr u"
  using assms by (auto simp: swap_dir_tree_def split: option.splits sum.splits)

lemma swap_settled:
  assumes n: "plain_name n" and quiet: "intruder F = None" and unm: "unmarked n st" and s: "valid_suffix 6 s"
    and t0: "map_of st n = Some (Tree t0)" "good t0" and t1: "map_of st (staging_of n s) = Some (Tree t1)" "good t1"
    and fresh: "map_of st (old_of n s) = None"
  shows "stays (held good n) st (snd (swap_dir_tree F (staging_of n s) n st))" (is ?stay)
    and "swap_reported t0 t1 n (fst (swap_dir_tree F (staging_of n s) n st)) (fs_run st (snd (swap_dir_tree F (staging_of n s) n st)))" (is ?rep)
proof -
  let ?P = "swap_paths_of n s" and ?w = "Create (marker_of (n @ ''-'' @ s)) (Plain (Loaded (marker_payload (clock F) (swap_paths_of n s))))"
  have ok: "od_ok st" and v: "valid_name n" and h: "held good n st"
    using unm n t0 by (simp_all add: unmarked_def plain_name_def held_unmarked good_tree_def)
  note apart = names_apart[OF n s]
  have sm: "staging_match n (staging_of n s) = Some s" by (simp add: staging_match_iff s)
  have fm: "find_marker n st = Inr None" using find_marker_none[OF ok] unm by blast
  have start: "swap_dir_tree F (staging_of n s) n st =
      (if no_marker F then (Inl OsFailed, rmtree_quietly F (staging_of n s) st)
       else (fst (rename_aside F ?P (fs_apply st ?w)), ?w # snd (rename_aside F ?P (fs_apply st ?w))))"
    using t0 t1 by (simp add: swap_dir_tree_def v sm fm is_tree_def run_then_def Let_def)
  have goal: "?stay \<and> ?rep"
  proof (cases "no_marker F")
    case True
    have set: "stays (\<lambda>st'. unmarked n st' \<and> good_tree good (map_of st' n)) st (rmtree_quietly F (staging_of n s) st)"
      using apart t0 by (intro rmtree_settled[OF unm]) (simp_all add: good_tree_def)
    have "map_of (fs_run st (rmtree_quietly F (staging_of n s) st)) n = map_of st n"
      using agree_offD[OF rmtree_end[OF ok, of "staging_of n s" F], of n] apart by simp
    then show ?thesis using stays_held[OF set] t0 by (simp add: start True swap_reported_def)
  next
    case False
    let ?st = "fs_apply st ?w"
    have sw: "in_swap n s ?st" by (rule written_in_swap[OF n s unm])
    have "map_of ?st n = Some (Tree t0)" "map_of ?st (staging_of n s) = Some (Tree t1)" "map_of ?st (old_of n s) = None"
      using apart t0 t1 fresh by simp_all
    note aside = rename_aside_stays[OF sw quiet this(1) t0(2) this(2) t1(2) this(3)]
    show ?thesis using aside h by (simp add: start False)
  qed
  then show ?stay ?rep by simp_all
qed

lemma swap_stays:
  assumes n: "plain_name n" and h: "held good n st" and quiet: "intruder F = None" and rdy: "swap_ready good n staging st"
  shows "stays (held good n) st (snd (swap_dir_tree F staging n st))"
proof (cases "valid_name n \<and> staging_match n staging \<noteq> None \<and> find_marker n st = Inr None \<and> is_tree st staging \<and> is_tree st n")
  case False
  then show ?thesis using swap_refused(1) h by simp
next
  case True
  then obtain s where s: "staging = staging_of n s" "valid_suffix 6 s" "staging_match n staging = Some s" by (auto simp: staging_match_iff)
  have unm: "unmarked n st" using True h find_marker_none by (auto simp: held_def)
  obtain t0 t1 where t: "map_of st n = Some (Tree t0)" "good t0" "map_of st (staging_of n s) = Some (Tree t1)" "good t1" "map_of st (old_of n s) = None"
    using h rdy s by (auto simp: held_unmarked[OF unm] swap_ready_def good_tree_def split: option.splits node.splits)
  show ?thesis unfolding s(1) by (rule swap_settled(1)[OF n quiet unm s(2) t])
qed

section \<open>Recovery converges\<close>

lemma run_then_simps [simp]:
  "run_then st (Inr x, es) f = (fst (f (fs_run st es) x), es @ snd (f (fs_run st es) x))"
  "run_then st (Inl e, es) f = (Inl e, es)"
  by (simp_all add: run_then_def Let_def)

lemma present_dir_tree: "tree_or_none (map_of st x) \<Longrightarrow> present_dir st x = Inr (map_of st x \<noteq> None)"
  by (auto simp: tree_or_none_def present_dir_def split: option.splits node.splits)

lemma good_tree_or_none: "good_tree good v \<Longrightarrow> tree_or_none v \<and> v \<noteq> None"
  by (auto simp: good_tree_def tree_or_none_def split: option.splits node.splits)

lemma clear_stays:
  assumes sw: "in_swap n s st" and h: "held good n st" and g: "good_tree good (map_of st n)"
  shows "stays (held good n) st (snd (clear_marker_or_refuse F (swap_paths_of n s)))"
    and "fst (clear_marker_or_refuse F (swap_paths_of n s)) = (if no_unlink F then Inl SwapRecovery else Inr ())"
    and "\<not> no_unlink F \<Longrightarrow> fs_run st (snd (clear_marker_or_refuse F (swap_paths_of n s))) = od_del (marker_of (n @ ''-'' @ s)) st"
    and "unmarked n (od_del (marker_of (n @ ''-'' @ s)) st)" "map_of (od_del (marker_of (n @ ''-'' @ s)) st) n = map_of st n"
proof -
  have "plain_name n" "valid_suffix 6 s" using sw by (simp_all add: in_swap_def)
  note apart = names_apart[OF this]
  show unm: "unmarked n (od_del (marker_of (n @ ''-'' @ s)) st)" by (rule unlinked[OF sw])
  show n: "map_of (od_del (marker_of (n @ ''-'' @ s)) st) n = map_of st n" using apart by simp
  show "stays (held good n) st (snd (clear_marker_or_refuse F (swap_paths_of n s)))"
    using h held_unmarked[OF unm] g n by (simp add: clear_marker_or_refuse_def barrier_unlink_marker_def)
  show "fst (clear_marker_or_refuse F (swap_paths_of n s)) = (if no_unlink F then Inl SwapRecovery else Inr ())"
    by (simp add: clear_marker_or_refuse_def barrier_unlink_marker_def)
  show "\<not> no_unlink F \<Longrightarrow> fs_run st (snd (clear_marker_or_refuse F (swap_paths_of n s))) = od_del (marker_of (n @ ''-'' @ s)) st"
    by (simp add: clear_marker_or_refuse_def barrier_unlink_marker_def)
qed

definition settled :: "((string \<times> ustr) list \<Rightarrow> bool) \<Rightarrow> string \<Rightarrow> canon_root \<Rightarrow> bool" where
  "settled good n st \<longleftrightarrow> unmarked n st \<and> good_tree good (map_of st n)"

text \<open>What a recovery from \<open>st\<close> must do: stay safe throughout, and leave a settled artifact when it returns.\<close>

definition recovers :: "((string \<times> ustr) list \<Rightarrow> bool) \<Rightarrow> string \<Rightarrow> canon_root \<Rightarrow> 'a swap_run \<Rightarrow> bool" where
  "recovers good n st r \<longleftrightarrow> stays (held good n) st (snd r) \<and> (\<forall>x. fst r = Inr x \<longrightarrow> settled good n (fs_run st (snd r)))"

lemma clear_recovers:
  assumes "in_swap n s st" and "held good n st" and "good_tree good (map_of st n)"
  shows "recovers good n st (clear_marker_or_refuse F (swap_paths_of n s))"
  using clear_stays[OF assms] assms(3) by (auto simp: recovers_def settled_def split: if_splits)

lemma drop_recovers:
  assumes "settled good n st" and "x \<noteq> n" and "marker_match n x = None"
  shows "recovers good n st (Inr (), rmtree_quietly F x st)"
proof -
  have st: "stays (\<lambda>st'. unmarked n st' \<and> good_tree good (map_of st' n)) st (rmtree_quietly F x st)"
    using assms by (intro rmtree_settled) (simp_all add: settled_def)
  show ?thesis using stays_held[OF st] stays_end[OF st] by (simp add: recovers_def settled_def)
qed

lemma recovers_then:
  assumes "stays (held good n) st (snd r)"
    and "\<And>x. fst r = Inr x \<Longrightarrow> recovers good n (fs_run st (snd r)) (f (fs_run st (snd r)) x)"
  shows "recovers good n st (run_then st r f)"
proof (cases "fst r")
  case (Inl e)
  with assms(1) show ?thesis by (cases r) (simp add: recovers_def)
next
  case (Inr x)
  with assms(1) assms(2)[OF Inr] show ?thesis by (cases r) (simp add: recovers_def)
qed

lemma clear_then_drop:
  assumes sw: "in_swap n s st" and h: "held good n st" and g: "good_tree good (map_of st n)" and x: "x \<in> {old_of n s, staging_of n s}"
  shows "recovers good n st (run_then st (clear_marker_or_refuse F (swap_paths_of n s)) (\<lambda>st1 _. (Inr (), rmtree_quietly F x st1)))"
proof (rule recovers_then)
  have "plain_name n" "valid_suffix 6 s" using sw by (simp_all add: in_swap_def)
  note apart = names_apart[OF this]
  note clear = clear_recovers[OF sw h g, of F]
  show "stays (held good n) st (snd (clear_marker_or_refuse F (swap_paths_of n s)))" using clear by (simp add: recovers_def)
  fix u assume "fst (clear_marker_or_refuse F (swap_paths_of n s)) = Inr u"
  then have "settled good n (fs_run st (snd (clear_marker_or_refuse F (swap_paths_of n s))))" using clear by (simp add: recovers_def)
  then show "recovers good n (fs_run st (snd (clear_marker_or_refuse F (swap_paths_of n s))))
      (Inr (), rmtree_quietly F x (fs_run st (snd (clear_marker_or_refuse F (swap_paths_of n s)))))"
    using x apart by (intro drop_recovers) auto
qed

lemma recover_row_recovers:
  assumes sw: "in_swap n s st" and quiet: "intruder F = None"
    and shape: "swap_shape good (map_of st n) (map_of st (old_of n s)) (map_of st (staging_of n s))"
  shows "recovers good n st (recover_row F (swap_paths_of n s) (map_of st n \<noteq> None) (map_of st (old_of n s) \<noteq> None) (map_of st (staging_of n s) \<noteq> None) st)"
proof -
  have ps: "plain_name n" "valid_suffix 6 s" and ok: "od_ok st" using sw by (simp_all add: in_swap_def sole_marker_def)
  note apart = names_apart[OF ps]
  have h: "held good n st" using shape by (simp add: in_swap_held[OF sw])
  show ?thesis
  proof (cases "map_of st n = None")
    case True
    then have g: "good_tree good (map_of st (old_of n s))" "good_tree good (map_of st (staging_of n s))"
      using shape by (simp_all add: swap_shape_def)
    then obtain t1 where t1: "map_of st (staging_of n s) = Some (Tree t1)" "good t1"
      by (auto simp: good_tree_def split: option.splits node.splits)
    have row: "recover_row F (swap_paths_of n s) (map_of st n \<noteq> None) (map_of st (old_of n s) \<noteq> None) (map_of st (staging_of n s) \<noteq> None) st
      = run_then st (rename_recovery F (staging_of n s) n st) (\<lambda>st1 _.
         run_then st1 (clear_marker_or_refuse F (swap_paths_of n s)) (\<lambda>st2 _. (Inr (), rmtree_quietly F (old_of n s) st2)))"
      using True g good_tree_or_none by auto
    let ?st = "fs_apply st (Move (staging_of n s) n)"
    have sw': "in_swap n s ?st" using moved_in_swap[OF sw t1(1)] by simp
    have m: "map_of ?st = (map_of st)(staging_of n s := None, n \<mapsto> Tree t1)" by (rule map_of_move[OF t1(1)])
    have h': "held good n ?st" and g': "good_tree good (map_of ?st n)"
      using apart t1(2) good_tree_or_none[OF g(1)] by (simp_all add: in_swap_held[OF sw'] swap_shape_def m good_tree_def tree_or_none_def)
    have ren: "rename_recovery F (staging_of n s) n st =
        (if no_move F (staging_of n s) n then (Inl SwapRecovery, []) else (Inr (), [Move (staging_of n s) n]))"
      using True t1(1) quiet by (simp add: rename_recovery_def rename_no_replace_def outsider_def Let_def)
    show ?thesis
      unfolding row by (rule recovers_then) (use h h' clear_then_drop[OF sw' h' g'] in \<open>auto simp: ren split: if_splits\<close>)
  next
    case False
    then have g: "good_tree good (map_of st n)" and one: "map_of st (old_of n s) = None \<or> map_of st (staging_of n s) = None"
      and t: "tree_or_none (map_of st (staging_of n s))"
      using shape by (auto simp: swap_shape_def)
    show ?thesis
    proof (cases "map_of st (staging_of n s) = None")
      case True
      then show ?thesis using False clear_then_drop[OF sw h g, of "old_of n s" F] clear_recovers[OF sw h g, of F]
        by (cases "map_of st (old_of n s)") auto
    next
      case T: False
      have row: "recover_row F (swap_paths_of n s) (map_of st n \<noteq> None) (map_of st (old_of n s) \<noteq> None) (map_of st (staging_of n s) \<noteq> None) st
        = run_then st (Inr (), rmtree_quietly F (staging_of n s) st) (\<lambda>_ _. clear_marker_or_refuse F (swap_paths_of n s))"
        using False T one by auto
      have keep: "in_swap n s st' \<and> good_tree good (map_of st' n) \<and> held good n st'"
        if off: "agree_off (staging_of n s) st st'" "tree_or_none (map_of st' (staging_of n s))" for st'
      proof -
        have sw': "in_swap n s st'" using agree_offD[OF off(1)] agree_off_ok[OF off(1)] by (intro in_swap_frame[OF sw]) auto
        have "map_of st' n = map_of st n" "map_of st' (old_of n s) = map_of st (old_of n s)"
          using agree_offD[OF off(1)] apart by auto
        then show ?thesis using sw' g one T off(2) False
          by (auto simp: in_swap_held[OF sw'] swap_shape_def tree_or_none_def)
      qed
      have st: "stays (\<lambda>st'. in_swap n s st' \<and> good_tree good (map_of st' n) \<and> held good n st') st (rmtree_quietly F (staging_of n s) st)"
        using sw g h keep by (intro rmtree_stays ok) simp_all
      show ?thesis
        unfolding row using stays_mono[OF st] stays_end[OF st] clear_recovers by (intro recovers_then) auto
    qed
  qed
qed

lemma recover_unmarked: "valid_name n \<Longrightarrow> unmarked n st \<Longrightarrow> recover_pending_swaps F n st = (Inr False, [])"
  using find_marker_none[of st n] by (simp add: recover_pending_swaps_def unmarked_def)

lemma recover_pending:
  assumes "in_swap n s st" and "tree_or_none (map_of st n)" "tree_or_none (map_of st (old_of n s))" "tree_or_none (map_of st (staging_of n s))"
  shows "recover_pending_swaps F n st = run_then st (recover_row F (swap_paths_of n s) (map_of st n \<noteq> None)
    (map_of st (old_of n s) \<noteq> None) (map_of st (staging_of n s) \<noteq> None) st) (\<lambda>_ _. (Inr True, []))"
proof -
  have v: "valid_name n" and l: "load_marker (marker_of (n @ ''-'' @ s)) (map_of st (marker_of (n @ ''-'' @ s))) n = Inr (swap_paths_of n s)"
    using assms(1) by (simp_all add: in_swap_def plain_name_def)
  note in_swap_found[OF assms(1)]
  moreover have "present_dir st n = Inr (map_of st n \<noteq> None)" "present_dir st (old_of n s) = Inr (map_of st (old_of n s) \<noteq> None)"
      "present_dir st (staging_of n s) = Inr (map_of st (staging_of n s) \<noteq> None)"
    using assms(2-4) present_dir_tree by blast+
  ultimately show ?thesis
    by (simp only: recover_pending_swaps_def v l sum.case option.case bind_res_simps paths_simps prod.case) simp
qed

lemma shape_trees: "swap_shape good d old t \<Longrightarrow> tree_or_none d \<and> tree_or_none old \<and> tree_or_none t"
  using good_tree_or_none[of good] by (auto simp: swap_shape_def tree_or_none_def split: if_splits)

lemma recover_recovers:
  assumes n: "plain_name n" and h: "held good n st" and quiet: "intruder F = None"
  shows "recovers good n st (recover_pending_swaps F n st)"
  using h
proof (cases rule: held_cases)
  case settled
  have v: "valid_name n" using n by (simp add: plain_name_def)
  show ?thesis unfolding recover_unmarked[OF v settled(1)] using settled h by (simp add: recovers_def settled_def)
next
  case (pending s)
  have sw: "in_swap n s st" using pending n by (simp add: in_swap_def)
  note row = recover_row_recovers[OF sw quiet pending(4)]
  have "recovers good n st (run_then st (recover_row F (swap_paths_of n s) (map_of st n \<noteq> None)
      (map_of st (old_of n s) \<noteq> None) (map_of st (staging_of n s) \<noteq> None) st) (\<lambda>_ _. (Inr True, [])))"
  proof (rule recovers_then)
    show "stays (held good n) st (snd (recover_row F (swap_paths_of n s) (map_of st n \<noteq> None) (map_of st (old_of n s) \<noteq> None) (map_of st (staging_of n s) \<noteq> None) st))"
      using row by (simp add: recovers_def)
  qed (use row in \<open>auto simp: recovers_def settled_def held_unmarked\<close>)
  then show ?thesis using recover_pending[OF sw] shape_trees[OF pending(4)] by simp
qed

section \<open>Everything an artifact's operations touch is its own\<close>

lemma stays_confined:
  assumes "od_ok st" and "confined A es"
    and "\<And>st'. od_ok st' \<Longrightarrow> (\<And>x. \<not> A x \<Longrightarrow> map_of st' x = map_of st x) \<Longrightarrow> P st'"
  shows "stays P st es"
  using assms
proof (induction es arbitrary: st)
  case (Cons e es)
  have "P st" using Cons.prems(1) by (intro Cons.prems(3)) simp_all
  moreover have "stays P (fs_apply st e) es"
  proof (rule Cons.IH)
    show "od_ok (fs_apply st e)" "confined A es" using Cons.prems by (simp_all del: fs_apply.simps)
    have same: "map_of (fs_apply st e) x = map_of st x" if "\<not> A x" for x
      using Cons.prems(2) that by (intro apply_frame) (auto simp: list_all_iff)
    fix st' assume "od_ok st'" "\<And>x. \<not> A x \<Longrightarrow> map_of st' x = map_of (fs_apply st e) x"
    with same show "P st'" by (intro Cons.prems(3)) simp_all
  qed
  ultimately show ?case by simp
qed simp

lemma own_transients:
  assumes "valid_name n" and "valid_suffix 6 s" and "map_of st (marker_of (n @ ''-'' @ s)) = Some (Plain v)"
  shows "marker_owns_transient st (old_of n s)" "marker_owns_transient st (staging_of n s)"
proof -
  have body: "split_owner 6 (n @ ''-'' @ s) = Some (n, s)" using assms name_no_newline[OF assms(1)] by (simp add: split_owner_Some)
  have none: "between ''.staging-'' ''.tmp'' (old_of n s) = None"
    by (cases "between ''.staging-'' ''.tmp'' (old_of n s)") (simp_all add: between_Some old_of_def)
  have "between ''.old-'' ''.tmp'' (old_of n s) = Some (n @ ''-'' @ s)" "between ''.staging-'' ''.tmp'' (staging_of n s) = Some (n @ ''-'' @ s)"
    unfolding between_Some by (simp_all add: old_of_def staging_of_def)
  then have "transient_body (old_of n s) = Some (n @ ''-'' @ s)" "transient_body (staging_of n s) = Some (n @ ''-'' @ s)"
    using body none by (simp_all add: transient_body_def)
  then show "marker_owns_transient st (old_of n s)" "marker_owns_transient st (staging_of n s)"
    using assms(3) by (simp_all add: marker_owns_transient_def)
qed

text \<open>What a swap of \<open>n\<close> may still need: its destination, its markers, and the transients a marker claims.\<close>

definition critical :: "string \<Rightarrow> canon_root \<Rightarrow> string \<Rightarrow> bool" where
  "critical n st x \<longleftrightarrow> x = n \<or> marker_match n x \<noteq> None \<or> (belongs n x \<and> marker_owns_transient st x)"

lemma held_frame:
  assumes n: "plain_name n" and h: "held good n st" and ok: "od_ok st'" and same: "\<And>x. critical n st x \<Longrightarrow> map_of st' x = map_of st x"
  shows "held good n st'"
  using h
proof (cases rule: held_cases)
  case settled
  have "unmarked n st'"
  proof (rule unmarked_frame[OF settled(1) ok])
    fix y assume "marker_match n y \<noteq> None"
    then show "map_of st' y = map_of st y" by (intro same) (simp add: critical_def)
  qed
  moreover have "map_of st' n = map_of st n" by (rule same) (simp add: critical_def)
  ultimately show ?thesis using settled(2) by (simp add: held_unmarked)
next
  case (pending s)
  have v: "valid_name n" using n by (simp add: plain_name_def)
  obtain j where "map_of st (marker_of (n @ ''-'' @ s)) = Some (Plain (Loaded j))" using load_markerD[OF pending(3)] by auto
  note own = own_transients[OF v pending(1) this] and names = own_names[OF v pending(1)]
  have "critical n st n" "critical n st (marker_of (n @ ''-'' @ s))" "critical n st (old_of n s)" "critical n st (staging_of n s)"
    using own names by (simp_all add: critical_def belongs_def)
  note same' = this[THEN same]
  have sole: "sole_marker n (marker_of (n @ ''-'' @ s)) st'"
    unfolding sole_marker_def
  proof (intro conjI allI impI ok)
    fix x assume "marker_match n x \<noteq> None" "x \<noteq> marker_of (n @ ''-'' @ s)"
    then show "map_of st' x = None" using pending(2) same[of x] by (simp add: sole_marker_def critical_def)
  qed
  have l: "load_marker (marker_of (n @ ''-'' @ s)) (map_of st' (marker_of (n @ ''-'' @ s))) n = Inr (swap_paths_of n s)"
    using pending(3) same' by simp
  show ?thesis using held_marked[OF sole l] pending(4) same' by simp
qed

lemma stays_uncritical:
  assumes "plain_name n" and "held good n st" and "confined A es" and "\<And>x. A x \<Longrightarrow> \<not> critical n st x"
  shows "stays (held good n) st es"
proof (rule stays_confined[OF _ assms(3)])
  show "od_ok st" using assms(2) by (simp add: held_def)
  fix st' assume "od_ok st'" "\<And>x. \<not> A x \<Longrightarrow> map_of st' x = map_of st x"
  with assms show "held good n st'" by (intro held_frame[OF assms(1,2)]) blast+
qed

lemma artifact_confined: "A x \<Longrightarrow> confined A (remove_internal_artifact F x st)"
  by (auto simp: remove_internal_artifact_def removal_def rmtree_confined split: option.splits node.splits intro: confined_take)

lemma confined_mono: "confined A es \<Longrightarrow> (\<And>x. A x \<Longrightarrow> B x) \<Longrightarrow> confined B es"
  by (auto simp: confined_def list_all_iff)

lemma reap_confined: "confined (\<lambda>x. x \<in> set xs) (reap_all F xs st)"
proof (induction xs arbitrary: st)
  case (Cons x xs)
  have "confined (\<lambda>y. y \<in> set (x # xs)) (remove_internal_artifact F x st)" by (rule artifact_confined) simp
  then show ?case using Cons confined_mono[of "\<lambda>y. y \<in> set xs"] by (simp add: Let_def)
qed simp

lemma own_internal:
  assumes n: "plain_name n" and kinds: "set kinds \<subseteq> {''staging'', ''old''}" and x: "x \<in> snd ` set (iter_own_internal_dirs n kinds st)"
  shows "belongs n x \<and> x \<noteq> n \<and> marker_match n x = None \<and> \<not> marker_owns_transient st x"
proof -
  obtain kind where k: "kind \<in> set kinds" "between (''.'' @ kind @ ''-'' @ n @ ''-'') ''.tmp'' x \<noteq> None"
      "internal_artifact_owner x = Some n" "\<not> marker_owns_transient st x"
    using x by (auto simp: iter_own_internal_dirs_def)
  then obtain m where xm: "x = ''.'' @ kind @ ''-'' @ n @ ''-'' @ m @ ''.tmp''" by (auto simp: between_Some)
  have kind: "kind = ''staging'' \<or> kind = ''old''" using k(1) kinds by auto
  then have "owner_under (if kind = ''old'' then ''staging'' else ''old'') x = None" "owner_under ''migrate'' x = None"
    using xm by (cases "owner_under (if kind = ''old'' then ''staging'' else ''old'') x"; cases "owner_under ''migrate'' x";
      auto simp: owner_under_iff)+
  with kind k(3) have "owner_under kind x = Some n"
    by (cases "owner_under kind x") (auto simp: internal_artifact_owner_def INTERNAL_ARTIFACT_KINDS_def List.map_filter_def)
  moreover note kind
  ultimately show ?thesis
    using k(4) kinds_apart(2)[of x n n] kinds_apart(3)[of x n n] plain_no_owner[OF n, of kind] by (auto simp: belongs_def INTERNAL_ARTIFACT_KINDS_def)
qed

lemma run_then_confined:
  "confined A (snd r) \<Longrightarrow> (\<And>st' x. confined A (snd (f st' x))) \<Longrightarrow> confined A (snd (run_then st r f))"
  by (auto simp: run_then_def Let_def split: sum.splits)

lemma rename_confined: "A src \<Longrightarrow> A tgt \<Longrightarrow> rename_no_replace F st src tgt = Inr es \<Longrightarrow> confined A es"
  by (drule rename_Inr) simp

lemma outsider_confined: "A x \<Longrightarrow> confined A (outsider F x)"
  by (auto simp: outsider_def split: option.splits)

lemma unlink_confined: "A (sp_marker P) \<Longrightarrow> A x \<Longrightarrow> confined A (unlink_then_drop F P x st)"
  by (auto simp: unlink_then_drop_def barrier_unlink_marker_def Let_def rmtree_confined)

lemma clear_confined: "A (sp_marker P) \<Longrightarrow> confined A (snd (clear_marker_or_refuse F P))"
  by (auto simp: clear_marker_or_refuse_def barrier_unlink_marker_def Let_def)

lemma rename_recovery_confined: "A src \<Longrightarrow> A tgt \<Longrightarrow> confined A (snd (rename_recovery F src tgt st))"
  using rename_confined[of A src tgt] by (auto simp: rename_recovery_def outsider_confined Let_def split: sum.splits rename_error.splits)

lemma rename_in_confined:
  assumes "A (sp_dst P)" "A (sp_old P)" "A (sp_staging P)" "A (sp_marker P)"
  shows "confined A (snd (rename_in F P st))"
  using assms rename_confined[of A "sp_staging P" "sp_dst P"] rename_confined[of A "sp_old P" "sp_dst P"]
  by (auto simp: rename_in_def unwind_rename2_def post_commit_cleanup_def unlink_confined split: sum.splits)

lemma rename_aside_confined:
  assumes "A (sp_dst P)" "A (sp_old P)" "A (sp_staging P)" "A (sp_marker P)"
  shows "confined A (snd (rename_aside F P st))"
proof (cases "rename_no_replace F st (sp_dst P) (sp_old P)")
  case (Inl e)
  then show ?thesis using assms by (simp add: rename_aside_def unwind_rename1_def unlink_confined)
next
  case (Inr es)
  then show ?thesis using assms rename_confined[of A "sp_dst P" "sp_old P"]
    by (simp add: rename_aside_def rename_in_confined outsider_confined)
qed

lemma recover_row_confined:
  assumes "A (sp_dst P)" "A (sp_old P)" "A (sp_staging P)" "A (sp_marker P)"
  shows "confined A (snd (recover_row F P d old t st))"
  using assms
  by (cases "(F, P, d, old, t, st)" rule: recover_row.cases)
    (auto intro!: run_then_confined simp: rename_recovery_confined clear_confined rmtree_confined)

lemma paths_belong:
  assumes "valid_name n" and "valid_suffix 6 s"
  shows "belongs n (sp_dst (swap_paths_of n s))" "belongs n (sp_old (swap_paths_of n s))"
    "belongs n (sp_staging (swap_paths_of n s))" "belongs n (sp_marker (swap_paths_of n s))"
  using own_names[OF assms] by (simp_all add: belongs_def)

lemma swap_confined: "confined (belongs n) (snd (swap_dir_tree F staging n st))"
proof (cases "valid_name n \<and> staging_match n staging \<noteq> None \<and> find_marker n st = Inr None \<and> is_tree st staging \<and> is_tree st n")
  case True
  then obtain s where s: "staging_match n staging = Some s" by blast
  then have "valid_suffix 6 s" by (simp add: staging_match_iff)
  note own = paths_belong[OF conjunct1[OF True] this]
  have "snd (swap_dir_tree F staging n st) = (if no_marker F then rmtree_quietly F (sp_staging (swap_paths_of n s)) st
      else snd (run_then st (Inr (), [Create (sp_marker (swap_paths_of n s)) (Plain (Loaded (marker_payload (clock F) (swap_paths_of n s))))])
        (\<lambda>st' _. rename_aside F (swap_paths_of n s) st')))"
    using True s by (simp add: swap_dir_tree_def Let_def del: paths_simps run_then_simps)
  then show ?thesis
    using own by (cases "no_marker F") (simp_all add: rmtree_confined rename_aside_confined del: paths_simps)
qed (simp add: swap_refused(1))

lemma recover_confined: "confined (belongs n) (snd (recover_pending_swaps F n st))"
proof (cases "snd (recover_pending_swaps F n st) = []")
  case False
  then obtain m P d old t where v: "valid_name n" and l: "load_marker m (map_of st m) n = Inr P"
    and r: "recover_pending_swaps F n st = run_then st (recover_row F P d old t st) (\<lambda>_ _. (Inr True, []))"
    by (auto simp: recover_pending_swaps_def bind_res_def split: sum.splits option.splits if_splits)
  obtain s where s: "valid_suffix 6 s" "P = swap_paths_of n s" using load_markerD[OF l] by blast
  note own = paths_belong[OF v s(1), folded s(2)]
  show ?thesis unfolding r by (intro run_then_confined recover_row_confined own) simp
qed simp

lemma reap_own: "plain_name n \<Longrightarrow> set kinds \<subseteq> {''staging'', ''old''} \<Longrightarrow> set xs \<subseteq> snd ` set (iter_own_internal_dirs n kinds st) \<Longrightarrow>
    confined (\<lambda>x. belongs n x \<and> x \<noteq> n \<and> marker_match n x = None \<and> \<not> marker_owns_transient st x) (reap_all F xs st')"
proof (rule confined_mono[OF reap_confined])
  fix x assume "plain_name n" "set kinds \<subseteq> {''staging'', ''old''}" "set xs \<subseteq> snd ` set (iter_own_internal_dirs n kinds st)" "x \<in> set xs"
  then show "belongs n x \<and> x \<noteq> n \<and> marker_match n x = None \<and> \<not> marker_owns_transient st x"
    using own_internal[of n kinds x st] by blast
qed

lemma move_aside_own: "plain_name n \<Longrightarrow>
    confined (\<lambda>x. belongs n x \<and> x \<noteq> n \<and> marker_match n x = None \<and> \<not> marker_owns_transient st x) (reap_move_aside F n st)"
  using reap_own[of n "[''old'']" "map snd (iter_own_internal_dirs n [''old''] st)" st F st] by (simp add: reap_move_aside_def)

lemma reap_list_own: "plain_name n \<Longrightarrow>
    confined (\<lambda>x. belongs n x \<and> x \<noteq> n \<and> marker_match n x = None \<and> \<not> marker_owns_transient st x)
      (reap_all F (map snd (filter Q (iter_own_internal_dirs n REAPABLE_INTERNAL_ARTIFACT_KINDS st))) st)"
  by (rule reap_own[of n REAPABLE_INTERNAL_ARTIFACT_KINDS _ st]) (simp_all add: REAPABLE_INTERNAL_ARTIFACT_KINDS_def image_mono)

lemma prelude_confined: "plain_name n \<Longrightarrow> confined (belongs n) (snd (recover_and_reap F n st))"
  unfolding recover_and_reap_def
  by (intro run_then_confined recover_confined) (auto intro: confined_mono[OF reap_list_own])

lemma settled_recovers:
  assumes st: "stays (settled good n) st es"
  shows "recovers good n st (Inr x, es)"
proof -
  have "stays (held good n) st es" by (rule stays_mono[OF st]) (simp add: settled_def held_unmarked)
  with stays_end[OF st] show ?thesis by (simp add: recovers_def)
qed

lemma prelude_recovers:
  assumes n: "plain_name n" and h: "held good n st" and quiet: "intruder F = None"
  shows "recovers good n st (recover_and_reap F n st)"
  unfolding recover_and_reap_def
proof (rule recovers_then)
  note rec = recover_recovers[OF n h quiet]
  show "stays (held good n) st (snd (recover_pending_swaps F n st))" using rec by (simp add: recovers_def)
  fix b assume "fst (recover_pending_swaps F n st) = Inr b"
  then have set: "settled good n (fs_run st (snd (recover_pending_swaps F n st)))" (is "settled good n ?st") using rec by (simp add: recovers_def)
  have ok: "od_ok ?st" using set by (simp add: settled_def unmarked_def)
  let ?es = "reap_all F (map snd (filter (\<lambda>(kind, _). kind = ''old'' \<longrightarrow> is_tree ?st n)
      (iter_own_internal_dirs n REAPABLE_INTERNAL_ARTIFACT_KINDS ?st))) ?st"
  have "stays (settled good n) ?st ?es"
  proof (rule stays_confined[OF ok reap_list_own[OF n]])
    fix st' assume "od_ok st'" and same: "\<And>x. \<not> (belongs n x \<and> x \<noteq> n \<and> marker_match n x = None \<and> \<not> marker_owns_transient ?st x) \<Longrightarrow> map_of st' x = map_of ?st x"
    have "unmarked n ?st" using set by (simp add: settled_def)
    then have "unmarked n st'"
    proof (rule unmarked_frame)
      fix y assume "marker_match n y \<noteq> None"
      then show "map_of st' y = map_of ?st y" by (intro same) simp
    qed fact
    moreover have "map_of st' n = map_of ?st n" by (rule same) simp
    ultimately show "settled good n st'" using set by (simp add: settled_def)
  qed
  then show "recovers good n ?st (Inr (), ?es)" by (rule settled_recovers)
qed

section \<open>Swaps, recoveries and reaps, each cut off anywhere\<close>

text \<open>An operation on one artifact of the root; the process dies after so many of its steps.\<close>

datatype swap_event =
    SwapEv faults string string nat
  | RecoverEv faults string nat
  | PreludeEv faults string nat
  | ReapEv faults string nat

fun event_name :: "swap_event \<Rightarrow> string" where
  "event_name (SwapEv F staging n k) = n"
| "event_name (RecoverEv F n k) = n"
| "event_name (PreludeEv F n k) = n"
| "event_name (ReapEv F n k) = n"

fun event_quiet :: "swap_event \<Rightarrow> bool" where
  "event_quiet (SwapEv F staging n k) \<longleftrightarrow> intruder F = None"
| "event_quiet (RecoverEv F n k) \<longleftrightarrow> intruder F = None"
| "event_quiet (PreludeEv F n k) \<longleftrightarrow> intruder F = None"
| "event_quiet (ReapEv F n k) \<longleftrightarrow> intruder F = None"

fun event_steps :: "canon_root \<Rightarrow> swap_event \<Rightarrow> fs_step list" where
  "event_steps st (SwapEv F staging n k) = take k (snd (swap_dir_tree F staging n st))"
| "event_steps st (RecoverEv F n k) = take k (snd (recover_pending_swaps F n st))"
| "event_steps st (PreludeEv F n k) = take k (snd (recover_and_reap F n st))"
| "event_steps st (ReapEv F n k) = take k (reap_move_aside F n st)"

definition swap_step :: "canon_root \<Rightarrow> swap_event \<Rightarrow> canon_root" where
  "swap_step st ev = fs_run st (event_steps st ev)"

text \<open>A swap of \<open>n\<close> starts with a complete staging tree and a suffix that is not in use.\<close>

definition swap_legal :: "((string \<times> ustr) list \<Rightarrow> bool) \<Rightarrow> string \<Rightarrow> canon_root \<Rightarrow> swap_event \<Rightarrow> bool" where
  "swap_legal good n st ev \<longleftrightarrow> plain_name n \<and> plain_name (event_name ev) \<and> event_quiet ev \<and>
     (case ev of SwapEv F staging m k \<Rightarrow> m = n \<longrightarrow> swap_ready good n staging st | _ \<Rightarrow> True)"

lemma event_confined: "plain_name (event_name ev) \<Longrightarrow> confined (belongs (event_name ev)) (event_steps st ev)"
  using swap_confined recover_confined prelude_confined confined_mono[OF move_aside_own]
  by (cases ev) (auto intro!: confined_take)

lemma belongs_critical: "critical n st x \<Longrightarrow> belongs n x"
  by (auto simp: critical_def belongs_def)

lemma recovers_prefix: "recovers good n st r \<Longrightarrow> held good n (fs_run st (take k (snd r)))"
  by (rule stays_prefix) (simp add: recovers_def)

lemma event_held:
  assumes h: "held good n st" and legal: "swap_legal good n st ev"
  shows "held good n (swap_step st ev)"
proof (cases "event_name ev = n")
  case False
  have ps: "plain_name n" "plain_name (event_name ev)" using legal by (simp_all add: swap_legal_def)
  have "stays (held good n) st (event_steps st ev)"
  proof (rule stays_uncritical[OF ps(1) h event_confined[OF ps(2)]])
    fix x assume "belongs (event_name ev) x"
    then show "\<not> critical n st x" using belongs_critical belongs_inj[OF ps(2,1)] False by blast
  qed
  then show ?thesis unfolding swap_step_def by (rule stays_end)
next
  case True
  have n: "plain_name n" using legal by (simp add: swap_legal_def)
  show ?thesis
  proof (cases ev)
    case (SwapEv F staging m k)
    have "stays (held good n) st (snd (swap_dir_tree F staging n st))"
      using True legal unfolding SwapEv by (intro swap_stays n h) (simp_all add: swap_legal_def)
    from stays_prefix[OF this] show ?thesis using True by (simp add: SwapEv swap_step_def)
  next
    case (RecoverEv F m k)
    have "recovers good n st (recover_pending_swaps F n st)"
      using True legal unfolding RecoverEv by (intro recover_recovers n h) (simp_all add: swap_legal_def)
    from recovers_prefix[OF this] show ?thesis using True by (simp add: RecoverEv swap_step_def)
  next
    case (PreludeEv F m k)
    have "recovers good n st (recover_and_reap F n st)"
      using True legal unfolding PreludeEv by (intro prelude_recovers n h) (simp_all add: swap_legal_def)
    from recovers_prefix[OF this] show ?thesis using True by (simp add: PreludeEv swap_step_def)
  next
    case (ReapEv F m k)
    have "stays (held good n) st (reap_move_aside F n st)"
      by (rule stays_uncritical[OF n h move_aside_own[OF n]]) (simp add: critical_def)
    from stays_prefix[OF this] show ?thesis using True by (simp add: ReapEv swap_step_def)
  qed
qed

interpretation swaps: machine swap_step "swap_legal good n" "held good n" for good n
  by unfold_locales (rule event_held)

lemma settled_held: "settled good n st \<Longrightarrow> held good n st"
  by (simp add: settled_def held_unmarked)

lemma held_where:
  assumes "plain_name n" and "held good n st"
  shows "good_tree good (map_of st n) \<or> map_of st n = None \<and>
    (\<exists>s. good_tree good (map_of st (old_of n s)) \<and> marker_owns_transient st (old_of n s))"
  using assms(2)
proof (cases rule: held_cases)
  case (pending s)
  obtain j where j: "map_of st (marker_of (n @ ''-'' @ s)) = Some (Plain (Loaded j))" using load_markerD[OF pending(3)] by auto
  have "valid_name n" using assms(1) by (simp add: plain_name_def)
  from own_transients[OF this pending(1) j] pending(4) show ?thesis by (auto simp: swap_shape_def split: if_splits)
qed simp

lemma recover_calm:
  assumes n: "plain_name n" and h: "held good n st"
    and calm: "intruder F = None" "\<not> no_unlink F" "\<And>x y. \<not> no_move F x y"
  shows "\<exists>b. fst (recover_pending_swaps F n st) = Inr b"
  using h
proof (cases rule: held_cases)
  case settled
  then have "fst (recover_pending_swaps F n st) = Inr False" using recover_unmarked[of n st F] n by (simp add: plain_name_def)
  then show ?thesis by blast
next
  case (pending s)
  have sw: "in_swap n s st" using pending n by (simp add: in_swap_def)
  have clear: "\<And>P. clear_marker_or_refuse F P = (Inr (), [Remove (sp_marker P)])"
    using calm(2) by (simp add: clear_marker_or_refuse_def barrier_unlink_marker_def)
  have ren: "\<And>x v. map_of st n = None \<Longrightarrow> map_of st x = Some v \<Longrightarrow> rename_recovery F x n st = (Inr (), [Move x n])"
    using calm by (simp add: rename_recovery_def rename_no_replace_def outsider_def Let_def)
  have "fst (recover_row F (swap_paths_of n s) (map_of st n \<noteq> None) (map_of st (old_of n s) \<noteq> None) (map_of st (staging_of n s) \<noteq> None) st) = Inr ()"
    using pending(4) by (cases "map_of st n"; cases "map_of st (old_of n s)"; cases "map_of st (staging_of n s)")
      (auto simp: clear ren swap_shape_def good_tree_def)
  then show ?thesis using recover_pending[OF sw] shape_trees[OF pending(4)] by (auto simp: run_then_def)
qed

section \<open>Properties\<close>

lemma settled_start: "od_ok st \<Longrightarrow> find_marker n st = Inr None \<Longrightarrow> good_tree good (map_of st n) \<Longrightarrow> settled good n st"
  using find_marker_none[of st n] by (simp add: settled_def)

text \<open>
  C1. The artifact is never lost. Start from a canonical tree and let any sequence of swaps,
  recoveries, preludes and reaps run on this and on other artifacts, with any system calls
  failing and each operation cut off after any number of its steps. Then a complete tree is at
  the destination, or it is at an \<open>.old-\<close> name that a live marker protects from the reaper.
  \<open>good\<close> says which trees count: those the artifact had or was given.
\<close>

theorem swap_crash_safe:
  assumes "od_ok st" and "find_marker n st = Inr None" and "good_tree good (map_of st n)"
    and "plain_name n" and "legal_run (swap_legal good n) swap_step st evs"
  shows "let st' = foldl swap_step st evs in
    good_tree good (map_of st' n) \<or>
    map_of st' n = None \<and> (\<exists>s. good_tree good (map_of st' (old_of n s)) \<and> marker_owns_transient st' (old_of n s))"
  using held_where[OF assms(4) swaps.run_inv[OF settled_held[OF settled_start[OF assms(1-3)]] assms(5)]]
  unfolding Let_def .

text \<open>
  C11. Recovery converges. From whatever such a sequence left, one prelude whose renames and
  whose unlink succeed returns, even when the removal of trees fails; then the destination is a
  complete tree, no marker is left and a second recovery has nothing to do.
\<close>

theorem recovery_converges:
  assumes "od_ok st" and "find_marker n st = Inr None" and "good_tree good (map_of st n)"
    and "plain_name n" and "legal_run (swap_legal good n) swap_step st evs"
    and "intruder F = None" and "\<not> no_unlink F" and "\<And>x y. \<not> no_move F x y"
  shows "let st' = foldl swap_step st evs; r = recover_and_reap F n st'; st'' = fs_run st' (snd r) in
    fst r = Inr () \<and> good_tree good (map_of st'' n) \<and> \<not> has_pending_swap n st'' \<and>
    recover_pending_swaps F n st'' = (Inr False, [])"
proof -
  let ?st = "foldl swap_step st evs"
  have h: "held good n ?st"
    using swaps.run_inv[OF settled_held[OF settled_start[OF assms(1-3)]] assms(5)] .
  obtain b where b: "fst (recover_pending_swaps F n ?st) = Inr b" using recover_calm[OF assms(4) h assms(6-8)] by blast
  then have ret: "fst (recover_and_reap F n ?st) = Inr ()" by (simp add: recover_and_reap_def run_then_def Let_def)
  with prelude_recovers[OF assms(4) h assms(6)] have set: "settled good n (fs_run ?st (snd (recover_and_reap F n ?st)))"
    by (simp add: recovers_def)
  have v: "valid_name n" using assms(4) by (simp add: plain_name_def)
  have unm: "unmarked n (fs_run ?st (snd (recover_and_reap F n ?st)))" using set by (simp add: settled_def)
  then have "find_marker n (fs_run ?st (snd (recover_and_reap F n ?st))) = Inr None"
    using find_marker_none by (auto simp: unmarked_def)
  then show ?thesis
    using ret set recover_unmarked[OF v unm, of F] by (simp add: Let_def settled_def has_pending_swap_def)
qed

text \<open>
  What \<open>swap_dir_tree\<close> reports is what is on disk: it returns when the destination is the
  new tree, it raises the failure of a system call when the destination is still the original,
  and it raises a recovery error exactly when the marker stays for the next recovery.
\<close>

theorem swap_outcome:
  assumes "plain_name n" and "intruder F = None" and "od_ok st" and "find_marker n st = Inr None"
    and "valid_suffix 6 s" and "map_of st n = Some (Tree t0)" and "map_of st (staging_of n s) = Some (Tree t1)"
    and "map_of st (old_of n s) = None"
  shows "let r = swap_dir_tree F (staging_of n s) n st; st' = fs_run st (snd r) in
    (case fst r of
       Inr _ \<Rightarrow> map_of st' n = Some (Tree t1)
     | Inl e \<Rightarrow> if e = SwapRecovery then has_pending_swap n st' else map_of st' n = Some (Tree t0))"
proof -
  have "unmarked n st" using assms(3,4) find_marker_none by blast
  from swap_settled(2)[OF assms(1,2) this assms(5,6) _ assms(7) _ assms(8), of "\<lambda>_. True"]
  show ?thesis by (simp add: Let_def swap_reported_def split: sum.splits)
qed

text \<open>
  A writer outside the lock that recreates the destination between the two renames is not
  overwritten: the swap is refused with the original at its \<open>.old-\<close> name and the replacement
  at its staging name, and every later prelude refuses without touching anything.
\<close>

theorem foreign_tree_untouched:
  assumes "plain_name n" and "od_ok st" and "find_marker n st = Inr None" and "valid_suffix 6 s"
    and "map_of st n = Some (Tree t0)" and "map_of st (staging_of n s) = Some (Tree t1)" and "map_of st (old_of n s) = None"
    and "\<not> no_marker F" and "\<not> no_move F n (old_of n s)" and "intruder F = Some v"
  shows "let r = swap_dir_tree F (staging_of n s) n st; st' = fs_run st (snd r) in
    fst r = Inl SwapRecovery \<and> map_of st' n = Some v \<and> map_of st' (old_of n s) = Some (Tree t0) \<and>
    map_of st' (staging_of n s) = Some (Tree t1) \<and>
    (\<forall>G. recover_and_reap G n st' = (Inl (if is_tree st' n then SwapForeign else SwapRecovery), []))"
proof -
  let ?P = "swap_paths_of n s" and ?w = "Create (marker_of (n @ ''-'' @ s)) (Plain (Loaded (marker_payload (clock F) (swap_paths_of n s))))"
  have val: "valid_name n" using assms(1) by (simp add: plain_name_def)
  have unm: "unmarked n st" using assms(2,3) find_marker_none by blast
  note apart = names_apart[OF assms(1,4)]
  have sm: "staging_match n (staging_of n s) = Some s" by (simp add: staging_match_iff assms(4))
  let ?st1 = "fs_apply st ?w"
  let ?st2 = "fs_apply (fs_apply ?st1 (Move n (old_of n s))) (Create n v)"
  have sw1: "in_swap n s ?st1" by (rule written_in_swap[OF assms(1,4) unm])
  have n1: "map_of ?st1 n = Some (Tree t0)" using apart assms(5) by simp
  have sw2: "in_swap n s (fs_apply ?st1 (Move n (old_of n s)))" by (rule moved_in_swap[OF sw1 n1]) simp_all
  have m: "map_of ?st2 = (map_of ?st1)(old_of n s \<mapsto> Tree t0, n \<mapsto> v)"
    using map_of_move[OF n1, of "old_of n s"] by (auto simp: fun_eq_iff)
  have sw3: "in_swap n s ?st2"
  proof (rule in_swap_frame[OF sw2])
    show "od_ok ?st2" using assms(2) by (intro fs_apply_ok)
  qed auto
  have facts: "map_of ?st2 n = Some v" "map_of ?st2 (old_of n s) = Some (Tree t0)" "map_of ?st2 (staging_of n s) = Some (Tree t1)"
    using apart assms(6) unfolding m by simp_all
  have aside: "rename_no_replace F ?st1 n (old_of n s) = Inr [Move n (old_of n s)]"
    using n1 apart assms(7,9) by (simp add: rename_no_replace_def)
  have swap: "swap_dir_tree F (staging_of n s) n st = (Inl SwapRecovery, [?w, Move n (old_of n s), Create n v])"
  proof -
    have "rename_in F ?P ?st2 = (Inl SwapRecovery, [])"
      using facts by (simp add: rename_in_def unwind_rename2_def rename_no_replace_def del: fs_apply.simps)
    then have "rename_aside F ?P ?st1 = (Inl SwapRecovery, [Move n (old_of n s), Create n v])"
      using aside assms(10) by (simp add: rename_aside_def outsider_def del: fs_apply.simps)
    moreover have "swap_dir_tree F (staging_of n s) n st = run_then st (Inr (), [?w]) (\<lambda>st' _. rename_aside F ?P st')"
      using assms(3,5,6,8) by (simp add: swap_dir_tree_def val sm is_tree_def Let_def del: run_then_simps)
    ultimately show ?thesis by (simp del: fs_apply.simps)
  qed
  have rec: "recover_pending_swaps G n ?st2 = (Inl (if is_tree ?st2 n then SwapForeign else SwapRecovery), [])" for G
  proof (cases "tree_or_none (Some v)")
    case True
    then have "is_tree ?st2 n" using facts(1) by (auto simp: is_tree_def tree_or_none_def split: node.splits)
    with True recover_pending[OF sw3, of G] facts show ?thesis by (simp add: tree_or_none_def)
  next
    case False
    then have "present_dir ?st2 n = Inl SwapRecovery" "\<not> is_tree ?st2 n"
      using facts(1) by (auto simp: present_dir_def is_tree_def tree_or_none_def split: node.splits)
    moreover note in_swap_found[OF sw3]
    moreover have "load_marker (marker_of (n @ ''-'' @ s)) (map_of ?st2 (marker_of (n @ ''-'' @ s))) n = Inr ?P"
      using sw3 by (simp only: in_swap_def)
    ultimately show ?thesis by (simp only: recover_pending_swaps_def val sum.case option.case bind_res_simps paths_simps) simp
  qed
  have "recover_and_reap G n ?st2 = (Inl (if is_tree ?st2 n then SwapForeign else SwapRecovery), [])" for G
    by (simp only: recover_and_reap_def rec run_then_simps)
  then show ?thesis unfolding swap using facts by (simp add: Let_def)
qed

text \<open>
  Names keep artifacts apart: an operation on one artifact, whole or cut off, changes no
  entry of another one, not even of an artifact whose name extends the first with a dash.
\<close>

theorem swap_contained:
  assumes "plain_name m" and "plain_name (event_name ev)" and "m \<noteq> event_name ev" and "belongs m x"
  shows "map_of (swap_step st ev) x = map_of st x"
  unfolding swap_step_def using belongs_inj[OF assms(1,2,4)] assms(3)
  by (intro run_frame[OF event_confined[OF assms(2)]]) blast

section \<open>The theorems at work\<close>

definition calm_faults :: faults where
  "calm_faults = \<lparr>no_marker = False, no_move = \<lambda>_ _. False, no_unlink = False, rmtree_stop = \<lambda>_. None, intruder = None, clock = []\<rparr>"

definition sample_suffix :: string where "sample_suffix = ''7-ab12cd''"

definition sample_skill :: "(string \<times> ustr) list" where "sample_skill = [(''SKILL.md'', [1])]"
definition sample_new :: "(string \<times> ustr) list" where "sample_new = [(''SKILL.md'', [2]), (''a/b'', [3])]"

definition sample_root :: canon_root where
  "sample_root = [(''lint'', Tree sample_skill), (staging_of ''lint'' sample_suffix, Tree sample_new),
     (''lint-md'', Tree sample_skill), (old_of ''lint-md'' sample_suffix, Tree sample_skill)]"

definition sample_good :: "(string \<times> ustr) list \<Rightarrow> bool" where
  "sample_good t \<longleftrightarrow> t = sample_skill \<or> t = sample_new"

text \<open>A swap that dies between its renames, a reap that must spare the original, a recovery that dies after its rename.\<close>

definition sample_events :: "swap_event list" where
  "sample_events = [SwapEv calm_faults (staging_of ''lint'' sample_suffix) ''lint'' 2, ReapEv calm_faults ''lint-md'' 9,
     ReapEv calm_faults ''lint'' 9, RecoverEv calm_faults ''lint'' 1]"

lemma sample_swap_start:
  "od_ok sample_root" "find_marker ''lint'' sample_root = Inr None" "good_tree sample_good (map_of sample_root ''lint'')"
  "plain_name ''lint''" "plain_name ''lint-md''" "valid_suffix 6 sample_suffix"
  "map_of sample_root ''lint'' = Some (Tree sample_skill)" "map_of sample_root (staging_of ''lint'' sample_suffix) = Some (Tree sample_new)"
  "map_of sample_root (old_of ''lint'' sample_suffix) = None"
  "legal_run (swap_legal sample_good ''lint'') swap_step sample_root sample_events"
  by code_simp+

theorem swap_crash_safe_witness:
  "let st' = foldl swap_step sample_root sample_events in
    good_tree sample_good (map_of st' ''lint'') \<or>
    map_of st' ''lint'' = None \<and> (\<exists>s. good_tree sample_good (map_of st' (old_of ''lint'' s)) \<and> marker_owns_transient st' (old_of ''lint'' s))"
  by (rule swap_crash_safe[OF sample_swap_start(1-4,10)])

theorem recovery_converges_witness:
  "let st' = foldl swap_step sample_root sample_events; r = recover_and_reap calm_faults ''lint'' st'; st'' = fs_run st' (snd r) in
    fst r = Inr () \<and> good_tree sample_good (map_of st'' ''lint'') \<and> \<not> has_pending_swap ''lint'' st'' \<and>
    recover_pending_swaps calm_faults ''lint'' st'' = (Inr False, [])"
  by (rule recovery_converges[OF sample_swap_start(1-4,10)]) (simp_all add: calm_faults_def)

theorem swap_outcome_witness:
  "let F = calm_faults\<lparr>no_move := \<lambda>_ y. y = ''lint''\<rparr>; r = swap_dir_tree F (staging_of ''lint'' sample_suffix) ''lint'' sample_root;
       st' = fs_run sample_root (snd r) in
    fst r = Inl SwapRecovery \<and> has_pending_swap ''lint'' st'"
proof -
  define F where "F = calm_faults\<lparr>no_move := \<lambda>_ y. y = ''lint''\<rparr>"
  have r: "fst (swap_dir_tree F (staging_of ''lint'' sample_suffix) ''lint'' sample_root) = Inl SwapRecovery"
    unfolding F_def by code_simp
  have "intruder F = None" by (simp add: F_def calm_faults_def)
  from swap_outcome[OF sample_swap_start(4) this sample_swap_start(1,2,6,7,8,9)] show ?thesis
    unfolding F_def[symmetric] Let_def r sum.case using r by simp
qed

theorem foreign_tree_untouched_witness:
  "let F = calm_faults\<lparr>intruder := Some (Tree [])\<rparr>; r = swap_dir_tree F (staging_of ''lint'' sample_suffix) ''lint'' sample_root;
       st' = fs_run sample_root (snd r) in
    fst r = Inl SwapRecovery \<and> map_of st' ''lint'' = Some (Tree []) \<and> map_of st' (old_of ''lint'' sample_suffix) = Some (Tree sample_skill) \<and>
    map_of st' (staging_of ''lint'' sample_suffix) = Some (Tree sample_new) \<and>
    (\<forall>G. recover_and_reap G ''lint'' st' = (Inl (if is_tree st' ''lint'' then SwapForeign else SwapRecovery), []))"
  unfolding Let_def
  by (rule foreign_tree_untouched[OF sample_swap_start(4,1,2,6,7,8,9), unfolded Let_def]) (simp_all add: calm_faults_def)

theorem swap_contained_witness:
  "map_of (swap_step sample_root (PreludeEv calm_faults ''lint'' 9)) (old_of ''lint-md'' sample_suffix) = Some (Tree sample_skill)"
proof -
  have "belongs ''lint-md'' (old_of ''lint-md'' sample_suffix)" "map_of sample_root (old_of ''lint-md'' sample_suffix) = Some (Tree sample_skill)"
    by code_simp+
  with swap_contained[of "''lint-md''" "PreludeEv calm_faults ''lint'' 9" "old_of ''lint-md'' sample_suffix" sample_root]
  show ?thesis using sample_swap_start(4,5) by simp
qed

end
