(* ===== verification/SourceHolds.thy ===== *)
theory SourceHolds
  imports Prelude "HOL-Library.List_Lexorder" "HOL-Library.Char_ord" "HOL-Library.Product_Lexorder"
begin

text \<open>
  Holding a source out of search (\<open>storage/sqlite_source_holds_ops.py\<close>, \<open>source_holds.py\<close>): the
  tables \<open>held_sources\<close>, \<open>pending_source_checks\<close> and \<open>source_visibility_generations\<close>, the
  visibility rules that read them (\<open>sqlite_visibility.py\<close>), and the operations elsewhere that
  must keep them in step: deletes (\<open>sqlite_backend.py\<close>), the orphan scan and sweep
  (\<open>orphan_detect.py\<close>, \<open>orphan_gc.py\<close>) and the index pass (\<open>engine.py\<close>). A method is one
  function on the tables, as it runs under the writer lock; \<open>resolve\<close> resolves a path to its stored
  key, \<open>spelling\<close> folds the Unicode form of a key.
\<close>

section \<open>Reasons\<close>

definition REDACTION_BLOCKED_HOLD :: string where "REDACTION_BLOCKED_HOLD = ''redaction_blocked''"
definition RELINKED_HOLD :: string where "RELINKED_HOLD = ''source_relinked''"
definition SCOPE_LOST_HOLD :: string where "SCOPE_LOST_HOLD = ''scope_lost''"

definition PRESENCE_KEPT_HOLD_REASONS :: "string list" where
  "PRESENCE_KEPT_HOLD_REASONS = [REDACTION_BLOCKED_HOLD, RELINKED_HOLD, SCOPE_LOST_HOLD]"

definition ABSENCE_HOLD_REASONS :: "string list" where
  "ABSENCE_HOLD_REASONS = [''source_missing'', ''scan_missing'']"

definition hold_rank :: "string \<Rightarrow> nat" where
  "hold_rank reason = (if reason = REDACTION_BLOCKED_HOLD then 2
     else if reason = RELINKED_HOLD \<or> reason = SCOPE_LOST_HOLD then 1 else 0)"

section \<open>The tables\<close>

record stored_chunk =
  st_id :: string
  st_source :: string
  st_origin :: "string option"
  st_scope :: string
  st_root :: "string option"

record hold_row =
  ho_first :: string
  ho_checked :: string
  ho_reason :: string

record hold_db =
  hd_chunks :: "stored_chunk list"
  hd_held :: "(string, hold_row) odict"
  hd_pending :: "(string, string) odict"
  hd_gens :: "(string, int) odict"
  hd_epoch :: int

text \<open>No transaction, one the backend tracks for its caller, or one that nobody owns.\<close>

datatype txn_state = NoTxn | OwnedTxn | UnownedTxn

datatype hold_error = TransactionOwned

type_synonym 'a hold_result = "(hold_error, 'a) result \<times> hold_db"

definition gen_of :: "hold_db \<Rightarrow> string \<Rightarrow> int" where
  "gen_of db s = (case map_of (hd_gens db) s of None \<Rightarrow> 0 | Some g \<Rightarrow> g)"

definition indexed :: "hold_db \<Rightarrow> string \<Rightarrow> bool" where
  "indexed db s \<longleftrightarrow> list_ex (\<lambda>c. st_source c = s) (hd_chunks db)"

definition is_source_held :: "hold_db \<Rightarrow> string \<Rightarrow> bool" where
  "is_source_held db s \<longleftrightarrow> map_of (hd_held db) s \<noteq> None \<or> map_of (hd_pending db) s \<noteq> None"

definition bump_source_visibility :: "string \<Rightarrow> hold_db \<Rightarrow> hold_db" where
  "bump_source_visibility s db = db\<lparr>hd_epoch := hd_epoch db + 1, hd_gens := od_set s (gen_of db s + 1) (hd_gens db)\<rparr>"

definition clear_source_visibility :: "string \<Rightarrow> hold_db \<Rightarrow> bool \<times> hold_db" where
  "clear_source_visibility s db =
     (if is_source_held db s
      then (True, bump_source_visibility s (db\<lparr>hd_held := od_del s (hd_held db), hd_pending := od_del s (hd_pending db)\<rparr>))
      else (False, db))"

section \<open>Holding and releasing\<close>

definition key_of :: "(string \<Rightarrow> string) \<Rightarrow> string \<Rightarrow> bool \<Rightarrow> string" where
  "key_of resolve src as_stored = (if as_stored then src else resolve src)"

text \<open>The row a hold writes, and whether the write counts as a change of visibility.\<close>

definition write_hold :: "string \<Rightarrow> string \<Rightarrow> string \<Rightarrow> hold_db \<Rightarrow> bool \<times> hold_db" where
  "write_hold s reason now db = (case map_of (hd_held db) s of
      None \<Rightarrow> (True, db\<lparr>hd_held := od_set s \<lparr>ho_first = now, ho_checked = now, ho_reason = reason\<rparr> (hd_held db)\<rparr>)
    | Some r \<Rightarrow>
        if ho_reason r \<noteq> reason \<and> hold_rank (ho_reason r) \<le> hold_rank reason
        then (reason \<in> set PRESENCE_KEPT_HOLD_REASONS,
              db\<lparr>hd_held := od_set s (r\<lparr>ho_checked := now, ho_reason := reason\<rparr>) (hd_held db)\<rparr>)
        else (False, db))"

definition hold_source ::
  "(string \<Rightarrow> string) \<Rightarrow> string \<Rightarrow> string \<Rightarrow> bool \<Rightarrow> string \<Rightarrow> txn_state \<Rightarrow> hold_db \<Rightarrow> bool hold_result" where
  "hold_source resolve src reason as_stored now txn db =
     (let s = key_of resolve src as_stored
      in if txn = UnownedTxn then (Inl TransactionOwned, db)
         else if (case map_of (hd_held db) s of
                    Some r \<Rightarrow> ho_reason r = reason \<or> hold_rank (ho_reason r) > hold_rank reason
                  | None \<Rightarrow> False) \<and> map_of (hd_pending db) s = None
         then (Inr False, db)
         else if \<not> indexed db s
         then (let r = clear_source_visibility s db in (Inr (fst r), snd r))
         else (let w = write_hold s reason now db;
                   pending = map_of (hd_pending db) s \<noteq> None;
                   db' = (snd w)\<lparr>hd_pending := od_del s (hd_pending (snd w))\<rparr>;
                   changed = fst w \<or> pending
               in (Inr changed, if changed then bump_source_visibility s db' else db')))"

definition release_source_hold ::
  "(string \<Rightarrow> string) \<Rightarrow> string \<Rightarrow> int option \<Rightarrow> bool \<Rightarrow> bool \<Rightarrow> txn_state \<Rightarrow> hold_db \<Rightarrow> bool hold_result" where
  "release_source_hold resolve src expected validated as_stored txn db =
     (let s = key_of resolve src as_stored
      in if txn = UnownedTxn then (Inl TransactionOwned, db)
         else let generation_matches = (case expected of None \<Rightarrow> True | Some g \<Rightarrow> gen_of db s = g);
                  content_blocked = (\<not> validated \<and> (case map_of (hd_held db) s of
                      Some r \<Rightarrow> ho_reason r \<in> set PRESENCE_KEPT_HOLD_REASONS | None \<Rightarrow> False))
           in if generation_matches \<and> \<not> content_blocked \<and> is_source_held db s
              then (let r = clear_source_visibility s db in (Inr (fst r), snd r))
              else (Inr False, db))"

definition release_absence_hold :: "string \<Rightarrow> txn_state \<Rightarrow> hold_db \<Rightarrow> bool hold_result" where
  "release_absence_hold s txn db =
     (if txn = UnownedTxn then (Inl TransactionOwned, db)
      else let held = (case map_of (hd_held db) s of
                  Some r \<Rightarrow> ho_reason r \<in> set ABSENCE_HOLD_REASONS | None \<Rightarrow> False);
               db1 = (if held then db\<lparr>hd_held := od_del s (hd_held db)\<rparr> else db);
               pending = (map_of (hd_held db1) s = None \<and> map_of (hd_pending db1) s \<noteq> None);
               db2 = (if pending then db1\<lparr>hd_pending := od_del s (hd_pending db1)\<rparr> else db1)
        in (Inr (held \<or> pending), if held \<or> pending then bump_source_visibility s db2 else db2))"

text \<open>The observer's journal of a delete: \<open>spelling\<close> of the absolute path, without resolving it.\<close>

definition queue_source_check_sync :: "(string \<Rightarrow> string) \<Rightarrow> string \<Rightarrow> string \<Rightarrow> hold_db \<Rightarrow> bool \<times> hold_db" where
  "queue_source_check_sync spelling src now db =
     (let s = spelling src
      in if \<not> indexed db s then (False, db)
         else (True, bump_source_visibility s (db\<lparr>hd_pending := od_set s now (hd_pending db)\<rparr>)))"

section \<open>Reading visibility\<close>

definition CONSOLIDATED_SUFFIX :: string where "CONSOLIDATED_SUFFIX = ''.consolidated.md''"
definition ORIGIN_CONSOLIDATION_POLICY :: string where "ORIGIN_CONSOLIDATION_POLICY = ''consolidation_policy''"

text \<open>\<open>substr(s, 1, length(s) - length(suffix))\<close>: empty when the difference is not positive.\<close>

definition parent_key :: "string \<Rightarrow> string" where
  "parent_key s = take (length s - length CONSOLIDATED_SUFFIX) s"

definition is_summary :: "stored_chunk \<Rightarrow> bool" where
  "is_summary c \<longleftrightarrow> st_origin c = Some ORIGIN_CONSOLIDATION_POLICY"

definition has_summary :: "hold_db \<Rightarrow> string \<Rightarrow> bool" where
  "has_summary db s \<longleftrightarrow> list_ex (\<lambda>c. st_source c = s \<and> is_summary c) (hd_chunks db)"

definition visible_source :: "hold_db \<Rightarrow> stored_chunk \<Rightarrow> bool" where
  "visible_source db c \<longleftrightarrow> \<not> is_source_held db (st_source c) \<and>
     (\<not> is_summary c \<or> \<not> is_source_held db (parent_key (st_source c)))"

definition withheld :: "hold_db \<Rightarrow> string \<Rightarrow> bool" where
  "withheld db s \<longleftrightarrow> (case map_of (hd_held db) s of Some r \<Rightarrow> ho_reason r = REDACTION_BLOCKED_HOLD | None \<Rightarrow> False)"

definition not_withheld :: "hold_db \<Rightarrow> stored_chunk \<Rightarrow> bool" where
  "not_withheld db c \<longleftrightarrow> \<not> withheld db (st_source c) \<and> (\<not> is_summary c \<or> \<not> withheld db (parent_key (st_source c)))"

definition visible_path :: "hold_db \<Rightarrow> string \<Rightarrow> bool" where
  "visible_path db s \<longleftrightarrow> \<not> is_source_held db s \<and> \<not> (has_summary db s \<and> is_source_held db (parent_key s))"

definition get_hidden_source_files :: "hold_db \<Rightarrow> string list" where
  "get_hidden_source_files db = od_keys (hd_held db) @ od_keys (hd_pending db) @
     map st_source (filter (\<lambda>c. is_summary c \<and> is_source_held db (parent_key (st_source c))) (hd_chunks db))"

definition has_suffix :: "string \<Rightarrow> bool" where
  "has_suffix s \<longleftrightarrow> length CONSOLIDATED_SUFFIX \<le> length s \<and> drop (length s - length CONSOLIDATED_SUFFIX) s = CONSOLIDATED_SUFFIX"

definition is_source_hidden :: "hold_db \<Rightarrow> string \<Rightarrow> bool" where
  "is_source_hidden db s \<longleftrightarrow> is_source_held db s \<or>
     (has_suffix s \<and> has_summary db s \<and> is_source_held db (parent_key s))"

definition get_held_sources :: "hold_db \<Rightarrow> string list" where
  "get_held_sources db = map snd (sort (map (\<lambda>(s, r). (ho_first r, s)) (filter (\<lambda>(s, _). indexed db s) (hd_held db))))"

definition get_pending_source_checks :: "hold_db \<Rightarrow> string list" where
  "get_pending_source_checks db = map snd (sort (map (\<lambda>(s, t). (t, s)) (filter (\<lambda>(s, _). indexed db s) (hd_pending db))))"

definition source_hold_snapshot :: "(string \<Rightarrow> string) \<Rightarrow> string \<Rightarrow> hold_db \<Rightarrow> int option" where
  "source_hold_snapshot resolve src db = (let s = resolve src in if is_source_held db s then Some (gen_of db s) else None)"

section \<open>Operations that delete chunks\<close>

definition delete_policy_summaries_for_source :: "string \<Rightarrow> hold_db \<Rightarrow> nat \<times> hold_db" where
  "delete_policy_summaries_for_source source db =
     (let summary = source @ CONSOLIDATED_SUFFIX;
          doomed = (\<lambda>c. st_source c = summary \<and> is_summary c);
          db' = db\<lparr>hd_chunks := filter (Not \<circ> doomed) (hd_chunks db)\<rparr>
      in (length (filter doomed (hd_chunks db)),
          if list_ex doomed (hd_chunks db) \<and> \<not> indexed db' summary then snd (clear_source_visibility summary db') else db'))"

definition finish_emptied :: "string \<Rightarrow> hold_db \<Rightarrow> hold_db" where
  "finish_emptied s db =
     (if indexed db s then db
      else snd (clear_source_visibility s (snd (delete_policy_summaries_for_source s db))))"

definition delete_chunks :: "string list \<Rightarrow> bool \<Rightarrow> txn_state \<Rightarrow> hold_db \<Rightarrow> nat \<times> hold_db" where
  "delete_chunks ids finalize txn db =
     (let rows = filter (\<lambda>c. st_id c \<in> set ids) (hd_chunks db);
          affected = remdups (filter (\<lambda>s. s \<noteq> []) (map st_source rows));
          db' = db\<lparr>hd_chunks := filter (\<lambda>c. st_id c \<notin> set ids) (hd_chunks db)\<rparr>
      in if rows = [] then (0, db)
         else (length rows, if finalize \<or> txn \<noteq> OwnedTxn then fold finish_emptied affected db' else db'))"

definition delete_by_source :: "(string \<Rightarrow> string) \<Rightarrow> string \<Rightarrow> bool \<Rightarrow> hold_db \<Rightarrow> nat \<times> hold_db" where
  "delete_by_source resolve src as_stored db =
     (let s = key_of resolve src as_stored; summary = s @ CONSOLIDATED_SUFFIX;
          doomed = (\<lambda>c. st_source c = s \<or> (st_source c = summary \<and> is_summary c));
          db1 = snd (clear_source_visibility s (db\<lparr>hd_chunks := filter (Not \<circ> doomed) (hd_chunks db)\<rparr>))
      in (length (filter doomed (hd_chunks db)),
          if indexed db1 summary then db1 else snd (clear_source_visibility summary db1)))"

definition PROJECT_SCOPES :: "string list" where
  "PROJECT_SCOPES = [''project_shared'', ''project_local'']"

definition sweep_orphan_project_root :: "string \<Rightarrow> (string \<Rightarrow> bool) \<Rightarrow> hold_db \<Rightarrow> nat \<times> hold_db" where
  "sweep_orphan_project_root project_root kept db =
     (let doomed = (\<lambda>c. st_scope c \<in> set PROJECT_SCOPES \<and> st_root c = Some project_root \<and> \<not> (st_source c \<noteq> [] \<and> kept (st_source c)));
          rows = filter doomed (hd_chunks db);
          db' = db\<lparr>hd_chunks := filter (Not \<circ> doomed) (hd_chunks db)\<rparr>
      in (length rows,
          fold (\<lambda>s d. if indexed d s then d else snd (clear_source_visibility s d))
            (remdups (filter (\<lambda>s. s \<noteq> []) (map st_source rows))) db'))"

section \<open>The orphan scan and the index pass\<close>

record retain_rule =
  rr_retain :: "string list"
  rr_roots :: "string list"

definition starts_with_any :: "string \<Rightarrow> string list \<Rightarrow> bool" where
  "starts_with_any key ps \<longleftrightarrow> list_ex (\<lambda>p. take (length p) key = p) ps"

definition retains_key :: "(string \<Rightarrow> string) \<Rightarrow> retain_rule \<Rightarrow> string \<Rightarrow> bool" where
  "retains_key spelling rule key \<longleftrightarrow>
     starts_with_any (spelling key) (rr_retain rule) \<and> starts_with_any (spelling key) (rr_roots rule)"

fun hold_each :: "(hold_db \<Rightarrow> bool hold_result) list \<Rightarrow> hold_db \<Rightarrow> bool hold_result" where
  "hold_each [] db = (Inr False, db)"
| "hold_each (f # fs) db = (case f db of
      (Inl e, db') \<Rightarrow> (Inl e, db')
    | (Inr b, db') \<Rightarrow> (case hold_each fs db' of (Inl e, db'') \<Rightarrow> (Inl e, db'') | (Inr b', db'') \<Rightarrow> (Inr (b \<or> b'), db'')))"

text \<open>\<open>is_link\<close>: the stored key names a symbolic link now.\<close>

definition hold_orphans ::
  "(string \<Rightarrow> string) \<Rightarrow> (string \<Rightarrow> string) \<Rightarrow> retain_rule \<Rightarrow> (string \<Rightarrow> bool) \<Rightarrow> string list \<Rightarrow> string list \<Rightarrow> string
    \<Rightarrow> txn_state \<Rightarrow> hold_db \<Rightarrow> bool hold_result" where
  "hold_orphans resolve spelling rule is_link confirmed unavailable now txn db =
     (let keep = retains_key spelling rule; linked = (\<lambda>s. spelling s = s \<and> is_link s);
          retained = filter (\<lambda>s. keep s \<and> \<not> linked s) confirmed;
          missing = filter (\<lambda>s. \<not> keep s) confirmed @ filter (\<lambda>s. keep s \<and> linked s) confirmed
      in hold_each
           (map (\<lambda>s. release_absence_hold s txn) retained @
            map (\<lambda>s. hold_source resolve s ''scan_missing'' True now txn) missing @
            map (\<lambda>s. hold_source resolve s ''scan_unavailable'' True now txn) unavailable) db)"

text \<open>What \<open>index_file\<close> does once the content was indexed: it releases what was held before it started.\<close>

definition release_after_index ::
  "(string \<Rightarrow> string) \<Rightarrow> string \<Rightarrow> int option \<Rightarrow> bool \<Rightarrow> nat \<Rightarrow> nat \<Rightarrow> txn_state \<Rightarrow> hold_db \<Rightarrow> bool hold_result" where
  "release_after_index resolve src hold_generation errors total_chunks skipped txn db =
     (case hold_generation of
        Some g \<Rightarrow> if \<not> errors \<and> (0 < total_chunks \<or> 0 < skipped)
                   then (case release_source_hold resolve src (Some g) True False txn db of
                           (Inl e, db') \<Rightarrow> (Inr False, db') | r \<Rightarrow> r)
                   else (Inr False, db)
      | None \<Rightarrow> (Inr False, db))"

section \<open>What the operations do to visibility\<close>

lemma held_simps [simp]:
  "is_source_held (db\<lparr>hd_chunks := cs\<rparr>) s = is_source_held db s"
  "is_source_held (db\<lparr>hd_epoch := e, hd_gens := g\<rparr>) s = is_source_held db s"
  "is_source_held (bump_source_visibility x db) s = is_source_held db s"
  "withheld (db\<lparr>hd_chunks := cs\<rparr>) s = withheld db s"
  "withheld (bump_source_visibility x db) s = withheld db s"
  "indexed (bump_source_visibility x db) s = indexed db s"
  "hd_chunks (bump_source_visibility x db) = hd_chunks db"
  "hd_epoch (bump_source_visibility x db) = hd_epoch db + 1"
  by (simp_all add: is_source_held_def bump_source_visibility_def withheld_def indexed_def)

lemma gen_bump [simp]: "gen_of (bump_source_visibility x db) s = gen_of db s + (if s = x then 1 else 0)"
  by (simp add: gen_of_def bump_source_visibility_def)

lemma gen_same [simp]:
  "gen_of (db\<lparr>hd_chunks := cs\<rparr>) s = gen_of db s" "gen_of (db\<lparr>hd_held := h\<rparr>) s = gen_of db s"
  "gen_of (db\<lparr>hd_pending := p\<rparr>) s = gen_of db s"
  by (simp_all add: gen_of_def)

lemma clear_simps [simp]:
  "fst (clear_source_visibility x db) = is_source_held db x"
  "hd_chunks (snd (clear_source_visibility x db)) = hd_chunks db"
  "is_source_held (snd (clear_source_visibility x db)) s \<longleftrightarrow> s \<noteq> x \<and> is_source_held db s"
  "withheld (snd (clear_source_visibility x db)) s \<longleftrightarrow> s \<noteq> x \<and> withheld db s"
  by (auto simp: clear_source_visibility_def bump_source_visibility_def is_source_held_def withheld_def)

lemma indexed_chunks: "hd_chunks db = hd_chunks db' \<Longrightarrow> indexed db s = indexed db' s"
  by (simp add: indexed_def)

lemma clear_indexed [simp]: "indexed (snd (clear_source_visibility x db)) s = indexed db s"
  by (rule indexed_chunks) simp

lemma summaries_unindexed: "\<not> indexed db x \<Longrightarrow> \<not> indexed (snd (delete_policy_summaries_for_source y db)) x"
  by (auto simp: delete_policy_summaries_for_source_def Let_def indexed_def list_ex_iff)

section \<open>What a delete leaves behind\<close>

text \<open>
  A delete drops rows and clears the visibility of the sources it emptied, and nothing else: what is
  reflexive, transitive, and kept by both of these is kept by every delete.
\<close>

locale delete_order =
  fixes rel :: "hold_db \<Rightarrow> hold_db \<Rightarrow> bool"
  assumes same: "rel db db"
    and chain: "rel a b \<Longrightarrow> rel b c \<Longrightarrow> rel a c"
    and dropped: "rel db (db\<lparr>hd_chunks := filter P (hd_chunks db)\<rparr>)"
    and cleared: "\<not> indexed db x \<Longrightarrow> rel db (snd (clear_source_visibility x db))"
begin

lemma summaries_rel: "rel db (snd (delete_policy_summaries_for_source x db))"
proof -
  let ?db = "db\<lparr>hd_chunks := filter (Not \<circ> (\<lambda>c. st_source c = x @ CONSOLIDATED_SUFFIX \<and> is_summary c)) (hd_chunks db)\<rparr>"
  have "rel db ?db" by (rule dropped)
  then show ?thesis using chain[OF _ cleared, of db ?db "x @ CONSOLIDATED_SUFFIX"]
    by (simp add: delete_policy_summaries_for_source_def Let_def)
qed

lemma emptied_rel: "rel db (finish_emptied x db)"
  using same chain[OF summaries_rel cleared[OF summaries_unindexed]] by (simp add: finish_emptied_def)

lemma fold_rel: "(\<And>x db. rel db (f x db)) \<Longrightarrow> rel db (fold f xs db)"
proof (induction xs arbitrary: db)
  case (Cons x xs)
  then show ?case using chain[of db "f x db" "fold f xs (f x db)"] by simp
qed (simp add: same)

lemma delete_rel: "rel db (snd (delete_chunks ids finalize txn db))"
  using same dropped chain[OF dropped fold_rel[of finish_emptied, OF emptied_rel]]
  by (auto simp: delete_chunks_def Let_def)

lemma delete_source_rel: "rel db (snd (delete_by_source resolve src as_stored db))"
proof -
  let ?s = "key_of resolve src as_stored"
  let ?db = "db\<lparr>hd_chunks := filter (Not \<circ> (\<lambda>c. st_source c = ?s \<or> (st_source c = ?s @ CONSOLIDATED_SUFFIX \<and> is_summary c))) (hd_chunks db)\<rparr>"
  have "\<not> indexed ?db ?s" by (auto simp: indexed_def list_ex_iff)
  then have one: "rel db (snd (clear_source_visibility ?s ?db))" by (rule chain[OF dropped cleared])
  then show ?thesis using chain[OF one cleared]
    by (simp add: delete_by_source_def Let_def)
qed

lemma sweep_rel: "rel db (snd (sweep_orphan_project_root r kept db))"
proof -
  have "rel d (if indexed d x then d else snd (clear_source_visibility x d))" for d x
    using same cleared by simp
  from chain[OF dropped fold_rel[OF this]] show ?thesis
    by (simp add: sweep_orphan_project_root_def Let_def)
qed

end

text \<open>
  A change of the tables is tracked when the epoch grows, or nothing that search or an id-read
  asks of them has changed.
\<close>

definition tracked :: "hold_db \<Rightarrow> hold_db \<Rightarrow> bool" where
  "tracked db db' \<longleftrightarrow> hd_epoch db < hd_epoch db' \<or>
     (hd_epoch db = hd_epoch db' \<and> is_source_held db' = is_source_held db \<and> withheld db' = withheld db)"

lemma tracked_refl [simp]: "tracked db db"
  by (simp add: tracked_def)

lemma tracked_trans [trans]: "tracked a b \<Longrightarrow> tracked b c \<Longrightarrow> tracked a c"
  unfolding tracked_def by (elim disjE conjE) simp_all

lemma tracked_chunks [simp]: "tracked db (db\<lparr>hd_chunks := cs\<rparr>)"
  by (simp add: tracked_def fun_eq_iff)

lemma tracked_bump: "hd_epoch db' = hd_epoch db \<Longrightarrow> tracked db (bump_source_visibility s db')"
  by (simp add: tracked_def)

lemma tracked_clear [simp]: "tracked db (snd (clear_source_visibility s db))"
  by (auto simp: clear_source_visibility_def intro: tracked_bump)

lemma gen_clear: "gen_of db s \<le> gen_of (snd (clear_source_visibility x db)) s"
  by (simp add: clear_source_visibility_def gen_of_def bump_source_visibility_def)

lemma withheld_set: "withheld (db\<lparr>hd_held := od_set x r (hd_held db)\<rparr>) s = (if s = x then ho_reason r = REDACTION_BLOCKED_HOLD else withheld db s)"
  by (simp add: withheld_def)

lemma held_set: "is_source_held (db\<lparr>hd_held := od_set x r (hd_held db)\<rparr>) s \<longleftrightarrow> s = x \<or> is_source_held db s"
  by (simp add: is_source_held_def)

lemma write_hold_frame [simp]:
  "hd_chunks (snd (write_hold x reason now db)) = hd_chunks db" "hd_epoch (snd (write_hold x reason now db)) = hd_epoch db"
  "hd_pending (snd (write_hold x reason now db)) = hd_pending db" "gen_of (snd (write_hold x reason now db)) s = gen_of db s"
  by (simp_all add: write_hold_def gen_of_def split: option.split)

text \<open>A write that does not count as a change leaves both views of the source as they were.\<close>

lemma write_hold_quiet:
  assumes "\<not> fst (write_hold x reason now db)"
  shows "(map_of (hd_held (snd (write_hold x reason now db))) s = None) = (map_of (hd_held db) s = None)"
    and "withheld (snd (write_hold x reason now db)) s = withheld db s"
proof -
  obtain r where r: "map_of (hd_held db) x = Some r" using assms by (cases "map_of (hd_held db) x") (simp_all add: write_hold_def)
  show "(map_of (hd_held (snd (write_hold x reason now db))) s = None) = (map_of (hd_held db) s = None)"
    using r by (simp add: write_hold_def)
  show "withheld (snd (write_hold x reason now db)) s = withheld db s"
    using assms r by (auto simp: write_hold_def withheld_set withheld_def hold_rank_def PRESENCE_KEPT_HOLD_REASONS_def split: if_splits)
qed

lemma hold_tracked: "tracked db (snd (hold_source resolve src reason as_stored now txn db))"
proof -
  let ?s = "key_of resolve src as_stored" and ?w = "write_hold (key_of resolve src as_stored) reason now db"
  let ?db' = "(snd ?w)\<lparr>hd_pending := od_del ?s (hd_pending (snd ?w))\<rparr>"
  have "tracked db (if fst ?w \<or> map_of (hd_pending db) ?s \<noteq> None then bump_source_visibility ?s ?db' else ?db')"
  proof (cases "fst ?w \<or> map_of (hd_pending db) ?s \<noteq> None")
    case True
    then show ?thesis by (simp add: tracked_bump del: not_None_eq)
  next
    case False
    have "is_source_held ?db' s = is_source_held db s" for s
      using False write_hold_quiet[of ?s reason now db s] by (auto simp: is_source_held_def)
    then have "is_source_held ?db' = is_source_held db" by (rule ext)
    moreover have "withheld ?db' s = withheld db s" for s
      using False write_hold_quiet[of ?s reason now db s] by (simp add: withheld_def)
    then have "withheld ?db' = withheld db" by (rule ext)
    moreover have "hd_epoch ?db' = hd_epoch db" by simp
    ultimately have "tracked db ?db'" by (simp only: tracked_def simp_thms)
    with False show ?thesis by (simp only: if_False)
  qed
  then show ?thesis by (simp add: hold_source_def Let_def del: not_None_eq)
qed

lemma release_tracked: "tracked db (snd (release_source_hold resolve src g validated as_stored txn db))"
  by (simp add: release_source_hold_def Let_def)

lemma absence_tracked: "tracked db (snd (release_absence_hold s txn db))"
proof (cases "txn = UnownedTxn \<or> fst (release_absence_hold s txn db) = Inr False")
  case True
  then show ?thesis by (auto simp: release_absence_hold_def Let_def split: if_splits option.splits)
next
  case False
  then show ?thesis by (auto simp: release_absence_hold_def Let_def intro: tracked_bump)
qed

lemma journal_tracked: "tracked db (snd (queue_source_check_sync spelling src now db))"
  by (auto simp: queue_source_check_sync_def Let_def intro: tracked_bump)

interpretation epochs: delete_order tracked
  by unfold_locales (simp, erule (1) tracked_trans, rule tracked_chunks, rule tracked_clear)

section \<open>Generations only grow\<close>

definition newer :: "string \<Rightarrow> hold_db \<Rightarrow> hold_db \<Rightarrow> bool" where
  "newer s db db' \<longleftrightarrow> gen_of db s \<le> gen_of db' s"

lemma newer_simps [simp]:
  "newer s db db" "newer s db (db\<lparr>hd_chunks := cs\<rparr>)" "newer s db (snd (clear_source_visibility x db))"
  by (simp_all add: newer_def gen_clear)

lemma newer_trans: "newer s a b \<Longrightarrow> newer s b c \<Longrightarrow> newer s a c"
  by (simp add: newer_def)

lemma hold_newer: "newer s db (snd (hold_source resolve src reason as_stored now txn db))"
  by (simp add: hold_source_def Let_def newer_def gen_clear)

lemma release_newer: "newer s db (snd (release_source_hold resolve src g validated as_stored txn db))"
  by (simp add: release_source_hold_def Let_def)

lemma absence_newer: "newer s db (snd (release_absence_hold x txn db))"
  by (simp add: release_absence_hold_def Let_def newer_def)

lemma journal_newer: "newer s db (snd (queue_source_check_sync spelling src now db))"
  by (simp add: queue_source_check_sync_def Let_def newer_def)

interpretation generations: delete_order "newer s"
  for s
  by unfold_locales (simp, erule (1) newer_trans, rule newer_simps, rule newer_simps)

section \<open>A history of operations\<close>

datatype hold_event =
    HoldEv string string bool string txn_state
  | ReleaseEv string "int option" bool bool txn_state
  | AbsenceEv string txn_state
  | JournalEv string string
  | UpsertEv stored_chunk
  | DeleteEv "string list" bool txn_state
  | DeleteSourceEv string bool
  | SweepEv string "string list"

fun hold_step :: "(string \<Rightarrow> string) \<Rightarrow> (string \<Rightarrow> string) \<Rightarrow> hold_db \<Rightarrow> hold_event \<Rightarrow> hold_db" where
  "hold_step resolve spelling db (HoldEv src reason as_stored now txn) = snd (hold_source resolve src reason as_stored now txn db)"
| "hold_step resolve spelling db (ReleaseEv src g validated as_stored txn) =
     snd (release_source_hold resolve src g validated as_stored txn db)"
| "hold_step resolve spelling db (AbsenceEv s txn) = snd (release_absence_hold s txn db)"
| "hold_step resolve spelling db (JournalEv src now) = snd (queue_source_check_sync spelling src now db)"
| "hold_step resolve spelling db (UpsertEv c) =
     db\<lparr>hd_chunks := c # filter (\<lambda>d. st_id d \<noteq> st_id c) (hd_chunks db)\<rparr>"
| "hold_step resolve spelling db (DeleteEv ids finalize txn) = snd (delete_chunks ids finalize txn db)"
| "hold_step resolve spelling db (DeleteSourceEv src as_stored) = snd (delete_by_source resolve src as_stored db)"
| "hold_step resolve spelling db (SweepEv project_root kept) = snd (sweep_orphan_project_root project_root (\<lambda>s. s \<in> set kept) db)"

lemma step_tracked: "tracked db (hold_step resolve spelling db ev)"
  by (cases ev) (simp_all add: hold_tracked release_tracked absence_tracked journal_tracked epochs.delete_rel epochs.delete_source_rel epochs.sweep_rel)

lemma step_newer: "newer s db (hold_step resolve spelling db ev)"
  by (cases ev) (simp_all add: hold_newer release_newer absence_newer journal_newer generations.delete_rel generations.delete_source_rel generations.sweep_rel)

lemma run_tracked: "tracked db (foldl (hold_step resolve spelling) db evs)"
proof (induction evs arbitrary: db)
  case (Cons ev evs)
  show ?case using tracked_trans[OF step_tracked Cons] by simp
qed simp

lemma run_newer: "newer s db (foldl (hold_step resolve spelling) db evs)"
proof (induction evs arbitrary: db)
  case (Cons ev evs)
  show ?case using newer_trans[OF step_newer Cons] by simp
qed simp

section \<open>Properties\<close>

text \<open>
  C2. The epoch is a sound cache key. Whatever operations run in between, if the epoch reads the
  same before and after, then every chunk row is as visible to search, and as readable by id,
  after as it was before.
\<close>

theorem epoch_tracks_visibility:
  assumes "hd_epoch (foldl (hold_step resolve spelling) db evs) = hd_epoch db"
  shows "let db' = foldl (hold_step resolve spelling) db evs in
    visible_source db' c = visible_source db c \<and> not_withheld db' c = not_withheld db c"
  using run_tracked[of db resolve spelling evs] assms
  by (simp add: Let_def tracked_def visible_source_def not_withheld_def)

text \<open>
  A delete that the observer journals while an index pass runs survives the pass: the
  release that the pass prepared before the delete, whatever else happens in between, changes
  nothing.
\<close>

theorem stale_release_changes_nothing:
  assumes "indexed (foldl (hold_step resolve spelling) db evs) (spelling path)" and "spelling path = resolve src"
  shows "let started = source_hold_snapshot resolve src db;
             db' = foldl (hold_step resolve spelling) db (evs @ [JournalEv path now] @ later)
         in release_after_index resolve src started errors indexed_chunks skipped txn db' = (Inr False, db')"
proof -
  let ?mid = "foldl (hold_step resolve spelling) db evs"
  let ?hit = "hold_step resolve spelling ?mid (JournalEv path now)"
  let ?db = "foldl (hold_step resolve spelling) ?hit later"
  have "gen_of db (resolve src) \<le> gen_of ?mid (resolve src)" using run_newer by (simp add: newer_def)
  also have "\<dots> < gen_of ?hit (resolve src)" using assms by (simp add: queue_source_check_sync_def Let_def)
  also have "\<dots> \<le> gen_of ?db (resolve src)" using run_newer by (simp add: newer_def)
  finally have "gen_of ?db (resolve src) \<noteq> gen_of db (resolve src)" by simp
  then show ?thesis
    by (auto simp: release_after_index_def source_hold_snapshot_def release_source_hold_def key_of_def Let_def)
qed

section \<open>A refused source stays hidden\<close>

lemma redaction_top: "hold_rank reason \<le> 2" "2 \<le> hold_rank reason \<Longrightarrow> reason = REDACTION_BLOCKED_HOLD"
  by (auto simp: hold_rank_def split: if_splits)

lemma write_hold_withheld: "withheld db s \<Longrightarrow> withheld (snd (write_hold x reason now db)) s"
  using redaction_top[of reason]
  by (cases "x = s") (auto simp: write_hold_def withheld_set withheld_def hold_rank_def[of REDACTION_BLOCKED_HOLD] split: option.splits)

lemma withheld_pending [simp]: "withheld (db\<lparr>hd_pending := p\<rparr>) s = withheld db s"
  by (simp add: withheld_def)

lemma indexed_frame [simp]:
  "indexed (db\<lparr>hd_pending := p\<rparr>) s = indexed db s" "indexed (db\<lparr>hd_held := h\<rparr>) s = indexed db s"
  by (simp_all add: indexed_def)

lemma hold_withheld: "withheld db s \<Longrightarrow> indexed db s \<Longrightarrow> withheld (snd (hold_source resolve src reason as_stored now txn db)) s"
  using write_hold_withheld[of db s] by (auto simp: hold_source_def Let_def)

lemma hold_blocks:
  assumes "indexed db (key_of resolve src as_stored)" and "txn \<noteq> UnownedTxn"
  shows "withheld (snd (hold_source resolve src REDACTION_BLOCKED_HOLD as_stored now txn db)) (key_of resolve src as_stored)"
proof -
  let ?s = "key_of resolve src as_stored"
  have w: "withheld (snd (write_hold ?s REDACTION_BLOCKED_HOLD now db)) ?s"
    using redaction_top(1) by (auto simp: write_hold_def withheld_def hold_rank_def split: option.splits)
  have "withheld db ?s" if "\<exists>r. map_of (hd_held db) ?s = Some r \<and> (ho_reason r = REDACTION_BLOCKED_HOLD \<or> hold_rank (ho_reason r) > hold_rank REDACTION_BLOCKED_HOLD)"
    using that redaction_top(1) by (auto simp: withheld_def hold_rank_def split: if_splits)
  with w assms show ?thesis by (auto simp: hold_source_def Let_def split: option.splits)
qed

lemma absence_withheld: "withheld db s \<Longrightarrow> withheld (snd (release_absence_hold x txn db)) s"
proof -
  assume w: "withheld db s"
  have "(case map_of (hd_held db) x of Some r \<Rightarrow> ho_reason r \<in> set ABSENCE_HOLD_REASONS | None \<Rightarrow> False) \<Longrightarrow> x \<noteq> s"
    using w by (auto simp: withheld_def ABSENCE_HOLD_REASONS_def REDACTION_BLOCKED_HOLD_def split: option.splits)
  then show ?thesis using w by (auto simp: release_absence_hold_def Let_def withheld_def bump_source_visibility_def split: option.splits)
qed

lemma release_withheld:
  assumes "withheld db s" and "\<not> (key_of resolve src as_stored = s \<and> validated \<and> g \<in> {None, Some (gen_of db s)})"
  shows "withheld (snd (release_source_hold resolve src g validated as_stored txn db)) s"
proof (cases "key_of resolve src as_stored = s")
  case False
  then show ?thesis using assms(1) by (auto simp: release_source_hold_def Let_def)
next
  case True
  have "case map_of (hd_held db) s of Some r \<Rightarrow> ho_reason r \<in> set PRESENCE_KEPT_HOLD_REASONS | None \<Rightarrow> False"
    using assms(1) by (auto simp: withheld_def PRESENCE_KEPT_HOLD_REASONS_def split: option.splits)
  then have "snd (release_source_hold resolve src g validated as_stored txn db) = db"
    using assms(2) True by (auto simp: release_source_hold_def Let_def split: option.split)
  with assms(1) show ?thesis by simp
qed

text \<open>While the source keeps chunks, deletes do not clear its hold.\<close>

definition keeps_hold :: "string \<Rightarrow> hold_db \<Rightarrow> hold_db \<Rightarrow> bool" where
  "keeps_hold s db db' \<longleftrightarrow> (indexed db' s \<longrightarrow> indexed db s) \<and> (indexed db' s \<longrightarrow> withheld db s \<longrightarrow> withheld db' s)"

lemma keeps_refl [simp]: "keeps_hold s db db"
  by (simp add: keeps_hold_def)

lemma keeps_trans: "keeps_hold s a b \<Longrightarrow> keeps_hold s b c \<Longrightarrow> keeps_hold s a c"
  by (auto simp: keeps_hold_def)

lemma keeps_filter [simp]: "keeps_hold s db (db\<lparr>hd_chunks := filter P (hd_chunks db)\<rparr>)"
  by (auto simp: keeps_hold_def indexed_def list_ex_iff)

lemma keeps_clear: "\<not> indexed db x \<Longrightarrow> keeps_hold s db (snd (clear_source_visibility x db))"
  by (auto simp: keeps_hold_def)

interpretation kept: delete_order "keeps_hold s"
  for s
  by unfold_locales (simp, erule (1) keeps_trans, rule keeps_filter, erule keeps_clear)

text \<open>
  The events under which a refusal must last: the source keeps chunks, and no release of it is
  both validated and prepared at its current generation.
\<close>

definition hold_legal :: "(string \<Rightarrow> string) \<Rightarrow> (string \<Rightarrow> string) \<Rightarrow> string \<Rightarrow> hold_db \<Rightarrow> hold_event \<Rightarrow> bool" where
  "hold_legal resolve spelling s db ev \<longleftrightarrow> indexed db s \<and> indexed (hold_step resolve spelling db ev) s \<and>
     (case ev of
        ReleaseEv src g validated as_stored txn \<Rightarrow>
          \<not> (key_of resolve src as_stored = s \<and> validated \<and> g \<in> {None, Some (gen_of db s)})
      | _ \<Rightarrow> True)"

lemma step_withheld:
  assumes w: "withheld db s" and legal: "hold_legal resolve spelling s db ev"
  shows "withheld (hold_step resolve spelling db ev) s"
proof (cases ev)
  case (HoldEv src reason as_stored now txn)
  then show ?thesis using w legal by (simp add: hold_legal_def hold_withheld)
next
  case (ReleaseEv src g validated as_stored txn)
  then show ?thesis using release_withheld[OF w] legal by (simp add: hold_legal_def)
next
  case (AbsenceEv x txn)
  then show ?thesis using absence_withheld[OF w] by simp
next
  case (JournalEv src now)
  then show ?thesis using w by (simp add: queue_source_check_sync_def Let_def)
next
  case (UpsertEv c)
  then show ?thesis using w by simp
next
  case (DeleteEv ids finalize txn)
  then show ?thesis using w legal kept.delete_rel[of s db ids finalize txn] by (simp add: hold_legal_def keeps_hold_def)
next
  case (DeleteSourceEv src as_stored)
  then show ?thesis using w legal kept.delete_source_rel[of s db resolve src as_stored] by (simp add: hold_legal_def keeps_hold_def)
next
  case (SweepEv r kept)
  then show ?thesis using w legal kept.sweep_rel[of s db r "\<lambda>s. s \<in> set kept"] by (simp add: hold_legal_def keeps_hold_def)
qed

interpretation refusals: machine "hold_step resolve spelling" "hold_legal resolve spelling s" "\<lambda>db. withheld db s"
  for resolve spelling s
  by unfold_locales (rule step_withheld)

lemma parent_summary [simp]: "parent_key (s @ CONSOLIDATED_SUFFIX) = s"
  by (simp add: parent_key_def)

lemma withheld_held: "withheld db s \<Longrightarrow> is_source_held db s"
  by (auto simp: withheld_def is_source_held_def split: option.splits)

text \<open>
  C3. Once the redaction guard refused a source, its chunks and the summaries derived from it
  are out of search and cannot be read by id, whatever holds, releases, scans, deletes and sweeps
  follow, until an index pass that started at the current generation validates the source or its
  last chunk goes.
\<close>

theorem refusal_lasts:
  assumes "indexed db (key_of resolve src as_stored)" and "txn \<noteq> UnownedTxn"
    and "legal_run (hold_legal resolve spelling (key_of resolve src as_stored)) (hold_step resolve spelling)
      (snd (hold_source resolve src REDACTION_BLOCKED_HOLD as_stored now txn db)) evs"
    and "st_source c = key_of resolve src as_stored \<or>
      (is_summary c \<and> st_source c = key_of resolve src as_stored @ CONSOLIDATED_SUFFIX)"
  shows "let db' = foldl (hold_step resolve spelling)
           (snd (hold_source resolve src REDACTION_BLOCKED_HOLD as_stored now txn db)) evs in
    \<not> visible_source db' c \<and> \<not> not_withheld db' c"
proof -
  have "withheld (foldl (hold_step resolve spelling) (snd (hold_source resolve src REDACTION_BLOCKED_HOLD as_stored now txn db)) evs)
      (key_of resolve src as_stored)"
    by (rule refusals.run_inv[OF hold_blocks[OF assms(1,2)] assms(3)])
  then show ?thesis using assms(4) withheld_held by (auto simp: Let_def visible_source_def not_withheld_def)
qed

section \<open>Holds are on indexed sources\<close>

definition holds_indexed :: "hold_db \<Rightarrow> bool" where
  "holds_indexed db \<longleftrightarrow> (\<forall>s. is_source_held db s \<longrightarrow> indexed db s)"

text \<open>While a list of emptied sources is being finished, those still in it may be held.\<close>

definition holds_but :: "string set \<Rightarrow> hold_db \<Rightarrow> bool" where
  "holds_but A db \<longleftrightarrow> (\<forall>s. is_source_held db s \<longrightarrow> indexed db s \<or> s \<in> A)"

lemma holds_but_clear: "holds_but A db \<Longrightarrow> holds_but (A - {x}) (snd (clear_source_visibility x db))"
  by (auto simp: holds_but_def)

lemma holds_but_mono: "holds_but A db \<Longrightarrow> A \<subseteq> B \<Longrightarrow> holds_but B db"
  by (auto simp: holds_but_def)

lemma holds_but_indexed: "holds_but A db \<Longrightarrow> indexed db x \<Longrightarrow> holds_but (A - {x}) db"
  by (auto simp: holds_but_def)

lemma holds_but_filter: "holds_but A db \<Longrightarrow>
    holds_but (A \<union> set (map st_source (filter P (hd_chunks db)))) (db\<lparr>hd_chunks := filter (Not \<circ> P) (hd_chunks db)\<rparr>)"
  by (auto simp: holds_but_def indexed_def list_ex_iff)

lemma summaries_hold:
  assumes "holds_but A db"
  shows "holds_but A (snd (delete_policy_summaries_for_source x db))"
proof -
  let ?P = "\<lambda>c. st_source c = x @ CONSOLIDATED_SUFFIX \<and> is_summary c"
  let ?db = "db\<lparr>hd_chunks := filter (Not \<circ> ?P) (hd_chunks db)\<rparr>"
  have filt: "holds_but (A \<union> set (map st_source (filter ?P (hd_chunks db)))) ?db" by (rule holds_but_filter[OF assms])
  have "set (map st_source (filter ?P (hd_chunks db))) \<subseteq> {x @ CONSOLIDATED_SUFFIX}" by auto
  then have one: "holds_but (A \<union> {x @ CONSOLIDATED_SUFFIX}) ?db" using holds_but_mono[OF filt] by blast
  have cleared: "holds_but A (snd (clear_source_visibility (x @ CONSOLIDATED_SUFFIX) ?db))"
    using holds_but_mono[OF holds_but_clear[OF one], of "x @ CONSOLIDATED_SUFFIX" A] by blast
  have kept: "holds_but A ?db" if "list_ex ?P (hd_chunks db) \<longrightarrow> indexed ?db (x @ CONSOLIDATED_SUFFIX)"
  proof (cases "list_ex ?P (hd_chunks db)")
    case True
    with that have "indexed ?db (x @ CONSOLIDATED_SUFFIX)" by simp
    from holds_but_mono[OF holds_but_indexed[OF one this], of A] show ?thesis by blast
  next
    case False
    then have "filter ?P (hd_chunks db) = []" by (auto simp: filter_empty_conv list_ex_iff)
    with filt show ?thesis by simp
  qed
  from cleared kept show ?thesis by (simp add: delete_policy_summaries_for_source_def Let_def)
qed

lemma emptied_holds: "holds_but A db \<Longrightarrow> holds_but (A - {x}) (finish_emptied x db)"
  using holds_but_clear[OF summaries_hold] holds_but_indexed by (auto simp: finish_emptied_def)

lemma fold_holds:
  assumes "\<And>A x db. holds_but A db \<Longrightarrow> holds_but (A - {x}) (f x db)"
  shows "holds_but A db \<Longrightarrow> holds_but (A - set xs) (fold f xs db)"
proof (induction xs arbitrary: A db)
  case (Cons x xs)
  have "holds_but (A - {x} - set xs) (fold f xs (f x db))" by (rule Cons.IH[OF assms[OF Cons.prems]])
  then show ?case by (simp add: Diff_insert2[symmetric])
qed simp

text \<open>What an index pass and a caller of \<open>delete_chunks\<close> must respect: named sources, and no delete that is half of a rewrite.\<close>

definition named_sources :: "hold_db \<Rightarrow> bool" where
  "named_sources db \<longleftrightarrow> list_all (\<lambda>c. st_source c \<noteq> []) (hd_chunks db)"

definition settled_event :: "hold_db \<Rightarrow> hold_event \<Rightarrow> bool" where
  "settled_event db ev \<longleftrightarrow> (case ev of
      DeleteEv ids finalize txn \<Rightarrow> finalize \<or> txn \<noteq> OwnedTxn
    | UpsertEv c \<Rightarrow> st_source c \<noteq> [] \<and> list_all (\<lambda>d. st_id d = st_id c \<longrightarrow> st_source d = st_source c) (hd_chunks db)
    | _ \<Rightarrow> True)"

lemma holds_but_empty: "holds_but {} db \<longleftrightarrow> holds_indexed db"
  by (simp add: holds_but_def holds_indexed_def)

lemma filter_sources:
  assumes "holds_indexed db" and "named_sources db"
    and "\<And>A x d. holds_but A d \<Longrightarrow> holds_but (A - {x}) (f x d)"
  shows "holds_indexed (fold f (remdups (filter (\<lambda>s. s \<noteq> []) (map st_source (filter P (hd_chunks db)))))
    (db\<lparr>hd_chunks := filter (Not \<circ> P) (hd_chunks db)\<rparr>))"
proof -
  let ?xs = "remdups (filter (\<lambda>s. s \<noteq> []) (map st_source (filter P (hd_chunks db))))"
  have "set (map st_source (filter P (hd_chunks db))) = set ?xs" using assms(2) by (auto simp: named_sources_def list_all_iff)
  moreover have "holds_but ({} \<union> set (map st_source (filter P (hd_chunks db)))) (db\<lparr>hd_chunks := filter (Not \<circ> P) (hd_chunks db)\<rparr>)"
    using assms(1) by (intro holds_but_filter) (simp add: holds_but_empty)
  ultimately have "holds_but (set ?xs) (db\<lparr>hd_chunks := filter (Not \<circ> P) (hd_chunks db)\<rparr>)" by simp
  from fold_holds[of f, OF assms(3) this, of ?xs] show ?thesis by (simp add: holds_but_empty)
qed

lemma held_chunks:
  assumes "\<And>x. is_source_held db' x \<Longrightarrow> is_source_held db x \<or> indexed db x" and "hd_chunks db' = hd_chunks db" and "holds_indexed db"
  shows "holds_indexed db'"
  using assms(1,3) unfolding holds_indexed_def indexed_def assms(2) by blast

lemma write_hold_held: "is_source_held (snd (write_hold s reason now db)) x \<Longrightarrow> x = s \<or> is_source_held db x"
  by (auto simp: write_hold_def is_source_held_def split: option.splits if_splits)

lemma unpend_held: "is_source_held (db\<lparr>hd_pending := od_del s (hd_pending db)\<rparr>) x \<Longrightarrow> is_source_held db x"
  by (simp add: is_source_held_def split: if_splits)

lemma hold_chunks [simp]: "hd_chunks (snd (hold_source resolve src reason as_stored now txn db)) = hd_chunks db"
  by (simp add: hold_source_def Let_def)

lemma hold_indexed: "holds_indexed db \<Longrightarrow> holds_indexed (snd (hold_source resolve src reason as_stored now txn db))"
proof (rule held_chunks[OF _ hold_chunks])
  fix x assume "is_source_held (snd (hold_source resolve src reason as_stored now txn db)) x"
  then show "is_source_held db x \<or> indexed db x"
    by (auto simp: hold_source_def Let_def split: if_splits option.splits
        dest: write_hold_held unpend_held simp del: write_hold_frame)
qed

lemma clear_holds: "holds_indexed db \<Longrightarrow> holds_indexed (snd (clear_source_visibility x db))"
  by (simp add: holds_indexed_def)

lemma release_indexed: "holds_indexed db \<Longrightarrow> holds_indexed (snd (release_source_hold resolve src g validated as_stored txn db))"
  by (simp add: release_source_hold_def Let_def clear_holds)

lemma absence_chunks [simp]: "hd_chunks (snd (release_absence_hold x txn db)) = hd_chunks db"
  by (simp add: release_absence_hold_def Let_def)

lemma absence_indexed: "holds_indexed db \<Longrightarrow> holds_indexed (snd (release_absence_hold x txn db))"
proof (rule held_chunks[OF _ absence_chunks])
  fix y assume "is_source_held (snd (release_absence_hold x txn db)) y"
  then show "is_source_held db y \<or> indexed db y"
    by (auto simp: release_absence_hold_def Let_def is_source_held_def bump_source_visibility_def split: if_splits)
qed

lemma journal_chunks [simp]: "hd_chunks (snd (queue_source_check_sync spelling src now db)) = hd_chunks db"
  by (simp add: queue_source_check_sync_def Let_def)

lemma journal_indexed: "holds_indexed db \<Longrightarrow> holds_indexed (snd (queue_source_check_sync spelling src now db))"
proof (rule held_chunks[OF _ journal_chunks])
  fix y assume "is_source_held (snd (queue_source_check_sync spelling src now db)) y"
  then show "is_source_held db y \<or> indexed db y"
    by (auto simp: queue_source_check_sync_def Let_def is_source_held_def bump_source_visibility_def split: if_splits)
qed

lemma delete_indexed:
  assumes "holds_indexed db" "named_sources db" "finalize \<or> txn \<noteq> OwnedTxn"
  shows "holds_indexed (snd (delete_chunks ids finalize txn db))"
proof -
  have eq: "(\<lambda>c. st_id c \<notin> set ids) = Not \<circ> (\<lambda>c. st_id c \<in> set ids)" by auto
  show ?thesis using assms(1,3) filter_sources[OF assms(1,2) emptied_holds, where P = "\<lambda>c. st_id c \<in> set ids"]
    by (auto simp: delete_chunks_def Let_def eq)
qed

lemma sweep_indexed:
  assumes "holds_indexed db" "named_sources db"
  shows "holds_indexed (snd (sweep_orphan_project_root r kept db))"
proof -
  have "holds_but (A - {x}) (if indexed d x then d else snd (clear_source_visibility x d))" if "holds_but A d" for A x d
    using holds_but_clear[OF that] holds_but_indexed[OF that] by simp
  from filter_sources[OF assms this] show ?thesis by (simp add: sweep_orphan_project_root_def Let_def)
qed

lemma delete_source_indexed:
  assumes "holds_indexed db"
  shows "holds_indexed (snd (delete_by_source resolve src as_stored db))"
proof -
  let ?s = "key_of resolve src as_stored"
  let ?S = "?s @ CONSOLIDATED_SUFFIX"
  let ?P = "\<lambda>c. st_source c = ?s \<or> (st_source c = ?S \<and> is_summary c)"
  let ?d = "snd (clear_source_visibility ?s (db\<lparr>hd_chunks := filter (Not \<circ> ?P) (hd_chunks db)\<rparr>))"
  have "holds_but ({} \<union> set (map st_source (filter ?P (hd_chunks db)))) (db\<lparr>hd_chunks := filter (Not \<circ> ?P) (hd_chunks db)\<rparr>)"
    using assms by (intro holds_but_filter) (simp add: holds_but_empty)
  from holds_but_mono[OF this, of "{?s, ?S}"]
  have "holds_but {?s, ?S} (db\<lparr>hd_chunks := filter (Not \<circ> ?P) (hd_chunks db)\<rparr>)" by auto
  from holds_but_mono[OF holds_but_clear[OF this, of ?s], of "{?S}"] have one: "holds_but {?S} ?d" by auto
  have "holds_but {} (if indexed ?d ?S then ?d else snd (clear_source_visibility ?S ?d))"
    using holds_but_clear[OF one, of ?S] holds_but_indexed[OF one, of ?S] by simp
  then show ?thesis by (simp add: delete_by_source_def Let_def holds_but_empty)
qed

text \<open>Every row names its source, and stays named: no operation but an upsert adds rows.\<close>

definition fewer_rows :: "hold_db \<Rightarrow> hold_db \<Rightarrow> bool" where
  "fewer_rows db db' \<longleftrightarrow> set (hd_chunks db') \<subseteq> set (hd_chunks db)"

interpretation rows: delete_order fewer_rows
  by unfold_locales (auto simp: fewer_rows_def)

lemma fewer_named: "fewer_rows db db' \<Longrightarrow> named_sources db \<Longrightarrow> named_sources db'"
  by (auto simp: fewer_rows_def named_sources_def list_all_iff)

definition held_well :: "hold_db \<Rightarrow> bool" where
  "held_well db \<longleftrightarrow> holds_indexed db \<and> named_sources db"

lemma upsert_held_well:
  assumes "held_well db" "st_source c \<noteq> []" "list_all (\<lambda>d. st_id d = st_id c \<longrightarrow> st_source d = st_source c) (hd_chunks db)"
  shows "held_well (db\<lparr>hd_chunks := c # filter (\<lambda>d. st_id d \<noteq> st_id c) (hd_chunks db)\<rparr>)"
  using assms by (fastforce simp: held_well_def holds_indexed_def named_sources_def indexed_def list_ex_iff list_all_iff)

lemma step_held_well:
  assumes "held_well db" and "settled_event db ev"
  shows "held_well (hold_step resolve spelling db ev)"
proof (cases "\<exists>c. ev = UpsertEv c")
  case True
  then show ?thesis using assms by (auto simp: settled_event_def intro!: upsert_held_well)
next
  case False
  have "fewer_rows db (hold_step resolve spelling db ev)"
    using False rows.same[of db] rows.delete_rel rows.delete_source_rel rows.sweep_rel
    by (cases ev) (simp_all add: fewer_rows_def release_source_hold_def Let_def)
  moreover have "holds_indexed (hold_step resolve spelling db ev)"
    using False assms hold_indexed release_indexed absence_indexed journal_indexed delete_indexed delete_source_indexed sweep_indexed
    by (cases ev) (auto simp: settled_event_def held_well_def)
  ultimately show ?thesis using assms(1) fewer_named by (simp add: held_well_def)
qed

interpretation upkeep: machine "hold_step resolve spelling" settled_event held_well
  for resolve spelling
  by unfold_locales (rule step_held_well)

text \<open>
  C4. In a table whose rows all name their source, where every hold is on a source with chunks,
  every hold stays on one: an operation that takes a source's last chunk away takes its hold
  with it, so the operator's lists of held sources and of pending checks show every row of their
  tables once. (An upsert must not move a row to another source; a delete that is one half of a rewrite
  is finished by its caller.)
\<close>

theorem holds_stay_indexed:
  assumes "held_well db" and "legal_run settled_event (hold_step resolve spelling) db evs"
  shows "let db' = foldl (hold_step resolve spelling) db evs in
    (is_source_held db' s \<longrightarrow> indexed db' s) \<and>
    mset (get_held_sources db') = mset (od_keys (hd_held db')) \<and>
    mset (get_pending_source_checks db') = mset (od_keys (hd_pending db'))"
proof -
  let ?db = "foldl (hold_step resolve spelling) db evs"
  have "held_well ?db" by (rule upkeep.run_inv[OF assms])
  then have held: "is_source_held ?db s \<Longrightarrow> indexed ?db s" for s by (simp add: held_well_def holds_indexed_def)
  have rows: "filter (\<lambda>(s, _). indexed ?db s) (hd_held ?db) = hd_held ?db"
      "filter (\<lambda>(s, _). indexed ?db s) (hd_pending ?db) = hd_pending ?db"
    using held by (auto intro!: filter_True simp: is_source_held_def dest: weak_map_of_SomeI)
  have "mset (get_held_sources ?db) = mset (od_keys (hd_held ?db))"
       "mset (get_pending_source_checks ?db) = mset (od_keys (hd_pending ?db))"
    unfolding get_held_sources_def get_pending_source_checks_def rows
    by (simp_all add: multiset.map_comp comp_def case_prod_beta')
  with held show ?thesis by (simp add: Let_def)
qed

text \<open>
  C5. The three readings of "hidden" agree. When every derived summary is stored under its parent's
  key and the suffix, the point query, the set of hidden files and the SQL term of the path views
  hide the same sources, and search shows none of their chunks.
\<close>

theorem visibility_views_agree:
  assumes "list_all (\<lambda>c. is_summary c \<longrightarrow> has_suffix (st_source c)) (hd_chunks db)"
    and "c \<in> set (hd_chunks db)"
  shows "is_source_hidden db s = (s \<in> set (get_hidden_source_files db)) \<and>
    visible_path db s = (\<not> is_source_hidden db s) \<and>
    (visible_source db c \<or> is_source_hidden db (st_source c))"
proof -
  have suffix: "has_summary db s \<Longrightarrow> has_suffix s" for s
    using assms(1) by (auto simp: has_summary_def list_ex_iff list_all_iff)
  have held: "is_source_held db s \<longleftrightarrow> s \<in> set (od_keys (hd_held db)) \<union> set (od_keys (hd_pending db))"
    by (auto simp: is_source_held_def  map_of_eq_None_iff)
  have hidden: "is_source_hidden db s \<longleftrightarrow> is_source_held db s \<or> (has_summary db s \<and> is_source_held db (parent_key s))" for s
    using suffix by (auto simp: is_source_hidden_def)
  have "has_summary db s \<and> is_source_held db (parent_key s) \<longleftrightarrow>
      s \<in> set (map st_source (filter (\<lambda>c. is_summary c \<and> is_source_held db (parent_key (st_source c))) (hd_chunks db)))"
    by (auto simp: has_summary_def list_ex_iff)
  then have "is_source_hidden db s \<longleftrightarrow> s \<in> set (get_hidden_source_files db)"
    using held by (auto simp: hidden get_hidden_source_files_def)
  moreover have "visible_path db s \<longleftrightarrow> \<not> is_source_hidden db s" by (auto simp: hidden visible_path_def)
  moreover have "visible_source db c \<or> is_source_hidden db (st_source c)"
    using assms(2) by (auto simp: hidden visible_source_def has_summary_def list_ex_iff)
  ultimately show ?thesis by simp
qed

section \<open>Concrete histories\<close>

definition two_rows :: hold_db where
  "two_rows = \<lparr>hd_chunks = [\<lparr>st_id = ''c1'', st_source = ''a.md'', st_origin = None, st_scope = ''user'', st_root = None\<rparr>,
     \<lparr>st_id = ''c2'', st_source = ''a.md.consolidated.md'', st_origin = Some ORIGIN_CONSOLIDATION_POLICY, st_scope = ''user'', st_root = None\<rparr>],
     hd_held = [], hd_pending = [], hd_gens = [], hd_epoch = 7\<rparr>"

abbreviation a_row :: stored_chunk where "a_row \<equiv> hd (hd_chunks two_rows)"

abbreviation refused :: "hold_event list" where
  "refused \<equiv> [HoldEv ''a.md'' REDACTION_BLOCKED_HOLD True ''t1'' NoTxn, AbsenceEv ''a.md'' NoTxn]"

lemma epoch_tracks_visibility_witness:
  "let db' = foldl (hold_step id id) (foldl (hold_step id id) two_rows refused) [JournalEv ''b.md'' ''t2'', AbsenceEv ''a.md'' NoTxn] in
    visible_source db' a_row = visible_source (foldl (hold_step id id) two_rows refused) a_row \<and>
    not_withheld db' a_row = not_withheld (foldl (hold_step id id) two_rows refused) a_row"
  by (rule epoch_tracks_visibility) code_simp

lemma stale_release_changes_nothing_witness:
  "let started = source_hold_snapshot id ''a.md'' (foldl (hold_step id id) two_rows refused);
       db' = foldl (hold_step id id) (foldl (hold_step id id) two_rows refused) ([] @ [JournalEv ''a.md'' ''t2''] @ [AbsenceEv ''a.md'' NoTxn])
   in release_after_index id ''a.md'' started False 1 0 NoTxn db' = (Inr False, db')"
  by (rule stale_release_changes_nothing; code_simp)

abbreviation refused_late :: "hold_event list" where
  "refused_late \<equiv> [ReleaseEv ''a.md'' (Some 5) True True NoTxn, ReleaseEv ''a.md'' None False True NoTxn,
     DeleteEv [''c2''] True NoTxn, AbsenceEv ''a.md'' NoTxn]"

lemma refusal_lasts_witness:
  "let db' = foldl (hold_step id id) (snd (hold_source id ''a.md'' REDACTION_BLOCKED_HOLD True ''t1'' NoTxn two_rows)) refused_late in
    \<not> visible_source db' a_row \<and> \<not> not_withheld db' a_row"
  by (rule refusal_lasts[where spelling = id]; code_simp)

lemma holds_stay_indexed_witness:
  "let db' = foldl (hold_step id id) (foldl (hold_step id id) two_rows refused) [JournalEv ''a.md.consolidated.md'' ''t2'', DeleteSourceEv ''a.md'' True] in
    (is_source_held db' ''a.md'' \<longrightarrow> indexed db' ''a.md'') \<and>
    mset (get_held_sources db') = mset (od_keys (hd_held db')) \<and>
    mset (get_pending_source_checks db') = mset (od_keys (hd_pending db'))"
proof (rule holds_stay_indexed)
  show "held_well (foldl (hold_step id id) two_rows refused)"
    by (intro upkeep.run_inv)
      (auto simp: held_well_def holds_indexed_def named_sources_def two_rows_def is_source_held_def settled_event_def)
  show "legal_run settled_event (hold_step id id) (foldl (hold_step id id) two_rows refused)
      [JournalEv ''a.md.consolidated.md'' ''t2'', DeleteSourceEv ''a.md'' True]" by code_simp
qed

lemma visibility_views_agree_witness:
  "is_source_hidden (foldl (hold_step id id) two_rows refused) ''a.md.consolidated.md'' =
     (''a.md.consolidated.md'' \<in> set (get_hidden_source_files (foldl (hold_step id id) two_rows refused))) \<and>
   visible_path (foldl (hold_step id id) two_rows refused) ''a.md.consolidated.md'' =
     (\<not> is_source_hidden (foldl (hold_step id id) two_rows refused) ''a.md.consolidated.md'') \<and>
   (visible_source (foldl (hold_step id id) two_rows refused) a_row \<or>
     is_source_hidden (foldl (hold_step id id) two_rows refused) (st_source a_row))"
  by (rule visibility_views_agree; code_simp)

end
