(* ===== verification/Dedup.thy ===== *)
theory Dedup
  imports SourceHolds Complex_Main
begin

text \<open>
  Deduplication (\<open>search/dedup.py\<close>): the scan for exact and near duplicates, the merge that keeps one
  chunk of several, and the neighbours of stored vectors. The merge runs on the tables of
  \<open>SourceHolds\<close> inside one owned transaction, whose rollback restores the state it began with.
  Parameters: \<open>stored\<close>, the decoded vector of a chunk; \<open>dense\<close>, the store's dense search.
\<close>

section \<open>Merging\<close>

record dedup_db =
  dd_db :: hold_db
  dd_tags :: "string \<Rightarrow> string set"

datatype dedup_error = KeepListed | HeldSource | KeeperGone

definition find_row :: "hold_db \<Rightarrow> string \<Rightarrow> stored_chunk option" where
  "find_row db cid = find (\<lambda>c. st_id c = cid) (hd_chunks db)"

text \<open>\<open>list(dict.fromkeys(ids))\<close>\<close>

definition unique_ids :: "string list \<Rightarrow> string list" where
  "unique_ids ids = rev (remdups (rev ids))"

text \<open>\<open>get_chunks_batch\<close>: the rows that exist.\<close>

definition chunks_batch :: "hold_db \<Rightarrow> string list \<Rightarrow> stored_chunk list" where
  "chunks_batch db ids = filter (\<lambda>c. st_id c \<in> set ids) (hd_chunks db)"

definition refuses_hidden :: "hold_db \<Rightarrow> stored_chunk list \<Rightarrow> bool" where
  "refuses_hidden db cs \<longleftrightarrow> list_ex (\<lambda>c. is_source_hidden db (st_source c)) cs"

definition merged_tags :: "dedup_db \<Rightarrow> string \<Rightarrow> string list \<Rightarrow> string set" where
  "merged_tags s keep dels = dd_tags s keep \<union> (\<Union>d \<in> set dels. if find_row (dd_db s) d \<noteq> None then dd_tags s d else {})"

definition merge :: "string \<Rightarrow> string list \<Rightarrow> bool \<Rightarrow> dedup_db \<Rightarrow> (dedup_error, nat) result \<times> dedup_db" where
  "merge keep_id delete_ids dry_run s =
     (if delete_ids = [] then (Inr 0, s)
      else let dels = unique_ids delete_ids; db = dd_db s; batch = chunks_batch db (keep_id # dels)
        in if keep_id \<in> set dels then (Inl KeepListed, s)
           else if find_row db keep_id = None then (Inr 0, s)
           else if refuses_hidden db batch then (Inl HeldSource, s)
           else if dry_run then (Inr (length (filter (\<lambda>d. find_row db d \<noteq> None) dels)), s)
           else let tags = merged_tags s keep_id dels;
                    s1 = (if tags \<noteq> dd_tags s keep_id then s\<lparr>dd_tags := (dd_tags s)(keep_id := tags)\<rparr> else s);
                    (n, db') = delete_chunks dels True OwnedTxn db
                in if find_row db' keep_id = None then (Inl KeeperGone, s) else (Inr n, s1\<lparr>dd_db := db'\<rparr>))"

section \<open>Scanning\<close>

record pool_chunk =
  pc_id :: string
  pc_hash :: string
  pc_created :: int
  pc_root :: "string option"

record candidate_pair =
  dc_a :: pool_chunk
  dc_b :: pool_chunk
  dc_score :: real
  dc_exact :: bool

text \<open>\<open>hash_groups\<close>: a dictionary from content hash to the chunks that carry it, in order.\<close>

fun hash_groups :: "(string, pool_chunk list) odict \<Rightarrow> pool_chunk list \<Rightarrow> (string, pool_chunk list) odict" where
  "hash_groups groups [] = groups"
| "hash_groups groups (c # cs) =
     hash_groups (od_set (pc_hash c) ((case map_of groups (pc_hash c) of None \<Rightarrow> [] | Some g \<Rightarrow> g) @ [c]) groups) cs"

type_synonym pairs = "string set set"

fun exact_pairs :: "pool_chunk \<Rightarrow> pool_chunk list \<Rightarrow> pairs \<Rightarrow> candidate_pair list \<times> pairs" where
  "exact_pairs keep [] seen = ([], seen)"
| "exact_pairs keep (dup # dups) seen =
     (let pair = {pc_id keep, pc_id dup}
      in if pair \<in> seen then exact_pairs keep dups seen
         else let (rest, seen') = exact_pairs keep dups (insert pair seen)
              in (\<lparr>dc_a = keep, dc_b = dup, dc_score = 1, dc_exact = True\<rparr> # rest, seen'))"

fun exact_groups :: "pool_chunk list list \<Rightarrow> pairs \<Rightarrow> candidate_pair list \<times> pairs" where
  "exact_groups [] seen = ([], seen)"
| "exact_groups (g # gs) seen =
     (if length g < 2 then exact_groups gs seen
      else let sorted = sort_key pc_created g;
               (found, seen') = exact_pairs (hd sorted) (tl sorted) seen;
               (rest, seen'') = exact_groups gs seen'
           in (found @ rest, seen''))"

definition find_exact_duplicates :: "pool_chunk list \<Rightarrow> pairs \<Rightarrow> candidate_pair list \<times> pairs" where
  "find_exact_duplicates chunks seen = exact_groups (map snd (hash_groups [] chunks)) seen"

fun near_hits :: "real \<Rightarrow> pool_chunk \<Rightarrow> (pool_chunk \<times> real) list \<Rightarrow> pairs \<Rightarrow> candidate_pair list \<times> pairs" where
  "near_hits threshold c [] seen = ([], seen)"
| "near_hits threshold c ((r, score) # hits) seen =
     (if pc_id r = pc_id c \<or> score < threshold \<or> {pc_id c, pc_id r} \<in> seen then near_hits threshold c hits seen
      else let (a, b) = (if pc_created c \<le> pc_created r then (c, r) else (r, c));
               (rest, seen') = near_hits threshold c hits (insert {pc_id c, pc_id r} seen)
           in (\<lparr>dc_a = a, dc_b = b, dc_score = score, dc_exact = False\<rparr> # rest, seen'))"

record coverage =
  cv_pool :: nat
  cv_enabled :: bool
  cv_probed :: nat
  cv_without :: nat

fun near_loop ::
  "(string \<Rightarrow> 'v option) \<Rightarrow> ('v \<Rightarrow> string option \<Rightarrow> (pool_chunk \<times> real) list) \<Rightarrow> real \<Rightarrow> pool_chunk list \<Rightarrow> pairs
    \<Rightarrow> candidate_pair list \<times> nat \<times> nat" where
  "near_loop stored dense threshold [] seen = ([], 0, 0)"
| "near_loop stored dense threshold (c # cs) seen = (case stored (pc_id c) of
      None \<Rightarrow> (let (found, probed, without) = near_loop stored dense threshold cs seen in (found, probed, without + 1))
    | Some v \<Rightarrow>
        let (found, seen') = near_hits threshold c (dense v (pc_root c)) seen;
            (rest, probed, without) = near_loop stored dense threshold cs seen'
        in (found @ rest, probed + 1, without))"

definition find_near_duplicates ::
  "bool \<Rightarrow> (string \<Rightarrow> 'v option) \<Rightarrow> ('v \<Rightarrow> string option \<Rightarrow> (pool_chunk \<times> real) list) \<Rightarrow> real \<Rightarrow> pool_chunk list \<Rightarrow> pairs
    \<Rightarrow> candidate_pair list \<times> coverage" where
  "find_near_duplicates enabled stored dense threshold chunks seen =
     (if chunks = [] \<or> \<not> enabled
      then ([], \<lparr>cv_pool = length chunks, cv_enabled = enabled, cv_probed = 0, cv_without = 0\<rparr>)
      else let (found, probed, without) = near_loop stored dense threshold chunks seen
           in (found, \<lparr>cv_pool = length chunks, cv_enabled = True, cv_probed = probed, cv_without = without\<rparr>))"

text \<open>\<open>xs[:n]\<close> for any integer \<open>n\<close>.\<close>

definition upto_index :: "int \<Rightarrow> 'a list \<Rightarrow> 'a list" where
  "upto_index n xs = take (nat (if 0 \<le> n then n else int (length xs) + n)) xs"

text \<open>The pool: sources in the store's order, each asked for what is still missing.\<close>

fun pool_of :: "(string \<Rightarrow> pool_chunk list) \<Rightarrow> nat \<Rightarrow> string list \<Rightarrow> pool_chunk list" where
  "pool_of visible_rows remaining [] = []"
| "pool_of visible_rows remaining (source # sources) =
     (if remaining = 0 then []
      else let rows = take remaining (visible_rows source) in rows @ pool_of visible_rows (remaining - length rows) sources)"

definition scan_with_coverage ::
  "(string \<Rightarrow> pool_chunk list) \<Rightarrow> string list \<Rightarrow> bool \<Rightarrow> (string \<Rightarrow> 'v option) \<Rightarrow> ('v \<Rightarrow> string option \<Rightarrow> (pool_chunk \<times> real) list)
    \<Rightarrow> real \<Rightarrow> int \<Rightarrow> int \<Rightarrow> (unit, candidate_pair list \<times> coverage) result" where
  "scan_with_coverage visible_rows sources enabled stored dense threshold limit max_scan =
     (if max_scan < 1 then Inl ()
      else let pool = pool_of visible_rows (nat max_scan) sources;
               (exact, seen) = find_exact_duplicates pool {};
               (near, cov) = find_near_duplicates enabled stored dense threshold pool seen
           in Inr (upto_index limit (sort_key (\<lambda>c. (\<not> dc_exact c, - dc_score c)) (exact @ near)), cov))"

section \<open>Neighbours of stored vectors\<close>

definition STORED_NEIGHBOUR_POOL_CAP :: nat where "STORED_NEIGHBOUR_POOL_CAP = 200"

text \<open>One probe: the pool asked for, and once more with a wider one when too few rows were eligible.\<close>

definition probe_hits :: "(nat \<Rightarrow> (pool_chunk \<times> real) list) \<Rightarrow> (pool_chunk \<Rightarrow> bool) \<Rightarrow> string set \<Rightarrow> nat \<Rightarrow> (pool_chunk \<times> real) list" where
  "probe_hits search valid excluded per_probe_k =
     (let pool = per_probe_k + card excluded;
          widened = min (pool * 4) STORED_NEIGHBOUR_POOL_CAP;
          eligible = (\<lambda>rs. filter (\<lambda>(c, _). pc_id c \<notin> excluded \<and> valid c) rs);
          first = search pool
      in take per_probe_k
           (if pool < widened \<and> \<not> (length first < pool \<or> per_probe_k \<le> length (eligible first)) then eligible (search widened)
            else eligible first))"

fun keep_best :: "(string, pool_chunk \<times> real) odict \<Rightarrow> (pool_chunk \<times> real) list \<Rightarrow> (string, pool_chunk \<times> real) odict" where
  "keep_best best [] = best"
| "keep_best best ((c, score) # hits) = (case map_of best (pc_id c) of
      None \<Rightarrow> keep_best (od_set (pc_id c) (c, score) best) hits
    | Some (_, old) \<Rightarrow> keep_best (if old < score then od_set (pc_id c) (c, score) best else best) hits)"

definition nearest_stored_neighbours ::
  "bool \<Rightarrow> (string \<Rightarrow> 'v option) \<Rightarrow> ('v \<Rightarrow> nat \<Rightarrow> (pool_chunk \<times> real) list) \<Rightarrow> (pool_chunk \<Rightarrow> bool) \<Rightarrow> string set \<Rightarrow> nat
    \<Rightarrow> string list \<Rightarrow> (pool_chunk \<times> real) list" where
  "nearest_stored_neighbours enabled stored search valid excluded per_probe_k probe_ids =
     (if probe_ids = [] \<or> \<not> enabled then []
      else let hits = concat (map (\<lambda>p. case stored p of None \<Rightarrow> []
             | Some v \<Rightarrow> probe_hits (search v) valid excluded per_probe_k) probe_ids)
           in sort_desc snd (map snd (keep_best [] hits)))"

section \<open>What a merge does\<close>

lemma unique_ids [simp]: "set (unique_ids ids) = set ids" "distinct (unique_ids ids)" "unique_ids ids = [] \<longleftrightarrow> ids = []"
  by (simp_all add: unique_ids_def)

abbreviation row_ids :: "hold_db \<Rightarrow> string list" where
  "row_ids db \<equiv> map st_id (hd_chunks db)"

lemma find_row_None: "find_row db i = None \<longleftrightarrow> i \<notin> set (row_ids db)"
  by (auto simp: find_row_def find_None_iff)

lemma find_row_Some: "find_row db i = Some c \<Longrightarrow> c \<in> set (hd_chunks db) \<and> st_id c = i"
  by (auto simp: find_row_def find_Some_iff)

lemma find_unique_row: "distinct (map st_id cs) \<Longrightarrow> c \<in> set cs \<Longrightarrow> find (\<lambda>x. st_id x = st_id c) cs = Some c"
  by (induction cs) (auto simp: image_iff)

lemma find_row_fewer:
  assumes "fewer_rows db db'" "distinct (row_ids db)" "find_row db' i \<noteq> None"
  shows "find_row db' i = find_row db i"
proof -
  obtain c where c: "find_row db' i = Some c" using assms(3) by auto
  then have "c \<in> set (hd_chunks db)" "st_id c = i" using find_row_Some[OF c] assms(1) by (auto simp: fewer_rows_def)
  then have "find_row db i = Some c" unfolding find_row_def using find_unique_row[OF assms(2)] by blast
  with c show ?thesis by simp
qed

text \<open>
  The summary of a source that lost its last chunk to the delete: the policy wrote it, for a
  source that one of the deleted rows was of and that has no row left.
\<close>

definition orphaned :: "string list \<Rightarrow> hold_db \<Rightarrow> hold_db \<Rightarrow> stored_chunk \<Rightarrow> bool" where
  "orphaned dels db db' c \<longleftrightarrow> is_summary c \<and>
     list_ex (\<lambda>d. st_id d \<in> set dels \<and> st_source c = st_source d @ CONSOLIDATED_SUFFIX \<and>
       \<not> indexed db' (st_source d)) (hd_chunks db)"

lemma fewer_unindexed: "fewer_rows db db' \<Longrightarrow> \<not> indexed db s \<Longrightarrow> \<not> indexed db' s"
  by (auto simp: fewer_rows_def indexed_def list_ex_iff)

lemma emptied_lost:
  "c \<in> set (hd_chunks db) \<Longrightarrow> c \<notin> set (hd_chunks (finish_emptied x db)) \<Longrightarrow>
    is_summary c \<and> st_source c = x @ CONSOLIDATED_SUFFIX \<and> \<not> indexed db x"
  by (auto simp: finish_emptied_def delete_policy_summaries_for_source_def Let_def split: if_splits)

lemma fold_lost:
  assumes "c \<in> set (hd_chunks db)" "c \<notin> set (hd_chunks (fold finish_emptied xs db))"
  shows "is_summary c \<and> (\<exists>x \<in> set xs. st_source c = x @ CONSOLIDATED_SUFFIX \<and> \<not> indexed (fold finish_emptied xs db) x)"
  using assms
proof (induction xs arbitrary: db)
  case (Cons x xs)
  show ?case
  proof (cases "c \<in> set (hd_chunks (finish_emptied x db))")
    case True
    with Cons show ?thesis by fastforce
  next
    case False
    have "fewer_rows db (fold finish_emptied (x # xs) db)"
      by (rule rows.fold_rel) (rule rows.emptied_rel)
    with emptied_lost[OF Cons.prems(1) False] fewer_unindexed show ?thesis by auto
  qed
qed simp

lemma delete_lost:
  assumes "c \<in> set (hd_chunks db)" "st_id c \<notin> set ids"
    and "c \<notin> set (hd_chunks (snd (delete_chunks ids finalize txn db)))"
  shows "orphaned ids db (snd (delete_chunks ids finalize txn db)) c"
proof -
  let ?rows = "filter (\<lambda>c. st_id c \<in> set ids) (hd_chunks db)"
  let ?db = "db\<lparr>hd_chunks := filter (\<lambda>c. st_id c \<notin> set ids) (hd_chunks db)\<rparr>"
  let ?xs = "remdups (filter (\<lambda>s. s \<noteq> []) (map st_source ?rows))"
  have gone: "snd (delete_chunks ids finalize txn db) = fold finish_emptied ?xs ?db"
    using assms by (auto simp: delete_chunks_def Let_def split: if_splits)
  have "c \<in> set (hd_chunks ?db)" using assms(1,2) by simp
  from fold_lost[OF this, of ?xs] assms(3) gone obtain x where x: "is_summary c" "x \<in> set ?xs" "st_source c = x @ CONSOLIDATED_SUFFIX"
      "\<not> indexed (fold finish_emptied ?xs ?db) x" by auto
  then obtain d where "d \<in> set (hd_chunks db)" "st_id d \<in> set ids" "st_source d = x" by auto
  with x gone show ?thesis by (auto simp: orphaned_def list_ex_iff)
qed

lemma delete_gone: "d \<in> set ids \<Longrightarrow> find_row (snd (delete_chunks ids finalize txn db)) d = None"
proof -
  let ?db = "db\<lparr>hd_chunks := filter (\<lambda>c. st_id c \<notin> set ids) (hd_chunks db)\<rparr>"
  assume d: "d \<in> set ids"
  have "fewer_rows ?db (fold finish_emptied xs ?db)" for xs by (rule rows.fold_rel) (rule rows.emptied_rel)
  with d show ?thesis
    by (auto simp: delete_chunks_def Let_def find_row_None fewer_rows_def filter_empty_conv)
qed

lemma delete_count:
  assumes "distinct (row_ids db)" "distinct ids"
  shows "fst (delete_chunks ids finalize txn db) = length (filter (\<lambda>d. find_row db d \<noteq> None) ids)"
proof -
  let ?rows = "filter (\<lambda>c. st_id c \<in> set ids) (hd_chunks db)" and ?found = "filter (\<lambda>d. find_row db d \<noteq> None) ids"
  have "distinct (map st_id ?rows)" using assms(1) by (simp add: distinct_map_filter)
  moreover have "set (map st_id ?rows) = set ?found" using find_row_None[of db] by auto
  ultimately have "length (map st_id ?rows) = length ?found" using assms(2) by (metis distinct_card distinct_filter)
  then show ?thesis by (auto simp: delete_chunks_def Let_def)
qed

text \<open>
  What a merge promises: the keeper stays as it was and carries the tags of all; the others are gone;
  no other row goes but an orphaned policy summary, whose source lost its last chunk to this
  merge; and no row of a held source goes but such a summary.
\<close>

definition merged :: "string \<Rightarrow> string list \<Rightarrow> dedup_db \<Rightarrow> nat \<Rightarrow> dedup_db \<Rightarrow> bool" where
  "merged keep dels s n s' \<longleftrightarrow>
     (let db = dd_db s; db' = dd_db s'
      in n = length (filter (\<lambda>d. find_row db d \<noteq> None) (unique_ids dels)) \<and>
         find_row db keep \<noteq> None \<and> find_row db' keep = find_row db keep \<and> dd_tags s' keep = merged_tags s keep dels \<and>
         list_all (\<lambda>d. find_row db' d = None) dels \<and>
         list_all (\<lambda>c. c \<in> set (hd_chunks db') \<or> orphaned dels db db' c \<or> (st_id c \<in> set dels \<and> \<not> is_source_held db (st_source c))) (hd_chunks db))"

lemma orphaned_unique: "orphaned (unique_ids dels) db db' c = orphaned dels db db' c"
  by (simp add: orphaned_def)

lemma merged_tags_unique: "merged_tags s keep (unique_ids dels) = merged_tags s keep dels"
  by (simp add: merged_tags_def)

lemma merge_apply:
  assumes "distinct (row_ids (dd_db s))" "keep \<notin> set dels" "find_row (dd_db s) keep \<noteq> None"
    "\<not> refuses_hidden (dd_db s) (chunks_batch (dd_db s) (keep # unique_ids dels))"
    "find_row (snd (delete_chunks (unique_ids dels) True OwnedTxn (dd_db s))) keep \<noteq> None"
    "dd_tags s' keep = merged_tags s keep dels" "dd_db s' = snd (delete_chunks (unique_ids dels) True OwnedTxn (dd_db s))"
  shows "merged keep dels s (fst (delete_chunks (unique_ids dels) True OwnedTxn (dd_db s))) s'"
proof -
  have unheld: "\<not> is_source_held (dd_db s) (st_source c)" if "c \<in> set (hd_chunks (dd_db s))" "st_id c \<in> set dels" for c
    using assms(4) that by (auto simp: refuses_hidden_def chunks_batch_def list_ex_iff is_source_hidden_def)
  have "c \<in> set (hd_chunks (dd_db s')) \<or> orphaned dels (dd_db s) (dd_db s') c \<or> st_id c \<in> set dels"
    if "c \<in> set (hd_chunks (dd_db s))" for c
    using delete_lost[OF that, of "unique_ids dels" True OwnedTxn] assms(7) by (auto simp: orphaned_unique)
  with unheld have "list_all (\<lambda>c. c \<in> set (hd_chunks (dd_db s')) \<or> orphaned dels (dd_db s) (dd_db s') c \<or> (st_id c \<in> set dels \<and> \<not> is_source_held (dd_db s) (st_source c))) (hd_chunks (dd_db s))"
    by (auto simp: list_all_iff)
  then show ?thesis
    using assms delete_count[OF assms(1), of "unique_ids dels"] find_row_fewer[OF rows.delete_rel assms(1)]
    by (auto simp: merged_def Let_def list_all_iff delete_gone)
qed

text \<open>
  C20. A merge does what it promises or nothing. When it refuses (the keeper listed for deletion, a
  held source, a cleanup that would take the keeper) the tables and tags are as they were; when
  it succeeds on an existing keeper, the promise \<open>merged\<close> holds: the keeper's row stays
  and carries the tags of all, the others are gone and counted, and any other row that went is
  the policy summary of a source whose last chunk this merge deleted.
\<close>

theorem merge_refines_spec:
  assumes "distinct (row_ids (dd_db s))"
  shows "case merge keep dels False s of
      (Inl e, s') \<Rightarrow> s' = s
    | (Inr n, s') \<Rightarrow> if dels = [] \<or> find_row (dd_db s) keep = None then n = 0 \<and> s' = s else merged keep dels s n s'"
proof (cases "dels = [] \<or> keep \<in> set dels \<or> find_row (dd_db s) keep = None \<or>
    refuses_hidden (dd_db s) (chunks_batch (dd_db s) (keep # unique_ids dels)) \<or>
    find_row (snd (delete_chunks (unique_ids dels) True OwnedTxn (dd_db s))) keep = None")
  case True
  then show ?thesis by (auto simp: merge_def Let_def case_prod_beta)
next
  case False
  let ?del = "delete_chunks (unique_ids dels) True OwnedTxn (dd_db s)" and ?tags = "merged_tags s keep dels"
  let ?s' = "(if ?tags \<noteq> dd_tags s keep then s\<lparr>dd_tags := (dd_tags s)(keep := ?tags)\<rparr> else s)\<lparr>dd_db := snd ?del\<rparr>"
  have facts: "dels \<noteq> []" "keep \<notin> set dels" "find_row (dd_db s) keep \<noteq> None"
    "\<not> refuses_hidden (dd_db s) (chunks_batch (dd_db s) (keep # unique_ids dels))" "find_row (snd ?del) keep \<noteq> None"
    using False by (simp_all del: not_None_eq)
  have eq: "merge keep dels False s = (Inr (fst ?del), ?s')"
    using facts by (simp add: merge_def Let_def case_prod_beta merged_tags_unique del: not_None_eq)
  have "merged keep dels s (fst ?del) ?s'"
    by (rule merge_apply[OF assms]) (use facts in \<open>simp_all del: not_None_eq\<close>)
  moreover have "\<not> (dels = [] \<or> find_row (dd_db s) keep = None)" using False by blast
  ultimately show ?thesis by (simp only: eq prod.case sum.case if_False)
qed

text \<open>
  The preview tells the truth. A dry run writes nothing, and the merge that follows on the same
  state gives the same answer: the same count, or the same refusal; only a cleanup that would take
  the keeper is found by the merge alone.
\<close>

theorem dry_run_agrees:
  assumes "distinct (row_ids (dd_db s))"
  shows "snd (merge keep dels True s) = s \<and>
    (fst (merge keep dels False s) = fst (merge keep dels True s) \<or>
     (fst (merge keep dels False s) = Inl KeeperGone \<and> (\<exists>n. fst (merge keep dels True s) = Inr n)))"
  using delete_count[OF assms, of "unique_ids dels" True OwnedTxn]
  by (auto simp: merge_def Let_def case_prod_beta)

section \<open>What a scan finds\<close>

lemma hash_groups_ok: "od_ok groups \<Longrightarrow> od_ok (hash_groups groups cs)"
  by (induction cs arbitrary: groups) simp_all

lemma hash_groups_keys: "set (od_keys (hash_groups groups cs)) = set (od_keys groups) \<union> pc_hash ` set cs"
  by (induction cs arbitrary: groups) auto

lemma hash_groups_at:
  "(case map_of (hash_groups groups cs) h of None \<Rightarrow> [] | Some g \<Rightarrow> g) =
    (case map_of groups h of None \<Rightarrow> [] | Some g \<Rightarrow> g) @ filter (\<lambda>c. pc_hash c = h) cs"
  by (induction cs arbitrary: groups) (auto split: option.splits)

lemma groups_eq: "map snd (hash_groups [] cs) = map (\<lambda>h. filter (\<lambda>c. pc_hash c = h) cs) (od_keys (hash_groups [] cs))"
proof -
  have "g = filter (\<lambda>c. pc_hash c = h) cs" if "(h, g) \<in> set (hash_groups [] cs)" for h g
    using hash_groups_at[of "[]" cs h] map_of_is_SomeI[OF hash_groups_ok that] by simp
  then show ?thesis by auto
qed

definition pair_of :: "candidate_pair \<Rightarrow> string set" where
  "pair_of c = {pc_id (dc_a c), pc_id (dc_b c)}"

text \<open>What one phase adds to the pairs already seen.\<close>

definition fresh :: "candidate_pair list \<Rightarrow> pairs \<Rightarrow> pairs \<Rightarrow> bool" where
  "fresh found seen seen' \<longleftrightarrow> distinct (map pair_of found) \<and> set (map pair_of found) \<inter> seen = {} \<and> seen' = seen \<union> set (map pair_of found)"

lemma fresh_Nil [simp]: "fresh [] seen seen"
  by (simp add: fresh_def)

lemma fresh_append: "fresh a s t \<Longrightarrow> fresh b t u \<Longrightarrow> fresh (a @ b) s u"
  by (auto simp: fresh_def)

lemma fresh_Cons: "pair_of c \<notin> seen \<Longrightarrow> fresh cs (insert (pair_of c) seen) t \<Longrightarrow> fresh (c # cs) seen t"
  by (auto simp: fresh_def)

lemma exact_pairs_fresh: "fresh (fst (exact_pairs keep dups seen)) seen (snd (exact_pairs keep dups seen))"
  by (induction keep dups seen rule: exact_pairs.induct)
    (auto simp: Let_def case_prod_beta pair_of_def intro!: fresh_Cons)

lemma exact_groups_fresh: "fresh (fst (exact_groups gs seen)) seen (snd (exact_groups gs seen))"
proof (induction gs arbitrary: seen)
  case (Cons g gs)
  then show ?case using fresh_append[OF exact_pairs_fresh Cons] by (auto simp: Let_def case_prod_beta)
qed simp

lemma near_hits_fresh: "fresh (fst (near_hits t c hits seen)) seen (snd (near_hits t c hits seen))"
  by (induction t c hits seen rule: near_hits.induct)
    (auto simp: Let_def case_prod_beta pair_of_def insert_commute intro!: fresh_Cons)

lemma near_loop_fresh: "\<exists>t. fresh (fst (near_loop stored dense thr cs seen)) seen t"
proof (induction cs arbitrary: seen)
  case (Cons c cs)
  show ?case
  proof (cases "stored (pc_id c)")
    case None
    then show ?thesis using Cons by (simp add: case_prod_beta)
  next
    case (Some v)
    obtain t where "fresh (fst (near_loop stored dense thr cs (snd (near_hits thr c (dense v (pc_root c)) seen))))
        (snd (near_hits thr c (dense v (pc_root c)) seen)) t" using Cons by blast
    from fresh_append[OF near_hits_fresh this] Some show ?thesis by (auto simp: case_prod_beta)
  qed
next
  case Nil
  show ?case by (simp only: near_loop.simps fst_conv) (rule exI, rule fresh_Nil)
qed

definition good_pair :: "real \<Rightarrow> candidate_pair \<Rightarrow> bool" where
  "good_pair threshold c \<longleftrightarrow> pc_id (dc_a c) \<noteq> pc_id (dc_b c) \<and> pc_created (dc_a c) \<le> pc_created (dc_b c) \<and>
     (if dc_exact c then pc_hash (dc_a c) = pc_hash (dc_b c) \<and> dc_score c = 1 else threshold \<le> dc_score c)"

lemma near_hits_good: "list_all (good_pair t) (fst (near_hits t c hits seen))"
  by (induction t c hits seen rule: near_hits.induct) (auto simp: Let_def case_prod_beta good_pair_def)

lemma near_loop_good: "list_all (good_pair thr) (fst (near_loop stored dense thr cs seen))"
  using near_hits_good by (induction cs arbitrary: seen) (auto simp: case_prod_beta split: option.split)

lemma near_loop_counts: "fst (snd (near_loop stored dense thr cs seen)) + snd (snd (near_loop stored dense thr cs seen)) = length cs"
  by (induction cs arbitrary: seen) (auto simp: case_prod_beta split: option.split)

text \<open>The exact pairs of a group: its oldest chunk against each of the others.\<close>

definition group_pairs :: "pool_chunk list \<Rightarrow> candidate_pair list" where
  "group_pairs g = (let sorted = sort_key pc_created g
     in map (\<lambda>d. \<lparr>dc_a = hd sorted, dc_b = d, dc_score = 1, dc_exact = True\<rparr>) (tl sorted))"

lemma exact_pairs_all:
  assumes "distinct (map pc_id (keep # dups))" "\<forall>d \<in> set dups. {pc_id keep, pc_id d} \<notin> seen"
  shows "fst (exact_pairs keep dups seen) = map (\<lambda>d. \<lparr>dc_a = keep, dc_b = d, dc_score = 1, dc_exact = True\<rparr>) dups"
  using assms
proof (induction dups arbitrary: seen)
  case (Cons dup dups)
  have "\<forall>d \<in> set dups. {pc_id keep, pc_id d} \<notin> insert {pc_id keep, pc_id dup} seen"
    using Cons.prems by (auto simp: doubleton_eq_iff image_iff)
  with Cons.IH Cons.prems show ?case by (simp add: Let_def case_prod_beta)
qed simp

lemma sorted_hd_tl: "g \<noteq> [] \<Longrightarrow> set (sort_key f g) = insert (hd (sort_key f g)) (set (tl (sort_key f g)))"
  by (metis list.collapse list.set(2) set_empty set_sort)

lemma exact_groups_all:
  assumes "distinct (map pc_id (concat gs))" "\<forall>p \<in> seen. p \<inter> pc_id ` set (concat gs) = {}"
  shows "fst (exact_groups gs seen) = concat (map group_pairs gs)"
  using assms
proof (induction gs arbitrary: seen)
  case (Cons g gs)
  have short: "group_pairs g = []" if "length g < 2" using that
    by (cases g) (auto simp: group_pairs_def Let_def)
  show ?case
  proof (cases "length g < 2")
    case True
    have "fst (exact_groups gs seen) = concat (map group_pairs gs)"
      by (rule Cons.IH) (use Cons.prems in auto)
    with True short show ?thesis by simp
  next
    case False
    define so where "so = sort_key pc_created g"
    have ne: "g \<noteq> []" using False by auto
    have so: "so = hd so # tl so" "set so = set g" using ne by (auto simp: so_def) (metis list.collapse set_empty set_sort)
    have "distinct (map pc_id so)" using Cons.prems(1) by (simp add: so_def distinct_map)
    then have dist: "distinct (map pc_id (hd so # tl so))" using so(1) by metis
    have mem: "hd so \<in> set g" "set (tl so) \<subseteq> set g" using so by (metis list.set_intros(1), metis set_subset_Cons)
    have "\<forall>d \<in> set (tl so). {pc_id (hd so), pc_id d} \<notin> seen"
      using Cons.prems(2) so ne by (metis (no_types, lifting) UnI1 concat.simps(2) disjoint_iff image_eqI insertI1 list.set_intros(1) set_append)
    note found = exact_pairs_all[OF dist this]
    have snd_seen: "snd (exact_pairs (hd so) (tl so) seen) = seen \<union> set (map pair_of (fst (exact_pairs (hd so) (tl so) seen)))"
      using exact_pairs_fresh[of "hd so" "tl so" seen] by (simp add: fresh_def)
    have "p \<inter> pc_id ` set (concat gs) = {}" if "p \<in> snd (exact_pairs (hd so) (tl so) seen)" for p
    proof -
      have "p \<in> seen \<or> p \<subseteq> pc_id ` set g"
        using that mem by (auto simp: snd_seen found pair_of_def)
      moreover have "pc_id ` set g \<inter> pc_id ` set (concat gs) = {}" using Cons.prems(1) by simp
      moreover have "p \<in> seen \<Longrightarrow> p \<inter> pc_id ` set (concat gs) = {}" using Cons.prems(2) by auto
      ultimately show ?thesis by blast
    qed
    then have "fst (exact_groups gs (snd (exact_pairs (hd so) (tl so) seen))) = concat (map group_pairs gs)"
      using Cons.IH Cons.prems(1) by auto
    then show ?thesis using False found by (simp add: so_def Let_def case_prod_beta group_pairs_def[of g])
  qed
qed simp

text \<open>The exact phase on a pool of distinct chunks, group by group.\<close>

lemma distinct_by_hash:
  assumes "distinct (map pc_id cs)" "distinct hs"
  shows "distinct (map pc_id (concat (map (\<lambda>h. filter (\<lambda>c. pc_hash c = h) cs) hs)))"
  using assms by (induction hs) (auto simp: distinct_map inj_on_def)

lemma exact_phase:
  assumes "distinct (map pc_id pool)"
  shows "fst (find_exact_duplicates pool {}) =
    concat (map (\<lambda>h. group_pairs (filter (\<lambda>c. pc_hash c = h) pool)) (od_keys (hash_groups [] pool)))"
proof -
  have "distinct (map pc_id (concat (map snd (hash_groups [] pool))))"
    unfolding groups_eq by (rule distinct_by_hash[OF assms hash_groups_ok]) simp
  from exact_groups_all[OF this, of "{}"] show ?thesis
    by (simp add: find_exact_duplicates_def groups_eq comp_def)
qed

lemma oldest_first:
  assumes "distinct (map pc_id g)" "g \<noteq> []"
  shows "set g = insert (hd (sort_key pc_created g)) (set (tl (sort_key pc_created g)))"
    "pc_id (hd (sort_key pc_created g)) \<notin> pc_id ` set (tl (sort_key pc_created g))"
    "c \<in> set g \<Longrightarrow> pc_created (hd (sort_key pc_created g)) \<le> pc_created c"
proof -
  obtain k t where s: "sort_key pc_created g = k # t" using assms(2) by (metis list.exhaust set_empty set_sort)
  have set: "set (k # t) = set g" using s by (metis set_sort)
  then show "set g = insert (hd (sort_key pc_created g)) (set (tl (sort_key pc_created g)))" by (simp add: s)
  have "distinct (map pc_id (sort_key pc_created g))" using assms(1) by (simp add: distinct_map)
  then show "pc_id (hd (sort_key pc_created g)) \<notin> pc_id ` set (tl (sort_key pc_created g))" by (simp add: s)
  have "sorted (map pc_created (sort_key pc_created g))" by simp
  then show "c \<in> set g \<Longrightarrow> pc_created (hd (sort_key pc_created g)) \<le> pc_created c"
    unfolding s set[symmetric] by auto
qed

lemma group_good:
  assumes "distinct (map pc_id g)" "list_all (\<lambda>c. pc_hash c = h) g"
  shows "list_all (good_pair t) (group_pairs g)"
proof (cases "g = []")
  case False
  note first = oldest_first[OF assms(1) False]
  have "\<forall>c \<in> set g. pc_hash c = h" using assms(2) by (simp add: list_all_iff)
  then have "\<forall>d \<in> set (tl (sort_key pc_created g)). pc_id (hd (sort_key pc_created g)) \<noteq> pc_id d \<and>
      pc_created (hd (sort_key pc_created g)) \<le> pc_created d \<and> pc_hash (hd (sort_key pc_created g)) = pc_hash d"
    using first by (metis imageI insertI1 insertI2)
  then show ?thesis by (simp add: group_pairs_def Let_def good_pair_def list_all_iff)
qed (simp add: group_pairs_def)

text \<open>The chunks that are left once every exact duplicate is merged into its keeper.\<close>

definition left_over :: "pool_chunk list \<Rightarrow> candidate_pair list \<Rightarrow> pool_chunk list" where
  "left_over pool cs = filter (\<lambda>c. pc_id c \<notin> set (map (pc_id \<circ> dc_b) cs)) pool"

lemma in_tail: "G = insert k T \<Longrightarrow> f k \<notin> f ` T \<Longrightarrow> x \<in> G \<Longrightarrow> x \<in> T \<longleftrightarrow> x \<noteq> k"
  by auto

lemma left_over_oldest:
  assumes "distinct (map pc_id pool)"
  shows "x \<in> set (left_over pool (fst (find_exact_duplicates pool {}))) \<longleftrightarrow>
    x \<in> set pool \<and> x = hd (sort_key pc_created (filter (\<lambda>c. pc_hash c = pc_hash x) pool))"
proof -
  let ?g = "\<lambda>h. filter (\<lambda>c. pc_hash c = h) pool"
  let ?t = "\<lambda>h. set (tl (sort_key pc_created (?g h)))"
  have hs: "set (od_keys (hash_groups [] pool)) = pc_hash ` set pool" using hash_groups_keys[of "[]" pool] by simp
  have tails: "?t h \<subseteq> set (?g h)" for h by (metis list.set_sel(2) set_sort subsetI tl_Nil)
  have bs: "set (map dc_b (fst (find_exact_duplicates pool {}))) = (\<Union>h \<in> pc_hash ` set pool. ?t h)"
    by (simp add: exact_phase[OF assms] group_pairs_def Let_def hs[symmetric] image_UN image_comp)
  have ids: "inj_on pc_id (set pool)" using assms by (simp add: distinct_map)
  show ?thesis
  proof (cases "x \<in> set pool")
    case True
    have mem: "x \<in> set (?g (pc_hash x))" using True by simp
    then have ne: "?g (pc_hash x) \<noteq> []" by (metis empty_iff list.set(1))
    have dist: "distinct (map pc_id (?g (pc_hash x)))" using assms by (simp add: distinct_map_filter)
    note first = oldest_first[OF dist ne]
    have "x \<in> set (map dc_b (fst (find_exact_duplicates pool {}))) \<longleftrightarrow> x \<in> ?t (pc_hash x)"
      unfolding bs using tails True by fastforce
    moreover have "pc_id x \<in> pc_id ` set (map dc_b (fst (find_exact_duplicates pool {}))) \<longleftrightarrow>
        x \<in> set (map dc_b (fst (find_exact_duplicates pool {})))"
      using ids True tails unfolding bs by (intro inj_on_image_mem_iff[of pc_id "set pool"]) auto
    moreover have "x \<in> ?t (pc_hash x) \<longleftrightarrow> x \<noteq> hd (sort_key pc_created (?g (pc_hash x)))"
      by (rule in_tail[OF first(1,2) mem])
    ultimately show ?thesis using True by (simp add: left_over_def image_comp)
  qed (simp add: left_over_def)
qed

text \<open>
  C21. The exact phase is complete and leaves no duplicate. On a pool of distinct chunks, every
  candidate pairs an oldest chunk with another of the same content hash; and once all of them are
  merged, exactly one chunk of each content hash is left, none older than it.
\<close>

theorem exact_scan_complete:
  assumes "distinct (map pc_id pool)"
  shows "let cs = fst (find_exact_duplicates pool {}); rest = left_over pool cs in
    list_all (good_pair t) cs \<and> list_all dc_exact cs \<and>
    distinct (map pc_hash rest) \<and> set (map pc_hash rest) = set (map pc_hash pool) \<and>
    list_all (\<lambda>c. list_all (\<lambda>r. pc_hash r = pc_hash c \<longrightarrow> pc_created r \<le> pc_created c) rest) pool"
proof -
  let ?cs = "fst (find_exact_duplicates pool {})"
  let ?keep = "\<lambda>h. hd (sort_key pc_created (filter (\<lambda>c. pc_hash c = h) pool))"
  note rest = left_over_oldest[OF assms]
  have dist: "distinct (map pc_id (filter (\<lambda>c. pc_hash c = h) pool))" for h using assms by (simp add: distinct_map_filter)
  have keep: "?keep (pc_hash c) \<in> set pool" "pc_hash (?keep (pc_hash c)) = pc_hash c" "pc_created (?keep (pc_hash c)) \<le> pc_created c"
    if "c \<in> set pool" for c
    using oldest_first[OF dist, of "pc_hash c"] that by (auto simp: filter_empty_conv)
  have "list_all (good_pair t) ?cs" "list_all dc_exact ?cs"
    using group_good[OF dist] by (auto simp: exact_phase[OF assms] list_all_iff group_pairs_def Let_def)
  moreover have "distinct (map pc_hash (left_over pool ?cs))"
  proof -
    have "distinct (left_over pool ?cs)" using assms by (simp add: left_over_def distinct_map)
    moreover have "inj_on pc_hash (set (left_over pool ?cs))" by (rule inj_onI) (metis rest)
    ultimately show ?thesis by (simp add: distinct_map)
  qed
  moreover have "set (map pc_hash (left_over pool ?cs)) = set (map pc_hash pool)"
  proof -
    have "?keep (pc_hash c) \<in> set (left_over pool ?cs)" if "c \<in> set pool" for c
      unfolding rest keep(2)[OF that] using keep(1)[OF that] by simp
    then have "pc_hash c \<in> pc_hash ` set (left_over pool ?cs)" if "c \<in> set pool" for c
      using that keep(2)[OF that] by (metis imageI)
    moreover have "set (left_over pool ?cs) \<subseteq> set pool" by (auto simp: left_over_def)
    ultimately show ?thesis by (simp add: image_mono subset_antisym image_subsetI)
  qed
  moreover have "list_all (\<lambda>c. list_all (\<lambda>r. pc_hash r = pc_hash c \<longrightarrow> pc_created r \<le> pc_created c) (left_over pool ?cs)) pool"
    unfolding list_all_iff
  proof (intro ballI impI)
    fix c r assume c: "c \<in> set pool" and r: "r \<in> set (left_over pool ?cs)" and eq: "pc_hash r = pc_hash c"
    from r have "r = ?keep (pc_hash r)" unfolding rest by (rule conjunct2)
    with keep(3)[OF c] eq show "pc_created r \<le> pc_created c" by metis
  qed
  ultimately show ?thesis by (simp only: Let_def simp_thms)
qed

lemma exact_good: "distinct (map pc_id pool) \<Longrightarrow> list_all (good_pair t) (fst (find_exact_duplicates pool {}))"
proof -
  assume dist: "distinct (map pc_id pool)"
  have "distinct (map pc_id (filter (\<lambda>c. pc_hash c = h) pool))" for h using dist by (simp add: distinct_map_filter)
  from group_good[OF this] show ?thesis by (auto simp: exact_phase[OF dist] list_all_iff)
qed

lemma near_good: "list_all (good_pair thr) (fst (find_near_duplicates enabled stored dense thr pool seen))"
  using near_loop_good by (auto simp: find_near_duplicates_def case_prod_beta)

lemma near_fresh: "\<exists>t. fresh (fst (find_near_duplicates enabled stored dense thr pool seen)) seen t"
proof (cases "pool = [] \<or> \<not> enabled")
  case True
  then show ?thesis by (simp add: find_near_duplicates_def) (rule exI, rule fresh_Nil)
next
  case False
  then show ?thesis using near_loop_fresh[of stored dense thr pool seen] by (simp add: find_near_duplicates_def case_prod_beta)
qed

lemma near_coverage: "cv_pool cov = length pool" "enabled \<Longrightarrow> cv_probed cov + cv_without cov = length pool"
  if "cov = snd (find_near_duplicates enabled stored dense thr pool seen)"
  using that near_loop_counts[of stored dense thr pool seen] by (auto simp: find_near_duplicates_def case_prod_beta)

text \<open>
  C22. What a scan reports. Every candidate pairs two different chunks, the older first; no pair is
  reported twice, whichever phase finds it and from whichever end; an exact one has equal hashes
  and a near one reaches the threshold; exact candidates come first, then by falling score; and with
  vectors enabled every chunk of the pool is counted as probed or as without a vector.
\<close>

theorem scan_sound:
  assumes "scan_with_coverage visible_rows sources enabled stored dense thr limit max_scan = Inr (cs, cov)"
    and "distinct (map pc_id (pool_of visible_rows (nat max_scan) sources))"
  shows "distinct (map pair_of cs) \<and> list_all (good_pair thr) cs \<and> sorted (map (\<lambda>c. (\<not> dc_exact c, - dc_score c)) cs) \<and>
    cv_pool cov = length (pool_of visible_rows (nat max_scan) sources) \<and>
    (\<not> enabled \<or> cv_probed cov + cv_without cov = cv_pool cov)"
proof -
  let ?pool = "pool_of visible_rows (nat max_scan) sources"
  let ?exact = "find_exact_duplicates ?pool {}"
  let ?near = "find_near_duplicates enabled stored dense thr ?pool (snd ?exact)"
  let ?found = "fst ?exact @ fst ?near" and ?key = "\<lambda>c. (\<not> dc_exact c, - dc_score c)"
  from assms(1) have cs: "cs = upto_index limit (sort_key ?key ?found)" and cov: "cov = snd ?near"
    by (auto simp: scan_with_coverage_def Let_def case_prod_beta split: if_splits)
  obtain m where m: "cs = take m (sort_key ?key ?found)" using cs by (auto simp: upto_index_def)
  obtain t where near: "fresh (fst ?near) (snd ?exact) t" using near_fresh by blast
  have "fresh ?found {} t"
    by (rule fresh_append[OF _ near]) (unfold find_exact_duplicates_def, rule exact_groups_fresh)
  then have "distinct (map pair_of ?found)" by (simp add: fresh_def)
  then have "distinct (map pair_of (sort_key ?key ?found))" by (simp only: distinct_map set_sort distinct_sort)
  then have "distinct (map pair_of cs)" by (simp add: m flip: take_map)
  moreover have "list_all (good_pair thr) cs"
    using exact_good[OF assms(2), of thr] near_good[of thr enabled stored dense ?pool "snd ?exact"] set_take_subset[of m "sort_key ?key ?found"]
    by (auto simp: m list_all_iff)
  moreover have "sorted (map ?key cs)" by (simp add: m sorted_wrt_take flip: take_map)
  ultimately show ?thesis using near_coverage[OF cov] by auto
qed

section \<open>The best score of each neighbour\<close>

text \<open>The table holds, for each identity seen, a hit with its highest score.\<close>

definition best_of :: "(string, pool_chunk \<times> real) odict \<Rightarrow> (pool_chunk \<times> real) set \<Rightarrow> bool" where
  "best_of best H \<longleftrightarrow> od_ok best \<and> (\<forall>(i, c, s) \<in> set best. pc_id c = i \<and> (c, s) \<in> H) \<and>
     (\<forall>(c, s) \<in> H. \<exists>c' s'. map_of best (pc_id c) = Some (c', s') \<and> s \<le> s')"

lemma best_of_set:
  assumes "best_of best H" "\<And>c' s'. map_of best (pc_id c) = Some (c', s') \<Longrightarrow> s' \<le> s"
  shows "best_of (od_set (pc_id c) (c, s) best) (insert (c, s) H)"
proof -
  have ok: "od_ok (od_set (pc_id c) (c, s) best)" using assms(1) by (simp add: best_of_def)
  have "pc_id c' = i \<and> (c', s') \<in> insert (c, s) H" if "(i, c', s') \<in> set (od_set (pc_id c) (c, s) best)" for i c' s'
  proof -
    have "map_of (od_set (pc_id c) (c, s) best) i = Some (c', s')" using ok that by (rule map_of_is_SomeI)
    then show ?thesis using assms(1) by (fastforce simp: best_of_def dest: map_of_SomeD split: if_splits)
  qed
  moreover have "\<exists>c2 s2. map_of (od_set (pc_id c) (c, s) best) (pc_id c') = Some (c2, s2) \<and> s' \<le> s2"
    if "(c', s') \<in> insert (c, s) H" for c' s'
  proof (cases "pc_id c' = pc_id c")
    case True
    then show ?thesis using that assms unfolding best_of_def by fastforce
  next
    case False
    then show ?thesis using that assms(1) unfolding best_of_def by fastforce
  qed
  ultimately show ?thesis using ok unfolding best_of_def by blast
qed

lemma keep_best_best: "best_of best H \<Longrightarrow> best_of (keep_best best hits) (H \<union> set hits)"
proof (induction hits arbitrary: best H)
  case (Cons hit hits)
  obtain c s where hit: "hit = (c, s)" by fastforce
  have step_ok: "best_of (case map_of best (pc_id c) of None \<Rightarrow> od_set (pc_id c) (c, s) best
      | Some (_, old) \<Rightarrow> if old < s then od_set (pc_id c) (c, s) best else best) (insert (c, s) H)"
  proof (cases "map_of best (pc_id c)")
    case None
    then show ?thesis using best_of_set[OF Cons.prems, of c s] by simp
  next
    case (Some p)
    obtain c' old where p: "p = (c', old)" by fastforce
    show ?thesis
    proof (cases "old < s")
      case True
      have "best_of (od_set (pc_id c) (c, s) best) (insert (c, s) H)"
        by (rule best_of_set[OF Cons.prems]) (use Some p True in simp)
      then show ?thesis by (simp add: Some p True)
    next
      case False
      then have "s \<le> old" by simp
      with Cons.prems Some p have "best_of best (insert (c, s) H)" unfolding best_of_def by blast
      then show ?thesis by (simp add: Some p False)
    qed
  qed
  have "keep_best best (hit # hits) = keep_best (case map_of best (pc_id c) of None \<Rightarrow> od_set (pc_id c) (c, s) best
      | Some (_, old) \<Rightarrow> if old < s then od_set (pc_id c) (c, s) best else best) hits"
    by (simp add: hit split: option.split)
  then show ?case using Cons.IH[OF step_ok] by (simp add: hit insert_commute)
qed simp

lemma keep_best_all: "best_of (keep_best [] hits) (set hits)"
proof -
  have "best_of [] {}" by (simp add: best_of_def)
  from keep_best_best[OF this, of hits] show ?thesis by simp
qed

lemma distinct_sort_map: "distinct (map f xs) \<Longrightarrow> distinct (map f (sort_key k xs))"
  by (simp only: distinct_map set_sort distinct_sort)

text \<open>The rows the probes found, before they are merged.\<close>

definition probed_rows ::
  "bool \<Rightarrow> (string \<Rightarrow> 'v option) \<Rightarrow> ('v \<Rightarrow> nat \<Rightarrow> (pool_chunk \<times> real) list) \<Rightarrow> (pool_chunk \<Rightarrow> bool) \<Rightarrow> string set \<Rightarrow> nat
    \<Rightarrow> string list \<Rightarrow> (pool_chunk \<times> real) list" where
  "probed_rows enabled stored search valid excluded k probe_ids =
     (if \<not> enabled then []
      else concat (map (\<lambda>p. case stored p of None \<Rightarrow> [] | Some v \<Rightarrow> probe_hits (search v) valid excluded k) probe_ids))"

lemma probe_hits_eligible: "(c, s) \<in> set (probe_hits search valid excluded k) \<Longrightarrow> pc_id c \<notin> excluded \<and> valid c"
  by (auto simp: probe_hits_def Let_def split: if_splits dest!: in_set_takeD)

lemma probe_hits_few: "length (probe_hits search valid excluded k) \<le> k"
  by (simp add: probe_hits_def Let_def)

text \<open>
  The neighbours of stored vectors. No identity comes twice; an excluded or invalid chunk never
  comes; the answers fall in score; each is a row a probe found, and every row a probe found is
  represented by its chunk with a score at least as high.
\<close>

theorem neighbours_best:
  "let ns = nearest_stored_neighbours enabled stored search valid excluded k probe_ids;
       rows = probed_rows enabled stored search valid excluded k probe_ids
   in distinct (map (pc_id \<circ> fst) ns) \<and> sorted (map (\<lambda>n. - snd n) ns) \<and> set ns \<subseteq> set rows \<and>
      list_all (\<lambda>(c, s). pc_id c \<notin> excluded \<and> valid c \<and> (\<exists>(c', s') \<in> set ns. pc_id c' = pc_id c \<and> s \<le> s')) rows"
proof (cases "probe_ids = [] \<or> \<not> enabled")
  case True
  then show ?thesis by (auto simp: nearest_stored_neighbours_def probed_rows_def)
next
  case False
  define hits where "hits = concat (map (\<lambda>p. case stored p of None \<Rightarrow> []
    | Some v \<Rightarrow> probe_hits (search v) valid excluded k) probe_ids)"
  have rows: "probed_rows enabled stored search valid excluded k probe_ids = hits"
    using False by (simp add: probed_rows_def hits_def)
  have ns: "nearest_stored_neighbours enabled stored search valid excluded k probe_ids = sort_desc snd (map snd (keep_best [] hits))"
    using False by (simp add: nearest_stored_neighbours_def hits_def)
  note best = keep_best_all[of hits, unfolded best_of_def]
  let ?best = "keep_best [] hits"
  have keys: "map (pc_id \<circ> fst) (map snd ?best) = map fst ?best" using best by auto
  have ids: "distinct (map (pc_id \<circ> fst) (sort_desc snd (map snd ?best)))"
    unfolding sort_desc_def by (rule distinct_sort_map, unfold keys) (rule conjunct1[OF best])
  have "\<exists>(c', s') \<in> set (map snd ?best). pc_id c' = pc_id c \<and> s \<le> s'" if "(c, s) \<in> set hits" for c s
  proof -
    from best that obtain c' s' where "map_of ?best (pc_id c) = Some (c', s')" "s \<le> s'" by blast
    from this(1) have mem: "(pc_id c, c', s') \<in> set ?best" by (rule map_of_SomeD)
    with best have "pc_id c' = pc_id c" by blast
    moreover have "(c', s') \<in> set (map snd ?best)" using imageI[OF mem, of snd] by simp
    ultimately show ?thesis using \<open>s \<le> s'\<close> by blast
  qed
  moreover have "set (map snd ?best) \<subseteq> set hits" using best by auto
  moreover have "pc_id c \<notin> excluded \<and> valid c" if "(c, s) \<in> set hits" for c s
    using that probe_hits_eligible by (fastforce simp: hits_def split: option.splits)
  ultimately show ?thesis using ids unfolding rows ns Let_def
    by (auto simp: sort_desc_def list_all_iff)
qed

section \<open>Concrete scans\<close>

definition two_docs :: dedup_db where
  "two_docs = \<lparr>dd_db = two_rows\<lparr>hd_chunks := hd_chunks two_rows @
     [\<lparr>st_id = ''c3'', st_source = ''b.md'', st_origin = None, st_scope = ''user'', st_root = None\<rparr>]\<rparr>,
     dd_tags = (\<lambda>i. if i = ''c3'' then {''x''} else {})\<rparr>"

definition three_copies :: "pool_chunk list" where
  "three_copies = [\<lparr>pc_id = ''c1'', pc_hash = ''h'', pc_created = 5, pc_root = None\<rparr>,
     \<lparr>pc_id = ''c2'', pc_hash = ''g'', pc_created = 1, pc_root = None\<rparr>,
     \<lparr>pc_id = ''c3'', pc_hash = ''h'', pc_created = 2, pc_root = None\<rparr>]"

lemma merge_refines_spec_witness:
  "case merge ''c1'' [''c3'', ''c9'', ''c3''] False two_docs of
      (Inl e, s') \<Rightarrow> s' = two_docs
    | (Inr n, s') \<Rightarrow> if [''c3'', ''c9'', ''c3''] = [] \<or> find_row (dd_db two_docs) ''c1'' = None then n = 0 \<and> s' = two_docs
        else merged ''c1'' [''c3'', ''c9'', ''c3''] two_docs n s'"
  by (rule merge_refines_spec) (simp add: two_docs_def two_rows_def)

lemma dry_run_agrees_witness:
  "snd (merge ''c1'' [''c3''] True two_docs) = two_docs \<and>
    (fst (merge ''c1'' [''c3''] False two_docs) = fst (merge ''c1'' [''c3''] True two_docs) \<or>
     (fst (merge ''c1'' [''c3''] False two_docs) = Inl KeeperGone \<and> (\<exists>n. fst (merge ''c1'' [''c3''] True two_docs) = Inr n)))"
  by (rule dry_run_agrees) (simp add: two_docs_def two_rows_def)

lemma exact_scan_complete_witness:
  "let cs = fst (find_exact_duplicates three_copies {}); rest = left_over three_copies cs in
    list_all (good_pair 1) cs \<and> list_all dc_exact cs \<and>
    distinct (map pc_hash rest) \<and> set (map pc_hash rest) = set (map pc_hash three_copies) \<and>
    list_all (\<lambda>c. list_all (\<lambda>r. pc_hash r = pc_hash c \<longrightarrow> pc_created r \<le> pc_created c) rest) three_copies"
  by (rule exact_scan_complete) (simp add: three_copies_def)

abbreviation copies_scan :: "(unit, candidate_pair list \<times> coverage) result" where
  "copies_scan \<equiv> scan_with_coverage (\<lambda>_. three_copies) [''a.md''] True (\<lambda>_. Some ()) (\<lambda>_ _. map (\<lambda>c. (c, 1)) three_copies) 1 10 3"


lemma scan_sound_witness:
  "let (cs, cov) = projr copies_scan in
    distinct (map pair_of cs) \<and> list_all (good_pair 1) cs \<and> sorted (map (\<lambda>c. (\<not> dc_exact c, - dc_score c)) cs) \<and>
    cv_pool cov = length (pool_of (\<lambda>_. three_copies) (nat 3) [''a.md'']) \<and>
    (\<not> True \<or> cv_probed cov + cv_without cov = cv_pool cov)"
proof -
  have run: "copies_scan = Inr (fst (projr copies_scan), snd (projr copies_scan))"
    by (simp add: scan_with_coverage_def Let_def case_prod_beta)
  have "distinct (map pc_id (pool_of (\<lambda>_. three_copies) (nat 3) [''a.md'']))"
    by (simp add: three_copies_def)
  then show ?thesis unfolding case_prod_beta Let_def by (rule scan_sound[OF run])
qed

end
