(* ===== verification/Filters.thy ===== *)
theory Filters
  imports Models
begin

text \<open>
  Namespace and scope filters (\<open>models.py\<close>), the visibility rules applied in Python
  (\<open>search/visibility.py\<close>) and the WHERE fragments that restate them in SQL
  (\<open>storage/sqlite_helpers.py\<close>, \<open>storage/sqlite_scope.py\<close>,
  \<open>storage/sqlite_visibility.py\<close>). The emitters build text with placeholders and a
  parameter list; here a fragment is the condition that text denotes, its parameters in
  place, and \<open>sql_eval\<close> gives it SQLite's three-valued meaning on a row.
\<close>

section \<open>Globs\<close>

definition replace_char :: "nat \<Rightarrow> ustr \<Rightarrow> ustr \<Rightarrow> ustr" where
  "replace_char c r s = concat (map (\<lambda>x. if x = c then r else [x]) s)"

text \<open>\<open>pattern.replace("_", r"\_").replace("*", "%")\<close>\<close>

definition glob_to_like :: "ustr \<Rightarrow> ustr" where
  "glob_to_like p = replace_char 42 [37] (replace_char 95 [92, 95] p)"

definition fold_char :: "nat \<Rightarrow> nat" where
  "fold_char c = (if 65 \<le> c \<and> c \<le> 90 then c + 32 else c)"

definition ascii_fold :: "ustr \<Rightarrow> ustr" where
  "ascii_fold v = map fold_char v"

datatype token = AnyRun | AnyOne | Lit nat

fun tokenize :: "ustr \<Rightarrow> token list option" where
  "tokenize [] = Some []"
| "tokenize [c] =
     (if c = 92 then None
      else Some [if c = 37 then AnyRun else if c = 95 then AnyOne else Lit c])"
| "tokenize (c # d # s) =
     (if c = 92 then map_option (\<lambda>ts. Lit d # ts) (tokenize s)
      else map_option (\<lambda>ts. (if c = 37 then AnyRun else if c = 95 then AnyOne else Lit c) # ts)
             (tokenize (d # s)))"

definition consumes :: "token \<Rightarrow> nat \<Rightarrow> bool" where
  "consumes tok c \<longleftrightarrow> tok = AnyOne \<or> tok = Lit c"

text \<open>The two-pointer loop; \<open>None\<close> for \<open>star\<close> is the initial \<open>-1\<close>.\<close>

function match_loop :: "token list \<Rightarrow> ustr \<Rightarrow> nat \<Rightarrow> nat \<Rightarrow> nat option \<Rightarrow> nat \<Rightarrow> bool" where
  "match_loop tokens folded t v star mark =
     (if v < length folded then
        (if t < length tokens \<and> consumes (tokens ! t) (folded ! v)
         then match_loop tokens folded (t + 1) (v + 1) star mark
         else if t < length tokens \<and> tokens ! t = AnyRun
         then match_loop tokens folded (t + 1) v (Some t) v
         else (case star of
                 Some s \<Rightarrow> match_loop tokens folded (s + 1) (mark + 1) star (mark + 1)
               | None \<Rightarrow> False))
      else list_all (\<lambda>tok. tok = AnyRun) (drop t tokens))"
  by pat_completeness auto

termination
  by (relation "measures [\<lambda>(tokens, folded, t, v, star, mark). if mark \<le> v then 0 else 1,
        \<lambda>(tokens, folded, t, v, star, mark). length folded - mark,
        \<lambda>(tokens, folded, t, v, star, mark). length tokens - t]") auto

declare match_loop.simps [simp del]

definition like_glob_matches :: "ustr \<Rightarrow> ustr \<Rightarrow> bool" where
  "like_glob_matches pattern val =
     (case tokenize (ascii_fold (glob_to_like pattern)) of
        None \<Rightarrow> False
      | Some tokens \<Rightarrow> match_loop tokens (ascii_fold val) 0 0 None 0)"

definition has_namespace_prefix :: "ustr \<Rightarrow> ustr list \<Rightarrow> bool" where
  "has_namespace_prefix namespace prefixes \<longleftrightarrow>
     list_ex (\<lambda>p. take (length p) (ascii_fold namespace) = ascii_fold p) prefixes"

section \<open>Filters\<close>

datatype filter_arg = NoValue | Text ustr | Listed "ustr list"

datatype filter_error =
    NamespaceSelectorInList | NamespaceMix | ScopeMix | ScopeGlobMatchesNoTier
  | ScopeUnknownTier | TooManyPrefixes

record namespace_filter =
  nf_namespaces :: "ustr list"
  nf_pattern :: "ustr option"
  nf_exclude_prefixes :: "ustr list"

record scope_filter =
  sf_scopes :: "ustr list"
  sf_pattern :: "ustr option"

definition NON_SYSTEM_NAMESPACES :: ustr where
  "NON_SYSTEM_NAMESPACES = lit ''!system''"

definition contains :: "nat \<Rightarrow> ustr \<Rightarrow> bool" where
  "contains c s \<longleftrightarrow> list_ex (\<lambda>x. x = c) s"

definition exact_names :: "ustr list \<Rightarrow> namespace_filter" where
  "exact_names ns = \<lparr>nf_namespaces = ns, nf_pattern = None, nf_exclude_prefixes = []\<rparr>"

definition without_system :: "ustr list \<Rightarrow> namespace_filter option" where
  "without_system prefixes =
     (if prefixes = [] then None
      else Some \<lparr>nf_namespaces = [], nf_pattern = None, nf_exclude_prefixes = prefixes\<rparr>)"

fun namespace_parse ::
  "filter_arg \<Rightarrow> ustr list \<Rightarrow> (filter_error, namespace_filter option) result" where
  "namespace_parse NoValue prefixes = Inr (without_system prefixes)"
| "namespace_parse (Listed items) prefixes =
     (if items = [] then Inr (without_system prefixes)
      else if list_ex (\<lambda>i. strip i = NON_SYSTEM_NAMESPACES) items then Inl NamespaceSelectorInList
      else Inr (Some (exact_names items)))"
| "namespace_parse (Text v) prefixes =
     (if v = NON_SYSTEM_NAMESPACES then Inr (without_system prefixes)
      else if contains 44 v \<and> list_ex (\<lambda>i. strip i = NON_SYSTEM_NAMESPACES) (split_on 44 v)
      then Inl NamespaceSelectorInList
      else if contains 42 v \<and> contains 44 v then Inl NamespaceMix
      else if contains 42 v
      then Inr (Some \<lparr>nf_namespaces = [], nf_pattern = Some v, nf_exclude_prefixes = []\<rparr>)
      else if contains 44 v then Inr (Some (exact_names (map strip (split_on 44 v))))
      else Inr (Some (exact_names [v])))"

text \<open>\<open>if self.pattern:\<close> is false for \<open>None\<close> and for the empty string.\<close>

definition truthy :: "ustr option \<Rightarrow> bool" where
  "truthy p \<longleftrightarrow> p \<noteq> None \<and> p \<noteq> Some []"

definition namespace_matches :: "namespace_filter \<Rightarrow> ustr \<Rightarrow> bool" where
  "namespace_matches f ns =
     (if nf_namespaces f \<noteq> [] then ns \<in> set (nf_namespaces f)
      else if truthy (nf_pattern f) then like_glob_matches (the (nf_pattern f)) ns
      else if nf_exclude_prefixes f \<noteq> [] then \<not> has_namespace_prefix ns (nf_exclude_prefixes f)
      else True)"

fun scope_parse :: "filter_arg \<Rightarrow> (filter_error, scope_filter option) result" where
  "scope_parse NoValue = Inr None"
| "scope_parse (Listed items) = Inr (Some \<lparr>sf_scopes = items, sf_pattern = None\<rparr>)"
| "scope_parse (Text v) =
     (if contains 42 v \<and> contains 44 v then Inl ScopeMix
      else if contains 42 v then Inr (Some \<lparr>sf_scopes = [], sf_pattern = Some v\<rparr>)
      else if contains 44 v
      then Inr (Some \<lparr>sf_scopes = map strip (split_on 44 v), sf_pattern = None\<rparr>)
      else Inr (Some \<lparr>sf_scopes = [v], sf_pattern = None\<rparr>))"

definition scope_matches :: "scope_filter \<Rightarrow> ustr \<Rightarrow> bool" where
  "scope_matches f s =
     (if sf_scopes f \<noteq> [] then s \<in> set (sf_scopes f)
      else if truthy (sf_pattern f) then like_glob_matches (the (sf_pattern f)) s
      else True)"

definition SCOPE_TIERS :: "ustr list" where
  "SCOPE_TIERS = [lit ''user'', lit ''project_shared'', lit ''project_local'']"

definition validate_scope_vocabulary :: "ustr option \<Rightarrow> (filter_error, ustr option) result" where
  "validate_scope_vocabulary scope =
     (case scope of
        None \<Rightarrow> Inr None
      | Some raw \<Rightarrow>
          (let s = strip raw in
           if s = [] then Inr None
           else bind_res (scope_parse (Text s)) (\<lambda>parsed.
             case parsed of
               Some f \<Rightarrow>
                 if truthy (sf_pattern f)
                 then (if list_ex (scope_matches f) SCOPE_TIERS then Inr (Some s)
                       else Inl ScopeGlobMatchesNoTier)
                 else if list_all (\<lambda>x. x \<in> set SCOPE_TIERS) (sf_scopes f) then Inr (Some s)
                 else Inl ScopeUnknownTier
             | None \<Rightarrow> Inr (Some s))))"

section \<open>Visibility in Python\<close>

definition chunk_valid_at :: "chunk_metadata \<Rightarrow> int \<Rightarrow> bool" where
  "chunk_valid_at md as_of \<longleftrightarrow>
     (md_valid_from_unix md = None \<and> md_valid_to_unix md = None) \<or>
     (case md_valid_from_unix md of None \<Rightarrow> True | Some lo \<Rightarrow> lo \<le> as_of) \<and>
     (case md_valid_to_unix md of None \<Rightarrow> True | Some hi \<Rightarrow> as_of \<le> hi)"

definition chunk_in_scope_boundary :: "chunk_metadata \<Rightarrow> string option \<Rightarrow> bool" where
  "chunk_in_scope_boundary md proj \<longleftrightarrow>
     md_scope md = lit ''user'' \<or>
     (proj \<noteq> None \<and> md_project_root md \<noteq> None \<and> md_project_root md = proj)"

definition scope_visible :: "chunk_metadata \<Rightarrow> scope_filter option \<Rightarrow> string option \<Rightarrow> bool" where
  "scope_visible md filt proj =
     (if chunk_in_scope_boundary md proj then True
      else case filt of
        None \<Rightarrow> False
      | Some f \<Rightarrow>
          if \<not> (sf_scopes f \<noteq> [] \<or> truthy (sf_pattern f)) then False
          else if \<not> scope_matches f (md_scope md) then False
          else proj = None)"

definition neighbor_visible ::
  "chunk_metadata \<Rightarrow> namespace_filter option \<Rightarrow> ustr list \<Rightarrow> scope_filter option
    \<Rightarrow> string option \<Rightarrow> int option \<Rightarrow> bool" where
  "neighbor_visible md ns_filter system_prefixes scope_filt proj as_of =
     (if has_namespace_prefix (md_namespace md) system_prefixes \<and>
         \<not> (case ns_filter of None \<Rightarrow> False | Some f \<Rightarrow> namespace_matches f (md_namespace md))
      then False
      else if \<not> scope_visible md scope_filt proj then False
      else (case as_of of None \<Rightarrow> True | Some t \<Rightarrow> chunk_valid_at md t))"

text \<open>\<open>get_chunk\<close> is the storage's own read; it already drops withheld rows.\<close>

definition resolve_visible_chunk ::
  "(string \<Rightarrow> chunk option) \<Rightarrow> string \<Rightarrow> string option \<Rightarrow> chunk option" where
  "resolve_visible_chunk get_chunk cid proj =
     (case get_chunk cid of
        None \<Rightarrow> None
      | Some c \<Rightarrow> if \<not> chunk_in_scope_boundary (ch_metadata c) proj then None else Some c)"

section \<open>The SQL fragments\<close>

datatype text_column = NamespaceCol | ScopeCol
datatype int_column = ValidFromCol | ValidToCol

datatype sql_cond =
    TextEq text_column ustr
  | TextIn text_column "ustr list"
  | TextIsNull text_column
  | TextLike text_column ustr
  | TextNotLike text_column ustr
  | RootEq string
  | IntIsNull int_column
  | IntLe int_column int
  | IntGe int_column int
  | And sql_cond sql_cond
  | Or sql_cond sql_cond
  | OneEqualsOne

text \<open>\<open>" AND ".join(...)\<close> over a list that is not empty.\<close>

fun and_all :: "sql_cond list \<Rightarrow> sql_cond" where
  "and_all [] = OneEqualsOne"
| "and_all [c] = c"
| "and_all (c # cs) = And c (and_all cs)"

definition escape_like :: "ustr \<Rightarrow> ustr" where
  "escape_like v = replace_char 95 [92, 95] (replace_char 37 [92, 37] (replace_char 92 [92, 92] v))"

definition prefix_exclusion :: "ustr list \<Rightarrow> sql_cond" where
  "prefix_exclusion ps = and_all (map (\<lambda>p. TextNotLike NamespaceCol (escape_like p @ [37])) ps)"

text \<open>An empty fragment is \<open>None\<close>; the assertion is an error value.\<close>

definition namespace_sql :: "namespace_filter \<Rightarrow> (filter_error, sql_cond option) result" where
  "namespace_sql f =
     (if nf_namespaces f \<noteq> [] then Inr (Some (TextIn NamespaceCol (nf_namespaces f)))
      else if truthy (nf_pattern f)
      then Inr (Some (TextLike NamespaceCol (glob_to_like (the (nf_pattern f)))))
      else if nf_exclude_prefixes f \<noteq> []
      then (if length (nf_exclude_prefixes f) \<le> 10
            then Inr (Some (prefix_exclusion (nf_exclude_prefixes f)))
            else Inl TooManyPrefixes)
      else Inr None)"

definition scopes_in_clause :: "ustr list \<Rightarrow> sql_cond" where
  "scopes_in_clause scopes = (if scopes = [] then TextIsNull ScopeCol else TextIn ScopeCol scopes)"

definition scopes_glob_clause :: "ustr \<Rightarrow> sql_cond" where
  "scopes_glob_clause pattern = TextLike ScopeCol (glob_to_like pattern)"

definition boundary_sql :: "string option \<Rightarrow> sql_cond" where
  "boundary_sql proj =
     (case proj of
        Some r \<Rightarrow> Or (TextEq ScopeCol (lit ''user'')) (RootEq r)
      | None \<Rightarrow> TextEq ScopeCol (lit ''user''))"

definition scope_context_sql :: "scope_filter option \<Rightarrow> string option \<Rightarrow> sql_cond" where
  "scope_context_sql filt proj =
     (case filt of
        None \<Rightarrow> boundary_sql proj
      | Some f \<Rightarrow>
          if sf_scopes f = [] \<and> \<not> truthy (sf_pattern f) then boundary_sql proj
          else let clause =
                 (if sf_scopes f \<noteq> [] then scopes_in_clause (sf_scopes f)
                  else scopes_glob_clause (the (sf_pattern f)))
               in (case proj of
                     None \<Rightarrow> clause
                   | Some r \<Rightarrow> And clause (Or (TextEq ScopeCol (lit ''user'')) (RootEq r))))"

definition namespace_matches_sql :: "namespace_filter option \<Rightarrow> sql_cond option" where
  "namespace_matches_sql filt =
     (case filt of
        None \<Rightarrow> None
      | Some f \<Rightarrow>
          if nf_namespaces f \<noteq> [] then Some (TextIn NamespaceCol (nf_namespaces f))
          else if truthy (nf_pattern f)
          then Some (TextLike NamespaceCol (glob_to_like (the (nf_pattern f))))
          else if nf_exclude_prefixes f \<noteq> []
          then Some (prefix_exclusion (nf_exclude_prefixes f))
          else Some OneEqualsOne)"

definition namespace_visible_sql :: "namespace_filter option \<Rightarrow> ustr list \<Rightarrow> sql_cond option" where
  "namespace_visible_sql filt prefixes =
     (if prefixes = [] then None
      else case namespace_matches_sql filt of
        None \<Rightarrow> Some (prefix_exclusion prefixes)
      | Some m \<Rightarrow> Some (Or (prefix_exclusion prefixes) m))"

definition scope_visible_sql :: "scope_filter option \<Rightarrow> string option \<Rightarrow> sql_cond" where
  "scope_visible_sql filt proj =
     (case proj of
        Some r \<Rightarrow> Or (TextEq ScopeCol (lit ''user'')) (RootEq r)
      | None \<Rightarrow>
          (case filt of
             None \<Rightarrow> TextEq ScopeCol (lit ''user'')
           | Some f \<Rightarrow>
               if \<not> (sf_scopes f \<noteq> [] \<or> truthy (sf_pattern f)) then TextEq ScopeCol (lit ''user'')
               else Or (TextEq ScopeCol (lit ''user''))
                 (if sf_scopes f \<noteq> [] then scopes_in_clause (sf_scopes f)
                  else scopes_glob_clause (case sf_pattern f of None \<Rightarrow> [] | Some p \<Rightarrow> p))))"

definition validity_sql :: "int option \<Rightarrow> sql_cond option" where
  "validity_sql as_of =
     (case as_of of
        None \<Rightarrow> None
      | Some t \<Rightarrow> Some (And (Or (IntIsNull ValidFromCol) (IntLe ValidFromCol t))
                         (Or (IntIsNull ValidToCol) (IntGe ValidToCol t))))"

definition opt_list :: "'a option \<Rightarrow> 'a list" where
  "opt_list x = (case x of None \<Rightarrow> [] | Some y \<Rightarrow> [y])"

definition neighbor_visibility_sql ::
  "namespace_filter option \<Rightarrow> ustr list \<Rightarrow> scope_filter option \<Rightarrow> string option
    \<Rightarrow> int option \<Rightarrow> sql_cond" where
  "neighbor_visibility_sql ns_filter system_prefixes scope_filt proj as_of =
     and_all (opt_list (namespace_visible_sql ns_filter system_prefixes)
       @ [scope_visible_sql scope_filt proj] @ opt_list (validity_sql as_of))"

definition scope_sort_priority :: "ustr \<Rightarrow> nat" where
  "scope_sort_priority s =
     (if s = lit ''project_local'' then 0 else if s = lit ''project_shared'' then 1 else 2)"

section \<open>What the fragments mean\<close>

text \<open>
  SQLite's \<open>value LIKE pattern ESCAPE '\'\<close>, read off its documentation: \<open>%\<close> stands for
  any run of characters, \<open>_\<close> for one, the escape character makes the next one literal,
  letters compare without ASCII case and a trailing escape matches nothing.
\<close>

fun sql_like :: "ustr \<Rightarrow> ustr \<Rightarrow> bool" where
  "sql_like [] s = (s = [])"
| "sql_like (c # p) s =
     (if c = 37 then sql_like p s \<or> (case s of [] \<Rightarrow> False | _ # s' \<Rightarrow> sql_like (c # p) s')
      else if c = 92 then
        (case p of [] \<Rightarrow> False
         | d # p' \<Rightarrow> (case s of [] \<Rightarrow> False
                     | x # s' \<Rightarrow> fold_char x = fold_char d \<and> sql_like p' s'))
      else (case s of [] \<Rightarrow> False
            | x # s' \<Rightarrow> (c = 95 \<or> fold_char x = fold_char c) \<and> sql_like p s'))"

text \<open>Rows: \<open>namespace\<close> and \<open>scope\<close> are NOT NULL, the other columns may be NULL.\<close>

fun text_value :: "chunk_metadata \<Rightarrow> text_column \<Rightarrow> ustr" where
  "text_value md NamespaceCol = md_namespace md"
| "text_value md ScopeCol = md_scope md"

fun int_value :: "chunk_metadata \<Rightarrow> int_column \<Rightarrow> int option" where
  "int_value md ValidFromCol = md_valid_from_unix md"
| "int_value md ValidToCol = md_valid_to_unix md"

fun sql_and :: "bool option \<Rightarrow> bool option \<Rightarrow> bool option" where
  "sql_and (Some False) _ = Some False"
| "sql_and _ (Some False) = Some False"
| "sql_and (Some True) (Some True) = Some True"
| "sql_and _ _ = None"

fun sql_or :: "bool option \<Rightarrow> bool option \<Rightarrow> bool option" where
  "sql_or (Some True) _ = Some True"
| "sql_or _ (Some True) = Some True"
| "sql_or (Some False) (Some False) = Some False"
| "sql_or _ _ = None"

fun sql_eval :: "chunk_metadata \<Rightarrow> sql_cond \<Rightarrow> bool option" where
  "sql_eval md (TextEq c s) = Some (text_value md c = s)"
| "sql_eval md (TextIn c ss) = Some (text_value md c \<in> set ss)"
| "sql_eval md (TextIsNull c) = Some False"
| "sql_eval md (TextLike c p) = Some (sql_like p (text_value md c))"
| "sql_eval md (TextNotLike c p) = Some (\<not> sql_like p (text_value md c))"
| "sql_eval md (RootEq r) = map_option (\<lambda>x. x = r) (md_project_root md)"
| "sql_eval md (IntIsNull c) = Some (int_value md c = None)"
| "sql_eval md (IntLe c k) = map_option (\<lambda>x. x \<le> k) (int_value md c)"
| "sql_eval md (IntGe c k) = map_option (\<lambda>x. x \<ge> k) (int_value md c)"
| "sql_eval md (And a b) = sql_and (sql_eval md a) (sql_eval md b)"
| "sql_eval md (Or a b) = sql_or (sql_eval md a) (sql_eval md b)"
| "sql_eval md OneEqualsOne = Some True"

text \<open>WHERE keeps a row when its condition is true, not when it is false or NULL.\<close>

definition selected :: "sql_cond \<Rightarrow> chunk_metadata \<Rightarrow> bool" where
  "selected c md \<longleftrightarrow> sql_eval md c = Some True"

lemma sql_and_true [simp]: "sql_and a b = Some True \<longleftrightarrow> a = Some True \<and> b = Some True"
  by (cases "(a, b)" rule: sql_and.cases) auto

lemma sql_or_true [simp]: "sql_or a b = Some True \<longleftrightarrow> a = Some True \<or> b = Some True"
  by (cases "(a, b)" rule: sql_or.cases) auto

lemma selected_simps [simp, guard_simps]:
  "selected (TextEq c s) md \<longleftrightarrow> text_value md c = s"
  "selected (TextIn c ss) md \<longleftrightarrow> text_value md c \<in> set ss"
  "selected (TextIsNull c) md \<longleftrightarrow> False"
  "selected (TextLike c p) md \<longleftrightarrow> sql_like p (text_value md c)"
  "selected (TextNotLike c p) md \<longleftrightarrow> \<not> sql_like p (text_value md c)"
  "selected (RootEq r) md \<longleftrightarrow> md_project_root md = Some r"
  "selected (IntIsNull i) md \<longleftrightarrow> int_value md i = None"
  "selected (IntLe i k) md \<longleftrightarrow> (\<exists>x. int_value md i = Some x \<and> x \<le> k)"
  "selected (IntGe i k) md \<longleftrightarrow> (\<exists>x. int_value md i = Some x \<and> x \<ge> k)"
  "selected (And a b) md \<longleftrightarrow> selected a md \<and> selected b md"
  "selected (Or a b) md \<longleftrightarrow> selected a md \<or> selected b md"
  "selected OneEqualsOne md"
  by (auto simp: selected_def)

lemma selected_and_all [simp]: "selected (and_all cs) md \<longleftrightarrow> (\<forall>c \<in> set cs. selected c md)"
  by (induction cs rule: and_all.induct) auto

section \<open>The matching loop computes LIKE\<close>

fun like_tok :: "token list \<Rightarrow> ustr \<Rightarrow> bool" where
  "like_tok [] s = (s = [])"
| "like_tok (AnyRun # ts) s = (like_tok ts s \<or> (case s of [] \<Rightarrow> False | _ # s' \<Rightarrow> like_tok (AnyRun # ts) s'))"
| "like_tok (tok # ts) s = (case s of [] \<Rightarrow> False | x # s' \<Rightarrow> consumes tok x \<and> like_tok ts s')"

lemma like_tok_any: "like_tok (AnyRun # ts) s \<longleftrightarrow> (\<exists>k \<le> length s. like_tok ts (drop k s))"
proof (induction s)
  case (Cons x s)
  have "(\<exists>k \<le> length (x # s). like_tok ts (drop k (x # s)))
      \<longleftrightarrow> like_tok ts (x # s) \<or> (\<exists>k \<le> length s. like_tok ts (drop k s))"
  proof
    assume "\<exists>k \<le> length (x # s). like_tok ts (drop k (x # s))"
    then obtain k where "k \<le> length (x # s)" "like_tok ts (drop k (x # s))" by blast
    then show "like_tok ts (x # s) \<or> (\<exists>k \<le> length s. like_tok ts (drop k s))"
      by (cases k) auto
  next
    assume "like_tok ts (x # s) \<or> (\<exists>k \<le> length s. like_tok ts (drop k s))"
    then show "\<exists>k \<le> length (x # s). like_tok ts (drop k (x # s))"
      by (metis Suc_le_mono drop0 drop_Suc_Cons length_Cons zero_le)
  qed
  with Cons show ?case by simp
qed simp

lemma like_tok_single: "tok \<noteq> AnyRun \<Longrightarrow>
  like_tok (tok # ts) s = (case s of [] \<Rightarrow> False | x # s' \<Rightarrow> consumes tok x \<and> like_tok ts s')"
  by (cases tok) (auto split: list.split)

lemma consumes_not_any: "consumes tok x \<Longrightarrow> tok \<noteq> AnyRun"
  by (auto simp: consumes_def)

lemma like_tok_block:
  "list_all (\<lambda>tok. tok \<noteq> AnyRun) b \<Longrightarrow> like_tok (b @ ts) s \<Longrightarrow>
     length b \<le> length s \<and> like_tok ts (drop (length b) s)"
proof (induction b arbitrary: s)
  case (Cons tok b)
  then show ?case by (cases s) (auto simp: like_tok_single)
qed simp

lemma like_tok_Nil: "like_tok ts [] \<longleftrightarrow> list_all (\<lambda>tok. tok = AnyRun) ts"
proof (induction ts)
  case (Cons tok ts)
  then show ?case by (cases "tok = AnyRun") (auto simp: like_tok_single)
qed simp

definition loop_inv :: "token list \<Rightarrow> nat \<Rightarrow> nat \<Rightarrow> nat option \<Rightarrow> nat \<Rightarrow> bool" where
  "loop_inv tokens t v star mark \<longleftrightarrow>
     (case star of None \<Rightarrow> True
      | Some s \<Rightarrow> s < t \<and> mark \<le> v \<and> t \<le> length tokens \<and> t - Suc s = v - mark \<and>
          list_all (\<lambda>tok. tok \<noteq> AnyRun) (take (t - Suc s) (drop (Suc s) tokens)))"

definition loop_result :: "token list \<Rightarrow> ustr \<Rightarrow> nat \<Rightarrow> nat \<Rightarrow> nat option \<Rightarrow> nat \<Rightarrow> bool" where
  "loop_result tokens s t v star mark \<longleftrightarrow>
     like_tok (drop t tokens) (drop v s) \<or>
     (case star of None \<Rightarrow> False
      | Some st \<Rightarrow> \<exists>k > mark. k \<le> length s \<and> like_tok (drop (Suc st) tokens) (drop k s))"

lemma skip_block:
  assumes "loop_inv tokens t v (Some st) mark" and "like_tok (drop (Suc st) tokens) (drop k s)"
    and "k \<le> length s"
  shows "k + (v - mark) \<le> length s \<and> like_tok (drop t tokens) (drop (k + (v - mark)) s)"
proof -
  let ?b = "take (t - Suc st) (drop (Suc st) tokens)"
  have b: "list_all (\<lambda>tok. tok \<noteq> AnyRun) ?b" "length ?b = v - mark" "Suc st \<le> t"
    using assms(1) by (auto simp: loop_inv_def)
  have "drop (Suc st) tokens = ?b @ drop t tokens"
    using b(3) by (metis append_take_drop_id drop_drop le_add_diff_inverse2)
  then have "length ?b \<le> length (drop k s) \<and> like_tok (drop t tokens) (drop (length ?b) (drop k s))"
    using like_tok_block[OF b(1)] assms(2) by metis
  then have "v - mark \<le> length s - k" "like_tok (drop t tokens) (drop (k + (v - mark)) s)"
    using b(2) by (simp_all add: add.commute)
  with assms(3) show ?thesis by linarith
qed

lemma loop_inv_consume:
  assumes "loop_inv tokens t v star mark" "t < length tokens" "tokens ! t \<noteq> AnyRun"
  shows "loop_inv tokens (t + 1) (v + 1) star mark"
proof (cases star)
  case (Some st)
  then have st: "st < t" "t - Suc st < length tokens - Suc st"
    using assms by (auto simp: loop_inv_def)
  then have "Suc t - Suc st = Suc (t - Suc st)" by simp
  then have "take (Suc t - Suc st) (drop (Suc st) tokens)
      = take (t - Suc st) (drop (Suc st) tokens) @ [tokens ! t]"
    using st by (simp only: take_Suc_conv_app_nth length_drop nth_drop) simp
  with assms Some st show ?thesis by (auto simp: loop_inv_def simp del: drop_Suc)
qed (simp add: loop_inv_def)

lemma loop_result_any:
  assumes inv: "loop_inv tokens t v star mark" and "t < length tokens" "tokens ! t = AnyRun"
    and v: "v \<le> length s"
  shows "loop_result tokens s t v star mark = loop_result tokens s (t + 1) v (Some t) v"
proof -
  have d: "drop t tokens = AnyRun # drop (Suc t) tokens"
    using assms(2,3) by (metis Cons_nth_drop_Suc)
  have here: "like_tok (drop t tokens) (drop j s) \<longleftrightarrow>
      (\<exists>k \<ge> j. k \<le> length s \<and> like_tok (drop (Suc t) tokens) (drop k s))" if "j \<le> length s" for j
  proof -
    have "like_tok (drop t tokens) (drop j s) \<longleftrightarrow>
        (\<exists>i \<le> length s - j. like_tok (drop (Suc t) tokens) (drop (i + j) s))"
      unfolding d like_tok_any by (simp add: add.commute)
    also have "\<dots> \<longleftrightarrow> (\<exists>k \<ge> j. k \<le> length s \<and> like_tok (drop (Suc t) tokens) (drop k s))"
      using that by (metis add_le_cancel_right le_add2 le_add_diff_inverse2 nat_le_iff_add)
    finally show ?thesis .
  qed
  have "like_tok (drop t tokens) (drop v s)"
    if "st = star" "st = Some b" "k > mark" "k \<le> length s" "like_tok (drop (Suc b) tokens) (drop k s)" for st b k
  proof -
    have i: "loop_inv tokens t v (Some b) mark" using inv that by simp
    from skip_block[OF i that(5,4)]
    have k: "k + (v - mark) \<le> length s" "like_tok (drop t tokens) (drop (k + (v - mark)) s)" by auto
    moreover have "v \<le> k + (v - mark)" using that(3) by simp
    ultimately show ?thesis using here[OF v] here[OF k(1)] by (meson le_trans)
  qed
  then have "loop_result tokens s t v star mark = like_tok (drop t tokens) (drop v s)"
    by (auto simp: loop_result_def split: option.splits)
  also have "\<dots> = loop_result tokens s (t + 1) v (Some t) v"
    using v unfolding here[OF v] by (auto simp: loop_result_def intro: less_imp_le)
      (metis le_neq_implies_less)
  finally show ?thesis .
qed

lemma match_loop_correct:
  "loop_inv tokens t v star mark \<Longrightarrow> v \<le> length s \<Longrightarrow>
     match_loop tokens s t v star mark = loop_result tokens s t v star mark"
proof (induction tokens s t v star mark rule: match_loop.induct)
  case (1 tokens s t v star mark)
  show ?case
  proof (cases "v < length s")
    case False
    then have "v = length s" using 1 by simp
    moreover have "\<not> like_tok (drop (Suc b) tokens) (drop k s)"
      if "star = Some b" "k > mark" "k \<le> length s" for b k
      using skip_block[of tokens t v b mark k s] 1(4) that \<open>v = length s\<close>
      by (auto simp: loop_inv_def)
    ultimately show ?thesis
      by (subst match_loop.simps) (auto simp: loop_result_def like_tok_Nil split: option.split)
  next
    case v: True
    have dv: "drop v s = s ! v # drop (Suc v) s" using v by (metis Cons_nth_drop_Suc)
    have dt: "drop t tokens = tokens ! t # drop (Suc t) tokens" if "t < length tokens"
      using that by (metis Cons_nth_drop_Suc)
    consider (eat) "t < length tokens" "consumes (tokens ! t) (s ! v)"
      | (any) "t < length tokens" "tokens ! t = AnyRun"
      | (stuck) "t < length tokens \<longrightarrow> \<not> consumes (tokens ! t) (s ! v) \<and> tokens ! t \<noteq> AnyRun"
      by blast
    then show ?thesis
    proof cases
      case eat
      then have na: "tokens ! t \<noteq> AnyRun" by (auto dest: consumes_not_any)
      have "match_loop tokens s t v star mark = loop_result tokens s (t + 1) (v + 1) star mark"
        using 1(1)[OF v _ loop_inv_consume[OF 1(4) eat(1) na]] eat v
        by (subst match_loop.simps) simp
      also have "\<dots> = loop_result tokens s t v star mark"
        using eat na by (simp add: loop_result_def dv dt like_tok_single)
      finally show ?thesis .
    next
      case any
      then have "\<not> consumes (tokens ! t) (s ! v)" by (auto simp: consumes_def)
      moreover have "loop_inv tokens (t + 1) v (Some t) v" using any by (auto simp: loop_inv_def)
      ultimately show ?thesis
        using 1(2) any v loop_result_any[OF 1(4) any] by (subst match_loop.simps) simp
    next
      case stuck
      then have no: "\<not> like_tok (drop t tokens) (drop v s)"
        by (cases "t < length tokens") (auto simp: dv dt like_tok_single)
      show ?thesis
      proof (cases star)
        case None
        with no stuck v show ?thesis by (subst match_loop.simps) (auto simp: loop_result_def)
      next
        case (Some b)
        have inv: "loop_inv tokens (b + 1) (mark + 1) star (mark + 1)" "mark + 1 \<le> length s"
          using 1(4) Some v by (auto simp: loop_inv_def)
        then have "match_loop tokens s t v star mark
            = loop_result tokens s (b + 1) (mark + 1) star (mark + 1)"
          using 1(3)[OF v] stuck v Some by (subst match_loop.simps) auto
        also have "\<dots> = loop_result tokens s t v star mark"
          using no Some inv(2)
          by (auto simp: loop_result_def intro: Suc_lessD) (metis Suc_lessI)
        finally show ?thesis .
      qed
    qed
  qed
qed

lemma fold_char_meta [simp]:
  "fold_char c = 37 \<longleftrightarrow> c = 37" "fold_char c = 92 \<longleftrightarrow> c = 92" "fold_char c = 95 \<longleftrightarrow> c = 95"
  by (auto simp: fold_char_def)

lemma ascii_fold_simps [simp]:
  "ascii_fold [] = []"
  "ascii_fold (c # v) = fold_char c # ascii_fold v"
  "ascii_fold (u @ v) = ascii_fold u @ ascii_fold v"
  "length (ascii_fold v) = length v"
  by (simp_all add: ascii_fold_def)

lemma like_tok_run:
  "like_tok (AnyRun # ts) (ascii_fold (x # s)) \<longleftrightarrow>
     like_tok ts (ascii_fold (x # s)) \<or> like_tok (AnyRun # ts) (ascii_fold s)"
  by simp

lemma tokenize_cons:
  "tokenize (c # p) =
     (if c = 92 then (case p of [] \<Rightarrow> None | d # p' \<Rightarrow> map_option (\<lambda>ts. Lit d # ts) (tokenize p'))
      else map_option (\<lambda>ts. (if c = 37 then AnyRun else if c = 95 then AnyOne else Lit c) # ts)
             (tokenize p))"
  by (cases p) auto

lemma sql_like_tokens:
  "sql_like p s = (case tokenize (ascii_fold p) of None \<Rightarrow> False | Some ts \<Rightarrow> like_tok ts (ascii_fold s))"
proof (induction p s rule: sql_like.induct)
  case (1 s)
  then show ?case by (cases s) auto
next
  case (2 c p s)
  consider "c = 37" | "c = 92" | "c \<noteq> 37" "c \<noteq> 92" by blast
  then show ?case
  proof cases
    case 1
    show ?thesis
      by (subst sql_like.simps, cases s)
        (use 1 2(1,2) in \<open>auto simp: tokenize_cons split: option.splits\<close>)
  next
    case esc: 2
    then show ?thesis
      using 2(3) by (cases p; cases s) (auto simp: tokenize_cons consumes_def split: option.splits)
  next
    case 3
    then show ?thesis
      using 2(4) by (cases s) (auto simp: tokenize_cons consumes_def split: option.splits)
  qed
qed

lemma glob_is_like: "like_glob_matches p v = sql_like (glob_to_like p) v"
proof -
  have "match_loop tokens (ascii_fold v) 0 0 None 0 = like_tok tokens (ascii_fold v)" for tokens
    using match_loop_correct[of tokens 0 0 None 0 "ascii_fold v"]
    by (simp add: loop_inv_def loop_result_def)
  then show ?thesis by (simp add: like_glob_matches_def sql_like_tokens split: option.split)
qed

lemma sql_like_any_end [simp]: "sql_like [37] s"
  by (induction s) auto

lemma escape_like_cons:
  "escape_like (c # p) = (if c = 92 \<or> c = 37 \<or> c = 95 then [92, c] else [c]) @ escape_like p"
  by (auto simp: escape_like_def replace_char_def)

lemma sql_like_prefix:
  "sql_like (escape_like p @ [37]) v \<longleftrightarrow> take (length p) (ascii_fold v) = ascii_fold p"
proof (induction p arbitrary: v)
  case Nil
  show ?case by (simp add: escape_like_def replace_char_def del: sql_like.simps)
next
  case (Cons c p)
  then show ?case by (cases v) (auto simp: escape_like_cons)
qed

lemma selected_prefix_exclusion [simp]:
  "selected (prefix_exclusion ps) md \<longleftrightarrow> \<not> has_namespace_prefix (md_namespace md) ps"
  by (auto simp: prefix_exclusion_def has_namespace_prefix_def list_ex_iff sql_like_prefix)

text \<open>
  C26. The two-pointer loop decides exactly SQLite's LIKE on the translated pattern: stars
  and percent signs are wildcards, an underscore is literal, ASCII case is ignored and a
  pattern that ends in a lone escape matches nothing.
\<close>

theorem glob_matches_like: "like_glob_matches p v \<longleftrightarrow> sql_like (glob_to_like p) v"
  by (rule glob_is_like)

section \<open>The Python and the SQL rules select the same rows\<close>

text \<open>
  A namespace filter applied in Python keeps a chunk exactly when the WHERE fragment
  emitted for it selects the row (no fragment means no restriction); emission fails only
  for more than ten excluded prefixes.
\<close>

theorem namespace_filter_parity:
  "(case namespace_sql f of
      Inr None \<Rightarrow> namespace_matches f (md_namespace md)
    | Inr (Some c) \<Rightarrow> namespace_matches f (md_namespace md) = selected c md
    | Inl e \<Rightarrow> e = TooManyPrefixes \<and> length (nf_exclude_prefixes f) > 10)"
  by (simp add: namespace_sql_def namespace_matches_def glob_is_like)

lemma selected_scopes_in [simp]: "selected (scopes_in_clause ss) md \<longleftrightarrow> md_scope md \<in> set ss"
  by (simp add: scopes_in_clause_def)

lemma selected_scopes_glob [simp]:
  "selected (scopes_glob_clause p) md \<longleftrightarrow> like_glob_matches p (md_scope md)"
  by (simp add: scopes_glob_clause_def glob_is_like)

lemma selected_boundary [simp]:
  "selected (boundary_sql proj) md \<longleftrightarrow> chunk_in_scope_boundary md proj"
  by (auto simp: boundary_sql_def chunk_in_scope_boundary_def split: option.split)

lemma truthy_the: "truthy p \<Longrightarrow> p = Some (the p)"
  by (auto simp: truthy_def)

lemma selected_scope_visible [simp]:
  "selected (scope_visible_sql filt proj) md \<longleftrightarrow> scope_visible md filt proj"
  by (auto simp: scope_visible_sql_def scope_visible_def scope_matches_def
      chunk_in_scope_boundary_def truthy_def split: option.splits)

lemma selected_namespace_visible:
  "(\<forall>c \<in> set (opt_list (namespace_visible_sql filt ps)). selected c md) \<longleftrightarrow>
     (has_namespace_prefix (md_namespace md) ps \<longrightarrow>
        (case filt of None \<Rightarrow> False | Some f \<Rightarrow> namespace_matches f (md_namespace md)))"
  by (auto simp: namespace_visible_sql_def namespace_matches_sql_def namespace_matches_def
      opt_list_def has_namespace_prefix_def[of _ "[]"] glob_is_like split: option.splits)

lemma selected_validity:
  "(\<forall>c \<in> set (opt_list (validity_sql as_of)). selected c md) \<longleftrightarrow>
     (case as_of of None \<Rightarrow> True | Some t \<Rightarrow> chunk_valid_at md t)"
  by (auto simp: validity_sql_def opt_list_def chunk_valid_at_def split: option.splits)

text \<open>
  C28. The adjacency rule and its SQL twin agree on every row, NULL project roots and
  unbounded validity windows included: the fragment the counts aggregate on selects exactly
  the neighbours the Python predicate shows.
\<close>

theorem neighbor_visibility_parity:
  "selected (neighbor_visibility_sql nsf prefixes sf proj as_of) md =
     neighbor_visible md nsf prefixes sf proj as_of"
  unfolding neighbor_visibility_sql_def neighbor_visible_def
  by (simp add: ball_Un selected_namespace_visible selected_validity)

text \<open>
  The project boundary: what an adjacency read may show on the scope axis is exactly
  what an unfiltered search or a search with the caller's filter retrieves, and inside a
  project neither ever reaches a project-tier row of another project. A read by id answers
  only with a row an unfiltered search may retrieve.
\<close>

theorem scope_boundary:
  "(scope_visible md filt proj \<longleftrightarrow>
      selected (scope_context_sql None proj) md \<or> selected (scope_context_sql filt proj) md) \<and>
   (proj = Some r \<and> scope_visible md filt proj \<and> md_scope md \<noteq> lit ''user''
      \<longrightarrow> md_project_root md = Some r) \<and>
   (resolve_visible_chunk get_chunk cid proj = Some c
      \<longrightarrow> selected (scope_context_sql None proj) (ch_metadata c))"
  by (auto simp: resolve_visible_chunk_def scope_context_sql_def scope_visible_def scope_matches_def Let_def
      chunk_in_scope_boundary_def boundary_sql_def truthy_def glob_is_like
      split: option.splits if_splits)

definition sample_row :: "string \<Rightarrow> chunk_metadata" where
  "sample_row project = (default_metadata ''/m/a.md'')\<lparr>md_scope := lit ''project_shared'',
     md_project_root := Some project\<rparr>"

theorem scope_boundary_witness:
  "scope_visible (sample_row ''/p'') (Some \<lparr>sf_scopes = [lit ''project_shared''], sf_pattern = None\<rparr>)
     (Some ''/p'') \<and>
   md_project_root (sample_row ''/p'') = Some ''/p''"
proof -
  let ?f = "Some \<lparr>sf_scopes = [lit ''project_shared''], sf_pattern = None\<rparr>"
  have v: "scope_visible (sample_row ''/p'') ?f (Some ''/p'')" by code_simp
  have "md_scope (sample_row ''/p'') \<noteq> lit ''user''" by code_simp
  with v scope_boundary[of "sample_row ''/p''" ?f "Some ''/p''" "''/p''"] show ?thesis by simp
qed

section \<open>Parsing\<close>

definition names_nothing :: "filter_arg \<Rightarrow> bool" where
  "names_nothing arg \<longleftrightarrow> arg = NoValue \<or> arg = Listed [] \<or> arg = Text NON_SYSTEM_NAMESPACES"

lemma contains_not_Nil: "contains c v \<Longrightarrow> v \<noteq> []"
  by (auto simp: contains_def)

text \<open>
  What a namespace argument means. An argument that names nothing (absent, an empty
  list, the \<open>!system\<close> selector) gives the filter that hides the system prefixes, or none
  when there are none; any other argument gives a filter that ignores the prefixes and
  always restricts, by names or by one glob, never both. It is refused exactly when it
  mixes a comma with a glob or lists the selector.
\<close>

theorem namespace_parse_meaning:
  "(case namespace_parse arg prefixes of
      Inr None \<Rightarrow> names_nothing arg \<and> prefixes = []
    | Inr (Some f) \<Rightarrow>
        (if names_nothing arg
         then (\<forall>ns. namespace_matches f ns = (\<not> has_namespace_prefix ns prefixes))
         else nf_exclude_prefixes f = [] \<and> (nf_namespaces f \<noteq> []) \<noteq> truthy (nf_pattern f))
    | Inl e \<Rightarrow> \<not> names_nothing arg \<and>
        (e = NamespaceMix \<and> (\<exists>v. arg = Text v \<and> contains 42 v \<and> contains 44 v) \<or>
         e = NamespaceSelectorInList \<and> (\<exists>items. NON_SYSTEM_NAMESPACES \<in> strip ` set items \<and>
           (arg = Listed items \<or> arg = Text (join_with [44] items)))))"
proof (cases arg)
  case NoValue
  then show ?thesis
    by (auto simp: names_nothing_def without_system_def namespace_matches_def truthy_def)
next
  case (Listed items)
  then show ?thesis
    by (auto simp: names_nothing_def without_system_def namespace_matches_def truthy_def
        exact_names_def list_ex_iff intro: rev_image_eqI)
next
  case (Text v)
  have "\<exists>items. NON_SYSTEM_NAMESPACES \<in> strip ` set items \<and> v = join_with [44] items"
    if "list_ex (\<lambda>i. strip i = NON_SYSTEM_NAMESPACES) (split_on 44 v)"
    using that join_split_on[of 44 v]
    by (intro exI[of _ "split_on 44 v"]) (auto simp: list_ex_iff intro: rev_image_eqI)
  with Text show ?thesis
    by (auto simp: names_nothing_def without_system_def namespace_matches_def truthy_def
        exact_names_def contains_not_Nil)
qed

lemma dropWhile_last: "xs \<noteq> [] \<Longrightarrow> \<not> P (last xs) \<Longrightarrow> dropWhile P xs \<noteq> [] \<and> last (dropWhile P xs) = last xs"
  by (induction xs) auto

lemma strip_ends: "s = strip t \<Longrightarrow> s \<noteq> [] \<Longrightarrow> \<not> is_space (hd s) \<and> \<not> is_space (last s)"
proof -
  assume s: "s = strip t" "s \<noteq> []"
  let ?u = "dropWhile is_space t"
  let ?w = "dropWhile is_space (rev ?u)"
  have w: "s = rev ?w" "?w \<noteq> []" using s by (auto simp: strip_def)
  then have "\<not> is_space (hd ?w)" using hd_dropWhile by blast
  moreover have u: "?u \<noteq> []" using w(2) by (metis dropWhile.simps(1) rev.simps(1))
  then have "\<not> is_space (last (rev ?u))" using hd_dropWhile[of is_space t] by (simp add: last_rev)
  then have "\<not> is_space (last ?w)" using dropWhile_last[of "rev ?u" is_space] u by simp
  ultimately show ?thesis using w by (simp add: hd_rev last_rev)
qed

lemma strip_fixed: "s \<noteq> [] \<Longrightarrow> \<not> is_space (hd s) \<Longrightarrow> \<not> is_space (last s) \<Longrightarrow> strip s = s"
proof -
  assume s: "s \<noteq> []" "\<not> is_space (hd s)" "\<not> is_space (last s)"
  then have "dropWhile is_space s = s" by (cases s) auto
  moreover have "dropWhile is_space (rev s) = rev s"
    using s by (cases s rule: rev_cases) auto
  ultimately show ?thesis by (simp add: strip_def)
qed

lemma strip_Nil: "strip [] = []"
  by (simp add: strip_def)

lemma strip_strip: "strip (strip s) = strip s"
  using strip_ends[of "strip s" s] strip_fixed[of "strip s"] by (cases "strip s = []") (simp_all add: strip_Nil)

text \<open>
  The scope vocabulary check: what it accepts comes back stripped, parses, and selects
  at least one of the three tiers; unless it is a glob, every scope it names is a tier.
  Blank text is no filter.
\<close>

theorem scope_vocabulary_sound:
  assumes "validate_scope_vocabulary (Some raw) = Inr r"
  shows "case r of
      None \<Rightarrow> blank raw
    | Some s \<Rightarrow> s = strip raw \<and> strip s = s \<and>
        (\<exists>f. scope_parse (Text s) = Inr (Some f) \<and> list_ex (scope_matches f) SCOPE_TIERS \<and>
           (contains 42 s \<or> set (sf_scopes f) \<subseteq> set SCOPE_TIERS))"
proof (cases "strip raw = []")
  case True
  with assms show ?thesis by (auto simp: validate_scope_vocabulary_def blank_iff_strip)
next
  case False
  from assms False obtain f where f: "scope_parse (Text (strip raw)) = Inr (Some f)"
    by (auto simp: validate_scope_vocabulary_def Let_def bind_res_Inr_conv split: if_splits)
  show ?thesis
  proof (cases "truthy (sf_pattern f)")
    case True
    with assms False f show ?thesis
      by (auto simp: validate_scope_vocabulary_def Let_def strip_strip truthy_def split: if_splits)
  next
    case exact: False
    have r: "r = Some (strip raw)" and sub: "set (sf_scopes f) \<subseteq> set SCOPE_TIERS"
      using assms False f exact
      by (auto simp: validate_scope_vocabulary_def Let_def list_all_iff split: if_splits)
    have ne: "sf_scopes f \<noteq> []"
      using f exact contains_not_Nil[of 42 "strip raw"] by (auto simp: truthy_def split: if_splits)
    then have "hd (sf_scopes f) \<in> set SCOPE_TIERS" "hd (sf_scopes f) \<in> set (sf_scopes f)"
      using sub by auto
    then have "list_ex (scope_matches f) SCOPE_TIERS"
      using ne unfolding list_ex_iff scope_matches_def by (metis (full_types))
    with r f sub show ?thesis by (auto simp: strip_strip)
  qed
qed

theorem scope_vocabulary_sound_witness:
  "strip [32, 42] = [42] \<and>
   (\<exists>f. scope_parse (Text [42]) = Inr (Some f) \<and> list_ex (scope_matches f) SCOPE_TIERS)"
proof -
  have s: "strip [32, 42] = [42]" by (simp add: strip_def is_space_def)
  have "glob_to_like [42] = [37]" by (simp add: glob_to_like_def replace_char_def)
  then have "scope_matches \<lparr>sf_scopes = [], sf_pattern = Some [42]\<rparr> t" for t
    by (simp add: scope_matches_def truthy_def glob_is_like del: sql_like.simps)
  then have "validate_scope_vocabulary (Some [32, 42]) = Inr (Some [42])"
    by (simp add: validate_scope_vocabulary_def s contains_def truthy_def SCOPE_TIERS_def)
  then show ?thesis using scope_vocabulary_sound[of "[32, 42]" "Some [42]"] s by auto
qed

end
