(* ===== verification/Namespaces.thy ===== *)
theory Namespaces
  imports Filters "HOL-Library.List_Lexorder" "HOL-Library.Product_Lexorder"
begin

text \<open>
  Namespaces of the store (\<open>storage/sqlite_namespace.py\<close>): their validation, the
  listing and counting, and the four writers (rename, assign, delete, metadata) inside
  their savepoint. The tables are lists of rows; the tables that refer to a chunk are
  those the live schema names, each with what its foreign keys do when the chunk goes
  (\<open>storage/sqlite_schema.py\<close>) and the columns of its unique key.
\<close>

section \<open>Tables\<close>

text \<open>The columns of \<open>chunks\<close> that the namespace operations read or write.\<close>

record ns_row =
  row_id :: ustr
  row_no :: nat
  row_ns :: ustr
  row_file :: ustr
  row_hash :: ustr
  row_line :: int
  row_accesses :: int
  row_uses :: int
  row_born :: ustr

datatype fk_action = Cascade | SetNull

text \<open>
  A row that refers to chunks: the values of its foreign key columns, and the values of
  the other columns its unique key has (folded where the index ignores case).
\<close>

record ref_row =
  ref_ends :: "ustr option list"
  ref_rest :: ustr

record ref_table =
  fk_actions :: "fk_action list"
  key_cols :: "nat list option"
  ref_rows :: "ref_row list"

record ns_meta =
  meta_ns :: ustr
  meta_description :: ustr
  meta_color :: ustr
  meta_created :: ustr
  meta_updated :: ustr

record session_row =
  sess_id :: ustr
  sess_ns :: ustr

record ns_tables =
  ns_chunks :: "ns_row list"
  fts_rowids :: "nat list"
  vec_rowids :: "nat list option"
  ns_refs :: "ref_table list"
  ns_metas :: "ns_meta list"
  ns_sessions :: "session_row list"

datatype ns_error =
    InvalidName
  | SameName
  | TargetExists
  | ChunkOverlap
  | NsBusy
  | NsFailed
  | NsRefused
  | NsLocked
  | MissingFilter
  | BadColor

section \<open>Names and colors\<close>

text \<open>
  \<open>re.match(r"^[\w\-.:@ ]{1,255}$", name)\<close>. Whether a code point is a word
  character is the parameter; the final \<open>$\<close> also matches before a last newline.
\<close>

definition ns_char :: "(nat \<Rightarrow> bool) \<Rightarrow> nat \<Rightarrow> bool" where
  "ns_char word c \<longleftrightarrow> word c \<or> c \<in> set (lit ''-.:@ '')"

definition ns_body :: "(nat \<Rightarrow> bool) \<Rightarrow> ustr \<Rightarrow> bool" where
  "ns_body word s \<longleftrightarrow> 1 \<le> length s \<and> length s \<le> 255 \<and> list_all (ns_char word) s"

definition is_valid_ns_chars :: "(nat \<Rightarrow> bool) \<Rightarrow> ustr \<Rightarrow> bool" where
  "is_valid_ns_chars word s \<longleftrightarrow> ns_body word s \<or> (s \<noteq> [] \<and> List.last s = 10 \<and> ns_body word (butlast s))"

definition sanitize_namespace_segment :: "(nat \<Rightarrow> bool) \<Rightarrow> ustr \<Rightarrow> ustr" where
  "sanitize_namespace_segment word s = map (\<lambda>c. if ns_char word c then c else 95) (strip s)"

definition ensure_valid_namespace :: "(nat \<Rightarrow> bool) \<Rightarrow> ustr \<Rightarrow> (ns_error, unit) result" where
  "ensure_valid_namespace word s = (if is_valid_ns_chars word s then Inr () else Inl InvalidName)"

definition color_digit :: "nat \<Rightarrow> bool" where
  "color_digit c \<longleftrightarrow> (48 \<le> c \<and> c \<le> 57) \<or> (97 \<le> c \<and> c \<le> 102) \<or> (65 \<le> c \<and> c \<le> 70)"

definition validate_namespace_color :: "ustr option \<Rightarrow> (ns_error, unit) result" where
  "validate_namespace_color color =
     (case color of
        None \<Rightarrow> Inr ()
      | Some [] \<Rightarrow> Inr ()
      | Some (c # s) \<Rightarrow>
          if c = 35 \<and> 3 \<le> length s \<and> length s \<le> 8 \<and> list_all color_digit s then Inr () else Inl BadColor)"

section \<open>The write transaction\<close>

text \<open>
  The connection: what it sees, what is committed, whether it is inside a transaction,
  whether the backend's own transaction is active for this task, and whether
  \<open>BEGIN IMMEDIATE\<close> would get the write lock.
\<close>

record ns_db =
  db_tables :: ns_tables
  db_committed :: ns_tables
  db_in_txn :: bool
  db_borrowed :: bool
  db_lock_free :: bool

definition begin_namespace_write :: "ns_db \<Rightarrow> (ns_error, bool \<times> ns_db) result" where
  "begin_namespace_write db =
     (if \<not> db_in_txn db then
        if db_lock_free db then Inr (\<not> db_borrowed db, db\<lparr>db_in_txn := True\<rparr>) else Inl NsLocked
      else if \<not> db_borrowed db then Inl NsRefused
      else Inr (False, db))"

text \<open>
  What the writers share: the savepoint, its release and the commit by the owner; on an
  error the undo to the savepoint and the owner's rollback.
\<close>

definition undo_namespace_write :: "bool \<Rightarrow> ns_tables \<Rightarrow> ns_db \<Rightarrow> ns_db" where
  "undo_namespace_write owns saved db =
     (let db1 = db\<lparr>db_tables := saved\<rparr> in
      if owns then db1\<lparr>db_tables := db_committed db1, db_in_txn := False\<rparr> else db1)"

definition commit_namespace_write :: "bool \<Rightarrow> ns_tables \<Rightarrow> ns_db \<Rightarrow> ns_db" where
  "commit_namespace_write owns t db =
     (if owns then db\<lparr>db_tables := t, db_committed := t, db_in_txn := False\<rparr> else db\<lparr>db_tables := t\<rparr>)"

definition write_op :: "(ns_tables \<Rightarrow> (ns_error \<times> ns_tables, 'a \<times> ns_tables) result) \<Rightarrow> ns_db \<Rightarrow> (ns_error, 'a) result \<times> ns_db" where
  "write_op body db =
     (case begin_namespace_write db of
        Inl e \<Rightarrow> (Inl e, db)
      | Inr (owns, db1) \<Rightarrow>
          (case body (db_tables db1) of
             Inl (e, t) \<Rightarrow> (Inl e, undo_namespace_write owns (db_tables db1) (db1\<lparr>db_tables := t\<rparr>))
           | Inr (x, t) \<Rightarrow> (Inr x, commit_namespace_write owns t db1)))"

section \<open>Reading\<close>

text \<open>\<open>SELECT DISTINCT x ... ORDER BY x\<close>\<close>

definition distinct_sorted :: "'a::linorder list \<Rightarrow> 'a list" where
  "distinct_sorted xs = sort (remdups xs)"

definition rows_in :: "ustr \<Rightarrow> ns_tables \<Rightarrow> ns_row list" where
  "rows_in n t = filter (\<lambda>r. row_ns r = n) (ns_chunks t)"

definition list_namespaces :: "ns_tables \<Rightarrow> (ustr \<times> nat) list" where
  "list_namespaces t = map (\<lambda>n. (n, length (rows_in n t))) (distinct_sorted (map row_ns (ns_chunks t)))"

definition count_chunks_by_namespace :: "ustr \<Rightarrow> ns_tables \<Rightarrow> nat" where
  "count_chunks_by_namespace n t = length (rows_in n t)"

definition like_prefix :: "ustr \<Rightarrow> ns_row \<Rightarrow> bool" where
  "like_prefix p r = sql_like (escape_like p @ [37]) (row_ns r)"

definition count_chunks_by_ns_prefix :: "ustr list \<Rightarrow> ns_tables \<Rightarrow> nat" where
  "count_chunks_by_ns_prefix prefixes t =
     (if prefixes = [] then 0
      else length (filter (\<lambda>r. list_ex (\<lambda>p. like_prefix p r) prefixes) (ns_chunks t)))"

text \<open>
  The split per prefix; the scope and visibility boundary of the caller is a predicate on
  rows, the one that holds everywhere when it is omitted.
\<close>

definition count_chunks_by_ns_prefix_detail ::
  "(ns_row \<Rightarrow> bool) \<Rightarrow> ustr list \<Rightarrow> ns_tables \<Rightarrow> nat \<times> (ustr, nat) odict" where
  "count_chunks_by_ns_prefix_detail boundary prefixes t =
     (if prefixes = [] then (0, [])
      else let rows = filter (\<lambda>r. list_ex (\<lambda>p. like_prefix p r) prefixes \<and> boundary r) (ns_chunks t) in
        (length rows,
         fold (\<lambda>p d. let n = length (filter (like_prefix p) rows) in if 0 < n then od_set p n d else d)
           prefixes []))"

definition find_meta :: "ustr \<Rightarrow> ns_tables \<Rightarrow> ns_meta option" where
  "find_meta n t = find (\<lambda>m. meta_ns m = n) (ns_metas t)"

definition get_namespace_meta :: "ustr \<Rightarrow> ns_tables \<Rightarrow> ns_meta option" where
  "get_namespace_meta n t = find_meta n t"

definition has_namespace_meta :: "ustr \<Rightarrow> ns_tables \<Rightarrow> bool" where
  "has_namespace_meta n t \<longleftrightarrow> find_meta n t \<noteq> None"

definition namespace_exists :: "ustr \<Rightarrow> ns_tables \<Rightarrow> bool" where
  "namespace_exists n t \<longleftrightarrow> list_ex (\<lambda>r. row_ns r = n) (ns_chunks t) \<or> has_namespace_meta n t"

definition list_namespace_meta :: "ns_tables \<Rightarrow> (ustr \<times> nat \<times> ustr \<times> ustr) list" where
  "list_namespace_meta t =
     map (\<lambda>n. (n, length (rows_in n t),
                case find_meta n t of None \<Rightarrow> [] | Some m \<Rightarrow> meta_description m,
                case find_meta n t of None \<Rightarrow> [] | Some m \<Rightarrow> meta_color m))
       (distinct_sorted (map meta_ns (ns_metas t) @ map row_ns (ns_chunks t)))"

text \<open>\<open>if source_filter:\<close> and \<open>if old_namespace:\<close> skip an empty filter.\<close>

definition given_text :: "ustr option \<Rightarrow> ustr option" where
  "given_text x = (case x of Some (c # s) \<Rightarrow> Some (c # s) | _ \<Rightarrow> None)"

definition row_selected :: "ustr option \<Rightarrow> ustr option \<Rightarrow> ns_row \<Rightarrow> bool" where
  "row_selected source old r \<longleftrightarrow>
     (case given_text source of None \<Rightarrow> True | Some f \<Rightarrow> sql_like ([37] @ escape_like f @ [37]) (row_file r)) \<and>
     (case given_text old of None \<Rightarrow> True | Some n \<Rightarrow> row_ns r = n)"

record ns_candidate =
  cand_id :: ustr
  cand_source :: ustr
  cand_ns :: ustr

definition list_namespace_chunk_candidates ::
  "ustr option \<Rightarrow> ustr option \<Rightarrow> ustr option \<Rightarrow> ns_tables \<Rightarrow> (ns_error, ns_candidate list) result" where
  "list_namespace_chunk_candidates source old except t =
     (if given_text source = None \<and> given_text old = None then Inl MissingFilter
      else Inr (map (\<lambda>r. \<lparr>cand_id = row_id r, cand_source = row_file r, cand_ns = row_ns r\<rparr>)
        (sort_key (\<lambda>r. (row_file r, row_id r))
          (filter (\<lambda>r. row_selected source old r \<and> (case except of None \<Rightarrow> True | Some n \<Rightarrow> row_ns r \<noteq> n))
            (ns_chunks t)))))"

section \<open>Removing duplicates\<close>

record duplicate_plan =
  survivor_id :: ustr
  losers :: "(ustr \<times> nat) list"

definition plan_pairs :: "duplicate_plan list \<Rightarrow> (ustr \<times> ustr) list" where
  "plan_pairs plans = concat (map (\<lambda>p. map (\<lambda>l. (survivor_id p, fst l)) (losers p)) plans)"

text \<open>
  The temporary mapping from each member to its survivor: survivors with
  \<open>INSERT OR IGNORE\<close>, losers with a plain \<open>INSERT\<close>, which fails on a key that is
  already there (the answer \<open>None\<close>, SQLite's integrity error).
\<close>

definition map_survivors :: "(ustr \<times> ustr) list \<Rightarrow> (ustr, ustr) odict" where
  "map_survivors pairs = map (\<lambda>s. (s, s)) (remdups (map fst pairs))"

fun map_losers :: "(ustr \<times> ustr) list \<Rightarrow> (ustr, ustr) odict \<Rightarrow> (ustr, ustr) odict option" where
  "map_losers [] m = Some m"
| "map_losers ((s, d) # pairs) m = (if map_of m d = None then map_losers pairs ((d, s) # m) else None)"

definition duplicate_map :: "(ustr \<times> ustr) list \<Rightarrow> (ustr, ustr) odict option" where
  "duplicate_map pairs = map_losers pairs (map_survivors pairs)"

definition collapses :: "(ustr, ustr) odict \<Rightarrow> nat \<Rightarrow> nat \<Rightarrow> ref_row \<Rightarrow> bool" where
  "collapses m i j r =
     (case (ref_ends r ! i, ref_ends r ! j) of
        (Some a, Some b) \<Rightarrow> a \<noteq> b \<and> map_of m a \<noteq> None \<and> map_of m b \<noteq> None \<and> map_of m a = map_of m b
      | _ \<Rightarrow> False)"

definition column_pairs :: "nat \<Rightarrow> (nat \<times> nat) list" where
  "column_pairs n = concat (map (\<lambda>i. map (\<lambda>j. (i, j)) [Suc i..<n]) [0..<n])"

definition drop_edges :: "(ustr, ustr) odict \<Rightarrow> ref_table \<Rightarrow> ref_table" where
  "drop_edges m t =
     fold (\<lambda>(i, j) t. t\<lparr>ref_rows := filter (\<lambda>r. \<not> collapses m i j r) (ref_rows t)\<rparr>)
       (column_pairs (length (fk_actions t))) t"

text \<open>
  \<open>UPDATE OR IGNORE t SET c = new WHERE c = old\<close>: a row whose new key another row has
  keeps its old value. A key with a NULL in it equals no other.
\<close>

definition clashes :: "nat list option \<Rightarrow> ref_row \<Rightarrow> ref_row \<Rightarrow> bool" where
  "clashes cols r s =
     (case cols of
        None \<Rightarrow> False
      | Some cs \<Rightarrow> list_all (\<lambda>c. ref_ends r ! c \<noteq> None) cs \<and>
                  map ((!) (ref_ends r)) cs = map ((!) (ref_ends s)) cs \<and> ref_rest r = ref_rest s)"

definition set_end :: "nat \<Rightarrow> ustr \<Rightarrow> ref_row \<Rightarrow> ref_row" where
  "set_end c x r = r\<lparr>ref_ends := (ref_ends r)[c := Some x]\<rparr>"

fun update_or_ignore ::
  "nat list option \<Rightarrow> nat \<Rightarrow> ustr \<Rightarrow> ustr \<Rightarrow> ref_row list \<Rightarrow> ref_row list \<Rightarrow> ref_row list" where
  "update_or_ignore cols c new old seen [] = seen"
| "update_or_ignore cols c new old seen (r # rs) =
     (if ref_ends r ! c = Some old \<and> \<not> list_ex (clashes cols (set_end c new r)) (seen @ rs)
      then update_or_ignore cols c new old (seen @ [set_end c new r]) rs
      else update_or_ignore cols c new old (seen @ [r]) rs)"

definition remap_column :: "ustr \<times> ustr \<Rightarrow> nat \<Rightarrow> ref_table \<Rightarrow> ref_table" where
  "remap_column pair c t =
     t\<lparr>ref_rows := update_or_ignore (key_cols t) c (fst pair) (snd pair) [] (ref_rows t)\<rparr>"

definition remap_table :: "ustr \<times> ustr \<Rightarrow> ref_table \<Rightarrow> ref_table" where
  "remap_table pair t = fold (remap_column pair) [0..<length (fk_actions t)] t"

definition remap_chunk_references :: "(ustr \<times> ustr) list \<Rightarrow> ref_table list \<Rightarrow> ref_table list option" where
  "remap_chunk_references pairs tabs =
     (case duplicate_map pairs of
        None \<Rightarrow> None
      | Some m \<Rightarrow> Some (fold (\<lambda>pair. map (remap_table pair)) pairs (map (drop_edges m) tabs)))"

text \<open>Deleting chunks: what the foreign keys do, and the sidecar rows first.\<close>

definition end_gone :: "ustr set \<Rightarrow> ustr option \<Rightarrow> bool" where
  "end_gone ids e = (case e of None \<Rightarrow> False | Some x \<Rightarrow> x \<in> ids)"

definition cascaded :: "ustr set \<Rightarrow> fk_action list \<Rightarrow> ref_row \<Rightarrow> bool" where
  "cascaded ids acts r = list_ex (\<lambda>(a, e). a = Cascade \<and> end_gone ids e) (zip acts (ref_ends r))"

definition nulled :: "ustr set \<Rightarrow> ref_row \<Rightarrow> ref_row" where
  "nulled ids r = r\<lparr>ref_ends := map (\<lambda>e. if end_gone ids e then None else e) (ref_ends r)\<rparr>"

definition chunks_gone :: "ustr set \<Rightarrow> ref_table \<Rightarrow> ref_table" where
  "chunks_gone ids t =
     t\<lparr>ref_rows := map (nulled ids) (filter (\<lambda>r. \<not> cascaded ids (fk_actions t) r) (ref_rows t))\<rparr>"

definition delete_batch :: "ustr list \<Rightarrow> nat list \<Rightarrow> ns_tables \<Rightarrow> ns_tables" where
  "delete_batch ids rowids t =
     t\<lparr>fts_rowids := filter (\<lambda>n. n \<notin> set rowids) (fts_rowids t),
       vec_rowids := map_option (filter (\<lambda>n. n \<notin> set rowids)) (vec_rowids t),
       ns_chunks := filter (\<lambda>r. row_id r \<notin> set ids) (ns_chunks t),
       ns_refs := map (chunks_gone (set ids)) (ns_refs t)\<rparr>"

definition DELETE_BATCH :: nat where "DELETE_BATCH = 500"

function delete_chunk_rows :: "ustr list \<Rightarrow> nat list \<Rightarrow> ns_tables \<Rightarrow> ns_tables" where
  "delete_chunk_rows ids rowids t =
     (if ids = [] then t
      else delete_chunk_rows (drop DELETE_BATCH ids) (drop DELETE_BATCH rowids)
             (delete_batch (take DELETE_BATCH ids) (take DELETE_BATCH rowids) t))"
  by pat_completeness auto
termination
  by (relation "measure (\<lambda>(ids, _, _). length ids)") (auto simp: DELETE_BATCH_def)

declare delete_chunk_rows.simps [simp del]

definition drop_duplicate_plans :: "duplicate_plan list \<Rightarrow> ns_tables \<Rightarrow> (nat \<times> ns_tables) option" where
  "drop_duplicate_plans plans t =
     (let gone = concat (map losers plans) in
      if gone = [] then Some (0, t)
      else case remap_chunk_references (plan_pairs plans) (ns_refs t) of
             None \<Rightarrow> None
           | Some refs \<Rightarrow>
               Some (length gone, delete_chunk_rows (map fst gone) (map snd gone) (t\<lparr>ns_refs := refs\<rparr>)))"

section \<open>Candidates frozen by the caller\<close>

definition matches_candidate :: "ns_candidate \<Rightarrow> ns_row \<Rightarrow> bool" where
  "matches_candidate c r \<longleftrightarrow> cand_id c = row_id r \<and> cand_source c = row_file r \<and> cand_ns c = row_ns r"

definition frozen :: "ns_candidate list option \<Rightarrow> ns_row \<Rightarrow> bool" where
  "frozen cands r = (case cands of None \<Rightarrow> True | Some cs \<Rightarrow> list_ex (\<lambda>c. matches_candidate c r) cs)"

definition stage_candidates ::
  "ns_candidate list option \<Rightarrow> (ns_row \<Rightarrow> bool) \<Rightarrow> ns_tables \<Rightarrow> (ns_error, unit) result" where
  "stage_candidates cands expected t =
     (case cands of
        None \<Rightarrow> Inr ()
      | Some cs \<Rightarrow>
          let matched = sum_list (map (\<lambda>c. length (filter (matches_candidate c) (ns_chunks t))) cs) in
          if \<not> distinct (map cand_id cs) then Inl NsFailed
          else if matched = length cs \<and> length (filter expected (ns_chunks t)) = length cs then Inr ()
          else Inl NsBusy)"

section \<open>The writers\<close>

text \<open>The unique index of \<open>chunks\<close>; moving rows fails when two of them meet on it.\<close>

definition content_key :: "ns_row \<Rightarrow> ustr \<times> ustr \<times> int" where
  "content_key r = (row_file r, row_hash r, row_line r)"

definition index_key :: "ns_row \<Rightarrow> ustr \<times> ustr \<times> ustr \<times> int" where
  "index_key r = (row_ns r, content_key r)"

definition move_chunks :: "(ns_row \<Rightarrow> bool) \<Rightarrow> ustr \<Rightarrow> ns_tables \<Rightarrow> (nat \<times> ns_tables) option" where
  "move_chunks sel new t =
     (let rows = map (\<lambda>r. if sel r then r\<lparr>row_ns := new\<rparr> else r) (ns_chunks t) in
      if distinct (map index_key rows)
      then Some (length (filter sel (ns_chunks t)), t\<lparr>ns_chunks := rows\<rparr>) else None)"

record rename_result =
  rn_moved :: nat
  rn_metadata :: bool
  rn_merged :: bool
  rn_dropped :: nat

text \<open>The source chunks that the target holds already; the target's smallest id survives.\<close>

definition twins :: "ustr \<Rightarrow> ns_row \<Rightarrow> ns_tables \<Rightarrow> ustr list" where
  "twins new c t = map row_id (filter (\<lambda>r. row_ns r = new \<and> content_key r = content_key c) (ns_chunks t))"

definition rename_plans :: "(ns_row \<Rightarrow> bool) \<Rightarrow> ustr \<Rightarrow> ustr \<Rightarrow> ns_tables \<Rightarrow> duplicate_plan list" where
  "rename_plans scoped old new t =
     map (\<lambda>c. \<lparr>survivor_id = Min (set (twins new c t)), losers = [(row_id c, row_no c)]\<rparr>)
       (filter (\<lambda>c. twins new c t \<noteq> [])
         (sort_key row_id (filter (\<lambda>c. row_ns c = old \<and> scoped c) (ns_chunks t))))"

text \<open>
  The metadata of a rename: an existing target row wins and the source row goes, otherwise
  the source row takes the new name, which fails when its key is taken.
\<close>

definition rename_metadata :: "ustr \<Rightarrow> ustr \<Rightarrow> ustr \<Rightarrow> bool \<Rightarrow> ns_tables \<Rightarrow> (bool \<times> ns_tables) option" where
  "rename_metadata old new now target_meta t =
     (if target_meta then
        Some (False, t\<lparr>ns_metas := filter (\<lambda>m. meta_ns m \<noteq> old)
          (map (\<lambda>m. if meta_ns m = new then m\<lparr>meta_updated := now\<rparr> else m) (ns_metas t))\<rparr>)
      else
        let metas = map (\<lambda>m. if meta_ns m = old then m\<lparr>meta_ns := new, meta_updated := now\<rparr> else m) (ns_metas t) in
        if distinct (map meta_ns metas) then Some (has_namespace_meta old t, t\<lparr>ns_metas := metas\<rparr>) else None)"

definition rename_sessions :: "ustr \<Rightarrow> ustr \<Rightarrow> ns_tables \<Rightarrow> ns_tables" where
  "rename_sessions old new t =
     t\<lparr>ns_sessions := map (\<lambda>s. if sess_ns s = old then s\<lparr>sess_ns := new\<rparr> else s) (ns_sessions t)\<rparr>"

definition rename_tables ::
  "ustr \<Rightarrow> ustr \<Rightarrow> bool \<Rightarrow> ns_candidate list option \<Rightarrow> ustr \<Rightarrow> ns_tables \<Rightarrow>
   (ns_error \<times> ns_tables, rename_result \<times> ns_tables) result" where
  "rename_tables old new merge cands now t =
     bind_res (map_sum (\<lambda>e. (e, t)) id (stage_candidates cands (\<lambda>r. row_ns r = old) t)) (\<lambda>_.
       if \<not> namespace_exists old t then
         Inr (\<lparr>rn_moved = 0, rn_metadata = False, rn_merged = False, rn_dropped = 0\<rparr>, t)
       else
         let target_meta = has_namespace_meta new t;
             merged = (0 < count_chunks_by_namespace new t \<or> target_meta) in
         if merged \<and> \<not> merge then Inl (TargetExists, t)
         else
           case (if merged then drop_duplicate_plans (rename_plans (frozen cands) old new t) t else Some (0, t)) of
             None \<Rightarrow> Inl (NsFailed, t)
           | Some (dropped, t1) \<Rightarrow>
               (case move_chunks (\<lambda>r. row_ns r = old \<and> frozen cands r) new t1 of
                  None \<Rightarrow> Inl (NsFailed, t1)
                | Some (moved, t2) \<Rightarrow>
                    (case rename_metadata old new now target_meta (rename_sessions old new t2) of
                       None \<Rightarrow> Inl (NsFailed, rename_sessions old new t2)
                     | Some (renamed, t3) \<Rightarrow>
                         Inr (\<lparr>rn_moved = moved, rn_metadata = renamed, rn_merged = merged,
                               rn_dropped = dropped\<rparr>, t3))))"

definition rename_namespace ::
  "(nat \<Rightarrow> bool) \<Rightarrow> ustr \<Rightarrow> ustr \<Rightarrow> bool \<Rightarrow> ns_candidate list option \<Rightarrow> ustr \<Rightarrow> ns_db \<Rightarrow>
   (ns_error, rename_result) result \<times> ns_db" where
  "rename_namespace word old new merge cands now db =
     (case ensure_valid_namespace word new of
        Inl e \<Rightarrow> (Inl e, db)
      | Inr _ \<Rightarrow> if old = new then (Inl SameName, db) else write_op (rename_tables old new merge cands now) db)"

text \<open>
  The rows that would meet after an assignment, ranked per content: a row of the target
  first, then the most used, the oldest, the smallest id.
\<close>

definition assign_rank :: "bool \<times> ns_row \<Rightarrow> bool \<times> int \<times> ustr \<times> ustr" where
  "assign_rank p =
     (\<not> fst p, - (row_accesses (snd p) + row_uses (snd p)), row_born (snd p), row_id (snd p))"

definition assign_pool :: "ustr \<Rightarrow> ns_row list \<Rightarrow> ns_tables \<Rightarrow> ustr \<times> ustr \<times> int \<Rightarrow> (bool \<times> ns_row) list" where
  "assign_pool target picked t k =
     map (Pair True) (filter (\<lambda>r. row_ns r = target \<and> content_key r = k) (ns_chunks t)) @
     map (Pair False) (filter (\<lambda>r. content_key r = k) picked)"

definition assign_ranked :: "ustr \<Rightarrow> ns_row list \<Rightarrow> ns_tables \<Rightarrow> ustr \<times> ustr \<times> int \<Rightarrow> (bool \<times> ns_row) list" where
  "assign_ranked target picked t k = sort_key assign_rank (assign_pool target picked t k)"

definition assign_plan :: "(bool \<times> ns_row) list \<Rightarrow> duplicate_plan" where
  "assign_plan ranked =
     \<lparr>survivor_id = row_id (snd (hd ranked)),
      losers = map (\<lambda>p. (row_id (snd p), row_no (snd p))) (filter (\<lambda>p. \<not> fst p) (tl ranked))\<rparr>"

definition find_assign_duplicate_plans :: "ustr \<Rightarrow> (ns_row \<Rightarrow> bool) \<Rightarrow> ns_tables \<Rightarrow> duplicate_plan list" where
  "find_assign_duplicate_plans target sel t =
     (let picked = filter (\<lambda>r. sel r \<and> row_ns r \<noteq> target) (ns_chunks t) in
      filter (\<lambda>p. losers p \<noteq> [])
        (map (\<lambda>k. assign_plan (assign_ranked target picked t k)) (distinct_sorted (map content_key picked))))"

record assign_result =
  as_moved :: nat
  as_dropped :: nat

definition assign_tables ::
  "ustr \<Rightarrow> ustr option \<Rightarrow> ustr option \<Rightarrow> bool \<Rightarrow> ns_candidate list option \<Rightarrow> ns_tables \<Rightarrow>
   (ns_error \<times> ns_tables, assign_result \<times> ns_tables) result" where
  "assign_tables target src old merge cands t =
     (let chosen = (\<lambda>r. row_selected src old r \<and> row_ns r \<noteq> target) in
      bind_res (map_sum (\<lambda>e. (e, t)) id (stage_candidates cands chosen t)) (\<lambda>_.
        let plans = find_assign_duplicate_plans target
                      (if cands = None then row_selected src old else frozen cands) t;
            overlap = sum_list (map (\<lambda>p. length (losers p)) plans) in
        if 0 < overlap \<and> \<not> merge then Inl (ChunkOverlap, t)
        else
          case (if 0 < overlap then drop_duplicate_plans plans t else Some (0, t)) of
            None \<Rightarrow> Inl (NsFailed, t)
          | Some (dropped, t1) \<Rightarrow>
              (case move_chunks (if cands = None then chosen else frozen cands) target t1 of
                 None \<Rightarrow> Inl (NsFailed, t1)
               | Some (moved, t2) \<Rightarrow> Inr (\<lparr>as_moved = moved, as_dropped = dropped\<rparr>, t2))))"

definition assign_namespace ::
  "(nat \<Rightarrow> bool) \<Rightarrow> ustr \<Rightarrow> ustr option \<Rightarrow> ustr option \<Rightarrow> bool \<Rightarrow> ns_candidate list option \<Rightarrow> ns_db \<Rightarrow>
   (ns_error, assign_result) result \<times> ns_db" where
  "assign_namespace word target src old merge cands db =
     (case ensure_valid_namespace word target of
        Inl e \<Rightarrow> (Inl e, db)
      | Inr _ \<Rightarrow>
          if given_text src = None \<and> given_text old = None then (Inl MissingFilter, db)
          else write_op (assign_tables target src old merge cands) db)"

definition delete_tables :: "ustr \<Rightarrow> ns_tables \<Rightarrow> (ns_error \<times> ns_tables, nat \<times> ns_tables) result" where
  "delete_tables n t =
     (let rows = rows_in n t;
          t1 = (if rows = [] then t else delete_chunk_rows (map row_id rows) (map row_no rows) t) in
      Inr (length rows, t1\<lparr>ns_metas := filter (\<lambda>m. meta_ns m \<noteq> n) (ns_metas t1)\<rparr>))"

definition delete_by_namespace :: "ustr \<Rightarrow> ns_db \<Rightarrow> (ns_error, nat) result \<times> ns_db" where
  "delete_by_namespace n db = write_op (delete_tables n) db"

definition blank_meta :: "ustr \<Rightarrow> ustr option \<Rightarrow> ustr option \<Rightarrow> ustr \<Rightarrow> ns_meta" where
  "blank_meta n desc color now =
     \<lparr>meta_ns = n, meta_description = (case desc of None \<Rightarrow> [] | Some d \<Rightarrow> d),
      meta_color = (case color of None \<Rightarrow> [] | Some c \<Rightarrow> c), meta_created = now, meta_updated = now\<rparr>"

definition update_meta :: "ustr option \<Rightarrow> ustr option \<Rightarrow> ustr \<Rightarrow> ns_meta \<Rightarrow> ns_meta" where
  "update_meta desc color now m =
     (if desc = None \<and> color = None then m
      else m\<lparr>meta_description := (case desc of None \<Rightarrow> meta_description m | Some d \<Rightarrow> d),
             meta_color := (case color of None \<Rightarrow> meta_color m | Some c \<Rightarrow> c), meta_updated := now\<rparr>)"

definition meta_tables ::
  "ustr \<Rightarrow> ustr option \<Rightarrow> ustr option \<Rightarrow> ustr \<Rightarrow> ns_tables \<Rightarrow> (ns_error \<times> ns_tables, unit \<times> ns_tables) result" where
  "meta_tables n desc color now t =
     (let metas = (if has_namespace_meta n t then ns_metas t else ns_metas t @ [blank_meta n desc color now]) in
      Inr ((), t\<lparr>ns_metas := map (\<lambda>m. if meta_ns m = n then update_meta desc color now m else m) metas\<rparr>))"

definition set_namespace_meta ::
  "(nat \<Rightarrow> bool) \<Rightarrow> ustr \<Rightarrow> ustr option \<Rightarrow> ustr option \<Rightarrow> ustr \<Rightarrow> ns_db \<Rightarrow> (ns_error, unit) result \<times> ns_db" where
  "set_namespace_meta word n desc color now db =
     (case ensure_valid_namespace word n of
        Inl e \<Rightarrow> (Inl e, db)
      | Inr _ \<Rightarrow>
          (case validate_namespace_color color of
             Inl e \<Rightarrow> (Inl e, db)
           | Inr _ \<Rightarrow> write_op (meta_tables n desc color now) db))"

section \<open>Well-formed tables\<close>

text \<open>The columns that tell two rows of a table apart: its unique key, or all of them.\<close>

definition telling :: "ref_table \<Rightarrow> nat list" where
  "telling t = (case key_cols t of None \<Rightarrow> [0..<length (fk_actions t)] | Some cs \<Rightarrow> cs)"

definition ends_in :: "ustr set \<Rightarrow> ref_row \<Rightarrow> bool" where
  "ends_in ids r \<longleftrightarrow> list_all (\<lambda>e. case e of None \<Rightarrow> True | Some x \<Rightarrow> x \<in> ids) (ref_ends r)"

lemma ends_in_iff: "ends_in ids r \<longleftrightarrow> (\<forall>x. Some x \<in> set (ref_ends r) \<longrightarrow> x \<in> ids)"
  by (auto simp: ends_in_def list_all_iff split: option.splits)

definition unique_rows :: "nat list option \<Rightarrow> ref_row list \<Rightarrow> bool" where
  "unique_rows cols rows \<longleftrightarrow> sorted_wrt (\<lambda>r s. \<not> clashes cols r s) rows"

text \<open>
  Every column that takes its row along is part of the key, every end points at a chunk,
  and no two rows have one key.
\<close>

definition ref_table_ok :: "ustr set \<Rightarrow> ref_table \<Rightarrow> bool" where
  "ref_table_ok ids t \<longleftrightarrow>
     list_all (\<lambda>r. length (ref_ends r) = length (fk_actions t) \<and> ends_in ids r) (ref_rows t) \<and>
     list_all (\<lambda>c. c < length (fk_actions t)) (telling t) \<and>
     list_all (\<lambda>c. fk_actions t ! c = Cascade \<longrightarrow> c \<in> set (telling t)) [0..<length (fk_actions t)] \<and>
     unique_rows (key_cols t) (ref_rows t)"

abbreviation chunk_ids :: "ns_tables \<Rightarrow> ustr set" where
  "chunk_ids t \<equiv> row_id ` set (ns_chunks t)"

definition sidecars_ok :: "ns_tables \<Rightarrow> bool" where
  "sidecars_ok t \<longleftrightarrow>
     set (fts_rowids t) \<subseteq> row_no ` set (ns_chunks t) \<and>
     (case vec_rowids t of None \<Rightarrow> True | Some vs \<Rightarrow> set vs \<subseteq> row_no ` set (ns_chunks t))"

definition ns_ok :: "ns_tables \<Rightarrow> bool" where
  "ns_ok t \<longleftrightarrow>
     distinct (map row_id (ns_chunks t)) \<and> distinct (map row_no (ns_chunks t)) \<and>
     distinct (map index_key (ns_chunks t)) \<and> sidecars_ok t \<and>
     distinct (map meta_ns (ns_metas t)) \<and> list_all (ref_table_ok (chunk_ids t)) (ns_refs t)"

section \<open>Deleting in batches\<close>

lemma end_gone_simps [simp]: "end_gone ids None = False" "end_gone ids (Some x) = (x \<in> ids)" "end_gone {} e = False"
  by (auto simp: end_gone_def split: option.splits)

lemma end_gone_Un: "end_gone (a \<union> b) e \<longleftrightarrow> end_gone a e \<or> end_gone b e"
  by (cases e) simp_all

lemma nulled_nothing [simp]: "nulled {} r = r"
  by (simp add: nulled_def)

lemma chunks_gone_nothing [simp]: "chunks_gone {} t = t"
  by (simp add: chunks_gone_def cascaded_def list_ex_iff split_beta map_idI)

lemma nulled_simps [simp]:
  "ref_rest (nulled ids r) = ref_rest r"
  "length (ref_ends (nulled ids r)) = length (ref_ends r)"
  "c < length (ref_ends r) \<Longrightarrow> ref_ends (nulled ids r) ! c = (if end_gone ids (ref_ends r ! c) then None else ref_ends r ! c)"
  by (simp_all add: nulled_def)

lemma cascaded_nulled:
  "\<not> cascaded ids acts r \<Longrightarrow> cascaded ids2 acts (nulled ids r) = cascaded ids2 acts r"
  by (auto simp: cascaded_def nulled_def list_ex_iff zip_map2 split_beta split: if_splits)

lemma chunks_gone_twice: "chunks_gone ids2 (chunks_gone ids t) = chunks_gone (ids \<union> ids2) t"
proof -
  have "nulled ids2 (nulled ids r) = nulled (ids \<union> ids2) r" for r
    by (auto simp: nulled_def end_gone_def split: option.splits)
  moreover have "cascaded (ids \<union> ids2) acts r \<longleftrightarrow> cascaded ids acts r \<or> cascaded ids2 acts r" for acts r
    by (auto simp: cascaded_def list_ex_iff end_gone_Un)
  moreover have "filter (\<lambda>r. \<not> cascaded ids acts r \<and> \<not> cascaded ids2 acts (nulled ids r)) rows =
      filter (\<lambda>r. \<not> cascaded ids acts r \<and> \<not> cascaded ids2 acts r) rows" for acts rows
    by (rule filter_cong) (auto simp: cascaded_nulled)
  ultimately show ?thesis
    by (simp add: chunks_gone_def filter_map comp_def)
qed

lemma delete_batch_twice:
  "delete_batch ids2 nos2 (delete_batch ids1 nos1 t) = delete_batch (ids1 @ ids2) (nos1 @ nos2) t"
  by (auto simp: delete_batch_def chunks_gone_twice comp_def option.map_comp intro!: filter_cong map_cong)

lemma delete_batch_nothing [simp]: "delete_batch [] [] t = t"
proof -
  have "map_option (filter (\<lambda>n. n \<notin> set [])) (vec_rowids t) = vec_rowids t"
    by (cases "vec_rowids t") auto
  then show ?thesis by (simp add: delete_batch_def map_idI)
qed

text \<open>The batches delete what one statement would.\<close>

lemma delete_chunk_rows_all:
  "length ids = length nos \<Longrightarrow> delete_chunk_rows ids nos t = delete_batch ids nos t"
proof (induction ids nos t rule: delete_chunk_rows.induct)
  case (1 ids nos t)
  show ?case
  proof (cases "ids = []")
    case True
    with 1 show ?thesis by (simp add: delete_chunk_rows.simps)
  next
    case False
    with 1 show ?thesis
      by (simp add: delete_chunk_rows.simps[of ids] delete_batch_twice)
  qed
qed

section \<open>References follow the survivor\<close>

text \<open>Row \<open>s\<close> says of the images under \<open>g\<close> what row \<open>r\<close> said.\<close>

definition covers_row :: "nat list \<Rightarrow> (nat \<Rightarrow> ustr option \<Rightarrow> ustr option) \<Rightarrow> ref_row \<Rightarrow> ref_row \<Rightarrow> bool" where
  "covers_row cs g r s \<longleftrightarrow> ref_rest s = ref_rest r \<and> (\<forall>c \<in> set cs. ref_ends s ! c = g c (ref_ends r ! c))"

definition step_sub :: "nat \<Rightarrow> ustr \<Rightarrow> ustr \<Rightarrow> nat \<Rightarrow> ustr option \<Rightarrow> ustr option" where
  "step_sub c new old c' e = (if c' = c \<and> e = Some old then Some new else e)"

lemma covers_trans: "covers_row cs g r s \<Longrightarrow> covers_row cs h s u \<Longrightarrow> covers_row cs (\<lambda>c e. h c (g c e)) r u"
  by (simp add: covers_row_def)

lemma update_seen: "set seen \<subseteq> set (update_or_ignore cols c new old seen rs)"
  by (induction cols c new old seen rs rule: update_or_ignore.induct) auto

lemma update_same:
  "x \<in> set rs \<Longrightarrow> ref_ends x ! c \<noteq> Some old \<Longrightarrow> x \<in> set (update_or_ignore cols c new old seen rs)"
proof (induction cols c new old seen rs rule: update_or_ignore.induct)
  case (2 cols c new old seen r rs)
  then show ?case using update_seen[of "seen @ [r]" cols c new old rs] by auto
qed simp

lemma set_end_simps [simp]:
  "ref_rest (set_end c x r) = ref_rest r"
  "length (ref_ends (set_end c x r)) = length (ref_ends r)"
  "c < length (ref_ends r) \<Longrightarrow> ref_ends (set_end c x r) ! c' = (if c' = c then Some x else ref_ends r ! c')"
  by (auto simp: set_end_def)

lemma update_covers:
  assumes "x \<in> set rs" "c < length (ref_ends x)" "new \<noteq> old"
  shows "\<exists>s \<in> set (update_or_ignore cols c new old seen rs).
           covers_row (case cols of None \<Rightarrow> [0..<length (ref_ends x)] | Some cs \<Rightarrow> cs) (step_sub c new old) x s"
  using assms
proof (induction cols c new old seen rs rule: update_or_ignore.induct)
  case (2 cols c new old seen r rs)
  show ?case
  proof (cases "x = r \<and> ref_ends r ! c = Some old")
    case False
    show ?thesis
    proof (cases "x \<in> set rs")
      case True
      with "2.prems" "2.IH" show ?thesis by simp
    next
      case out: False
      with False "2.prems" have "x = r" "ref_ends r ! c \<noteq> Some old" by auto
      moreover from this have "r \<in> set (update_or_ignore cols c new old seen (r # rs))"
        by (intro update_same) auto
      ultimately show ?thesis
        by (intro bexI[of _ r]) (auto simp: covers_row_def step_sub_def)
    qed
  next
    case True
    let ?cs = "case cols of None \<Rightarrow> [0..<length (ref_ends x)] | Some cs \<Rightarrow> cs"
    show ?thesis
    proof (cases "list_ex (clashes cols (set_end c new r)) (seen @ rs)")
      case clash: False
      have "covers_row ?cs (step_sub c new old) x (set_end c new r)"
        using True "2.prems" by (auto simp: covers_row_def step_sub_def)
      moreover have "set_end c new r \<in> set (update_or_ignore cols c new old (seen @ [set_end c new r]) rs)"
        using update_seen[of "seen @ [set_end c new r]" cols c new old rs] by auto
      ultimately show ?thesis using True clash by auto
    next
      case clash: True
      then obtain u where u: "u \<in> set (seen @ rs)" "clashes cols (set_end c new r) u"
        by (auto simp: list_ex_iff)
      then obtain cs where cs: "cols = Some cs" by (auto simp: clashes_def split: option.splits)
      show ?thesis
      proof (cases "c \<in> set cs")
        case False
        then have "covers_row ?cs (step_sub c new old) x r"
          using True cs by (auto simp: covers_row_def step_sub_def)
        then show ?thesis
          using clash update_seen[of "seen @ [r]" cols c new old rs] by auto
      next
        case c: True
        have eq: "ref_ends u ! c' = ref_ends (set_end c new r) ! c'" if "c' \<in> set cs" for c'
          using u(2) that cs by (auto simp: clashes_def)
        have "ref_ends u ! c \<noteq> Some old"
          using eq[OF c] "2.prems" True by auto
        then have "u \<in> set (update_or_ignore cols c new old (seen @ [r]) rs)"
          using u(1) update_same[of u rs c old cols new "seen @ [r]"] update_seen[of "seen @ [r]" cols c new old rs]
          by auto
        moreover have "covers_row ?cs (step_sub c new old) x u"
          using eq u(2) True "2.prems" cs by (auto simp: covers_row_def step_sub_def clashes_def)
        ultimately show ?thesis using clash by auto
      qed
    qed
  qed
qed simp

lemma update_all:
  assumes "\<And>r. P r \<Longrightarrow> P (set_end c new r)" "list_all P (seen @ rs)"
  shows "list_all P (update_or_ignore cols c new old seen rs)"
  using assms by (induction cols c new old seen rs rule: update_or_ignore.induct) auto

lemma clashes_sym: "clashes cols r s \<longleftrightarrow> clashes cols s r"
  by (auto simp: clashes_def list_all_iff split: option.splits)

lemma update_unique:
  "unique_rows cols (seen @ rs) \<Longrightarrow> unique_rows cols (update_or_ignore cols c new old seen rs)"
proof (induction cols c new old seen rs rule: update_or_ignore.induct)
  case (2 cols c new old seen r rs)
  then show ?case
    using clashes_sym[of cols "set_end c new r"] by (auto simp: unique_rows_def sorted_wrt_append list_ex_iff)
qed simp

text \<open>A table as wide as its foreign keys.\<close>

definition wide :: "ref_table \<Rightarrow> bool" where
  "wide t \<longleftrightarrow> list_all (\<lambda>r. length (ref_ends r) = length (fk_actions t)) (ref_rows t)"

definition same_shape :: "ref_table \<Rightarrow> ref_table \<Rightarrow> bool" where
  "same_shape t u \<longleftrightarrow> fk_actions u = fk_actions t \<and> key_cols u = key_cols t"

lemma same_shape_telling: "same_shape t u \<Longrightarrow> telling u = telling t"
  by (auto simp: same_shape_def telling_def split: option.splits)

lemma remap_column_shape [simp]:
  "fk_actions (remap_column pair c t) = fk_actions t"
  "key_cols (remap_column pair c t) = key_cols t"
  by (simp_all add: remap_column_def)

lemma remap_column_wide: "wide t \<Longrightarrow> wide (remap_column pair c t)"
  by (auto simp: wide_def remap_column_def intro!: update_all[where seen = "[]"])

definition sub_end :: "ustr \<times> ustr \<Rightarrow> ustr option \<Rightarrow> ustr option" where
  "sub_end pair e = (if e = Some (snd pair) then Some (fst pair) else e)"

lemma remap_columns_covers:
  assumes "wide t" "fst pair \<noteq> snd pair" "set cs \<subseteq> {..<length (fk_actions t)}" "r \<in> set (ref_rows t)"
  shows "\<exists>s \<in> set (ref_rows (fold (remap_column pair) cs t)).
           covers_row (telling t) (\<lambda>c e. if c \<in> set cs then sub_end pair e else e) r s"
  using assms
proof (induction cs arbitrary: t r)
  case Nil
  then show ?case by (auto simp: covers_row_def)
next
  case (Cons c cs)
  have w: "length (ref_ends r) = length (fk_actions t)"
    using Cons.prems(1,4) by (auto simp: wide_def list_all_iff)
  obtain u where u: "u \<in> set (ref_rows (remap_column pair c t))"
      "covers_row (telling t) (step_sub c (fst pair) (snd pair)) r u"
    using update_covers[of r "ref_rows t" c "fst pair" "snd pair" "key_cols t" "[]", unfolded w] Cons.prems
    by (auto simp: remap_column_def telling_def)
  obtain s where s: "s \<in> set (ref_rows (fold (remap_column pair) cs (remap_column pair c t)))"
      "covers_row (telling t) (\<lambda>c e. if c \<in> set cs then sub_end pair e else e) u s"
    using Cons.IH[of "remap_column pair c t" u] Cons.prems u(1) remap_column_wide[OF Cons.prems(1)]
      same_shape_telling[of t "remap_column pair c t"]
    by (auto simp: same_shape_def)
  have "covers_row (telling t) (\<lambda>c' e. if c' \<in> set (c # cs) then sub_end pair e else e) r s"
    using covers_trans[OF u(2) s(2)] Cons.prems(2)
    by (auto simp: covers_row_def step_sub_def sub_end_def)
  with s(1) show ?case by auto
qed

lemma fold_shape:
  assumes "\<And>x t. same_shape t (f x t)"
  shows "same_shape t (fold f xs t)"
  using assms by (induction xs arbitrary: t) (auto simp: same_shape_def)

lemma remap_table_shape [simp]:
  "fk_actions (remap_table pair t) = fk_actions t"
  "key_cols (remap_table pair t) = key_cols t"
  using fold_shape[of "remap_column pair" t] by (simp_all add: remap_table_def same_shape_def)

lemma fold_keeps: "(\<And>x t. P t \<Longrightarrow> P (f x t)) \<Longrightarrow> P t \<Longrightarrow> P (fold f xs t)"
  by (induction xs arbitrary: t) auto

lemma remap_table_wide: "wide t \<Longrightarrow> wide (remap_table pair t)"
  unfolding remap_table_def by (rule fold_keeps) (auto intro: remap_column_wide)

lemma remap_table_covers:
  assumes "wide t" "fst pair \<noteq> snd pair" "list_all (\<lambda>c. c < length (fk_actions t)) (telling t)"
    "r \<in> set (ref_rows t)"
  shows "\<exists>s \<in> set (ref_rows (remap_table pair t)). covers_row (telling t) (\<lambda>_. sub_end pair) r s"
proof -
  obtain s where "s \<in> set (ref_rows (remap_table pair t))"
      "covers_row (telling t) (\<lambda>c e. if c \<in> set [0..<length (fk_actions t)] then sub_end pair e else e) r s"
    using remap_columns_covers[of t pair "[0..<length (fk_actions t)]" r] assms
    by (auto simp: remap_table_def lessThan_atLeast0)
  with assms(3) show ?thesis by (auto simp: covers_row_def list_all_iff intro!: bexI[of _ s])
qed

lemma remap_tables_covers:
  assumes "wide t" "list_all (\<lambda>p. fst p \<noteq> snd p) pairs"
    "list_all (\<lambda>c. c < length (fk_actions t)) (telling t)" "r \<in> set (ref_rows t)"
  shows "\<exists>s \<in> set (ref_rows (fold remap_table pairs t)). covers_row (telling t) (\<lambda>_. fold sub_end pairs) r s"
  using assms
proof (induction pairs arbitrary: t r)
  case Nil
  then show ?case by (auto simp: covers_row_def)
next
  case (Cons p pairs)
  obtain u where u: "u \<in> set (ref_rows (remap_table p t))" "covers_row (telling t) (\<lambda>_. sub_end p) r u"
    using remap_table_covers[of t p r] Cons.prems by auto
  have same: "telling (remap_table p t) = telling t" by (rule same_shape_telling) (simp add: same_shape_def)
  obtain s where "s \<in> set (ref_rows (fold remap_table pairs (remap_table p t)))"
      "covers_row (telling t) (\<lambda>_. fold sub_end pairs) u s"
    using Cons.IH[of "remap_table p t" u] Cons.prems u(1) remap_table_wide[OF Cons.prems(1)] same by auto
  with covers_trans[OF u(2)] show ?case by (force simp: comp_def)
qed

section \<open>Plans\<close>

definition heir_of :: "(ustr \<times> ustr) list \<Rightarrow> ustr \<Rightarrow> ustr" where
  "heir_of pairs x = (case map_of (map (\<lambda>p. (snd p, fst p)) pairs) x of None \<Rightarrow> x | Some s \<Rightarrow> s)"

definition pairs_ok :: "(ustr \<times> ustr) list \<Rightarrow> bool" where
  "pairs_ok pairs \<longleftrightarrow> distinct (map snd pairs) \<and> fst ` set pairs \<inter> snd ` set pairs = {}"

lemma heir_of_simps [simp]: "x \<notin> snd ` set pairs \<Longrightarrow> heir_of pairs x = x"
proof -
  assume "x \<notin> snd ` set pairs"
  then have "map_of (map (\<lambda>p. (snd p, fst p)) pairs) x = None"
    by (force simp: map_of_eq_None_iff)
  then show ?thesis by (simp add: heir_of_def)
qed

lemma heir_of_Cons: "heir_of ((s, d) # pairs) x = (if x = d then s else heir_of pairs x)"
  by (simp add: heir_of_def)

lemma heir_of_pair: "pairs_ok pairs \<Longrightarrow> (s, d) \<in> set pairs \<Longrightarrow> heir_of pairs d = s"
  by (induction pairs) (auto simp: heir_of_Cons pairs_ok_def image_iff)

lemma heir_of_fst: "pairs_ok pairs \<Longrightarrow> s \<in> fst ` set pairs \<Longrightarrow> heir_of pairs s = s"
  by (rule heir_of_simps) (auto simp: pairs_ok_def)

lemma heir_of_range: "heir_of pairs x = x \<or> heir_of pairs x \<in> fst ` set pairs"
  by (induction pairs) (auto simp: heir_of_def)

lemma heir_not_loser: "pairs_ok pairs \<Longrightarrow> heir_of pairs x \<notin> snd ` set pairs"
proof (cases "x \<in> snd ` set pairs")
  case True
  moreover assume ok: "pairs_ok pairs"
  ultimately obtain s where "(s, x) \<in> set pairs" by auto
  then have "heir_of pairs x \<in> fst ` set pairs" using heir_of_pair[OF ok] by force
  with ok show ?thesis by (auto simp only: pairs_ok_def disjoint_iff)
qed simp

lemma fold_sub_end: "pairs_ok pairs \<Longrightarrow> fold sub_end pairs e = map_option (heir_of pairs) e"
proof (induction pairs arbitrary: e)
  case Nil
  then show ?case by (cases e) (auto simp: heir_of_def)
next
  case (Cons p pairs)
  obtain s d where p: "p = (s, d)" by (cases p)
  have ok: "pairs_ok pairs" using Cons.prems by (auto simp: pairs_ok_def)
  have "s \<notin> snd ` set pairs" using Cons.prems p by (auto simp: pairs_ok_def)
  with Cons.IH[OF ok] show ?case
    by (cases e) (auto simp: p sub_end_def heir_of_Cons)
qed

lemma map_losers_ok:
  assumes "distinct (map snd pairs)" "\<forall>d \<in> snd ` set pairs. map_of m d = None"
  shows "\<exists>m'. map_losers pairs m = Some m' \<and>
           (\<forall>x. map_of m' x = (if x \<in> snd ` set pairs then Some (heir_of pairs x) else map_of m x))"
  using assms
proof (induction pairs m rule: map_losers.induct)
  case (2 s d pairs m)
  have "\<forall>x \<in> snd ` set pairs. map_of ((d, s) # m) x = None"
    using "2.prems" by auto
  with 2 obtain m' where m': "map_losers pairs ((d, s) # m) = Some m'"
      "\<forall>x. map_of m' x = (if x \<in> snd ` set pairs then Some (heir_of pairs x) else map_of ((d, s) # m) x)"
    by auto
  with "2.prems" show ?case
    by (auto simp: heir_of_Cons image_iff)
qed simp

lemma duplicate_map_ok:
  assumes "pairs_ok pairs"
  shows "\<exists>m. duplicate_map pairs = Some m \<and>
           (\<forall>x. map_of m x = (if x \<in> fst ` set pairs \<union> snd ` set pairs then Some (heir_of pairs x) else None))"
proof -
  have surv: "map_of (map_survivors pairs) x = (if x \<in> fst ` set pairs then Some x else None)" for x
    by (auto simp: map_survivors_def map_of_map_restrict restrict_map_def comp_def)
  have "\<forall>d \<in> snd ` set pairs. map_of (map_survivors pairs) d = None"
    using assms surv by (auto simp: pairs_ok_def)
  from map_losers_ok[OF _ this] assms obtain m where m: "duplicate_map pairs = Some m"
      "\<forall>x. map_of m x = (if x \<in> snd ` set pairs then Some (heir_of pairs x) else map_of (map_survivors pairs) x)"
    by (auto simp: duplicate_map_def pairs_ok_def)
  then show ?thesis
    using surv heir_of_fst[OF assms] by auto
qed

lemma drop_edges_eq:
  "drop_edges m t = t\<lparr>ref_rows := filter (\<lambda>r. \<forall>(i, j) \<in> set (column_pairs (length (fk_actions t))). \<not> collapses m i j r) (ref_rows t)\<rparr>"
proof -
  have "fold (\<lambda>(i, j) t. t\<lparr>ref_rows := filter (\<lambda>r. \<not> collapses m i j r) (ref_rows t)\<rparr>) ps t =
      t\<lparr>ref_rows := filter (\<lambda>r. \<forall>(i, j) \<in> set ps. \<not> collapses m i j r) (ref_rows t)\<rparr>" for ps
  proof (induction ps arbitrary: t)
    case Nil
    then show ?case by simp
  next
    case (Cons p ps)
    then show ?case by (cases p) (simp add: conj_commute)
  qed
  then show ?thesis by (simp add: drop_edges_def)
qed

lemma column_pairs_range: "(i, j) \<in> set (column_pairs n) \<Longrightarrow> i < j \<and> j < n"
  by (auto simp: column_pairs_def)

lemma drop_edges_shape [simp]:
  "fk_actions (drop_edges m t) = fk_actions t" "key_cols (drop_edges m t) = key_cols t"
  by (simp_all add: drop_edges_eq)

lemma telling_cong: "key_cols u = key_cols t \<Longrightarrow> fk_actions u = fk_actions t \<Longrightarrow> telling u = telling t"
  by (rule same_shape_telling) (simp add: same_shape_def)

lemma unique_filter: "unique_rows cols rows \<Longrightarrow> unique_rows cols (filter P rows)"
  by (auto simp: unique_rows_def sorted_wrt_filter)

lemma drop_edges_ok: "ref_table_ok ids t \<Longrightarrow> ref_table_ok ids (drop_edges m t)"
  using telling_cong[of "drop_edges m t" t]
  by (auto simp: ref_table_ok_def drop_edges_eq list_all_iff unique_filter)

lemma remap_column_ok:
  assumes "ref_table_ok ids t" "fst pair \<in> ids"
  shows "ref_table_ok ids (remap_column pair c t)"
proof -
  have "list_all (\<lambda>r. length (ref_ends r) = length (fk_actions t) \<and> ends_in ids r)
      (update_or_ignore (key_cols t) c (fst pair) (snd pair) [] (ref_rows t))"
    using assms
    by (intro update_all) (auto simp: ref_table_ok_def ends_in_iff set_end_def dest!: set_update_subset_insert[THEN subsetD])
  with assms show ?thesis
    using telling_cong[of "remap_column pair c t" t]
    by (auto simp: ref_table_ok_def remap_column_def intro: update_unique)
qed

lemma remap_table_ok: "ref_table_ok ids t \<Longrightarrow> fst pair \<in> ids \<Longrightarrow> ref_table_ok ids (remap_table pair t)"
  unfolding remap_table_def by (rule fold_keeps) (auto intro: remap_column_ok)

lemma remap_tables_ok:
  "ref_table_ok ids t \<Longrightarrow> fst ` set pairs \<subseteq> ids \<Longrightarrow> ref_table_ok ids (fold remap_table pairs t)"
  by (induction pairs arbitrary: t) (auto intro: remap_table_ok)

lemma fold_map_map: "fold (\<lambda>p. map (f p)) ps xs = map (fold f ps) xs"
  by (induction ps arbitrary: xs) (auto simp: comp_def)

section \<open>Dropping the duplicates of a plan\<close>

definition all_losers :: "duplicate_plan list \<Rightarrow> (ustr \<times> nat) list" where
  "all_losers plans = concat (map losers plans)"

definition plans_ok :: "ns_tables \<Rightarrow> duplicate_plan list \<Rightarrow> bool" where
  "plans_ok t plans \<longleftrightarrow>
     pairs_ok (plan_pairs plans) \<and>
     set (all_losers plans) \<subseteq> (\<lambda>r. (row_id r, row_no r)) ` set (ns_chunks t) \<and>
     fst ` set (plan_pairs plans) \<subseteq> chunk_ids t"

lemma plan_pairs_losers: "map snd (plan_pairs plans) = map fst (all_losers plans)"
  by (simp add: plan_pairs_def all_losers_def map_concat comp_def)

lemma plan_pairs_gone: "snd ` set (plan_pairs plans) = fst ` set (all_losers plans)"
  using arg_cong[OF plan_pairs_losers, of set] by simp

lemma chunks_gone_ok:
  assumes "ref_table_ok ids t"
  shows "ref_table_ok (ids - gone) (chunks_gone gone t)"
proof -
  have tell: "telling (chunks_gone gone t) = telling t"
    by (rule telling_cong) (simp_all add: chunks_gone_def)
  have "ends_in (ids - gone) (nulled gone r)" if "r \<in> set (ref_rows t)" for r
    using assms that
    by (auto simp: ref_table_ok_def list_all_iff ends_in_iff nulled_def split: if_splits)
  moreover have "unique_rows (key_cols t) (map (nulled gone) (filter P (ref_rows t)))" for P
  proof -
    have keys: "list_all (\<lambda>c. c < length (ref_ends r)) (telling t)" if "r \<in> set (ref_rows t)" for r
      using assms that by (auto simp: ref_table_ok_def list_all_iff)
    have "clashes (key_cols t) r s"
      if "r \<in> set (ref_rows t)" "s \<in> set (ref_rows t)" "clashes (key_cols t) (nulled gone r) (nulled gone s)" for r s
      using that(3) keys[OF that(1)] keys[OF that(2)]
      by (auto simp: clashes_def telling_def list_all_iff split: option.splits if_splits)
    then show ?thesis
      using assms unfolding ref_table_ok_def unique_rows_def sorted_wrt_map
      by (auto intro!: sorted_wrt_filter elim!: sorted_wrt_mono_rel[rotated])
  qed
  ultimately show ?thesis
    using assms tell by (auto simp: ref_table_ok_def chunks_gone_def list_all_iff)
qed

text \<open>What a row says of chunks that stay, it still says.\<close>

lemma chunks_gone_covers:
  assumes ok: "ref_table_ok ids t" and r: "r \<in> set (ref_rows t)"
    and stay: "\<forall>c \<in> set (telling t). \<not> end_gone gone (ref_ends r ! c)"
  shows "\<exists>s \<in> set (ref_rows (chunks_gone gone t)). covers_row (telling t) (\<lambda>_ e. e) r s"
proof -
  have len: "length (ref_ends r) = length (fk_actions t)"
    using ok r by (auto simp: ref_table_ok_def list_all_iff)
  have "\<not> cascaded gone (fk_actions t) r"
    using ok stay len by (auto simp: cascaded_def list_ex_iff set_zip ref_table_ok_def list_all_iff)
  then have "nulled gone r \<in> set (ref_rows (chunks_gone gone t))"
    using r by (simp add: chunks_gone_def)
  moreover have "covers_row (telling t) (\<lambda>_ e. e) r (nulled gone r)"
    using ok stay len by (auto simp: covers_row_def ref_table_ok_def list_all_iff)
  ultimately show ?thesis by blast
qed

text \<open>
  Backwards: a row after the remapping comes from one before, each of its ends the image of
  that row's end, or stuck at the old chunk in a column of the key, where the row goes with it.
\<close>

definition key_set :: "nat list option \<Rightarrow> nat set" where
  "key_set cols = (case cols of None \<Rightarrow> {} | Some cs \<Rightarrow> set cs)"

definition key_goes :: "ref_table \<Rightarrow> bool" where
  "key_goes t \<longleftrightarrow> (\<forall>c \<in> key_set (key_cols t). fk_actions t ! c = Cascade)"

lemma clashes_elsewhere:
  "clashes cols (set_end c new r) u \<Longrightarrow> c \<notin> key_set cols \<Longrightarrow> clashes cols r u"
  by (auto simp: clashes_def key_set_def set_end_def list_all_iff nth_list_update_neq split: option.splits)
    (metis nth_list_update_neq)+

lemma update_from:
  assumes "s \<in> set (update_or_ignore cols c new old seen rs)" "unique_rows cols (seen @ rs)"
  shows "s \<in> set seen \<or>
    (\<exists>r \<in> set rs. ref_ends r ! c = Some old \<and> s = set_end c new r \<or>
       s = r \<and> (ref_ends r ! c = Some old \<longrightarrow> c \<in> key_set cols))"
  using assms
proof (induction cols c new old seen rs rule: update_or_ignore.induct)
  case (2 cols c new old seen r rs)
  show ?case
  proof (cases "ref_ends r ! c = Some old \<and> \<not> list_ex (clashes cols (set_end c new r)) (seen @ rs)")
    case True
    moreover have "unique_rows cols ((seen @ [set_end c new r]) @ rs)"
      using "2.prems"(2) True clashes_sym[of cols "set_end c new r"]
      by (auto simp: unique_rows_def sorted_wrt_append list_ex_iff)
    ultimately show ?thesis using "2.IH"(1) "2.prems"(1) by auto
  next
    case False
    have "c \<in> key_set cols" if old: "ref_ends r ! c = Some old"
    proof (rule ccontr)
      assume c: "c \<notin> key_set cols"
      obtain u where "u \<in> set (seen @ rs)" "clashes cols r u"
        using False old clashes_elsewhere[OF _ c] by (auto simp: list_ex_iff)
      then show False
        using "2.prems"(2) clashes_sym[of cols r] by (auto simp: unique_rows_def sorted_wrt_append)
    qed
    then show ?thesis using "2.IH"(2)[OF False] "2.prems" False by auto
  qed
qed simp

definition column_image :: "nat set \<Rightarrow> ustr \<times> ustr \<Rightarrow> nat set \<Rightarrow> ref_row \<Rightarrow> ref_row \<Rightarrow> bool" where
  "column_image keys pair cs r s \<longleftrightarrow>
     ref_rest s = ref_rest r \<and> length (ref_ends s) = length (ref_ends r) \<and>
     (\<forall>c < length (ref_ends r).
        ref_ends s ! c = (if c \<in> cs then sub_end pair (ref_ends r ! c) else ref_ends r ! c) \<or>
        c \<in> keys \<and> ref_ends r ! c = Some (snd pair) \<and> ref_ends s ! c = Some (snd pair))"

lemma sub_end_twice:
  assumes "y = (if a then sub_end p x else x) \<or> k \<and> x = Some (snd p) \<and> y = Some (snd p)"
    and "z = (if b then sub_end p y else y) \<or> k \<and> y = Some (snd p) \<and> z = Some (snd p)"
    and "fst p \<noteq> snd p"
  shows "z = (if a \<or> b then sub_end p x else x) \<or> k \<and> x = Some (snd p) \<and> z = Some (snd p)"
  using assms by (cases a; cases b) (auto simp: sub_end_def split: if_splits)

lemma column_image_trans:
  assumes r: "column_image keys pair as r u" and u: "column_image keys pair bs u s" and diff: "fst pair \<noteq> snd pair"
  shows "column_image keys pair (as \<union> bs) r s"
  unfolding column_image_def Un_iff
proof (intro conjI allI impI)
  fix c assume "c < length (ref_ends r)"
  with r u show "ref_ends s ! c = (if c \<in> as \<or> c \<in> bs then sub_end pair (ref_ends r ! c) else ref_ends r ! c) \<or>
      c \<in> keys \<and> ref_ends r ! c = Some (snd pair) \<and> ref_ends s ! c = Some (snd pair)"
    by (intro sub_end_twice[OF _ _ diff, of "ref_ends u ! c"]) (simp_all add: column_image_def)
qed (use r u in \<open>simp_all add: column_image_def\<close>)

lemma remap_columns_from:
  assumes "unique_rows (key_cols t) (ref_rows t)" "wide t" "fst pair \<noteq> snd pair"
    "set cs \<subseteq> {..<length (fk_actions t)}" "s \<in> set (ref_rows (fold (remap_column pair) cs t))"
  shows "\<exists>r \<in> set (ref_rows t). column_image (key_set (key_cols t)) pair (set cs) r s"
  using assms
proof (induction cs arbitrary: t)
  case Nil
  then show ?case by (auto simp: column_image_def)
next
  case (Cons c cs)
  let ?v = "remap_column pair c t" and ?k = "key_set (key_cols t)"
  have "unique_rows (key_cols ?v) (ref_rows ?v)"
    using update_unique[of "key_cols t" "[]" "ref_rows t"] Cons.prems(1) by (simp add: remap_column_def)
  then obtain u where u: "u \<in> set (ref_rows ?v)" "column_image ?k pair (set cs) u s"
    using Cons.IH[of ?v] Cons.prems remap_column_wide[OF Cons.prems(2)] by auto
  obtain r where r: "r \<in> set (ref_rows t)"
      "ref_ends r ! c = Some (snd pair) \<and> u = set_end c (fst pair) r \<or>
       u = r \<and> (ref_ends r ! c = Some (snd pair) \<longrightarrow> c \<in> ?k)"
    using update_from[of u "key_cols t" c "fst pair" "snd pair" "[]" "ref_rows t"] u(1) Cons.prems(1)
    by (auto simp: remap_column_def)
  have "c < length (ref_ends r)" using r(1) Cons.prems(2,4) by (auto simp: wide_def list_all_iff)
  then have "column_image ?k pair {c} r u"
    using r(2) by (auto simp: column_image_def sub_end_def)
  then have "column_image ?k pair (set (c # cs)) r s"
    using column_image_trans[OF _ u(2) Cons.prems(3), of "{c}" r] by simp
  with r(1) show ?case by blast
qed

definition tracks :: "nat set \<Rightarrow> (ustr \<times> ustr) list \<Rightarrow> ref_row \<Rightarrow> ref_row \<Rightarrow> bool" where
  "tracks keys pairs r s \<longleftrightarrow>
     ref_rest s = ref_rest r \<and> length (ref_ends s) = length (ref_ends r) \<and>
     (\<forall>c < length (ref_ends r). ref_ends s ! c = fold sub_end pairs (ref_ends r ! c) \<or>
        c \<in> keys \<and> end_gone (snd ` set pairs) (ref_ends s ! c))"

lemma fold_sub_other: "x \<notin> snd ` set pairs \<Longrightarrow> fold sub_end pairs (Some x) = Some x"
  by (induction pairs) (auto simp: sub_end_def)

lemma remap_tables_from:
  assumes "unique_rows (key_cols t) (ref_rows t)" "wide t" "list_all (\<lambda>p. fst p \<noteq> snd p) pairs"
    "distinct (map snd pairs)" "s \<in> set (ref_rows (fold remap_table pairs t))"
  shows "\<exists>r \<in> set (ref_rows t). tracks (key_set (key_cols t)) pairs r s"
  using assms
proof (induction pairs arbitrary: t)
  case Nil
  then show ?case by (auto simp: tracks_def)
next
  case (Cons p pairs)
  let ?v = "remap_table p t" and ?k = "key_set (key_cols t)"
  have "unique_rows (key_cols ?v) (ref_rows ?v)"
  proof -
    have "unique_rows (key_cols (fold (remap_column p) cs t)) (ref_rows (fold (remap_column p) cs t))" for cs
      by (rule fold_keeps) (use Cons.prems(1) in \<open>auto simp: remap_column_def intro!: update_unique\<close>)
    then show ?thesis by (simp add: remap_table_def)
  qed
  then obtain u where u: "u \<in> set (ref_rows ?v)" "tracks ?k pairs u s"
    using Cons.IH[of ?v] Cons.prems remap_table_wide[OF Cons.prems(2)] by auto
  obtain r where r: "r \<in> set (ref_rows t)" "column_image ?k p {0..<length (fk_actions t)} r u"
    using remap_columns_from[of t p "[0..<length (fk_actions t)]" u] u(1) Cons.prems
    by (auto simp: remap_table_def lessThan_atLeast0)
  have len: "length (ref_ends r) = length (fk_actions t)"
    using r(1) Cons.prems(2) by (auto simp: wide_def list_all_iff)
  have other: "fold sub_end pairs (Some (snd p)) = Some (snd p)"
    using Cons.prems(4) by (intro fold_sub_other) auto
  have "ref_ends s ! c = fold sub_end (p # pairs) (ref_ends r ! c) \<or>
      c \<in> ?k \<and> end_gone (snd ` set (p # pairs)) (ref_ends s ! c)" if c: "c < length (ref_ends r)" for c
  proof -
    have "ref_ends u ! c = sub_end p (ref_ends r ! c) \<or> c \<in> ?k \<and> ref_ends u ! c = Some (snd p)"
      using r(2) c len by (auto simp: column_image_def)
    moreover have "ref_ends s ! c = fold sub_end pairs (ref_ends u ! c) \<or>
        c \<in> ?k \<and> end_gone (snd ` set pairs) (ref_ends s ! c)"
      using u(2) r(2) c by (auto simp: tracks_def column_image_def)
    moreover have "end_gone (snd ` set pairs) (ref_ends s ! c) \<Longrightarrow> end_gone (snd ` set (p # pairs)) (ref_ends s ! c)"
      by (auto simp: end_gone_def split: option.splits)
    ultimately show ?thesis using other by auto
  qed
  then have "tracks ?k (p # pairs) r s"
    using u(2) r(2) by (simp add: tracks_def column_image_def)
  with r(1) show ?case by blast
qed

text \<open>
  The rows of \<open>u\<close> are those of \<open>t\<close> with the ends replaced by their images: no row is lost
  whose ends stay apart, as far as the key tells rows apart, and, where the columns of the
  key take their row along, every row of \<open>u\<close> is the whole image of one of \<open>t\<close>, the
  columns outside the key included.
\<close>

definition image_row :: "(ustr \<Rightarrow> ustr) \<Rightarrow> ref_row \<Rightarrow> ref_row" where
  "image_row h r = r\<lparr>ref_ends := map (map_option h) (ref_ends r)\<rparr>"

definition follows :: "(ustr \<Rightarrow> ustr) \<Rightarrow> ref_table \<Rightarrow> ref_table \<Rightarrow> bool" where
  "follows h t u \<longleftrightarrow>
     (\<forall>r \<in> set (ref_rows t). inj_on h {x. Some x \<in> set (ref_ends r)} \<longrightarrow>
        (\<exists>s \<in> set (ref_rows u). covers_row (telling t) (\<lambda>_. map_option h) r s)) \<and>
     (key_goes t \<longrightarrow> set (ref_rows u) \<subseteq> image_row h ` set (ref_rows t))"

lemma merged_rows:
  assumes ok: "ref_table_ok ids t" and pairs: "pairs_ok pairs" and goes: "key_goes t"
  shows "set (ref_rows (chunks_gone (snd ` set pairs) (fold remap_table pairs (drop_edges m t)))) \<subseteq>
    image_row (heir_of pairs) ` set (ref_rows t)"
proof
  let ?d = "drop_edges m t" and ?k = "key_set (key_cols t)" and ?lost = "snd ` set pairs"
  fix s assume "s \<in> set (ref_rows (chunks_gone ?lost (fold remap_table pairs ?d)))"
  moreover have same: "fk_actions (fold remap_table pairs ?d) = fk_actions t"
    using fold_shape[of remap_table ?d pairs] by (simp add: same_shape_def)
  ultimately obtain u where u: "u \<in> set (ref_rows (fold remap_table pairs ?d))" "s = nulled ?lost u"
      "\<not> cascaded ?lost (fk_actions t) u"
    by (auto simp: chunks_gone_def)
  have d: "ref_table_ok ids ?d" by (rule drop_edges_ok[OF ok])
  then have "wide ?d" "unique_rows (key_cols ?d) (ref_rows ?d)"
    by (auto simp: ref_table_ok_def wide_def list_all_iff)
  moreover have "list_all (\<lambda>p. fst p \<noteq> snd p) pairs" "distinct (map snd pairs)"
    using pairs by (auto simp: pairs_ok_def list_all_iff)
  ultimately obtain r where r: "r \<in> set (ref_rows ?d)" "tracks ?k pairs r u"
    using remap_tables_from[of ?d pairs u] u(1) by auto
  then have rt: "r \<in> set (ref_rows t)" by (simp add: drop_edges_eq)
  then have len: "length (ref_ends r) = length (fk_actions t)" "length (ref_ends u) = length (fk_actions t)"
    using ok r(2) by (auto simp: ref_table_ok_def tracks_def list_all_iff)
  have ends: "ref_ends u ! c = map_option (heir_of pairs) (ref_ends r ! c)" if c: "c < length (ref_ends r)" for c
  proof -
    have "(fk_actions t ! c, ref_ends u ! c) \<in> set (zip (fk_actions t) (ref_ends u))"
      using c len by (auto simp: set_zip)
    then have "\<not> (c \<in> ?k \<and> end_gone ?lost (ref_ends u ! c))"
      using u(3) goes by (auto simp: cascaded_def key_goes_def list_ex_iff)
    then show ?thesis
      using r(2) c fold_sub_end[OF pairs] by (auto simp: tracks_def)
  qed
  have "\<not> end_gone ?lost (ref_ends u ! c)" if "c < length (ref_ends r)" for c
    using ends[OF that] heir_not_loser[OF pairs] by (auto simp: end_gone_def split: option.splits)
  then have "ref_ends s = map (map_option (heir_of pairs)) (ref_ends r)"
    using u(2) ends len by (intro nth_equalityI) auto
  moreover have "ref_rest s = ref_rest r" using u(2) r(2) by (simp add: tracks_def)
  ultimately have "s = image_row (heir_of pairs) r" by (simp add: image_row_def)
  with rt show "s \<in> image_row (heir_of pairs) ` set (ref_rows t)" by blast
qed

lemma merged_table:
  assumes ok: "ref_table_ok ids t" and pairs: "pairs_ok pairs" "fst ` set pairs \<subseteq> ids"
    and m: "duplicate_map pairs = Some m"
  shows "follows (heir_of pairs) t (chunks_gone (snd ` set pairs) (fold remap_table pairs (drop_edges m t)))"
  unfolding follows_def
proof (intro conjI ballI impI merged_rows[OF ok pairs(1)])
  fix r assume r: "r \<in> set (ref_rows t)" and inj: "inj_on (heir_of pairs) {x. Some x \<in> set (ref_ends r)}"
  have tell: "list_all (\<lambda>c. c < length (fk_actions t)) (telling t)"
    and len: "length (ref_ends r) = length (fk_actions t)"
    using ok r by (auto simp: ref_table_ok_def list_all_iff)
  have mo: "map_of m x = (if x \<in> fst ` set pairs \<union> snd ` set pairs then Some (heir_of pairs x) else None)" for x
    using duplicate_map_ok[OF pairs(1)] m by auto
  have "\<not> collapses m i j r" if "(i, j) \<in> set (column_pairs (length (fk_actions t)))" for i j
  proof
    assume "collapses m i j r"
    then obtain a b where ab: "ref_ends r ! i = Some a" "ref_ends r ! j = Some b" "a \<noteq> b"
        "map_of m a \<noteq> None" "map_of m a = map_of m b"
      by (auto simp: collapses_def split: option.splits)
    have "Some a \<in> set (ref_ends r)" "Some b \<in> set (ref_ends r)"
      using ab(1,2) column_pairs_range[OF that] len by (metis nth_mem order_less_trans)+
    moreover have "heir_of pairs a = heir_of pairs b"
      using ab(4,5) mo by (auto split: if_splits)
    ultimately show False using inj ab(3) by (auto dest: inj_onD)
  qed
  then have "r \<in> set (ref_rows (drop_edges m t))" using r by (auto simp: drop_edges_eq)
  moreover have "wide (drop_edges m t)" "telling (drop_edges m t) = telling t"
    using drop_edges_ok[OF ok, of m] telling_cong[of "drop_edges m t" t]
    by (auto simp: ref_table_ok_def wide_def list_all_iff)
  moreover have "list_all (\<lambda>p. fst p \<noteq> snd p) pairs"
    using pairs(1) by (auto simp: pairs_ok_def list_all_iff) 
  ultimately obtain s where s: "s \<in> set (ref_rows (fold remap_table pairs (drop_edges m t)))"
      "covers_row (telling t) (\<lambda>_. fold sub_end pairs) r s"
    using remap_tables_covers[of "drop_edges m t" pairs r] tell by auto
  let ?u = "fold remap_table pairs (drop_edges m t)"
  have shape: "same_shape t ?u"
    using fold_shape[of remap_table "drop_edges m t" pairs] by (simp add: same_shape_def)
  have cov: "covers_row (telling t) (\<lambda>_. map_option (heir_of pairs)) r s"
    using s(2) fold_sub_end[OF pairs(1)] by (simp add: covers_row_def)
  have "heir_of pairs x \<notin> snd ` set pairs" for x
    using heir_not_loser[OF pairs(1)] .
  then have "\<forall>c \<in> set (telling ?u). \<not> end_gone (snd ` set pairs) (ref_ends s ! c)"
    using cov same_shape_telling[OF shape] by (auto simp: covers_row_def end_gone_def split: option.splits)
  then obtain s' where "s' \<in> set (ref_rows (chunks_gone (snd ` set pairs) ?u))"
      "covers_row (telling t) (\<lambda>_ e. e) s s'"
    using chunks_gone_covers[OF remap_tables_ok[OF drop_edges_ok[OF ok] pairs(2)] s(1)]
      same_shape_telling[OF shape] by auto
  then show "\<exists>s \<in> set (ref_rows (chunks_gone (snd ` set pairs) ?u)).
      covers_row (telling t) (\<lambda>_. map_option (heir_of pairs)) r s"
    using covers_trans[OF cov] by (auto intro!: bexI[of _ s'])
qed

definition without :: "ustr set \<Rightarrow> ns_row list \<Rightarrow> ns_row list" where
  "without gone rows = filter (\<lambda>r. row_id r \<notin> gone) rows"

definition dropped_by :: "duplicate_plan list \<Rightarrow> ns_tables \<Rightarrow> ns_tables \<Rightarrow> bool" where
  "dropped_by plans t u \<longleftrightarrow>
     ns_ok u \<and> ns_chunks u = without (fst ` set (all_losers plans)) (ns_chunks t) \<and>
     ns_metas u = ns_metas t \<and> ns_sessions u = ns_sessions t \<and>
     list_all2 (follows (heir_of (plan_pairs plans))) (ns_refs t) (ns_refs u)"

lemma sidecars_frame [simp]:
  "sidecars_ok (t\<lparr>ns_refs := refs\<rparr>) = sidecars_ok t"
  "sidecars_ok (t\<lparr>ns_metas := a\<rparr>) = sidecars_ok t"
  "sidecars_ok (t\<lparr>ns_sessions := b\<rparr>) = sidecars_ok t"
  by (simp_all add: sidecars_ok_def split: option.splits)

lemma sidecars_without:
  assumes ok: "sidecars_ok t" "distinct (map row_id (ns_chunks t))"
    and lose: "set lose \<subseteq> (\<lambda>r. (row_id r, row_no r)) ` set (ns_chunks t)"
  shows "sidecars_ok (delete_batch (map fst lose) (map snd lose) t)"
proof -
  have "n \<in> row_no ` set (without (fst ` set lose) (ns_chunks t))"
    if n: "n \<in> row_no ` set (ns_chunks t)" "n \<notin> snd ` set lose" for n
  proof -
    obtain r where r: "r \<in> set (ns_chunks t)" "n = row_no r" using n(1) by auto
    have "row_id r \<notin> fst ` set lose"
    proof
      assume "row_id r \<in> fst ` set lose"
      then obtain l where l: "l \<in> set lose" "fst l = row_id r" by auto
      then obtain r' where r': "r' \<in> set (ns_chunks t)" "l = (row_id r', row_no r')" using lose by auto
      then have "r' = r" using ok(2) l(2) r(1) by (auto simp: distinct_map dest: inj_onD)
      with l(1) r'(2) r(2) n(2) show False by force
    qed
    with r show ?thesis by (auto simp: without_def)
  qed
  then show ?thesis
    using ok(1) by (auto simp: sidecars_ok_def delete_batch_def without_def split: option.splits)
qed

lemma follows_id: "follows (\<lambda>x. x) t t"
proof -
  have "image_row (\<lambda>x. x) r = r" for r
    by (simp add: image_row_def option.map_ident map_idI)
  then show ?thesis by (auto simp: follows_def covers_row_def option.map_ident intro: bexI)
qed

lemma drop_plans:
  assumes ok: "ns_ok t" and plans: "plans_ok t plans"
  shows "\<exists>u. drop_duplicate_plans plans t = Some (length (all_losers plans), u) \<and> dropped_by plans t u"
proof (cases "all_losers plans = []")
  case True
  then have "plan_pairs plans = []" using plan_pairs_losers[of plans] by simp
  moreover have "heir_of [] = (\<lambda>x. x)" by (simp add: heir_of_def fun_eq_iff)
  ultimately show ?thesis
    using True ok
    by (auto simp: drop_duplicate_plans_def all_losers_def dropped_by_def without_def follows_id
        intro!: list.rel_refl_strong simp del: concat_eq_Nil_conv)
next
  case False
  define pairs gone lose where "pairs = plan_pairs plans" and "gone = fst ` set (all_losers plans)"
    and "lose = all_losers plans"
  have pairs: "pairs_ok pairs" "fst ` set pairs \<subseteq> chunk_ids t" and lose: "set lose \<subseteq> (\<lambda>r. (row_id r, row_no r)) ` set (ns_chunks t)"
    using plans by (auto simp: plans_ok_def pairs_def lose_def)
  have gone: "gone = snd ` set pairs" by (simp add: gone_def pairs_def plan_pairs_gone)
  obtain m where m: "duplicate_map pairs = Some m" using duplicate_map_ok[OF pairs(1)] by auto
  define refs where "refs = map (\<lambda>t. fold remap_table pairs (drop_edges m t)) (ns_refs t)"
  let ?u = "delete_batch (map fst lose) (map snd lose) (t\<lparr>ns_refs := refs\<rparr>)"
  have "drop_duplicate_plans plans t = Some (length lose, ?u)"
    using False m
    by (simp add: drop_duplicate_plans_def all_losers_def[symmetric] remap_chunk_references_def pairs_def[symmetric]
        fold_map_map comp_def refs_def lose_def delete_chunk_rows_all Let_def)
  moreover have "dropped_by plans t ?u"
  proof -
    have set: "set (map fst lose) = gone" by (simp add: gone_def lose_def)
    have chunks: "ns_chunks ?u = without gone (ns_chunks t)"
      by (simp add: delete_batch_def without_def gone_def lose_def)
    have ids: "chunk_ids ?u = chunk_ids t - gone"
      using chunks by (auto simp: without_def)
    have refs: "ns_refs ?u = map (\<lambda>t. chunks_gone gone (fold remap_table pairs (drop_edges m t))) (ns_refs t)"
      unfolding set[symmetric] by (simp add: delete_batch_def refs_def)
    have refs_ok: "list_all (ref_table_ok (chunk_ids ?u)) (ns_refs ?u)"
      unfolding ids refs using ok pairs(2)
      by (auto simp: ns_ok_def list_all_iff intro!: chunks_gone_ok remap_tables_ok drop_edges_ok)
    have "sidecars_ok ?u"
      using sidecars_without[of "t\<lparr>ns_refs := refs\<rparr>" lose] ok lose by (simp add: ns_ok_def)
    moreover have "ns_metas ?u = ns_metas t" by (simp add: delete_batch_def)
    ultimately have "ns_ok ?u"
      using ok refs_ok unfolding ns_ok_def chunks by (simp add: without_def distinct_map_filter)
    moreover have "list_all2 (follows (heir_of pairs)) (ns_refs t) (ns_refs ?u)"
      unfolding refs gone using ok m pairs
      by (auto simp: list_all2_map2 ns_ok_def list_all_iff intro!: list.rel_refl_strong merged_table)
    ultimately show ?thesis
      using chunks by (simp add: dropped_by_def gone_def pairs_def delete_batch_def)
  qed
  ultimately show ?thesis by (auto simp: lose_def)
qed

section \<open>Consolidation into a namespace\<close>

text \<open>
  The chunk that stands for chunk \<open>x\<close> of \<open>t\<close> afterwards: itself while it is there, else the
  chunk of the target with its content.
\<close>

definition heir :: "ustr \<Rightarrow> ns_tables \<Rightarrow> ns_tables \<Rightarrow> ustr \<Rightarrow> ustr" where
  "heir target t u x =
     (if x \<in> chunk_ids u then x
      else case find (\<lambda>r. row_id r = x) (ns_chunks t) of
        None \<Rightarrow> x
      | Some r \<Rightarrow>
          (case find (\<lambda>s. index_key s = (target, content_key r)) (ns_chunks u) of
             None \<Rightarrow> x
           | Some s \<Rightarrow> row_id s))"

definition moved_row :: "(ns_row \<Rightarrow> bool) \<Rightarrow> ustr \<Rightarrow> ns_row \<Rightarrow> ns_row" where
  "moved_row moving target r = (if moving r then r\<lparr>row_ns := target\<rparr> else r)"

text \<open>
  What a consolidation promises: every content of the moving rows is in the target, each
  once; the rows of the target and of other namespaces are as they were; every row there is
  comes from one that was; and what referred to a chunk refers to its heir, in every column:
  a share keeps its source as well as its target.
\<close>

definition consolidates :: "ustr \<Rightarrow> (ns_row \<Rightarrow> bool) \<Rightarrow> ns_tables \<Rightarrow> ns_tables \<Rightarrow> bool" where
  "consolidates target moving t u \<longleftrightarrow>
     content_key ` set (rows_in target u) =
       content_key ` set (filter moving (ns_chunks t)) \<union> content_key ` set (rows_in target t) \<and>
     set (filter (\<lambda>r. \<not> moving r) (ns_chunks t)) \<subseteq> set (ns_chunks u) \<and>
     set (ns_chunks u) \<subseteq> moved_row moving target ` set (ns_chunks t) \<and>
     list_all2 (follows (heir target t u)) (ns_refs t) (ns_refs u)"

lemma moved_row_simps [simp]:
  "row_id (moved_row moving target r) = row_id r"
  "row_no (moved_row moving target r) = row_no r"
  "content_key (moved_row moving target r) = content_key r"
  "row_ns (moved_row moving target r) = (if moving r then target else row_ns r)"
  by (simp_all add: moved_row_def content_key_def)

lemma without_set [simp]: "set (without gone rows) = {r \<in> set rows. row_id r \<notin> gone}"
  by (simp add: without_def)

lemma ids_without: "row_id ` set (without gone rows) = row_id ` set rows - gone"
  by auto

lemma row_by_id: "distinct (map row_id rows) \<Longrightarrow> r \<in> set rows \<Longrightarrow> s \<in> set rows \<Longrightarrow> row_id r = row_id s \<Longrightarrow> r = s"
  by (auto simp: distinct_map dest: inj_onD)

lemma row_by_key:
  "distinct (map index_key rows) \<Longrightarrow> r \<in> set rows \<Longrightarrow> s \<in> set rows \<Longrightarrow> index_key r = index_key s \<Longrightarrow> r = s"
  by (auto simp: distinct_map dest: inj_onD)

lemma find_the:
  assumes "x \<in> set xs" "P x" and one: "\<And>y. y \<in> set xs \<Longrightarrow> P y \<Longrightarrow> y = x"
  shows "find P xs = Some x"
proof -
  obtain y where y: "find P xs = Some y"
    using assms(1,2) by (metis find_None_iff not_Some_eq)
  then have "y \<in> set xs" "P y" by (auto simp: find_Some_iff)
  with y one show ?thesis by simp
qed

lemma follows_cong:
  assumes "ref_table_ok ids t" "\<And>x. x \<in> ids \<Longrightarrow> g x = h x" "follows g t u"
  shows "follows h t u"
proof -
  have eq: "map_option g (ref_ends r ! c) = map_option h (ref_ends r ! c)"
    if "r \<in> set (ref_rows t)" "c \<in> set (telling t)" for r c
  proof -
    have "c < length (ref_ends r)" "ends_in ids r"
      using assms(1) that by (auto simp: ref_table_ok_def list_all_iff)
    then show ?thesis using assms(2) by (cases "ref_ends r ! c") (auto simp: ends_in_iff dest: nth_mem)
  qed
  have inj: "inj_on g {x. Some x \<in> set (ref_ends r)} = inj_on h {x. Some x \<in> set (ref_ends r)}"
    if "r \<in> set (ref_rows t)" for r
    using assms(1,2) that by (intro inj_on_cong) (auto simp: ref_table_ok_def list_all_iff ends_in_iff)
  have "image_row g r = image_row h r" if "r \<in> set (ref_rows t)" for r
    using assms(1,2) that unfolding image_row_def
    by (auto simp: ref_table_ok_def list_all_iff ends_in_iff intro!: arg_cong[of _ _ "\<lambda>e. r\<lparr>ref_ends := e\<rparr>"] option.map_cong)
  then have "image_row g ` set (ref_rows t) = image_row h ` set (ref_rows t)" by (rule image_cong[OF refl])
  moreover have "key_goes t \<Longrightarrow> set (ref_rows u) \<subseteq> image_row g ` set (ref_rows t)"
    using assms(3) by (simp add: follows_def)
  ultimately have whole: "key_goes t \<Longrightarrow> set (ref_rows u) \<subseteq> image_row h ` set (ref_rows t)" by simp
  show ?thesis
    unfolding follows_def
  proof (intro conjI ballI impI whole)
    fix r assume r: "r \<in> set (ref_rows t)" "inj_on h {x. Some x \<in> set (ref_ends r)}"
    then obtain s where "s \<in> set (ref_rows u)" "covers_row (telling t) (\<lambda>_. map_option g) r s"
      using assms(3) inj[OF r(1)] by (auto simp: follows_def)
    then show "\<exists>s \<in> set (ref_rows u). covers_row (telling t) (\<lambda>_. map_option h) r s"
      using eq[OF r(1)] by (auto simp: covers_row_def intro!: bexI[of _ s])
  qed
qed

text \<open>
  What a planner owes for the rows that are to move into the target: its plans fit the
  tables, each loser moves and its survivor, of the same content, moves too or is there
  already, and once the losers are gone no content comes twice.
\<close>

locale merge_planner =
  fixes legal :: "'q \<Rightarrow> bool"
    and target :: "'q \<Rightarrow> ustr"
    and moving :: "'q \<Rightarrow> ns_row \<Rightarrow> bool"
    and planner :: "'q \<Rightarrow> ns_tables \<Rightarrow> duplicate_plan list"
  assumes elsewhere: "legal q \<Longrightarrow> moving q r \<Longrightarrow> row_ns r \<noteq> target q"
    and fits: "legal q \<Longrightarrow> ns_ok t \<Longrightarrow> plans_ok t (planner q t)"
    and pairs: "legal q \<Longrightarrow> ns_ok t \<Longrightarrow> (s, d) \<in> set (plan_pairs (planner q t)) \<Longrightarrow>
      \<exists>a b. a \<in> set (ns_chunks t) \<and> b \<in> set (ns_chunks t) \<and> row_id a = s \<and> row_id b = d \<and>
        content_key a = content_key b \<and> moving q b \<and> (moving q a \<or> row_ns a = target q)"
    and apart: "legal q \<Longrightarrow> ns_ok t \<Longrightarrow>
      inj_on content_key {r \<in> set (ns_chunks t). row_id r \<notin> fst ` set (all_losers (planner q t)) \<and>
        (moving q r \<or> row_ns r = target q)}"
begin

lemma loser_moves:
  "legal q \<Longrightarrow> ns_ok t \<Longrightarrow> r \<in> set (ns_chunks t) \<Longrightarrow> row_id r \<in> fst ` set (all_losers (planner q t)) \<Longrightarrow> moving q r"
proof -
  assume l: "legal q" and t: "ns_ok t" and r: "r \<in> set (ns_chunks t)" "row_id r \<in> fst ` set (all_losers (planner q t))"
  then obtain s where "(s, row_id r) \<in> set (plan_pairs (planner q t))"
    by (auto simp: plan_pairs_gone[symmetric])
  from pairs[OF l t this] obtain b where "b \<in> set (ns_chunks t)" "row_id b = row_id r" "moving q b" by auto
  moreover from this r(1) t have "b = r" by (auto simp: ns_ok_def dest: row_by_id)
  ultimately show "moving q r" by simp
qed

lemma moves:
  assumes l: "legal q" and t: "ns_ok t" and u: "dropped_by (planner q t) t u"
  defines "v \<equiv> u\<lparr>ns_chunks := map (moved_row (moving q) (target q)) (ns_chunks u)\<rparr>"
  shows "move_chunks (moving q) (target q) u = Some (length (filter (moving q) (ns_chunks u)), v)"
    and "ns_ok v" and "consolidates (target q) (moving q) t v"
proof -
  let ?gone = "fst ` set (all_losers (planner q t))" and ?f = "moved_row (moving q) (target q)"
  have chunks: "ns_chunks u = without ?gone (ns_chunks t)" and uok: "ns_ok u"
    using u by (auto simp: dropped_by_def)
  have ids: "distinct (map row_id (ns_chunks u))" and keys: "distinct (map index_key (ns_chunks u))"
    using uok by (auto simp: ns_ok_def)
  have "inj_on (\<lambda>r. index_key (?f r)) (set (ns_chunks u))"
  proof (rule inj_onI)
    fix r s assume rs: "r \<in> set (ns_chunks u)" "s \<in> set (ns_chunks u)" "index_key (?f r) = index_key (?f s)"
    then have key: "content_key r = content_key s"
        "(if moving q r then target q else row_ns r) = (if moving q s then target q else row_ns s)"
      by (auto simp: index_key_def)
    show "r = s"
    proof (cases "moving q r \<or> row_ns r = target q")
      case True
      then have "moving q s \<or> row_ns s = target q" using key(2) by (auto split: if_splits)
      with True rs(1,2) key(1) show ?thesis
        using apart[OF l t] by (auto simp: chunks dest!: inj_onD)
    next
      case False
      then have "row_ns r = row_ns s" using key(2) by (auto split: if_splits)
      with rs(1,2) key(1) row_by_key[OF keys] show ?thesis by (simp add: index_key_def)
    qed
  qed
  then have moved: "distinct (map index_key (ns_chunks v))"
    using ids by (auto simp: v_def distinct_map inj_on_def)
  then show "move_chunks (moving q) (target q) u = Some (length (filter (moving q) (ns_chunks u)), v)"
    by (simp add: move_chunks_def v_def moved_row_def[abs_def])
  have vids: "chunk_ids v = chunk_ids u" by (simp add: v_def image_image)
  have "ns_refs v = ns_refs u" "ns_metas v = ns_metas u" "map row_id (ns_chunks v) = map row_id (ns_chunks u)"
       "map row_no (ns_chunks v) = map row_no (ns_chunks u)"
    by (simp_all add: v_def)
  moreover have "sidecars_ok v = sidecars_ok u"
    by (simp add: v_def sidecars_ok_def image_image split: option.splits)
  ultimately show vok: "ns_ok v"
    using uok moved unfolding ns_ok_def vids by simp
  have po: "pairs_ok (plan_pairs (planner q t))"
    using fits[OF l t] by (simp add: plans_ok_def)
  have stands: "\<exists>a \<in> set (ns_chunks v). row_id a = heir_of (plan_pairs (planner q t)) (row_id r) \<and>
      row_ns a = target q \<and> content_key a = content_key r"
    if r: "r \<in> set (ns_chunks t)" "moving q r" for r
  proof (cases "row_id r \<in> ?gone")
    case False
    then have "?f r \<in> set (ns_chunks v)" using r(1) by (simp add: v_def chunks)
    with False r(2) show ?thesis by (intro bexI[of _ "?f r"]) (simp_all add: plan_pairs_gone)
  next
    case True
    then obtain s where s: "(s, row_id r) \<in> set (plan_pairs (planner q t))"
      by (auto simp: plan_pairs_gone[symmetric])
    from pairs[OF l t s] obtain a b where ab: "a \<in> set (ns_chunks t)" "b \<in> set (ns_chunks t)"
        "row_id a = s" "row_id b = row_id r" "content_key a = content_key b" "moving q a \<or> row_ns a = target q"
      by auto
    have "b = r" using ab(2,4) r(1) t by (auto simp: ns_ok_def dest: row_by_id)
    moreover have "s \<notin> ?gone"
      using po s by (force simp: pairs_ok_def plan_pairs_gone)
    ultimately show ?thesis
      using ab heir_of_pair[OF po s] by (intro bexI[of _ "?f a"]) (auto simp: v_def chunks)
  qed
  have heirs: "heir_of (plan_pairs (planner q t)) x = heir (target q) t v x" if x: "x \<in> chunk_ids t" for x
  proof -
    obtain r where r: "r \<in> set (ns_chunks t)" "x = row_id r" using x by auto
    show ?thesis
    proof (cases "x \<in> ?gone")
      case False
      then show ?thesis using r by (auto simp: heir_def vids chunks plan_pairs_gone)
    next
      case True
      then have "moving q r" using loser_moves[OF l t] r by simp
      from stands[OF r(1) this] obtain a where a: "a \<in> set (ns_chunks v)"
          "row_id a = heir_of (plan_pairs (planner q t)) x" "index_key a = (target q, content_key r)"
        using r(2) by (auto simp: index_key_def)
      have "find (\<lambda>s. index_key s = (target q, content_key r)) (ns_chunks v) = Some a"
        using a moved by (intro find_the) (auto dest: row_by_key)
      moreover have "find (\<lambda>s. row_id s = x) (ns_chunks t) = Some r"
        using r t by (intro find_the) (auto simp: ns_ok_def dest: row_by_id)
      moreover have "x \<notin> chunk_ids v" unfolding vids chunks using True by force
      ultimately show ?thesis using a(2) by (simp add: heir_def)
    qed
  qed
  have "list_all2 (follows (heir (target q) t v)) (ns_refs t) (ns_refs v)"
  proof -
    have "list_all2 (follows (heir_of (plan_pairs (planner q t)))) (ns_refs t) (ns_refs v)"
      using u by (simp add: v_def dropped_by_def)
    moreover have "\<forall>x \<in> set (ns_refs t). ref_table_ok (chunk_ids t) x"
      using t by (simp add: ns_ok_def list_all_iff)
    ultimately show ?thesis
      unfolding list_all2_conv_all_nth
      by (metis (no_types, lifting) follows_cong heirs nth_mem)
  qed
  moreover have stay: "set (filter (\<lambda>r. \<not> moving q r) (ns_chunks t)) \<subseteq> set (ns_chunks v)"
  proof
    fix r assume "r \<in> set (filter (\<lambda>r. \<not> moving q r) (ns_chunks t))"
    then have "r \<in> set (ns_chunks u)" "?f r = r"
      using loser_moves[OF l t] by (auto simp: chunks moved_row_def)
    then show "r \<in> set (ns_chunks v)" by (force simp: v_def)
  qed
  moreover have "content_key ` set (rows_in (target q) v) =
      content_key ` set (filter (moving q) (ns_chunks t)) \<union> content_key ` set (rows_in (target q) t)"
  proof
    show "content_key ` set (rows_in (target q) v) \<subseteq>
        content_key ` set (filter (moving q) (ns_chunks t)) \<union> content_key ` set (rows_in (target q) t)"
      by (auto simp: rows_in_def v_def chunks split: if_splits)
    have "content_key r \<in> content_key ` set (rows_in (target q) v)"
      if "r \<in> set (ns_chunks t)" "row_ns r = target q" for r
    proof -
      have "r \<in> set (ns_chunks v)"
        using stay that elsewhere[OF l] by force
      with that show ?thesis by (auto simp: rows_in_def)
    qed
    moreover have "content_key r \<in> content_key ` set (rows_in (target q) v)"
      if r: "r \<in> set (ns_chunks t)" "moving q r" for r
    proof -
      obtain a where "a \<in> set (ns_chunks v)" "row_ns a = target q" "content_key r = content_key a"
        using stands[OF r] by metis
      then show ?thesis by (auto simp: rows_in_def)
    qed
    ultimately show "content_key ` set (filter (moving q) (ns_chunks t)) \<union> content_key ` set (rows_in (target q) t)
        \<subseteq> content_key ` set (rows_in (target q) v)"
      by (auto simp: rows_in_def)
  qed
  moreover have "set (ns_chunks v) \<subseteq> ?f ` set (ns_chunks t)"
    by (auto simp: v_def chunks)
  ultimately show "consolidates (target q) (moving q) t v"
    by (simp add: consolidates_def)
qed

text \<open>Every moving row is moved or dropped.\<close>

lemma counted:
  assumes l: "legal q" and t: "ns_ok t" and u: "dropped_by (planner q t) t u"
  shows "length (filter (moving q) (ns_chunks u)) + length (all_losers (planner q t)) = length (filter (moving q) (ns_chunks t))"
proof -
  let ?lose = "all_losers (planner q t)" and ?rows = "filter (moving q) (ns_chunks t)"
  have chunks: "ns_chunks u = without (fst ` set ?lose) (ns_chunks t)" using u by (simp add: dropped_by_def)
  have ok: "plans_ok t (planner q t)" by (rule fits[OF l t])
  have "distinct (map fst ?lose)"
    using ok by (simp add: plans_ok_def pairs_ok_def plan_pairs_losers)
  moreover have "set (map fst ?lose) = set (map row_id (filter (\<lambda>r. row_id r \<in> fst ` set ?lose) ?rows))"
  proof -
    have "i \<in> row_id ` set (filter (\<lambda>r. row_id r \<in> fst ` set ?lose) ?rows)" if i: "i \<in> fst ` set ?lose" for i
    proof -
      obtain r where r: "r \<in> set (ns_chunks t)" "i = row_id r" using ok i by (auto simp: plans_ok_def)
      with i loser_moves[OF l t r(1)] show ?thesis by (simp del: set_map)
    qed
    then show ?thesis unfolding set_map by (intro equalityI subsetI) auto
  qed
  moreover have "distinct (map row_id (filter (\<lambda>r. row_id r \<in> fst ` set ?lose) ?rows))"
    using t by (simp add: ns_ok_def distinct_map_filter)
  ultimately have "length ?lose = length (filter (\<lambda>r. row_id r \<in> fst ` set ?lose) ?rows)"
    by (metis distinct_card length_map)
  moreover have "filter (moving q) (ns_chunks u) = filter (\<lambda>r. row_id r \<notin> fst ` set ?lose) ?rows"
    by (simp add: chunks without_def conj_commute)
  ultimately show ?thesis
    using sum_length_filter_compl[of "\<lambda>r. row_id r \<in> fst ` set ?lose" ?rows] by simp
qed

end

section \<open>The two planners\<close>

definition rename_moving :: "ustr \<times> ustr \<times> ns_candidate list option \<Rightarrow> ns_row \<Rightarrow> bool" where
  "rename_moving q r \<longleftrightarrow> row_ns r = fst q \<and> frozen (snd (snd q)) r"

definition rename_planner :: "ustr \<times> ustr \<times> ns_candidate list option \<Rightarrow> ns_tables \<Rightarrow> duplicate_plan list" where
  "rename_planner q t = rename_plans (frozen (snd (snd q))) (fst q) (fst (snd q)) t"

lemma twin_row: "twins new c t \<noteq> [] \<Longrightarrow>
  \<exists>a \<in> set (ns_chunks t). row_id a = Min (set (twins new c t)) \<and> row_ns a = new \<and> content_key a = content_key c"
proof -
  assume "twins new c t \<noteq> []"
  then have "Min (set (twins new c t)) \<in> set (twins new c t)" by (intro Min_in) auto
  then show ?thesis by (subst (asm) (2) twins_def) auto
qed

lemma rename_pairs:
  "plan_pairs (rename_planner q t) =
     map (\<lambda>c. (Min (set (twins (fst (snd q)) c t)), row_id c))
       (filter (\<lambda>c. twins (fst (snd q)) c t \<noteq> []) (sort_key row_id (filter (rename_moving q) (ns_chunks t))))"
  by (simp add: plan_pairs_def rename_planner_def rename_plans_def rename_moving_def[abs_def] comp_def)

lemma rename_losers:
  "all_losers (rename_planner q t) =
     map (\<lambda>c. (row_id c, row_no c))
       (filter (\<lambda>c. twins (fst (snd q)) c t \<noteq> []) (sort_key row_id (filter (rename_moving q) (ns_chunks t))))"
  by (simp add: all_losers_def rename_planner_def rename_plans_def rename_moving_def[abs_def] comp_def)

interpretation renamer: merge_planner
  "\<lambda>q. fst q \<noteq> fst (snd q)" "\<lambda>q. fst (snd q)" rename_moving rename_planner
proof
  fix q :: "ustr \<times> ustr \<times> ns_candidate list option" and t
  assume l: "fst q \<noteq> fst (snd q)"
  show "row_ns r \<noteq> fst (snd q)" if "rename_moving q r" for r
    using that l by (simp add: rename_moving_def)
  assume t: "ns_ok t"
  show twin: "\<exists>a b. a \<in> set (ns_chunks t) \<and> b \<in> set (ns_chunks t) \<and> row_id a = s \<and> row_id b = d \<and>
        content_key a = content_key b \<and> rename_moving q b \<and> (rename_moving q a \<or> row_ns a = fst (snd q))"
    if pair: "(s, d) \<in> set (plan_pairs (rename_planner q t))" for s d
  proof -
    obtain c where c: "c \<in> set (ns_chunks t)" "rename_moving q c" "row_id c = d"
        "twins (fst (snd q)) c t \<noteq> []" "s = Min (set (twins (fst (snd q)) c t))"
      using pair by (auto simp: rename_pairs)
    from twin_row[OF c(4)] c show ?thesis by metis
  qed
  have ids: "distinct (map row_id (ns_chunks t))" and keys: "distinct (map index_key (ns_chunks t))"
    using t by (auto simp: ns_ok_def)
  show "plans_ok t (rename_planner q t)"
    unfolding plans_ok_def pairs_ok_def
  proof (intro conjI)
    have "distinct (map row_id (sort_key row_id (filter (rename_moving q) (ns_chunks t))))"
      using ids by (auto simp: distinct_map intro: inj_on_subset)
    then show "distinct (map snd (plan_pairs (rename_planner q t)))"
      by (simp add: rename_pairs comp_def distinct_map_filter)
    show "fst ` set (plan_pairs (rename_planner q t)) \<inter> snd ` set (plan_pairs (rename_planner q t)) = {}"
    proof (rule ccontr)
      assume "\<not> ?thesis"
      then obtain s d' where sd: "(s, d') \<in> set (plan_pairs (rename_planner q t))"
          "s \<in> snd ` set (plan_pairs (rename_planner q t))" by force
      then obtain s' where s': "(s', s) \<in> set (plan_pairs (rename_planner q t))" by force
      from s' obtain b where b: "b \<in> set (ns_chunks t)" "row_id b = s" "rename_moving q b"
        by (auto simp: rename_pairs)
      from sd(1) obtain c where "twins (fst (snd q)) c t \<noteq> []" "s = Min (set (twins (fst (snd q)) c t))"
        by (auto simp: rename_pairs)
      with twin_row obtain a where "a \<in> set (ns_chunks t)" "row_id a = s" "row_ns a = fst (snd q)" by metis
      with b l row_by_id[OF ids] show False by (metis rename_moving_def)
    qed
    show "set (all_losers (rename_planner q t)) \<subseteq> (\<lambda>r. (row_id r, row_no r)) ` set (ns_chunks t)"
      by (auto simp: rename_losers)
    show "fst ` set (plan_pairs (rename_planner q t)) \<subseteq> chunk_ids t"
      using twin by force
  qed
  show "inj_on content_key {r \<in> set (ns_chunks t). row_id r \<notin> fst ` set (all_losers (rename_planner q t)) \<and>
        (rename_moving q r \<or> row_ns r = fst (snd q))}"
  proof (rule inj_onI, clarify)
    have lost: "row_id r \<in> fst ` set (all_losers (rename_planner q t))"
      if "r \<in> set (ns_chunks t)" "s \<in> set (ns_chunks t)" "rename_moving q r" "row_ns s = fst (snd q)"
        "content_key s = content_key r" for r s
    proof -
      have "twins (fst (snd q)) r t \<noteq> []" using that by (auto simp: twins_def filter_empty_conv)
      with that show ?thesis by (force simp: rename_losers)
    qed
    fix r s assume rs: "r \<in> set (ns_chunks t)" "s \<in> set (ns_chunks t)" "content_key r = content_key s"
      and out: "row_id r \<notin> fst ` set (all_losers (rename_planner q t))" "row_id s \<notin> fst ` set (all_losers (rename_planner q t))"
      and grp: "rename_moving q r \<or> row_ns r = fst (snd q)" "rename_moving q s \<or> row_ns s = fst (snd q)"
    have "row_ns r = row_ns s"
      using grp lost[of r s] lost[of s r] rs out by (auto simp: rename_moving_def)
    with rs row_by_key[OF keys] show "r = s" by (simp add: index_key_def)
  qed
qed

text \<open>An assignment: its target and the filter that selects the rows.\<close>

definition assign_moving :: "ustr \<times> (ns_row \<Rightarrow> bool) \<Rightarrow> ns_row \<Rightarrow> bool" where
  "assign_moving q r \<longleftrightarrow> snd q r \<and> row_ns r \<noteq> fst q"

definition assign_planner :: "ustr \<times> (ns_row \<Rightarrow> bool) \<Rightarrow> ns_tables \<Rightarrow> duplicate_plan list" where
  "assign_planner q t = find_assign_duplicate_plans (fst q) (snd q) t"

definition assign_group :: "ustr \<times> (ns_row \<Rightarrow> bool) \<Rightarrow> ns_tables \<Rightarrow> ustr \<times> ustr \<times> int \<Rightarrow> (bool \<times> ns_row) list" where
  "assign_group q t k = assign_ranked (fst q) (filter (assign_moving q) (ns_chunks t)) t k"

definition assign_keys :: "ustr \<times> (ns_row \<Rightarrow> bool) \<Rightarrow> ns_tables \<Rightarrow> (ustr \<times> ustr \<times> int) list" where
  "assign_keys q t = distinct_sorted (map content_key (filter (assign_moving q) (ns_chunks t)))"

lemma set_assign_group:
  "set (assign_group q t k) =
     Pair True ` {r \<in> set (ns_chunks t). row_ns r = fst q \<and> content_key r = k} \<union>
     Pair False ` {r \<in> set (ns_chunks t). assign_moving q r \<and> content_key r = k}"
  by (auto simp: assign_group_def assign_ranked_def assign_pool_def)

lemma set_assign_keys: "set (assign_keys q t) = content_key ` {r \<in> set (ns_chunks t). assign_moving q r}"
  by (auto simp: assign_keys_def distinct_sorted_def)

lemma distinct_assign_keys: "distinct (assign_keys q t)"
  by (simp add: assign_keys_def distinct_sorted_def)

lemma assign_group_front:
  assumes "k \<in> set (assign_keys q t)"
  shows "assign_group q t k = hd (assign_group q t k) # tl (assign_group q t k)"
    and "hd (assign_group q t k) \<in> set (assign_group q t k)"
proof -
  have "assign_group q t k \<noteq> []"
    using assms set_assign_group[of q t k] by (auto simp: set_assign_keys)
  then show "assign_group q t k = hd (assign_group q t k) # tl (assign_group q t k)"
      "hd (assign_group q t k) \<in> set (assign_group q t k)"
    by simp_all
qed

lemma assign_group_best:
  assumes "k \<in> set (assign_keys q t)" "p \<in> set (assign_group q t k)"
  shows "assign_rank (hd (assign_group q t k)) \<le> assign_rank p"
proof -
  have "sorted (map assign_rank (assign_group q t k))"
    by (simp add: assign_group_def assign_ranked_def)
  moreover obtain h g where "assign_group q t k = h # g"
    using assign_group_front(1)[OF assms(1)] by blast
  ultimately show ?thesis using assms(2) by auto
qed

definition group_losers :: "(bool \<times> ns_row) list \<Rightarrow> ns_row list" where
  "group_losers g = map snd (filter (\<lambda>p. \<not> fst p) (tl g))"

lemma assign_plan_losers: "losers (assign_plan g) = map (\<lambda>r. (row_id r, row_no r)) (group_losers g)"
  by (simp add: assign_plan_def group_losers_def comp_def)

lemma concat_filter: "(\<And>x. \<not> P x \<Longrightarrow> f x = []) \<Longrightarrow> concat (map f (filter P xs)) = concat (map f xs)"
  by (induction xs) auto

lemma assign_planner_plans:
  "assign_planner q t = filter (\<lambda>p. losers p \<noteq> []) (map (\<lambda>k. assign_plan (assign_group q t k)) (assign_keys q t))"
  by (simp add: assign_planner_def find_assign_duplicate_plans_def assign_moving_def[abs_def]
      assign_group_def assign_keys_def Let_def)

lemma assign_losers:
  "all_losers (assign_planner q t) =
     map (\<lambda>r. (row_id r, row_no r)) (concat (map (\<lambda>k. group_losers (assign_group q t k)) (assign_keys q t)))"
  unfolding all_losers_def assign_planner_plans
  by (subst concat_filter) (simp_all add: assign_plan_losers map_concat comp_def)

lemma assign_pairs:
  "set (plan_pairs (assign_planner q t)) =
     (\<Union>k \<in> set (assign_keys q t). (\<lambda>r. (row_id (snd (hd (assign_group q t k))), row_id r)) ` set (group_losers (assign_group q t k)))"
proof -
  have "plan_pairs (assign_planner q t) =
      concat (map (\<lambda>k. map (\<lambda>r. (row_id (snd (hd (assign_group q t k))), row_id r)) (group_losers (assign_group q t k)))
        (assign_keys q t))"
    unfolding plan_pairs_def assign_planner_plans
    by (subst concat_filter) (simp_all add: assign_plan_losers comp_def, simp add: assign_plan_def)
  then show ?thesis by simp
qed

lemma distinct_assign_group: "ns_ok t \<Longrightarrow> distinct (assign_group q t k)"
  using distinct_map[of row_id "ns_chunks t"]
  by (auto simp: assign_group_def assign_ranked_def assign_pool_def ns_ok_def distinct_map inj_on_def)

lemma group_loser_iff:
  assumes "ns_ok t" "k \<in> set (assign_keys q t)"
  shows "r \<in> set (group_losers (assign_group q t k)) \<longleftrightarrow>
    r \<in> set (ns_chunks t) \<and> assign_moving q r \<and> content_key r = k \<and> hd (assign_group q t k) \<noteq> (False, r)"
proof -
  obtain h g where g: "assign_group q t k = h # g" using assign_group_front(1)[OF assms(2)] by blast
  have "r \<in> set (group_losers (h # g)) \<longleftrightarrow> (False, r) \<in> set g"
    by (auto simp: group_losers_def image_iff)
  also have "\<dots> \<longleftrightarrow> (False, r) \<in> set (assign_group q t k) \<and> h \<noteq> (False, r)"
    using distinct_assign_group[OF assms(1), of q k] by (auto simp: g)
  also have "(False, r) \<in> set (assign_group q t k) \<longleftrightarrow> r \<in> set (ns_chunks t) \<and> assign_moving q r \<and> content_key r = k"
    by (auto simp: set_assign_group)
  finally show ?thesis by (simp add: g)
qed

lemma survivor_row:
  assumes "k \<in> set (assign_keys q t)"
  shows "snd (hd (assign_group q t k)) \<in> set (ns_chunks t)" "content_key (snd (hd (assign_group q t k))) = k"
    "fst (hd (assign_group q t k)) \<longleftrightarrow> row_ns (snd (hd (assign_group q t k))) = fst q"
    "\<not> fst (hd (assign_group q t k)) \<longleftrightarrow> assign_moving q (snd (hd (assign_group q t k)))"
  using assign_group_front(2)[OF assms] by (auto simp: set_assign_group assign_moving_def)

text \<open>A row of the target outranks the rows that move.\<close>

lemma target_first:
  assumes "k \<in> set (assign_keys q t)" "r \<in> set (ns_chunks t)" "row_ns r = fst q" "content_key r = k"
  shows "fst (hd (assign_group q t k))"
proof -
  have "(True, r) \<in> set (assign_group q t k)" using assms by (auto simp: set_assign_group)
  from assign_group_best[OF assms(1) this] show ?thesis
    by (auto simp: assign_rank_def less_eq_prod_def)
qed

lemma image_UN_iff: "f r \<in> f ` (\<Union>k \<in> A. g k) \<longleftrightarrow> (\<exists>k \<in> A. \<exists>s \<in> g k. f s = f r)"
  by (simp add: image_iff bex_UN) metis

lemma assign_loser_iff:
  assumes "ns_ok t" "r \<in> set (ns_chunks t)"
  shows "row_id r \<in> fst ` set (all_losers (assign_planner q t)) \<longleftrightarrow>
    assign_moving q r \<and> hd (assign_group q t (content_key r)) \<noteq> (False, r)"
proof -
  have "row_id r \<in> fst ` set (all_losers (assign_planner q t)) \<longleftrightarrow>
      (\<exists>k \<in> set (assign_keys q t). \<exists>s \<in> set (group_losers (assign_group q t k)). row_id s = row_id r)"
  proof -
    have ids: "fst ` set (all_losers (assign_planner q t)) =
        row_id ` (\<Union>k \<in> set (assign_keys q t). set (group_losers (assign_group q t k)))"
      by (simp add: assign_losers image_image)
    show ?thesis unfolding ids by (rule image_UN_iff)
  qed
  also have "\<dots> \<longleftrightarrow> (\<exists>k \<in> set (assign_keys q t). r \<in> set (group_losers (assign_group q t k)))"
    using assms row_by_id[of "ns_chunks t"] by (metis group_loser_iff ns_ok_def)
  also have "\<dots> \<longleftrightarrow> assign_moving q r \<and> hd (assign_group q t (content_key r)) \<noteq> (False, r)"
    using assms by (auto simp: group_loser_iff set_assign_keys)
  finally show ?thesis .
qed

lemma assign_pair_rows:
  assumes "ns_ok t" "(s, d) \<in> set (plan_pairs (assign_planner q t))"
  shows "\<exists>k r. k \<in> set (assign_keys q t) \<and> s = row_id (snd (hd (assign_group q t k))) \<and> d = row_id r \<and>
    r \<in> set (ns_chunks t) \<and> assign_moving q r \<and> content_key r = k"
proof -
  obtain k r where "k \<in> set (assign_keys q t)" "r \<in> set (group_losers (assign_group q t k))"
      "(s, d) = (row_id (snd (hd (assign_group q t k))), row_id r)"
    using assms(2) unfolding assign_pairs UN_iff image_iff by metis
  with group_loser_iff[OF assms(1)] show ?thesis by (metis prod.inject)
qed

interpretation assigner: merge_planner "\<lambda>_. True" fst assign_moving assign_planner
proof
  fix q :: "ustr \<times> (ns_row \<Rightarrow> bool)" and t
  show "row_ns r \<noteq> fst q" if "assign_moving q r" for r
    using that by (simp add: assign_moving_def)
  assume t: "ns_ok t"
  have ids: "distinct (map row_id (ns_chunks t))" and keys: "distinct (map index_key (ns_chunks t))"
    using t by (auto simp: ns_ok_def)
  show twin: "\<exists>a b. a \<in> set (ns_chunks t) \<and> b \<in> set (ns_chunks t) \<and> row_id a = s \<and> row_id b = d \<and>
        content_key a = content_key b \<and> assign_moving q b \<and> (assign_moving q a \<or> row_ns a = fst q)"
    if "(s, d) \<in> set (plan_pairs (assign_planner q t))" for s d
    using assign_pair_rows[OF t that] survivor_row[of _ q t] by metis
  have lost: "row_id r \<in> fst ` set (all_losers (assign_planner q t)) \<longleftrightarrow>
    assign_moving q r \<and> hd (assign_group q t (content_key r)) \<noteq> (False, r)" if "r \<in> set (ns_chunks t)" for r
    by (rule assign_loser_iff[OF t that])
  show "plans_ok t (assign_planner q t)"
    unfolding plans_ok_def pairs_ok_def
  proof (intro conjI)
    have rows: "set (concat (map (\<lambda>k. group_losers (assign_group q t k)) (assign_keys q t))) \<subseteq> set (ns_chunks t)"
      by (auto simp: group_loser_iff[OF t])
    have "distinct (group_losers (assign_group q t k))" for k
      using distinct_assign_group[OF t, of q k]
      by (auto simp: group_losers_def distinct_map inj_on_def distinct_tl)
    then have "distinct (concat (map (\<lambda>k. group_losers (assign_group q t k)) ks))"
      if "distinct ks" "set ks \<subseteq> set (assign_keys q t)" for ks
      using that by (induction ks) (auto simp: group_loser_iff[OF t])
    from this[OF distinct_assign_keys order_refl]
    have "distinct (map row_id (concat (map (\<lambda>k. group_losers (assign_group q t k)) (assign_keys q t))))"
      using rows ids by (auto simp: distinct_map intro: inj_on_subset)
    then show "distinct (map snd (plan_pairs (assign_planner q t)))"
      by (simp add: plan_pairs_losers assign_losers comp_def)
    show "fst ` set (plan_pairs (assign_planner q t)) \<inter> snd ` set (plan_pairs (assign_planner q t)) = {}"
    proof (rule ccontr)
      assume "\<not> ?thesis"
      then obtain s where s: "s \<in> fst ` set (plan_pairs (assign_planner q t))"
          "s \<in> fst ` set (all_losers (assign_planner q t))" by (auto simp: plan_pairs_gone)
      obtain d where "(s, d) \<in> set (plan_pairs (assign_planner q t))" using s(1) by auto
      from assign_pair_rows[OF t this] obtain k where k: "k \<in> set (assign_keys q t)"
          "s = row_id (snd (hd (assign_group q t k)))" by auto
      from lost[OF survivor_row(1)[OF k(1)]] s(2) k(2)
      have "hd (assign_group q t k) \<noteq> (False, snd (hd (assign_group q t k)))"
          "assign_moving q (snd (hd (assign_group q t k)))"
        by (auto simp: survivor_row(2)[OF k(1)])
      then show False using survivor_row(4)[OF k(1)] by (metis prod.collapse)
    qed
    show "set (all_losers (assign_planner q t)) \<subseteq> (\<lambda>r. (row_id r, row_no r)) ` set (ns_chunks t)"
      using rows by (auto simp: assign_losers)
    show "fst ` set (plan_pairs (assign_planner q t)) \<subseteq> chunk_ids t"
      using twin by force
  qed
  show "inj_on content_key {r \<in> set (ns_chunks t). row_id r \<notin> fst ` set (all_losers (assign_planner q t)) \<and>
        (assign_moving q r \<or> row_ns r = fst q)}"
  proof (rule inj_onI, clarify)
    fix r s assume rs: "r \<in> set (ns_chunks t)" "s \<in> set (ns_chunks t)" "content_key r = content_key s"
      and out: "row_id r \<notin> fst ` set (all_losers (assign_planner q t))" "row_id s \<notin> fst ` set (all_losers (assign_planner q t))"
      and grp: "assign_moving q r \<or> row_ns r = fst q" "assign_moving q s \<or> row_ns s = fst q"
    have key: "content_key r \<in> set (assign_keys q t)" if "assign_moving q r \<or> assign_moving q s"
      using that rs unfolding set_assign_keys by (metis (mono_tags, lifting) image_eqI mem_Collect_eq)
    consider "assign_moving q r" "assign_moving q s" | "row_ns r = row_ns s"
      | "assign_moving q r" "row_ns s = fst q" | "assign_moving q s" "row_ns r = fst q"
      using grp by auto
    then show "r = s"
    proof cases
      case 1
      then show ?thesis using lost[OF rs(1)] lost[OF rs(2)] out rs(3) by auto
    next
      case 2
      then show ?thesis using row_by_key[OF keys] rs by (simp add: index_key_def)
    next
      case 3
      then show ?thesis using lost[OF rs(1)] out target_first[OF key rs(2)] rs(3) by auto
    next
      case 4
      then show ?thesis using lost[OF rs(2)] out target_first[OF key rs(1)] rs(3) by auto
    qed
  qed
qed

section \<open>Frozen candidates\<close>

lemma one_match:
  "distinct (map row_id rows) \<Longrightarrow> length (filter (matches_candidate c) rows) \<le> 1"
proof (induction rows)
  case (Cons r rows)
  have "filter (matches_candidate c) rows = []" if "matches_candidate c r"
    using Cons.prems that by (auto simp: filter_empty_conv matches_candidate_def image_iff)
  with Cons show ?case by auto
qed simp

lemma sum_matches:
  assumes "distinct (map cand_id cs)"
  shows "sum_list (map (\<lambda>c. length (filter (matches_candidate c) rows)) cs) = length (filter (frozen (Some cs)) rows)"
  using assms
proof (induction cs)
  case Nil
  show ?case by (simp add: frozen_def)
next
  case (Cons c cs)
  have no: "\<not> (matches_candidate c r \<and> frozen (Some cs) r)" for r
    using Cons.prems by (auto simp: frozen_def list_ex_iff matches_candidate_def image_iff)
  have "filter (frozen (Some (c # cs))) rows = filter (\<lambda>r. matches_candidate c r \<or> frozen (Some cs) r) rows"
    by (rule filter_cong) (simp_all add: frozen_def)
  moreover have "length (filter (\<lambda>r. matches_candidate c r \<or> frozen (Some cs) r) rows) =
      length (filter (matches_candidate c) rows) + length (filter (frozen (Some cs)) rows)"
    using no by (induction rows) auto
  ultimately show ?case using Cons by simp
qed

lemma filter_full:
  assumes "\<And>x. x \<in> set xs \<Longrightarrow> P x \<Longrightarrow> Q x" "length (filter P xs) = length (filter Q xs)" "x \<in> set xs"
  shows "P x \<longleftrightarrow> Q x"
proof -
  have "filter P xs = filter P (filter Q xs)" using assms(1) by (auto intro: filter_cong)
  then have "length (filter P (filter Q xs)) = length (filter Q xs)" using assms(2) by simp
  then have "\<forall>x \<in> set (filter Q xs). P x" by (metis length_filter_less less_irrefl)
  then show ?thesis using assms(1,3) by auto
qed

text \<open>
  A snapshot that passed the check, taken with the filter of the operation, freezes exactly
  the rows the filter selects now.
\<close>

definition snapshot_of :: "(ns_row \<Rightarrow> bool) \<Rightarrow> ns_candidate list option \<Rightarrow> ns_tables \<Rightarrow> bool" where
  "snapshot_of sel cands t \<longleftrightarrow> list_all (\<lambda>r. cands \<noteq> None \<and> frozen cands r \<longrightarrow> sel r) (ns_chunks t)"

lemma frozen_exact:
  assumes "stage_candidates cands sel t = Inr ()" "snapshot_of sel cands t" "r \<in> set (ns_chunks t)"
  shows "(if cands = None then sel r else frozen cands r) \<longleftrightarrow> sel r"
proof (cases cands)
  case (Some cs)
  have d: "distinct (map cand_id cs)" and len: "length (filter (frozen (Some cs)) (ns_chunks t)) = length cs"
      "length (filter sel (ns_chunks t)) = length cs"
    using assms(1) Some sum_matches[of cs "ns_chunks t"] by (auto simp: stage_candidates_def Let_def split: if_splits)
  have "frozen (Some cs) r \<longleftrightarrow> sel r"
    by (rule filter_full[OF _ _ assms(3)]) (use assms(2) Some len in \<open>auto simp: snapshot_of_def list_all_iff\<close>)
  with Some show ?thesis by simp
qed simp

lemma stage_None [simp]: "stage_candidates None sel t = Inr ()"
  by (simp add: stage_candidates_def)

lemma stage_no_failure: "stage_candidates cands sel t = Inl e \<Longrightarrow>
  e = NsBusy \<or> (e = NsFailed \<and> (\<exists>cs. cands = Some cs \<and> \<not> distinct (map cand_id cs)))"
  by (auto simp: stage_candidates_def Let_def split: option.splits if_splits)

section \<open>Renaming\<close>

lemma consolidates_cong:
  "(\<And>r. r \<in> set (ns_chunks t) \<Longrightarrow> p r = q r) \<Longrightarrow> consolidates target p t u \<Longrightarrow> consolidates target q t u"
proof -
  assume eq: "\<And>r. r \<in> set (ns_chunks t) \<Longrightarrow> p r = q r" and c: "consolidates target p t u"
  have "filter p (ns_chunks t) = filter q (ns_chunks t)" "filter (\<lambda>r. \<not> p r) (ns_chunks t) = filter (\<lambda>r. \<not> q r) (ns_chunks t)"
    using eq by (auto intro: filter_cong)
  moreover have "moved_row p target ` set (ns_chunks t) = moved_row q target ` set (ns_chunks t)"
    using eq by (auto simp: moved_row_def intro!: image_cong)
  ultimately show "consolidates target q t u" using c by (simp add: consolidates_def)
qed

lemma consolidates_frame [simp]:
  "consolidates target p t (u\<lparr>ns_metas := a\<rparr>) = consolidates target p t u"
  "consolidates target p t (u\<lparr>ns_sessions := b\<rparr>) = consolidates target p t u"
proof -
  have "heir target t (u\<lparr>ns_metas := a\<rparr>) = heir target t u" "heir target t (u\<lparr>ns_sessions := b\<rparr>) = heir target t u"
    by (simp_all add: heir_def fun_eq_iff cong: option.case_cong)
  then show "consolidates target p t (u\<lparr>ns_metas := a\<rparr>) = consolidates target p t u"
    "consolidates target p t (u\<lparr>ns_sessions := b\<rparr>) = consolidates target p t u"
    by (simp_all add: consolidates_def rows_in_def)
qed

lemma ns_ok_sessions [simp]: "ns_ok (u\<lparr>ns_sessions := b\<rparr>) = ns_ok u"
  by (simp add: ns_ok_def)

lemma ns_ok_metas: "ns_ok u \<Longrightarrow> distinct (map meta_ns a) \<Longrightarrow> ns_ok (u\<lparr>ns_metas := a\<rparr>)"
  by (simp add: ns_ok_def)

lemma exists_chunks: "namespace_exists n t \<longleftrightarrow> 0 < count_chunks_by_namespace n t \<or> has_namespace_meta n t"
  by (auto simp: namespace_exists_def count_chunks_by_namespace_def rows_in_def list_ex_iff filter_empty_conv)

lemma has_meta_iff: "has_namespace_meta n t \<longleftrightarrow> n \<in> meta_ns ` set (ns_metas t)"
  by (auto simp: has_namespace_meta_def find_meta_def find_None_iff)

lemma no_plans: "drop_duplicate_plans [] t = Some (0, t)"
  by (simp add: drop_duplicate_plans_def)

lemma rename_plans_none: "count_chunks_by_namespace new t = 0 \<Longrightarrow> rename_planner (old, new, cands) t = []"
  by (auto simp: rename_planner_def rename_plans_def twins_def count_chunks_by_namespace_def rows_in_def filter_empty_conv)

text \<open>The chunk rows of a rename: the duplicates of a merge dropped, the rest moved.\<close>

definition rename_drop :: "bool \<Rightarrow> ustr \<times> ustr \<times> ns_candidate list option \<Rightarrow> ns_tables \<Rightarrow> (nat \<times> ns_tables) option" where
  "rename_drop merged q t = (if merged then drop_duplicate_plans (rename_planner q t) t else Some (0, t))"

lemma rename_chunks:
  assumes ok: "ns_ok t" and legal: "fst q \<noteq> fst (snd q)"
    and merged: "merged \<or> count_chunks_by_namespace (fst (snd q)) t = 0"
  shows "\<exists>n k u v. rename_drop merged q t = Some (n, u) \<and>
    move_chunks (rename_moving q) (fst (snd q)) u = Some (k, v) \<and>
    k + n = length (filter (rename_moving q) (ns_chunks t)) \<and> ns_ok v \<and>
    consolidates (fst (snd q)) (rename_moving q) t v \<and> ns_metas v = ns_metas t \<and> ns_sessions v = ns_sessions t"
proof -
  obtain u where u: "drop_duplicate_plans (rename_planner q t) t = Some (length (all_losers (rename_planner q t)), u)"
      "dropped_by (rename_planner q t) t u"
    using drop_plans[OF ok renamer.fits[OF legal ok]] by auto
  let ?v = "u\<lparr>ns_chunks := map (moved_row (rename_moving q) (fst (snd q))) (ns_chunks u)\<rparr>"
  note mv = renamer.moves[OF legal ok u(2)]
  have "rename_drop merged q t = Some (length (all_losers (rename_planner q t)), u)"
  proof (cases merged)
    case True
    with u(1) show ?thesis by (simp add: rename_drop_def)
  next
    case False
    with merged have none: "rename_planner q t = []"
      using rename_plans_none[of "fst (snd q)" t "fst q" "snd (snd q)"] by simp
    with u(1) False show ?thesis by (simp add: no_plans all_losers_def rename_drop_def)
  qed
  moreover have "ns_metas ?v = ns_metas t" "ns_sessions ?v = ns_sessions t"
    using u(2) by (simp_all add: dropped_by_def)
  ultimately show ?thesis
    using mv renamer.counted[OF legal ok u(2)] by blast
qed

lemma find_meta_frame [simp]:
  "find_meta n (t\<lparr>ns_chunks := c\<rparr>) = find_meta n t" "find_meta n (t\<lparr>ns_sessions := b\<rparr>) = find_meta n t"
  by (simp_all add: find_meta_def)

lemma has_meta_cong: "ns_metas u = ns_metas t \<Longrightarrow> has_namespace_meta n u = has_namespace_meta n t"
  by (simp add: has_namespace_meta_def find_meta_def)

text \<open>What a namespace's metadata shows; the times of a row are not part of it.\<close>

definition meta_view :: "ustr \<Rightarrow> ns_tables \<Rightarrow> (ustr \<times> ustr) option" where
  "meta_view n t = map_option (\<lambda>m. (meta_description m, meta_color m)) (find_meta n t)"

lemma find_map: "find P (map f xs) = map_option f (find (P \<circ> f) xs)"
  by (induction xs) auto

lemma find_filter: "(\<And>x. P x \<Longrightarrow> Q x) \<Longrightarrow> find P (filter Q xs) = find P xs"
  by (induction xs) auto

lemma find_cong_pred: "(\<And>x. x \<in> set xs \<Longrightarrow> P x = Q x) \<Longrightarrow> find P xs = find Q xs"
  by (induction xs) auto

lemma find_meta_set [simp]: "find_meta n (t\<lparr>ns_metas := a\<rparr>) = find (\<lambda>m. meta_ns m = n) a"
  by (simp add: find_meta_def)

lemma find_meta_ns: "find_meta n t = Some m \<Longrightarrow> meta_ns m = n"
  by (auto simp: find_meta_def find_Some_iff)

definition touch_meta :: "ustr \<Rightarrow> ustr \<Rightarrow> ns_meta \<Rightarrow> ns_meta" where
  "touch_meta new now m = (if meta_ns m = new then m\<lparr>meta_updated := now\<rparr> else m)"

definition turn_meta :: "ustr \<Rightarrow> ustr \<Rightarrow> ustr \<Rightarrow> ns_meta \<Rightarrow> ns_meta" where
  "turn_meta old new now m = (if meta_ns m = old then m\<lparr>meta_ns := new, meta_updated := now\<rparr> else m)"

lemma meta_turns [simp]:
  "meta_ns (touch_meta new now m) = meta_ns m"
  "meta_ns (turn_meta old new now m) = (if meta_ns m = old then new else meta_ns m)"
  "meta_description (touch_meta new now m) = meta_description m"
  "meta_color (touch_meta new now m) = meta_color m"
  "meta_description (turn_meta old new now m) = meta_description m"
  "meta_color (turn_meta old new now m) = meta_color m"
  by (simp_all add: touch_meta_def turn_meta_def)

lemma turns_idle:
  "n \<noteq> new \<Longrightarrow> map_option (touch_meta new now) (find_meta n t) = find_meta n t"
  "n \<noteq> old \<Longrightarrow> map_option (turn_meta old new now) (find_meta n t) = find_meta n t"
  by (cases "find_meta n t"; auto simp: touch_meta_def turn_meta_def dest: find_meta_ns)+

lemma touched_metas:
  fixes old new now :: ustr and t :: ns_tables
  defines "a \<equiv> filter (\<lambda>m. meta_ns m \<noteq> old) (map (touch_meta new now) (ns_metas t))"
  shows "n \<noteq> old \<Longrightarrow> find (\<lambda>m. meta_ns m = n) a = map_option (touch_meta new now) (find_meta n t)"
    and "find (\<lambda>m. meta_ns m = old) a = None"
    and "distinct (map meta_ns (ns_metas t)) \<Longrightarrow> distinct (map meta_ns a)"
proof -
  show "find (\<lambda>m. meta_ns m = n) a = map_option (touch_meta new now) (find_meta n t)" if "n \<noteq> old"
    using that unfolding a_def by (subst find_filter) (auto simp: find_map find_meta_def comp_def)
  show "find (\<lambda>m. meta_ns m = old) a = None"
    by (auto simp: a_def find_None_iff)
  show "distinct (map meta_ns a)" if "distinct (map meta_ns (ns_metas t))"
    using that unfolding a_def by (intro distinct_map_filter) (simp add: comp_def)
qed

lemma turned_metas:
  fixes old new now :: ustr and t :: ns_tables
  assumes "old \<noteq> new" "\<not> has_namespace_meta new t"
  defines "a \<equiv> map (turn_meta old new now) (ns_metas t)"
  shows "find (\<lambda>m. meta_ns m = new) a = map_option (turn_meta old new now) (find_meta old t)"
    and "n \<noteq> old \<Longrightarrow> n \<noteq> new \<Longrightarrow> find (\<lambda>m. meta_ns m = n) a = map_option (turn_meta old new now) (find_meta n t)"
    and "find (\<lambda>m. meta_ns m = old) a = None"
    and "distinct (map meta_ns (ns_metas t)) \<Longrightarrow> distinct (map meta_ns a)"
proof -
  have out: "meta_ns m \<noteq> new" if "m \<in> set (ns_metas t)" for m
    using assms(2) that by (auto simp: has_meta_iff)
  show "find (\<lambda>m. meta_ns m = new) a = map_option (turn_meta old new now) (find_meta old t)"
    unfolding a_def find_map find_meta_def using out
    by (intro arg_cong[of _ _ "map_option (turn_meta old new now)"] find_cong_pred) auto
  show "find (\<lambda>m. meta_ns m = n) a = map_option (turn_meta old new now) (find_meta n t)" if "n \<noteq> old" "n \<noteq> new"
    unfolding a_def find_map find_meta_def using that
    by (intro arg_cong[of _ _ "map_option (turn_meta old new now)"] find_cong_pred) auto
  show "find (\<lambda>m. meta_ns m = old) a = None"
    using assms(1) by (auto simp: a_def find_None_iff)
  show "distinct (map meta_ns a)" if "distinct (map meta_ns (ns_metas t))"
    using that out assms(1) by (auto simp: a_def distinct_map inj_on_def split: if_splits)
qed

definition metas_renamed :: "ustr \<Rightarrow> ustr \<Rightarrow> ns_tables \<Rightarrow> ns_tables \<Rightarrow> bool" where
  "metas_renamed old new t u \<longleftrightarrow>
     \<not> has_namespace_meta old u \<and>
     meta_view new u = (if has_namespace_meta new t then meta_view new t else meta_view old t) \<and>
     (\<forall>n. n \<noteq> old \<longrightarrow> n \<noteq> new \<longrightarrow> find_meta n u = find_meta n t)"

lemma rename_metadata_ok:
  assumes ok: "distinct (map meta_ns (ns_metas t))" and ne: "old \<noteq> new"
  shows "\<exists>a. rename_metadata old new now (has_namespace_meta new t) t =
      Some (has_namespace_meta old t \<and> \<not> has_namespace_meta new t, t\<lparr>ns_metas := a\<rparr>) \<and>
    distinct (map meta_ns a) \<and> metas_renamed old new t (t\<lparr>ns_metas := a\<rparr>)"
proof (cases "has_namespace_meta new t")
  case True
  let ?a = "filter (\<lambda>m. meta_ns m \<noteq> old) (map (touch_meta new now) (ns_metas t))"
  note a = touched_metas[where old = old and new = new and now = now]
  have "rename_metadata old new now True t = Some (False, t\<lparr>ns_metas := ?a\<rparr>)"
    by (simp add: rename_metadata_def touch_meta_def[abs_def])
  moreover have "metas_renamed old new t (t\<lparr>ns_metas := ?a\<rparr>)"
    using True ne a(1)[of _ t] a(2)[of t]
    by (simp add: metas_renamed_def has_namespace_meta_def meta_view_def turns_idle option.map_comp comp_def)
  ultimately show ?thesis using True a(3)[OF ok] by (intro exI[of _ ?a]) simp
next
  case False
  let ?a = "map (turn_meta old new now) (ns_metas t)"
  note a = turned_metas[OF ne False, where now = now]
  have "rename_metadata old new now False t = Some (has_namespace_meta old t, t\<lparr>ns_metas := ?a\<rparr>)"
    using a(4)[OF ok] by (simp add: rename_metadata_def turn_meta_def[abs_def])
  moreover have "metas_renamed old new t (t\<lparr>ns_metas := ?a\<rparr>)"
    using False ne a(1) a(2) a(3)
    by (simp add: metas_renamed_def has_namespace_meta_def meta_view_def turns_idle option.map_comp comp_def)
  ultimately show ?thesis using False a(4)[OF ok] by (intro exI[of _ ?a]) simp
qed

lemma consolidates_old_gone:
  "consolidates new (\<lambda>r. row_ns r = old) t u \<Longrightarrow> old \<noteq> new \<Longrightarrow> r \<in> set (ns_chunks u) \<Longrightarrow> row_ns r \<noteq> old"
proof -
  assume c: "consolidates new (\<lambda>r. row_ns r = old) t u" and ne: "old \<noteq> new" and r: "r \<in> set (ns_chunks u)"
  then obtain s where "r = moved_row (\<lambda>r. row_ns r = old) new s" unfolding consolidates_def by blast
  with ne show ?thesis by simp
qed

text \<open>
  A rename past its checks always ends: its moves and its metadata fit the unique keys,
  whatever rows the snapshot froze.
\<close>

lemma rename_tables_eq:
  "rename_tables old new merge cands now t =
     bind_res (map_sum (\<lambda>e. (e, t)) id (stage_candidates cands (\<lambda>r. row_ns r = old) t)) (\<lambda>_.
       if \<not> namespace_exists old t then
         Inr (\<lparr>rn_moved = 0, rn_metadata = False, rn_merged = False, rn_dropped = 0\<rparr>, t)
       else if namespace_exists new t \<and> \<not> merge then Inl (TargetExists, t)
       else
         case rename_drop (namespace_exists new t) (old, new, cands) t of
           None \<Rightarrow> Inl (NsFailed, t)
         | Some (dropped, t1) \<Rightarrow>
             (case move_chunks (rename_moving (old, new, cands)) new t1 of
                None \<Rightarrow> Inl (NsFailed, t1)
              | Some (moved, t2) \<Rightarrow>
                  (case rename_metadata old new now (has_namespace_meta new t) (rename_sessions old new t2) of
                     None \<Rightarrow> Inl (NsFailed, rename_sessions old new t2)
                   | Some (renamed, t3) \<Rightarrow>
                       Inr (\<lparr>rn_moved = moved, rn_metadata = renamed, rn_merged = namespace_exists new t,
                             rn_dropped = dropped\<rparr>, t3))))"
  unfolding rename_tables_def Let_def exists_chunks[symmetric] rename_drop_def rename_planner_def rename_moving_def[abs_def] fst_conv snd_conv ..

lemma rename_ends:
  assumes ok: "ns_ok t" and ne: "old \<noteq> new"
    and staged: "stage_candidates cands (\<lambda>r. row_ns r = old) t = Inr ()"
    and names: "namespace_exists old t" "merge \<or> \<not> namespace_exists new t"
  shows "\<exists>res v a. rename_tables old new merge cands now t = Inr (res, (rename_sessions old new v)\<lparr>ns_metas := a\<rparr>) \<and>
    ns_ok v \<and> consolidates new (rename_moving (old, new, cands)) t v \<and>
    rn_moved res + rn_dropped res = length (filter (rename_moving (old, new, cands)) (ns_chunks t)) \<and>
    rn_merged res = namespace_exists new t \<and>
    rn_metadata res = (has_namespace_meta old t \<and> \<not> has_namespace_meta new t) \<and>
    distinct (map meta_ns a) \<and> metas_renamed old new t (t\<lparr>ns_metas := a\<rparr>) \<and> ns_sessions v = ns_sessions t"
proof -
  let ?q = "(old, new, cands)" and ?m = "namespace_exists new t"
  have "?m \<or> count_chunks_by_namespace (fst (snd ?q)) t = 0" by (auto simp: exists_chunks)
  from rename_chunks[OF ok _ this] ne obtain n k u v where
      drop: "rename_drop ?m ?q t = Some (n, u)" and move: "move_chunks (rename_moving ?q) new u = Some (k, v)"
      and cnt: "k + n = length (filter (rename_moving ?q) (ns_chunks t))"
      and v: "ns_ok v" "consolidates new (rename_moving ?q) t v" "ns_metas v = ns_metas t" "ns_sessions v = ns_sessions t"
    by auto
  let ?w = "rename_sessions old new v"
  have w: "ns_metas ?w = ns_metas t" "has_namespace_meta n ?w = has_namespace_meta n t" for n
    using v(3) by (simp_all add: rename_sessions_def has_namespace_meta_def find_meta_def)
  have "distinct (map meta_ns (ns_metas ?w))" using ok w(1) by (simp add: ns_ok_def)
  from rename_metadata_ok[OF this ne, of now] obtain a where
      a: "rename_metadata old new now (has_namespace_meta new t) ?w =
        Some (has_namespace_meta old t \<and> \<not> has_namespace_meta new t, ?w\<lparr>ns_metas := a\<rparr>)"
      "distinct (map meta_ns a)" "metas_renamed old new ?w (?w\<lparr>ns_metas := a\<rparr>)"
    by (auto simp: w)
  have "metas_renamed old new t (t\<lparr>ns_metas := a\<rparr>)"
    using a(3) w by (simp add: metas_renamed_def has_namespace_meta_def meta_view_def find_meta_def)
  moreover have "rename_tables old new merge cands now t =
      Inr (\<lparr>rn_moved = k, rn_metadata = has_namespace_meta old t \<and> \<not> has_namespace_meta new t,
            rn_merged = ?m, rn_dropped = n\<rparr>, ?w\<lparr>ns_metas := a\<rparr>)"
    using staged names drop move a(1)
    by (auto simp: rename_tables_eq)
  ultimately show ?thesis
    using v(1,2,4) cnt a(2) by (intro exI[of _ v] exI[of _ a] exI conjI) auto
qed

lemma rename_exact:
  assumes ok: "ns_ok t" and names: "old \<noteq> new" "namespace_exists old t" "merge \<or> \<not> namespace_exists new t"
    and staged: "stage_candidates cands (\<lambda>r. row_ns r = old) t = Inr ()"
    and snapshot: "snapshot_of (\<lambda>r. row_ns r = old) cands t"
  shows "\<exists>res u. rename_tables old new merge cands now t = Inr (res, u) \<and> ns_ok u \<and>
    consolidates new (\<lambda>r. row_ns r = old) t u \<and>
    rn_moved res + rn_dropped res = count_chunks_by_namespace old t \<and>
    rn_merged res = namespace_exists new t \<and>
    \<not> namespace_exists old u \<and> metas_renamed old new t u \<and>
    ns_sessions u = map (\<lambda>s. if sess_ns s = old then s\<lparr>sess_ns := new\<rparr> else s) (ns_sessions t)"
proof -
  from rename_ends[OF ok names(1) staged names(2,3)] obtain res v a where
      r: "rename_tables old new merge cands now t = Inr (res, (rename_sessions old new v)\<lparr>ns_metas := a\<rparr>)"
      and v: "ns_ok v" "consolidates new (rename_moving (old, new, cands)) t v"
      and cnt: "rn_moved res + rn_dropped res = length (filter (rename_moving (old, new, cands)) (ns_chunks t))"
      and m: "rn_merged res = namespace_exists new t" "distinct (map meta_ns a)" "metas_renamed old new t (t\<lparr>ns_metas := a\<rparr>)"
      and s: "ns_sessions v = ns_sessions t"
    by blast
  let ?u = "(rename_sessions old new v)\<lparr>ns_metas := a\<rparr>"
  have mov: "rename_moving (old, new, cands) r \<longleftrightarrow> row_ns r = old" if "r \<in> set (ns_chunks t)" for r
    using frozen_exact[OF staged snapshot that]
    by (auto simp: rename_moving_def frozen_def split: if_splits option.splits)
  have c: "consolidates new (\<lambda>r. row_ns r = old) t v"
    by (rule consolidates_cong[OF mov v(2)])
  have u: "consolidates new (\<lambda>r. row_ns r = old) t ?u" "ns_ok ?u"
    using c v(1) m(2) by (simp_all add: rename_sessions_def ns_ok_metas)
  have "filter (rename_moving (old, new, cands)) (ns_chunks t) = rows_in old t"
    using mov by (auto simp: rows_in_def intro: filter_cong)
  then have n: "rn_moved res + rn_dropped res = count_chunks_by_namespace old t"
    using cnt by (simp add: count_chunks_by_namespace_def)
  have meta: "metas_renamed old new t ?u"
    using m(3) by (simp add: metas_renamed_def has_namespace_meta_def meta_view_def)
  have "\<not> namespace_exists old ?u"
    using consolidates_old_gone[OF u(1) names(1)] meta by (auto simp: namespace_exists_def list_ex_iff metas_renamed_def)
  with r u n m(1) meta s show ?thesis
    by (intro exI[of _ res] exI[of _ ?u]) (simp add: rename_sessions_def)
qed


section \<open>Assigning\<close>

context merge_planner begin

text \<open>Nothing is lost just when no two of the rows that would meet have one content.\<close>

lemma no_losers:
  assumes l: "legal q" and t: "ns_ok t"
  shows "all_losers (planner q t) = [] \<longleftrightarrow>
    inj_on content_key {r \<in> set (ns_chunks t). moving q r \<or> row_ns r = target q}"
proof
  show "inj_on content_key {r \<in> set (ns_chunks t). moving q r \<or> row_ns r = target q}"
    if "all_losers (planner q t) = []"
    using apart[OF l t] that by simp
  assume inj: "inj_on content_key {r \<in> set (ns_chunks t). moving q r \<or> row_ns r = target q}"
  show "all_losers (planner q t) = []"
  proof (rule ccontr)
    assume "all_losers (planner q t) \<noteq> []"
    then have "plan_pairs (planner q t) \<noteq> []" by (metis list.map_disc_iff plan_pairs_losers)
    then obtain s d where sd: "(s, d) \<in> set (plan_pairs (planner q t))" by (cases "plan_pairs (planner q t)") auto
    from pairs[OF l t sd] obtain a b where ab: "a \<in> set (ns_chunks t)" "b \<in> set (ns_chunks t)" "row_id a = s"
        "row_id b = d" "content_key a = content_key b" "moving q b" "moving q a \<or> row_ns a = target q"
      by auto
    with inj have "a = b" by (auto dest: inj_onD)
    with ab(3,4) sd fits[OF l t] show False by (force simp: plans_ok_def pairs_ok_def)
  qed
qed

end

definition assign_overlap :: "duplicate_plan list \<Rightarrow> nat" where
  "assign_overlap plans = sum_list (map (\<lambda>p. length (losers p)) plans)"

lemma overlap_losers: "assign_overlap plans = length (all_losers plans)"
  by (simp add: assign_overlap_def all_losers_def length_concat comp_def)

text \<open>The rows an assignment takes: those frozen, or without a snapshot those the filter selects.\<close>

definition assign_sel :: "ustr option \<Rightarrow> ustr option \<Rightarrow> ns_candidate list option \<Rightarrow> ns_row \<Rightarrow> bool" where
  "assign_sel src old cands = (if cands = None then row_selected src old else frozen cands)"

lemma assign_tables_eq:
  "assign_tables target src old merge cands t =
     bind_res (map_sum (\<lambda>e. (e, t)) id (stage_candidates cands (\<lambda>r. row_selected src old r \<and> row_ns r \<noteq> target) t)) (\<lambda>_.
       let plans = assign_planner (target, assign_sel src old cands) t in
       if 0 < length (all_losers plans) \<and> \<not> merge then Inl (ChunkOverlap, t)
       else
         case (if 0 < length (all_losers plans) then drop_duplicate_plans plans t else Some (0, t)) of
           None \<Rightarrow> Inl (NsFailed, t)
         | Some (dropped, t1) \<Rightarrow>
             (case move_chunks (if cands = None then \<lambda>r. row_selected src old r \<and> row_ns r \<noteq> target else frozen cands) target t1 of
                None \<Rightarrow> Inl (NsFailed, t1)
              | Some (moved, t2) \<Rightarrow> Inr (\<lparr>as_moved = moved, as_dropped = dropped\<rparr>, t2)))"
  unfolding assign_tables_def Let_def overlap_losers[symmetric] assign_overlap_def assign_planner_def assign_sel_def
    fst_conv snd_conv ..

lemma move_chunks_there:
  assumes "move_chunks (\<lambda>r. sel r \<and> row_ns r \<noteq> target) target t = Some (k, u)"
  shows "move_chunks sel target t = Some (length (filter sel (ns_chunks t)), u)"
proof -
  have "(if sel r then r\<lparr>row_ns := target\<rparr> else r) = (if sel r \<and> row_ns r \<noteq> target then r\<lparr>row_ns := target\<rparr> else r)" for r
    by (cases r) simp
  then have "(\<lambda>r. if sel r then r\<lparr>row_ns := target\<rparr> else r) = (\<lambda>r. if sel r \<and> row_ns r \<noteq> target then r\<lparr>row_ns := target\<rparr> else r)"
    by (rule ext)
  with assms show ?thesis unfolding move_chunks_def Let_def by (simp split: if_splits)
qed

lemma assign_ends:
  assumes ok: "ns_ok t"
    and staged: "stage_candidates cands (\<lambda>r. row_selected src old r \<and> row_ns r \<noteq> target) t = Inr ()"
  defines "q \<equiv> (target, assign_sel src old cands)"
  shows "(\<not> merge \<and> all_losers (assign_planner q t) \<noteq> [] \<and> assign_tables target src old merge cands t = Inl (ChunkOverlap, t)) \<or>
    (merge \<or> all_losers (assign_planner q t) = []) \<and>
      (\<exists>k n u v. assign_tables target src old merge cands t = Inr (\<lparr>as_moved = k, as_dropped = n\<rparr>, v) \<and>
        dropped_by (assign_planner q t) t u \<and>
        v = u\<lparr>ns_chunks := map (moved_row (assign_moving q) target) (ns_chunks u)\<rparr> \<and>
        n = length (all_losers (assign_planner q t)) \<and>
        k = length (filter (if cands = None then assign_moving q else frozen cands) (ns_chunks u)))"
proof -
  obtain u where u: "drop_duplicate_plans (assign_planner q t) t = Some (length (all_losers (assign_planner q t)), u)"
      "dropped_by (assign_planner q t) t u"
    using drop_plans[OF ok assigner.fits[OF TrueI ok]] by blast
  have drop: "(if 0 < length (all_losers (assign_planner q t)) then drop_duplicate_plans (assign_planner q t) t else Some (0, t)) =
      Some (length (all_losers (assign_planner q t)), u)"
    using u(1) by (auto simp: drop_duplicate_plans_def all_losers_def Let_def simp del: concat_eq_Nil_conv)
  let ?v = "u\<lparr>ns_chunks := map (moved_row (assign_moving q) target) (ns_chunks u)\<rparr>"
  have mv: "move_chunks (assign_moving q) target u = Some (length (filter (assign_moving q) (ns_chunks u)), ?v)"
    using assigner.moves(1)[OF TrueI ok u(2)] by (simp add: q_def)
  have "move_chunks (if cands = None then \<lambda>r. row_selected src old r \<and> row_ns r \<noteq> target else frozen cands) target u =
      Some (length (filter (if cands = None then assign_moving q else frozen cands) (ns_chunks u)), ?v)"
  proof (cases "cands = None")
    case True
    then have "(\<lambda>r. row_selected src old r \<and> row_ns r \<noteq> target) = assign_moving q"
      by (simp add: fun_eq_iff assign_moving_def q_def assign_sel_def)
    with True mv show ?thesis by simp
  next
    case False
    then have "assign_moving q = (\<lambda>r. frozen cands r \<and> row_ns r \<noteq> target)"
      by (intro ext) (simp only: assign_moving_def q_def assign_sel_def fst_conv snd_conv if_False)
    with mv move_chunks_there[of "frozen cands" target u] show ?thesis
      unfolding if_not_P[OF False] by simp
  qed
  then show ?thesis
    using u(2) drop unfolding assign_tables_eq staged q_def[symmetric] Let_def by auto
qed

text \<open>
  C7. An assignment refuses or consolidates. It is refused just when a merge was not asked for
  and two of the rows that would meet have one content. Otherwise it ends with a well-formed
  store in which the selected contents are in the target as for a rename, the counts add up,
  metadata and sessions are untouched, and of the selected rows with one content the one that
  stays is the most used, then the oldest, then that of the smallest id, provided the target
  had none.
\<close>

theorem assign_keeps_best:
  assumes ok: "ns_ok t"
    and staged: "stage_candidates cands (\<lambda>r. row_selected src old r \<and> row_ns r \<noteq> target) t = Inr ()"
    and snapshot: "snapshot_of (\<lambda>r. row_selected src old r \<and> row_ns r \<noteq> target) cands t"
  defines "moving \<equiv> \<lambda>r. row_selected src old r \<and> row_ns r \<noteq> target"
  defines "overlap \<equiv> \<not> inj_on content_key {r \<in> set (ns_chunks t). moving r \<or> row_ns r = target}"
  shows "if overlap \<and> \<not> merge then assign_tables target src old merge cands t = Inl (ChunkOverlap, t)
    else \<exists>res u. assign_tables target src old merge cands t = Inr (res, u) \<and> ns_ok u \<and>
      consolidates target moving t u \<and> ns_metas u = ns_metas t \<and> ns_sessions u = ns_sessions t \<and>
      as_moved res + as_dropped res = length (filter moving (ns_chunks t)) \<and>
      (\<forall>a \<in> set (ns_chunks t). \<forall>b \<in> set (ns_chunks t).
        moving a \<and> moving b \<and> content_key a = content_key b \<and> row_id a \<in> chunk_ids u \<longrightarrow>
          (- (row_accesses a + row_uses a), row_born a, row_id a) \<le> (- (row_accesses b + row_uses b), row_born b, row_id b) \<and>
          \<not> (\<exists>r \<in> set (rows_in target t). content_key r = content_key a))"
proof -
  let ?q = "(target, assign_sel src old cands)"
  have mov: "assign_moving ?q r \<longleftrightarrow> moving r" if "r \<in> set (ns_chunks t)" for r
    using frozen_exact[OF staged snapshot that]
    by (auto simp: assign_moving_def assign_sel_def moving_def split: if_splits)
  have meet: "{r \<in> set (ns_chunks t). assign_moving ?q r \<or> row_ns r = target} =
      {r \<in> set (ns_chunks t). moving r \<or> row_ns r = target}"
    using mov by auto
  have over: "all_losers (assign_planner ?q t) = [] \<longleftrightarrow> \<not> overlap"
    unfolding overlap_def assigner.no_losers[OF TrueI ok] fst_conv meet by simp
  show ?thesis
  proof (cases "overlap \<and> \<not> merge")
    case True
    with assign_ends[OF ok staged, of merge] over show ?thesis by auto
  next
    case False
    with assign_ends[OF ok staged, of merge] over obtain k n u v where
        r: "assign_tables target src old merge cands t = Inr (\<lparr>as_moved = k, as_dropped = n\<rparr>, v)"
        and u: "dropped_by (assign_planner ?q t) t u"
        and v: "v = u\<lparr>ns_chunks := map (moved_row (assign_moving ?q) target) (ns_chunks u)\<rparr>"
        and n: "n = length (all_losers (assign_planner ?q t))"
        and k: "k = length (filter (if cands = None then assign_moving ?q else frozen cands) (ns_chunks u))"
      by auto
    note mv = assigner.moves[OF TrueI ok u, unfolded fst_conv, folded v]
    have chunks: "ns_chunks u = without (fst ` set (all_losers (assign_planner ?q t))) (ns_chunks t)"
      using u by (simp add: dropped_by_def)
    have fr: "(if cands = None then assign_moving ?q r else frozen cands r) = assign_moving ?q r"
      if "r \<in> set (ns_chunks t)" for r
      using frozen_exact[OF staged snapshot that] mov[OF that] by (auto simp: moving_def)
    have "filter (if cands = None then assign_moving ?q else frozen cands) (ns_chunks u) = filter (assign_moving ?q) (ns_chunks u)"
      using fr by (intro filter_cong) (auto simp: chunks split: if_splits)
    moreover have "filter (assign_moving ?q) (ns_chunks t) = filter moving (ns_chunks t)"
      using mov by (auto intro: filter_cong)
    ultimately have cnt: "k + n = length (filter moving (ns_chunks t))"
      using assigner.counted[OF TrueI ok u] k n by simp
    have "chunk_ids v = row_id ` set (ns_chunks u)" by (simp add: v image_image)
    then have ids: "chunk_ids v = chunk_ids t - fst ` set (all_losers (assign_planner ?q t))"
      unfolding chunks by (simp only: ids_without)
    have best: "(- (row_accesses a + row_uses a), row_born a, row_id a) \<le> (- (row_accesses b + row_uses b), row_born b, row_id b) \<and>
        \<not> (\<exists>r \<in> set (rows_in target t). content_key r = content_key a)"
      if a: "a \<in> set (ns_chunks t)" "moving a" and b: "b \<in> set (ns_chunks t)" "moving b"
        and eq: "content_key a = content_key b" and stay: "row_id a \<in> chunk_ids v" for a b
    proof -
      have "row_id a \<notin> fst ` set (all_losers (assign_planner ?q t))"
        using stay ids by blast
      then have hd: "hd (assign_group ?q t (content_key a)) = (False, a)"
        using assign_loser_iff[OF ok a(1)] mov[OF a(1)] a(2) by auto
      have key: "content_key a \<in> set (assign_keys ?q t)"
        using a mov[OF a(1)] by (auto simp: set_assign_keys)
      have "(False, b) \<in> set (assign_group ?q t (content_key a))"
        using b mov[OF b(1)] eq by (auto simp: set_assign_group)
      from assign_group_best[OF key this] hd
      have "(- (row_accesses a + row_uses a), row_born a, row_id a) \<le> (- (row_accesses b + row_uses b), row_born b, row_id b)"
        by (simp add: assign_rank_def)
      moreover have "\<not> (\<exists>r \<in> set (rows_in target t). content_key r = content_key a)"
        using target_first[OF key] hd by (auto simp: rows_in_def)
      ultimately show ?thesis by blast
    qed
    have "ns_metas v = ns_metas t" "ns_sessions v = ns_sessions t"
      using u by (simp_all add: v dropped_by_def)
    moreover have "consolidates target moving t v"
      by (rule consolidates_cong[OF mov mv(3)])
    ultimately have "\<exists>res u. assign_tables target src old merge cands t = Inr (res, u) \<and> ns_ok u \<and>
      consolidates target moving t u \<and> ns_metas u = ns_metas t \<and> ns_sessions u = ns_sessions t \<and>
      as_moved res + as_dropped res = length (filter moving (ns_chunks t)) \<and>
      (\<forall>a \<in> set (ns_chunks t). \<forall>b \<in> set (ns_chunks t).
        moving a \<and> moving b \<and> content_key a = content_key b \<and> row_id a \<in> chunk_ids u \<longrightarrow>
          (- (row_accesses a + row_uses a), row_born a, row_id a) \<le> (- (row_accesses b + row_uses b), row_born b, row_id b) \<and>
          \<not> (\<exists>r \<in> set (rows_in target t). content_key r = content_key a))"
      using r mv(2) cnt best by (intro exI[of _ "\<lparr>as_moved = k, as_dropped = n\<rparr>"] exI[of _ v]) auto
    then show ?thesis unfolding if_not_P[OF False] .
  qed
qed

section \<open>The store over a run of writes\<close>

lemma delete_tables_ok:
  assumes ok: "ns_ok t"
  shows "\<exists>u. delete_tables n t = Inr (count_chunks_by_namespace n t, u) \<and> ns_ok u \<and> \<not> namespace_exists n u \<and>
    ns_chunks u = filter (\<lambda>r. row_ns r \<noteq> n) (ns_chunks t)"
proof -
  let ?rows = "rows_in n t"
  let ?d = "delete_batch (map row_id ?rows) (map row_no ?rows) t"
  let ?u = "?d\<lparr>ns_metas := filter (\<lambda>m. meta_ns m \<noteq> n) (ns_metas ?d)\<rparr>"
  have ids: "distinct (map row_id (ns_chunks t))" using ok by (simp add: ns_ok_def)
  have "row_id r \<in> row_id ` set ?rows \<longleftrightarrow> row_ns r = n" if "r \<in> set (ns_chunks t)" for r
    using row_by_id[OF ids that] that by (auto simp: rows_in_def)
  then have chunks: "ns_chunks ?u = filter (\<lambda>r. row_ns r \<noteq> n) (ns_chunks t)"
    by (simp add: delete_batch_def cong: filter_cong)
  have gone: "chunk_ids ?u = chunk_ids t - row_id ` set ?rows"
    by (auto simp: delete_batch_def)
  have refs: "list_all (ref_table_ok (chunk_ids ?u)) (ns_refs ?u)"
    unfolding gone using ok by (auto simp: delete_batch_def ns_ok_def list_all_iff intro!: chunks_gone_ok)
  have "sidecars_ok (delete_batch (map fst (map (\<lambda>r. (row_id r, row_no r)) ?rows)) (map snd (map (\<lambda>r. (row_id r, row_no r)) ?rows)) t)"
    using ok ids by (intro sidecars_without) (auto simp: ns_ok_def rows_in_def)
  then have "sidecars_ok ?u" by (simp add: comp_def)
  moreover have "distinct (map meta_ns (ns_metas ?u))"
    using ok by (simp add: ns_ok_def delete_batch_def distinct_map_filter)
  ultimately have "ns_ok ?u"
    using ok refs chunks unfolding ns_ok_def chunks by (simp add: distinct_map_filter)
  moreover have "\<not> namespace_exists n ?u"
    using chunks by (auto simp: namespace_exists_def list_ex_iff has_namespace_meta_def find_None_iff)
  moreover have "delete_tables n t = Inr (count_chunks_by_namespace n t, ?u)"
    by (simp add: delete_tables_def Let_def count_chunks_by_namespace_def delete_chunk_rows_all)
  ultimately show ?thesis using chunks by blast
qed

lemma meta_tables_ok:
  assumes "ns_ok t"
  shows "\<exists>u. meta_tables n desc color now t = Inr ((), u) \<and> ns_ok u"
proof -
  have same: "meta_ns (if meta_ns m = n then update_meta desc color now m else m) = meta_ns m" for m
    by (simp add: update_meta_def)
  have "distinct (map meta_ns (if has_namespace_meta n t then ns_metas t else ns_metas t @ [blank_meta n desc color now]))"
    using assms by (auto simp: ns_ok_def has_meta_iff blank_meta_def)
  then have "distinct (map meta_ns (map (\<lambda>m. if meta_ns m = n then update_meta desc color now m else m)
      (if has_namespace_meta n t then ns_metas t else ns_metas t @ [blank_meta n desc color now])))"
    unfolding map_map comp_def same .
  with assms show ?thesis by (simp add: meta_tables_def Let_def ns_ok_metas)
qed

datatype ns_op =
    RenameNs ustr ustr bool "ns_candidate list option" ustr
  | AssignNs ustr "ustr option" "ustr option" bool "ns_candidate list option"
  | DeleteNs ustr
  | MetaNs ustr "ustr option" "ustr option" ustr

definition error_of :: "('e, 'a) result \<times> 's \<Rightarrow> 'e option \<times> 's" where
  "error_of p = (case fst p of Inl e \<Rightarrow> Some e | Inr _ \<Rightarrow> None, snd p)"

fun ns_apply :: "(nat \<Rightarrow> bool) \<Rightarrow> ns_op \<Rightarrow> ns_db \<Rightarrow> ns_error option \<times> ns_db" where
  "ns_apply word (RenameNs old new merge cands now) db = error_of (rename_namespace word old new merge cands now db)"
| "ns_apply word (AssignNs target src old merge cands) db = error_of (assign_namespace word target src old merge cands db)"
| "ns_apply word (DeleteNs n) db = error_of (delete_by_namespace n db)"
| "ns_apply word (MetaNs n desc color now) db = error_of (set_namespace_meta word n desc color now db)"

fun op_candidates :: "ns_op \<Rightarrow> ns_candidate list" where
  "op_candidates (RenameNs old new merge cands now) = (case cands of None \<Rightarrow> [] | Some cs \<Rightarrow> cs)"
| "op_candidates (AssignNs target src old merge cands) = (case cands of None \<Rightarrow> [] | Some cs \<Rightarrow> cs)"
| "op_candidates _ = []"

text \<open>Outside a transaction the connection sees what is committed.\<close>

definition db_ok :: "ns_db \<Rightarrow> bool" where
  "db_ok db \<longleftrightarrow> ns_ok (db_tables db) \<and> ns_ok (db_committed db) \<and> (db_in_txn db \<or> db_tables db = db_committed db)"

definition atomic_result :: "bool \<Rightarrow> ns_db \<Rightarrow> ns_error option \<times> ns_db \<Rightarrow> bool" where
  "atomic_result twice db p \<longleftrightarrow>
     db_ok (snd p) \<and> (fst p = Some NsFailed \<longrightarrow> twice) \<and>
     (fst p \<noteq> None \<longrightarrow> db_tables (snd p) = db_tables db) \<and>
     (if fst p = None \<and> \<not> db_borrowed db then db_committed (snd p) = db_tables (snd p)
      else db_committed (snd p) = db_committed db)"

lemma write_op_atomic:
  assumes db: "db_ok db"
    and body: "\<And>t x u. ns_ok t \<Longrightarrow> body t = Inr (x, u) \<Longrightarrow> ns_ok u"
    and failed: "\<And>t u. ns_ok t \<Longrightarrow> body t = Inl (NsFailed, u) \<Longrightarrow> twice"
  shows "atomic_result twice db (error_of (write_op body db))"
proof (cases "begin_namespace_write db")
  case (Inl e)
  then show ?thesis
    using db by (auto simp: write_op_def error_of_def atomic_result_def begin_namespace_write_def split: if_splits)
next
  case (Inr p)
  then obtain owns db1 where p: "begin_namespace_write db = Inr (owns, db1)" by (cases p) auto
  have db1: "db_tables db1 = db_tables db" "db_committed db1 = db_committed db" "db_in_txn db1"
      "owns \<longrightarrow> db_tables db = db_committed db" "owns \<longleftrightarrow> \<not> db_borrowed db"
    using p db by (auto simp: begin_namespace_write_def db_ok_def split: if_splits)
  show ?thesis
  proof (cases "body (db_tables db1)")
    case (Inl f)
    then obtain e w where "body (db_tables db1) = Inl (e, w)" by (cases f) auto
    then show ?thesis
      using p db db1 failed[of "db_tables db" w]
      by (auto simp: write_op_def error_of_def atomic_result_def undo_namespace_write_def db_ok_def Let_def)
  next
    case (Inr r)
    then obtain x u where r: "body (db_tables db1) = Inr (x, u)" by (cases r) auto
    then show ?thesis
      using p db db1 body[of "db_tables db" x u]
      by (auto simp: write_op_def error_of_def atomic_result_def commit_namespace_write_def db_ok_def)
  qed
qed

lemma refused_atomic: "db_ok db \<Longrightarrow> e \<noteq> NsFailed \<Longrightarrow> atomic_result twice db (error_of (Inl e, db))"
  by (simp add: error_of_def atomic_result_def)

lemma rename_tables_ok:
  assumes "ns_ok t" "old \<noteq> new"
  shows "rename_tables old new merge cands now t = Inr (x, u) \<Longrightarrow> ns_ok u"
    and "rename_tables old new merge cands now t = Inl (NsFailed, w) \<Longrightarrow> \<exists>cs. cands = Some cs \<and> \<not> distinct (map cand_id cs)"
proof -
  consider e where "stage_candidates cands (\<lambda>r. row_ns r = old) t = Inl e"
    | "stage_candidates cands (\<lambda>r. row_ns r = old) t = Inr ()" "\<not> namespace_exists old t \<or> \<not> merge \<and> namespace_exists new t"
    | v a res where "rename_tables old new merge cands now t = Inr (res, (rename_sessions old new v)\<lparr>ns_metas := a\<rparr>)"
        "ns_ok v" "distinct (map meta_ns a)"
    using rename_ends[OF assms, of cands merge now] by (cases "stage_candidates cands (\<lambda>r. row_ns r = old) t") (force, auto)
  then have "(\<exists>e w. rename_tables old new merge cands now t = Inl (e, w) \<and>
        (e = NsFailed \<longrightarrow> (\<exists>cs. cands = Some cs \<and> \<not> distinct (map cand_id cs)))) \<or>
      (\<exists>x u. rename_tables old new merge cands now t = Inr (x, u) \<and> ns_ok u)"
  proof cases
    case 1
    with stage_no_failure[OF 1] show ?thesis by (auto simp: rename_tables_eq)
  next
    case 2
    with assms(1) show ?thesis by (auto simp: rename_tables_eq)
  next
    case 3
    then show ?thesis by (simp add: rename_sessions_def ns_ok_metas)
  qed
  then show "rename_tables old new merge cands now t = Inr (x, u) \<Longrightarrow> ns_ok u"
    "rename_tables old new merge cands now t = Inl (NsFailed, w) \<Longrightarrow> \<exists>cs. cands = Some cs \<and> \<not> distinct (map cand_id cs)"
    by auto
qed

lemma assign_tables_ok:
  assumes "ns_ok t"
  shows "assign_tables target src old merge cands t = Inr (x, u) \<Longrightarrow> ns_ok u"
    and "assign_tables target src old merge cands t = Inl (NsFailed, w) \<Longrightarrow> \<exists>cs. cands = Some cs \<and> \<not> distinct (map cand_id cs)"
proof -
  let ?sel = "\<lambda>r. row_selected src old r \<and> row_ns r \<noteq> target"
  have "(\<exists>e w. assign_tables target src old merge cands t = Inl (e, w) \<and>
        (e = NsFailed \<longrightarrow> (\<exists>cs. cands = Some cs \<and> \<not> distinct (map cand_id cs)))) \<or>
      (\<exists>x u. assign_tables target src old merge cands t = Inr (x, u) \<and> ns_ok u)"
  proof (cases "stage_candidates cands ?sel t")
    case (Inl e)
    with stage_no_failure[OF Inl] show ?thesis by (auto simp: assign_tables_eq)
  next
    case (Inr _)
    then have "stage_candidates cands ?sel t = Inr ()" by simp
    from assign_ends[OF assms this, of merge] assigner.moves(2)[OF TrueI assms] show ?thesis by fastforce
  qed
  then show "assign_tables target src old merge cands t = Inr (x, u) \<Longrightarrow> ns_ok u"
    "assign_tables target src old merge cands t = Inl (NsFailed, w) \<Longrightarrow> \<exists>cs. cands = Some cs \<and> \<not> distinct (map cand_id cs)"
    by auto
qed

lemma ns_apply_atomic:
  assumes db: "db_ok db"
  shows "atomic_result (\<not> distinct (map cand_id (op_candidates op))) db (ns_apply word op db)"
proof (cases op)
  case (RenameNs old new merge cands now)
  have "atomic_result (\<not> distinct (map cand_id (op_candidates op))) db
      (error_of (write_op (rename_tables old new merge cands now) db))" if "old \<noteq> new"
    using rename_tables_ok[OF _ that] RenameNs by (intro write_op_atomic[OF db]) fastforce+
  then show ?thesis
    using RenameNs refused_atomic[OF db]
    by (auto simp: rename_namespace_def ensure_valid_namespace_def)
next
  case (AssignNs target src old merge cands)
  have "atomic_result (\<not> distinct (map cand_id (op_candidates op))) db
      (error_of (write_op (assign_tables target src old merge cands) db))"
    using assign_tables_ok AssignNs by (intro write_op_atomic[OF db]) fastforce+
  then show ?thesis
    using AssignNs refused_atomic[OF db]
    by (auto simp: assign_namespace_def ensure_valid_namespace_def)
next
  case (DeleteNs n)
  have "atomic_result (\<not> distinct (map cand_id (op_candidates op))) db (error_of (write_op (delete_tables n) db))"
    using delete_tables_ok[of _ n] by (intro write_op_atomic[OF db]) fastforce+
  then show ?thesis using DeleteNs by (simp add: delete_by_namespace_def)
next
  case (MetaNs n desc color now)
  have "atomic_result (\<not> distinct (map cand_id (op_candidates op))) db (error_of (write_op (meta_tables n desc color now) db))"
    using meta_tables_ok[of _ n desc color now] by (intro write_op_atomic[OF db]) fastforce+
  then show ?thesis
    using MetaNs refused_atomic[OF db]
    by (auto simp: set_namespace_meta_def ensure_valid_namespace_def validate_namespace_color_def split: option.splits list.splits)
qed

text \<open>
  C9. A write that fails changes nothing, and one that succeeds is whole. Whatever the
  operation, whoever owns the transaction: after an error both what the connection sees and
  what is committed are as before; after a success of a writer that owns its transaction, what
  it sees is committed, and inside a borrowed one nothing is committed yet. A unique key never
  stops a write half way: the storage error appears only for a snapshot that names a chunk twice.
\<close>

theorem failed_write_changes_nothing:
  assumes "db_ok db"
  shows "case ns_apply word op db of (err, db') \<Rightarrow>
    (err \<noteq> None \<longrightarrow> db_tables db' = db_tables db \<and> db_committed db' = db_committed db) \<and>
    (err = None \<longrightarrow> db_committed db' = (if db_borrowed db then db_committed db else db_tables db')) \<and>
    (err = Some NsFailed \<longrightarrow> \<not> distinct (map cand_id (op_candidates op)))"
  using ns_apply_atomic[OF assms, of op word] by (auto simp: atomic_result_def split: prod.splits if_splits)

interpretation nsm: machine "\<lambda>db op. snd (ns_apply word op db)" "\<lambda>_ _. True" db_ok for word
  using ns_apply_atomic by unfold_locales (auto simp: atomic_result_def)

text \<open>
  C10. The store stays well formed under any run of namespace writes, failing ones included: no
  two chunks share an id or the unique key, the text and vector indexes name only rows that
  are there, no namespace has two metadata rows, every reference points at a chunk that is
  there, and the unique keys of the referring tables hold.
\<close>

theorem namespace_run_wellformed:
  assumes "db_ok db"
  shows "ns_ok (db_tables (foldl (\<lambda>db op. snd (ns_apply word op db)) db ops)) \<and>
    ns_ok (db_committed (foldl (\<lambda>db op. snd (ns_apply word op db)) db ops))"
  using nsm.run_inv[OF assms legal_run_True, of word ops] by (simp add: db_ok_def)

section \<open>Examples\<close>

text \<open>
  Two namespaces that indexed one file: \<open>x1\<close> and \<open>y1\<close> are one content, \<open>x2\<close> is only in the
  first. A relation leads from \<open>x2\<close> to \<open>x1\<close>, one between the twins, \<open>x1\<close> has a mention, and
  \<open>x2\<close> is shared from \<open>x1\<close>.
\<close>

definition letter_word :: "nat \<Rightarrow> bool" where
  "letter_word c \<longleftrightarrow> (48 \<le> c \<and> c \<le> 57) \<or> (65 \<le> c \<and> c \<le> 90) \<or> c = 95 \<or> (97 \<le> c \<and> c \<le> 122)"

definition example_row :: "string \<Rightarrow> nat \<Rightarrow> string \<Rightarrow> string \<Rightarrow> int \<Rightarrow> int \<Rightarrow> ns_row" where
  "example_row i n ns h line uses =
     \<lparr>row_id = lit i, row_no = n, row_ns = lit ns, row_file = lit ''notes.md'', row_hash = lit h, row_line = line,
      row_accesses = 0, row_uses = uses, row_born = lit ''2025''\<rparr>"

definition twin_store :: ns_tables where
  "twin_store =
     \<lparr>ns_chunks = [example_row ''x1'' 1 ''old'' ''h1'' 1 5, example_row ''x2'' 2 ''old'' ''h2'' 9 0,
                   example_row ''y1'' 3 ''new'' ''h1'' 1 2],
      fts_rowids = [1, 2, 3], vec_rowids = Some [1, 3],
      ns_refs = [\<lparr>fk_actions = [Cascade, Cascade], key_cols = Some [0, 1],
                  ref_rows = [\<lparr>ref_ends = [Some (lit ''x2''), Some (lit ''x1'')], ref_rest = []\<rparr>,
                              \<lparr>ref_ends = [Some (lit ''x1''), Some (lit ''y1'')], ref_rest = []\<rparr>]\<rparr>,
                 \<lparr>fk_actions = [Cascade], key_cols = Some [0],
                  ref_rows = [\<lparr>ref_ends = [Some (lit ''x1'')], ref_rest = lit ''person:ada''\<rparr>]\<rparr>,
                 \<lparr>fk_actions = [SetNull, Cascade], key_cols = Some [1],
                  ref_rows = [\<lparr>ref_ends = [Some (lit ''x1''), Some (lit ''x2'')], ref_rest = lit ''shared''\<rparr>]\<rparr>],
      ns_metas = [\<lparr>meta_ns = lit ''old'', meta_description = lit ''d'', meta_color = [], meta_created = [], meta_updated = []\<rparr>],
      ns_sessions = [\<lparr>sess_id = lit ''s'', sess_ns = lit ''old''\<rparr>]\<rparr>"

definition twin_db :: ns_db where
  "twin_db = \<lparr>db_tables = twin_store, db_committed = twin_store, db_in_txn = False, db_borrowed = False, db_lock_free = True\<rparr>"

lemma twin_store_ok: "ns_ok twin_store"
  by code_simp


lemma rename_runs: "fst (rename_namespace letter_word (lit ''old'') (lit ''new'') True None [] twin_db) =
  Inr \<lparr>rn_moved = 1, rn_metadata = True, rn_merged = True, rn_dropped = 1\<rparr>"
  by code_simp

lemma share_moves: "map ref_rows (drop 2 (ns_refs (db_tables (snd
    (rename_namespace letter_word (lit ''old'') (lit ''new'') True None [] twin_db))))) =
  [[\<lparr>ref_ends = [Some (lit ''y1''), Some (lit ''x2'')], ref_rest = lit ''shared''\<rparr>]]"
  by code_simp

lemma assign_keeps_best_witness:
  "\<exists>res u. assign_tables (lit ''all'') None (Some (lit ''old'')) False None twin_store = Inr (res, u) \<and>
    as_moved res + as_dropped res = 2 \<and>
    consolidates (lit ''all'') (\<lambda>r. row_selected None (Some (lit ''old'')) r \<and> row_ns r \<noteq> lit ''all'') twin_store u"
proof -
  have inj: "inj_on content_key {r \<in> set (ns_chunks twin_store).
      row_selected None (Some (lit ''old'')) r \<and> row_ns r \<noteq> lit ''all'' \<or> row_ns r = lit ''all''}"
    by (auto simp: inj_on_def twin_store_def example_row_def content_key_def row_selected_def given_text_def lit_def)
  have "length (filter (\<lambda>r. row_selected None (Some (lit ''old'')) r \<and> row_ns r \<noteq> lit ''all'') (ns_chunks twin_store)) = 2"
    by code_simp
  with assign_keeps_best[OF twin_store_ok, of None None "Some (lit ''old'')" "lit ''all''" False] inj show ?thesis
    by (auto simp: snapshot_of_def list_all_iff)
qed

lemma twin_db_ok: "db_ok twin_db"
  by (simp add: db_ok_def twin_db_def twin_store_ok)

lemma failed_write_changes_nothing_witness:
  "fst (ns_apply letter_word (RenameNs (lit ''old'') (lit ''new'') False None []) twin_db) = Some TargetExists \<and>
   db_tables (snd (ns_apply letter_word (RenameNs (lit ''old'') (lit ''new'') False None []) twin_db)) = twin_store"
proof -
  have "fst (ns_apply letter_word (RenameNs (lit ''old'') (lit ''new'') False None []) twin_db) = Some TargetExists"
    by code_simp
  then show ?thesis
    using failed_write_changes_nothing[OF twin_db_ok, where word = letter_word and op = "RenameNs (lit ''old'') (lit ''new'') False None []"]
    by (auto simp: twin_db_def split: prod.splits)
qed

lemma namespace_run_wellformed_witness:
  "ns_ok (db_tables (foldl (\<lambda>db op. snd (ns_apply letter_word op db)) twin_db
     [RenameNs (lit ''old'') (lit ''new'') True None [], DeleteNs (lit ''new'')]))"
  using namespace_run_wellformed[OF twin_db_ok, where word = letter_word] by blast

end
