(* ===== verification/NamespaceLocks.thy ===== *)
theory NamespaceLocks
  imports Namespaces
begin

text \<open>
  The coordinator of namespace mutations (\<open>services/namespace_management.py\<close>): it freezes
  the candidate rows under the lock of every source file they come from and then enters the
  storage transaction, which checks the snapshot again. What other processes do meanwhile, the
  clock, the file system and the locks are the parameters of a turn.
\<close>

section \<open>One turn and what surrounds it\<close>

text \<open>What resolving a candidate's source and asking for its parent directory answers.\<close>

datatype lock_target = LockAt ustr | NoParent | StatFailed

record turn =
  expired :: bool
  planned_at :: "ns_candidate \<Rightarrow> lock_target"
  lock_granted :: "ustr \<Rightarrow> bool"
  while_locking :: "ns_db \<Rightarrow> ns_db"
  current_at :: "ns_candidate \<Rightarrow> lock_target"
  before_apply :: "ns_db \<Rightarrow> ns_db"

definition MAX_RETARGET_ATTEMPTS :: nat where "MAX_RETARGET_ATTEMPTS = 3"

text \<open>\<open>_lockable_sources\<close> with \<open>memory_lock_path\<close> of each source; the set as a list without repetition.\<close>

fun lock_paths :: "(ns_candidate \<Rightarrow> lock_target) \<Rightarrow> ns_candidate list \<Rightarrow> (ns_error, ustr list) result" where
  "lock_paths locate [] = Inr []"
| "lock_paths locate (c # cs) =
     (case locate c of
        StatFailed \<Rightarrow> Inl NsBusy
      | NoParent \<Rightarrow> lock_paths locate cs
      | LockAt p \<Rightarrow> map_sum id (List.insert p) (lock_paths locate cs))"

text \<open>
  The loop. The answer carries the locks that were held when the storage operation ran
  (none when it did not run).
\<close>

fun coordinate ::
  "(ns_db \<Rightarrow> (ns_error, ns_candidate list) result) \<Rightarrow>
   (ns_candidate list \<Rightarrow> ns_db \<Rightarrow> (ns_error, 'a) result \<times> ns_db) \<Rightarrow>
   turn list \<Rightarrow> ns_candidate list \<Rightarrow> ns_db \<Rightarrow> (ns_error, 'a) result \<times> ns_db \<times> ustr list" where
  "coordinate load apply [] cands db = (Inl NsBusy, db, [])"
| "coordinate load apply (t # ts) cands db =
     (if expired t then (Inl NsBusy, db, [])
      else case lock_paths (planned_at t) cands of
        Inl e \<Rightarrow> (Inl e, db, [])
      | Inr planned \<Rightarrow>
          (let db1 = while_locking t db in
           if \<not> list_all (lock_granted t) (sort planned) then (Inl NsBusy, db1, [])
           else case load db1 of
             Inl e \<Rightarrow> (Inl e, db1, [])
           | Inr current \<Rightarrow>
               (case lock_paths (current_at t) current of
                  Inl e \<Rightarrow> (Inl e, db1, [])
                | Inr needed \<Rightarrow>
                    if \<not> set needed \<subseteq> set planned then coordinate load apply ts current db1
                    else case apply current (before_apply t db1) of
                      (Inl NsBusy, db2) \<Rightarrow> coordinate load apply ts current db2
                    | (r, db2) \<Rightarrow> (r, db2, planned))))"

definition coordinated_mutation ::
  "(ns_db \<Rightarrow> (ns_error, ns_candidate list) result) \<Rightarrow>
   (ns_candidate list \<Rightarrow> ns_db \<Rightarrow> (ns_error, 'a) result \<times> ns_db) \<Rightarrow>
   (nat \<Rightarrow> turn) \<Rightarrow> ns_db \<Rightarrow> (ns_error, 'a) result \<times> ns_db \<times> ustr list" where
  "coordinated_mutation load apply turns db =
     (case load db of
        Inl e \<Rightarrow> (Inl e, db, [])
      | Inr cands \<Rightarrow> coordinate load apply (map turns [0..<MAX_RETARGET_ATTEMPTS]) cands db)"

definition service_rename ::
  "(nat \<Rightarrow> bool) \<Rightarrow> ustr \<Rightarrow> ustr \<Rightarrow> bool \<Rightarrow> ustr \<Rightarrow> (nat \<Rightarrow> turn) \<Rightarrow> ns_db \<Rightarrow>
   (ns_error, rename_result) result \<times> ns_db \<times> ustr list" where
  "service_rename word old new merge now =
     coordinated_mutation
       (\<lambda>db. list_namespace_chunk_candidates None (Some old) None (db_tables db))
       (\<lambda>cands. rename_namespace word old new merge (Some cands) now)"

definition service_assign ::
  "(nat \<Rightarrow> bool) \<Rightarrow> ustr \<Rightarrow> ustr option \<Rightarrow> ustr option \<Rightarrow> bool \<Rightarrow> (nat \<Rightarrow> turn) \<Rightarrow> ns_db \<Rightarrow>
   (ns_error, assign_result) result \<times> ns_db \<times> ustr list" where
  "service_assign word target src old merge =
     coordinated_mutation
       (\<lambda>db. list_namespace_chunk_candidates src old (Some target) (db_tables db))
       (\<lambda>cands. assign_namespace word target src old merge (Some cands))"

section \<open>What the loop guarantees\<close>

lemma lock_paths_complete:
  "lock_paths locate cs = Inr ps \<Longrightarrow> c \<in> set cs \<Longrightarrow> locate c = LockAt p \<Longrightarrow> p \<in> set ps"
  by (induction cs arbitrary: ps) (auto split: lock_target.splits simp: map_sum_def split: sum.splits)

lemma lock_paths_busy: "lock_paths locate cs = Inl e \<Longrightarrow> e = NsBusy"
proof (induction cs)
  case (Cons c cs)
  then show ?case by (cases "locate c"; cases "lock_paths locate cs") auto
qed simp

text \<open>The store before an operation that ran: something other writers left.\<close>

definition polite :: "turn \<Rightarrow> bool" where
  "polite t \<longleftrightarrow> (\<forall>db. db_ok db \<longrightarrow> db_ok (while_locking t db) \<and> db_ok (before_apply t db))"

lemma coordinate_success:
  assumes "coordinate load apply ts cands db = (Inr x, db', held)" "\<forall>t \<in> set ts. polite t" "db_ok db"
    and keep: "\<And>cs db. db_ok db \<Longrightarrow> db_ok (snd (apply cs db))"
  shows "\<exists>t \<in> set ts. \<exists>db1 cs. db_ok db1 \<and> load db1 = Inr cs \<and> apply cs (before_apply t db1) = (Inr x, db') \<and>
    (\<forall>c \<in> set cs. \<forall>p. current_at t c = LockAt p \<longrightarrow> p \<in> set held) \<and> (\<forall>p \<in> set held. lock_granted t p)"
  using assms(1-3)
proof (induction ts arbitrary: cands db)
  case (Cons t ts)
  obtain planned where planned: "lock_paths (planned_at t) cands = Inr planned" and "\<not> expired t"
    using Cons.prems(1) by (auto split: if_splits sum.splits)
  let ?db1 = "while_locking t db"
  have db1: "db_ok ?db1" "db_ok (before_apply t ?db1)"
    using Cons.prems(2,3) by (auto simp: polite_def)
  obtain cs where cs: "load ?db1 = Inr cs" and granted: "list_all (lock_granted t) (sort planned)"
    using Cons.prems(1) planned \<open>\<not> expired t\<close> by (auto simp: Let_def split: if_splits sum.splits)
  obtain needed where needed: "lock_paths (current_at t) cs = Inr needed"
    using Cons.prems(1) planned \<open>\<not> expired t\<close> cs granted by (auto simp: Let_def split: sum.splits)
  obtain r db2 where r: "apply cs (before_apply t ?db1) = (r, db2)" by (cases "apply cs (before_apply t ?db1)")
  have db2: "db_ok db2" using keep[OF db1(2), of cs] r by simp
  consider (again) db3 where "coordinate load apply ts cs db3 = (Inr x, db', held)" "db_ok db3"
    | (ran) "r = Inr x" "db' = db2" "held = planned" "set needed \<subseteq> set planned"
    using Cons.prems(1) planned \<open>\<not> expired t\<close> cs granted needed r db1 db2
    by (auto simp: Let_def split: if_splits sum.splits ns_error.splits)
  then show ?case
  proof cases
    case again
    from Cons.IH[OF again(1) _ again(2)] Cons.prems(2) show ?thesis by auto
  next
    case ran
    have "\<forall>c \<in> set cs. \<forall>p. current_at t c = LockAt p \<longrightarrow> p \<in> set held"
      using lock_paths_complete[OF needed] ran(3,4) by blast
    then show ?thesis
      using ran r db1(1) cs granted by (intro bexI[of _ t] exI[of _ ?db1] exI[of _ cs]) (auto simp: list_all_iff)
  qed
qed simp

text \<open>A candidate list freezes rows of its own namespace, whatever the tables are by then.\<close>

lemma listed_candidates:
  assumes "list_namespace_chunk_candidates src old except t = Inr cs" "matches_candidate c r" "c \<in> set cs"
  shows "row_selected src old r \<and> (case except of None \<Rightarrow> True | Some n \<Rightarrow> row_ns r \<noteq> n)"
  using assms
  by (auto simp: list_namespace_chunk_candidates_def matches_candidate_def row_selected_def
      split: if_splits option.splits)

lemma listed_snapshot:
  assumes "list_namespace_chunk_candidates src old except t = Inr cs"
  shows "snapshot_of (\<lambda>r. row_selected src old r \<and> (case except of None \<Rightarrow> True | Some n \<Rightarrow> row_ns r \<noteq> n)) (Some cs) u"
  using listed_candidates[OF assms] by (auto simp: snapshot_of_def frozen_def list_all_iff list_ex_iff)

lemma write_op_success:
  "write_op body db = (Inr x, db') \<Longrightarrow>
    \<exists>u. body (db_tables db) = Inr (x, u) \<and> db_tables db' = u"
  by (auto simp: write_op_def begin_namespace_write_def commit_namespace_write_def split: sum.splits if_splits prod.splits)

lemma rename_db_ok: "db_ok db \<Longrightarrow> db_ok (snd (rename_namespace word old new merge cands now db))"
  using ns_apply_atomic[of db "RenameNs old new merge cands now" word] by (simp add: atomic_result_def error_of_def)

lemma rename_success:
  assumes "rename_namespace word old new merge cands now db = (Inr res, db')"
  shows "old \<noteq> new \<and> rename_tables old new merge cands now (db_tables db) = Inr (res, db_tables db')"
  using assms
  by (auto simp: rename_namespace_def ensure_valid_namespace_def dest!: write_op_success split: sum.splits if_splits)

lemma rename_staged:
  "rename_tables old new merge cands now t = Inr (res, u) \<Longrightarrow>
    stage_candidates cands (\<lambda>r. row_ns r = old) t = Inr () \<and>
    (namespace_exists old t \<longrightarrow> merge \<or> \<not> namespace_exists new t) \<and>
    (\<not> namespace_exists old t \<longrightarrow> u = t)"
  by (cases "stage_candidates cands (\<lambda>r. row_ns r = old) t") (auto simp: rename_tables_eq split: if_splits)

text \<open>
  C8. A coordinated rename acts on what it froze. Whatever other writers do while it waits
  for locks and between its snapshot and its transaction, when the service reports success
  there was a well-formed store at which the operation ran: it held the lock of every source
  file of the rows of the old namespace there that has one, and either that namespace was
  empty and nothing changed, or all its contents went to the new one as a rename promises,
  and no row of it is left behind.
\<close>

theorem coordinated_rename_sound:
  assumes "service_rename word old new merge now turns db = (Inr res, db', held)"
    and "db_ok db" and "\<forall>i. polite (turns i)"
  shows "\<exists>i < MAX_RETARGET_ATTEMPTS. \<exists>db1.
    let t = db_tables (before_apply (turns i) db1) in
    ns_ok t \<and>
    (\<forall>r \<in> set (rows_in old t). \<forall>p.
       current_at (turns i) \<lparr>cand_id = row_id r, cand_source = row_file r, cand_ns = old\<rparr> = LockAt p \<longrightarrow> p \<in> set held) \<and>
    (if namespace_exists old t
     then consolidates new (\<lambda>r. row_ns r = old) t (db_tables db') \<and> \<not> namespace_exists old (db_tables db')
     else db_tables db' = t)"
proof -
  let ?load = "\<lambda>db. list_namespace_chunk_candidates None (Some old) None (db_tables db)"
  let ?apply = "\<lambda>cands. rename_namespace word old new merge (Some cands) now"
  obtain cs0 where "coordinate ?load ?apply (map turns [0..<MAX_RETARGET_ATTEMPTS]) cs0 db = (Inr res, db', held)"
    using assms(1) by (auto simp: service_rename_def coordinated_mutation_def split: sum.splits)
  from coordinate_success[OF this] assms(2,3) rename_db_ok obtain i db1 cs where
      i: "i < MAX_RETARGET_ATTEMPTS" and db1: "db_ok db1" and cs: "?load db1 = Inr cs"
      and run: "?apply cs (before_apply (turns i) db1) = (Inr res, db')"
      and held: "\<forall>c \<in> set cs. \<forall>p. current_at (turns i) c = LockAt p \<longrightarrow> p \<in> set held"
    by auto
  let ?t = "db_tables (before_apply (turns i) db1)"
  have t: "ns_ok ?t" using assms(3) db1 by (auto simp: polite_def db_ok_def)
  have ran: "old \<noteq> new" "rename_tables old new merge (Some cs) now ?t = Inr (res, db_tables db')"
    using rename_success[OF run] by auto
  note staged = rename_staged[OF ran(2)]
  have given: "row_selected None (Some old) r \<longleftrightarrow> row_ns r = old" for r
    using cs by (cases old) (auto simp: row_selected_def given_text_def list_namespace_chunk_candidates_def)
  have snap: "snapshot_of (\<lambda>r. row_ns r = old) (Some cs) ?t"
    using listed_snapshot[OF cs, of ?t] by (simp add: given)
  have locks: "p \<in> set held" if r: "r \<in> set (rows_in old ?t)"
      and p: "current_at (turns i) \<lparr>cand_id = row_id r, cand_source = row_file r, cand_ns = old\<rparr> = LockAt p" for r p
  proof -
    have "r \<in> set (ns_chunks ?t)" "row_ns r = old" using r by (auto simp: rows_in_def)
    with frozen_exact[OF conjunct1[OF staged] snap] have "frozen (Some cs) r" by simp
    then obtain c where "c \<in> set cs" "matches_candidate c r" by (auto simp: frozen_def list_ex_iff)
    moreover from this(2) \<open>row_ns r = old\<close> have "c = \<lparr>cand_id = row_id r, cand_source = row_file r, cand_ns = old\<rparr>"
      by (cases c) (simp add: matches_candidate_def)
    ultimately show ?thesis using held p by auto
  qed
  have "if namespace_exists old ?t
     then consolidates new (\<lambda>r. row_ns r = old) ?t (db_tables db') \<and> \<not> namespace_exists old (db_tables db')
     else db_tables db' = ?t"
  proof (cases "namespace_exists old ?t")
    case True
    with rename_exact[OF t ran(1) True _ conjunct1[OF staged] snap, of merge now] staged ran(2)
    show ?thesis by auto
  next
    case False
    with staged show ?thesis by simp
  qed
  with i t locks show ?thesis by (intro exI[of _ i] conjI exI[of _ db1]) (simp_all add: Let_def)
qed

text \<open>
  The source's directory appears between the plan of the first turn and its snapshot, so the
  rename starts over with one more lock.
\<close>

definition appearing :: "nat \<Rightarrow> turn" where
  "appearing i =
     \<lparr>expired = False, planned_at = (\<lambda>c. if i = 0 then NoParent else LockAt (cand_source c)),
      lock_granted = (\<lambda>_. True), while_locking = (\<lambda>db. db), current_at = (\<lambda>c. LockAt (cand_source c)),
      before_apply = (\<lambda>db. db)\<rparr>"

lemma coordinated_rename_sound_witness:
  "\<exists>db'. service_rename letter_word (lit ''old'') (lit ''new'') True [] appearing twin_db =
      (Inr \<lparr>rn_moved = 1, rn_metadata = True, rn_merged = True, rn_dropped = 1\<rparr>, db', [lit ''notes.md'']) \<and>
    (\<exists>i < MAX_RETARGET_ATTEMPTS. \<exists>db1. ns_ok (db_tables (before_apply (appearing i) db1)))"
proof -
  let ?s = "service_rename letter_word (lit ''old'') (lit ''new'') True [] appearing twin_db"
  have "fst ?s = Inr \<lparr>rn_moved = 1, rn_metadata = True, rn_merged = True, rn_dropped = 1\<rparr>" by code_simp
  moreover have "snd (snd ?s) = [lit ''notes.md'']" by code_simp
  ultimately have s: "?s = (Inr \<lparr>rn_moved = 1, rn_metadata = True, rn_merged = True, rn_dropped = 1\<rparr>, fst (snd ?s), [lit ''notes.md''])"
    by (metis prod.collapse)
  have "\<forall>i. polite (appearing i)" by (simp add: polite_def appearing_def)
  from coordinated_rename_sound[OF s twin_db_ok this] s show ?thesis
    unfolding Let_def by blast
qed

end
