(* ===== verification/Metrics.thy ===== *)
theory Metrics
  imports Prelude Complex_Main "HOL-Library.Code_Target_Nat"
begin

text \<open>
  The retrieval metrics of \<open>quality/metrics.py\<close> for one query's ranking, over exact reals. A Python
  set of identities is a HOL set, a gain table an ordered dictionary. Every metric lies between 0 and
  1, also for rankings that repeat an identity; for the discounted gain this is a rearrangement
  inequality over distinct identities.
\<close>

section \<open>The metrics\<close>

definition recall_at_k :: "string list \<Rightarrow> string set \<Rightarrow> int \<Rightarrow> real" where
  "recall_at_k retrieved relevant k =
     (if k \<le> 0 \<or> relevant = {} then 0
      else real (card (set (take (nat k) retrieved) \<inter> relevant)) / real (card relevant))"

definition recall_labeled_at_k :: "string list \<Rightarrow> string set \<Rightarrow> int \<Rightarrow> real" where
  "recall_labeled_at_k retrieved relevant k = recall_at_k retrieved relevant k"

fun first_hit :: "nat \<Rightarrow> string set \<Rightarrow> string list \<Rightarrow> real" where
  "first_hit rank relevant [] = 0"
| "first_hit rank relevant (item # items) =
     (if item \<in> relevant then 1 / real rank else first_hit (rank + 1) relevant items)"

definition reciprocal_rank_at_k :: "string list \<Rightarrow> string set \<Rightarrow> int \<Rightarrow> real" where
  "reciprocal_rank_at_k retrieved relevant k =
     (if k \<le> 0 then 0 else first_hit 1 relevant (take (nat k) retrieved))"

definition discount :: "nat \<Rightarrow> real" where
  "discount rank = 1 / log 2 (real (rank + 1))"

definition gain_of :: "(string, real) odict \<Rightarrow> string \<Rightarrow> real" where
  "gain_of relevance item = (case map_of relevance item of None \<Rightarrow> 0 | Some g \<Rightarrow> g)"

fun dcg_loop :: "(string, real) odict \<Rightarrow> nat \<Rightarrow> string set \<Rightarrow> string list \<Rightarrow> real" where
  "dcg_loop relevance rank seen [] = 0"
| "dcg_loop relevance rank seen (item # items) =
     (if item \<in> seen then dcg_loop relevance (rank + 1) seen items
      else (if 0 < gain_of relevance item then gain_of relevance item * discount rank else 0) +
        dcg_loop relevance (rank + 1) (insert item seen) items)"

fun discounted :: "nat \<Rightarrow> real list \<Rightarrow> real" where
  "discounted rank [] = 0"
| "discounted rank (g # gs) = g * discount rank + discounted (rank + 1) gs"

definition ideal_gains :: "(string, real) odict \<Rightarrow> int \<Rightarrow> real list" where
  "ideal_gains relevance k = take (nat k) (sort_desc (\<lambda>g. g) (filter (\<lambda>g. 0 < g) (map snd relevance)))"

definition ndcg_at_k :: "string list \<Rightarrow> (string, real) odict \<Rightarrow> int \<Rightarrow> real" where
  "ndcg_at_k retrieved relevance k =
     (if k \<le> 0 \<or> relevance = [] then 0
      else let dcg = dcg_loop relevance 1 {} (take (nat k) retrieved);
               idcg = discounted 1 (ideal_gains relevance k)
           in if 0 < idcg then dcg / idcg else 0)"

definition precision_at_k :: "string list \<Rightarrow> string set \<Rightarrow> string set \<Rightarrow> int \<Rightarrow> real option" where
  "precision_at_k retrieved relevant not_relevant k =
     (if k \<le> 0 then None
      else let window = take (nat k) retrieved; considered = set window
           in if window = [] then None
              else if \<not> considered \<subseteq> relevant \<union> not_relevant then None
              else Some (real (card (considered \<inter> relevant)) / real (card considered)))"

definition hit_rate_at_k :: "string list \<Rightarrow> string set \<Rightarrow> int \<Rightarrow> real" where
  "hit_rate_at_k retrieved relevant k =
     (if k \<le> 0 \<or> relevant = {} then 0
      else if set (take (nat k) retrieved) \<inter> relevant \<noteq> {} then 1 else 0)"

definition mean :: "real list \<Rightarrow> real" where
  "mean xs = (if xs = [] then 0 else sum_list xs / real (length xs))"

section \<open>A weighted sum is largest in descending order\<close>

lemma discount_pos: "0 < rank \<Longrightarrow> 0 < discount rank"
  by (simp add: discount_def)

lemma discount_anti: "0 < rank \<Longrightarrow> discount (rank + 1) \<le> discount rank"
  by (auto simp: discount_def intro!: divide_left_mono mult_pos_pos)

lemma discounted_nonneg: "0 < rank \<Longrightarrow> list_all (\<lambda>g. 0 \<le> g) gs \<Longrightarrow> 0 \<le> discounted rank gs"
  by (induction gs arbitrary: rank) (auto intro!: add_nonneg_nonneg mult_nonneg_nonneg less_imp_le[OF discount_pos])

text \<open>When every prefix sum of \<open>xs\<close> is at most that of \<open>ys\<close> plus a credit, so is the discounted sum.\<close>

lemma discounted_mono:
  assumes "0 < rank" "0 \<le> s" "list_all (\<lambda>g. 0 \<le> g) ys" "\<And>j. sum_list (take j xs) \<le> s + sum_list (take j ys)"
  shows "discounted rank xs \<le> s * discount rank + discounted rank ys"
  using assms
proof (induction xs arbitrary: rank s ys)
  case Nil
  then show ?case using discounted_nonneg[of rank ys] discount_pos[of rank] by simp
next
  case (Cons x xs)
  obtain y ys' where y: "take 1 ys = (if ys = [] then [] else [y])" "0 \<le> y" "list_all (\<lambda>g. 0 \<le> g) ys'"
    and drop: "\<And>j. sum_list (take (Suc j) ys) = y + sum_list (take j ys')"
    and disc: "discounted rank ys = y * discount rank + discounted (rank + 1) ys'"
  proof (cases ys)
    case Nil
    then show ?thesis using that[of 0 "[]"] by simp
  next
    case (Cons z zs)
    then show ?thesis using that[of z zs] \<open>list_all (\<lambda>g. 0 \<le> g) ys\<close> by simp
  qed
  define s' where "s' = s + y - x"
  have "0 \<le> s'" using Cons.prems(4)[of 1] drop[of 0] by (simp add: s'_def)
  moreover have "sum_list (take j xs) \<le> s' + sum_list (take j ys')" for j
    using Cons.prems(4)[of "Suc j"] drop[of j] by (simp add: s'_def)
  ultimately have "discounted (rank + 1) xs \<le> s' * discount (rank + 1) + discounted (rank + 1) ys'"
    using Cons.IH[of "rank + 1" s' ys'] y by simp
  also have "s' * discount (rank + 1) \<le> s' * discount rank"
    using \<open>0 \<le> s'\<close> discount_anti[OF Cons.prems(1)] by (rule mult_left_mono[rotated])
  finally show ?case by (simp add: disc s'_def algebra_simps)
qed

lemma best_sum:
  "descending L \<Longrightarrow> list_all (\<lambda>g. 0 \<le> g) L \<Longrightarrow> M \<subseteq># mset L \<Longrightarrow> size M \<le> j \<Longrightarrow> sum_mset M \<le> (sum_list (take j L) :: real)"
proof (induction L arbitrary: M j)
  case (Cons x L)
  show ?case
  proof (cases "M = {#}")
    case True
    have "list_all (\<lambda>g. 0 \<le> g) (take j (x # L))" using Cons.prems(2) set_take_subset[of j "x # L"] by (auto simp: list_all_iff simp del: take_Cons_numeral)
    then show ?thesis using True by (auto simp: list_all_iff intro: sum_list_nonneg)
  next
    case False
    define y where "y = (if x \<in># M then x else (SOME y. y \<in># M))"
    have y: "y \<in># M" using False someI_ex[of "\<lambda>y. y \<in># M"] by (auto simp: y_def)
    have le: "y \<le> x" using y Cons.prems(1,3) mset_subset_eqD[of M "mset (x # L)" y] by auto
    have sub: "M - {#y#} \<subseteq># mset L"
    proof (cases "x \<in># M")
      case True
      then show ?thesis using Cons.prems(3) by (simp add: y_def subset_eq_diff_conv)
    next
      case False
      then have "M - {#x#} \<subseteq># mset L" using Cons.prems(3) by (simp only: subset_eq_diff_conv mset.simps) simp
      with False have "M \<subseteq># mset L" by (simp add: diff_single_trivial)
      then show ?thesis by (rule subset_mset.order_trans[OF diff_subset_eq_self])
    qed
    obtain i where j: "j = Suc i" using Cons.prems(4) False by (cases j) auto
    have "size (M - {#y#}) \<le> i" using Cons.prems(4) y j by (simp add: size_Diff_singleton)
    then have "sum_mset (M - {#y#}) \<le> sum_list (take i L)" using Cons.IH[of "M - {#y#}" i] Cons.prems sub by simp
    moreover have "sum_mset M = y + sum_mset (M - {#y#})" using y by (simp add: sum_mset.remove)
    ultimately show ?thesis using le j by simp
  qed
qed simp

section \<open>Each identity is credited once\<close>

text \<open>The gain the loop credits at each rank.\<close>

fun credits :: "(string, real) odict \<Rightarrow> string set \<Rightarrow> string list \<Rightarrow> real list" where
  "credits relevance seen [] = []"
| "credits relevance seen (item # items) =
     (if item \<in> seen then 0 # credits relevance seen items
      else max 0 (gain_of relevance item) # credits relevance (insert item seen) items)"

text \<open>The identities credited.\<close>

fun credited :: "(string, real) odict \<Rightarrow> string set \<Rightarrow> string list \<Rightarrow> string list" where
  "credited relevance seen [] = []"
| "credited relevance seen (item # items) =
     (if item \<in> seen \<or> \<not> 0 < gain_of relevance item then credited relevance (insert item seen) items
      else item # credited relevance (insert item seen) items)"

lemma dcg_credits: "dcg_loop relevance rank seen items = discounted rank (credits relevance seen items)"
  by (induction items arbitrary: rank seen) (auto simp: max_def)

lemma take_credits: "take j (credits relevance seen items) = credits relevance seen (take j items)"
proof (induction items arbitrary: j seen)
  case (Cons item items)
  then show ?case by (cases j) simp_all
qed simp

lemma credited_sound:
  "distinct (credited relevance seen items)" "set (credited relevance seen items) \<inter> seen = {}"
  "x \<in> set (credited relevance seen items) \<Longrightarrow> 0 < gain_of relevance x" "length (credited relevance seen items) \<le> length items"
proof -
  have off: "set (credited relevance seen items) \<inter> seen = {}" for seen items
    by (induction items arbitrary: seen) auto
  then show "set (credited relevance seen items) \<inter> seen = {}" .
  show "distinct (credited relevance seen items)" using off
  proof (induction items arbitrary: seen)
    case (Cons item items)
    have "set (credited relevance (insert item seen) items) \<inter> insert item seen = {}" by (rule off)
    with Cons show ?case by auto
  qed simp
  show "x \<in> set (credited relevance seen items) \<Longrightarrow> 0 < gain_of relevance x"
    by (induction items arbitrary: seen) (auto split: if_splits)
  show "length (credited relevance seen items) \<le> length items"
    by (induction items arbitrary: seen) (auto simp: le_SucI)
qed

lemma sum_credits: "sum_list (credits relevance seen items) = sum_list (map (gain_of relevance) (credited relevance seen items))"
  by (induction items arbitrary: seen) (auto simp: max_def insert_absorb)

lemma gains_of_distinct:
  assumes "distinct ids" "\<And>x. x \<in> set ids \<Longrightarrow> 0 < gain_of relevance x" "od_ok relevance"
  shows "mset (map (gain_of relevance) ids) \<subseteq># mset (filter (\<lambda>g. 0 < g) (map snd relevance))"
proof -
  let ?keys = "filter (\<lambda>x. 0 < gain_of relevance x) (od_keys relevance)"
  have "map snd relevance = map (gain_of relevance) (od_keys relevance)"
    using assms(3) by (auto simp: gain_of_def)
  then have "filter (\<lambda>g. 0 < g) (map snd relevance) = map (gain_of relevance) ?keys"
    by (simp only: filter_map comp_def)
  moreover have "set ids \<subseteq> set ?keys"
    using assms(2) by (force simp: gain_of_def dest: map_of_SomeD split: option.splits)
  then have "mset ids \<subseteq># mset ?keys"
    using assms(1,3) subset_imp_msubset_mset_set[of "set ids" "set ?keys"] mset_set_set[of ids] mset_set_set[of ?keys] by simp
  ultimately show ?thesis by (simp only: mset_map image_mset_subseteq_mono)
qed

lemma dcg_le_ideal:
  assumes "od_ok relevance"
  shows "dcg_loop relevance 1 {} (take (nat k) retrieved) \<le> discounted 1 (ideal_gains relevance k)"
proof -
  let ?L = "sort_desc (\<lambda>g. g) (filter (\<lambda>g. 0 < g) (map snd relevance))"
  have nonneg: "list_all (\<lambda>g. 0 \<le> g) ?L" by (auto simp: list_all_iff)
  have "sum_list (take j (credits relevance {} (take (nat k) retrieved))) \<le> 0 + sum_list (take j (ideal_gains relevance k))" for j
  proof -
    let ?ids = "credited relevance {} (take (min j (nat k)) retrieved)"
    have "sum_mset (mset (map (gain_of relevance) ?ids)) \<le> sum_list (take (min j (nat k)) ?L)"
      using gains_of_distinct[OF credited_sound(1,3) assms] credited_sound(4)[of relevance "{}" "take (min j (nat k)) retrieved"] descending_sort_desc[of "\<lambda>g. g"]
      by (intro best_sum) (auto simp: list_all_iff)
    then have "sum_list (map (gain_of relevance) ?ids) \<le> sum_list (take (min j (nat k)) ?L)"
      by (simp only: sum_mset_sum_list)
    then show ?thesis by (simp add: take_credits sum_credits ideal_gains_def)
  qed
  from discounted_mono[OF _ _ _ this, of 1] have "list_all (\<lambda>g. 0 \<le> g) (ideal_gains relevance k) \<Longrightarrow> ?thesis"
    by (simp add: dcg_credits)
  moreover have "list_all (\<lambda>g. 0 \<le> g) (ideal_gains relevance k)"
    using nonneg set_take_subset[of "nat k" ?L] unfolding ideal_gains_def list_all_iff by blast
  ultimately show ?thesis by blast
qed

lemma dcg_nonneg: "0 < rank \<Longrightarrow> 0 \<le> dcg_loop relevance rank seen items"
  by (induction items arbitrary: rank seen) (auto intro!: add_nonneg_nonneg mult_nonneg_nonneg less_imp_le[OF discount_pos])

section \<open>Bounds\<close>

definition unit :: "real \<Rightarrow> bool" where
  "unit x \<longleftrightarrow> 0 \<le> x \<and> x \<le> 1"

lemma unit_ratio: "finite B \<Longrightarrow> A \<subseteq> B \<Longrightarrow> unit (real (card A) / real (card B))"
  using card_mono[of B A] by (auto simp: unit_def divide_le_eq_1)

lemma recall_unit: "finite relevant \<Longrightarrow> unit (recall_at_k retrieved relevant k)"
  using unit_ratio[of relevant] by (auto simp: recall_at_k_def unit_def)

lemma first_hit_unit: "0 < rank \<Longrightarrow> unit (first_hit rank relevant items)"
  by (induction items arbitrary: rank) (auto simp: unit_def)

lemma ndcg_unit: "od_ok relevance \<Longrightarrow> unit (ndcg_at_k retrieved relevance k)"
  using dcg_le_ideal[of relevance k retrieved] dcg_nonneg[of 1 relevance "{}"]
  by (auto simp: ndcg_at_k_def unit_def Let_def divide_le_eq_1)

lemma precision_unit: "precision_at_k retrieved relevant not_relevant k = Some p \<Longrightarrow> unit p"
  using unit_ratio[of "set (take (nat k) retrieved)"] by (auto simp: precision_at_k_def Let_def split: if_splits)

lemma mean_unit: "list_all unit xs \<Longrightarrow> unit (mean xs)"
proof -
  assume unit: "list_all unit xs"
  then have "0 \<le> sum_list xs \<and> sum_list xs \<le> real (length xs)" by (induction xs) (auto simp: unit_def)
  then show ?thesis by (auto simp: mean_def unit_def divide_le_eq_1)
qed

lemma hit_rate_unit: "unit (hit_rate_at_k retrieved relevant k)"
  by (simp add: hit_rate_at_k_def unit_def)

lemma reciprocal_unit: "unit (reciprocal_rank_at_k retrieved relevant k)"
  using first_hit_unit[of 1 relevant] by (simp add: reciprocal_rank_at_k_def unit_def)

text \<open>
  Every metric is between 0 and 1 for every ranking, every cut-off and every finite set of
  labels, also when an identity repeats in the ranking; and precision is withheld exactly when the
  window is empty or holds an unlabelled item.
\<close>

theorem metrics_bounded:
  assumes "finite relevant" and "od_ok relevance"
  shows "unit (recall_at_k retrieved relevant k) \<and> unit (reciprocal_rank_at_k retrieved relevant k) \<and>
    unit (ndcg_at_k retrieved relevance k) \<and> unit (hit_rate_at_k retrieved relevant k) \<and>
    pred_option unit (precision_at_k retrieved relevant not_relevant k) \<and>
    (precision_at_k retrieved relevant not_relevant k = None) =
      (k \<le> 0 \<or> take (nat k) retrieved = [] \<or> \<not> set (take (nat k) retrieved) \<subseteq> relevant \<union> not_relevant)"
  using recall_unit[OF assms(1)] reciprocal_unit ndcg_unit[OF assms(2)] hit_rate_unit precision_unit
  by (cases "precision_at_k retrieved relevant not_relevant k") (auto simp: precision_at_k_def Let_def split: if_splits)

lemma metrics_bounded_witness:
  "unit (recall_at_k [''a'', ''b'', ''b''] {''a'', ''c''} 2) \<and> unit (reciprocal_rank_at_k [''a'', ''b'', ''b''] {''a'', ''c''} 2) \<and>
    unit (ndcg_at_k [''a'', ''b'', ''b''] [(''a'', 1), (''b'', 3)] 2) \<and> unit (hit_rate_at_k [''a'', ''b'', ''b''] {''a'', ''c''} 2) \<and>
    pred_option unit (precision_at_k [''a'', ''b'', ''b''] {''a'', ''c''} {''b''} 2) \<and>
    (precision_at_k [''a'', ''b'', ''b''] {''a'', ''c''} {''b''} 2 = None) =
      ((2::int) \<le> 0 \<or> take (nat 2) [''a'', ''b'', ''b''] = [] \<or> \<not> set (take (nat 2) [''a'', ''b'', ''b'']) \<subseteq> {''a'', ''c''} \<union> {''b''})"
  by (rule metrics_bounded) simp_all

end
