(* ===== verification/Replay.thy ===== *)
theory Replay
  imports Metrics Json "HOL-Library.List_Lexorder" "HOL-Library.Char_ord" "HOL-Library.Product_Lexorder"
begin

text \<open>
  Replay reports: what a replay emits for a case (\<open>quality/replay.py\<close>), how a report read back from
  a file is validated, and how two are compared (\<open>quality/compare.py\<close>). A report is a JSON value,
  since a file is untrusted; a validator is the list of its checks in order, of which the first that
  fails, or that raises by itself, ends the function. Parameters: \<open>dig\<close> is \<open>_sha256_json\<close> (\<open>None\<close>
  when it refuses a value with \<open>ValueError\<close>), \<open>dumps\<close> is \<open>json.dumps(..., sort_keys=True)\<close> and
  \<open>py_str\<close> is \<open>str\<close> on JSON values. The notes and names carried for display are not tracked.
\<close>

section \<open>Checks\<close>

text \<open>\<open>EvalCaseError\<close>, or an exception that is not one of the documented family.\<close>

datatype quality_exc = EvalCaseErr | Escapes py_exc

type_synonym 'a checked = "(quality_exc, 'a) result"

definition require :: "bool \<Rightarrow> unit checked" where
  "require c = (if c then Inr () else Inl EvalCaseErr)"

fun all_ok :: "unit checked list \<Rightarrow> unit checked" where
  "all_ok [] = Inr ()"
| "all_ok (r # rs) = (case r of Inl e \<Rightarrow> Inl e | Inr _ \<Rightarrow> all_ok rs)"

definition escape :: "(py_exc, 'a) result \<Rightarrow> 'a checked" where
  "escape r = (case r of Inl e \<Rightarrow> Inl (Escapes e) | Inr x \<Rightarrow> Inr x)"

fun is_obj :: "json \<Rightarrow> bool" where "is_obj (JObj _) = True" | "is_obj _ = False"
fun is_list :: "json \<Rightarrow> bool" where "is_list (JArr _) = True" | "is_list _ = False"
fun is_str :: "json \<Rightarrow> bool" where "is_str (JStr _) = True" | "is_str _ = False"
fun is_bool :: "json \<Rightarrow> bool" where "is_bool (JBool _) = True" | "is_bool _ = False"
fun is_pure_int :: "json \<Rightarrow> bool" where "is_pure_int (JInt _) = True" | "is_pure_int _ = False"

text \<open>\<open>isinstance(v, int)\<close>: a boolean is one too.\<close>

definition is_int :: "json \<Rightarrow> bool" where "is_int v \<longleftrightarrow> is_pure_int v \<or> is_bool v"

fun members :: "json \<Rightarrow> (string \<times> json) list" where "members (JObj d) = d" | "members _ = []"
fun items :: "json \<Rightarrow> json list" where "items (JArr xs) = xs" | "items _ = []"
fun str_of :: "json \<Rightarrow> string" where "str_of (JStr s) = s" | "str_of _ = ''''"
fun int_of :: "json \<Rightarrow> int" where "int_of (JInt i) = i" | "int_of _ = 0"
fun num :: "json \<Rightarrow> real" where "num (JInt i) = real_of_int i" | "num (JFloat r) = r" | "num _ = 0"

definition jget :: "json \<Rightarrow> string \<Rightarrow> json" where "jget v k = j_get (members v) k"

text \<open>\<open>v == i\<close> for an integer \<open>i\<close>.\<close>

fun eq_int :: "json \<Rightarrow> int \<Rightarrow> bool" where
  "eq_int (JInt j) i \<longleftrightarrow> j = i"
| "eq_int (JFloat r) i \<longleftrightarrow> r = real_of_int i"
| "eq_int (JBool b) i \<longleftrightarrow> (if b then 1 else 0) = i"
| "eq_int _ i \<longleftrightarrow> False"

text \<open>\<open>v or {}\<close>\<close>

fun or_empty :: "json \<Rightarrow> json" where
  "or_empty (JStr s) = (if s = '''' then JObj [] else JStr s)"
| "or_empty (JArr xs) = (if xs = [] then JObj [] else JArr xs)"
| "or_empty (JInt i) = (if i = 0 then JObj [] else JInt i)"
| "or_empty (JFloat r) = (if r = 0 then JObj [] else JFloat r)"
| "or_empty (JBool b) = (if b then JBool True else JObj [])"
| "or_empty JNull = JObj []"
| "or_empty v = v"

text \<open>\<open>math.isfinite\<close> converts an integer to a float first, which raises when it is too large.\<close>

fun finite_number :: "json \<Rightarrow> (py_exc, bool) result" where
  "finite_number (JInt i) = (if \<bar>i\<bar> \<ge> FLOAT_INT_LIMIT then Inl OverflowErr else Inr True)"
| "finite_number (JFloat r) = Inr True"
| "finite_number _ = Inr False"

definition require_finite :: "json \<Rightarrow> unit checked" where
  "require_finite v = bind_res (escape (finite_number v)) require"

section \<open>Reading a case\<close>

definition REPLAY_REPORT_SCHEMA_VERSION :: int where "REPLAY_REPORT_SCHEMA_VERSION = 1"
definition REPLAY_REPORT_KIND :: string where "REPLAY_REPORT_KIND = ''replay_report''"

definition STAGE_OUTCOME_KEYS :: "string list" where
  "STAGE_OUTCOME_KEYS = [''bm25_error'', ''dense_error'', ''dense_suppressed_mismatch'', ''expansion_failed'',
     ''rerank_fallback'', ''rescue_failed'']"

definition DELTA_METRICS :: "string list" where
  "DELTA_METRICS = [''hit_rate'', ''reciprocal_rank'', ''recall_labeled'', ''ndcg'']"

definition EPSILON :: real where "EPSILON = 1 / 10 ^ 9"

abbreviation case_id :: "json \<Rightarrow> string" where "case_id c \<equiv> str_of (jget c ''case_id'')"

definition label_list :: "json \<Rightarrow> string \<Rightarrow> string list" where
  "label_list c name = map str_of (items (jget (jget c ''labels'') name))"

definition ordered_hashes :: "json \<Rightarrow> string list" where
  "ordered_hashes c = map (\<lambda>i. str_of (jget i ''content_hash'')) (items (jget c ''retrieved''))"

definition case_flags :: "json \<Rightarrow> string list" where
  "case_flags c = map str_of (items (jget c ''flags''))"

text \<open>\<open>{h: 1.0 for h in relevant}\<close>\<close>

definition unit_gains :: "string list \<Rightarrow> (string, real) odict" where
  "unit_gains hs = map (\<lambda>h. (h, 1)) (remdups hs)"

text \<open>The metrics of a case, recomputed from its ranking and labels.\<close>

definition expected_metric :: "json \<Rightarrow> string \<Rightarrow> real" where
  "expected_metric c key =
     (let ordered = ordered_hashes c; relevant = label_list c ''relevant''; k = int_of (jget c ''top_k'')
      in if key = ''hit_rate'' then hit_rate_at_k ordered (set relevant) k
         else if key = ''reciprocal_rank'' then reciprocal_rank_at_k ordered (set relevant) k
         else if key = ''recall_labeled'' then recall_labeled_at_k ordered (set relevant) k
         else ndcg_at_k ordered (unit_gains relevant) k)"

definition expected_precision :: "json \<Rightarrow> real option" where
  "expected_precision c = precision_at_k (ordered_hashes c) (set (label_list c ''relevant''))
     (set (label_list c ''not_relevant'')) (int_of (jget c ''top_k''))"

section \<open>Validation\<close>

definition validate_flags_consistency :: "json \<Rightarrow> unit checked" where
  "validate_flags_consistency c =
     (let flags = jget c ''flags''; fs = case_flags c;
          degraded_expected = list_ex (\<lambda>(_, v). v = JBool True) (members (jget c ''stage_outcomes''));
          expected_included = (\<not> (degraded_expected \<or> ''unreplayable_filters'' \<in> set fs \<or> ''invalid_filters'' \<in> set fs))
      in all_ok [
        require (is_list flags),
        require (list_all is_str (items flags)),
        require ((''degraded'' \<in> set fs) = degraded_expected),
        require (jget c ''included_in_aggregate'' = JBool expected_included)])"

definition nonempty_str :: "json \<Rightarrow> bool" where
  "nonempty_str v \<longleftrightarrow> is_str v \<and> str_of v \<noteq> ''''"

definition validate_labels :: "json \<Rightarrow> unit checked" where
  "validate_labels c =
     (let labels = jget c ''labels'';
          one = (\<lambda>name. let values = jget labels name in
            [require (is_list values), require (list_all nonempty_str (items values)), require (distinct (label_list c name))])
      in all_ok (require (is_obj labels) # one ''relevant'' @ one ''not_relevant'' @
           [require (set (label_list c ''relevant'') \<inter> set (label_list c ''not_relevant'') = {})]))"

fun validate_items :: "int \<Rightarrow> json list \<Rightarrow> unit checked list" where
  "validate_items i [] = []"
| "validate_items i (item # rest) =
     [require (is_obj item), require (nonempty_str (jget item ''content_hash'')), require_finite (jget item ''score''),
      require (eq_int (jget item ''rank'') i), require (is_str (jget item ''source''))] @ validate_items (i + 1) rest"

definition validate_retrieved :: "json \<Rightarrow> unit checked" where
  "validate_retrieved c =
     (let retrieved = jget c ''retrieved''
      in all_ok ([require (is_list retrieved), require (int (length (items retrieved)) \<le> int_of (jget c ''top_k''))] @
           validate_items 1 (items retrieved)))"

definition validate_metrics :: "json \<Rightarrow> unit checked" where
  "validate_metrics c =
     (let ms = jget c ''metrics''; precision = jget ms ''precision''
      in all_ok (require (is_obj ms) # map (\<lambda>key. require_finite (jget ms key)) DELTA_METRICS @
           [if precision = JNull then Inr () else require_finite precision] @
           map (\<lambda>key. require (\<bar>num (jget ms key) - expected_metric c key\<bar> \<le> EPSILON)) DELTA_METRICS @
           [case expected_precision c of
              None \<Rightarrow> require (precision = JNull)
            | Some want \<Rightarrow> require (precision \<noteq> JNull \<and> \<bar>num precision - want\<bar> \<le> EPSILON)]))"

definition validate_case :: "json \<Rightarrow> unit checked" where
  "validate_case c =
     (let outcomes = jget c ''stage_outcomes''
      in all_ok ([
        require (is_obj c),
        require (nonempty_str (jget c ''case_id'')),
        require (is_pure_int (jget c ''version'')),
        require (is_pure_int (jget c ''top_k'') \<and> 0 < int_of (jget c ''top_k'')),
        require (is_str (jget c ''query_text'')),
        require (is_bool (jget c ''included_in_aggregate'')),
        require (is_obj outcomes),
        require (set (od_keys (members outcomes)) = set STAGE_OUTCOME_KEYS)] @
        map (\<lambda>key. require (is_bool (jget outcomes key))) STAGE_OUTCOME_KEYS @
        [validate_flags_consistency c, validate_labels c, validate_retrieved c, validate_metrics c]))"

fun validate_cases :: "string set \<Rightarrow> json list \<Rightarrow> unit checked" where
  "validate_cases seen [] = Inr ()"
| "validate_cases seen (c # cs) =
     all_ok [validate_case c, require (case_id c \<notin> seen), validate_cases (insert (case_id c) seen) cs]"

section \<open>The identity of a case set\<close>

definition ns :: "(json \<Rightarrow> string) \<Rightarrow> json \<Rightarrow> string" where
  "ns py_str v = (case v of JNull \<Rightarrow> '''' | JStr s \<Rightarrow> s | _ \<Rightarrow> py_str v)"

text \<open>\<open>report_case_to_fingerprint_input\<close> followed by the canonical row of \<open>case_set_fingerprint\<close>.\<close>

definition judged :: "json \<Rightarrow> (string \<times> string) list" where
  "judged c = map (\<lambda>h. (h, ''relevant'')) (label_list c ''relevant'') @
     map (\<lambda>h. (h, ''not_relevant'')) (label_list c ''not_relevant'')"

type_synonym fp_row = "string \<times> string \<times> string \<times> string \<times> string \<times> (string \<times> string) list"

definition fingerprint_row :: "(json \<Rightarrow> string option) \<Rightarrow> (json \<Rightarrow> string) \<Rightarrow> json \<Rightarrow> (py_exc, fp_row) result" where
  "fingerprint_row dig py_str c = (case dig (or_empty (jget c ''filters'')) of
      None \<Rightarrow> Inl ValueErr
    | Some h \<Rightarrow> Inr (ns py_str (jget c ''case_id''), ns py_str (jget c ''version''), ns py_str (jget c ''query_text''),
        ns py_str (jget c ''top_k''), h, sort (judged c)))"

fun row_json :: "fp_row \<Rightarrow> json" where
  "row_json (a, b, c, d, e, ls) =
     JArr [JStr a, JStr b, JStr c, JStr d, JStr e, JArr (map (\<lambda>(h, j). JArr [JStr h, JStr j]) ls)]"

definition case_set_fingerprint :: "(json \<Rightarrow> string option) \<Rightarrow> (json \<Rightarrow> string) \<Rightarrow> json list \<Rightarrow> (py_exc, string) result" where
  "case_set_fingerprint dig py_str cases =
     bind_res (map_res (fingerprint_row dig py_str) cases)
       (\<lambda>rows. case dig (JArr (map row_json (sort rows))) of None \<Rightarrow> Inl ValueErr | Some h \<Rightarrow> Inr h)"

definition validate_report :: "(json \<Rightarrow> string option) \<Rightarrow> (json \<Rightarrow> string) \<Rightarrow> json \<Rightarrow> unit checked" where
  "validate_report dig py_str report =
     (let fps = jget report ''fingerprints''; cases = jget report ''cases''
      in all_ok ([
        require (is_obj report),
        require (eq_int (jget report ''schema_version'') REPLAY_REPORT_SCHEMA_VERSION),
        require (jget report ''kind'' = JStr REPLAY_REPORT_KIND),
        require (is_int (jget report ''as_of_unix'')),
        require (is_obj fps)] @
        map (\<lambda>key. require (is_str (jget fps key))) [''profile'', ''corpus'', ''index'', ''case_set''] @ [
        require (is_bool (jget report ''deterministic'')),
        require (is_list cases),
        validate_cases {} (items cases),
        bind_res (escape (case_set_fingerprint dig py_str (items cases)))
          (\<lambda>h. require (jget fps ''case_set'' = JStr h))]))"

section \<open>What a replay reports for a case\<close>

text \<open>An explicit selection: each id or name resolved, an id and its alias once.\<close>

fun resolve_selectors :: "(string \<Rightarrow> string option) \<Rightarrow> string set \<Rightarrow> string list \<Rightarrow> string list checked" where
  "resolve_selectors get_eval_case seen [] = Inr []"
| "resolve_selectors get_eval_case seen (selector # rest) = (case get_eval_case selector of
      None \<Rightarrow> Inl EvalCaseErr
    | Some cid \<Rightarrow>
        if cid \<in> seen then resolve_selectors get_eval_case seen rest
        else bind_res (resolve_selectors get_eval_case (insert cid seen) rest) (\<lambda>ids. Inr (cid # ids)))"

text \<open>The ids to replay, those selected by name, and the archived cases left out.\<close>

definition resolve_case_ids ::
  "(string \<Rightarrow> string option) \<Rightarrow> string list \<Rightarrow> string list \<Rightarrow> string list option \<Rightarrow> (string list \<times> string set \<times> nat) checked" where
  "resolve_case_ids get_eval_case active archived case_ids = (case case_ids of
      None \<Rightarrow> Inr (active, {}, length archived)
    | Some selectors \<Rightarrow> bind_res (resolve_selectors get_eval_case {} selectors) (\<lambda>ids. Inr (ids, set ids, 0)))"

record eval_label =
  lb_hash :: string
  lb_relevant :: bool

record eval_case =
  ec_id :: string
  ec_name :: json
  ec_version :: int
  ec_archived :: bool
  ec_query :: string
  ec_top_k :: int
  ec_namespace :: json
  ec_scope :: json
  ec_unreplayable :: "string list"
  ec_labels :: "eval_label list"
  ec_promoted :: "(string, string) odict"

text \<open>A result; its score is the float the pipeline computed, which may be infinite or no number.\<close>

record hit_row =
  hr_hash :: string
  hr_score :: json
  hr_source :: string

text \<open>The results the pipeline returned, each identity at its best rank.\<close>

fun dedup_hits :: "string set \<Rightarrow> hit_row list \<Rightarrow> hit_row list" where
  "dedup_hits seen [] = []"
| "dedup_hits seen (r # rs) =
     (if hr_hash r \<in> seen then dedup_hits seen rs else r # dedup_hits (insert (hr_hash r) seen) rs)"

fun retrieved_json :: "int \<Rightarrow> hit_row list \<Rightarrow> json list" where
  "retrieved_json i [] = []"
| "retrieved_json i (r # rs) =
     JObj [(''content_hash'', JStr (hr_hash r)), (''score'', hr_score r), (''rank'', JInt i), (''source'', JStr (hr_source r))]
       # retrieved_json (i + 1) rs"

definition STALE_AXES :: "string list" where "STALE_AXES = [''profile'', ''corpus'', ''index'']"

definition staleness :: "(string, string) odict \<Rightarrow> (string \<Rightarrow> string) \<Rightarrow> (string \<times> bool option) list" where
  "staleness promoted live =
     map (\<lambda>axis. (axis, case map_of promoted axis of
         None \<Rightarrow> None
       | Some fp \<Rightarrow> if fp = '''' then None else Some (fp \<noteq> live axis))) STALE_AXES"

definition sorted_strs :: "string set \<Rightarrow> json" where
  "sorted_strs hs = JArr (map JStr (sorted_list_of_set hs))"

definition labelled :: "bool \<Rightarrow> eval_label list \<Rightarrow> string set" where
  "labelled rel ls = set (map lb_hash (filter (\<lambda>l. lb_relevant l = rel) ls))"

definition json_opt :: "real option \<Rightarrow> json" where
  "json_opt x = (case x of None \<Rightarrow> JNull | Some r \<Rightarrow> JFloat r)"

definition case_filters :: "eval_case \<Rightarrow> bool \<Rightarrow> json" where
  "case_filters ec invalid =
     JObj (if invalid then [(''namespace'', JNull), (''scope'', JNull)]
           else [(''namespace'', ec_namespace ec), (''scope'', ec_scope ec)] @
             (if ec_unreplayable ec \<noteq> [] then [(''unreplayable'', JArr (map JStr (sort (ec_unreplayable ec))))] else []))"

definition replay_case_report ::
  "eval_case \<Rightarrow> hit_row list \<Rightarrow> bool list \<Rightarrow> (string \<Rightarrow> string) \<Rightarrow> (json \<Rightarrow> json) \<Rightarrow> bool \<Rightarrow> bool \<Rightarrow> json" where
  "replay_case_report ec deduped outcomes live safe_name invalid explicitly_selected =
     (let hashes = map hr_hash deduped; k = ec_top_k ec;
          relevant = labelled True (ec_labels ec); not_relevant = labelled False (ec_labels ec);
          precision = precision_at_k hashes relevant not_relevant k;
          unreplayable = (ec_unreplayable ec \<noteq> []);
          stale = staleness (ec_promoted ec) live;
          degraded = list_ex (\<lambda>b. b) outcomes;
          flags = (if explicitly_selected \<and> ec_archived ec then [''archived''] else []) @
            map (\<lambda>(axis, _). ''stale_'' @ axis) (filter (\<lambda>(_, d). d = Some True) stale) @
            (if precision = None then [''incomplete_labels''] else []) @
            (if degraded then [''degraded''] else []) @
            (if unreplayable then [''unreplayable_filters''] else []) @
            (if invalid then [''invalid_filters''] else [])
      in JObj [
        (''case_id'', JStr (ec_id ec)), (''name'', safe_name (ec_name ec)), (''version'', JInt (ec_version ec)),
        (''status'', JStr (if ec_archived ec then ''archived'' else ''active'')),
        (''query_text'', JStr (ec_query ec)), (''top_k'', JInt k), (''filters'', case_filters ec invalid),
        (''stale'', JObj (map (\<lambda>(a, d). (a, case d of None \<Rightarrow> JNull | Some b \<Rightarrow> JBool b)) stale)),
        (''flags'', JArr (map JStr (sort flags))),
        (''labels'', JObj [(''relevant'', sorted_strs relevant), (''not_relevant'', sorted_strs not_relevant)]),
        (''retrieved'', JArr (retrieved_json 1 deduped)),
        (''metrics'', JObj [
          (''hit_rate'', JFloat (hit_rate_at_k hashes relevant k)),
          (''reciprocal_rank'', JFloat (reciprocal_rank_at_k hashes relevant k)),
          (''recall_labeled'', JFloat (recall_labeled_at_k hashes relevant k)),
          (''ndcg'', JFloat (ndcg_at_k hashes (unit_gains (sorted_list_of_set relevant)) k)),
          (''precision'', json_opt precision)]),
        (''stage_outcomes'', JObj (zip STAGE_OUTCOME_KEYS (map JBool outcomes))),
        (''included_in_aggregate'', JBool (\<not> (degraded \<or> unreplayable \<or> invalid)))])"

record search_stats =
  ss_bm25_error :: bool
  ss_dense_error :: bool
  ss_dense_suppressed :: bool
  ss_expansion_failed :: bool
  ss_fused_total :: nat
  ss_rerank_applied :: bool
  ss_score_scale :: string
  ss_rescue_failed :: bool

definition stage_outcomes_of :: "search_stats \<Rightarrow> bool list" where
  "stage_outcomes_of st = [ss_bm25_error st, ss_dense_error st, ss_dense_suppressed st, ss_expansion_failed st,
     0 < ss_fused_total st \<and> ss_rerank_applied st \<and> ss_score_scale st \<noteq> ''rerank'', ss_rescue_failed st]"

text \<open>Coverage of the evaluation: a reason counts once per case that is not in the aggregate.\<close>

definition included :: "json \<Rightarrow> bool" where
  "included c \<longleftrightarrow> jget c ''included_in_aggregate'' = JBool True"

definition exclusion_reasons :: "(string, string) odict \<Rightarrow> json \<Rightarrow> string set" where
  "exclusion_reasons dense_error_codes c =
     (let reasons = {key \<in> set STAGE_OUTCOME_KEYS. jget (jget c ''stage_outcomes'') key = JBool True};
          limit = (map_of dense_error_codes (case_id c) = Some ''dense_exhaustive_limit'');
          reasons' = (if ''dense_error'' \<in> reasons \<and> limit
             then insert ''dense_exhaustive_limit'' (reasons - {''dense_error''}) else reasons)
      in reasons' \<union> (set (case_flags c) \<inter> {''unreplayable_filters'', ''invalid_filters''}))"

definition evaluation_summary :: "json list \<Rightarrow> (string, string) odict \<Rightarrow> json" where
  "evaluation_summary cases dense_error_codes =
     (let evaluated = length (filter included cases);
          status = (if cases = [] then ''empty'' else if evaluated = 0 then ''unavailable''
             else if evaluated = length cases then ''complete'' else ''partial'');
          rs = map (exclusion_reasons dense_error_codes) (filter (Not \<circ> included) cases);
          codes = sorted_list_of_set (\<Union> (set rs))
      in JObj [(''status'', JStr status),
           (''reasons'', JArr (map (\<lambda>code. JObj [(''code'', JStr code),
              (''count'', JInt (int (length (filter (\<lambda>r. code \<in> r) rs))))]) codes))])"

definition metric_of :: "string \<Rightarrow> json \<Rightarrow> real" where
  "metric_of key c = num (jget (jget c ''metrics'') key)"

definition no_precision :: "json \<Rightarrow> bool" where
  "no_precision c \<longleftrightarrow> jget (jget c ''metrics'') ''precision'' = JNull"

definition aggregate_json :: "json list \<Rightarrow> json" where
  "aggregate_json cases =
     (let inc = filter included cases; scored = filter (Not \<circ> no_precision) inc
      in JObj [(''k_note'', JStr ''each case scored at its own top_k''),
           (''mean_hit_rate'', JFloat (mean (map (metric_of ''hit_rate'') inc))),
           (''mrr'', JFloat (mean (map (metric_of ''reciprocal_rank'') inc))),
           (''mean_recall_labeled'', JFloat (mean (map (metric_of ''recall_labeled'') inc))),
           (''mean_ndcg'', JFloat (mean (map (metric_of ''ndcg'') inc))),
           (''mean_precision'', JObj [(''value'', JFloat (mean (map (metric_of ''precision'') scored))),
              (''evaluated'', JInt (int (length scored))), (''incomplete'', JInt (int (length inc) - int (length scored)))]),
           (''evaluated_cases'', JInt (int (length inc)))])"

definition counts_json :: "nat \<Rightarrow> json list \<Rightarrow> json" where
  "counts_json archived_skipped cases =
     (let n = (\<lambda>P. JInt (int (length (filter P cases))))
      in JObj [(''replayed'', JInt (int (length cases))), (''archived_skipped'', JInt (int archived_skipped)),
           (''stale'', n (\<lambda>c. list_ex (\<lambda>(_, v). v = JBool True) (members (jget c ''stale'')))),
           (''degraded'', n (\<lambda>c. ''degraded'' \<in> set (case_flags c))),
           (''excluded_from_aggregate'', n (Not \<circ> included)),
           (''incomplete_precision'', n (\<lambda>c. included c \<and> no_precision c))])"

text \<open>\<open>replay_cases\<close> once every selected case was run: \<open>live\<close> holds the fingerprints of the live state.\<close>

definition MAX_AS_OF_UNIX :: int where "MAX_AS_OF_UNIX = 32503680000"

definition replay_report ::
  "(json \<Rightarrow> string option) \<Rightarrow> (json \<Rightarrow> string) \<Rightarrow> (string \<Rightarrow> string) \<Rightarrow> json \<Rightarrow> int \<Rightarrow> int option \<Rightarrow> string list \<Rightarrow> nat
    \<Rightarrow> (string, string) odict \<Rightarrow> json list \<Rightarrow> (py_exc, json) result" where
  "replay_report dig py_str live knobs now as_of nd_stages archived_skipped dense_error_codes case_reports =
     (let cases = sort_key case_id case_reports
      in if (case as_of of None \<Rightarrow> False | Some t \<Rightarrow> \<not> (0 \<le> t \<and> t \<le> MAX_AS_OF_UNIX)) then Inl ValueErr
         else bind_res (case_set_fingerprint dig py_str cases) (\<lambda>fp. Inr (JObj [
        (''schema_version'', JInt REPLAY_REPORT_SCHEMA_VERSION), (''kind'', JStr REPLAY_REPORT_KIND), (''as_of_unix'', JInt (case as_of of None \<Rightarrow> now | Some t \<Rightarrow> t)),
        (''deterministic'', JBool (nd_stages = [])), (''nondeterministic_stages'', JArr (map JStr nd_stages)),
        (''fingerprints'', JObj [(''profile'', JStr (live ''profile'')), (''corpus'', JStr (live ''corpus'')),
           (''index'', JStr (live ''index'')), (''case_set'', JStr fp)]),
        (''profile_knobs'', knobs), (''evaluation'', evaluation_summary cases dense_error_codes),
        (''counts'', counts_json archived_skipped cases), (''aggregate'', aggregate_json cases), (''cases'', JArr cases)])))"

section \<open>Comparing two reports\<close>

type_synonym delta = "real \<times> real \<times> real"

record cmp_entry =
  ce_id :: string
  ce_status :: string
  ce_class :: "string option"
  ce_precision :: "string option"
  ce_deltas :: "(string, delta) odict"
  ce_moves :: "(string \<times> json option \<times> json option) list"

definition definition_key :: "(json \<Rightarrow> string) \<Rightarrow> json \<Rightarrow> json \<times> json \<times> string \<times> string list \<times> string list" where
  "definition_key dumps c = (jget c ''query_text'', jget c ''top_k'', dumps (or_empty (jget c ''filters'')),
     sort (label_list c ''relevant''), sort (label_list c ''not_relevant''))"

definition first_rank :: "json list \<Rightarrow> string \<Rightarrow> json option" where
  "first_rank retrieved h = map_option (\<lambda>i. jget i ''rank'') (find (\<lambda>i. str_of (jget i ''content_hash'') = h) retrieved)"

definition classify_deltas :: "real list \<Rightarrow> string" where
  "classify_deltas ds =
     (let improved = list_ex (\<lambda>d. EPSILON < d) ds; regressed = list_ex (\<lambda>d. d < - EPSILON) ds
      in if improved \<and> regressed then ''mixed'' else if improved then ''improved''
         else if regressed then ''regressed'' else ''unchanged'')"

definition precision_status :: "json \<Rightarrow> json \<Rightarrow> string" where
  "precision_status b c =
     (if b \<noteq> JNull \<and> c \<noteq> JNull then ''comparable''
      else if b = JNull \<and> c = JNull then ''both_incomplete''
      else if b = JNull then ''baseline_incomplete'' else ''candidate_incomplete'')"

definition is_degraded :: "json \<Rightarrow> bool" where
  "is_degraded c \<longleftrightarrow> \<not> included c \<and> ''degraded'' \<in> set (case_flags c)"

text \<open>\<open>case["metrics"]["precision"]\<close>\<close>

definition precision_at :: "json \<Rightarrow> json checked" where
  "precision_at c = escape (j_at (members (jget c ''metrics'')) ''precision'')"

definition delta_of :: "json \<Rightarrow> json \<Rightarrow> string \<Rightarrow> delta" where
  "delta_of base cand key = (metric_of key base, metric_of key cand, metric_of key cand - metric_of key base)"

definition compare_case :: "(json \<Rightarrow> string) \<Rightarrow> json \<Rightarrow> json \<Rightarrow> cmp_entry checked" where
  "compare_case dumps base cand =
     (let status = (\<lambda>s. Inr \<lparr>ce_id = case_id base, ce_status = s, ce_class = None, ce_precision = None, ce_deltas = [], ce_moves = []\<rparr>)
      in if jget base ''version'' \<noteq> jget cand ''version'' then status ''version_mismatch''
         else if definition_key dumps base \<noteq> definition_key dumps cand then status ''definition_mismatch''
         else if is_degraded base \<and> is_degraded cand then status ''both_degraded''
         else if is_degraded cand then status ''candidate_degraded''
         else if is_degraded base then status ''baseline_degraded''
         else if \<not> included base \<or> \<not> included cand then status ''excluded''
         else bind_res (precision_at base) (\<lambda>bp. bind_res (precision_at cand) (\<lambda>cp.
           let deltas = map (\<lambda>key. (key, delta_of base cand key))
                 (DELTA_METRICS @ (if precision_status bp cp = ''comparable'' then [''precision''] else []))
           in Inr \<lparr>ce_id = case_id base, ce_status = ''compared'', ce_class = Some (classify_deltas (map (\<lambda>(_, _, _, d). d) deltas)),
                ce_precision = Some (precision_status bp cp), ce_deltas = deltas,
                ce_moves = map (\<lambda>h. (h, first_rank (items (jget base ''retrieved'')) h, first_rank (items (jget cand ''retrieved'')) h))
                  (sort (label_list base ''relevant''))\<rparr>)))"

definition SUMMARY_KEYS :: "string list" where
  "SUMMARY_KEYS = [''improved'', ''regressed'', ''unchanged'', ''mixed'', ''version_mismatch'', ''definition_mismatch'',
     ''baseline_only'', ''candidate_only'', ''excluded'', ''baseline_degraded'', ''candidate_degraded'', ''both_degraded'']"

text \<open>The summary bucket a comparison case counts toward.\<close>

definition verdict_key :: "cmp_entry \<Rightarrow> string" where
  "verdict_key e = (if ce_status e = ''compared'' then the (ce_class e) else ce_status e)"

text \<open>\<open>summary[key] += 1\<close> for each key in turn.\<close>

fun count_keys :: "(string, nat) odict \<Rightarrow> string list \<Rightarrow> (string, nat) odict checked" where
  "count_keys summary [] = Inr summary"
| "count_keys summary (k # ks) = (case map_of summary k of
      None \<Rightarrow> Inl (Escapes KeyErr)
    | Some n \<Rightarrow> count_keys (od_set k (n + 1) summary) ks)"

record comparison =
  co_compat :: "(string, bool) odict"
  co_cohort :: nat
  co_aggregate :: "(string, delta) odict"
  co_precision_cohort :: nat
  co_summary :: "(string, nat) odict"
  co_cases :: "cmp_entry list"

definition find_case :: "json list \<Rightarrow> string \<Rightarrow> json option" where
  "find_case cases cid = find (\<lambda>c. case_id c = cid) cases"

definition mean_delta :: "delta list \<Rightarrow> delta" where
  "mean_delta ds = (let b = mean (map fst ds); c = mean (map (fst \<circ> snd) ds) in (b, c, c - b))"

text \<open>Both sides of an aggregate are recomputed over the \<open>compared\<close> cases only.\<close>

definition aggregate_deltas :: "(json \<times> json) list \<Rightarrow> (string, delta) odict \<times> nat" where
  "aggregate_deltas pairs =
     (let both = filter (\<lambda>(b, c). \<not> no_precision b \<and> \<not> no_precision c) pairs
      in (map (\<lambda>key. (key, mean_delta (map (\<lambda>(b, c). delta_of b c key) pairs))) DELTA_METRICS @
          [(''precision'', mean_delta (map (\<lambda>(b, c). delta_of b c ''precision'') both))], length both))"

definition compatibility :: "json \<Rightarrow> json \<Rightarrow> (string, bool) odict" where
  "compatibility b c =
     (let same = (\<lambda>key. jget (jget b ''fingerprints'') key = jget (jget c ''fingerprints'') key)
      in [(''case_set_match'', same ''case_set''), (''corpus_match'', same ''corpus''), (''index_match'', same ''index''),
          (''profile_match'', same ''profile''),
          (''as_of_match'', (let i = (\<lambda>v. case v of JBool x \<Rightarrow> (if x then 1 else 0) | _ \<Rightarrow> int_of v)
             in i (jget b ''as_of_unix'') = i (jget c ''as_of_unix''))),
          (''deterministic_inputs'', jget b ''deterministic'' = JBool True \<and> jget c ''deterministic'' = JBool True)])"

definition one_sided :: "string \<Rightarrow> string \<Rightarrow> cmp_entry" where
  "one_sided cid s = \<lparr>ce_id = cid, ce_status = s, ce_class = None, ce_precision = None, ce_deltas = [], ce_moves = []\<rparr>"

definition compare_one :: "(json \<Rightarrow> string) \<Rightarrow> json list \<Rightarrow> json list \<Rightarrow> string \<Rightarrow> cmp_entry checked" where
  "compare_one dumps bs cs cid = (case find_case bs cid of
      None \<Rightarrow> Inr (one_sided cid ''candidate_only'')
    | Some b \<Rightarrow> (case find_case cs cid of None \<Rightarrow> Inr (one_sided cid ''baseline_only'') | Some c \<Rightarrow> compare_case dumps b c))"

definition compare_reports ::
  "(json \<Rightarrow> string option) \<Rightarrow> (json \<Rightarrow> string) \<Rightarrow> (json \<Rightarrow> string) \<Rightarrow> json \<Rightarrow> json \<Rightarrow> comparison checked" where
  "compare_reports dig py_str dumps baseline candidate =
     bind_res (validate_report dig py_str baseline) (\<lambda>_. bind_res (validate_report dig py_str candidate) (\<lambda>_.
       let bs = items (jget baseline ''cases''); cs = items (jget candidate ''cases'');
           ids = sort (remdups (map case_id bs @ map case_id cs))
       in bind_res (map_res (compare_one dumps bs cs) ids) (\<lambda>cases.
            bind_res (count_keys (map (\<lambda>k. (k, 0)) SUMMARY_KEYS) (map verdict_key cases)) (\<lambda>summary.
              let pairs = map (\<lambda>e. (the (find_case bs (ce_id e)), the (find_case cs (ce_id e)))) (filter (\<lambda>e. ce_status e = ''compared'') cases);
                  agg = aggregate_deltas pairs
              in Inr \<lparr>co_compat = compatibility baseline candidate, co_cohort = length pairs, co_aggregate = fst agg,
                   co_precision_cohort = snd agg, co_summary = summary, co_cases = cases\<rparr>))))"

section \<open>What a passed validation says\<close>

lemma require_ok [simp]: "require c = Inr () \<longleftrightarrow> c" "require c \<noteq> Inl (Escapes e)"
  by (simp_all add: require_def)

lemma all_ok_iff [simp]: "all_ok rs = Inr () \<longleftrightarrow> (\<forall>r \<in> set rs. r = Inr ())"
  by (induction rs) (auto split: sum.split)

declare all_ok.simps(2) [simp del]

lemma escape_ok [simp]: "escape r = Inr x \<longleftrightarrow> r = Inr x"
  by (cases r) (simp_all add: escape_def)

lemma jget_simps [simp]: "jget (JObj d) k = j_get d k" "j_get [] k = JNull" "j_get ((k', v) # d) k = (if k' = k then v else j_get d k)"
  by (simp_all add: jget_def j_get_def)

lemma finite_ok [simp]: "require_finite (JFloat r) = Inr ()"
  by (simp add: require_finite_def escape_def require_def)

lemma valid_case_parts:
  assumes "validate_case c = Inr ()"
  shows "validate_flags_consistency c = Inr ()" "validate_labels c = Inr ()" "validate_retrieved c = Inr ()" "validate_metrics c = Inr ()"
  using assms by (simp_all add: validate_case_def Let_def ball_Un)

lemma valid_case_metric:
  assumes "validate_case c = Inr ()" "key \<in> set DELTA_METRICS"
  shows "\<bar>metric_of key c - expected_metric c key\<bar> \<le> EPSILON"
  using valid_case_parts(4)[OF assms(1)] assms(2) by (simp add: validate_metrics_def Let_def metric_of_def ball_Un)

lemma valid_case_precision:
  assumes "validate_case c = Inr ()"
  shows "case expected_precision c of None \<Rightarrow> no_precision c
    | Some want \<Rightarrow> \<not> no_precision c \<and> \<bar>metric_of ''precision'' c - want\<bar> \<le> EPSILON"
  using valid_case_parts(4)[OF assms]
  by (simp add: validate_metrics_def Let_def no_precision_def metric_of_def ball_Un split: option.splits)

text \<open>A stage of a valid case failed exactly when the case carries the flag; it is then out of the aggregate.\<close>

definition stage_failed :: "json \<Rightarrow> bool" where
  "stage_failed c \<longleftrightarrow> list_ex (\<lambda>(_, v). v = JBool True) (members (jget c ''stage_outcomes''))"

lemma valid_case_degraded: "validate_case c = Inr () \<Longrightarrow> is_degraded c = stage_failed c"
  by (drule valid_case_parts(1)) (auto simp: validate_flags_consistency_def Let_def is_degraded_def included_def stage_failed_def)

lemma valid_cases: "validate_cases seen cs = Inr () \<longleftrightarrow>
    (\<forall>c \<in> set cs. validate_case c = Inr ()) \<and> distinct (map case_id cs) \<and> set (map case_id cs) \<inter> seen = {}"
  by (induction cs arbitrary: seen) auto

definition report_cases :: "json \<Rightarrow> json list" where
  "report_cases r = items (jget r ''cases'')"

lemma valid_report:
  assumes "validate_report dig py_str r = Inr ()"
  shows "distinct (map case_id (report_cases r))" "c \<in> set (report_cases r) \<Longrightarrow> validate_case c = Inr ()"
  using assms by (auto simp: validate_report_def Let_def report_cases_def valid_cases)

section \<open>A replay's report is valid\<close>

lemma nonempty_JStr [simp]: "nonempty_str (JStr s) = (s \<noteq> [])"
  by (simp add: nonempty_str_def)

lemma str_of_JStr [simp]: "str_of \<circ> JStr = id"
  by (simp add: fun_eq_iff)

lemma items_sorted_strs [simp]: "finite A \<Longrightarrow> map str_of (items (sorted_strs A)) = sorted_list_of_set A"
  "is_list (sorted_strs A)" "items (sorted_strs A) = map JStr (sorted_list_of_set A)"
  by (simp_all add: sorted_strs_def comp_def)

lemma finite_labelled [simp]: "finite (labelled b ls)"
  by (simp add: labelled_def)

lemma retrieved_hashes [simp]: "map (\<lambda>i. str_of (jget i ''content_hash'')) (retrieved_json i rs) = map hr_hash rs"
  by (induction rs arbitrary: i) simp_all

lemma retrieved_length [simp]: "length (retrieved_json i rs) = length rs"
  by (induction rs arbitrary: i) simp_all

lemma require_finite_ok: "require_finite v = Inr () \<longleftrightarrow> finite_number v = Inr True"
  by (cases "finite_number v") (simp_all add: require_finite_def escape_def)

lemma retrieved_valid:
  "(\<forall>r \<in> set (validate_items i (retrieved_json i rs)). r = Inr ()) \<longleftrightarrow>
   list_all (\<lambda>r. hr_hash r \<noteq> [] \<and> finite_number (hr_score r) = Inr True) rs"
  by (induction rs arbitrary: i) (auto simp: require_finite_ok)

lemma dedup_off: "list_all (\<lambda>x. hr_hash x \<notin> seen) (dedup_hits seen rs)"
proof (induction rs arbitrary: seen)
  case (Cons r rs)
  have "list_all (\<lambda>x. hr_hash x \<notin> seen) (dedup_hits (insert (hr_hash r) seen) rs)"
    by (rule list.pred_mono_strong[OF Cons.IH]) blast
  with Cons.IH[of seen] show ?case by simp
qed simp

lemma dedup_distinct: "distinct (map hr_hash (dedup_hits seen rs))"
proof -
  show "distinct (map hr_hash (dedup_hits seen rs))"
  proof (induction rs arbitrary: seen)
    case (Cons r rs)
    have "hr_hash r \<notin> hr_hash ` set (dedup_hits (insert (hr_hash r) seen) rs)"
      using dedup_off[of "insert (hr_hash r) seen" rs] by (auto simp: list_all_iff)
    with Cons.IH[of seen] Cons.IH[of "insert (hr_hash r) seen"] show ?case by simp
  qed simp
qed

lemma outcome_keys: "length bs = 6 \<Longrightarrow>
    list_ex (\<lambda>(_, v). v = JBool True) (zip STAGE_OUTCOME_KEYS (map JBool bs)) = list_ex (\<lambda>b. b) bs \<and>
    set (od_keys (zip STAGE_OUTCOME_KEYS (map JBool bs))) = set STAGE_OUTCOME_KEYS \<and>
    (\<forall>key \<in> set STAGE_OUTCOME_KEYS. is_bool (j_get (zip STAGE_OUTCOME_KEYS (map JBool bs)) key))"
  by (auto simp: STAGE_OUTCOME_KEYS_def eval_nat_numeral length_Suc_conv)

text \<open>
  A stored case that the store's own validators accepted; and what the comparator asks of the
  ranking for it: at most \<open>top_k\<close> rows, each with a hash and a finite score.
\<close>

definition case_ok :: "eval_case \<Rightarrow> bool" where
  "case_ok ec \<longleftrightarrow> ec_id ec \<noteq> [] \<and> 0 < ec_top_k ec \<and> list_all (\<lambda>l. lb_hash l \<noteq> []) (ec_labels ec) \<and>
     labelled True (ec_labels ec) \<inter> labelled False (ec_labels ec) = {}"

definition hits_ok :: "eval_case \<Rightarrow> hit_row list \<Rightarrow> bool" where
  "hits_ok ec rs \<longleftrightarrow> int (length rs) \<le> ec_top_k ec \<and>
     list_all (\<lambda>r. hr_hash r \<noteq> [] \<and> finite_number (hr_score r) = Inr True) rs"

text \<open>One selected case with what its search returned: results, outcomes, and whether its filters were refused.\<close>

record run =
  rn_case :: eval_case
  rn_hits :: "hit_row list"
  rn_stats :: search_stats
  rn_invalid :: bool

definition replayed :: "(string \<Rightarrow> string) \<Rightarrow> (json \<Rightarrow> json) \<Rightarrow> bool \<Rightarrow> run \<Rightarrow> json" where
  "replayed live safe_name explicit r =
     replay_case_report (rn_case r) (dedup_hits {} (rn_hits r)) (stage_outcomes_of (rn_stats r)) live safe_name (rn_invalid r) explicit"

lemma report_fields:
  assumes "C = replay_case_report ec deduped outcomes live safe_name invalid explicitly_selected"
  shows "label_list C ''relevant'' = sorted_list_of_set (labelled True (ec_labels ec))"
    "label_list C ''not_relevant'' = sorted_list_of_set (labelled False (ec_labels ec))"
    "ordered_hashes C = map hr_hash deduped" "jget C ''top_k'' = JInt (ec_top_k ec)" "is_obj C"
    "jget C ''case_id'' = JStr (ec_id ec)" "jget C ''version'' = JInt (ec_version ec)" "jget C ''query_text'' = JStr (ec_query ec)"
    "jget C ''stage_outcomes'' = JObj (zip STAGE_OUTCOME_KEYS (map JBool outcomes))"
    "jget C ''retrieved'' = JArr (retrieved_json 1 deduped)"
    "jget C ''labels'' = JObj [(''relevant'', sorted_strs (labelled True (ec_labels ec))), (''not_relevant'', sorted_strs (labelled False (ec_labels ec)))]"
    "jget C ''metrics'' = (let hashes = map hr_hash deduped; relevant = labelled True (ec_labels ec); k = ec_top_k ec in JObj [
          (''hit_rate'', JFloat (hit_rate_at_k hashes relevant k)),
          (''reciprocal_rank'', JFloat (reciprocal_rank_at_k hashes relevant k)),
          (''recall_labeled'', JFloat (recall_labeled_at_k hashes relevant k)),
          (''ndcg'', JFloat (ndcg_at_k hashes (unit_gains (sorted_list_of_set relevant)) k)),
          (''precision'', json_opt (precision_at_k hashes relevant (labelled False (ec_labels ec)) k))])"
  by (simp_all add: assms replay_case_report_def Let_def label_list_def ordered_hashes_def)

lemma stale_flags: "x \<in> set (staleness p l) \<Longrightarrow> ''stale_'' @ fst x \<in> {''stale_profile'', ''stale_corpus'', ''stale_index''}"
  by (auto simp: staleness_def STALE_AXES_def)

lemma report_flags:
  assumes "C = replay_case_report ec deduped outcomes live safe_name invalid explicitly_selected"
  shows "is_list (jget C ''flags'')" "list_all is_str (items (jget C ''flags''))"
    "''degraded'' \<in> set (case_flags C) \<longleftrightarrow> list_ex (\<lambda>b. b) outcomes"
    "''unreplayable_filters'' \<in> set (case_flags C) \<longleftrightarrow> ec_unreplayable ec \<noteq> []"
    "''invalid_filters'' \<in> set (case_flags C) \<longleftrightarrow> invalid"
    "jget C ''included_in_aggregate'' = JBool (\<not> (list_ex (\<lambda>b. b) outcomes \<or> ec_unreplayable ec \<noteq> [] \<or> invalid))"
  using stale_flags[of _ "ec_promoted ec" live]
  by (auto simp: assms replay_case_report_def Let_def case_flags_def list_all_iff split: if_splits)

lemma replay_case_valid:
  assumes C: "C = replay_case_report ec deduped outcomes live safe_name invalid explicitly_selected"
    and "case_ok ec" "length outcomes = 6"
  shows "validate_case C = Inr () \<longleftrightarrow> hits_ok ec deduped"
proof -
  note fields = report_fields[OF C] report_flags[OF C]
  have "validate_flags_consistency C = Inr ()"
    using outcome_keys[OF assms(3)] by (auto simp: validate_flags_consistency_def Let_def fields)
  moreover have "validate_labels C = Inr ()" using assms(2)
    by (auto simp: validate_labels_def Let_def fields case_ok_def list_all_iff labelled_def)
  moreover have "validate_retrieved C = Inr () \<longleftrightarrow> hits_ok ec deduped" using retrieved_valid[of 1 deduped]
    by (auto simp: validate_retrieved_def Let_def fields hits_ok_def)
  moreover have "validate_metrics C = Inr ()"
    by (auto simp: validate_metrics_def Let_def fields expected_metric_def expected_precision_def DELTA_METRICS_def json_opt_def EPSILON_def split: option.split)
  moreover have "validate_case C = Inr () \<longleftrightarrow> validate_flags_consistency C = Inr () \<and> validate_labels C = Inr () \<and>
      validate_retrieved C = Inr () \<and> validate_metrics C = Inr ()"
    using assms(2) outcome_keys[OF assms(3)] by (auto simp: validate_case_def Let_def fields case_ok_def)
  ultimately show ?thesis by simp
qed

lemma selected_distinct: "resolve_selectors g seen ss = Inr ids \<Longrightarrow> distinct ids \<and> set ids \<inter> seen = {}"
proof (induction ss arbitrary: seen ids)
  case (Cons s ss)
  show ?case
  proof (cases "g s")
    case (Some cid)
    show ?thesis
    proof (cases "cid \<in> seen")
      case True
      then show ?thesis using Cons Some by simp
    next
      case False
      then obtain rest where rest: "resolve_selectors g (insert cid seen) ss = Inr rest" "ids = cid # rest"
        using Cons.prems Some by (auto simp: bind_res_Inr_conv)
      from Cons.IH[OF rest(1)] rest(2) False show ?thesis by auto
    qed
  qed (use Cons.prems in simp)
qed simp

lemma resolved_distinct:
  "resolve_case_ids g active archived sel = Inr (ids, explicit, skipped) \<Longrightarrow> distinct active \<Longrightarrow> distinct ids"
  by (auto simp: resolve_case_ids_def bind_res_Inr_conv split: option.splits dest: selected_distinct)

text \<open>What the search for a case gave, as the report holds it: each identity once, at its best rank.\<close>

definition search_ok :: "run \<Rightarrow> bool" where
  "search_ok r \<longleftrightarrow> hits_ok (rn_case r) (dedup_hits {} (rn_hits r))"

lemma replayed_valid:
  "case_ok (rn_case r) \<Longrightarrow> validate_case (replayed live safe_name explicit r) = Inr () \<longleftrightarrow> search_ok r"
  unfolding search_ok_def by (rule replay_case_valid[OF replayed_def]) (simp_all add: stage_outcomes_of_def)

lemma replayed_id [simp]: "case_id (replayed live safe_name explicit r) = ec_id (rn_case r)"
  by (simp add: report_fields(6)[OF replayed_def])

text \<open>
  C32. When a replay's report is well formed by the comparator's own standard. Over a selection of
  stored cases (those named, an id and its alias once, or all active ones; each with an id, a positive
  \<open>top_k\<close> and labels that have hashes and do not contradict each other, as the store's validators
  demand) and whatever the searches did (repeated identities, failed stages, refused filters), the
  report holds each selected case once, and it passes every check of \<open>validate_report\<close> exactly when each
  search left at most \<open>top_k\<close> distinct identities, none of them empty and every one with a finite score;
  a score that is infinite or not a number makes it fail.
\<close>

theorem replay_report_valid:
  assumes "resolve_case_ids get_eval_case active archived case_ids = Inr (map (ec_id \<circ> rn_case) runs, explicit, skipped)"
    and "distinct active" and "list_all (\<lambda>r. case_ok (rn_case r)) runs"
    and "replay_report dig py_str live knobs now as_of nd_stages skipped codes
      (map (\<lambda>r. replayed live safe_name (ec_id (rn_case r) \<in> explicit) r) runs) = Inr report"
  shows "mset (map case_id (report_cases report)) = mset (map (ec_id \<circ> rn_case) runs) \<and>
    (validate_report dig py_str report = Inr ()) = list_all search_ok runs"
proof -
  let ?reports = "map (\<lambda>r. replayed live safe_name (ec_id (rn_case r) \<in> explicit) r) runs"
  have ids: "map case_id ?reports = map (ec_id \<circ> rn_case) runs" by simp
  have "mset (map case_id (sort_key case_id ?reports)) = mset (map case_id ?reports)" by (simp only: mset_map mset_sort)
  then have mset: "mset (map case_id (sort_key case_id ?reports)) = mset (map (ec_id \<circ> rn_case) runs)" by (simp only: ids)
  then have "distinct (map case_id (sort_key case_id ?reports))"
    by (rule mset_eq_imp_distinct_iff[THEN iffD2]) (rule resolved_distinct[OF assms(1,2)])
  then have "validate_cases {} (sort_key case_id ?reports) = Inr () \<longleftrightarrow> (\<forall>c \<in> set ?reports. validate_case c = Inr ())"
    by (simp add: valid_cases)
  also have "\<dots> \<longleftrightarrow> list_all search_ok runs"
    using assms(3) replayed_valid by (auto simp: list_all_iff)
  finally have cases: "validate_cases {} (sort_key case_id ?reports) = Inr () \<longleftrightarrow> list_all search_ok runs" .
  define sorted where "sorted = sort_key case_id ?reports"
  obtain fp t where "case_set_fingerprint dig py_str sorted = Inr fp"
    "jget report ''fingerprints'' = JObj [(''profile'', JStr (live ''profile'')), (''corpus'', JStr (live ''corpus'')),
       (''index'', JStr (live ''index'')), (''case_set'', JStr fp)]"
    "is_obj report" "jget report ''schema_version'' = JInt REPLAY_REPORT_SCHEMA_VERSION" "jget report ''kind'' = JStr REPLAY_REPORT_KIND"
    "jget report ''as_of_unix'' = JInt t" "jget report ''deterministic'' = JBool (nd_stages = [])" "jget report ''cases'' = JArr sorted"
    using assms(4) by (auto simp: replay_report_def Let_def bind_res_Inr_conv sorted_def[symmetric] split: if_splits)
  note made = this
  have "validate_report dig py_str report = Inr () \<longleftrightarrow> validate_cases {} sorted = Inr ()"
    by (simp add: validate_report_def Let_def made is_int_def escape_def)
  with cases mset show ?thesis by (simp add: report_cases_def made(8) sorted_def)
qed

section \<open>What a comparison says\<close>

lemma find_case_Some: "find_case cs cid = Some c \<Longrightarrow> c \<in> set cs \<and> case_id c = cid"
  by (auto simp: find_case_def find_Some_iff)

lemma find_case_None: "find_case cs cid = None \<longleftrightarrow> cid \<notin> set (map case_id cs)"
  by (auto simp: find_case_def find_None_iff)

lemma compare_case_id: "compare_case dumps b c = Inr e \<Longrightarrow> ce_id e = case_id b"
  by (auto simp: compare_case_def Let_def bind_res_Inr_conv split: if_splits)

lemma compare_one_id: "compare_one dumps bs cs cid = Inr e \<Longrightarrow> ce_id e = cid"
  by (auto simp: compare_one_def one_sided_def dest: compare_case_id find_case_Some split: option.splits)

lemma all2_partner: "list_all2 P xs ys \<Longrightarrow> y \<in> set ys \<Longrightarrow> \<exists>x \<in> set xs. P x y"
  by (induction rule: list_all2_induct) auto

text \<open>A comparison that was produced: both reports valid, one entry for each identity on either side.\<close>

lemma compared_entries:
  assumes "compare_reports dig py_str dumps b c = Inr cmp"
  shows "validate_report dig py_str b = Inr ()" "validate_report dig py_str c = Inr ()"
    "map ce_id (co_cases cmp) = sort (remdups (map case_id (report_cases b) @ map case_id (report_cases c)))"
    "e \<in> set (co_cases cmp) \<Longrightarrow> compare_one dumps (report_cases b) (report_cases c) (ce_id e) = Inr e"
    "co_compat cmp = compatibility b c"
    "co_aggregate cmp = fst (aggregate_deltas (map (\<lambda>e. (the (find_case (report_cases b) (ce_id e)), the (find_case (report_cases c) (ce_id e))))
       (filter (\<lambda>e. ce_status e = ''compared'') (co_cases cmp))))"
proof -
  let ?ids = "sort (remdups (map case_id (report_cases b) @ map case_id (report_cases c)))"
  show "validate_report dig py_str b = Inr ()" "validate_report dig py_str c = Inr ()" "co_compat cmp = compatibility b c"
    using assms by (auto simp: compare_reports_def bind_res_Inr_conv Let_def)
  show "co_aggregate cmp = fst (aggregate_deltas (map (\<lambda>e. (the (find_case (report_cases b) (ce_id e)), the (find_case (report_cases c) (ce_id e))))
       (filter (\<lambda>e. ce_status e = ''compared'') (co_cases cmp))))"
    using assms by (auto simp only: compare_reports_def bind_res_Inr_conv Let_def report_cases_def sum.inject comparison.select_convs)
  have "map_res (compare_one dumps (report_cases b) (report_cases c)) ?ids = Inr (co_cases cmp)"
    using assms by (auto simp only: compare_reports_def bind_res_Inr_conv Let_def report_cases_def sum.inject comparison.select_convs)
  then have all: "list_all2 (\<lambda>cid e. compare_one dumps (report_cases b) (report_cases c) cid = Inr e) ?ids (co_cases cmp)"
    by (simp only: map_res_Inr_conv)
  then have ids: "list_all2 (\<lambda>cid e. cid = ce_id e) ?ids (co_cases cmp)"
    by (rule list_all2_mono) (rule compare_one_id[symmetric])
  then have "list_all2 (=) ?ids (map ce_id (co_cases cmp))" by (simp only: list_all2_map2)
  then show "map ce_id (co_cases cmp) = ?ids" by (simp only: list.rel_eq)
  show "compare_one dumps (report_cases b) (report_cases c) (ce_id e) = Inr e" if "e \<in> set (co_cases cmp)"
  proof -
    from all2_partner[OF all that] obtain cid
      where one: "compare_one dumps (report_cases b) (report_cases c) cid = Inr e" by blast
    from one compare_one_id[OF one] show ?thesis by simp
  qed
qed

lemma precision_at_ok: "precision_at c = Inr p \<Longrightarrow> (p = JNull) = no_precision c"
  by (auto simp: precision_at_def j_at_def no_precision_def jget_def j_get_def split: option.splits)

lemma compare_case_compared:
  assumes "compare_case dumps b c = Inr e" "ce_status e = ''compared''"
  shows "\<not> is_degraded b" "\<not> is_degraded c" "included b" "included c" "definition_key dumps b = definition_key dumps c"
    "ce_class e = Some (classify_deltas (map (\<lambda>(_, _, _, d). d) (ce_deltas e)))"
    "ce_deltas e = map (\<lambda>key. (key, delta_of b c key)) (DELTA_METRICS @ (if no_precision b \<or> no_precision c then [] else [''precision'']))"
    "ce_precision e = Some (if no_precision b then if no_precision c then ''both_incomplete'' else ''baseline_incomplete''
       else if no_precision c then ''candidate_incomplete'' else ''comparable'')"
proof -
  show guards: "\<not> is_degraded b" "\<not> is_degraded c" "included b" "included c" "definition_key dumps b = definition_key dumps c"
    using assms by (auto simp: compare_case_def Let_def split: if_splits)
  have "jget b ''version'' = jget c ''version''" using assms by (auto simp: compare_case_def Let_def split: if_splits)
  then obtain bp cp where p: "precision_at b = Inr bp" "precision_at c = Inr cp"
    and e: "e = (let deltas = map (\<lambda>key. (key, delta_of b c key)) (DELTA_METRICS @ (if precision_status bp cp = ''comparable'' then [''precision''] else []))
       in \<lparr>ce_id = case_id b, ce_status = ''compared'', ce_class = Some (classify_deltas (map (\<lambda>(_, _, _, d). d) deltas)),
            ce_precision = Some (precision_status bp cp), ce_deltas = deltas,
            ce_moves = map (\<lambda>h. (h, first_rank (items (jget b ''retrieved'')) h, first_rank (items (jget c ''retrieved'')) h))
              (sort (label_list b ''relevant''))\<rparr>)"
    using assms(1) guards by (auto simp: compare_case_def bind_res_Inr_conv)
  have status: "precision_status bp cp = (if no_precision b then if no_precision c then ''both_incomplete'' else ''baseline_incomplete''
       else if no_precision c then ''candidate_incomplete'' else ''comparable'')"
    using precision_at_ok[OF p(1)] precision_at_ok[OF p(2)] by (auto simp: precision_status_def)
  show "ce_class e = Some (classify_deltas (map (\<lambda>(_, _, _, d). d) (ce_deltas e)))" by (simp add: e Let_def)
  show "ce_deltas e = map (\<lambda>key. (key, delta_of b c key)) (DELTA_METRICS @ (if no_precision b \<or> no_precision c then [] else [''precision'']))"
    by (simp add: e Let_def status)
  show "ce_precision e = Some (if no_precision b then if no_precision c then ''both_incomplete'' else ''baseline_incomplete''
       else if no_precision c then ''candidate_incomplete'' else ''comparable'')" by (simp add: e Let_def status)
qed

lemma compare_one_compared:
  assumes "compare_one dumps bs cs cid = Inr e" "ce_status e = ''compared''"
  obtains base cand where "find_case bs cid = Some base" "find_case cs cid = Some cand" "compare_case dumps base cand = Inr e"
proof (cases "find_case bs cid")
  case None
  then show ?thesis using assms by (auto simp: compare_one_def one_sided_def)
next
  case (Some base)
  then show ?thesis using assms that
    by (cases "find_case cs cid") (auto simp: compare_one_def one_sided_def)
qed

lemma compared_pair:
  assumes "compare_reports dig py_str dumps b c = Inr cmp" "e \<in> set (co_cases cmp)" "ce_status e = ''compared''"
  obtains base cand where "base \<in> set (report_cases b)" "cand \<in> set (report_cases c)" "case_id base = ce_id e" "case_id cand = ce_id e"
    "compare_case dumps base cand = Inr e" "validate_case base = Inr ()" "validate_case cand = Inr ()"
proof (rule compare_one_compared[OF compared_entries(4)[OF assms(1,2)] assms(3)])
  fix base cand
  assume found: "find_case (report_cases b) (ce_id e) = Some base" "find_case (report_cases c) (ce_id e) = Some cand"
    and "compare_case dumps base cand = Inr e"
  then show ?thesis using that[of base cand] find_case_Some[OF found(1)] find_case_Some[OF found(2)]
    valid_report(2)[OF compared_entries(1)[OF assms(1)]] valid_report(2)[OF compared_entries(2)[OF assms(1)]] by blast
qed

text \<open>The change of a metric that the two rankings and the labels themselves give.\<close>

definition true_delta :: "json \<Rightarrow> json \<Rightarrow> string \<Rightarrow> real" where
  "true_delta base cand key = expected_metric cand key - expected_metric base key"

lemma delta_honest:
  assumes "validate_case base = Inr ()" "validate_case cand = Inr ()" "key \<in> set DELTA_METRICS"
  shows "\<bar>snd (snd (delta_of base cand key)) - true_delta base cand key\<bar> \<le> 2 * EPSILON"
  using valid_case_metric[OF assms(1,3)] valid_case_metric[OF assms(2,3)] by (simp add: delta_of_def true_delta_def)

lemma compared_deltas:
  assumes "compare_case dumps base cand = Inr e" "ce_status e = ''compared''" "key \<in> set DELTA_METRICS"
  shows "map_of (ce_deltas e) key = Some (delta_of base cand key)"
  using assms(3) unfolding compare_case_compared(7)[OF assms(1,2)] by (auto simp: DELTA_METRICS_def)

text \<open>A metric recomputed from the ranking and the labels of a case; precision may be unknown.\<close>

definition recomputed :: "string \<Rightarrow> json \<Rightarrow> real option" where
  "recomputed key c = (if key = ''precision'' then expected_precision c else Some (expected_metric c key))"

text \<open>
  A delta is earned over pairs of cases when its two sides are, within the tolerance, the means of the
  recomputed metric over the pairs for which both have one, and it is candidate minus baseline.
\<close>

definition scored_pairs :: "string \<Rightarrow> (json \<times> json) list \<Rightarrow> (json \<times> json) list" where
  "scored_pairs key pairs = filter (\<lambda>(p, q). recomputed key p \<noteq> None \<and> recomputed key q \<noteq> None) pairs"

fun earned :: "(json \<times> json) list \<Rightarrow> string \<times> delta \<Rightarrow> bool" where
  "earned pairs (key, x, y, d) \<longleftrightarrow>
     \<bar>x - mean (map (\<lambda>(p, _). the (recomputed key p)) (scored_pairs key pairs))\<bar> \<le> EPSILON \<and>
     \<bar>y - mean (map (\<lambda>(_, q). the (recomputed key q)) (scored_pairs key pairs))\<bar> \<le> EPSILON \<and> d = y - x"

text \<open>What an entry says of the two cases it compares.\<close>

definition measures :: "(json \<Rightarrow> string) \<Rightarrow> json \<Rightarrow> json \<Rightarrow> cmp_entry \<Rightarrow> bool" where
  "measures dumps base cand e \<longleftrightarrow>
     case_id base = ce_id e \<and> case_id cand = ce_id e \<and> jget base ''version'' = jget cand ''version'' \<and>
     definition_key dumps base = definition_key dumps cand \<and> \<not> stage_failed base \<and> \<not> stage_failed cand \<and>
     map fst (ce_deltas e) = DELTA_METRICS @ (if scored_pairs ''precision'' [(base, cand)] = [] then [] else [''precision'']) \<and>
     list_all (earned [(base, cand)]) (ce_deltas e)"

definition compared_cases :: "comparison \<Rightarrow> cmp_entry list" where
  "compared_cases cmp = filter (\<lambda>e. ce_status e = ''compared'') (co_cases cmp)"

definition measured_pairs :: "json \<Rightarrow> json \<Rightarrow> comparison \<Rightarrow> (json \<times> json) list" where
  "measured_pairs b c cmp = map (\<lambda>e. (the (find_case (report_cases b) (ce_id e)), the (find_case (report_cases c) (ce_id e)))) (compared_cases cmp)"

lemma means_close:
  assumes "list_all2 (\<lambda>x y. \<bar>x - y\<bar> \<le> e) xs ys" "0 \<le> e"
  shows "\<bar>mean xs - mean ys\<bar> \<le> e"
proof (cases "xs = []")
  case False
  have "\<bar>sum_list xs - sum_list ys\<bar> \<le> real (length xs) * e"
    using assms(1) by (induction rule: list_all2_induct) (auto simp: algebra_simps)
  then have "\<bar>(sum_list xs - sum_list ys) / real (length xs)\<bar> \<le> e"
    using False by (simp add: abs_divide divide_le_eq mult.commute)
  moreover have "length ys = length xs" "ys \<noteq> []"
    using assms(1) False list_all2_lengthD[OF assms(1)] by auto
  ultimately show ?thesis using False by (simp add: mean_def diff_divide_distrib)
qed (use assms in simp)

lemma recomputed_close:
  assumes "validate_case c = Inr ()" "key \<in> set DELTA_METRICS \<or> key = ''precision''" "recomputed key c = Some w"
  shows "\<bar>metric_of key c - w\<bar> \<le> EPSILON"
  using assms valid_case_metric[OF assms(1)] valid_case_precision[OF assms(1)]
  by (auto simp: recomputed_def split: if_splits)

lemma recomputed_precision: "validate_case c = Inr () \<Longrightarrow> recomputed ''precision'' c = None \<longleftrightarrow> no_precision c"
  by (drule valid_case_precision) (auto simp: recomputed_def split: option.splits)

lemma recomputed_metric: "key \<in> set DELTA_METRICS \<Longrightarrow> recomputed key c \<noteq> None"
  by (auto simp: recomputed_def DELTA_METRICS_def)

lemma measured_pairs_valid:
  assumes "compare_reports dig py_str dumps b c = Inr cmp"
  shows "list_all (\<lambda>(p, q). validate_case p = Inr () \<and> validate_case q = Inr ()) (measured_pairs b c cmp)"
proof -
  have "validate_case (the (find_case (report_cases b) (ce_id e))) = Inr () \<and>
      validate_case (the (find_case (report_cases c) (ce_id e))) = Inr ()" if e: "e \<in> set (co_cases cmp)" "ce_status e = ''compared''" for e
  proof -
    obtain base cand where found: "find_case (report_cases b) (ce_id e) = Some base" "find_case (report_cases c) (ce_id e) = Some cand"
      by (rule compare_one_compared[OF compared_entries(4)[OF assms e(1)] e(2)])
    then have "base \<in> set (report_cases b)" "cand \<in> set (report_cases c)" by (auto dest: find_case_Some)
    with found show ?thesis
      using valid_report(2)[OF compared_entries(1)[OF assms]] valid_report(2)[OF compared_entries(2)[OF assms]] by simp
  qed
  then show ?thesis by (auto simp: measured_pairs_def compared_cases_def list_all_iff)
qed

lemma earned_mean:
  assumes "list_all (\<lambda>(p, q). validate_case p = Inr () \<and> validate_case q = Inr ()) pairs"
    and "key \<in> set DELTA_METRICS \<or> key = ''precision''"
  shows "earned pairs (key, mean_delta (map (\<lambda>(p, q). delta_of p q key) (scored_pairs key pairs)))"
proof -
  let ?ps = "scored_pairs key pairs"
  have each: "\<bar>metric_of key p - the (recomputed key p)\<bar> \<le> EPSILON \<and> \<bar>metric_of key q - the (recomputed key q)\<bar> \<le> EPSILON"
    if "(p, q) \<in> set ?ps" for p q
    using that assms recomputed_close[OF _ assms(2)] by (auto simp: scored_pairs_def list_all_iff)
  have eps: "0 \<le> EPSILON" by (simp add: EPSILON_def)
  have "list_all2 (\<lambda>x y. \<bar>x - y\<bar> \<le> EPSILON) (map (\<lambda>(p, _). metric_of key p) ?ps) (map (\<lambda>(p, _). the (recomputed key p)) ?ps)"
    "list_all2 (\<lambda>x y. \<bar>x - y\<bar> \<le> EPSILON) (map (\<lambda>(_, q). metric_of key q) ?ps) (map (\<lambda>(_, q). the (recomputed key q)) ?ps)"
    using each by (auto simp: list_all2_map1 list_all2_map2 intro!: list.rel_refl_strong)
  note close = this(1)[THEN means_close, OF eps] this(2)[THEN means_close, OF eps]
  have "mean_delta (map (\<lambda>(p, q). delta_of p q key) ?ps) =
      (let x = mean (map (\<lambda>(p, _). metric_of key p) ?ps); y = mean (map (\<lambda>(_, q). metric_of key q) ?ps) in (x, y, y - x))"
    by (simp add: mean_delta_def delta_of_def comp_def case_prod_unfold Let_def)
  with close show ?thesis by (simp add: Let_def)
qed

lemma earned_one:
  assumes "validate_case base = Inr ()" "validate_case cand = Inr ()"
    and "key \<in> set DELTA_METRICS \<or> key = ''precision'' \<and> \<not> no_precision base \<and> \<not> no_precision cand"
  shows "earned [(base, cand)] (key, delta_of base cand key)"
proof -
  have "scored_pairs key [(base, cand)] = [(base, cand)]"
    using assms recomputed_metric recomputed_precision by (auto simp: scored_pairs_def)
  moreover have "mean_delta [delta_of base cand key] = delta_of base cand key"
    by (simp add: mean_delta_def mean_def delta_of_def Let_def)
  ultimately show ?thesis
    using earned_mean[of "[(base, cand)]" key] assms by (simp del: earned.simps) blast
qed

lemma entry_measures:
  assumes "compare_reports dig py_str dumps b c = Inr cmp" "e \<in> set (compared_cases cmp)"
  shows "\<exists>base \<in> set (report_cases b). \<exists>cand \<in> set (report_cases c). measures dumps base cand e"
proof -
  from assms(2) have e: "e \<in> set (co_cases cmp)" "ce_status e = ''compared''" by (simp_all add: compared_cases_def)
  obtain base cand where pair: "base \<in> set (report_cases b)" "cand \<in> set (report_cases c)" "case_id base = ce_id e" "case_id cand = ce_id e"
    "compare_case dumps base cand = Inr e" "validate_case base = Inr ()" "validate_case cand = Inr ()"
    using compared_pair[OF assms(1) e] by blast
  note facts = compare_case_compared[OF pair(5) e(2)]
  have "scored_pairs ''precision'' [(base, cand)] = [] \<longleftrightarrow> no_precision base \<or> no_precision cand"
    using recomputed_precision[OF pair(6)] recomputed_precision[OF pair(7)] by (auto simp: scored_pairs_def)
  moreover have "list_all (earned [(base, cand)]) (ce_deltas e)"
    using earned_one[OF pair(6,7)] unfolding facts(7) list_all_iff by auto
  moreover have "\<not> stage_failed base" "\<not> stage_failed cand" using facts(1,2) valid_case_degraded pair(6,7) by blast+
  moreover have "jget base ''version'' = jget cand ''version''"
    using pair(5) e(2) by (auto simp: compare_case_def Let_def split: if_splits)
  ultimately have "measures dumps base cand e"
    using pair(3,4) facts(5) unfolding measures_def facts(7) by (simp add: comp_def)
  with pair(1,2) show "\<exists>base \<in> set (report_cases b). \<exists>cand \<in> set (report_cases c). measures dumps base cand e" by blast
qed

lemma aggregate_earned:
  assumes "compare_reports dig py_str dumps b c = Inr cmp"
  shows "map fst (co_aggregate cmp) = DELTA_METRICS @ [''precision'']" "list_all (earned (measured_pairs b c cmp)) (co_aggregate cmp)"
proof -
  have agg: "co_aggregate cmp = fst (aggregate_deltas (measured_pairs b c cmp))"
    unfolding measured_pairs_def compared_cases_def by (rule compared_entries(6)[OF assms])
  show "map fst (co_aggregate cmp) = DELTA_METRICS @ [''precision'']"
    by (simp add: agg aggregate_deltas_def Let_def comp_def)
  have valid: "list_all (\<lambda>(p, q). validate_case p = Inr () \<and> validate_case q = Inr ()) (measured_pairs b c cmp)"
    by (rule measured_pairs_valid[OF assms])
  have same: "scored_pairs key (measured_pairs b c cmp) = measured_pairs b c cmp" if "key \<in> set DELTA_METRICS" for key
    using recomputed_metric[OF that] by (simp add: scored_pairs_def)
  have "scored_pairs ''precision'' (measured_pairs b c cmp) = filter (\<lambda>(b, c). \<not> no_precision b \<and> \<not> no_precision c) (measured_pairs b c cmp)"
    unfolding scored_pairs_def
  proof (rule filter_cong[OF refl])
    fix x assume "x \<in> set (measured_pairs b c cmp)"
    with valid have "validate_case (fst x) = Inr ()" "validate_case (snd x) = Inr ()" by (auto simp: list_all_iff)
    then show "(case x of (p, q) \<Rightarrow> recomputed ''precision'' p \<noteq> None \<and> recomputed ''precision'' q \<noteq> None) =
        (case x of (b, c) \<Rightarrow> \<not> no_precision b \<and> \<not> no_precision c)"
      using recomputed_precision by (cases x) (simp del: not_None_eq)
  qed
  note both = this
  have "earned (measured_pairs b c cmp) (key, mean_delta (map (\<lambda>(p, q). delta_of p q key) (measured_pairs b c cmp)))"
    if "key \<in> set DELTA_METRICS" for key
    using earned_mean[OF valid, of key] same[OF that] that by (simp del: earned.simps)
  moreover note earned_mean[OF valid, of "''precision''", unfolded both]
  ultimately show "list_all (earned (measured_pairs b c cmp)) (co_aggregate cmp)"
    unfolding agg aggregate_deltas_def Let_def fst_conv list_all_append list.pred_map comp_def
    by (simp add: list_all_iff del: earned.simps)
qed

text \<open>
  C33. A report cannot claim what its rankings do not show. When two reports are compared, an entry that
  measures two cases measures two of one identity, version and definition, of which no stage had
  failed; it has a delta for each of the four metrics, and for precision exactly when the labels of
  both rankings are complete; the aggregate has the same five; and every delta, precision and
  aggregates included, is candidate minus baseline of two values that are, each up to the tolerance,
  the metric (for an aggregate its mean over the measured cases, for precision those where both
  have one) recomputed from the rankings and the labels.
\<close>

theorem deltas_are_earned:
  assumes "compare_reports dig py_str dumps b c = Inr cmp"
  shows "list_all (\<lambda>e. \<exists>base \<in> set (report_cases b). \<exists>cand \<in> set (report_cases c). measures dumps base cand e) (compared_cases cmp) \<and>
    map fst (co_aggregate cmp) = DELTA_METRICS @ [''precision''] \<and> list_all (earned (measured_pairs b c cmp)) (co_aggregate cmp)"
  using entry_measures[OF assms] aggregate_earned[OF assms] by (simp add: list_all_iff)

section \<open>When a comparison fails\<close>

lemma classify_keys: "classify_deltas ds \<in> set SUMMARY_KEYS"
  by (simp add: classify_deltas_def Let_def SUMMARY_KEYS_def)

lemma compare_case_key: "compare_case dumps b c = Inr e \<Longrightarrow> verdict_key e \<in> set SUMMARY_KEYS"
proof (cases "ce_status e = ''compared''")
  case True
  assume "compare_case dumps b c = Inr e"
  from compare_case_compared(6)[OF this True] True show ?thesis using classify_keys by (simp add: verdict_key_def)
next
  case False
  assume "compare_case dumps b c = Inr e"
  with False show ?thesis
    by (auto simp: compare_case_def Let_def bind_res_Inr_conv verdict_key_def split: if_splits) (simp_all add: SUMMARY_KEYS_def)
qed

lemma compare_one_key: "compare_one dumps bs cs cid = Inr e \<Longrightarrow> verdict_key e \<in> set SUMMARY_KEYS"
  by (auto simp: compare_one_def one_sided_def verdict_key_def dest: compare_case_key split: option.splits) (simp_all add: SUMMARY_KEYS_def)

lemma od_set_map: "distinct ks \<Longrightarrow> k \<in> set ks \<Longrightarrow> od_set k v (map (\<lambda>x. (x, f x)) ks) = map (\<lambda>x. (x, if x = k then v else f x)) ks"
  by (induction ks) auto

lemma count_keys_eq:
  "distinct ks \<Longrightarrow> set vs \<subseteq> set ks \<Longrightarrow>
    count_keys (map (\<lambda>k. (k, f k)) ks) vs = Inr (map (\<lambda>k. (k, f k + length (filter (\<lambda>v. v = k) vs))) ks)"
proof (induction vs arbitrary: f)
  case (Cons v vs)
  then have "map_of (map (\<lambda>k. (k, f k)) ks) v = Some (f v)" by (simp add: map_of_map_keys map_of_map_restrict)
  then show ?case using Cons.prems Cons.IH[of "\<lambda>x. if x = v then Suc (f v) else f x"]
    by (auto simp: od_set_map)
qed simp

lemma summary_distinct: "distinct SUMMARY_KEYS"
  by (simp add: SUMMARY_KEYS_def)

definition lacks_precision :: "json \<Rightarrow> bool" where
  "lacks_precision c \<longleftrightarrow> map_of (members (jget c ''metrics'')) ''precision'' = None"

text \<open>The cases of one identity that a comparison measures against each other.\<close>

definition comparable :: "(json \<Rightarrow> string) \<Rightarrow> json \<Rightarrow> json \<Rightarrow> bool" where
  "comparable dumps b c \<longleftrightarrow> jget b ''version'' = jget c ''version'' \<and> definition_key dumps b = definition_key dumps c \<and>
     included b \<and> included c"

lemma compare_case_fails:
  "compare_case dumps b c = Inl err \<longleftrightarrow> err = Escapes KeyErr \<and> comparable dumps b c \<and> (lacks_precision b \<or> lacks_precision c)"
proof -
  have p: "precision_at x = (if lacks_precision x then Inl (Escapes KeyErr) else Inr (jget (jget x ''metrics'') ''precision''))" for x
    by (auto simp: precision_at_def j_at_def lacks_precision_def escape_def jget_def j_get_def split: option.split)
  show ?thesis by (auto simp: compare_case_def Let_def comparable_def p is_degraded_def)
qed

lemma map_res_fails:
  assumes "\<And>x e. f x = Inl e \<Longrightarrow> e = E"
  shows "map_res f xs = Inl err \<longleftrightarrow> err = E \<and> (\<exists>x \<in> set xs. f x = Inl E)"
proof (induction xs)
  case (Cons x xs)
  show ?case
  proof (cases "f x")
    case (Inl e)
    then show ?thesis using assms[OF Inl] by auto
  next
    case (Inr y)
    then show ?thesis using Cons by (cases "map_res f xs") auto
  qed
qed simp

lemma find_case_unique: "distinct (map case_id cs) \<Longrightarrow> c \<in> set cs \<Longrightarrow> find_case cs (case_id c) = Some c"
  by (induction cs) (auto simp: find_case_def image_iff)

lemma compare_one_fails:
  assumes "distinct (map case_id bs)" "distinct (map case_id cs)"
  shows "compare_one dumps bs cs cid = Inl err \<longleftrightarrow> err = Escapes KeyErr \<and>
    (\<exists>b \<in> set bs. \<exists>c \<in> set cs. case_id b = cid \<and> case_id c = cid \<and> comparable dumps b c \<and> (lacks_precision b \<or> lacks_precision c))"
proof
  assume "compare_one dumps bs cs cid = Inl err"
  then obtain b c where "find_case bs cid = Some b" "find_case cs cid = Some c" "compare_case dumps b c = Inl err"
    by (auto simp: compare_one_def split: option.splits)
  then show "err = Escapes KeyErr \<and> (\<exists>b \<in> set bs. \<exists>c \<in> set cs. case_id b = cid \<and> case_id c = cid \<and> comparable dumps b c \<and> (lacks_precision b \<or> lacks_precision c))"
    using find_case_Some by (fastforce simp: compare_case_fails)
next
  assume "err = Escapes KeyErr \<and> (\<exists>b \<in> set bs. \<exists>c \<in> set cs. case_id b = cid \<and> case_id c = cid \<and> comparable dumps b c \<and> (lacks_precision b \<or> lacks_precision c))"
  then obtain b c where pair: "b \<in> set bs" "c \<in> set cs" "case_id b = cid" "case_id c = cid" and bad: "compare_case dumps b c = Inl err"
    by (auto simp: compare_case_fails)
  from pair have "find_case bs cid = Some b" "find_case cs cid = Some c"
    using find_case_unique[OF assms(1)] find_case_unique[OF assms(2)] by metis+
  then show "compare_one dumps bs cs cid = Inl err" using bad by (simp add: compare_one_def)
qed

text \<open>
  C34. How a comparison of two valid reports can fail. It fails exactly when two cases that are to be
  measured against each other lack the member \<open>precision\<close> on one side, and then with a \<open>KeyError\<close>
  that is not of the documented family: validation accepts a case without the member whenever its
  labels are incomplete.
\<close>

theorem compare_fails_exactly:
  assumes "validate_report dig py_str b = Inr ()" and "validate_report dig py_str c = Inr ()"
  shows "compare_reports dig py_str dumps b c = Inl err \<longleftrightarrow> err = Escapes KeyErr \<and>
    (\<exists>base \<in> set (report_cases b). \<exists>cand \<in> set (report_cases c).
       case_id base = case_id cand \<and> comparable dumps base cand \<and> (lacks_precision base \<or> lacks_precision cand))"
proof -
  let ?ids = "sort (remdups (map case_id (report_cases b) @ map case_id (report_cases c)))"
  let ?one = "compare_one dumps (report_cases b) (report_cases c)"
  note fails = compare_one_fails[OF valid_report(1)[OF assms(1)] valid_report(1)[OF assms(2)]]
  have "compare_reports dig py_str dumps b c = Inl err \<longleftrightarrow> map_res ?one ?ids = Inl err"
  proof (cases "map_res ?one ?ids")
    case (Inl e)
    then show ?thesis using assms by (simp add: compare_reports_def Let_def report_cases_def)
  next
    case (Inr es)
    then have "list_all2 (\<lambda>cid e. ?one cid = Inr e) ?ids es" by (simp only: map_res_Inr_conv)
    then have "set (map verdict_key es) \<subseteq> set SUMMARY_KEYS"
      using all2_partner compare_one_key by fastforce
    from count_keys_eq[OF summary_distinct this, of "\<lambda>_. 0"] Inr assms show ?thesis
      by (simp add: compare_reports_def Let_def report_cases_def)
  qed
  also have "\<dots> \<longleftrightarrow> err = Escapes KeyErr \<and> (\<exists>cid \<in> set ?ids. ?one cid = Inl (Escapes KeyErr))"
    by (rule map_res_fails) (simp add: fails)
  also have "\<dots> \<longleftrightarrow> err = Escapes KeyErr \<and> (\<exists>base \<in> set (report_cases b). \<exists>cand \<in> set (report_cases c).
       case_id base = case_id cand \<and> comparable dumps base cand \<and> (lacks_precision base \<or> lacks_precision cand))"
    by (simp add: fails) (metis (no_types, lifting) UnI1 imageI)
  finally show ?thesis .
qed

section \<open>A report against itself\<close>

lemma delta_self [simp]: "delta_of c c key = (metric_of key c, metric_of key c, 0)"
  by (simp add: delta_of_def)

lemma classify_zero: "list_all (\<lambda>d. d = 0) ds \<Longrightarrow> classify_deltas ds = ''unchanged''"
  by (auto simp: classify_deltas_def Let_def list_ex_iff list_all_iff EPSILON_def)

lemma mean_delta_self: "list_all (\<lambda>d. fst (snd d) = fst d) ds \<Longrightarrow> snd (snd (mean_delta ds)) = 0"
proof -
  assume "list_all (\<lambda>d. fst (snd d) = fst d) ds"
  then have "map (fst \<circ> snd) ds = map fst ds" by (auto simp: list_all_iff)
  then show ?thesis by (simp only: mean_delta_def Let_def snd_conv diff_self)
qed

lemma aggregate_self: "list_all (\<lambda>(b, c). b = c) pairs \<Longrightarrow> list_all (\<lambda>(_, _, _, d). d = 0) (fst (aggregate_deltas pairs))"
proof -
  assume same: "list_all (\<lambda>(b, c). b = c) pairs"
  have "snd (snd (mean_delta (map (\<lambda>(b, c). delta_of b c key) ps))) = 0" if "set ps \<subseteq> set pairs" for key ps
    using that same by (intro mean_delta_self) (fastforce simp: list_all_iff delta_of_def)
  then show ?thesis by (auto simp: aggregate_deltas_def Let_def case_prod_beta list_all_iff)
qed

definition settled_entry :: "cmp_entry \<Rightarrow> bool" where
  "settled_entry e \<longleftrightarrow> (ce_status e = ''compared'' \<and> ce_class e = Some ''unchanged'') \<or> ce_status e \<in> {''both_degraded'', ''excluded''}"

lemma compare_case_self: "compare_case dumps c c = Inr e \<Longrightarrow> settled_entry e"
proof (cases "ce_status e = ''compared''")
  case True
  assume same: "compare_case dumps c c = Inr e"
  from compare_case_compared(6,7)[OF same True] True show ?thesis
    using classify_zero[of "map (\<lambda>(_, _, _, d). d) (ce_deltas e)"] by (auto simp: settled_entry_def list_all_iff)
next
  case False
  assume "compare_case dumps c c = Inr e"
  with False show ?thesis
    by (auto simp: compare_case_def Let_def bind_res_Inr_conv settled_entry_def split: if_splits)
qed

text \<open>
  Comparing a report with itself moves nothing: every case is unchanged, or out of the
  comparison on both sides for the same reason; the aggregates differ by zero; and every
  compatibility flag holds that does not depend on how the report was made.
\<close>

theorem compare_with_itself:
  assumes "compare_reports dig py_str dumps r r = Inr cmp"
  shows "list_all settled_entry (co_cases cmp) \<and> length (co_cases cmp) = length (report_cases r) \<and>
    list_all (\<lambda>(_, _, _, d). d = 0) (co_aggregate cmp) \<and>
    list_all (\<lambda>flag. map_of (co_compat cmp) flag = Some True) [''case_set_match'', ''corpus_match'', ''index_match'', ''profile_match'', ''as_of_match'']"
proof -
  note entries = compared_entries[OF assms]
  have dist: "distinct (map case_id (report_cases r))" by (rule valid_report(1)[OF entries(1)])
  have "settled_entry e" if "e \<in> set (co_cases cmp)" for e
  proof -
    have "ce_id e \<in> set (map ce_id (co_cases cmp))" using that by simp
    then have "find_case (report_cases r) (ce_id e) \<noteq> None" by (simp only: entries(3) find_case_None) simp
    with entries(4)[OF that] show ?thesis using compare_case_self by (auto simp: compare_one_def)
  qed
  moreover have "length (co_cases cmp) = length (report_cases r)"
  proof -
    have "length (map ce_id (co_cases cmp)) = card (set (map case_id (report_cases r) @ map case_id (report_cases r)))"
      unfolding entries(3) by (simp only: length_sort length_remdups_card_conv)
    then have "length (co_cases cmp) = card (set (map case_id (report_cases r)))" by simp
    also have "\<dots> = length (report_cases r)" using distinct_card[OF dist] by simp
    finally show ?thesis .
  qed
  moreover have "list_all (\<lambda>(_, _, _, d). d = 0) (co_aggregate cmp)"
  proof -
    show ?thesis unfolding entries(6) by (rule aggregate_self) (simp add: list_all_iff)
  qed
  moreover have "list_all (\<lambda>flag. map_of (co_compat cmp) flag = Some True) [''case_set_match'', ''corpus_match'', ''index_match'', ''profile_match'', ''as_of_match'']"
    by (simp add: entries(5) compatibility_def Let_def)
  ultimately show ?thesis by (simp add: list_all_iff)
qed

section \<open>A concrete replay\<close>

definition one_case :: eval_case where
  "one_case = \<lparr>ec_id = ''q1'', ec_name = JNull, ec_version = 1, ec_archived = False, ec_query = ''cats'', ec_top_k = 3,
     ec_namespace = JNull, ec_scope = JNull, ec_unreplayable = [], ec_labels = [\<lparr>lb_hash = ''h1'', lb_relevant = True\<rparr>],
     ec_promoted = [(''profile'', ''p0'')]\<rparr>"

definition one_run :: run where
  "one_run = \<lparr>rn_case = one_case, rn_hits = [\<lparr>hr_hash = ''h1'', hr_score = JFloat (1 / 2), hr_source = ''bm25''\<rparr>,
       \<lparr>hr_hash = ''h1'', hr_score = JFloat (1 / 4), hr_source = ''dense''\<rparr>],
     rn_stats = \<lparr>ss_bm25_error = False, ss_dense_error = False, ss_dense_suppressed = False, ss_expansion_failed = False,
       ss_fused_total = 2, ss_rerank_applied = False, ss_score_scale = ''rrf'', ss_rescue_failed = False\<rparr>, rn_invalid = False\<rparr>"

definition one_report :: json where
  "one_report = (case replay_report (\<lambda>_. Some ''d'') (\<lambda>_. ''1'') (\<lambda>_. ''f'') JNull 5 None [] 0 []
       [replayed (\<lambda>_. ''f'') id True one_run] of Inr r \<Rightarrow> r | Inl _ \<Rightarrow> JNull)"

lemma one_report_made: "replay_report (\<lambda>_. Some ''d'') (\<lambda>_. ''1'') (\<lambda>_. ''f'') JNull 5 None [] 0 []
       (map (replayed (\<lambda>_. ''f'') id True) [one_run]) = Inr one_report"
  by (simp add: one_report_def replay_report_def case_set_fingerprint_def fingerprint_row_def Let_def)

lemma one_run_ok: "resolve_case_ids (\<lambda>s. Some ''q1'') [] [] (Some [''q1'', ''cats'']) = Inr (map (ec_id \<circ> rn_case) [one_run], {''q1''}, 0)"
  "list_all (\<lambda>r. case_ok (rn_case r)) [one_run]" "search_ok one_run"
  by (auto simp: one_run_def one_case_def case_ok_def hits_ok_def labelled_def resolve_case_ids_def search_ok_def)

lemma one_explicit: "map (\<lambda>r. replayed (\<lambda>_. ''f'') id (ec_id (rn_case r) \<in> {''q1''}) r) [one_run] =
    map (replayed (\<lambda>_. ''f'') id True) [one_run]"
  by (simp add: one_run_def one_case_def)

lemma replay_report_valid_witness:
  "mset (map case_id (report_cases one_report)) = mset (map (ec_id \<circ> rn_case) [one_run]) \<and>
    (validate_report (\<lambda>_. Some ''d'') (\<lambda>_. ''1'') one_report = Inr ()) = list_all search_ok [one_run]"
  by (rule replay_report_valid[OF one_run_ok(1) distinct.simps(1)[THEN iffD2, OF TrueI] one_run_ok(2) one_report_made[folded one_explicit]])

abbreviation one_row :: json where "one_row \<equiv> replayed (\<lambda>_. ''f'') id True one_run"

lemma one_report_cases: "items (jget one_report ''cases'') = [one_row]"
  by (simp add: one_report_def replay_report_def case_set_fingerprint_def fingerprint_row_def Let_def)

lemma one_row_valid: "validate_case one_row = Inr ()"
  using replayed_valid[of one_run] one_run_ok(2,3) by simp

lemma one_report_valid: "validate_report (\<lambda>_. Some ''d'') (\<lambda>_. ''1'') one_report = Inr ()"
proof -
  have "validate_cases {} [one_row] = Inr ()" using one_row_valid by (simp add: valid_cases)
  then show ?thesis
    by (simp add: validate_report_def one_report_def replay_report_def case_set_fingerprint_def fingerprint_row_def Let_def is_int_def escape_def)
qed

lemma one_row_fields: "jget one_row ''included_in_aggregate'' = JBool True" "''degraded'' \<notin> set (case_flags one_row)"
  by (simp_all add: report_flags(3,6)[OF replayed_def] one_run_def one_case_def stage_outcomes_of_def)

lemma one_row_precision: "map_of (members (jget one_row ''metrics'')) ''precision'' = Some (JFloat 1)"
  by (simp add: report_fields(12)[OF replayed_def] Let_def one_run_def one_case_def precision_at_k_def labelled_def json_opt_def)

definition one_comparison :: comparison where
  "one_comparison = (case compare_reports (\<lambda>_. Some ''d'') (\<lambda>_. ''1'') (\<lambda>_. ''k'') one_report one_report of Inr c \<Rightarrow> c
     | Inl _ \<Rightarrow> \<lparr>co_compat = [], co_cohort = 0, co_aggregate = [], co_precision_cohort = 0, co_summary = [], co_cases = []\<rparr>)"

lemma one_entry: "\<exists>e. compare_case (\<lambda>_. ''k'') one_row one_row = Inr e \<and> ce_status e = ''compared''"
  using one_row_fields one_row_precision
  by (simp add: compare_case_def Let_def is_degraded_def included_def precision_at_def j_at_def escape_def)

lemma one_comparison_made: "compare_reports (\<lambda>_. Some ''d'') (\<lambda>_. ''1'') (\<lambda>_. ''k'') one_report one_report = Inr one_comparison"
  and one_comparison_status: "ce_status (hd (co_cases one_comparison)) = ''compared''" "co_cases one_comparison \<noteq> []"
  and one_comparison_case: "\<exists>e. co_cases one_comparison = [e] \<and> compare_case (\<lambda>_. ''k'') one_row one_row = Inr e \<and> ce_status e = ''compared''"
proof -
  obtain e where pair: "compare_case (\<lambda>_. ''k'') one_row one_row = Inr e" "ce_status e = ''compared''" using one_entry by blast
  have id: "ec_id (rn_case one_run) = ''q1''" by (simp add: one_run_def one_case_def)
  have e: "compare_one (\<lambda>_. ''k'') [one_row] [one_row] ''q1'' = Inr e" "ce_status e = ''compared''"
    using pair by (simp_all add: compare_one_def find_case_def id)
  have "map_res (compare_one (\<lambda>_. ''k'') [one_row] [one_row]) (sort (remdups (map case_id [one_row] @ map case_id [one_row]))) = Inr [e]"
    using e(1) by (simp add: id)
  moreover have "set (map verdict_key [e]) \<subseteq> set SUMMARY_KEYS" using compare_one_key[OF e(1)] by simp
  note count_keys_eq[OF summary_distinct this, of "\<lambda>_. 0"]
  ultimately obtain cmp where cmp: "compare_reports (\<lambda>_. Some ''d'') (\<lambda>_. ''1'') (\<lambda>_. ''k'') one_report one_report = Inr cmp" "co_cases cmp = [e]"
    by (simp add: compare_reports_def one_report_valid one_report_cases Let_def)
  then have "one_comparison = cmp" by (simp add: one_comparison_def)
  with cmp e(2) show "compare_reports (\<lambda>_. Some ''d'') (\<lambda>_. ''1'') (\<lambda>_. ''k'') one_report one_report = Inr one_comparison"
    "ce_status (hd (co_cases one_comparison)) = ''compared''" "co_cases one_comparison \<noteq> []"
    "\<exists>e. co_cases one_comparison = [e] \<and> compare_case (\<lambda>_. ''k'') one_row one_row = Inr e \<and> ce_status e = ''compared''"
    using pair by simp_all
qed

lemma deltas_are_earned_witness:
  "list_all (\<lambda>e. \<exists>base \<in> set (report_cases one_report). \<exists>cand \<in> set (report_cases one_report). measures (\<lambda>_. ''k'') base cand e)
     (compared_cases one_comparison) \<and> compared_cases one_comparison \<noteq> [] \<and>
   map fst (co_aggregate one_comparison) = DELTA_METRICS @ [''precision''] \<and>
   list_all (earned (measured_pairs one_report one_report one_comparison)) (co_aggregate one_comparison)"
proof -
  have "compared_cases one_comparison \<noteq> []"
    using one_comparison_status by (cases "co_cases one_comparison") (auto simp: compared_cases_def)
  with deltas_are_earned[OF one_comparison_made] show ?thesis by blast
qed

text \<open>A valid report that no comparison survives: an unlabelled case that leaves \<open>precision\<close> out.\<close>

definition bare_case :: json where
  "bare_case = JObj [(''case_id'', JStr ''q2''), (''version'', JInt 1), (''top_k'', JInt 1), (''query_text'', JStr ''dogs''),
     (''included_in_aggregate'', JBool True), (''stage_outcomes'', JObj (map (\<lambda>k. (k, JBool False)) STAGE_OUTCOME_KEYS)),
     (''flags'', JArr []), (''labels'', JObj [(''relevant'', JArr []), (''not_relevant'', JArr [])]), (''retrieved'', JArr []),
     (''metrics'', JObj (map (\<lambda>k. (k, JInt 0)) DELTA_METRICS))]"

definition bare_report :: json where
  "bare_report = JObj [(''schema_version'', JInt 1), (''kind'', JStr REPLAY_REPORT_KIND), (''as_of_unix'', JInt 5),
     (''fingerprints'', JObj (map (\<lambda>k. (k, JStr ''d'')) [''profile'', ''corpus'', ''index'', ''case_set''])),
     (''deterministic'', JBool True), (''cases'', JArr [bare_case])]"

lemma bare_case_valid: "validate_case bare_case = Inr ()"
  by (simp add: validate_case_def validate_flags_consistency_def validate_labels_def validate_retrieved_def validate_metrics_def
      bare_case_def STAGE_OUTCOME_KEYS_def DELTA_METRICS_def Let_def case_flags_def label_list_def expected_metric_def
      expected_precision_def ordered_hashes_def unit_gains_def hit_rate_at_k_def reciprocal_rank_at_k_def recall_labeled_at_k_def
      recall_at_k_def ndcg_at_k_def precision_at_k_def require_finite_def FLOAT_INT_LIMIT_def EPSILON_def escape_def)

lemma bare_report_valid: "validate_report (\<lambda>_. Some ''d'') (\<lambda>_. ''1'') bare_report = Inr ()"
  using bare_case_valid
  by (simp add: validate_report_def bare_report_def Let_def is_int_def REPLAY_REPORT_SCHEMA_VERSION_def valid_cases
      case_set_fingerprint_def fingerprint_row_def escape_def)

lemma compare_fails_exactly_witness:
  "compare_reports (\<lambda>_. Some ''d'') (\<lambda>_. ''1'') (\<lambda>_. ''k'') bare_report bare_report = Inl (Escapes KeyErr)"
  unfolding compare_fails_exactly[OF bare_report_valid bare_report_valid]
  by (simp add: report_cases_def bare_report_def comparable_def lacks_precision_def)
    (simp add: bare_case_def DELTA_METRICS_def included_def)

lemma compare_with_itself_witness:
  "list_all settled_entry (co_cases one_comparison) \<and> length (co_cases one_comparison) = length (report_cases one_report) \<and>
    list_all (\<lambda>(_, _, _, d). d = 0) (co_aggregate one_comparison) \<and>
    list_all (\<lambda>flag. map_of (co_compat one_comparison) flag = Some True) [''case_set_match'', ''corpus_match'', ''index_match'', ''profile_match'', ''as_of_match'']"
  by (rule compare_with_itself[OF one_comparison_made])

end
