(* ===== verification/Gate.thy ===== *)
theory Gate
  imports Replay
begin

text \<open>
  The gate over a comparison (\<open>quality/gate.py\<close>): a policy of caps, floors, required flags and an
  allowlist, evaluated into violations. The policy is the record pydantic builds from the JSON file;
  \<open>emit_risk\<close> is \<open>has_emit_risk\<close> and \<open>unsafe_char\<close> tells the Unicode categories barred from a reason.
\<close>

section \<open>Policy and verdict\<close>

record allow_entry =
  al_case_id :: string
  al_reason :: string

record gate_policy =
  po_require :: "(string, bool) odict"
  po_max_counts :: "(string, nat) odict"
  po_floors :: "(string, real) odict"
  po_min_compared :: nat
  po_max_incomplete :: "nat option"
  po_allowlist :: "allow_entry list"

definition COMPAT_FLAGS :: "string list" where
  "COMPAT_FLAGS = [''as_of_match'', ''case_set_match'', ''corpus_match'', ''deterministic_inputs'', ''index_match'', ''profile_match'']"

definition REDACTED_REASON :: string where "REDACTED_REASON = ''[redacted-reason]''"
definition REASON_MAX_LEN :: nat where "REASON_MAX_LEN = 200"

definition safe_reason :: "(string \<Rightarrow> bool) \<Rightarrow> (char \<Rightarrow> bool) \<Rightarrow> string \<Rightarrow> string" where
  "safe_reason emit_risk unsafe_char reason =
     (if emit_risk reason \<or> list_ex unsafe_char reason then REDACTED_REASON
      else if REASON_MAX_LEN < length reason then take REASON_MAX_LEN reason else reason)"

text \<open>The check that runs on the parsed JSON before the fields are built; every refusal is a \<open>ValueError\<close>.\<close>

fun check_counts :: "(string \<times> json) list \<Rightarrow> (py_exc, unit) result" where
  "check_counts [] = Inr ()"
| "check_counts ((key, v) # rest) =
     (if key \<notin> set SUMMARY_KEYS then Inl ValueErr
      else case v of JInt i \<Rightarrow> if i < 0 then Inl ValueErr else check_counts rest | _ \<Rightarrow> Inl ValueErr)"

definition METRIC_KEYS :: "string list" where "METRIC_KEYS = DELTA_METRICS @ [''precision'']"

fun normal_floors :: "(string \<times> json) list \<Rightarrow> (py_exc, (string \<times> json) list) result" where
  "normal_floors [] = Inr []"
| "normal_floors ((key, v) # rest) =
     (if key \<notin> set METRIC_KEYS then Inl ValueErr
      else case v of
          JInt i \<Rightarrow> if \<bar>i\<bar> \<ge> FLOAT_INT_LIMIT then Inl ValueErr
            else bind_res (normal_floors rest) (\<lambda>r. Inr ((key, JFloat (real_of_int i)) # r))
        | JFloat x \<Rightarrow> bind_res (normal_floors rest) (\<lambda>r. Inr ((key, JFloat x) # r))
        | _ \<Rightarrow> Inl ValueErr)"

definition check_natural :: "json \<Rightarrow> (py_exc, unit) result" where
  "check_natural v = (case v of JNull \<Rightarrow> Inr () | JInt i \<Rightarrow> if i < 0 then Inl ValueErr else Inr () | _ \<Rightarrow> Inl ValueErr)"

definition validate_maps :: "json \<Rightarrow> (py_exc, json) result" where
  "validate_maps data = (case data of
      JObj d \<Rightarrow>
        if map_of d ''schema_version'' \<noteq> None \<and> \<not> is_pure_int (j_get d ''schema_version'') then Inl ValueErr
        else bind_res (case j_get d ''max_verdict_counts'' of JNull \<Rightarrow> Inr () | JObj counts \<Rightarrow> check_counts counts | _ \<Rightarrow> Inl ValueErr) (\<lambda>_.
             bind_res (case j_get d ''aggregate_delta_floors'' of
                 JNull \<Rightarrow> Inr d
               | JObj floors \<Rightarrow> bind_res (normal_floors floors) (\<lambda>n. Inr (od_set ''aggregate_delta_floors'' (JObj n) d))
               | _ \<Rightarrow> Inl ValueErr) (\<lambda>d'.
             bind_res (check_natural (j_get d' ''min_compared_cases'')) (\<lambda>_.
             bind_res (check_natural (j_get d' ''max_incomplete_precision_cases'')) (\<lambda>_. Inr (JObj d')))))
    | _ \<Rightarrow> Inr data)"

definition unique_allowlist :: "gate_policy \<Rightarrow> (py_exc, gate_policy) result" where
  "unique_allowlist pol = (if distinct (map al_case_id (po_allowlist pol)) then Inr pol else Inl ValueErr)"

datatype violation =
    Compatibility string
  | VerdictCount string nat nat "string list"
  | MinComparedCases nat nat
  | EmptyMetricCohort "string list"
  | DeltaFloor string real real
  | PrecisionCohortEmpty
  | PrecisionCoverage nat nat "string list"

datatype warning = MatchedNoCase string | NotCompared string string

record gate_verdict =
  gv_pass :: bool
  gv_violations :: "violation list"
  gv_allowlisted :: "(string \<times> string \<times> string) list"
  gv_warnings :: "warning list"
  gv_summary :: "(string, nat) odict"

section \<open>The rules\<close>

definition case_entry :: "comparison \<Rightarrow> string \<Rightarrow> cmp_entry option" where
  "case_entry cmp cid = find (\<lambda>e. ce_id e = cid) (rev (co_cases cmp))"

text \<open>The identities an allowlist waives: only cases that were compared.\<close>

definition waived :: "comparison \<Rightarrow> gate_policy \<Rightarrow> string set" where
  "waived cmp pol = {cid \<in> set (map al_case_id (po_allowlist pol)).
     (case case_entry cmp cid of None \<Rightarrow> False | Some e \<Rightarrow> ce_status e = ''compared'')}"

definition allow_notes :: "(string \<Rightarrow> bool) \<Rightarrow> (char \<Rightarrow> bool) \<Rightarrow> comparison \<Rightarrow> gate_policy \<Rightarrow> (string \<times> string \<times> string) list \<times> warning list" where
  "allow_notes emit_risk unsafe_char cmp pol =
     (let rows = map (\<lambda>a. (a, case_entry cmp (al_case_id a))) (po_allowlist pol)
      in (concat (map (\<lambda>(a, e). case e of None \<Rightarrow> []
             | Some e \<Rightarrow> [(al_case_id a, ce_status e, safe_reason emit_risk unsafe_char (al_reason a))]) rows),
          concat (map (\<lambda>(a, e). case e of None \<Rightarrow> [MatchedNoCase (al_case_id a)]
             | Some e \<Rightarrow> if al_case_id a \<in> waived cmp pol then [] else [NotCompared (al_case_id a) (ce_status e)]) rows)))"

definition compat_violations :: "comparison \<Rightarrow> gate_policy \<Rightarrow> violation list" where
  "compat_violations cmp pol =
     map Compatibility (filter (\<lambda>flag. map_of (po_require pol) flag = Some True \<and> map_of (co_compat cmp) flag \<noteq> Some True) COMPAT_FLAGS)"

definition tally_cohort :: "comparison \<Rightarrow> gate_policy \<Rightarrow> cmp_entry list" where
  "tally_cohort cmp pol = filter (\<lambda>e. ce_id e \<notin> waived cmp pol) (co_cases cmp)"

text \<open>An unknown verdict key raises \<open>ValueError\<close>.\<close>

fun tally_keys :: "(string, nat) odict \<Rightarrow> string list \<Rightarrow> (py_exc, (string, nat) odict) result" where
  "tally_keys t [] = Inr t"
| "tally_keys t (k # ks) = (case map_of t k of None \<Rightarrow> Inl ValueErr | Some n \<Rightarrow> tally_keys (od_set k (n + 1) t) ks)"

definition tally_of :: "(string, nat) odict \<Rightarrow> string \<Rightarrow> nat" where
  "tally_of t k = (case map_of t k of None \<Rightarrow> 0 | Some n \<Rightarrow> n)"

definition count_violations :: "comparison \<Rightarrow> gate_policy \<Rightarrow> (string, nat) odict \<Rightarrow> violation list" where
  "count_violations cmp pol t =
     map (\<lambda>(key, cap). VerdictCount key cap (tally_of t key)
           (sort (map ce_id (filter (\<lambda>e. verdict_key e = key) (tally_cohort cmp pol)))))
       (filter (\<lambda>(key, cap). cap < tally_of t key) (sort_key fst (po_max_counts pol)))"

definition coverage_violations :: "comparison \<Rightarrow> gate_policy \<Rightarrow> violation list" where
  "coverage_violations cmp pol =
     (let n = length (filter (\<lambda>e. ce_status e = ''compared'') (co_cases cmp))
      in if 0 < po_min_compared pol \<and> n < po_min_compared pol then [MinComparedCases (po_min_compared pol) n] else [])"

definition metric_cohort :: "comparison \<Rightarrow> gate_policy \<Rightarrow> cmp_entry list" where
  "metric_cohort cmp pol = filter (\<lambda>e. ce_status e = ''compared'' \<and> ce_id e \<notin> waived cmp pol) (co_cases cmp)"

definition entry_delta :: "string \<Rightarrow> cmp_entry \<Rightarrow> real" where
  "entry_delta key e = (case map_of (ce_deltas e) key of None \<Rightarrow> 0 | Some d \<Rightarrow> snd (snd d))"

definition floor_violation :: "string \<Rightarrow> real \<Rightarrow> cmp_entry list \<Rightarrow> violation list" where
  "floor_violation metric flr cohort =
     (let observed = mean (map (entry_delta metric) cohort)
      in if observed < flr - EPSILON then [DeltaFloor metric flr observed] else [])"

definition rank_violations :: "comparison \<Rightarrow> gate_policy \<Rightarrow> violation list" where
  "rank_violations cmp pol =
     (let rank_floors = filter (\<lambda>(m, _). m \<in> set DELTA_METRICS) (po_floors pol); cohort = metric_cohort cmp pol
      in if rank_floors \<noteq> [] \<and> cohort = [] then [EmptyMetricCohort (sort (map fst rank_floors))]
         else concat (map (\<lambda>(m, f). floor_violation m f cohort) (sort_key fst rank_floors)))"

definition precision_violations :: "comparison \<Rightarrow> gate_policy \<Rightarrow> violation list" where
  "precision_violations cmp pol = (case map_of (po_floors pol) ''precision'' of
      None \<Rightarrow> []
    | Some f \<Rightarrow>
        let cohort = filter (\<lambda>e. map_of (ce_deltas e) ''precision'' \<noteq> None) (metric_cohort cmp pol)
        in if cohort = [] then [PrecisionCohortEmpty] else floor_violation ''precision'' f cohort)"

definition incomplete_violations :: "comparison \<Rightarrow> gate_policy \<Rightarrow> violation list" where
  "incomplete_violations cmp pol = (case po_max_incomplete pol of
      None \<Rightarrow> []
    | Some cap \<Rightarrow>
        let incomplete = filter (\<lambda>e. ce_precision e \<noteq> Some ''comparable'') (metric_cohort cmp pol)
        in if cap < length incomplete then [PrecisionCoverage cap (length incomplete) (sort (map ce_id incomplete))] else [])"

fun rule_of :: "violation \<Rightarrow> string \<times> string" where
  "rule_of (Compatibility k) = (''compatibility'', k)"
| "rule_of (VerdictCount k _ _ _) = (''verdict_count'', k)"
| "rule_of (MinComparedCases _ _) = (''min_compared_cases'', '''')"
| "rule_of (EmptyMetricCohort _) = (''empty_metric_cohort'', '''')"
| "rule_of (DeltaFloor m _ _) = (''aggregate_delta_floor'', m)"
| "rule_of PrecisionCohortEmpty = (''precision_cohort_empty'', ''precision'')"
| "rule_of (PrecisionCoverage _ _ _) = (''precision_cohort_coverage'', ''precision'')"

text \<open>\<open>sort_warnings\<close> orders the rendered warnings.\<close>

definition evaluate_gate ::
  "(string \<Rightarrow> bool) \<Rightarrow> (char \<Rightarrow> bool) \<Rightarrow> (warning list \<Rightarrow> warning list) \<Rightarrow> comparison \<Rightarrow> gate_policy \<Rightarrow> (py_exc, gate_verdict) result" where
  "evaluate_gate emit_risk unsafe_char sort_warnings cmp pol =
     bind_res (tally_keys (map (\<lambda>k. (k, 0)) SUMMARY_KEYS) (map verdict_key (tally_cohort cmp pol))) (\<lambda>t.
       let violations = compat_violations cmp pol @ count_violations cmp pol t @ coverage_violations cmp pol @
             rank_violations cmp pol @ precision_violations cmp pol @ incomplete_violations cmp pol;
           notes = allow_notes emit_risk unsafe_char cmp pol
       in Inr \<lparr>gv_pass = (violations = []), gv_violations = sort_key rule_of violations,
            gv_allowlisted = sort_key fst (fst notes), gv_warnings = sort_warnings (snd notes), gv_summary = t\<rparr>)"

section \<open>What a passing gate means\<close>

lemma tally_keys_eq:
  "distinct ks \<Longrightarrow> set vs \<subseteq> set ks \<Longrightarrow>
    tally_keys (map (\<lambda>k. (k, f k)) ks) vs = Inr (map (\<lambda>k. (k, f k + length (filter (\<lambda>v. v = k) vs))) ks)"
proof (induction vs arbitrary: f)
  case (Cons v vs)
  then have "map_of (map (\<lambda>k. (k, f k)) ks) v = Some (f v)" by (simp add: map_of_map_keys map_of_map_restrict)
  then show ?case using Cons.prems Cons.IH[of "\<lambda>x. if x = v then Suc (f v) else f x"]
    by (auto simp: od_set_map)
qed simp

lemma comparison_keys:
  assumes "compare_reports dig py_str dumps b c = Inr cmp"
  shows "set (map verdict_key (tally_cohort cmp pol)) \<subseteq> set SUMMARY_KEYS"
  using compare_one_key[OF compared_entries(4)[OF assms]] by (auto simp: tally_cohort_def)

definition tally :: "comparison \<Rightarrow> gate_policy \<Rightarrow> (string, nat) odict" where
  "tally cmp pol = map (\<lambda>k. (k, length (filter (\<lambda>v. v = k) (map verdict_key (tally_cohort cmp pol))))) SUMMARY_KEYS"

lemma tally_count: "k \<in> set SUMMARY_KEYS \<Longrightarrow>
    tally_of (tally cmp pol) k = length (filter (\<lambda>e. verdict_key e = k) (tally_cohort cmp pol))"
  by (simp add: tally_of_def tally_def map_of_map_keys map_of_map_restrict filter_map comp_def)

lemma sort_key_Nil: "sort_key f xs = [] \<longleftrightarrow> xs = []"
  by (metis set_empty set_sort)

lemma find_unique: "distinct (map f xs) \<Longrightarrow> e \<in> set xs \<Longrightarrow> find (\<lambda>x. f x = f e) xs = Some e"
  by (induction xs) (auto simp: image_iff)

lemma case_entry_unique: "distinct (map ce_id (co_cases cmp)) \<Longrightarrow> e \<in> set (co_cases cmp) \<Longrightarrow> case_entry cmp (ce_id e) = Some e"
  unfolding case_entry_def by (rule find_unique) (simp_all flip: rev_map)

lemma gate_result:
  assumes "compare_reports dig py_str dumps b c = Inr cmp" "evaluate_gate emit_risk unsafe_char sw cmp pol = Inr v"
  shows "gv_pass v \<longleftrightarrow> gv_violations v = []" "gv_summary v = tally cmp pol"
    "set (gv_violations v) = set (compat_violations cmp pol @ count_violations cmp pol (tally cmp pol) @ coverage_violations cmp pol @
       rank_violations cmp pol @ precision_violations cmp pol @ incomplete_violations cmp pol)"
proof -
  have t: "tally_keys (map (\<lambda>k. (k, 0)) SUMMARY_KEYS) (map verdict_key (tally_cohort cmp pol)) = Inr (tally cmp pol)"
    using tally_keys_eq[OF summary_distinct comparison_keys[OF assms(1)], of "\<lambda>_. 0" pol] by (simp add: tally_def)
  note eval = assms(2)[unfolded evaluate_gate_def t bind_res_simps Let_def, simplified]
  show "gv_summary v = tally cmp pol" by (simp add: eval[symmetric])
  show "set (gv_violations v) = set (compat_violations cmp pol @ count_violations cmp pol (tally cmp pol) @ coverage_violations cmp pol @
       rank_violations cmp pol @ precision_violations cmp pol @ incomplete_violations cmp pol)" by (simp add: eval[symmetric])
  show "gv_pass v \<longleftrightarrow> gv_violations v = []" by (simp add: eval[symmetric] sort_key_Nil)
qed

lemma mean_close:
  assumes "list_all (\<lambda>e. \<bar>f e - g e\<bar> \<le> d) es" "es \<noteq> []"
  shows "mean (map f es) - d \<le> mean (map g es)"
proof -
  have "sum_list (map f es) - d * real (length es) \<le> sum_list (map g es)"
    using assms(1) by (induction es) (auto simp: algebra_simps)
  then have "(sum_list (map f es) - d * real (length es)) / real (length es) \<le> sum_list (map g es) / real (length es)"
    by (rule divide_right_mono) simp
  then show ?thesis using assms(2) by (simp add: mean_def diff_divide_distrib)
qed

text \<open>The change that the rankings of both sides of an entry show.\<close>

definition shown_delta :: "json \<Rightarrow> json \<Rightarrow> string \<Rightarrow> cmp_entry \<Rightarrow> real" where
  "shown_delta b c metric e =
     true_delta (the (find_case (report_cases b) (ce_id e))) (the (find_case (report_cases c) (ce_id e))) metric"

lemma entry_delta_close:
  assumes "compare_reports dig py_str dumps b c = Inr cmp" "e \<in> set (co_cases cmp)" "ce_status e = ''compared''" "metric \<in> set DELTA_METRICS"
  shows "\<bar>entry_delta metric e - shown_delta b c metric e\<bar> \<le> 2 * EPSILON"
proof (rule compared_pair[OF assms(1-3)])
  fix base cand
  assume pair: "base \<in> set (report_cases b)" "cand \<in> set (report_cases c)" "case_id base = ce_id e" "case_id cand = ce_id e"
    "compare_case dumps base cand = Inr e" "validate_case base = Inr ()" "validate_case cand = Inr ()"
  note valid = valid_report(1)[OF compared_entries(1)[OF assms(1)]] valid_report(1)[OF compared_entries(2)[OF assms(1)]]
  have "find_case (report_cases b) (ce_id e) = Some base" "find_case (report_cases c) (ce_id e) = Some cand"
    using find_case_unique[OF valid(1) pair(1)] find_case_unique[OF valid(2) pair(2)] pair(3,4) by simp_all
  then show ?thesis using delta_honest[OF pair(6,7) assms(4)] compared_deltas[OF pair(5) assms(3,4)]
    by (simp add: shown_delta_def entry_delta_def)
qed

text \<open>
  C35. What a passing gate says about the rankings themselves. If the gate passes under a policy with
  a floor on a rank metric, some case was measured, and the mean change of that metric, recomputed
  from the rankings and labels of both reports over the cases no allowlist entry waives, is at least
  the floor, but for the tolerances of both reports and of the gate. Nothing a report declares about
  itself can move it.
\<close>

theorem gate_pass_sound:
  assumes "compare_reports dig py_str dumps b c = Inr cmp" and "evaluate_gate emit_risk unsafe_char sort_warnings cmp pol = Inr v"
    and "gv_pass v" and "(metric, flr) \<in> set (po_floors pol)" and "metric \<in> set DELTA_METRICS"
  shows "metric_cohort cmp pol \<noteq> [] \<and> flr - 3 * EPSILON \<le> mean (map (shown_delta b c metric) (metric_cohort cmp pol))"
proof -
  let ?cohort = "metric_cohort cmp pol"
  have none: "rank_violations cmp pol = []" using gate_result[OF assms(1,2)] assms(3) by simp
  have floors: "(metric, flr) \<in> set (filter (\<lambda>(m, _). m \<in> set DELTA_METRICS) (po_floors pol))" using assms(4,5) by simp
  then have cohort: "?cohort \<noteq> []" using none by (auto simp: rank_violations_def Let_def filter_empty_conv split: if_splits)
  with none floors have "floor_violation metric flr ?cohort = []"
    by (auto simp: rank_violations_def Let_def simp del: set_filter)
  then have floor_met: "flr - EPSILON \<le> mean (map (entry_delta metric) ?cohort)"
    by (simp add: floor_violation_def Let_def split: if_splits)
  have "list_all (\<lambda>e. \<bar>entry_delta metric e - shown_delta b c metric e\<bar> \<le> 2 * EPSILON) ?cohort"
    using entry_delta_close[OF assms(1) _ _ assms(5)] by (auto simp: list_all_iff metric_cohort_def)
  from mean_close[OF this cohort] floor_met cohort show ?thesis by simp
qed

lemma degraded_entry:
  assumes "compare_reports dig py_str dumps b c = Inr cmp"
    and "base \<in> set (report_cases b)" and "cand \<in> set (report_cases c)" and "case_id base = case_id cand"
    and "jget base ''version'' = jget cand ''version''" and "definition_key dumps base = definition_key dumps cand" and "stage_failed cand"
  shows "\<exists>e \<in> set (co_cases cmp). ce_id e = case_id cand \<and> ce_status e = (if stage_failed base then ''both_degraded'' else ''candidate_degraded'')"
proof -
  note valid = compared_entries(1,2)[OF assms(1)]
  have deg: "is_degraded cand" "is_degraded base = stage_failed base"
    using valid_case_degraded valid_report(2)[OF valid(1) assms(2)] valid_report(2)[OF valid(2) assms(3)] assms(7) by auto
  have found: "find_case (report_cases b) (case_id cand) = Some base" "find_case (report_cases c) (case_id cand) = Some cand"
    using find_case_unique[OF valid_report(1)[OF valid(1)] assms(2)] find_case_unique[OF valid_report(1)[OF valid(2)] assms(3)] assms(4) by simp_all
  have "case_id cand \<in> set (map ce_id (co_cases cmp))" using assms(3) by (simp only: compared_entries(3)[OF assms(1)]) simp
  then obtain e where e: "e \<in> set (co_cases cmp)" "ce_id e = case_id cand" by auto
  have "compare_case dumps base cand = Inr e" using compared_entries(4)[OF assms(1) e(1)] e(2) found by (simp add: compare_one_def)
  then have "ce_status e = (if stage_failed base then ''both_degraded'' else ''candidate_degraded'')"
    using deg assms(5,6) by (auto simp: compare_case_def Let_def split: if_splits)
  with e show ?thesis by blast
qed

text \<open>A case that was not compared counts against the cap of its status, whatever the allowlist.\<close>

lemma structural_counts:
  assumes "compare_reports dig py_str dumps b c = Inr cmp" "e \<in> set (co_cases cmp)" "ce_status e = key" "key \<noteq> ''compared''"
    and "map_of (po_max_counts pol) key = Some 0"
  shows "\<exists>n ids. VerdictCount key 0 n ids \<in> set (count_violations cmp pol (tally cmp pol)) \<and> ce_id e \<in> set ids"
proof -
  let ?bucket = "filter (\<lambda>e. verdict_key e = key) (tally_cohort cmp pol)"
  have "distinct (map ce_id (co_cases cmp))" by (simp only: compared_entries(3)[OF assms(1)] distinct_sort distinct_remdups)
  then have "ce_id e \<notin> waived cmp pol" using case_entry_unique[OF _ assms(2)] assms(3,4) by (auto simp: waived_def)
  then have mem: "e \<in> set ?bucket" using assms(2-4) by (auto simp: tally_cohort_def verdict_key_def)
  have "verdict_key e \<in> set SUMMARY_KEYS" by (rule compare_one_key[OF compared_entries(4)[OF assms(1,2)]])
  with mem have "tally_of (tally cmp pol) key = length ?bucket" by (intro tally_count) simp
  with mem have "0 < tally_of (tally cmp pol) key" by (auto simp: filter_empty_conv)
  then have "VerdictCount key 0 (tally_of (tally cmp pol) key) (sort (map ce_id ?bucket)) \<in> set (count_violations cmp pol (tally cmp pol))"
    using map_of_SomeD[OF assms(5)] by (force simp: count_violations_def)
  moreover have "ce_id e \<in> set (sort (map ce_id ?bucket))" using mem by (auto simp only: set_sort set_map)
  ultimately show ?thesis by blast
qed

text \<open>
  C36. A broken candidate cannot be waived. Take a case that both reports hold, in the same version
  and with an equal definition key (query, \<open>top_k\<close>, filters and labels), on which a stage of the
  candidate's search failed, and a policy that allows no case of the status it then has
  (\<open>both_degraded\<close> if the baseline failed there too, else \<open>candidate_degraded\<close>). The gate fails and names the
  case, whatever the allowlist says and whatever the metrics are. A case that only the candidate holds,
  or one whose version or definition differs, has another status, which the caps on degraded
  cases do not count: the theorem does not speak of it.
\<close>

theorem degraded_never_waived:
  assumes "compare_reports dig py_str dumps b c = Inr cmp" and "evaluate_gate emit_risk unsafe_char sort_warnings cmp pol = Inr v"
    and "base \<in> set (report_cases b)" and "cand \<in> set (report_cases c)" and "case_id base = case_id cand"
    and "jget base ''version'' = jget cand ''version''" and "definition_key dumps base = definition_key dumps cand"
    and "stage_failed cand" and "key = (if stage_failed base then ''both_degraded'' else ''candidate_degraded'')"
    and "map_of (po_max_counts pol) key = Some 0"
  shows "\<not> gv_pass v \<and> (\<exists>n ids. VerdictCount key 0 n ids \<in> set (gv_violations v) \<and> case_id cand \<in> set ids)"
proof -
  obtain e where e: "e \<in> set (co_cases cmp)" "ce_id e = case_id cand" "ce_status e = key"
    using degraded_entry[OF assms(1,3-8)] assms(9) by auto
  have "key \<noteq> ''compared''" using assms(9) by simp
  from structural_counts[OF assms(1) e(1,3) this assms(10)] e(2) show ?thesis using gate_result(1,3)[OF assms(1,2)] by auto
qed

section \<open>A policy once checked\<close>

lemma normal_floors_again: "normal_floors fs = Inr out \<Longrightarrow> normal_floors out = Inr out"
  by (induction fs arbitrary: out rule: normal_floors.induct) (auto simp: bind_res_Inr_conv split: if_splits json.splits)

lemma normal_floors_typed: "normal_floors fs = Inr out \<Longrightarrow>
    list_all (\<lambda>(key, v). key \<in> set METRIC_KEYS \<and> (\<exists>x. v = JFloat x)) out \<and> od_keys out = od_keys fs"
  by (induction fs arbitrary: out rule: normal_floors.induct) (auto simp: bind_res_Inr_conv split: if_splits json.splits)

lemma check_counts_typed: "check_counts cs = Inr () \<Longrightarrow> list_all (\<lambda>(key, v). key \<in> set SUMMARY_KEYS \<and> (\<exists>i \<ge> 0. v = JInt i)) cs"
  by (induction cs rule: check_counts.induct) (auto split: if_splits json.splits)

lemma od_set_twice: "od_set k v (od_set k v d) = od_set k v d"
  by (induction k v d rule: od_set.induct) auto

lemma j_get_set: "j_get (od_set k v d) k' = (if k' = k then v else j_get d k')"
  by (simp add: j_get_def)

definition policy_typed :: "(string \<times> json) list \<Rightarrow> bool" where
  "policy_typed d \<longleftrightarrow>
     (case j_get d ''max_verdict_counts'' of
        JNull \<Rightarrow> True
      | JObj counts \<Rightarrow> list_all (\<lambda>(key, v). key \<in> set SUMMARY_KEYS \<and> (\<exists>i \<ge> 0. v = JInt i)) counts
      | _ \<Rightarrow> False) \<and>
     (case j_get d ''aggregate_delta_floors'' of
        JNull \<Rightarrow> True
      | JObj floors \<Rightarrow> list_all (\<lambda>(key, v). key \<in> set METRIC_KEYS \<and> (\<exists>x. v = JFloat x)) floors
      | _ \<Rightarrow> False)"

text \<open>
  What the check of a policy file leaves: caps only for the comparison's verdicts, each a
  natural number; floors only for its metrics, each a finite float; every other member as it was;
  and a second check changes nothing and refuses nothing.
\<close>

theorem policy_maps_typed:
  assumes "validate_maps (JObj d) = Inr r"
  shows "\<exists>d'. r = JObj d' \<and> policy_typed d' \<and> validate_maps r = Inr r \<and>
    (\<forall>k. k \<noteq> ''aggregate_delta_floors'' \<longrightarrow> j_get d' k = j_get d k)"
proof -
  obtain d' where r: "r = JObj d'" using assms by (auto simp: validate_maps_def bind_res_Inr_conv split: if_splits)
  have sv: "map_of d ''schema_version'' \<noteq> None \<longrightarrow> is_pure_int (j_get d ''schema_version'')"
    using assms by (auto simp: validate_maps_def split: if_splits)
  have shape: "(j_get d ''aggregate_delta_floors'' = JNull \<and> d' = d) \<or> (\<exists>floors n. j_get d ''aggregate_delta_floors'' = JObj floors \<and>
      normal_floors floors = Inr n \<and> d' = od_set ''aggregate_delta_floors'' (JObj n) d)"
    using assms r by (auto simp: validate_maps_def bind_res_Inr_conv split: if_splits json.splits)
  then have keep: "\<forall>k. k \<noteq> ''aggregate_delta_floors'' \<longrightarrow> j_get d' k = j_get d k" and sv': "map_of d' ''schema_version'' = map_of d ''schema_version''"
    by (auto simp: j_get_set)
  have counts: "j_get d ''max_verdict_counts'' = JNull \<or> (\<exists>cs. j_get d ''max_verdict_counts'' = JObj cs \<and> check_counts cs = Inr ())"
    and nat: "check_natural (j_get d' ''min_compared_cases'') = Inr ()" "check_natural (j_get d' ''max_incomplete_precision_cases'') = Inr ()"
    using assms r by (auto simp: validate_maps_def bind_res_Inr_conv split: if_splits json.splits)
  have sv'': "map_of d' ''schema_version'' \<noteq> None \<longrightarrow> is_pure_int (j_get d' ''schema_version'')" using sv sv' keep by simp
  have floors: "j_get d' ''aggregate_delta_floors'' = JNull \<or> (\<exists>n. j_get d' ''aggregate_delta_floors'' = JObj n \<and> normal_floors n = Inr n \<and>
      od_set ''aggregate_delta_floors'' (JObj n) d' = d' \<and> list_all (\<lambda>(key, v). key \<in> set METRIC_KEYS \<and> (\<exists>x. v = JFloat x)) n)"
    using shape by (auto simp: j_get_set od_set_twice dest: normal_floors_again normal_floors_typed)
  have "validate_maps (JObj d') = Inr (JObj d')"
    using floors counts[folded keep[rule_format, of "''max_verdict_counts''", simplified]]
    by (elim disjE exE conjE) (use sv'' in \<open>auto simp: validate_maps_def nat\<close>)
  moreover have "policy_typed d'"
    using keep counts floors check_counts_typed by (auto simp: policy_typed_def)
  ultimately show ?thesis using r keep by blast
qed

lemma policy_maps_typed_witness:
  "\<exists>d'. JObj [(''schema_version'', JInt 1), (''aggregate_delta_floors'', JObj [(''ndcg'', JFloat 0)]), (''max_verdict_counts'', JObj [(''regressed'', JInt 0)])]
      = JObj d' \<and> policy_typed d' \<and>
    validate_maps (JObj [(''schema_version'', JInt 1), (''aggregate_delta_floors'', JObj [(''ndcg'', JFloat 0)]), (''max_verdict_counts'', JObj [(''regressed'', JInt 0)])])
      = Inr (JObj [(''schema_version'', JInt 1), (''aggregate_delta_floors'', JObj [(''ndcg'', JFloat 0)]), (''max_verdict_counts'', JObj [(''regressed'', JInt 0)])]) \<and>
    (\<forall>k. k \<noteq> ''aggregate_delta_floors'' \<longrightarrow> j_get d' k =
      j_get [(''schema_version'', JInt 1), (''aggregate_delta_floors'', JObj [(''ndcg'', JInt 0)]), (''max_verdict_counts'', JObj [(''regressed'', JInt 0)])] k)"
  by (rule policy_maps_typed)
    (simp add: validate_maps_def METRIC_KEYS_def DELTA_METRICS_def SUMMARY_KEYS_def FLOAT_INT_LIMIT_def check_natural_def)

section \<open>Concrete gates\<close>

definition ndcg_policy :: gate_policy where
  "ndcg_policy = \<lparr>po_require = [(''case_set_match'', True)], po_max_counts = [(''both_degraded'', 0), (''candidate_degraded'', 0)],
     po_floors = [(''ndcg'', 0)], po_min_compared = 1, po_max_incomplete = Some 0,
     po_allowlist = [\<lparr>al_case_id = ''q2'', al_reason = ''known''\<rparr>]\<rparr>"

definition one_verdict :: gate_verdict where
  "one_verdict = (case evaluate_gate (\<lambda>_. False) (\<lambda>_. False) id one_comparison ndcg_policy of
      Inr v \<Rightarrow> v | Inl _ \<Rightarrow> \<lparr>gv_pass = False, gv_violations = [], gv_allowlisted = [], gv_warnings = [], gv_summary = []\<rparr>)"

lemma one_verdict_made: "evaluate_gate (\<lambda>_. False) (\<lambda>_. False) id one_comparison ndcg_policy = Inr one_verdict"
  using tally_keys_eq[OF summary_distinct comparison_keys[OF one_comparison_made], of "\<lambda>_. 0" ndcg_policy]
  by (simp add: one_verdict_def evaluate_gate_def Let_def)

lemma one_verdict_pass: "gv_pass one_verdict"
proof -
  obtain e where e: "co_cases one_comparison = [e]" "compare_case (\<lambda>_. ''k'') one_row one_row = Inr e" "ce_status e = ''compared''"
    using one_comparison_case by blast
  note facts = compare_case_compared[OF e(2,3)]
  have id: "ce_id e = ''q1''" using compare_case_id[OF e(2)] by (simp add: one_run_def one_case_def)
  have prec: "\<not> no_precision one_row" using one_row_precision by (simp add: no_precision_def jget_def j_get_def)
  have waived: "waived one_comparison ndcg_policy = {}" by (simp add: waived_def ndcg_policy_def case_entry_def e(1) id)
  have key: "verdict_key e = ''unchanged''"
    using facts(6,7) e(3) classify_zero[of "map (\<lambda>(_, _, _, d). d) (ce_deltas e)"] by (simp add: verdict_key_def list_all_iff)
  have "gv_violations one_verdict = []"
    unfolding set_empty[symmetric] gate_result(3)[OF one_comparison_made one_verdict_made]
    using facts(7,8) e(1,3) id key prec waived
    by (simp add: compat_violations_def count_violations_def coverage_violations_def rank_violations_def precision_violations_def
        incomplete_violations_def metric_cohort_def floor_violation_def entry_delta_def ndcg_policy_def COMPAT_FLAGS_def
        DELTA_METRICS_def mean_def EPSILON_def tally_cohort_def tally_def tally_of_def SUMMARY_KEYS_def Let_def
        compared_entries(5)[OF one_comparison_made] compatibility_def)
  then show ?thesis using gate_result(1)[OF one_comparison_made one_verdict_made] by simp
qed

lemma gate_pass_sound_witness:
  "metric_cohort one_comparison ndcg_policy \<noteq> [] \<and>
    0 - 3 * EPSILON \<le> mean (map (shown_delta one_report one_report ''ndcg'') (metric_cohort one_comparison ndcg_policy))"
  by (rule gate_pass_sound[OF one_comparison_made one_verdict_made one_verdict_pass]) (simp_all add: ndcg_policy_def DELTA_METRICS_def)

text \<open>The same case when the dense search failed in the candidate; the policy's allowlist names it in vain.\<close>

definition failed_case :: json where
  "failed_case = JObj [(''case_id'', JStr ''q2''), (''version'', JInt 1), (''top_k'', JInt 1), (''query_text'', JStr ''dogs''),
     (''included_in_aggregate'', JBool False), (''stage_outcomes'', JObj (map (\<lambda>k. (k, JBool (k = ''dense_error''))) STAGE_OUTCOME_KEYS)),
     (''flags'', JArr [JStr ''degraded'']), (''labels'', JObj [(''relevant'', JArr []), (''not_relevant'', JArr [])]),
     (''retrieved'', JArr []), (''metrics'', JObj (map (\<lambda>k. (k, JInt 0)) DELTA_METRICS))]"

definition failed_report :: json where
  "failed_report = JObj [(''schema_version'', JInt 1), (''kind'', JStr REPLAY_REPORT_KIND), (''as_of_unix'', JInt 5),
     (''fingerprints'', JObj (map (\<lambda>k. (k, JStr ''d'')) [''profile'', ''corpus'', ''index'', ''case_set''])),
     (''deterministic'', JBool True), (''cases'', JArr [failed_case])]"

lemma failed_case_valid: "validate_case failed_case = Inr ()"
  by (simp add: validate_case_def validate_flags_consistency_def validate_labels_def validate_retrieved_def validate_metrics_def
      failed_case_def STAGE_OUTCOME_KEYS_def DELTA_METRICS_def Let_def case_flags_def label_list_def expected_metric_def
      expected_precision_def ordered_hashes_def unit_gains_def hit_rate_at_k_def reciprocal_rank_at_k_def recall_labeled_at_k_def
      recall_at_k_def ndcg_at_k_def precision_at_k_def require_finite_def FLOAT_INT_LIMIT_def EPSILON_def escape_def)

lemma failed_report_valid: "validate_report (\<lambda>_. Some ''d'') (\<lambda>_. ''1'') failed_report = Inr ()"
  using failed_case_valid
  by (simp add: validate_report_def failed_report_def Let_def is_int_def REPLAY_REPORT_SCHEMA_VERSION_def valid_cases
      case_set_fingerprint_def fingerprint_row_def escape_def)

definition failed_comparison :: comparison where
  "failed_comparison = (case compare_reports (\<lambda>_. Some ''d'') (\<lambda>_. ''1'') (\<lambda>_. ''k'') bare_report failed_report of Inr c \<Rightarrow> c
     | Inl _ \<Rightarrow> one_comparison)"

lemma failed_comparison_made: "compare_reports (\<lambda>_. Some ''d'') (\<lambda>_. ''1'') (\<lambda>_. ''k'') bare_report failed_report = Inr failed_comparison"
proof -
  have "compare_one (\<lambda>_. ''k'') [bare_case] [failed_case] ''q2'' = Inr (one_sided ''q2'' ''candidate_degraded'')"
    by (simp add: compare_one_def find_case_def compare_case_def bare_case_def failed_case_def Let_def definition_key_def label_list_def
        is_degraded_def included_def case_flags_def one_sided_def)
  moreover have "case_id bare_case = ''q2''" "case_id failed_case = ''q2''" by (simp_all add: bare_case_def failed_case_def)
  moreover have "items (jget bare_report ''cases'') = [bare_case]" "items (jget failed_report ''cases'') = [failed_case]"
    by (simp_all add: bare_report_def failed_report_def)
  ultimately show ?thesis
    by (simp add: failed_comparison_def compare_reports_def bare_report_valid failed_report_valid Let_def one_sided_def verdict_key_def SUMMARY_KEYS_def)
qed

definition failed_verdict :: gate_verdict where
  "failed_verdict = (case evaluate_gate (\<lambda>_. False) (\<lambda>_. False) id failed_comparison ndcg_policy of Inr v \<Rightarrow> v | Inl _ \<Rightarrow> one_verdict)"

lemma failed_verdict_made: "evaluate_gate (\<lambda>_. False) (\<lambda>_. False) id failed_comparison ndcg_policy = Inr failed_verdict"
  using tally_keys_eq[OF summary_distinct comparison_keys[OF failed_comparison_made], of "\<lambda>_. 0" ndcg_policy]
  by (simp add: failed_verdict_def evaluate_gate_def Let_def)

lemma degraded_never_waived_witness:
  "\<not> gv_pass failed_verdict \<and>
    (\<exists>n ids. VerdictCount ''candidate_degraded'' 0 n ids \<in> set (gv_violations failed_verdict) \<and> case_id failed_case \<in> set ids)"
  by (rule degraded_never_waived[OF failed_comparison_made failed_verdict_made, where base = bare_case])
    (simp_all add: report_cases_def bare_report_def failed_report_def bare_case_def failed_case_def definition_key_def label_list_def
      stage_failed_def STAGE_OUTCOME_KEYS_def ndcg_policy_def)

end
