(* ===== verification/HookSettings.thy ===== *)
theory HookSettings
  imports Json "HOL-Library.Sublist" "HOL-Library.List_Lexorder" "HOL-Library.Char_ord"
begin

text \<open>
  The fan-out of hook rules to the settings files of the agent runtimes (\<open>context/settings.py\<close>):
  the ownership markers, the merge of the canonical record into a user's document, the three JSON
  generators, the synchronisation of one target and its dry run. The Kimi target is TOML text and not
  modelled. A warning is its kind with the event and matcher it names; the wording and the redaction
  of secrets are not modelled. Parameter: \<open>digest\<close>, the eight hex digits hashed
  from a handler's matcher, position and command.
\<close>

type_synonym members = "(string \<times> json) list"

section \<open>Python equality of documents\<close>

fun num_value :: "json \<Rightarrow> real option" where
  "num_value (JBool b) = Some (if b then 1 else 0)"
| "num_value (JInt i) = Some (real_of_int i)"
| "num_value (JFloat r) = Some r"
| "num_value _ = None"

text \<open>
  \<open>==\<close> on values inside containers: numbers by value, dictionaries in any order, and the one \<open>NaN\<close>
  object of the JSON reader equal to itself.
\<close>

fun json_eq :: "json \<Rightarrow> json \<Rightarrow> bool"
  and eq_items :: "json list \<Rightarrow> json list \<Rightarrow> bool"
  and eq_members :: "members \<Rightarrow> members \<Rightarrow> bool" where
  "json_eq a b = (case a of
      JNull \<Rightarrow> b = JNull
    | JNaN \<Rightarrow> b = JNaN
    | JInfinite s \<Rightarrow> b = JInfinite s
    | JStr s \<Rightarrow> b = JStr s
    | JArr xs \<Rightarrow> (case b of JArr ys \<Rightarrow> eq_items xs ys | _ \<Rightarrow> False)
    | JObj d \<Rightarrow> (case b of JObj e \<Rightarrow> length d = length e \<and> eq_members d e | _ \<Rightarrow> False)
    | _ \<Rightarrow> num_value a = num_value b)"
| "eq_items [] [] = True"
| "eq_items (x # xs) (y # ys) = (json_eq x y \<and> eq_items xs ys)"
| "eq_items _ _ = False"
| "eq_members [] e = True"
| "eq_members ((k, v) # d) e = ((case map_of e k of None \<Rightarrow> False | Some w \<Rightarrow> json_eq v w) \<and> eq_members d e)"

declare json_eq.simps [simp del]

text \<open>\<open>==\<close> outside a container, where \<open>NaN\<close> is not equal to itself.\<close>

definition value_eq :: "json \<Rightarrow> json \<Rightarrow> bool" where
  "value_eq a b \<longleftrightarrow> a \<noteq> JNaN \<and> json_eq a b"

section \<open>Ownership markers\<close>

definition MEMTOMEM_NAME_PREFIX :: string where
  "MEMTOMEM_NAME_PREFIX = ''memtomem-''"

definition MEMTOMEM_STATUS_PREFIX :: string where
  "MEMTOMEM_STATUS_PREFIX = ''memtomem '' @ [CHR 0xB7] @ '' ''"

definition carries_prefix :: "string \<Rightarrow> json \<Rightarrow> bool" where
  "carries_prefix p v = (case v of JStr s \<Rightarrow> take (length p) s = p | _ \<Rightarrow> False)"

definition handler_is_memtomem_owned :: "json \<Rightarrow> bool" where
  "handler_is_memtomem_owned handler = (case handler of
      JObj h \<Rightarrow> carries_prefix MEMTOMEM_NAME_PREFIX (j_get h ''name'') \<or> carries_prefix MEMTOMEM_STATUS_PREFIX (j_get h ''statusMessage'')
    | _ \<Rightarrow> False)"

definition rule_handlers :: "json \<Rightarrow> json list option" where
  "rule_handlers rule = (case rule of JObj r \<Rightarrow> (case j_get r ''hooks'' of JArr hs \<Rightarrow> Some hs | _ \<Rightarrow> None) | _ \<Rightarrow> None)"

definition rule_is_memtomem_owned :: "json \<Rightarrow> bool" where
  "rule_is_memtomem_owned rule = (case rule_handlers rule of None \<Rightarrow> False | Some hs \<Rightarrow> list_ex handler_is_memtomem_owned hs)"

definition rule_commands :: "json \<Rightarrow> string list" where
  "rule_commands rule = (case rule_handlers rule of None \<Rightarrow> []
    | Some hs \<Rightarrow> List.map_filter (\<lambda>h. case h of JObj d \<Rightarrow> (case j_get d ''command'' of JStr c \<Rightarrow> Some c | _ \<Rightarrow> None) | _ \<Rightarrow> None) hs)"

definition strip_handler :: "json \<Rightarrow> json" where
  "strip_handler h = (case h of JObj d \<Rightarrow> JObj (filter (\<lambda>(k, _). k \<noteq> ''name'' \<and> k \<noteq> ''statusMessage'') d) | _ \<Rightarrow> h)"

definition strip_ownership_markers :: "members \<Rightarrow> members" where
  "strip_ownership_markers rule = (case rule_handlers (JObj rule) of None \<Rightarrow> rule
    | Some hs \<Rightarrow> od_set ''hooks'' (JArr (map strip_handler hs)) rule)"

definition rule_content_equal :: "json \<Rightarrow> json \<Rightarrow> bool" where
  "rule_content_equal a b = (case (a, b) of
      (JObj x, JObj y) \<Rightarrow> json_eq (JObj (strip_ownership_markers x)) (JObj (strip_ownership_markers y))
    | _ \<Rightarrow> value_eq a b)"

definition stamp_handler :: "string \<Rightarrow> json \<Rightarrow> json" where
  "stamp_handler event handler = (case handler of
      JObj h \<Rightarrow>
        if j_get h ''type'' \<noteq> JStr ''command'' then handler
        else (case j_get h ''statusMessage'' of
            JStr s \<Rightarrow> if carries_prefix MEMTOMEM_STATUS_PREFIX (JStr s) then handler
              else JObj (od_set ''statusMessage'' (JStr (MEMTOMEM_STATUS_PREFIX @ s)) h)
          | _ \<Rightarrow> JObj (od_set ''statusMessage'' (JStr (MEMTOMEM_STATUS_PREFIX @ event)) h))
    | _ \<Rightarrow> handler)"

definition stamp_rule :: "string \<Rightarrow> json \<Rightarrow> json" where
  "stamp_rule event rule = (case (rule, rule_handlers rule) of
      (JObj r, Some hs) \<Rightarrow> JObj (od_set ''hooks'' (JArr (map (stamp_handler event) hs)) r)
    | _ \<Rightarrow> rule)"

definition stamp_event :: "string \<times> json \<Rightarrow> string \<times> json" where
  "stamp_event = (\<lambda>(event, rules). (event, case rules of JArr rs \<Rightarrow> JArr (map (stamp_rule event) rs) | _ \<Rightarrow> rules))"

definition stamp_status_markers :: "members \<Rightarrow> members" where
  "stamp_status_markers contributions = (case j_get_or contributions ''hooks'' (JObj []) of
      JObj src \<Rightarrow> od_set ''hooks'' (JObj (map stamp_event src)) contributions
    | _ \<Rightarrow> contributions)"

section \<open>Dropping malformed matchers\<close>

datatype hook_warning =
    NonStringDropped string
  | OwnedRemoved string
  | NoMarker string json
  | UserRuleWins string json
  | NoCodexEvent string
  | NoGeminiEvent string
  | SessionEndNonString
  | SessionEndDead string
  | TimeoutClamped json
  | UnmappedTokens string json "string list"

text \<open>\<open>rule.get("matcher", "")\<close>: a rule without one matches everything.\<close>

definition rule_matcher :: "json \<Rightarrow> json" where
  "rule_matcher rule = (case rule of JObj r \<Rightarrow> j_get_or r ''matcher'' (JStr '''') | _ \<Rightarrow> JStr '''')"

definition is_obj :: "json \<Rightarrow> bool" where
  "is_obj v = (case v of JObj _ \<Rightarrow> True | _ \<Rightarrow> False)"

definition is_str :: "json \<Rightarrow> bool" where
  "is_str v = (case v of JStr _ \<Rightarrow> True | _ \<Rightarrow> False)"

definition malformed_rule :: "json \<Rightarrow> bool" where
  "malformed_rule rule \<longleftrightarrow> is_obj rule \<and> \<not> is_str (rule_matcher rule)"

definition drop_event :: "string \<times> json \<Rightarrow> string \<times> json" where
  "drop_event = (\<lambda>(event, rules). (event, case rules of JArr rs \<Rightarrow> JArr (filter (\<lambda>r. \<not> malformed_rule r) rs) | _ \<Rightarrow> rules))"

definition drop_warnings :: "string \<times> json \<Rightarrow> hook_warning list" where
  "drop_warnings = (\<lambda>(event, rules). case rules of JArr rs \<Rightarrow> map (\<lambda>_. NonStringDropped event) (filter malformed_rule rs) | _ \<Rightarrow> [])"

definition drop_nonstring_matchers :: "members \<Rightarrow> members \<times> hook_warning list" where
  "drop_nonstring_matchers contributions = (case j_get contributions ''hooks'' of
      JObj src \<Rightarrow> let warnings = concat (map drop_warnings src)
        in if warnings = [] then (contributions, [])
           else (od_set ''hooks'' (JObj (map drop_event src)) contributions, warnings)
    | _ \<Rightarrow> (contributions, []))"

section \<open>The merge\<close>

datatype merge_error = RootNotObject | HooksNotRecord | EventNotList string | UnhashableMatcher

definition unhashable_key :: "json \<Rightarrow> bool" where
  "unhashable_key v = (case v of JArr _ \<Rightarrow> True | JObj _ \<Rightarrow> True | _ \<Rightarrow> False)"

text \<open>The contributions of one event, each with its position: its identity.\<close>

type_synonym queued = "(nat \<times> json) list"

definition queue_of :: "queued \<Rightarrow> string \<Rightarrow> queued" where
  "queue_of cs m = filter (\<lambda>(_, c). rule_matcher c = JStr m) cs"

text \<open>
  The first pass walks the rules of the target: an owned one is replaced by the next contribution
  of its matcher that is not consumed, or dropped; every other rule stays where it is.
\<close>

fun place_owned :: "string \<Rightarrow> queued \<Rightarrow> json list \<Rightarrow> (string \<Rightarrow> nat) \<Rightarrow> json list \<times> nat list \<times> hook_warning list" where
  "place_owned event cs [] consumed = ([], [], [])"
| "place_owned event cs (r # rs) consumed =
     (if rule_is_memtomem_owned r
      then (case rule_matcher r of
          JStr m \<Rightarrow>
            (let queue = queue_of cs m; idx = consumed m
             in if idx < length queue
                then let (out, placed, ws) = place_owned event cs rs (consumed(m := idx + 1))
                     in (snd (queue ! idx) # out, fst (queue ! idx) # placed, ws)
                else place_owned event cs rs consumed)
        | _ \<Rightarrow> let (out, placed, ws) = place_owned event cs rs consumed in (out, placed, OwnedRemoved event # ws))
      else let (out, placed, ws) = place_owned event cs rs consumed in (r # out, placed, ws))"

text \<open>The second pass: a contribution not placed joins unless a user rule has its matcher.\<close>

definition same_user :: "json list \<Rightarrow> json \<Rightarrow> json list" where
  "same_user result c = filter (\<lambda>r. is_obj r \<and> value_eq (rule_matcher r) (rule_matcher c) \<and> \<not> rule_is_memtomem_owned r) result"

fun add_contributions :: "string \<Rightarrow> nat list \<Rightarrow> queued \<Rightarrow> json list \<Rightarrow> json list \<times> hook_warning list" where
  "add_contributions event placed [] result = (result, [])"
| "add_contributions event placed ((i, c) # cs) result =
     (if i \<in> set placed then add_contributions event placed cs result
      else let users = same_user result c
        in if users = [] then add_contributions event placed cs (result @ [c])
           else if list_ex (\<lambda>u. rule_content_equal u c) users then add_contributions event placed cs result
           else let (out, ws) = add_contributions event placed cs result
             in (out, (if list_ex (\<lambda>u. \<exists>x \<in> set (rule_commands c). x \<in> set (rule_commands u)) users
                       then NoMarker event (rule_matcher c) else UserRuleWins event (rule_matcher c)) # ws))"

definition merge_event :: "string \<Rightarrow> json list \<Rightarrow> json list \<Rightarrow> json list \<times> hook_warning list" where
  "merge_event event rules existing =
     (let cs = enumerate 0 (filter is_obj rules);
          (kept, placed, ws) = place_owned event cs existing (\<lambda>_. 0);
          (out, ws') = add_contributions event placed cs kept
      in (out, ws @ ws'))"

fun merge_events :: "members \<Rightarrow> members \<Rightarrow> (merge_error, members \<times> hook_warning list) result" where
  "merge_events [] hooks = Inr (hooks, [])"
| "merge_events ((event, JArr rules) # contrib) hooks = (case map_of hooks event of
      None \<Rightarrow> merge_events contrib (if rules = [] then hooks else od_set event (JArr rules) hooks)
    | Some (JArr existing) \<Rightarrow>
        if list_ex (\<lambda>c. unhashable_key (rule_matcher c)) (filter is_obj rules) then Inl UnhashableMatcher
        else let (out, ws) = merge_event event rules existing
             in bind_res (merge_events contrib (od_set event (JArr out) hooks)) (\<lambda>(h, ws'). Inr (h, ws @ ws'))
    | Some _ \<Rightarrow> Inl (EventNotList event))"
| "merge_events (_ # contrib) hooks = merge_events contrib hooks"

text \<open>Events the canonical record does not name: owned rules go, an event left empty goes with them.\<close>

definition prune_event :: "string list \<Rightarrow> string \<times> json \<Rightarrow> (string \<times> json) list" where
  "prune_event emitted = (\<lambda>(event, rules). case rules of
      JArr rs \<Rightarrow> let kept = filter (\<lambda>r. \<not> rule_is_memtomem_owned r) rs
        in if event \<in> set emitted \<or> length kept = length rs then [(event, rules)]
           else if kept \<noteq> [] then [(event, JArr kept)] else []
    | _ \<Rightarrow> [(event, rules)])"

definition prune_warnings :: "string list \<Rightarrow> string \<times> json \<Rightarrow> hook_warning list" where
  "prune_warnings emitted = (\<lambda>(event, rules). case rules of
      JArr rs \<Rightarrow> if event \<in> set emitted then []
        else map (\<lambda>_. OwnedRemoved event) (filter (\<lambda>r. rule_is_memtomem_owned r \<and> \<not> is_str (rule_matcher r)) rs)
    | _ \<Rightarrow> [])"

definition contributed_hooks :: "members \<Rightarrow> members" where
  "contributed_hooks contributions = (case j_get_or contributions ''hooks'' (JObj []) of JObj h \<Rightarrow> h | _ \<Rightarrow> [])"

text \<open>The document's members, and its hooks record, or the refusal of another shape.\<close>

definition root_members :: "json \<Rightarrow> (merge_error, members) result" where
  "root_members existing = (case existing of JNull \<Rightarrow> Inr [] | JObj d \<Rightarrow> Inr d | _ \<Rightarrow> Inl RootNotObject)"

definition raw_hooks :: "members \<Rightarrow> (merge_error, members) result" where
  "raw_hooks merged = (case j_get_or merged ''hooks'' (JObj []) of JNull \<Rightarrow> Inr [] | JObj h \<Rightarrow> Inr h | _ \<Rightarrow> Inl HooksNotRecord)"

definition merge_hooks_record :: "json \<Rightarrow> members \<Rightarrow> (merge_error, members \<times> hook_warning list) result" where
  "merge_hooks_record existing contributions =
     bind_res (root_members existing) (\<lambda>merged.
     let contrib = contributed_hooks contributions
     in bind_res (raw_hooks merged) (\<lambda>raw.
     bind_res (merge_events contrib raw) (\<lambda>(worked, ws).
     let hooks = concat (map (prune_event (od_keys contrib)) worked);
         ws' = concat (map (prune_warnings (od_keys contrib)) worked)
     in Inr (if ''hooks'' \<in> set (od_keys merged) \<or> hooks \<noteq> [] then od_set ''hooks'' (JObj hooks) merged else merged, ws @ ws'))))"

section \<open>The generators\<close>

datatype runtime = Claude | Codex | Gemini

definition CODEX_EVENTS :: "string list" where
  "CODEX_EVENTS = [''SessionStart'', ''SessionEnd'', ''SubagentStart'', ''PreToolUse'', ''PermissionRequest'', ''PostToolUse'',
     ''PreCompact'', ''PostCompact'', ''UserPromptSubmit'', ''SubagentStop'', ''Stop'']"

definition GEMINI_EVENT_MAP :: "(string \<times> string) list" where
  "GEMINI_EVENT_MAP = [(''PreToolUse'', ''BeforeTool''), (''PostToolUse'', ''AfterTool''), (''SessionStart'', ''SessionStart''),
     (''SessionEnd'', ''SessionEnd''), (''Notification'', ''Notification''), (''PreCompact'', ''PreCompress''),
     (''UserPromptSubmit'', ''BeforeAgent''), (''Stop'', ''AfterAgent'')]"

definition GEMINI_TOOL_EVENTS :: "string list" where
  "GEMINI_TOOL_EVENTS = [''BeforeTool'', ''AfterTool'', ''BeforeToolSelection'']"

definition GEMINI_TOOL_MAP :: "(string \<times> string) list" where
  "GEMINI_TOOL_MAP = [(''Bash'', ''run_shell_command''), (''Edit'', ''replace''), (''MultiEdit'', ''replace''),
     (''Write'', ''write_file''), (''Read'', ''read_file'')]"

definition CODEX_SESSION_END_MAX_TIMEOUT :: int where
  "CODEX_SESSION_END_MAX_TIMEOUT = 3"

definition CODEX_SESSION_END_DEAD_MATCHERS :: "string list" where
  "CODEX_SESSION_END_DEAD_MATCHERS = [''clear'', ''resume'', ''logout'', ''prompt_input_exit'', ''bypass_permissions_disabled'']"

definition over_limit :: "json \<Rightarrow> bool" where
  "over_limit v = (case v of
      JInt i \<Rightarrow> CODEX_SESSION_END_MAX_TIMEOUT < i
    | JFloat r \<Rightarrow> real_of_int CODEX_SESSION_END_MAX_TIMEOUT < r
    | JInfinite negative \<Rightarrow> \<not> negative
    | _ \<Rightarrow> False)"

definition clamp_handler :: "json \<Rightarrow> json \<times> hook_warning list" where
  "clamp_handler handler = (case handler of
      JObj h \<Rightarrow> if over_limit (j_get h ''timeout'')
        then (JObj (od_set ''timeout'' (JInt CODEX_SESSION_END_MAX_TIMEOUT) h), [TimeoutClamped (j_get h ''timeout'')])
        else (handler, [])
    | _ \<Rightarrow> (handler, []))"

fun clamp_codex_session_end :: "json list \<Rightarrow> json list \<times> hook_warning list" where
  "clamp_codex_session_end [] = ([], [])"
| "clamp_codex_session_end (JObj r # rules) =
     (let (kept, ws) = clamp_codex_session_end rules
      in case rule_matcher (JObj r) of
          JStr m \<Rightarrow>
            if m \<in> set CODEX_SESSION_END_DEAD_MATCHERS then (kept, SessionEndDead m # ws)
            else (case rule_handlers (JObj r) of
                None \<Rightarrow> (JObj r # kept, ws)
              | Some hs \<Rightarrow> (JObj (od_set ''hooks'' (JArr (map (fst \<circ> clamp_handler) hs)) r) # kept,
                  concat (map (snd \<circ> clamp_handler) hs) @ ws))
        | _ \<Rightarrow> (kept, SessionEndNonString # ws))"
| "clamp_codex_session_end (rule # rules) =
     (let (kept, ws) = clamp_codex_session_end rules in (rule # kept, ws))"

fun codex_events :: "members \<Rightarrow> members \<times> hook_warning list" where
  "codex_events [] = ([], [])"
| "codex_events ((event, rules) # src) =
     (let (out, ws) = codex_events src
      in if event \<notin> set CODEX_EVENTS then (out, NoCodexEvent event # ws)
         else if event = ''SessionEnd''
         then (case rules of
             JArr rs \<Rightarrow> let (kept, ws') = clamp_codex_session_end rs
               in (if kept = [] then out else (event, JArr kept) # out, ws' @ ws)
           | _ \<Rightarrow> ((event, rules) # out, ws))
         else ((event, rules) # out, ws))"

definition filter_codex_events :: "members \<Rightarrow> members \<times> hook_warning list" where
  "filter_codex_events contributions = (case j_get_or contributions ''hooks'' (JObj []) of
      JObj src \<Rightarrow> let (out, ws) = codex_events src in ([(''hooks'', JObj out)], ws)
    | _ \<Rightarrow> ([(''hooks'', JObj [])], []))"

definition space_char :: "char \<Rightarrow> bool" where
  "space_char c = is_space (of_char c)"

definition strip_with :: "(char \<Rightarrow> bool) \<Rightarrow> string \<Rightarrow> string" where
  "strip_with p s = rev (dropWhile p (rev (dropWhile p s)))"

definition map_gemini_matcher :: "string \<Rightarrow> string option \<times> string list" where
  "map_gemini_matcher matcher =
     (let tokens = filter (\<lambda>t. t \<noteq> []) (map (strip_with space_char) (split_on CHR ''|'' (strip_with space_char matcher)));
          unmapped = filter (\<lambda>t. map_of GEMINI_TOOL_MAP t = None) tokens;
          mapped = rev (remdups (rev (List.map_filter (map_of GEMINI_TOOL_MAP) tokens)))
      in if unmapped \<noteq> [] then (None, unmapped)
         else (Some (if mapped = [] then ''*'' else join_with ''|'' mapped), []))"

text \<open>\<open>re.sub(r"[^A-Za-z0-9_.-]+", "-", s)\<close>: every run of other characters becomes one dash.\<close>

definition slug_char :: "char \<Rightarrow> bool" where
  "slug_char c \<longleftrightarrow> (let n = of_char c :: nat in (48 \<le> n \<and> n \<le> 57) \<or> (65 \<le> n \<and> n \<le> 90) \<or> (97 \<le> n \<and> n \<le> 122)) \<or> c \<in> set ''_.-''"

fun dash_runs :: "bool \<Rightarrow> string \<Rightarrow> string" where
  "dash_runs in_run [] = []"
| "dash_runs in_run (c # cs) =
     (if slug_char c then c # dash_runs False cs
      else if in_run then dash_runs True cs else CHR ''-'' # dash_runs True cs)"

definition gemini_slug :: "string \<Rightarrow> string" where
  "gemini_slug matcher =
     (let s = strip_with (\<lambda>c. c = CHR ''-'') (dash_runs False (if matcher = [] then ''all'' else matcher))
      in if s = [] then ''all'' else s)"

definition scaled_timeout :: "json \<Rightarrow> json" where
  "scaled_timeout v = (case v of JInt i \<Rightarrow> JInt (i * 1000) | JFloat r \<Rightarrow> JFloat (r * 1000) | _ \<Rightarrow> v)"

definition gemini_handler ::
  "(string \<Rightarrow> nat \<Rightarrow> string \<Rightarrow> string) \<Rightarrow> string \<Rightarrow> string \<Rightarrow> string \<Rightarrow> nat \<Rightarrow> members \<Rightarrow> json" where
  "gemini_handler digest event matcher original idx h =
     (let h1 = (if ''timeout'' \<in> set (od_keys h) then od_set ''timeout'' (scaled_timeout (j_get h ''timeout'')) h else h);
          command = (case j_get h ''command'' of JStr c \<Rightarrow> c | _ \<Rightarrow> '''')
      in JObj (od_set ''name'' (JStr (''memtomem-'' @ event @ ''-'' @ gemini_slug matcher @ ''-'' @ digest original idx command)) h1))"

definition ensure_gemini_handler_names ::
  "(string \<Rightarrow> nat \<Rightarrow> string \<Rightarrow> string) \<Rightarrow> json \<Rightarrow> string \<Rightarrow> string \<Rightarrow> string \<Rightarrow> json list" where
  "ensure_gemini_handler_names digest handlers event matcher original = (case handlers of
      JArr hs \<Rightarrow> List.map_filter (\<lambda>(idx, h). case h of JObj d \<Rightarrow> Some (gemini_handler digest event matcher original idx d) | _ \<Rightarrow> None)
        (enumerate 0 hs)
    | _ \<Rightarrow> [])"

text \<open>
  One rule of an event that Gemini has. The matcher is a string: malformed ones were dropped before.
\<close>

definition remap_rule ::
  "(string \<Rightarrow> nat \<Rightarrow> string \<Rightarrow> string) \<Rightarrow> string \<Rightarrow> string \<Rightarrow> members \<Rightarrow> json option \<times> hook_warning list" where
  "remap_rule digest event gemini_event r =
     (let matcher = (case rule_matcher (JObj r) of JStr m \<Rightarrow> m | _ \<Rightarrow> '''');
          named = (\<lambda>r' m. JObj (od_set ''hooks'' (JArr (ensure_gemini_handler_names digest (j_get_or r ''hooks'' (JArr [])) gemini_event m matcher)) r'))
      in if gemini_event \<in> set GEMINI_TOOL_EVENTS
         then (case map_gemini_matcher matcher of
             (None, unmapped) \<Rightarrow> (None, [UnmappedTokens event (JStr matcher) unmapped])
           | (Some m, _) \<Rightarrow> (Some (named (od_set ''matcher'' (JStr m) r) m), []))
         else (Some (named r matcher), []))"

fun remap_rules ::
  "(string \<Rightarrow> nat \<Rightarrow> string \<Rightarrow> string) \<Rightarrow> string \<Rightarrow> string \<Rightarrow> json list \<Rightarrow> members \<Rightarrow> members \<times> hook_warning list" where
  "remap_rules digest event gemini_event [] out = (out, [])"
| "remap_rules digest event gemini_event (JObj r # rules) out = (case remap_rule digest event gemini_event r of
      (None, ws) \<Rightarrow> let (out', ws') = remap_rules digest event gemini_event rules out in (out', ws @ ws')
    | (Some r', ws) \<Rightarrow>
        let earlier = (case j_get out gemini_event of JArr rs \<Rightarrow> rs | _ \<Rightarrow> []);
            (out', ws') = remap_rules digest event gemini_event rules (od_set gemini_event (JArr (earlier @ [r'])) out)
        in (out', ws @ ws'))"
| "remap_rules digest event gemini_event (_ # rules) out = remap_rules digest event gemini_event rules out"

fun remap_events :: "(string \<Rightarrow> nat \<Rightarrow> string \<Rightarrow> string) \<Rightarrow> members \<Rightarrow> members \<Rightarrow> members \<times> hook_warning list" where
  "remap_events digest [] out = (out, [])"
| "remap_events digest ((event, rules) # src) out = (case map_of GEMINI_EVENT_MAP event of
      None \<Rightarrow> let (out', ws) = remap_events digest src out in (out', NoGeminiEvent event # ws)
    | Some gemini_event \<Rightarrow>
        let (out1, ws) = (case rules of JArr rs \<Rightarrow> remap_rules digest event gemini_event rs out | _ \<Rightarrow> (out, []));
            (out2, ws') = remap_events digest src out1
        in (out2, ws @ ws'))"

definition remap_for_gemini :: "(string \<Rightarrow> nat \<Rightarrow> string \<Rightarrow> string) \<Rightarrow> members \<Rightarrow> members \<times> hook_warning list" where
  "remap_for_gemini digest contributions = (case j_get_or contributions ''hooks'' (JObj []) of
      JObj src \<Rightarrow> let (out, ws) = remap_events digest src [] in ([(''hooks'', JObj out)], ws)
    | _ \<Rightarrow> ([(''hooks'', JObj [])], []))"

text \<open>What each runtime is offered, and its merge.\<close>

definition offered :: "(string \<Rightarrow> nat \<Rightarrow> string \<Rightarrow> string) \<Rightarrow> runtime \<Rightarrow> members \<Rightarrow> members \<times> hook_warning list" where
  "offered digest rt contributions =
     (let (clean, ws) = drop_nonstring_matchers contributions
      in case rt of
          Claude \<Rightarrow> (stamp_status_markers clean, ws)
        | Codex \<Rightarrow> let (filtered, ws') = filter_codex_events clean in (stamp_status_markers filtered, ws @ ws')
        | Gemini \<Rightarrow> let (remapped, ws') = remap_for_gemini digest clean in (remapped, ws @ ws'))"

definition gen_merge ::
  "(string \<Rightarrow> nat \<Rightarrow> string \<Rightarrow> string) \<Rightarrow> runtime \<Rightarrow> json \<Rightarrow> members \<Rightarrow> (merge_error, members \<times> hook_warning list) result" where
  "gen_merge digest rt existing contributions =
     (let (contrib, ws) = offered digest rt contributions
      in bind_res (merge_hooks_record existing contrib) (\<lambda>(merged, ws'). Inr (merged, ws @ ws')))"

section \<open>Synchronising one target, and the dry run\<close>

datatype file_read = Missing | Malformed | Document members

datatype sync_status = SyncOk | SyncSkipped | SyncError | SyncAborted | NeedsConfirmation

text \<open>What one pass of \<open>generate_all_settings\<close> over a generator finds, in the order it looks.\<close>

record sync_view =
  sv_abandoned_first :: bool
  sv_available :: bool
  sv_canonical :: file_read
  sv_has_target :: bool
  sv_planned :: string
  sv_inside :: bool
  sv_lock_free :: bool
  sv_abandoned_locked :: bool
  sv_canonical_locked :: file_read
  sv_destination :: "string option"
  sv_existing :: file_read
  sv_unmodified :: bool
  sv_abandoned_last :: bool

definition existing_json :: "file_read \<Rightarrow> json" where
  "existing_json f = (case f of Document d \<Rightarrow> JObj d | _ \<Rightarrow> JNull)"

text \<open>The status, the warnings, and the file written with its new content.\<close>

definition sync_target ::
  "(string \<Rightarrow> nat \<Rightarrow> string \<Rightarrow> string) \<Rightarrow> runtime \<Rightarrow> bool \<Rightarrow> sync_view
    \<Rightarrow> sync_status \<times> hook_warning list \<times> (string \<times> members) option" where
  "sync_target digest rt allow_host_writes v =
     (if sv_abandoned_first v then (SyncAborted, [], None)
      else if \<not> sv_available v then (SyncSkipped, [], None)
      else case sv_canonical v of
          Missing \<Rightarrow> (SyncSkipped, [], None)
        | Malformed \<Rightarrow> (SyncError, [], None)
        | Document _ \<Rightarrow>
        if \<not> sv_has_target v then (SyncSkipped, [], None)
        else if \<not> allow_host_writes \<and> \<not> sv_inside v then (NeedsConfirmation, [], None)
        else if \<not> sv_lock_free v \<or> sv_abandoned_locked v then (SyncAborted, [], None)
        else case sv_canonical_locked v of
            Missing \<Rightarrow> (SyncSkipped, [], None)
          | Malformed \<Rightarrow> (SyncError, [], None)
          | Document contributions \<Rightarrow> (case sv_destination v of
              None \<Rightarrow> (SyncError, [], None)
            | Some path \<Rightarrow>
                if path \<noteq> sv_planned v then (SyncAborted, [], None)
                else if sv_existing v = Malformed then (SyncError, [], None)
                else case gen_merge digest rt (existing_json (sv_existing v)) contributions of
                    Inl _ \<Rightarrow> (SyncError, [], None)
                  | Inr (merged, ws) \<Rightarrow>
                      if \<not> sv_unmodified v \<or> sv_abandoned_last v then (SyncAborted, [], None)
                      else (SyncOk, ws, Some (path, merged))))"

text \<open>\<open>json.dumps(data, sort_keys=True)\<close>, as far as it tells documents apart.\<close>

fun sorted_doc :: "json \<Rightarrow> json" where
  "sorted_doc (JArr xs) = JArr (map sorted_doc xs)"
| "sorted_doc (JObj d) = JObj (sort_key fst (map (\<lambda>(k, v). (k, sorted_doc v)) d))"
| "sorted_doc v = v"

datatype diff_status = InSync | OutOfSync | MissingTarget | DiffSkipped | DiffError

definition diff_target ::
  "(string \<Rightarrow> nat \<Rightarrow> string \<Rightarrow> string) \<Rightarrow> runtime \<Rightarrow> bool \<Rightarrow> file_read \<Rightarrow> bool \<Rightarrow> file_read \<Rightarrow> diff_status \<times> hook_warning list" where
  "diff_target digest rt available canonical has_target existing =
     (if \<not> available then (DiffSkipped, [])
      else case canonical of
          Missing \<Rightarrow> (DiffSkipped, [])
        | Malformed \<Rightarrow> (DiffError, [])
        | Document contributions \<Rightarrow>
            if \<not> has_target then (DiffSkipped, [])
            else if existing = Malformed then (DiffError, [])
            else case gen_merge digest rt (existing_json existing) contributions of
                Inl _ \<Rightarrow> (DiffError, [])
              | Inr (merged, ws) \<Rightarrow>
                  ((case existing of
                      Document d \<Rightarrow> if sorted_doc (JObj d) = sorted_doc (JObj merged) then InSync else OutOfSync
                    | _ \<Rightarrow> MissingTarget), ws))"

section \<open>User rules survive\<close>

abbreviation user_rules :: "json list \<Rightarrow> json list" where
  "user_rules rs \<equiv> filter (\<lambda>r. \<not> rule_is_memtomem_owned r) rs"

definition rules_at :: "members \<Rightarrow> string \<Rightarrow> json list" where
  "rules_at hooks event = (case map_of hooks event of Some (JArr rs) \<Rightarrow> rs | _ \<Rightarrow> [])"

lemma owned_obj: "rule_is_memtomem_owned r \<Longrightarrow> is_obj r"
  by (cases r) (auto simp: rule_is_memtomem_owned_def rule_handlers_def is_obj_def)

lemma queue_in: "k < length (queue_of cs m) \<Longrightarrow> queue_of cs m ! k \<in> set cs \<and> rule_matcher (snd (queue_of cs m ! k)) = JStr m"
  using nth_mem[of k "queue_of cs m"] by (auto simp: queue_of_def)

text \<open>The four steps of the first pass, as rewrite rules and as an induction rule.\<close>

definition take_slot :: "('k \<Rightarrow> nat) \<Rightarrow> 'k \<Rightarrow> 'k \<Rightarrow> nat" where
  "take_slot used m = used(m := used m + 1)"

lemma place_user: "\<not> rule_is_memtomem_owned r \<Longrightarrow> place_owned event cs (r # rs) used =
    (r # fst (place_owned event cs rs used), snd (place_owned event cs rs used))"
  by (simp add: case_prod_beta)

lemma place_hit: "rule_is_memtomem_owned r \<Longrightarrow> rule_matcher r = JStr m \<Longrightarrow> used m < length (queue_of cs m) \<Longrightarrow>
    place_owned event cs (r # rs) used =
      (snd (queue_of cs m ! used m) # fst (place_owned event cs rs (take_slot used m)),
       fst (queue_of cs m ! used m) # fst (snd (place_owned event cs rs (take_slot used m))),
       snd (snd (place_owned event cs rs (take_slot used m))))"
  by (simp add: case_prod_beta Let_def take_slot_def)

lemma place_miss: "rule_is_memtomem_owned r \<Longrightarrow> rule_matcher r = JStr m \<Longrightarrow> \<not> used m < length (queue_of cs m) \<Longrightarrow>
    place_owned event cs (r # rs) used = place_owned event cs rs used"
  by simp

lemma place_bad: "rule_is_memtomem_owned r \<Longrightarrow> \<not> is_str (rule_matcher r) \<Longrightarrow> place_owned event cs (r # rs) used =
    (fst (place_owned event cs rs used), fst (snd (place_owned event cs rs used)), OwnedRemoved event # snd (snd (place_owned event cs rs used)))"
  by (cases "rule_matcher r") (simp_all add: is_str_def case_prod_beta)

lemmas place_steps = place_user place_hit place_miss place_bad

declare place_owned.simps(2) [simp del]

lemma place_induct [case_names Nil user hit miss bad]:
  assumes "\<And>used. P [] used"
    and "\<And>r rs used. \<not> rule_is_memtomem_owned r \<Longrightarrow> P rs used \<Longrightarrow> P (r # rs) used"
    and "\<And>r rs used m. rule_is_memtomem_owned r \<Longrightarrow> rule_matcher r = JStr m \<Longrightarrow> used m < length (queue_of cs m) \<Longrightarrow>
      P rs (take_slot used m) \<Longrightarrow> P (r # rs) used"
    and "\<And>r rs used m. rule_is_memtomem_owned r \<Longrightarrow> rule_matcher r = JStr m \<Longrightarrow> \<not> used m < length (queue_of cs m) \<Longrightarrow>
      P rs used \<Longrightarrow> P (r # rs) used"
    and "\<And>r rs used. rule_is_memtomem_owned r \<Longrightarrow> \<not> is_str (rule_matcher r) \<Longrightarrow> P rs used \<Longrightarrow> P (r # rs) used"
  shows "P rs used"
proof (induction rs arbitrary: used)
  case (Cons r rs)
  show ?case
  proof (cases "rule_is_memtomem_owned r")
    case True
    show ?thesis
    proof (cases "is_str (rule_matcher r)")
      case str: True
      then obtain m where m: "rule_matcher r = JStr m" by (auto simp: is_str_def split: json.splits)
      show ?thesis by (cases "used m < length (queue_of cs m)") (use assms(3,4)[OF True m] Cons in auto)
    qed (use assms(5) True Cons in auto)
  qed (use assms(2) Cons in auto)
qed (rule assms(1))

lemma place_users: "subseq (user_rules rs) (fst (place_owned event cs rs used))"
  by (induction rs used rule: place_induct[where cs = cs]) (simp_all add: place_steps list_emb_Cons)

lemma place_set: "set (fst (place_owned event cs rs used)) \<subseteq> set (user_rules rs) \<union> snd ` set cs"
proof (induction rs used rule: place_induct[where cs = cs])
  case (hit r rs used m)
  then show ?case using queue_in[OF hit(3)] by (auto simp: place_hit)
qed (auto simp: place_steps)

lemma add_extends: "\<exists>extra. fst (add_contributions event placed cs result) = result @ extra \<and> set extra \<subseteq> snd ` set cs"
proof (induction event placed cs result rule: add_contributions.induct)
  case (2 event placed i c cs result)
  show ?case
  proof (cases "i \<in> set placed \<or> same_user result c \<noteq> []")
    case True
    then have "fst (add_contributions event placed ((i, c) # cs) result) = fst (add_contributions event placed cs result)"
      by (auto simp: Let_def case_prod_beta)
    with True 2 show ?thesis by (fastforce simp: Let_def)
  next
    case False
    then obtain extra where "fst (add_contributions event placed cs (result @ [c])) = result @ c # extra" "set extra \<subseteq> snd ` set cs"
      using 2(2) by auto
    with False show ?thesis by (intro exI[of _ "c # extra"]) auto
  qed
qed simp

lemma merge_event_split: "\<exists>extra. fst (merge_event event rules existing) =
    fst (place_owned event (enumerate 0 (filter is_obj rules)) existing (\<lambda>_. 0)) @ extra \<and> set extra \<subseteq> set rules"
proof -
  have "snd ` set (enumerate 0 (filter is_obj rules)) \<subseteq> set rules" by (metis filter_is_subset list.set_map map_snd_enumerate)
  then show ?thesis using add_extends[of event _ "enumerate 0 (filter is_obj rules)"]
    by (simp add: merge_event_def case_prod_beta Let_def) (metis (no_types, lifting) subset_trans)
qed

lemma merge_event_users: "subseq (user_rules existing) (fst (merge_event event rules existing))"
  using merge_event_split place_users by (metis subseq_order.trans subseq_rev_drop_many list_emb_append2 prefix_imp_subseq prefixI)

lemma merge_event_set: "set (fst (merge_event event rules existing)) \<subseteq> set (user_rules existing) \<union> set rules"
proof -
  have cs: "snd ` set (enumerate 0 (filter is_obj rules)) \<subseteq> set rules" by (metis filter_is_subset list.set_map map_snd_enumerate)
  obtain extra where "fst (merge_event event rules existing) =
      fst (place_owned event (enumerate 0 (filter is_obj rules)) existing (\<lambda>_. 0)) @ extra" "set extra \<subseteq> set rules"
    using merge_event_split by blast
  then show ?thesis using place_set[of event "enumerate 0 (filter is_obj rules)" existing "\<lambda>_. 0"] cs by auto
qed

section \<open>The merge, event by event\<close>

text \<open>What the loop over the contributed events leaves at one event, and the warnings it gives.\<close>

definition event_outcome :: "string \<Rightarrow> json option \<Rightarrow> json option \<Rightarrow> json option" where
  "event_outcome event offer held = (case offer of
      Some (JArr rules) \<Rightarrow> (case held of
          None \<Rightarrow> if rules = [] then None else Some (JArr rules)
        | Some (JArr existing) \<Rightarrow> Some (JArr (fst (merge_event event rules existing)))
        | Some v \<Rightarrow> Some v)
    | _ \<Rightarrow> held)"

definition merged_at :: "members \<Rightarrow> members \<Rightarrow> string \<Rightarrow> json option" where
  "merged_at contrib hooks event = event_outcome event (map_of contrib event) (map_of hooks event)"

definition warned_at :: "members \<Rightarrow> string \<times> json \<Rightarrow> hook_warning list" where
  "warned_at hooks = (\<lambda>(event, rules). case (rules, map_of hooks event) of
      (JArr rs, Some (JArr existing)) \<Rightarrow> snd (merge_event event rs existing)
    | _ \<Rightarrow> [])"

text \<open>One event with a list of rules, as a rewrite rule.\<close>

lemma merge_events_list: "merge_events ((event, JArr rules) # contrib) hooks = Inr (h, ws) \<longleftrightarrow>
    (case map_of hooks event of
      None \<Rightarrow> merge_events contrib (if rules = [] then hooks else od_set event (JArr rules) hooks) = Inr (h, ws)
    | Some v \<Rightarrow> \<exists>existing ws'. v = JArr existing \<and> \<not> list_ex (\<lambda>c. unhashable_key (rule_matcher c)) (filter is_obj rules) \<and>
        merge_events contrib (od_set event (JArr (fst (merge_event event rules existing))) hooks) = Inr (h, ws') \<and>
        ws = snd (merge_event event rules existing) @ ws')"
  by (auto simp: case_prod_beta Let_def bind_res_Inr_conv split: option.split json.split)

lemma merge_events_other: "(\<forall>rules. v \<noteq> JArr rules) \<Longrightarrow> merge_events ((event, v) # contrib) hooks = merge_events contrib hooks"
  by (cases v) simp_all

declare merge_events.simps(2) [simp del]

lemma warned_later: "event \<notin> set (od_keys contrib) \<Longrightarrow> map (warned_at (od_set event v hooks)) contrib = map (warned_at hooks) contrib"
  by (rule map_cong[OF refl]) (auto simp: warned_at_def case_prod_beta image_iff)

lemma outcome_absent [simp]: "event_outcome event None held = held"
  by (simp add: event_outcome_def)

lemma outcome_other: "(\<forall>rules. v \<noteq> JArr rules) \<Longrightarrow> event_outcome event (Some v) held = held"
  by (cases v) (simp_all add: event_outcome_def)

lemma merged_later: "event \<notin> set (od_keys contrib) \<Longrightarrow>
    merged_at contrib (od_set event v hooks) = (merged_at contrib hooks)(event := Some v)"
proof -
  assume "event \<notin> set (od_keys contrib)"
  then have "map_of contrib event = None" by (simp add: map_of_eq_None_iff)
  then show ?thesis by (simp add: merged_at_def fun_eq_iff)
qed

lemma merge_events_at:
  assumes "merge_events contrib hooks = Inr (h, ws)" "od_ok contrib"
  shows "map_of h = merged_at contrib hooks \<and> ws = concat (map (warned_at hooks) contrib)"
  using assms
proof (induction contrib arbitrary: hooks h ws)
  case Nil
  then show ?case by (simp add: merged_at_def event_outcome_def fun_eq_iff)
next
  case (Cons p contrib)
  obtain event v where p: "p = (event, v)" by fastforce
  have new: "event \<notin> set (od_keys contrib)" and ok: "od_ok contrib" using Cons.prems(2) p by simp_all
  then have none: "map_of contrib event = None" by (simp add: map_of_eq_None_iff)
  show ?case
  proof (cases "\<exists>rules. v = JArr rules")
    case False
    then have "warned_at hooks p = []" by (cases v) (simp_all add: p warned_at_def)
    moreover have "merged_at (p # contrib) hooks = merged_at contrib hooks"
      using False none by (simp add: p merged_at_def outcome_other fun_eq_iff)
    ultimately show ?thesis using Cons.IH[OF _ ok, of hooks h ws] Cons.prems(1) False by (simp add: p merge_events_other)
  next
    case True
    then obtain rules where v: "v = JArr rules" by blast
    have at: "merged_at (p # contrib) hooks = (merged_at contrib hooks)(event := event_outcome event (Some v) (map_of hooks event))"
      by (rule ext) (simp add: p merged_at_def)
    show ?thesis
    proof (cases "map_of hooks event")
      case None
      have rest: "merge_events contrib (if rules = [] then hooks else od_set event (JArr rules) hooks) = Inr (h, ws)"
        using Cons.prems(1) None by (simp add: p v merge_events_list)
      have "warned_at hooks p = []" using None by (simp add: p v warned_at_def)
      moreover have "merged_at contrib hooks event = None" using none None by (simp add: merged_at_def)
      ultimately show ?thesis using Cons.IH[OF rest ok] new None
        by (cases "rules = []") (auto simp: at v event_outcome_def warned_later merged_later)
    next
      case (Some held)
      then obtain existing ws' where held: "held = JArr existing"
        and rest: "merge_events contrib (od_set event (JArr (fst (merge_event event rules existing))) hooks) = Inr (h, ws')"
        and ws: "ws = snd (merge_event event rules existing) @ ws'"
        using Cons.prems(1) by (auto simp: p v merge_events_list)
      have "warned_at hooks p = snd (merge_event event rules existing)" using Some held by (simp add: p v warned_at_def)
      then show ?thesis using Cons.IH[OF rest ok] ws Some held by (simp add: at v event_outcome_def warned_later[OF new] merged_later[OF new])
    qed
  qed
qed

lemma merge_events_ok: "merge_events contrib hooks = Inr (h, ws) \<Longrightarrow> od_ok hooks \<Longrightarrow> od_ok h"
proof (induction contrib arbitrary: hooks h ws)
  case (Cons p contrib)
  obtain event v where p: "p = (event, v)" by fastforce
  show ?case
  proof (cases "\<exists>rules. v = JArr rules")
    case False
    then show ?thesis using Cons by (simp add: p merge_events_other)
  next
    case True
    then obtain rules where v: "v = JArr rules" by blast
    show ?thesis
    proof (cases "map_of hooks event")
      case None
      then have "merge_events contrib (if rules = [] then hooks else od_set event (JArr rules) hooks) = Inr (h, ws)"
        using Cons.prems(1) by (simp add: p v merge_events_list)
      then show ?thesis by (rule Cons.IH) (simp add: Cons.prems(2))
    next
      case (Some held)
      then obtain w ws' where "merge_events contrib (od_set event w hooks) = Inr (h, ws')"
        using Cons.prems(1) by (auto simp: p v merge_events_list)
      then show ?thesis by (rule Cons.IH) (simp add: Cons.prems(2))
    qed
  qed
qed simp

definition pruned :: "string list \<Rightarrow> string \<Rightarrow> json \<Rightarrow> json option" where
  "pruned emitted event v = (case v of
      JArr rs \<Rightarrow> if event \<in> set emitted \<or> list_all (\<lambda>r. \<not> rule_is_memtomem_owned r) rs then Some v
        else if user_rules rs \<noteq> [] then Some (JArr (user_rules rs)) else None
    | _ \<Rightarrow> Some v)"

lemma filter_all: "length (filter P xs) = length xs \<longleftrightarrow> list_all P xs"
  by (metis filter_True length_filter_less list_all_iff nless_le)

lemma prune_event_eq: "prune_event emitted (event, v) = (case pruned emitted event v of None \<Rightarrow> [] | Some w \<Rightarrow> [(event, w)])"
  by (cases v) (auto simp: prune_event_def pruned_def Let_def filter_all)

lemma prune_at: "od_ok h \<Longrightarrow> map_of (concat (map (prune_event emitted) h)) event = Option.bind (map_of h event) (pruned emitted event)"
proof (induction h)
  case (Cons p h)
  obtain e v where p: "p = (e, v)" by fastforce
  have "map_of h e = None" using Cons.prems p by (simp add: map_of_eq_None_iff)
  with Cons p show ?case by (auto simp: prune_event_eq split: option.split)
qed simp

section \<open>The merge of a document\<close>

definition doc_of :: "json \<Rightarrow> members" where
  "doc_of v = (case v of JObj d \<Rightarrow> d | _ \<Rightarrow> [])"

lemma contributed_set [simp]: "contributed_hooks (od_set ''hooks'' (JObj h) d) = h"
  by (simp add: contributed_hooks_def j_get_or_def)

lemma root_members_conv: "root_members existing = Inr d \<longleftrightarrow> (existing = JNull \<and> d = []) \<or> existing = JObj d"
  by (cases existing) (auto simp: root_members_def)

lemma raw_hooks_conv: "raw_hooks d = Inr h \<longleftrightarrow>
    h = contributed_hooks d \<and> (j_get_or d ''hooks'' (JObj []) = JNull \<or> is_obj (j_get_or d ''hooks'' (JObj [])))"
  by (cases "j_get_or d ''hooks'' (JObj [])") (auto simp: raw_hooks_def contributed_hooks_def is_obj_def)

lemma record_merge:
  assumes "merge_hooks_record existing contrib = Inr (merged, ws)"
  obtains h ws' hooks where
    "merge_events (contributed_hooks contrib) (contributed_hooks (doc_of existing)) = Inr (h, ws')"
    "hooks = concat (map (prune_event (od_keys (contributed_hooks contrib))) h)"
    "merged = (if ''hooks'' \<in> set (od_keys (doc_of existing)) \<or> hooks \<noteq> [] then od_set ''hooks'' (JObj hooks) (doc_of existing) else doc_of existing)"
    "ws = ws' @ concat (map (prune_warnings (od_keys (contributed_hooks contrib))) h)"
    "contributed_hooks merged = hooks"
    "existing = JNull \<or> existing = JObj (doc_of existing)"
proof -
  obtain d h ws' where d: "root_members existing = Inr d" and raw: "raw_hooks d = Inr (contributed_hooks d)"
    and m: "merge_events (contributed_hooks contrib) (contributed_hooks d) = Inr (h, ws')"
    and res: "merged = (let hooks = concat (map (prune_event (od_keys (contributed_hooks contrib))) h)
      in if ''hooks'' \<in> set (od_keys d) \<or> hooks \<noteq> [] then od_set ''hooks'' (JObj hooks) d else d)"
      "ws = ws' @ concat (map (prune_warnings (od_keys (contributed_hooks contrib))) h)"
    using assms by (fastforce simp: merge_hooks_record_def Let_def bind_res_Inr_conv raw_hooks_conv simp del: concat_eq_Nil_conv)
  have doc: "d = doc_of existing" "existing = JNull \<or> existing = JObj d" using d by (auto simp: root_members_conv doc_of_def)
  define hooks where "hooks = concat (map (prune_event (od_keys (contributed_hooks contrib))) h)"
  have "contributed_hooks merged = hooks"
  proof (cases "''hooks'' \<in> set (od_keys d) \<or> hooks \<noteq> []")
    case False
    then have "map_of d ''hooks'' = None" by (simp add: map_of_eq_None_iff)
    then show ?thesis using False res by (simp add: contributed_hooks_def j_get_or_def hooks_def)
  next
    case True
    then show ?thesis using res(1) by (simp only: hooks_def Let_def if_True contributed_set)
  qed
  then show ?thesis using that[OF _ hooks_def] m res doc by (simp only: hooks_def Let_def)
qed

lemma record_keeps: "merge_hooks_record existing contrib = Inr (merged, ws) \<Longrightarrow> k \<noteq> ''hooks'' \<Longrightarrow> map_of merged k = map_of (doc_of existing) k"
  by (erule record_merge) (auto split: if_splits)

lemma record_at:
  assumes "merge_hooks_record existing contrib = Inr (merged, ws)"
    "od_ok (contributed_hooks contrib)" "od_ok (contributed_hooks (doc_of existing))"
  shows "map_of (contributed_hooks merged) e =
    Option.bind (merged_at (contributed_hooks contrib) (contributed_hooks (doc_of existing)) e) (pruned (od_keys (contributed_hooks contrib)) e)"
  using assms(1)
proof (rule record_merge)
  fix h ws' hooks
  assume m: "merge_events (contributed_hooks contrib) (contributed_hooks (doc_of existing)) = Inr (h, ws')"
    and hooks: "hooks = concat (map (prune_event (od_keys (contributed_hooks contrib))) h)" and new: "contributed_hooks merged = hooks"
  show ?thesis unfolding new hooks prune_at[OF merge_events_ok[OF m assms(3)]]
    using merge_events_at[OF m assms(2)] by simp
qed

lemma rules_at_Some: "map_of h e = Some (JArr rs) \<Longrightarrow> rules_at h e = rs"
  by (simp add: rules_at_def)

lemma outcome_rules:
  assumes "event_outcome e offer held = Some (JArr out)"
  obtains rules where "offer = Some (JArr rules)" "held = None" "out = rules"
  | rules existing where "offer = Some (JArr rules)" "held = Some (JArr existing)" "out = fst (merge_event e rules existing)"
  | "\<forall>rules. offer \<noteq> Some (JArr rules)" "held = Some (JArr out)"
  using assms by (auto simp: event_outcome_def split: option.splits json.splits if_splits)

definition rules_of :: "json option \<Rightarrow> json list" where
  "rules_of v = (case v of Some (JArr rs) \<Rightarrow> rs | _ \<Rightarrow> [])"

lemma rules_of_simps [simp]: "rules_of None = []" "rules_of (Some (JArr rs)) = rs" "(\<forall>rs. v \<noteq> JArr rs) \<Longrightarrow> rules_of (Some v) = []"
  by (simp_all add: rules_of_def split: json.split)

lemma rules_at_of: "rules_at h e = rules_of (map_of h e)"
  by (simp add: rules_at_def rules_of_def)

text \<open>What each of the two steps keeps of a list of rules.\<close>

definition keeps_users :: "json list \<Rightarrow> json list \<Rightarrow> json list \<Rightarrow> bool" where
  "keeps_users old offer new \<longleftrightarrow> subseq (user_rules old) new \<and> set new \<subseteq> set old \<union> set offer"

lemma keeps_users_trans:
  assumes "keeps_users a offer b" "keeps_users b [] c"
  shows "keeps_users a offer c"
proof -
  have "subseq (user_rules (user_rules a)) (user_rules b)" using assms(1) by (intro subseq_filter) (simp add: keeps_users_def)
  then have "subseq (user_rules a) (user_rules b)" by simp
  then have "subseq (user_rules a) c" using assms(2) unfolding keeps_users_def by (blast intro: subseq_order.trans)
  then show ?thesis using assms unfolding keeps_users_def by auto
qed

lemma outcome_keeps: "keeps_users (rules_of held) (rules_of offer) (rules_of (event_outcome e offer held))"
proof (cases "\<exists>rules. offer = Some (JArr rules)")
  case True
  then obtain rules where offer: "offer = Some (JArr rules)" by blast
  consider "held = None" | existing where "held = Some (JArr existing)" | v where "held = Some v" "\<forall>rs. v \<noteq> JArr rs"
    by (cases held) auto
  then show ?thesis
  proof cases
    case 2
    then show ?thesis using merge_event_users[of existing e rules] merge_event_set[of e rules existing]
      by (auto simp: offer event_outcome_def keeps_users_def)
  next
    case 3
    then have "event_outcome e offer held = held" by (cases v) (simp_all add: offer event_outcome_def)
    then show ?thesis using 3 by (simp add: keeps_users_def)
  qed (simp add: offer event_outcome_def keeps_users_def)
next
  case False
  then have "event_outcome e offer held = held" by (cases offer) (simp_all add: outcome_other)
  then show ?thesis by (simp add: keeps_users_def)
qed

lemma pruned_keeps: "keeps_users (rules_of v) [] (rules_of (Option.bind v (pruned emitted e)))"
proof (cases "\<exists>rs. v = Some (JArr rs)")
  case True
  then show ?thesis by (auto simp: pruned_def keeps_users_def split: if_splits)
next
  case False
  then have "rules_of v = []" "rules_of (Option.bind v (pruned emitted e)) = []"
    by (cases v; auto simp: pruned_def rules_of_def split: json.split)+
  then show ?thesis by (simp add: keeps_users_def)
qed

lemma merged_rules:
  assumes "merge_hooks_record existing contrib = Inr (merged, ws)"
    "od_ok (contributed_hooks contrib)" "od_ok (contributed_hooks (doc_of existing))"
  shows "keeps_users (rules_at (contributed_hooks (doc_of existing)) e) (rules_at (contributed_hooks contrib) e)
    (rules_at (contributed_hooks merged) e)"
  unfolding rules_at_of record_at[OF assms] merged_at_def by (rule keeps_users_trans[OF outcome_keeps pruned_keeps])

section \<open>What the generators offer\<close>

lemma contributed_single [simp]: "contributed_hooks [(''hooks'', JObj h)] = h"
  by (simp add: contributed_hooks_def j_get_or_def)

lemma drop_nothing: "drop_warnings p = [] \<Longrightarrow> drop_event p = p"
  by (cases p; cases "snd p") (auto simp: drop_warnings_def drop_event_def filter_empty_conv intro: filter_True)

lemma dropped_hooks: "contributed_hooks (fst (drop_nonstring_matchers c)) = map drop_event (contributed_hooks c)"
proof (cases "j_get c ''hooks''")
  case (JObj src)
  then have src: "contributed_hooks c = src" by (auto simp: contributed_hooks_def j_get_def j_get_or_def split: option.splits)
  have "map drop_event src = src" if "concat (map drop_warnings src) = []"
    using that by (intro map_idI) (auto intro: drop_nothing)
  then show ?thesis using JObj src by (simp add: drop_nonstring_matchers_def Let_def del: concat_eq_Nil_conv)
qed (auto simp: contributed_hooks_def drop_nonstring_matchers_def j_get_def j_get_or_def split: option.splits)

lemma stamped_hooks: "contributed_hooks (stamp_status_markers c) = map stamp_event (contributed_hooks c)"
  by (cases "j_get_or c ''hooks'' (JObj [])") (simp_all add: stamp_status_markers_def, simp_all add: contributed_hooks_def)

lemma codex_hooks: "contributed_hooks (fst (filter_codex_events c)) = fst (codex_events (contributed_hooks c))"
  by (cases "j_get_or c ''hooks'' (JObj [])") (simp_all add: filter_codex_events_def case_prod_beta, simp_all add: contributed_hooks_def)

lemma gemini_hooks: "contributed_hooks (fst (remap_for_gemini digest c)) = fst (remap_events digest (contributed_hooks c) [])"
  by (cases "j_get_or c ''hooks'' (JObj [])") (simp_all add: remap_for_gemini_def case_prod_beta, simp_all add: contributed_hooks_def)

lemma offered_hooks:
  "contributed_hooks (fst (offered digest rt c)) =
     (let src = map drop_event (contributed_hooks c)
      in case rt of Claude \<Rightarrow> map stamp_event src
        | Codex \<Rightarrow> map stamp_event (fst (codex_events src))
        | Gemini \<Rightarrow> fst (remap_events digest src []))"
  by (cases rt) (simp_all add: offered_def case_prod_beta stamped_hooks codex_hooks gemini_hooks dropped_hooks)

text \<open>A rule memtomem can recognise later: its own mark, and a string for a matcher.\<close>

definition rule_ready :: "json \<Rightarrow> bool" where
  "rule_ready r \<longleftrightarrow> (is_obj r \<longrightarrow> rule_is_memtomem_owned r \<and> is_str (rule_matcher r))"

definition each_rule :: "(json \<Rightarrow> bool) \<Rightarrow> members \<Rightarrow> bool" where
  "each_rule P hooks \<longleftrightarrow> list_all (\<lambda>(_, v). case v of JArr rs \<Rightarrow> list_all P rs | _ \<Rightarrow> True) hooks"

text \<open>Every canonical rule runs at least one command.\<close>

definition command_handler :: "json \<Rightarrow> bool" where
  "command_handler h = (case h of JObj d \<Rightarrow> j_get d ''type'' = JStr ''command'' | _ \<Rightarrow> False)"

definition runs_command :: "json \<Rightarrow> bool" where
  "runs_command r \<longleftrightarrow> (is_obj r \<longrightarrow> (case rule_handlers r of None \<Rightarrow> False | Some hs \<Rightarrow> list_ex command_handler hs))"

abbreviation commanded :: "members \<Rightarrow> bool" where
  "commanded c \<equiv> each_rule runs_command (contributed_hooks c)"

lemma each_rule_Cons [simp]: "each_rule P ((e, v) # h) \<longleftrightarrow> (case v of JArr rs \<Rightarrow> list_all P rs | _ \<Rightarrow> True) \<and> each_rule P h"
  by (simp add: each_rule_def)

lemma each_rule_Nil [simp]: "each_rule P []"
  by (simp add: each_rule_def)

lemma j_get_od_set [simp]: "j_get (od_set k v d) k' = (if k' = k then v else j_get d k')"
  "j_get_or (od_set k v d) k' w = (if k' = k then v else j_get_or d k' w)"
  by (simp_all add: j_get_def j_get_or_def)

lemma stamped_command: "command_handler h \<Longrightarrow> handler_is_memtomem_owned (stamp_handler e h)"
  by (cases h) (auto simp: command_handler_def stamp_handler_def handler_is_memtomem_owned_def carries_prefix_def split: json.split)

lemma stamp_rule_ready:
  assumes "runs_command r" "is_obj r \<Longrightarrow> is_str (rule_matcher r)"
  shows "rule_ready (stamp_rule e r)"
proof (cases r)
  case (JObj d)
  then obtain hs where hs: "rule_handlers r = Some hs" "list_ex command_handler hs"
    using assms(1) by (auto simp: runs_command_def is_obj_def split: option.splits)
  have "list_ex handler_is_memtomem_owned (map (stamp_handler e) hs)"
    using hs(2) stamped_command by (auto simp: list_ex_iff)
  moreover have "is_str (rule_matcher r)" using assms(2) JObj by (simp add: is_obj_def)
  ultimately show ?thesis using hs JObj
    by (simp add: stamp_rule_def rule_ready_def rule_is_memtomem_owned_def rule_handlers_def[of "JObj (od_set _ _ _)"] rule_matcher_def)
qed (simp_all add: stamp_rule_def rule_ready_def is_obj_def)

text \<open>Runs a command and has a string matcher: what reaches the stamp.\<close>

definition stampable :: "json \<Rightarrow> bool" where
  "stampable r \<longleftrightarrow> runs_command r \<and> (is_obj r \<longrightarrow> is_str (rule_matcher r))"

lemma dropped_stampable: "each_rule runs_command h \<Longrightarrow> each_rule stampable (map drop_event h)"
  by (induction h) (auto simp: drop_event_def stampable_def malformed_rule_def list_all_iff split: json.split)

lemma stamped_ready: "each_rule stampable h \<Longrightarrow> each_rule rule_ready (map stamp_event h)"
  by (induction h) (auto simp: stamp_event_def list_all_iff stampable_def intro!: stamp_rule_ready split: json.split)

lemma clamped_command: "command_handler (fst (clamp_handler h)) = command_handler h"
  by (cases h) (auto simp: clamp_handler_def command_handler_def)

lemma clamped_stampable: "list_all stampable rs \<Longrightarrow> list_all stampable (fst (clamp_codex_session_end rs))"
proof (induction rs rule: clamp_codex_session_end.induct)
  case (2 r rules)
  have IH: "list_all stampable (fst (clamp_codex_session_end rules))" using 2 by simp
  have r: "stampable (JObj r)" using 2 by simp
  then obtain hs m where hs: "rule_handlers (JObj r) = Some hs" "list_ex command_handler hs" and m: "rule_matcher (JObj r) = JStr m"
    by (auto simp: stampable_def runs_command_def is_obj_def is_str_def split: option.splits json.splits)
  let ?r = "JObj (od_set ''hooks'' (JArr (map (fst \<circ> clamp_handler) hs)) r)"
  have "rule_matcher ?r = JStr m" using m by (simp add: rule_matcher_def)
  moreover have "list_ex command_handler (map (fst \<circ> clamp_handler) hs)" using hs(2) by (simp add: list_ex_iff clamped_command)
  ultimately have "stampable ?r" by (simp add: stampable_def runs_command_def rule_handlers_def is_str_def)
  then show ?case using IH hs m by (simp add: case_prod_beta Let_def)
qed (auto simp: case_prod_beta Let_def)

lemma codex_stampable: "each_rule stampable h \<Longrightarrow> each_rule stampable (fst (codex_events h))"
proof (induction h)
  case (Cons p h)
  obtain e v where p: "p = (e, v)" by fastforce
  have IH: "each_rule stampable (fst (codex_events h))" using Cons p by (cases v) auto
  show ?case
  proof (cases v)
    case (JArr rs)
    then have "list_all stampable rs" using Cons.prems p by simp
    then show ?thesis using IH clamped_stampable[of rs] by (simp add: p JArr case_prod_beta Let_def)
  qed (use IH in \<open>simp_all add: p case_prod_beta Let_def\<close>)
qed simp

lemma gemini_handler_owned: "handler_is_memtomem_owned (gemini_handler digest e m original i d)"
  by (simp add: gemini_handler_def handler_is_memtomem_owned_def carries_prefix_def MEMTOMEM_NAME_PREFIX_def Let_def)

lemma named_owned:
  assumes "h \<in> set hs" "is_obj h"
  shows "list_ex handler_is_memtomem_owned (ensure_gemini_handler_names digest (JArr hs) e m original)"
proof -
  obtain i d where "i < length hs" "hs ! i = JObj d" using assms by (auto simp: in_set_conv_nth is_obj_def split: json.splits)
  then have "(i, JObj d) \<in> set (enumerate 0 hs)" by (simp add: in_set_enumerate_eq)
  then have "gemini_handler digest e m original i d \<in> set (ensure_gemini_handler_names digest (JArr hs) e m original)"
    by (force simp: ensure_gemini_handler_names_def map_filter_def)
  then show ?thesis by (metis gemini_handler_owned list_ex_iff)
qed

lemma remap_rule_ready:
  assumes "stampable (JObj r)" "remap_rule digest e g r = (Some r', ws)"
  shows "rule_ready r'"
proof -
  obtain hs m where hs: "rule_handlers (JObj r) = Some hs" "list_ex command_handler hs" and m: "rule_matcher (JObj r) = JStr m"
    using assms(1) by (auto simp: stampable_def runs_command_def is_obj_def is_str_def split: option.splits json.splits)
  have at: "j_get_or r ''hooks'' (JArr []) = JArr hs"
    using hs(1) by (auto simp: rule_handlers_def j_get_def j_get_or_def split: json.splits option.splits)
  obtain h where "h \<in> set hs" "is_obj h" using hs(2) by (auto simp: list_ex_iff command_handler_def is_obj_def split: json.splits)
  then have owned: "list_ex handler_is_memtomem_owned (ensure_gemini_handler_names digest (JArr hs) g m' m)" for m' by (rule named_owned)
  obtain r1 m1 where r': "r' = JObj (od_set ''hooks'' (JArr (ensure_gemini_handler_names digest (JArr hs) g m1 m)) r1)"
    and r1: "is_str (rule_matcher (JObj r1))"
    using assms(2) m at
    by (auto simp: remap_rule_def Let_def is_str_def split: if_splits option.splits prod.splits) (auto simp: rule_matcher_def)
  show ?thesis unfolding r' using owned r1
    by (simp add: rule_ready_def rule_is_memtomem_owned_def rule_handlers_def rule_matcher_def)
qed

lemma each_rule_set: "each_rule P h \<Longrightarrow> list_all P rs \<Longrightarrow> each_rule P (od_set e (JArr rs) h)"
  by (induction h) auto

lemma each_rule_get: "each_rule P h \<Longrightarrow> list_all P (case j_get h e of JArr rs \<Rightarrow> rs | _ \<Rightarrow> [])"
  by (induction h) (auto simp: j_get_def split: json.splits)

lemma remap_rules_ready:
  "list_all stampable rs \<Longrightarrow> each_rule rule_ready out \<Longrightarrow> each_rule rule_ready (fst (remap_rules digest e g rs out))"
proof (induction digest e g rs out rule: remap_rules.induct)
  case (2 digest e g r rules out)
  obtain x ws where x: "remap_rule digest e g r = (x, ws)" by fastforce
  show ?case
  proof (cases x)
    case None
    then show ?thesis using 2 x by (simp add: case_prod_beta)
  next
    case (Some r')
    then have "rule_ready r'" using remap_rule_ready[of r digest e g r' ws] 2(3) x by simp
    then have "each_rule rule_ready (od_set g (JArr ((case j_get out g of JArr rs \<Rightarrow> rs | _ \<Rightarrow> []) @ [r'])) out)"
      using each_rule_get[OF 2(4), of g] by (intro each_rule_set[OF 2(4)]) simp
    then show ?thesis using 2 x Some by (simp add: case_prod_beta Let_def)
  qed
qed auto

lemma remap_events_ready:
  "each_rule stampable src \<Longrightarrow> each_rule rule_ready out \<Longrightarrow> each_rule rule_ready (fst (remap_events digest src out))"
proof (induction src arbitrary: out)
  case (Cons p src)
  obtain e v where p: "p = (e, v)" by fastforce
  show ?case
  proof (cases "map_of GEMINI_EVENT_MAP e")
    case None
    then show ?thesis using Cons p by (cases v) (auto simp: case_prod_beta)
  next
    case (Some g)
    show ?thesis
    proof (cases "\<exists>rs. v = JArr rs")
      case True
      then obtain rs where v: "v = JArr rs" by blast
      have "each_rule rule_ready (fst (remap_rules digest e g rs out))" using Cons.prems p v by (intro remap_rules_ready) simp_all
      then show ?thesis using Cons.IH Cons.prems(1) Some p v by (simp add: case_prod_beta Let_def)
    next
      case False
      then show ?thesis using Cons Some p by (cases v) (auto simp: case_prod_beta Let_def)
    qed
  qed
qed simp

lemma offered_ready: "commanded c \<Longrightarrow> each_rule rule_ready (contributed_hooks (fst (offered digest rt c)))"
  by (cases rt) (simp_all add: offered_hooks Let_def dropped_stampable stamped_ready codex_stampable remap_events_ready del: map_map)

lemma codex_keys: "set (od_keys (fst (codex_events src))) \<subseteq> set (od_keys src) \<and> (od_ok src \<longrightarrow> od_ok (fst (codex_events src)))"
  by (induction src rule: codex_events.induct)
    (auto simp: case_prod_beta Let_def split: json.split)

lemma remap_rules_ok: "od_ok out \<Longrightarrow> od_ok (fst (remap_rules digest e g rs out))"
proof (induction digest e g rs out rule: remap_rules.induct)
  case (2 digest e g r rules out)
  then show ?case
    by (cases "remap_rule digest e g r"; cases "fst (remap_rule digest e g r)") (auto simp: case_prod_beta Let_def)
qed auto

lemma remap_events_ok: "od_ok out \<Longrightarrow> od_ok (fst (remap_events digest src out))"
proof (induction src arbitrary: out)
  case (Cons p src)
  then show ?case
    by (cases p; cases "map_of GEMINI_EVENT_MAP (fst p)"; cases "snd p") (simp_all add: case_prod_beta Let_def remap_rules_ok)
qed simp

lemma event_keys: "map fst (map drop_event h) = map fst h" "map fst (map stamp_event h) = map fst h"
  by (induction h) (auto simp: drop_event_def stamp_event_def)

lemma offered_ok: "od_ok (contributed_hooks c) \<Longrightarrow> od_ok (contributed_hooks (fst (offered digest rt c)))"
  using codex_keys[of "map drop_event (contributed_hooks c)"]
  by (cases rt) (simp_all add: offered_hooks Let_def remap_events_ok event_keys del: map_map)

section \<open>Merging again\<close>

text \<open>How many contributions of each matcher the owned rules of a target take.\<close>

fun slots_used :: "queued \<Rightarrow> json list \<Rightarrow> (string \<Rightarrow> nat) \<Rightarrow> string \<Rightarrow> nat" where
  "slots_used cs [] used = used"
| "slots_used cs (r # rs) used = slots_used cs rs
     (case rule_matcher r of JStr m \<Rightarrow> if rule_is_memtomem_owned r \<and> used m < length (queue_of cs m) then take_slot used m else used
      | _ \<Rightarrow> used)"

lemma slots_steps:
  "\<not> rule_is_memtomem_owned r \<Longrightarrow> slots_used cs (r # rs) used = slots_used cs rs used"
  "rule_is_memtomem_owned r \<Longrightarrow> rule_matcher r = JStr m \<Longrightarrow> used m < length (queue_of cs m) \<Longrightarrow> slots_used cs (r # rs) used = slots_used cs rs (take_slot used m)"
  "rule_matcher r = JStr m \<Longrightarrow> \<not> used m < length (queue_of cs m) \<Longrightarrow> slots_used cs (r # rs) used = slots_used cs rs used"
  "\<not> is_str (rule_matcher r) \<Longrightarrow> slots_used cs (r # rs) used = slots_used cs rs used"
  by (auto simp: is_str_def split: json.splits)

declare slots_used.simps(2) [simp del]

lemma place_append: "place_owned event cs (xs @ ys) used =
    (let (o1, p1, w1) = place_owned event cs xs used; (o2, p2, w2) = place_owned event cs ys (slots_used cs xs used)
     in (o1 @ o2, p1 @ p2, w1 @ w2))"
  by (induction xs used rule: place_induct[where cs = cs]) (simp_all add: place_steps slots_steps case_prod_beta Let_def)

definition queue_ready :: "queued \<Rightarrow> bool" where
  "queue_ready cs \<longleftrightarrow> list_all (\<lambda>(_, c). rule_is_memtomem_owned c \<and> is_str (rule_matcher c)) cs"

lemma queue_owned: "queue_ready cs \<Longrightarrow> k < length (queue_of cs m) \<Longrightarrow> rule_is_memtomem_owned (snd (queue_of cs m ! k))"
  using queue_in[of k cs m] by (auto simp: queue_ready_def list_all_iff)

text \<open>The first pass changes nothing when it runs again on what it left.\<close>

lemma place_again:
  assumes "queue_ready cs"
  shows "place_owned event cs (fst (place_owned event cs rs used)) used =
      (fst (place_owned event cs rs used), fst (snd (place_owned event cs rs used)), []) \<and>
    slots_used cs (fst (place_owned event cs rs used)) used = slots_used cs rs used"
proof (induction rs used rule: place_induct[where cs = cs])
  case (hit r rs used m)
  then show ?case using queue_owned[OF assms hit(3)] queue_in[OF hit(3)] by (simp add: place_steps slots_steps)
qed (simp_all add: place_steps slots_steps)

lemma take_slot_at: "take_slot used m m' = (if m' = m then used m + 1 else used m')"
  by (simp add: take_slot_def)

lemma slots_grow: "used m \<le> slots_used cs rs used m \<and> slots_used cs rs used m \<le> max (used m) (length (queue_of cs m))"
proof (induction rs used rule: place_induct[where cs = cs])
  case (hit r rs used m')
  have "take_slot used m' m \<le> slots_used cs rs (take_slot used m') m \<and>
      slots_used cs rs (take_slot used m') m \<le> max (take_slot used m' m) (length (queue_of cs m))"
    by (rule hit(4))
  moreover have "take_slot used m' m = (if m = m' then used m' + 1 else used m)" by (rule take_slot_at)
  ultimately show ?case using hit(1-3) by (simp add: slots_steps split: if_splits)
qed (simp_all add: slots_steps)

lemma placed_slots: "set (fst (snd (place_owned event cs rs used))) =
    {i. \<exists>m k. used m \<le> k \<and> k < slots_used cs rs used m \<and> i = fst (queue_of cs m ! k)}"
proof (induction rs used rule: place_induct[where cs = cs])
  case (hit r rs used m)
  have grow: "take_slot used m m' \<le> slots_used cs rs (take_slot used m) m'" for m' using slots_grow by blast
  have "(used m' \<le> k \<and> k < slots_used cs rs (take_slot used m) m') \<longleftrightarrow>
      (m' = m \<and> k = used m) \<or> (take_slot used m m' \<le> k \<and> k < slots_used cs rs (take_slot used m) m')" for m' k
    using grow[of m] grow[of m'] by (auto simp: take_slot_at)
  then have "{i. \<exists>m' k. used m' \<le> k \<and> k < slots_used cs rs (take_slot used m) m' \<and> i = fst (queue_of cs m' ! k)} =
      insert (fst (queue_of cs m ! used m))
        {i. \<exists>m' k. take_slot used m m' \<le> k \<and> k < slots_used cs rs (take_slot used m) m' \<and> i = fst (queue_of cs m' ! k)}"
    (is "_ = insert _ ?rest")
    by (simp only: conj_assoc[symmetric] ex_disj_distrib conj_disj_distribR) (auto simp only:)
  moreover have "set (fst (snd (place_owned event cs rs (take_slot used m)))) = ?rest" by (rule hit(4))
  ultimately show ?case using hit(1-3) by (simp add: place_steps slots_steps)
qed (simp_all add: place_steps slots_steps)

lemma same_user_owned: "rule_is_memtomem_owned c' \<Longrightarrow> same_user (result @ [c']) c = same_user result c"
  by (simp add: same_user_def)

lemma add_eq:
  assumes "queue_ready cs"
  shows "fst (add_contributions event placed cs result) =
    result @ map snd (filter (\<lambda>(i, c). i \<notin> set placed \<and> same_user result c = []) cs)"
  using assms
proof (induction cs arbitrary: result)
  case (Cons p cs)
  obtain i c where p: "p = (i, c)" by fastforce
  have c: "rule_is_memtomem_owned c" and ready: "queue_ready cs" using Cons.prems p by (simp_all add: queue_ready_def)
  show ?case using Cons.IH[OF ready] by (simp add: p Let_def case_prod_beta same_user_owned[OF c])
qed simp

text \<open>Contributions that joined at the end are owned slots of the next merge, each its own.\<close>

lemma place_joined:
  assumes "queue_ready post"
    and "\<And>m. avail m \<Longrightarrow> drop (used m) (queue_of cs m) = filter (\<lambda>(i, c). rule_matcher c = JStr m \<and> i \<notin> P) post"
  shows "place_owned event cs (map snd (filter (\<lambda>(i, c). i \<notin> P \<and> (\<exists>m. rule_matcher c = JStr m \<and> avail m)) post)) used =
    (map snd (filter (\<lambda>(i, c). i \<notin> P \<and> (\<exists>m. rule_matcher c = JStr m \<and> avail m)) post),
     map fst (filter (\<lambda>(i, c). i \<notin> P \<and> (\<exists>m. rule_matcher c = JStr m \<and> avail m)) post), [])"
  using assms
proof (induction post arbitrary: used)
  case (Cons p post)
  obtain i c where p: "p = (i, c)" by fastforce
  have ready: "queue_ready post" and c: "rule_is_memtomem_owned c" using Cons.prems(1) p by (simp_all add: queue_ready_def)
  show ?case
  proof (cases "i \<notin> P \<and> (\<exists>m. rule_matcher c = JStr m \<and> avail m)")
    case False
    have "drop (used m) (queue_of cs m) = filter (\<lambda>(i, c). rule_matcher c = JStr m \<and> i \<notin> P) post" if "avail m" for m
      using Cons.prems(2)[OF that] False that by (auto simp: p split: if_splits)
    from Cons.IH[OF ready this] show ?thesis by (simp only: p filter.simps prod.case False if_False)
  next
    case True
    then obtain m where m: "rule_matcher c = JStr m" "avail m" "i \<notin> P" by blast
    have front: "drop (used m) (queue_of cs m) = (i, c) # filter (\<lambda>(i, c). rule_matcher c = JStr m \<and> i \<notin> P) post"
      using Cons.prems(2)[OF m(2)] m by (simp add: p)
    then have len: "used m < length (queue_of cs m)" and at: "queue_of cs m ! used m = (i, c)"
      by (metis drop_all linorder_not_le list.distinct(1), metis hd_drop_conv_nth drop_all linorder_not_le list.distinct(1) list.sel(1))
    have "drop (take_slot used m m') (queue_of cs m') = filter (\<lambda>(i, c). rule_matcher c = JStr m' \<and> i \<notin> P) post" if "avail m'" for m'
    proof (cases "m' = m")
      case True
      then show ?thesis using arg_cong[OF front, of tl] by (simp add: take_slot_at drop_Suc tl_drop)
    next
      case False
      then show ?thesis using Cons.prems(2)[OF that] m by (auto simp: p take_slot_at)
    qed
    from Cons.IH[OF ready this] show ?thesis using True place_hit[where used = used and m = m, OF c m(1) len, of event] at by (simp add: p)
  qed
qed simp

text \<open>A list that was copied whole is its own sequence of slots.\<close>

lemma place_copied:
  assumes "list_all rule_ready rules"
    and "\<And>m. drop (used m) (queue_of cs m) = filter (\<lambda>(i, c). rule_matcher c = JStr m) (enumerate n (filter is_obj rules))"
  shows "place_owned event cs rules used = (rules, map fst (enumerate n (filter is_obj rules)), [])"
  using assms
proof (induction rules arbitrary: used n)
  case (Cons r rules)
  have ready: "list_all rule_ready rules" using Cons.prems(1) by simp
  show ?case
  proof (cases "is_obj r")
    case False
    then have user: "\<not> rule_is_memtomem_owned r" using owned_obj by blast
    from Cons.IH[OF ready, of used n] Cons.prems(2) False show ?thesis by (simp add: place_user[OF user])
  next
    case True
    then obtain m where owned: "rule_is_memtomem_owned r" and m: "rule_matcher r = JStr m"
      using Cons.prems(1) by (auto simp: rule_ready_def is_str_def split: json.splits)
    have front: "drop (used m) (queue_of cs m) = (n, r) # filter (\<lambda>(i, c). rule_matcher c = JStr m) (enumerate (Suc n) (filter is_obj rules))"
      using Cons.prems(2)[of m] m True by simp
    then have len: "used m < length (queue_of cs m)" and at: "queue_of cs m ! used m = (n, r)"
      by (metis drop_all linorder_not_le list.distinct(1), metis hd_drop_conv_nth drop_all linorder_not_le list.distinct(1) list.sel(1))
    have "drop (take_slot used m m') (queue_of cs m') = filter (\<lambda>(i, c). rule_matcher c = JStr m') (enumerate (Suc n) (filter is_obj rules))" for m'
    proof (cases "m' = m")
      case True
      then show ?thesis using arg_cong[OF front, of tl] by (simp add: take_slot_at drop_Suc tl_drop)
    next
      case False
      then show ?thesis using Cons.prems(2)[of m'] m True by (simp add: take_slot_at)
    qed
    from Cons.IH[OF ready this] show ?thesis using True place_hit[where used = used and m = m, OF owned m len, of event] at by simp
  qed
qed simp

lemma enumerate_in: "(i, c) \<in> set (enumerate n xs) \<Longrightarrow> c \<in> set xs"
  by (metis image_eqI list.set_map map_snd_enumerate snd_conv)

lemma enumerate_ready: "list_all rule_ready rules \<Longrightarrow> queue_ready (enumerate n (filter is_obj rules))"
  by (auto simp: queue_ready_def list_all_iff rule_ready_def dest!: enumerate_in)

lemma none_left: "filter (\<lambda>(i, c). i \<notin> set (map fst cs) \<and> Q c) cs = []"
  by (force simp: filter_empty_conv)

lemma merge_copied: "list_all rule_ready rules \<Longrightarrow> fst (merge_event event rules rules) = rules"
proof -
  assume ready: "list_all rule_ready rules"
  let ?cs = "enumerate 0 (filter is_obj rules)"
  have place: "place_owned event ?cs rules (\<lambda>_. 0) = (rules, map fst ?cs, [])"
    by (rule place_copied[OF ready]) (simp add: queue_of_def)
  show ?thesis using add_eq[OF enumerate_ready[OF ready, of 0], of event "map fst ?cs" rules] none_left[of ?cs "\<lambda>c. same_user rules c = []"]
    by (simp only: merge_event_def place Let_def case_prod_beta fst_conv snd_conv list.map append_Nil2)
qed

text \<open>Of each matcher, the contributions that were not placed are the rest of its queue.\<close>

lemma drop_distinct: "distinct xs \<Longrightarrow> filter (\<lambda>x. x \<notin> set (take n xs)) xs = drop n xs"
proof (induction xs arbitrary: n)
  case (Cons x xs)
  then show ?case
  proof (cases n)
    case (Suc k)
    have "filter (\<lambda>y. y \<noteq> x \<and> y \<notin> set (take k xs)) xs = filter (\<lambda>y. y \<notin> set (take k xs)) xs"
      using Cons.prems by (intro filter_cong) auto
    then show ?thesis using Cons Suc by simp
  qed simp
qed simp

lemma placed_front:
  assumes "distinct (map fst cs)" "set placed = {i. \<exists>m k. k < (used m :: nat) \<and> i = fst (queue_of cs m ! k)}" "\<And>m. used m \<le> length (queue_of cs m)"
    and p: "p \<in> set (queue_of cs m)"
  shows "fst p \<in> set placed \<longleftrightarrow> p \<in> set (take (used m) (queue_of cs m))"
proof -
  have same: "p = q" if "p \<in> set cs" "q \<in> set cs" "fst p = fst q" for p q
    using assms(1) that by (auto simp: distinct_map inj_on_def)
  show ?thesis
  proof
    assume "fst p \<in> set placed"
    then obtain m' k where k: "k < used m'" "fst p = fst (queue_of cs m' ! k)" using assms(2) by auto
    then have k': "k < length (queue_of cs m')" using assms(3)[of m'] by simp
    have "p \<in> set cs" using p by (auto simp: queue_of_def)
    then have eq: "p = queue_of cs m' ! k" using same queue_in[OF k'] k(2) by blast
    then have "m' = m" using queue_in[OF k'] p by (auto simp: queue_of_def)
    then show "p \<in> set (take (used m) (queue_of cs m))" using eq k k' by (auto simp: in_set_conv_nth intro!: exI[of _ k])
  next
    assume "p \<in> set (take (used m) (queue_of cs m))"
    then obtain k where "k < used m" "p = queue_of cs m ! k" by (auto simp: in_set_conv_nth)
    then show "fst p \<in> set placed" unfolding assms(2) by blast
  qed
qed

lemma unplaced:
  assumes "distinct (map fst cs)" "set placed = {i. \<exists>m k. k < (used m :: nat) \<and> i = fst (queue_of cs m ! k)}" "\<And>m. used m \<le> length (queue_of cs m)"
  shows "filter (\<lambda>(i, c). rule_matcher c = JStr m \<and> i \<notin> set placed) cs = drop (used m) (queue_of cs m)"
proof -
  have dist: "distinct (queue_of cs m)" using assms(1) by (simp add: queue_of_def distinct_map)
  have "filter (\<lambda>p. fst p \<notin> set placed) (queue_of cs m) = filter (\<lambda>p. p \<notin> set (take (used m) (queue_of cs m))) (queue_of cs m)"
    using placed_front[OF assms] by (intro filter_cong) auto
  also have "\<dots> = drop (used m) (queue_of cs m)" by (rule drop_distinct[OF dist])
  finally show ?thesis by (simp add: queue_of_def split_def conj_commute)
qed

text \<open>A merge of the same contributions into its own result changes nothing.\<close>

lemma same_user_matcher: "rule_matcher c = rule_matcher c' \<Longrightarrow> same_user result c = same_user result c'"
  by (simp add: same_user_def)

lemma merge_event_again:
  assumes "list_all rule_ready rules"
  shows "fst (merge_event event rules (fst (merge_event event rules existing))) = fst (merge_event event rules existing)"
proof -
  define cs where "cs = enumerate 0 (filter is_obj rules)"
  define K where "K = fst (place_owned event cs existing (\<lambda>_. 0))"
  define P where "P = fst (snd (place_owned event cs existing (\<lambda>_. 0)))"
  define used where "used = slots_used cs existing (\<lambda>_. 0)"
  define free where "free = (\<lambda>m. same_user K (JObj [(''matcher'', JStr m)]) = [])"
  define joined where "joined = filter (\<lambda>(i, c). i \<notin> set P \<and> same_user K c = []) cs"
  have ready: "queue_ready cs" using assms by (simp add: cs_def enumerate_ready)
  have free: "free m \<longleftrightarrow> same_user K c = []" if "rule_matcher c = JStr m" for m c
  proof -
    have "rule_matcher (JObj [(''matcher'', JStr m)]) = JStr m" by (simp add: rule_matcher_def j_get_or_def)
    then show ?thesis using same_user_matcher[of "JObj [(''matcher'', JStr m)]" c K] that by (simp add: free_def)
  qed
  have joined: "joined = filter (\<lambda>(i, c). i \<notin> set P \<and> (\<exists>m. rule_matcher c = JStr m \<and> free m)) cs"
  proof -
    have "same_user K c = [] \<longleftrightarrow> (\<exists>m. rule_matcher c = JStr m \<and> free m)" if "(i, c) \<in> set cs" for i c
    proof -
      have "is_str (rule_matcher c)" using ready that by (auto simp: queue_ready_def list_all_iff)
      then obtain m where "rule_matcher c = JStr m" by (cases "rule_matcher c") (simp_all add: is_str_def)
      then show ?thesis using free by auto
    qed
    then show ?thesis unfolding joined_def by (intro filter_cong) auto
  qed
  have out: "fst (merge_event event rules existing) = K @ map snd joined"
    using add_eq[OF ready, of event P K] by (simp add: merge_event_def Let_def case_prod_beta K_def P_def joined_def cs_def)
  have rest: "drop (used m) (queue_of cs m) = filter (\<lambda>(i, c). rule_matcher c = JStr m \<and> i \<notin> set P) cs" for m
  proof (rule unplaced[symmetric])
    show "distinct (map fst cs)" by (simp add: cs_def)
    show "set P = {i. \<exists>m k. k < used m \<and> i = fst (queue_of cs m ! k)}" by (simp add: P_def placed_slots used_def)
    show "used m \<le> length (queue_of cs m)" for m using slots_grow[of "\<lambda>_. 0" m cs existing] by (simp add: used_def)
  qed
  have "place_owned event cs (map snd joined) used = (map snd joined, map fst joined, [])"
    unfolding joined by (rule place_joined[OF ready]) (rule rest)
  then have "place_owned event cs (K @ map snd joined) (\<lambda>_. 0) = (K @ map snd joined, P @ map fst joined, [])"
    using place_again[OF ready, of event existing "\<lambda>_. 0"] by (simp add: place_append K_def P_def used_def)
  moreover have "filter (\<lambda>(i, c). i \<notin> set (P @ map fst joined) \<and> same_user (K @ map snd joined) c = []) cs = []"
  proof -
    have "same_user (K @ map snd joined) c = same_user K c" for c
    proof -
      have "rule_is_memtomem_owned r" if "r \<in> snd ` set joined" for r
        using ready that by (auto simp: joined_def queue_ready_def list_all_iff)
      then show ?thesis by (auto simp: same_user_def filter_empty_conv)
    qed
    then show ?thesis by (auto simp: joined_def filter_empty_conv image_iff)
  qed
  ultimately show ?thesis unfolding out
    using add_eq[OF ready, of event "P @ map fst joined" "K @ map snd joined"]
    by (simp add: merge_event_def Let_def case_prod_beta flip: cs_def)
qed

lemma od_set_same: "map_of d k = Some v \<Longrightarrow> od_set k v d = d"
  by (induction d) (auto split: if_splits)

lemma ready_hashable: "list_all rule_ready rules \<Longrightarrow> \<not> list_ex (\<lambda>c. unhashable_key (rule_matcher c)) (filter is_obj rules)"
  by (auto simp: list_all_iff list_ex_iff rule_ready_def is_str_def unhashable_key_def split: json.splits)

lemma merge_identity:
  assumes "\<And>e rules. (e, JArr rules) \<in> set contrib \<Longrightarrow> list_all rule_ready rules \<and>
      (case map_of hooks e of None \<Rightarrow> rules = [] | Some v \<Rightarrow> \<exists>existing. v = JArr existing \<and> fst (merge_event e rules existing) = existing)"
  shows "\<exists>ws. merge_events contrib hooks = Inr (hooks, ws)"
  using assms
proof (induction contrib)
  case (Cons p contrib)
  obtain e v where p: "p = (e, v)" by fastforce
  obtain ws where IH: "merge_events contrib hooks = Inr (hooks, ws)" using Cons by auto
  show ?case
  proof (cases "\<exists>rules. v = JArr rules")
    case False
    then show ?thesis using IH by (simp add: p merge_events_other)
  next
    case True
    then obtain rules where v: "v = JArr rules" by blast
    note here = Cons.prems[of e rules]
    show ?thesis
    proof (cases "map_of hooks e")
      case None
      then show ?thesis using here IH by (simp add: p v merge_events_list)
    next
      case (Some w)
      then obtain existing where w: "w = JArr existing" "fst (merge_event e rules existing) = existing" and ready: "list_all rule_ready rules"
        using here p v by auto
      then show ?thesis using IH Some ready_hashable[OF ready] od_set_same[of hooks e "JArr existing"]
        by (auto simp: p v merge_events_list)
    qed
  qed
qed simp

lemma merge_arrays:
  "merge_events contrib hooks = Inr (h, ws) \<Longrightarrow> od_ok contrib \<Longrightarrow> (e, JArr rules) \<in> set contrib \<Longrightarrow> map_of hooks e = Some v \<Longrightarrow>
    \<exists>existing. v = JArr existing"
proof (induction contrib arbitrary: hooks h ws)
  case (Cons p contrib)
  obtain e' v' where p: "p = (e', v')" by fastforce
  show ?case
  proof (cases "e' = e")
    case True
    then have "v' = JArr rules" using Cons.prems(2,3) p by (force simp: image_iff)
    then show ?thesis using Cons.prems(1,4) True by (auto simp: p merge_events_list)
  next
    case False
    then have tail: "(e, JArr rules) \<in> set contrib" "od_ok contrib" using Cons.prems p by auto
    show ?thesis
    proof (cases "\<exists>rules. v' = JArr rules")
      case True
      then obtain rs where v': "v' = JArr rs" by blast
      obtain hooks' ws' where "merge_events contrib hooks' = Inr (h, ws')" "map_of hooks' e = Some v"
        using Cons.prems(1,4) False by (fastforce simp: p v' merge_events_list split: option.splits if_splits)
      then show ?thesis using Cons.IH tail by blast
    next
      case False
      then show ?thesis using Cons.IH[OF _ tail(2,1)] Cons.prems(1,4) by (simp add: p merge_events_other)
    qed
  qed
qed simp

lemma pruned_again: "pruned emitted e w = Some v \<Longrightarrow> pruned emitted e v = Some v"
  by (cases w) (auto simp: pruned_def list_all_iff split: if_splits)

lemma prune_identity:
  assumes "hooks = concat (map (prune_event emitted) h)"
  shows "concat (map (prune_event emitted) hooks) = hooks"
proof -
  have "prune_event emitted p = [p]" if p: "p \<in> set hooks" for p
  proof -
    obtain e v where ev: "p = (e, v)" by fastforce
    obtain w where "pruned emitted e w = Some v"
      using p ev by (auto simp: assms prune_event_eq split: option.splits)
    then show ?thesis using pruned_again by (simp add: ev prune_event_eq)
  qed
  then have "map (prune_event emitted) hooks = map (\<lambda>p. [p]) hooks" by simp
  then show ?thesis by (simp only: concat_map_singleton list.map_ident)
qed

lemma each_rule_in: "each_rule P h \<Longrightarrow> (e, JArr rs) \<in> set h \<Longrightarrow> list_all P rs"
  by (force simp: each_rule_def list_all_iff)

lemma record_again:
  assumes "merge_hooks_record existing contrib = Inr (merged, ws)" "each_rule rule_ready (contributed_hooks contrib)"
    "od_ok (contributed_hooks contrib)" "od_ok (contributed_hooks (doc_of existing))"
  shows "\<exists>ws'. merge_hooks_record (JObj merged) contrib = Inr (merged, ws')"
  using assms(1)
proof (rule record_merge)
  let ?contrib = "contributed_hooks contrib" and ?old = "contributed_hooks (doc_of existing)"
  fix h w hooks
  assume m: "merge_events ?contrib ?old = Inr (h, w)" and hooks: "hooks = concat (map (prune_event (od_keys ?contrib)) h)"
    and res: "merged = (if ''hooks'' \<in> set (od_keys (doc_of existing)) \<or> hooks \<noteq> [] then od_set ''hooks'' (JObj hooks) (doc_of existing) else doc_of existing)"
    and new: "contributed_hooks merged = hooks"
  have "list_all rule_ready rules \<and>
      (case map_of hooks e of None \<Rightarrow> rules = [] | Some v \<Rightarrow> \<exists>ex. v = JArr ex \<and> fst (merge_event e rules ex) = ex)"
    if e: "(e, JArr rules) \<in> set ?contrib" for e rules
  proof -
    have ready: "list_all rule_ready rules" using each_rule_in[OF assms(2) e] .
    have offer: "map_of ?contrib e = Some (JArr rules)" using e assms(3) by simp
    have "map_of hooks e = Option.bind (event_outcome e (Some (JArr rules)) (map_of ?old e)) (pruned (od_keys ?contrib) e)"
      using record_at[OF assms(1,3,4), of e] by (simp add: new merged_at_def offer)
    also have "\<dots> = event_outcome e (Some (JArr rules)) (map_of ?old e)"
      using e by (cases "event_outcome e (Some (JArr rules)) (map_of ?old e)") (force simp: pruned_def split: json.split)+
    finally have at: "map_of hooks e = event_outcome e (Some (JArr rules)) (map_of ?old e)" .
    show ?thesis
    proof (cases "map_of ?old e")
      case None
      then show ?thesis using ready merge_copied[OF ready] at by (simp add: event_outcome_def)
    next
      case (Some v)
      then obtain ex where "v = JArr ex" using merge_arrays[OF m assms(3) e] by blast
      then show ?thesis using ready merge_event_again[OF ready] at Some by (simp add: event_outcome_def)
    qed
  qed
  from merge_identity[OF this] obtain w' where again: "merge_events ?contrib hooks = Inr (hooks, w')" by blast
  have key: "''hooks'' \<in> set (od_keys merged) \<or> hooks \<noteq> [] \<Longrightarrow> map_of merged ''hooks'' = Some (JObj hooks)"
    unfolding res by (auto split: if_splits)
  have "raw_hooks merged = Inr hooks"
  proof (cases "''hooks'' \<in> set (od_keys merged)")
    case True
    then show ?thesis using key by (simp add: raw_hooks_def j_get_or_def)
  next
    case False
    then have "map_of merged ''hooks'' = None" by (simp add: map_of_eq_None_iff)
    then show ?thesis using new by (simp add: raw_hooks_def j_get_or_def contributed_hooks_def)
  qed
  then show ?thesis using again prune_identity[OF hooks] key od_set_same[of merged "''hooks''" "JObj hooks"]
    by (auto simp: merge_hooks_record_def root_members_def Let_def simp del: concat_eq_Nil_conv)
qed

lemma gen_merge_record:
  "gen_merge digest rt existing c = Inr (merged, ws) \<Longrightarrow>
    \<exists>ws'. merge_hooks_record existing (fst (offered digest rt c)) = Inr (merged, ws') \<and> ws = snd (offered digest rt c) @ ws'"
  by (auto simp: gen_merge_def case_prod_beta bind_res_Inr_conv)

section \<open>Properties of a synchronisation\<close>

text \<open>A settings document as the JSON reader returns it: the keys of a record are distinct.\<close>

abbreviation record_ok :: "members \<Rightarrow> bool" where
  "record_ok d \<equiv> od_ok (contributed_hooks d)"

abbreviation offered_rules :: "(string \<Rightarrow> nat \<Rightarrow> string \<Rightarrow> string) \<Rightarrow> runtime \<Rightarrow> members \<Rightarrow> string \<Rightarrow> json list" where
  "offered_rules digest rt c e \<equiv> rules_at (contributed_hooks (fst (offered digest rt c))) e"

abbreviation doc_rules :: "members \<Rightarrow> string \<Rightarrow> json list" where
  "doc_rules d e \<equiv> rules_at (contributed_hooks d) e"

text \<open>
  C12. A synchronisation never touches what is the user's. In the document it writes every member
  but the hooks is as it was; at every event the user's own rules are all there, unchanged and in
  their order; and any other rule there is one the canonical record offers or the document held.
\<close>

theorem sync_keeps_user_rules:
  assumes "sync_target digest rt allow v = (SyncOk, ws, Some (path, merged))"
    "sv_existing v = Document doc" "record_ok doc" "sv_canonical_locked v = Document c" "record_ok c"
  shows "(k \<noteq> ''hooks'' \<longrightarrow> map_of merged k = map_of doc k) \<and>
    subseq (user_rules (doc_rules doc e)) (doc_rules merged e) \<and>
    set (doc_rules merged e) \<subseteq> set (doc_rules doc e) \<union> set (offered_rules digest rt c e)"
proof -
  have "gen_merge digest rt (JObj doc) c = Inr (merged, ws)"
    using assms(1,2,4) by (auto simp: sync_target_def existing_json_def split: if_splits file_read.splits option.splits sum.splits)
  then obtain ws' where m: "merge_hooks_record (JObj doc) (fst (offered digest rt c)) = Inr (merged, ws')"
    using gen_merge_record by blast
  show ?thesis using record_keeps[OF m] merged_rules[OF m offered_ok[OF assms(5)]] assms(3)
    by (simp add: doc_of_def keeps_users_def)
qed

text \<open>
  C13. Synchronising again changes nothing. When every canonical rule runs a command, the document a
  synchronisation wrote is a fixed point of the merge, and the dry run reports it in sync.
\<close>

theorem resync_is_stable:
  assumes "sync_target digest rt allow v = (SyncOk, ws, Some (path, merged))"
    "record_ok (doc_of (existing_json (sv_existing v)))" "sv_canonical_locked v = Document c" "record_ok c" "commanded c"
  shows "(\<exists>ws'. gen_merge digest rt (JObj merged) c = Inr (merged, ws')) \<and>
    fst (diff_target digest rt True (Document c) True (Document merged)) = InSync"
proof -
  have "gen_merge digest rt (existing_json (sv_existing v)) c = Inr (merged, ws)"
    using assms(1,3) by (auto simp: sync_target_def split: if_splits file_read.splits option.splits sum.splits)
  then obtain ws' where m: "merge_hooks_record (existing_json (sv_existing v)) (fst (offered digest rt c)) = Inr (merged, ws')"
    using gen_merge_record by blast
  obtain ws'' where "merge_hooks_record (JObj merged) (fst (offered digest rt c)) = Inr (merged, ws'')"
    using record_again[OF m offered_ready[OF assms(5)] offered_ok[OF assms(4)] assms(2)] by blast
  then have "gen_merge digest rt (JObj merged) c = Inr (merged, snd (offered digest rt c) @ ws'')"
    by (simp add: gen_merge_def case_prod_beta)
  then show ?thesis by (simp add: diff_target_def existing_json_def)
qed

lemma placed_present: "i \<in> set (fst (snd (place_owned event cs rs used))) \<Longrightarrow>
    \<exists>c. (i, c) \<in> set cs \<and> c \<in> set (fst (place_owned event cs rs used))"
proof (induction rs used rule: place_induct[where cs = cs])
  case (hit r rs used m)
  then show ?case using queue_in[OF hit(3)]
    by (auto simp: place_steps) (metis prod.collapse)
qed (auto simp: place_steps)

text \<open>Accounted for: present, equal to a rule of the user's, or named in a warning.\<close>

definition accounted :: "string \<Rightarrow> json list \<Rightarrow> hook_warning list \<Rightarrow> json \<Rightarrow> bool" where
  "accounted event rules ws c \<longleftrightarrow> c \<in> set rules \<or>
     (\<exists>u \<in> set rules. rule_content_equal u c \<and> value_eq (rule_matcher u) (rule_matcher c) \<and> \<not> rule_is_memtomem_owned u) \<or>
     NoMarker event (rule_matcher c) \<in> set ws \<or> UserRuleWins event (rule_matcher c) \<in> set ws"

lemma accounted_mono: "accounted event rules ws c \<Longrightarrow> set rules \<subseteq> set rules' \<Longrightarrow> set ws \<subseteq> set ws' \<Longrightarrow> accounted event rules' ws' c"
  by (auto simp: accounted_def)

lemma add_accounted:
  assumes "(i, c) \<in> set cs" "i \<notin> set placed"
  shows "accounted event (fst (add_contributions event placed cs result)) (snd (add_contributions event placed cs result)) c"
  using assms
proof (induction cs arbitrary: result)
  case (Cons p cs)
  obtain j d where p: "p = (j, d)" by fastforce
  let ?new = "if j \<in> set placed \<or> same_user result d \<noteq> [] then result else result @ [d]"
  let ?all = "add_contributions event placed (p # cs) result" and ?rest = "add_contributions event placed cs ?new"
  have out: "fst ?all = fst ?rest" and ws: "set (snd ?rest) \<subseteq> set (snd ?all)"
    by (auto simp: p Let_def case_prod_beta)
  show ?case
  proof (cases "(i, c) \<in> set cs")
    case True
    show ?thesis by (rule accounted_mono[OF Cons.IH[OF True Cons.prems(2)]]) (use out ws in auto)
  next
    case False
    then have c: "j = i" "d = c" using Cons.prems(1) p by auto
    have grow: "set ?new \<subseteq> set (fst ?all)" unfolding out using add_extends[of event placed cs ?new] by auto
    show ?thesis
    proof (cases "same_user result c = []")
      case True
      then show ?thesis using grow c Cons.prems(2) by (auto simp: accounted_def)
    next
      case nonempty: False
      then have res: "set result \<subseteq> set (fst ?all)" using grow c by auto
      show ?thesis
      proof (cases "list_ex (\<lambda>u. rule_content_equal u c) (same_user result c)")
        case True
        then show ?thesis using res by (auto simp: accounted_def list_ex_iff same_user_def)
      next
        case False
        then show ?thesis using nonempty c Cons.prems(2) by (auto simp: accounted_def p Let_def case_prod_beta)
      qed
    qed
  qed
qed simp

lemma merge_event_accounted:
  assumes "c \<in> set rules" "is_obj c"
  shows "accounted event (fst (merge_event event rules existing)) (snd (merge_event event rules existing)) c"
proof -
  define cs where "cs = enumerate 0 (filter is_obj rules)"
  define pl where "pl = place_owned event cs existing (\<lambda>_. 0)"
  have split: "merge_event event rules existing =
      (fst (add_contributions event (fst (snd pl)) cs (fst pl)), snd (snd pl) @ snd (add_contributions event (fst (snd pl)) cs (fst pl)))"
    by (simp add: merge_event_def Let_def case_prod_beta pl_def cs_def)
  have "c \<in> snd ` set cs" using assms by (simp add: cs_def flip: set_map)
  then obtain i where i: "(i, c) \<in> set cs" by auto
  show ?thesis
  proof (cases "i \<in> set (fst (snd pl))")
    case True
    then obtain c' where c': "(i, c') \<in> set cs" "c' \<in> set (fst pl)" unfolding pl_def using placed_present by blast
    have "distinct (map fst cs)" by (simp add: cs_def)
    then have "c' = c" using i c'(1) by (metis eq_key_imp_eq_value)
    moreover have "set (fst pl) \<subseteq> set (fst (merge_event event rules existing))" unfolding split
      using add_extends[of event "fst (snd pl)" cs "fst pl"] by auto
    ultimately show ?thesis using c'(2) by (auto simp: accounted_def)
  next
    case False
    show ?thesis by (rule accounted_mono[OF add_accounted[OF i False, of event "fst pl"]]) (auto simp: split)
  qed
qed

definition is_arr :: "json \<Rightarrow> bool" where
  "is_arr v = (case v of JArr _ \<Rightarrow> True | _ \<Rightarrow> False)"

text \<open>
  C14. A merge brings the target up to date. Every rule the canonical record offers is in the
  document, or equals a rule of the user's under the same matcher, or a warning names it; and no
  rule that carries memtomem's mark is left over from an earlier release: it is one that is offered.
\<close>

theorem merge_brings_up_to_date:
  assumes "gen_merge digest rt existing c = Inr (merged, ws)" "record_ok (doc_of existing)" "record_ok c"
    "list_all (\<lambda>(_, v). is_arr v) (contributed_hooks (fst (offered digest rt c)))"
  shows "(r \<in> set (offered_rules digest rt c e) \<longrightarrow> is_obj r \<longrightarrow> accounted e (doc_rules merged e) ws r) \<and>
    (r \<in> set (doc_rules merged e) \<longrightarrow> rule_is_memtomem_owned r \<longrightarrow> r \<in> set (offered_rules digest rt c e))"
proof -
  let ?contrib = "contributed_hooks (fst (offered digest rt c))" and ?old = "contributed_hooks (doc_of existing)"
  obtain ws' where m: "merge_hooks_record existing (fst (offered digest rt c)) = Inr (merged, ws')" and ws: "ws = snd (offered digest rt c) @ ws'"
    using gen_merge_record[OF assms(1)] by blast
  note ok = offered_ok[OF assms(3), of digest rt]
  have at: "map_of (contributed_hooks merged) e = Option.bind (merged_at ?contrib ?old e) (pruned (od_keys ?contrib) e)"
    by (rule record_at[OF m ok assms(2)])
  obtain h w where events: "merge_events ?contrib ?old = Inr (h, w)" and w: "set w \<subseteq> set ws'" using m by (rule record_merge) auto
  show ?thesis
  proof (cases "map_of ?contrib e")
    case None
    then have "e \<notin> set (od_keys ?contrib)" by (simp add: map_of_eq_None_iff)
    then have "\<not> rule_is_memtomem_owned r" if "r \<in> set (doc_rules merged e)"
      using that by (auto simp: rules_at_of at rules_of_def pruned_def list_all_iff split: Option.bind_splits option.splits json.splits if_splits)
    then show ?thesis using None by (simp add: rules_at_of)
  next
    case (Some v)
    then obtain rules where v: "v = JArr rules" using assms(4) map_of_SomeD[OF Some] by (cases v) (auto simp: list_all_iff is_arr_def)
    have mem: "(e, JArr rules) \<in> set ?contrib" using map_of_SomeD[OF Some] v by simp
    have new: "map_of (contributed_hooks merged) e = event_outcome e (Some (JArr rules)) (map_of ?old e)"
      using at mem by (cases "event_outcome e (Some (JArr rules)) (map_of ?old e)") (force simp: merged_at_def Some v pruned_def split: json.split)+
    show ?thesis
    proof (cases "map_of ?old e")
      case None
      then show ?thesis using new Some v by (auto simp: rules_at_of event_outcome_def accounted_def)
    next
      case (Some u)
      then obtain ex where u: "u = JArr ex" using merge_arrays[OF events ok mem] by blast
      let ?out = "merge_event e rules ex"
      have doc: "doc_rules merged e = fst ?out" and offer: "offered_rules digest rt c e = rules"
        using new Some u v \<open>map_of ?contrib e = Some v\<close> by (simp_all add: rules_at_of event_outcome_def)
      have "warned_at ?old (e, JArr rules) = snd ?out" using Some u by (simp add: warned_at_def)
      then have "set (snd ?out) \<subseteq> set ws" using merge_events_at[OF events ok] mem w ws by force
      then show ?thesis unfolding doc offer
        using merge_event_accounted[of r rules e ex] merge_event_set[of e rules ex] by (auto intro: accounted_mono)
    qed
  qed
qed

section \<open>Concrete settings\<close>

definition hook_rule :: "string \<Rightarrow> string \<Rightarrow> members \<Rightarrow> json" where
  "hook_rule matcher command marks = JObj [(''matcher'', JStr matcher),
     (''hooks'', JArr [JObj ([(''type'', JStr ''command''), (''command'', JStr command)] @ marks)])]"

abbreviation stamped :: "string \<Rightarrow> members" where
  "stamped event \<equiv> [(''statusMessage'', JStr (MEMTOMEM_STATUS_PREFIX @ event))]"

definition team_hooks :: members where
  "team_hooks = [(''hooks'', JObj [(''PreToolUse'', JArr [hook_rule ''Bash'' ''mm guard'' [], hook_rule ''Edit'' ''mm lint'' []])])]"

definition my_settings :: members where
  "my_settings = [(''theme'', JStr ''dark''), (''hooks'', JObj [(''PreToolUse'', JArr
     [hook_rule ''Bash'' ''my script'' [], hook_rule ''Edit'' ''mm lint --old'' (stamped ''PreToolUse'')]),
     (''Stop'', JArr [hook_rule '''' ''mm bye'' (stamped ''Stop'')])])]"

definition my_settings_synced :: members where
  "my_settings_synced = [(''theme'', JStr ''dark''), (''hooks'', JObj [(''PreToolUse'', JArr
     [hook_rule ''Bash'' ''my script'' [], hook_rule ''Edit'' ''mm lint'' (stamped ''PreToolUse'')])])]"

abbreviation no_digest :: "string \<Rightarrow> nat \<Rightarrow> string \<Rightarrow> string" where
  "no_digest \<equiv> \<lambda>_ _ _. ''00000000''"

definition quiet_view :: "members \<Rightarrow> members \<Rightarrow> sync_view" where
  "quiet_view c d = \<lparr>sv_abandoned_first = False, sv_available = True, sv_canonical = Document c, sv_has_target = True,
     sv_planned = ''settings.json'', sv_inside = True, sv_lock_free = True, sv_abandoned_locked = False,
     sv_canonical_locked = Document c, sv_destination = Some ''settings.json'', sv_existing = Document d,
     sv_unmodified = True, sv_abandoned_last = False\<rparr>"

lemma team_sync: "sync_target no_digest Claude False (quiet_view team_hooks my_settings) =
    (SyncOk, [UserRuleWins ''PreToolUse'' (JStr ''Bash'')], Some (''settings.json'', my_settings_synced))"
  by code_simp

lemma sync_keeps_user_rules_witness:
  "map_of my_settings_synced ''theme'' = map_of my_settings ''theme'' \<and>
    subseq (user_rules (doc_rules my_settings ''PreToolUse'')) (doc_rules my_settings_synced ''PreToolUse'') \<and>
    set (doc_rules my_settings_synced ''PreToolUse'') \<subseteq>
      set (doc_rules my_settings ''PreToolUse'') \<union> set (offered_rules no_digest Claude team_hooks ''PreToolUse'')"
proof -
  have "record_ok my_settings" "record_ok team_hooks" by code_simp+
  with sync_keeps_user_rules[OF team_sync, of my_settings team_hooks "''theme''" "''PreToolUse''"] show ?thesis
    by (simp only: quiet_view_def sync_view.simps) blast
qed

lemma resync_is_stable_witness:
  "(\<exists>ws'. gen_merge no_digest Claude (JObj my_settings_synced) team_hooks = Inr (my_settings_synced, ws')) \<and>
    fst (diff_target no_digest Claude True (Document team_hooks) True (Document my_settings_synced)) = InSync"
  by (rule resync_is_stable[OF team_sync]) (code_simp, simp add: quiet_view_def, code_simp, code_simp)

lemma team_merge: "gen_merge no_digest Claude (JObj my_settings) team_hooks =
    Inr (my_settings_synced, [UserRuleWins ''PreToolUse'' (JStr ''Bash'')])"
  by code_simp

lemma merge_brings_up_to_date_witness:
  "accounted ''PreToolUse'' (doc_rules my_settings_synced ''PreToolUse'') [UserRuleWins ''PreToolUse'' (JStr ''Bash'')]
     (hook_rule ''Bash'' ''mm guard'' (stamped ''PreToolUse''))"
proof -
  let ?r = "hook_rule ''Bash'' ''mm guard'' (stamped ''PreToolUse'')"
  have "record_ok (doc_of (JObj my_settings))" "record_ok team_hooks"
    "list_all (\<lambda>(_, v). is_arr v) (contributed_hooks (fst (offered no_digest Claude team_hooks)))" by code_simp+
  moreover have "?r \<in> set (offered_rules no_digest Claude team_hooks ''PreToolUse'')" "is_obj ?r" by code_simp+
  ultimately show ?thesis using merge_brings_up_to_date[OF team_merge, of ?r "''PreToolUse''"] by blast
qed

definition asking_rule :: json where
  "asking_rule = JObj [(''matcher'', JStr ''Bash''), (''hooks'', JArr [JObj [(''type'', JStr ''prompt''), (''prompt'', JStr ''safe?'')]])]"

definition asking_hooks :: members where
  "asking_hooks = [(''hooks'', JObj [(''PreToolUse'', JArr [asking_rule, hook_rule ''Bash'' ''mm guard'' []])])]"

text \<open>
  An example of the fixed point failing without commands. A canonical event whose first rule asks the model (a
  handler of another type, which is not stamped) and whose second rule runs a command under the same
  matcher: the first synchronisation writes both; the second takes the command's owned slot for
  the first rule, which is then there twice, and reports the command as a conflict with the user.
\<close>

lemma resync_loses_command:
  "let stamp = hook_rule ''Bash'' ''mm guard'' (stamped ''PreToolUse'');
       once = [(''hooks'', JObj [(''PreToolUse'', JArr [asking_rule, stamp])])];
       twice = [(''hooks'', JObj [(''PreToolUse'', JArr [asking_rule, asking_rule])])]
   in gen_merge no_digest Claude JNull asking_hooks = Inr (once, []) \<and>
      gen_merge no_digest Claude (JObj once) asking_hooks = Inr (twice, [UserRuleWins ''PreToolUse'' (JStr ''Bash'')])"
  by code_simp

end
