(* ===== verification/HookPanel.thy ===== *)
theory HookPanel
  imports HookSettings
begin

text \<open>
  The comparison of canonical and target hooks that the web panel shows
  (\<open>web/routes/settings_sync.py\<close>): each canonical rule is synced, pending or in conflict, and the
  document is in sync or not. It is written apart from the merge and meant to agree with it.
\<close>

section \<open>The comparison of the web panel\<close>

datatype panel_status = PanelNoHooks | PanelOutOfSync | PanelInSync | PanelConflicts | PanelNoSource | PanelError

datatype panel_bucket = Synced | Pending | Conflict

text \<open>\<open>_iter_hook_rules\<close>, by event and matcher.\<close>

definition matcher_text :: "json \<Rightarrow> string" where
  "matcher_text v = (case v of JStr s \<Rightarrow> s | _ \<Rightarrow> '''')"

definition hook_rows :: "members \<Rightarrow> ((string \<times> string) \<times> json) list" where
  "hook_rows hooks = concat (map (\<lambda>(event, rules). case rules of
      JArr rs \<Rightarrow> map (\<lambda>r. ((event, matcher_text (rule_matcher r)), r)) (filter (\<lambda>r. is_obj r \<and> is_str (rule_matcher r)) rs)
    | _ \<Rightarrow> []) hooks)"

definition malformed_owned :: "members \<Rightarrow> nat" where
  "malformed_owned hooks = length (filter (\<lambda>r. malformed_rule r \<and> rule_is_memtomem_owned r)
     (concat (map (\<lambda>(_, rules). case rules of JArr rs \<Rightarrow> rs | _ \<Rightarrow> []) hooks)))"

definition rows_at :: "((string \<times> string) \<times> json) list \<Rightarrow> (string \<times> string) \<Rightarrow> json list" where
  "rows_at rows key = map snd (filter (\<lambda>(k, _). k = key) rows)"

definition owned_at :: "members \<Rightarrow> (string \<times> string) \<Rightarrow> json list" where
  "owned_at hooks key = filter rule_is_memtomem_owned (rows_at (hook_rows hooks) key)"

definition users_at :: "members \<Rightarrow> (string \<times> string) \<Rightarrow> json list" where
  "users_at hooks key = filter (\<lambda>r. \<not> rule_is_memtomem_owned r) (rows_at (hook_rows hooks) key)"

text \<open>One pass over the canonical rules; \<open>used\<close> counts the owned slots taken of each key.\<close>

fun panel_rules :: "members \<Rightarrow> string \<Rightarrow> json list \<Rightarrow> (string \<times> string \<Rightarrow> nat)
    \<Rightarrow> (panel_bucket \<times> string \<times> string \<times> json) list \<times> (string \<times> string \<Rightarrow> nat)" where
  "panel_rules target event [] used = ([], used)"
| "panel_rules target event (rule # rules) used = (case (rule, rule_matcher rule) of
      (JObj _, JStr m) \<Rightarrow>
        let key = (event, m); owned = owned_at target key; users = users_at target key
        in if used key < length owned
           then let (out, used') = panel_rules target event rules (used(key := used key + 1))
                in ((if rule_content_equal (owned ! used key) rule then Synced else Pending, event, m, rule) # out, used')
           else let (out, used') = panel_rules target event rules used
                in ((if list_ex (\<lambda>u. rule_content_equal u rule) users then Synced
                     else if users = [] then Pending else Conflict, event, m, rule) # out, used')
    | _ \<Rightarrow> panel_rules target event rules used)"

fun panel_events :: "members \<Rightarrow> members \<Rightarrow> (string \<times> string \<Rightarrow> nat)
    \<Rightarrow> (panel_bucket \<times> string \<times> string \<times> json) list \<times> (string \<times> string \<Rightarrow> nat)" where
  "panel_events target [] used = ([], used)"
| "panel_events target ((event, JArr rules) # canonical) used =
     (let (out, used1) = panel_rules target event rules used;
          (out', used2) = panel_events target canonical used1
      in (out @ out', used2))"
| "panel_events target (_ # canonical) used = panel_events target canonical used"

definition has_hook_rules :: "members \<Rightarrow> bool" where
  "has_hook_rules hooks \<longleftrightarrow> list_ex (\<lambda>(_, rules). case rules of JArr rs \<Rightarrow> list_ex is_obj rs | _ \<Rightarrow> False) hooks"

definition pending_removals :: "members \<Rightarrow> (string \<times> string \<Rightarrow> nat) \<Rightarrow> nat" where
  "pending_removals target used =
     sum_list (map (\<lambda>key. length (owned_at target key) - used key) (remdups (map fst (hook_rows target)))) + malformed_owned target"

definition compare_hooks :: "file_read \<Rightarrow> file_read \<Rightarrow> panel_status \<times> (panel_bucket \<times> string \<times> string \<times> json) list" where
  "compare_hooks canonical target =
     (if target = Malformed then (PanelError, [])
      else case canonical of
          Missing \<Rightarrow> (PanelNoSource, [])
        | Malformed \<Rightarrow> (PanelError, [])
        | Document c \<Rightarrow> (case j_get_or c ''hooks'' (JObj []) of
            JObj src \<Rightarrow>
              let offered = contributed_hooks (stamp_status_markers (fst (drop_nonstring_matchers [(''hooks'', JObj src)])));
                  target_hooks = (case target of Document d \<Rightarrow> contributed_hooks d | _ \<Rightarrow> []);
                  (rows, used) = panel_events target_hooks offered (\<lambda>_. 0);
                  has = (\<lambda>b. list_ex (\<lambda>(b', _). b' = b) rows)
              in if \<not> has_hook_rules offered
                 then (if list_ex (\<lambda>(_, rules). case rules of JArr rs \<Rightarrow> list_ex rule_is_memtomem_owned rs | _ \<Rightarrow> False) target_hooks
                       then PanelOutOfSync else PanelNoHooks, [])
                 else (if has Conflict then PanelConflicts
                       else if has Pending \<or> 0 < pending_removals target_hooks used then PanelOutOfSync else PanelInSync, rows)
          | _ \<Rightarrow> (PanelError, [])))"

section \<open>The panel and the merge see the same slots\<close>

lemma rows_of_event: "od_ok T \<Longrightarrow> rows_at (hook_rows T) (e, m) = filter (\<lambda>r. is_obj r \<and> rule_matcher r = JStr m) (rules_at T e)"
proof (induction T)
  case (Cons p T)
  obtain e' v where p: "p = (e', v)" by fastforce
  let ?rows = "\<lambda>rs. map (\<lambda>r. ((e', matcher_text (rule_matcher r)), r)) (filter (\<lambda>r. is_obj r \<and> is_str (rule_matcher r)) rs)"
  have key: "is_str v \<and> matcher_text v = m \<longleftrightarrow> v = JStr m" for v by (cases v) (auto simp: is_str_def matcher_text_def)
  have here: "rows_at (?rows rs) (e, m) = (if e' = e then filter (\<lambda>r. is_obj r \<and> rule_matcher r = JStr m) rs else [])" for rs
    by (induction rs) (auto simp: rows_at_def key[symmetric])
  have rest: "hook_rows (p # T) = (case v of JArr rs \<Rightarrow> ?rows rs | _ \<Rightarrow> []) @ hook_rows T"
    by (cases v) (simp_all add: hook_rows_def p)
  have app: "rows_at (a @ b) (e, m) = rows_at a (e, m) @ rows_at b (e, m)" for a b by (simp add: rows_at_def)
  have none: "e' = e \<Longrightarrow> rules_at T e = []" using Cons.prems p by (simp add: rules_at_def map_of_eq_None_iff[THEN iffD2])
  have nil: "rows_at [] (e, m) = []" by (simp add: rows_at_def)
  show ?case using Cons none unfolding rest app
    by (cases v) (auto simp: here nil p rules_at_def)
qed (simp add: rows_at_def hook_rows_def rules_at_def)

abbreviation owned_of :: "string \<Rightarrow> json list \<Rightarrow> json list" where
  "owned_of m rs \<equiv> filter (\<lambda>r. rule_is_memtomem_owned r \<and> rule_matcher r = JStr m) rs"

lemma owned_at_eq: "od_ok T \<Longrightarrow> owned_at T (e, m) = owned_of m (rules_at T e)"
  by (auto simp: owned_at_def rows_of_event intro!: filter_cong dest: owned_obj)

lemma users_at_eq: "od_ok T \<Longrightarrow> users_at T (e, m) = filter (\<lambda>r. is_obj r \<and> rule_matcher r = JStr m) (user_rules (rules_at T e))"
  by (auto simp: users_at_def rows_of_event intro!: filter_cong)

lemma value_eq_str: "value_eq a (JStr m) \<longleftrightarrow> a = JStr m"
  by (cases a) (auto simp: value_eq_def json_eq.simps)

lemma slots_count: "used m \<le> length (queue_of cs m) \<Longrightarrow>
    slots_used cs rs used m = min (length (queue_of cs m)) (used m + length (owned_of m rs))"
proof (induction rs used rule: place_induct[where cs = cs])
  case (hit r rs used m')
  have at: "take_slot used m' m = (if m = m' then used m' + 1 else used m)" by (rule take_slot_at)
  have "take_slot used m' m \<le> length (queue_of cs m)" using at hit(3,5) by (auto split: if_splits)
  then have "slots_used cs rs (take_slot used m') m = min (length (queue_of cs m)) (take_slot used m' m + length (owned_of m rs))"
    by (rule hit(4))
  then show ?case using at hit(1-3) by (auto simp: slots_steps)
next
  case (miss r rs used m')
  then show ?case by (auto simp: slots_steps)
next
  case (bad r rs used)
  then have "rule_matcher r \<noteq> JStr m" by (auto simp: is_str_def)
  then show ?case using bad by (simp add: slots_steps)
qed (auto simp: slots_steps)

lemma place_user_rules: "queue_ready cs \<Longrightarrow> user_rules (fst (place_owned event cs rs used)) = user_rules rs"
proof (induction rs used rule: place_induct[where cs = cs])
  case (hit r rs used m)
  then show ?case using queue_owned[OF hit(5,3)] by (simp add: place_steps)
qed (simp_all add: place_steps)

lemma same_user_filter: "same_user K c = filter (\<lambda>r. is_obj r \<and> value_eq (rule_matcher r) (rule_matcher c)) (user_rules K)"
  by (auto simp: same_user_def intro!: filter_cong)

text \<open>Within one event: the contributions, what the merge placed, and what the panel looks at.\<close>

lemma placed_index:
  assumes "k < length (queue_of (enumerate 0 rules) m)"
  shows "fst (queue_of (enumerate 0 rules) m ! k) \<in> set (fst (snd (place_owned e (enumerate 0 rules) existing (\<lambda>_. 0)))) \<longleftrightarrow>
    k < length (owned_of m existing)"
proof -
  let ?cs = "enumerate 0 rules" and ?q = "queue_of (enumerate 0 rules) m"
  let ?used = "slots_used ?cs existing (\<lambda>_. 0)"
  have len: "?used m = min (length (queue_of ?cs m)) (length (owned_of m existing))" for m
    using slots_count[of "\<lambda>_. 0" m ?cs existing] by simp
  have ids: "set (fst (snd (place_owned e ?cs existing (\<lambda>_. 0)))) = {i. \<exists>m k. k < ?used m \<and> i = fst (queue_of ?cs m ! k)}"
    by (simp add: placed_slots)
  have "fst (?q ! k) \<in> set (fst (snd (place_owned e ?cs existing (\<lambda>_. 0)))) \<longleftrightarrow> ?q ! k \<in> set (take (?used m) ?q)"
    by (rule placed_front[OF _ ids _ nth_mem[OF assms]]) (simp_all add: len)
  moreover have "distinct ?q" using distinct_enumerate by (simp add: queue_of_def)
  ultimately show ?thesis using assms
    by (auto simp: len in_set_conv_nth nth_eq_iff_index_eq intro!: exI[of _ k])
qed

text \<open>The panel's rows of one event, against the merge's second pass over the same contributions.\<close>

definition conflicting :: "json list \<Rightarrow> json \<Rightarrow> bool" where
  "conflicting users c \<longleftrightarrow> users \<noteq> [] \<and> \<not> list_ex (\<lambda>u. rule_content_equal u c) users"

definition conflict_key :: "hook_warning \<Rightarrow> (string \<times> json) option" where
  "conflict_key w = (case w of NoMarker e m \<Rightarrow> Some (e, m) | UserRuleWins e m \<Rightarrow> Some (e, m) | _ \<Rightarrow> None)"

abbreviation conflict_keys :: "hook_warning list \<Rightarrow> (string \<times> json) list" where
  "conflict_keys ws \<equiv> List.map_filter conflict_key ws"

abbreviation panel_conflicts :: "(panel_bucket \<times> string \<times> string \<times> json) list \<Rightarrow> (string \<times> json) list" where
  "panel_conflicts rows \<equiv> map (\<lambda>(_, e, m, _). (e, JStr m)) (filter (\<lambda>(b, _). b = Conflict) rows)"

lemma add_conflicts:
  assumes "queue_ready cs"
  shows "conflict_keys (snd (add_contributions event placed cs result)) =
    map (\<lambda>(_, c). (event, rule_matcher c)) (filter (\<lambda>(i, c). i \<notin> set placed \<and> conflicting (same_user result c) c) cs)"
  using assms
proof (induction cs arbitrary: result)
  case (Cons p cs)
  obtain i c where p: "p = (i, c)" by fastforce
  have c: "rule_is_memtomem_owned c" and ready: "queue_ready cs" using Cons.prems p by (simp_all add: queue_ready_def)
  have "same_user (result @ [c]) d = same_user result d" for d using c by (rule same_user_owned)
  then show ?case using Cons.IH[OF ready]
    by (simp add: p Let_def case_prod_beta conflicting_def map_filter_simps conflict_key_def)
qed (simp add: map_filter_simps)

lemma place_no_conflicts: "conflict_keys (snd (snd (place_owned event cs rs used))) = []"
  by (induction rs used rule: place_induct[where cs = cs]) (simp_all add: place_steps map_filter_simps conflict_key_def)

lemma map_filter_append: "List.map_filter f (xs @ ys) = List.map_filter f xs @ List.map_filter f ys"
  by (simp add: map_filter_def)

text \<open>What the panel says of a rule: its bucket, given whether the merge has placed it.\<close>

lemma panel_post:
  assumes "queue_ready post"
    and "\<And>m. drop (n m) (queue_of cs m) = filter (\<lambda>(_, c). rule_matcher c = JStr m) post"
    and "\<And>m. used (e, m) = min (n m) (length (owned_at T (e, m)))"
    and "\<And>m k. k < length (queue_of cs m) \<Longrightarrow> fst (queue_of cs m ! k) \<in> P \<longleftrightarrow> k < length (owned_at T (e, m))"
    and "\<And>m c. rule_matcher c = JStr m \<Longrightarrow> users_at T (e, m) = users c"
    and "list_all is_obj (map snd post)"
    and "\<And>m. n m \<le> length (queue_of cs m)"
  shows "panel_conflicts (fst (panel_rules T e (map snd post) used)) =
      map (\<lambda>(_, c). (e, rule_matcher c)) (filter (\<lambda>(i, c). i \<notin> P \<and> conflicting (users c) c) post) \<and>
    (list_all (\<lambda>(b, _). b = Synced) (fst (panel_rules T e (map snd post) used)) \<longrightarrow>
      (\<forall>m k. n m \<le> k \<and> k < length (queue_of cs m) \<and> k < length (owned_at T (e, m)) \<longrightarrow>
        rule_content_equal (owned_at T (e, m) ! k) (snd (queue_of cs m ! k))) \<and>
      list_all (\<lambda>(i, c). i \<in> P \<or> users c \<noteq> []) post) \<and>
    (\<forall>m. snd (panel_rules T e (map snd post) used) (e, m) = min (length (queue_of cs m)) (length (owned_at T (e, m))))"
  using assms
proof (induction post arbitrary: used n)
  case Nil
  have "n m = length (queue_of cs m)" for m using Nil(2)[of m] Nil(7)[of m] by simp
  then show ?case using Nil(3) by auto
next
  case (Cons p post)
  obtain i c where p: "p = (i, c)" by fastforce
  have ready: "queue_ready post" using Cons.prems(1) p by (simp add: queue_ready_def)
  have "is_str (rule_matcher c)" using Cons.prems(1) p by (simp add: queue_ready_def)
  then obtain m where m: "rule_matcher c = JStr m" by (cases "rule_matcher c") (simp_all add: is_str_def)
  obtain d where d: "c = JObj d" using Cons.prems(6) p by (cases c) (simp_all add: is_obj_def)
  have front: "drop (n m) (queue_of cs m) = (i, c) # filter (\<lambda>(_, c). rule_matcher c = JStr m) post"
    using Cons.prems(2)[of m] m by (simp add: p)
  then have len: "n m < length (queue_of cs m)" and at: "queue_of cs m ! n m = (i, c)"
    by (metis drop_all linorder_not_le list.distinct(1), metis hd_drop_conv_nth drop_all linorder_not_le list.distinct(1) list.sel(1))
  have inP: "i \<in> P \<longleftrightarrow> n m < length (owned_at T (e, m))" using Cons.prems(4)[OF len] at by simp
  have rest: "drop (take_slot n m m') (queue_of cs m') = filter (\<lambda>(_, c). rule_matcher c = JStr m') post" for m'
  proof (cases "m' = m")
    case True
    then show ?thesis using arg_cong[OF front, of tl] by (simp add: take_slot_at drop_Suc tl_drop)
  next
    case False
    then show ?thesis using Cons.prems(2)[of m'] m by (simp add: p take_slot_at)
  qed
  define used' where "used' = (if n m < length (owned_at T (e, m)) then used((e, m) := used (e, m) + 1) else used)"
  have used': "used' (e, m') = min (take_slot n m m') (length (owned_at T (e, m')))" for m'
    using Cons.prems(3)[of m'] Cons.prems(3)[of m] by (auto simp: used'_def take_slot_at)
  have bound: "take_slot n m m' \<le> length (queue_of cs m')" for m' using Cons.prems(7)[of m'] len by (simp add: take_slot_at)
  have objs: "list_all is_obj (map snd post)" using Cons.prems(6) by simp
  note IH = Cons.IH[OF ready rest used' Cons.prems(4,5) objs bound]
  define b where "b = (if i \<in> P then (if rule_content_equal (owned_at T (e, m) ! n m) c then Synced else Pending)
     else if list_ex (\<lambda>u. rule_content_equal u c) (users c) then Synced else if users c = [] then Pending else Conflict)"
  have step: "panel_rules T e (map snd (p # post)) used =
      ((b, e, m, c) # fst (panel_rules T e (map snd post) used'), snd (panel_rules T e (map snd post) used'))"
    using Cons.prems(3)[of m] Cons.prems(5)[OF m] m inP
    by (auto simp: p d b_def used'_def case_prod_beta Let_def)
  have conflict: "b = Conflict \<longleftrightarrow> i \<notin> P \<and> conflicting (users c) c" by (auto simp: b_def conflicting_def)
  have synced: "i \<notin> P \<or> rule_content_equal (owned_at T (e, m) ! n m) c" "i \<in> P \<or> users c \<noteq> []" if "b = Synced"
    using that by (auto simp: b_def split: if_splits)
  have allD: "b = Synced \<and> list_all (\<lambda>(b, _). b = Synced) (fst (panel_rules T e (map snd post) used'))"
    if "list_all (\<lambda>(b, _). b = Synced) (fst (panel_rules T e (map snd (p # post)) used))"
    using that unfolding step by simp
  have "panel_conflicts (fst (panel_rules T e (map snd (p # post)) used)) =
      map (\<lambda>(_, c). (e, rule_matcher c)) (filter (\<lambda>(i, c). i \<notin> P \<and> conflicting (users c) c) (p # post))"
    unfolding step using IH conflict m by (simp add: p)
  moreover have "rule_content_equal (owned_at T (e, m') ! k) (snd (queue_of cs m' ! k))"
    if all: "list_all (\<lambda>(b, _). b = Synced) (fst (panel_rules T e (map snd (p # post)) used))"
      and k: "n m' \<le> k" "k < length (queue_of cs m')" "k < length (owned_at T (e, m'))" for m' k
  proof (cases "m' = m \<and> k = n m")
    case True
    then show ?thesis using synced(1) allD[OF all] inP at k by auto
  next
    case False
    then have "take_slot n m m' \<le> k" using k by (auto simp: take_slot_at)
    then show ?thesis using IH allD[OF all] k by blast
  qed
  moreover have "list_all (\<lambda>(i, c). i \<in> P \<or> users c \<noteq> []) (p # post)"
    if "list_all (\<lambda>(b, _). b = Synced) (fst (panel_rules T e (map snd (p # post)) used))"
    using allD[OF that] IH synced(2) by (simp add: p)
  moreover have "\<forall>m. snd (panel_rules T e (map snd (p # post)) used) (e, m) = min (length (queue_of cs m)) (length (owned_at T (e, m)))"
    unfolding step using IH by simp
  ultimately show ?case by blast
qed

lemma panel_objects: "panel_rules T e (filter is_obj rules) used = panel_rules T e rules used"
proof (induction rules arbitrary: used)
  case (Cons r rules)
  then show ?case by (cases r; cases "rule_matcher r") (simp_all add: is_obj_def Let_def case_prod_beta del: fun_upd_apply)
qed simp

text \<open>The same rule, or one that does the same.\<close>

definition same_rule :: "json \<Rightarrow> json \<Rightarrow> bool" where
  "same_rule r r' \<longleftrightarrow> r = r' \<or> rule_content_equal r r'"

lemma same_rule_refl [simp]: "same_rule r r"
  by (simp add: same_rule_def)

lemma same_rule_content: "rule_content_equal r r' \<Longrightarrow> same_rule r r'"
  by (simp add: same_rule_def)

lemma place_same:
  assumes "\<And>m. used m + length (owned_of m rs) \<le> length (queue_of cs m)"
    and "\<And>m k. k < length (owned_of m rs) \<Longrightarrow> rule_content_equal (owned_of m rs ! k) (snd (queue_of cs m ! (used m + k)))"
    and "\<not> list_ex (\<lambda>r. rule_is_memtomem_owned r \<and> \<not> is_str (rule_matcher r)) rs"
  shows "list_all2 same_rule rs (fst (place_owned event cs rs used))"
  using assms
proof (induction rs arbitrary: used)
  case (Cons r rs)
  show ?case
  proof (cases "rule_is_memtomem_owned r")
    case False
    have "list_all2 same_rule rs (fst (place_owned event cs rs used))"
      by (rule Cons.IH) (use Cons.prems False in auto)
    then show ?thesis using False by (simp add: place_user)
  next
    case True
    then have "is_str (rule_matcher r)" using Cons.prems(3) by auto
    then obtain m where m: "rule_matcher r = JStr m" by (cases "rule_matcher r") (simp_all add: is_str_def)
    have len: "used m < length (queue_of cs m)" using Cons.prems(1)[of m] True m by simp
    have first: "rule_content_equal r (snd (queue_of cs m ! used m))" using Cons.prems(2)[of 0 m] True m by simp
    have tail: "owned_of m' (r # rs) = (if m' = m then r # owned_of m rs else owned_of m' rs)" for m' using True m by auto
    have "list_all2 same_rule rs (fst (place_owned event cs rs (take_slot used m)))"
    proof (rule Cons.IH)
      show "take_slot used m m' + length (owned_of m' rs) \<le> length (queue_of cs m')" for m'
        using Cons.prems(1)[of m'] unfolding tail by (auto simp: take_slot_at split: if_splits)
      show "rule_content_equal (owned_of m' rs ! k) (snd (queue_of cs m' ! (take_slot used m m' + k)))" if "k < length (owned_of m' rs)" for m' k
        using Cons.prems(2)[of "if m' = m then Suc k else k" m'] that unfolding tail by (auto simp: take_slot_at split: if_splits)
      show "\<not> list_ex (\<lambda>r. rule_is_memtomem_owned r \<and> \<not> is_str (rule_matcher r)) rs" using Cons.prems(3) by simp
    qed
    then show ?thesis using place_hit[where used = used and m = m, OF True m len, of event rs] same_rule_content[OF first] by simp
  qed
qed simp

definition stale_malformed :: "json list \<Rightarrow> bool" where
  "stale_malformed rs \<longleftrightarrow> list_ex (\<lambda>r. rule_is_memtomem_owned r \<and> \<not> is_str (rule_matcher r)) rs"

text \<open>One event: the panel's conflicts are the merge's, and a panel in sync leaves the merge nothing to do.\<close>

lemma panel_event:
  assumes "od_ok T" "list_all rule_ready rules" "\<And>m. used (e, m) = 0"
  defines "ex \<equiv> rules_at T e"
  shows "panel_conflicts (fst (panel_rules T e rules used)) = conflict_keys (snd (merge_event e rules ex)) \<and>
    (list_all (\<lambda>(b, _). b = Synced) (fst (panel_rules T e rules used)) \<longrightarrow>
     (\<forall>m. length (owned_of m ex) \<le> snd (panel_rules T e rules used) (e, m)) \<longrightarrow> \<not> stale_malformed ex \<longrightarrow>
      list_all2 same_rule ex (fst (merge_event e rules ex)))"
proof -
  define cs where "cs = enumerate 0 (filter is_obj rules)"
  define pl where "pl = place_owned e cs ex (\<lambda>_. 0)"
  define users where "users = same_user (fst pl)"
  have ready: "queue_ready cs" using assms(2) by (simp add: cs_def enumerate_ready)
  have ids: "map snd cs = filter is_obj rules" by (simp add: cs_def)
  have owned: "owned_at T (e, m) = owned_of m ex" for m using owned_at_eq[OF assms(1)] by (simp add: ex_def)
  have users: "users_at T (e, m) = users c" if "rule_matcher c = JStr m" for m c
    using that place_user_rules[OF ready, of e ex "\<lambda>_. 0"]
    by (simp add: users_at_eq[OF assms(1)] users_def same_user_filter value_eq_str pl_def ex_def)
  have placed: "fst (queue_of cs m ! k) \<in> set (fst (snd pl)) \<longleftrightarrow> k < length (owned_at T (e, m))" if "k < length (queue_of cs m)" for m k
    using placed_index[of k "filter is_obj rules" m e ex] that by (simp add: cs_def pl_def owned)
  have panel: "panel_conflicts (fst (panel_rules T e (map snd cs) used)) =
      map (\<lambda>(_, c). (e, rule_matcher c)) (filter (\<lambda>(i, c). i \<notin> set (fst (snd pl)) \<and> conflicting (users c) c) cs) \<and>
    (list_all (\<lambda>(b, _). b = Synced) (fst (panel_rules T e (map snd cs) used)) \<longrightarrow>
      (\<forall>m k. 0 \<le> k \<and> k < length (queue_of cs m) \<and> k < length (owned_at T (e, m)) \<longrightarrow>
        rule_content_equal (owned_at T (e, m) ! k) (snd (queue_of cs m ! k))) \<and>
      list_all (\<lambda>(i, c). i \<in> set (fst (snd pl)) \<or> users c \<noteq> []) cs) \<and>
    (\<forall>m. snd (panel_rules T e (map snd cs) used) (e, m) = min (length (queue_of cs m)) (length (owned_at T (e, m))))"
  proof (rule panel_post[OF ready, where n = "\<lambda>_. 0"])
    show "drop 0 (queue_of cs m) = filter (\<lambda>(_, c). rule_matcher c = JStr m) cs" for m by (simp add: queue_of_def)
    show "list_all is_obj (map snd cs)" by (simp add: ids list_all_iff)
  qed (use assms(3) placed users in simp_all)
  have merge: "merge_event e rules ex = (fst (add_contributions e (fst (snd pl)) cs (fst pl)), snd (snd pl) @ snd (add_contributions e (fst (snd pl)) cs (fst pl)))"
    by (simp add: merge_event_def Let_def case_prod_beta pl_def cs_def)
  have conflicts: "conflict_keys (snd (merge_event e rules ex)) =
      map (\<lambda>(_, c). (e, rule_matcher c)) (filter (\<lambda>(i, c). i \<notin> set (fst (snd pl)) \<and> conflicting (users c) c) cs)"
    using place_no_conflicts[of e cs ex "\<lambda>_. 0"] add_conflicts[OF ready, of e "fst (snd pl)" "fst pl"]
    by (simp add: merge map_filter_append users_def pl_def)
  have "list_all2 same_rule ex (fst (merge_event e rules ex))"
    if synced: "list_all (\<lambda>(b, _). b = Synced) (fst (panel_rules T e (map snd cs) used))"
      and all: "\<forall>m. length (owned_of m ex) \<le> snd (panel_rules T e (map snd cs) used) (e, m)" and clean: "\<not> stale_malformed ex"
  proof -
    have enough: "length (owned_of m ex) \<le> length (queue_of cs m)" for m
    proof -
      have "snd (panel_rules T e (map snd cs) used) (e, m) = min (length (queue_of cs m)) (length (owned_at T (e, m)))"
        using conjunct2[OF conjunct2[OF panel]] by (rule spec)
      then show ?thesis using spec[OF all, of m] by simp
    qed
    have "list_all2 same_rule ex (fst pl)" unfolding pl_def
    proof (rule place_same)
      show "0 + length (owned_of m ex) \<le> length (queue_of cs m)" for m using enough by simp
      show "rule_content_equal (owned_of m ex ! k) (snd (queue_of cs m ! (0 + k)))" if "k < length (owned_of m ex)" for m k
      proof -
        have "k < length (queue_of cs m)" using that enough[of m] by simp
        then have "rule_content_equal (owned_at T (e, m) ! k) (snd (queue_of cs m ! k))"
          using conjunct1[OF mp[OF conjunct1[OF conjunct2[OF panel]] synced]] that by (simp add: owned)
        then show ?thesis by (simp add: owned)
      qed
      show "\<not> list_ex (\<lambda>r. rule_is_memtomem_owned r \<and> \<not> is_str (rule_matcher r)) ex" using clean by (simp add: stale_malformed_def)
    qed
    moreover have "list_all (\<lambda>(i, c). i \<in> set (fst (snd pl)) \<or> users c \<noteq> []) cs" using panel synced by blast
    then have "filter (\<lambda>(i, c). i \<notin> set (fst (snd pl)) \<and> users c = []) cs = []"
      by (auto simp: filter_empty_conv list_all_iff)
    ultimately show ?thesis using add_eq[OF ready, of e "fst (snd pl)" "fst pl"] by (simp add: merge users_def)
  qed
  then show ?thesis using panel conflicts panel_objects[of T e rules used] by (simp add: ids)
qed

section \<open>The whole record\<close>

lemma panel_rules_other: "e' \<noteq> e \<Longrightarrow> snd (panel_rules T e rules used) (e', m) = used (e', m)"
proof (induction rules arbitrary: used)
  case (Cons r rules)
  then show ?case by (cases r; cases "rule_matcher r") (simp_all add: Let_def case_prod_beta)
qed simp

lemma panel_events_other: "e \<notin> set (od_keys src) \<Longrightarrow> snd (panel_events T src used) (e, m) = used (e, m)"
proof (induction src arbitrary: used)
  case (Cons p src)
  obtain e' v where "p = (e', v)" by fastforce
  then show ?case using Cons by (cases v) (simp_all add: case_prod_beta panel_rules_other)
qed simp

lemma no_users_no_conflicts: "queue_ready cs \<Longrightarrow> conflict_keys (snd (add_contributions e placed cs [])) = []"
  by (simp add: add_conflicts conflicting_def same_user_def)

lemma merge_into_empty:
  assumes "list_all rule_ready rules"
  shows "fst (merge_event e rules []) = filter is_obj rules" "conflict_keys (snd (merge_event e rules [])) = []"
proof -
  let ?cs = "enumerate 0 (filter is_obj rules)"
  have ready: "queue_ready ?cs" using assms by (rule enumerate_ready)
  have "map snd (filter (\<lambda>(i, c). i \<notin> set [] \<and> same_user [] c = []) ?cs) = filter is_obj rules"
    by (simp add: same_user_def filter_True case_prod_beta)
  then show "fst (merge_event e rules []) = filter is_obj rules"
    using add_eq[OF ready, of e "[]" "[]"] by (simp add: merge_event_def Let_def case_prod_beta)
  show "conflict_keys (snd (merge_event e rules [])) = []"
    using no_users_no_conflicts[OF ready] by (simp add: merge_event_def Let_def case_prod_beta)
qed

text \<open>The panel's rows agree with the merge on the events of a record.\<close>

definition agrees :: "members \<Rightarrow> members \<Rightarrow> (string \<times> string \<Rightarrow> nat) \<Rightarrow> bool" where
  "agrees T src used \<longleftrightarrow>
    panel_conflicts (fst (panel_events T src used)) = concat (map (\<lambda>p. conflict_keys (warned_at T p)) src) \<and>
    (list_all (\<lambda>(b, _). b = Synced) (fst (panel_events T src used)) \<longrightarrow>
      (\<forall>(e, v) \<in> set src. \<forall>rules. v = JArr rules \<longrightarrow>
        (\<forall>m. length (owned_of m (rules_at T e)) \<le> snd (panel_events T src used) (e, m)) \<longrightarrow> \<not> stale_malformed (rules_at T e) \<longrightarrow>
        list_all2 same_rule (rules_at T e) (fst (merge_event e rules (rules_at T e)))))"

lemma panel_all:
  assumes "od_ok T" "each_rule rule_ready src" "od_ok src" "\<And>e m. e \<in> set (od_keys src) \<Longrightarrow> used (e, m) = 0"
    and "\<And>e rules v. (e, JArr rules) \<in> set src \<Longrightarrow> map_of T e = Some v \<Longrightarrow> is_arr v"
  shows "agrees T src used"
  using assms(2-5)
proof (induction src arbitrary: used)
  case (Cons p src)
  obtain e v where p: "p = (e, v)" by fastforce
  have new: "e \<notin> set (od_keys src)" and ok: "od_ok src" using Cons.prems(2) p by simp_all
  have ready: "each_rule rule_ready src" using Cons.prems(1) p by (cases v) simp_all
  show ?case
  proof (cases "\<exists>rules. v = JArr rules")
    case False
    then have head: "warned_at T p = []" "panel_events T (p # src) used = panel_events T src used"
      by (cases v; simp add: p warned_at_def)+
    have zero: "used (e', m) = 0" if "e' \<in> set (od_keys src)" for e' m using Cons.prems(3) that by simp
    have arrs: "is_arr w" if "(e', JArr rs) \<in> set src" "map_of T e' = Some w" for e' rs w using Cons.prems(4)[of e' rs w] that by simp
    have "agrees T src used" by (rule Cons.IH[OF ready ok]) (fact zero, fact arrs)
    then show ?thesis unfolding agrees_def head(2) using False head(1)[unfolded p] by (simp add: p map_filter_simps)
  next
    case True
    then obtain rules where v: "v = JArr rules" by blast
    have rules: "list_all rule_ready rules" using Cons.prems(1) p v by simp
    let ?here = "panel_rules T e rules used"
    have zero: "snd ?here (e', m) = 0" if "e' \<in> set (od_keys src)" for e' m
      using Cons.prems(3)[of e' m] that new panel_rules_other[of e' e] by (metis list.set_intros(2) list.simps(9))
    have arrs: "is_arr w" if "(e', JArr rs) \<in> set src" "map_of T e' = Some w" for e' rs w using Cons.prems(4)[of e' rs w] that by simp
    have "agrees T src (snd ?here)" by (rule Cons.IH[OF ready ok]) (fact zero, fact arrs)
    note IH = this[unfolded agrees_def]
    have ev: "panel_conflicts (fst ?here) = conflict_keys (snd (merge_event e rules (rules_at T e))) \<and>
        (list_all (\<lambda>(b, _). b = Synced) (fst ?here) \<longrightarrow>
         (\<forall>m. length (owned_of m (rules_at T e)) \<le> snd ?here (e, m)) \<longrightarrow> \<not> stale_malformed (rules_at T e) \<longrightarrow>
          list_all2 same_rule (rules_at T e) (fst (merge_event e rules (rules_at T e))))"
      by (rule panel_event[OF assms(1) rules]) (simp add: Cons.prems(3) p)
    have split: "panel_events T (p # src) used = (fst ?here @ fst (panel_events T src (snd ?here)), snd (panel_events T src (snd ?here)))"
      by (simp add: p v case_prod_beta)
    have warned: "conflict_keys (warned_at T p) = conflict_keys (snd (merge_event e rules (rules_at T e)))"
    proof (cases "map_of T e")
      case None
      then show ?thesis using merge_into_empty(2)[OF rules, of e] by (simp add: p v warned_at_def rules_at_def map_filter_simps)
    next
      case (Some w)
      then obtain ex where "w = JArr ex" using Cons.prems(4)[of e rules w] p v by (cases w) (auto simp: is_arr_def)
      then show ?thesis using Some by (simp add: p v warned_at_def rules_at_def)
    qed
    have conflicts: "panel_conflicts (fst (panel_events T (p # src) used)) = concat (map (\<lambda>p. conflict_keys (warned_at T p)) (p # src))"
      unfolding split using ev IH warned by simp
    have later: "snd (panel_events T src (snd ?here)) (e, m) = snd ?here (e, m)" for m by (rule panel_events_other[OF new])
    show ?thesis using conflicts IH ev unfolding agrees_def split by (auto simp: p v later)
  qed
qed (simp add: map_filter_simps agrees_def)

lemma removals_none:
  assumes "od_ok T" "pending_removals T used = 0"
  shows "length (owned_of m (rules_at T e)) \<le> used (e, m)" "\<not> stale_malformed (rules_at T e)"
proof -
  have zero: "length (owned_at T key) - used key = 0" if "key \<in> set (map fst (hook_rows T))" for key
    using assms(2) that by (auto simp: pending_removals_def sum_list_eq_0_iff)
  show "length (owned_of m (rules_at T e)) \<le> used (e, m)"
  proof (cases "(e, m) \<in> set (map fst (hook_rows T))")
    case True
    then show ?thesis using zero[OF True] owned_at_eq[OF assms(1)] by simp
  next
    case False
    then have "rows_at (hook_rows T) (e, m) = []" by (force simp: rows_at_def filter_empty_conv)
    then have "owned_at T (e, m) = []" by (simp add: owned_at_def)
    then show ?thesis using owned_at_eq[OF assms(1)] by simp
  qed
  have "malformed_owned T = 0" using assms(2) by (simp add: pending_removals_def)
  then have clean: "\<not> (malformed_rule r \<and> rule_is_memtomem_owned r)" if "(e, JArr rs) \<in> set T" "r \<in> set rs" for rs r
    using that by (fastforce simp: malformed_owned_def filter_empty_conv)
  show "\<not> stale_malformed (rules_at T e)"
  proof (cases "\<exists>rs. map_of T e = Some (JArr rs)")
    case True
    then obtain rs where rs: "map_of T e = Some (JArr rs)" by blast
    then show ?thesis using clean[OF map_of_SomeD[OF rs]] owned_obj
      by (auto simp: rules_at_def stale_malformed_def list_ex_iff malformed_rule_def)
  next
    case False
    then have "rules_at T e = []" by (auto simp: rules_at_def split: option.splits json.splits)
    then show ?thesis by (simp add: stale_malformed_def)
  qed
qed

lemma drop_no_conflicts: "conflict_keys (concat (map drop_warnings h)) = []"
proof (induction h)
  case (Cons p h)
  obtain e v where "p = (e, v)" by fastforce
  moreover have "conflict_keys (map (\<lambda>_. NonStringDropped e) rs) = []" for rs :: "json list"
    by (induction rs) (simp_all add: map_filter_simps conflict_key_def)
  ultimately show ?case using Cons by (cases v) (simp_all add: drop_warnings_def map_filter_append map_filter_simps)
qed (simp add: map_filter_simps)

lemma prune_no_conflicts: "conflict_keys (concat (map (prune_warnings emitted) h)) = []"
proof (induction h)
  case (Cons p h)
  obtain e v where "p = (e, v)" by fastforce
  moreover have "conflict_keys (map (\<lambda>_. OwnedRemoved e) rs) = []" for rs :: "json list"
    by (induction rs) (simp_all add: map_filter_simps conflict_key_def)
  ultimately show ?case using Cons by (cases v) (simp_all add: prune_warnings_def map_filter_append map_filter_simps)
qed (simp add: map_filter_simps)

lemma conflict_keys_concat: "conflict_keys (concat xs) = concat (map conflict_keys xs)"
  by (induction xs) (simp_all add: map_filter_append map_filter_simps)

text \<open>What the comparison computes when both files are documents.\<close>

abbreviation claude_offers :: "members \<Rightarrow> members" where
  "claude_offers c \<equiv> map stamp_event (map drop_event (contributed_hooks c))"

lemma compare_cases:
  assumes "compare_hooks (Document c) (Document d) = (st, rows)"
  obtains "st = PanelError" "rows = []" "contributed_hooks c = []"
  | "\<not> has_hook_rules (claude_offers c)" "rows = []" "st \<noteq> PanelInSync"
  | used where "has_hook_rules (claude_offers c)" "panel_events (contributed_hooks d) (claude_offers c) (\<lambda>_. 0) = (rows, used)"
      "st = PanelInSync \<longleftrightarrow> \<not> list_ex (\<lambda>(b, _). b = Conflict) rows \<and> \<not> list_ex (\<lambda>(b, _). b = Pending) rows \<and>
         pending_removals (contributed_hooks d) used = 0"
proof (cases "j_get_or c ''hooks'' (JObj [])")
  case (JObj src)
  then have src: "contributed_hooks c = src" by (simp add: contributed_hooks_def)
  have offers: "contributed_hooks (stamp_status_markers (fst (drop_nonstring_matchers [(''hooks'', JObj src)]))) = claude_offers c"
    by (simp add: stamped_hooks dropped_hooks src)
  show ?thesis
  proof (cases "has_hook_rules (claude_offers c)")
    case False
    then show ?thesis using that(2) assms JObj offers by (auto simp: compare_hooks_def Let_def case_prod_beta split: if_splits)
  next
    case True
    then show ?thesis using that(3)[of "snd (panel_events (contributed_hooks d) (claude_offers c) (\<lambda>_. 0))"] assms JObj offers
      by (auto simp: compare_hooks_def Let_def case_prod_beta split: if_splits)
  qed
qed (use that(1) assms in \<open>auto simp: compare_hooks_def contributed_hooks_def\<close>)

lemma empty_rules_no_conflicts:
  assumes "\<not> has_hook_rules src"
  shows "concat (map (\<lambda>p. conflict_keys (warned_at T p)) src) = []"
proof -
  have "conflict_keys (warned_at T (e, v)) = []" if "(e, v) \<in> set src" for e v
  proof (cases v)
    case (JArr rs)
    then have none: "filter is_obj rs = []" using assms that by (fastforce simp: has_hook_rules_def list_ex_iff filter_empty_conv)
    have "conflict_keys (snd (merge_event e rs ex)) = []" for ex
      using place_no_conflicts[of e "[]" ex "\<lambda>_. 0"] by (simp add: merge_event_def none Let_def case_prod_beta map_filter_append map_filter_simps)
    then show ?thesis by (cases "map_of T e"; cases "the (map_of T e)") (auto simp: JArr warned_at_def map_filter_simps)
  qed (simp_all add: warned_at_def map_filter_simps)
  then show ?thesis by (fastforce simp: concat_eq_Nil_conv)
qed

lemma merge_conflicts:
  assumes "gen_merge digest Claude (JObj d) c = Inr (merged, ws)" "record_ok c"
  shows "conflict_keys ws = concat (map (\<lambda>p. conflict_keys (warned_at (contributed_hooks d) p)) (claude_offers c))"
proof -
  obtain ws' where m: "merge_hooks_record (JObj d) (fst (offered digest Claude c)) = Inr (merged, ws')" and ws: "ws = snd (offered digest Claude c) @ ws'"
    using gen_merge_record[OF assms(1)] by blast
  have src: "contributed_hooks (fst (offered digest Claude c)) = claude_offers c" by (simp add: offered_hooks)
  have "conflict_keys (snd (offered digest Claude c)) = []"
    using drop_no_conflicts by (simp add: offered_def case_prod_beta drop_nonstring_matchers_def Let_def map_filter_simps split: json.split)
  moreover from m obtain h w where ev: "merge_events (claude_offers c) (contributed_hooks d) = Inr (h, w)"
    and ws': "ws' = w @ concat (map (prune_warnings (od_keys (claude_offers c))) h)"
    by (rule record_merge) (simp add: doc_of_def src)
  moreover have "w = concat (map (warned_at (contributed_hooks d)) (claude_offers c))"
    using merge_events_at[OF ev] offered_ok[OF assms(2), of digest Claude] by (simp add: src)
  ultimately show ?thesis using prune_no_conflicts by (simp add: ws map_filter_append conflict_keys_concat comp_def)
qed

lemma stamp_rule_obj [simp]: "is_obj (stamp_rule e r) = is_obj r"
  by (cases r) (simp_all add: stamp_rule_def is_obj_def split: option.split)

lemma offers_objects: "each_rule is_obj h \<Longrightarrow> each_rule is_obj (map stamp_event (map drop_event h))"
  by (induction h) (auto simp: stamp_event_def drop_event_def list_all_iff split: json.splits)

text \<open>An event at which the target has no owned rule beyond those the panel counted as taken.\<close>

lemma unowned_kept:
  assumes "\<And>m. owned_of m (rules_at T e) = []" "\<not> stale_malformed (rules_at T e)" "map_of T e = Some v"
  shows "pruned emitted e v = Some v"
proof (cases v)
  case (JArr rs)
  have "\<not> rule_is_memtomem_owned r" if r: "r \<in> set rs" for r
  proof
    assume owned: "rule_is_memtomem_owned r"
    then have "is_str (rule_matcher r)" using assms(2,3) r JArr by (auto simp: rules_at_def stale_malformed_def list_ex_iff)
    then obtain m where "rule_matcher r = JStr m" by (cases "rule_matcher r") (simp_all add: is_str_def)
    then show False using assms(1)[of m] assms(3) r owned JArr by (auto simp: rules_at_def filter_empty_conv)
  qed
  then show ?thesis by (simp add: JArr pruned_def list_all_iff)
qed (simp_all add: pruned_def)

text \<open>When every row is synced and no owned rule is left over, the merge leaves an event as it is.\<close>

lemma in_sync_event:
  fixes src T e
  defines "held \<equiv> map_of T e" and "offer \<equiv> map_of src e"
  assumes "agrees T src (\<lambda>_. 0)" "list_all (\<lambda>(b, _). b = Synced) (fst (panel_events T src (\<lambda>_. 0)))"
    and taken: "\<And>m. length (owned_of m (rules_at T e)) \<le> snd (panel_events T src (\<lambda>_. 0)) (e, m)" "\<not> stale_malformed (rules_at T e)"
    and ready: "each_rule rule_ready src" "each_rule is_obj src" and arrs: "\<And>rules v. offer = Some (JArr rules) \<Longrightarrow> held = Some v \<Longrightarrow> is_arr v"
  shows "list_all2 same_rule (rules_of held) (rules_of (Option.bind (event_outcome e offer held) (pruned (od_keys src) e)))"
proof -
  have known: "Option.bind x (pruned (od_keys src) e) = x" if "offer \<noteq> None" for x
  proof -
    have "e \<in> set (od_keys src)" using that unfolding offer_def map_of_eq_None_iff by simp
    then show ?thesis by (cases x) (auto simp: pruned_def split: json.split)
  qed
  show ?thesis
  proof (cases "\<exists>rules. offer = Some (JArr rules)")
    case False
    then have same: "event_outcome e offer held = held" by (cases offer) (auto simp: outcome_other)
    have "Option.bind held (pruned (od_keys src) e) = held"
    proof (cases "offer = None")
      case True
      then have "e \<notin> set (od_keys src)" by (simp add: offer_def map_of_eq_None_iff)
      then have "owned_of m (rules_at T e) = []" for m using taken(1)[of m] panel_events_other[of e src T "\<lambda>_. 0" m] by simp
      then show ?thesis using unowned_kept[OF _ taken(2)] by (cases held) (auto simp: held_def)
    qed (rule known)
    then show ?thesis unfolding same by (simp add: list.rel_refl)
  next
    case True
    then obtain rules where rules: "offer = Some (JArr rules)" by blast
    then have mem: "(e, JArr rules) \<in> set src" unfolding offer_def by (rule map_of_SomeD)
    have fits: "list_all2 same_rule (rules_at T e) (fst (merge_event e rules (rules_at T e)))"
      using assms(3,4) mem taken unfolding agrees_def by blast
    have new: "Option.bind (event_outcome e offer held) (pruned (od_keys src) e) = event_outcome e (Some (JArr rules)) held"
      using known rules by simp
    show ?thesis
    proof (cases held)
      case None
      have "list_all is_obj rules" using each_rule_in[OF ready(2) mem] .
      then have "filter is_obj rules = rules" by (simp add: filter_id_conv list_all_iff)
      then have "rules = []" using fits None merge_into_empty(1)[OF each_rule_in[OF ready(1) mem], of e] by (simp add: rules_at_def held_def)
      then show ?thesis unfolding new using None by (simp add: event_outcome_def)
    next
      case (Some v)
      then obtain ex where "v = JArr ex" using arrs[OF rules Some] by (cases v) (auto simp: is_arr_def)
      then show ?thesis unfolding new using fits Some by (simp add: rules_at_def event_outcome_def held_def)
    qed
  qed
qed

text \<open>
  C15. The panel tells what a synchronisation would do, on records it can compare: the canonical
  record and the settings file are objects whose hook members have distinct names, every rule of
  the canonical record is an object that runs a command (a record with prompt hooks only is not
  covered: such a rule is never marked), and the merge accepts them. Then the conflicts the panel
  lists are, in order, the events and matchers the merge warns about; and when it says in sync,
  the merge leaves at every event the rules as they are, up to memtomem's own marks.
\<close>

theorem panel_agrees_with_sync:
  assumes "compare_hooks (Document c) (Document d) = (st, rows)" "gen_merge digest Claude (JObj d) c = Inr (merged, ws)"
    "record_ok c" "record_ok d" "commanded c" "each_rule is_obj (contributed_hooks c)"
  shows "panel_conflicts rows = conflict_keys ws \<and> (st = PanelInSync \<longrightarrow> list_all2 same_rule (doc_rules d e) (doc_rules merged e))"
proof -
  let ?src = "claude_offers c" and ?T = "contributed_hooks d"
  obtain ws' where m: "merge_hooks_record (JObj d) (fst (offered digest Claude c)) = Inr (merged, ws')"
    using gen_merge_record[OF assms(2)] by blast
  have src: "contributed_hooks (fst (offered digest Claude c)) = ?src" by (simp add: offered_hooks)
  have ok: "od_ok ?src" and ready: "each_rule rule_ready ?src"
    using offered_ok[OF assms(3), of digest Claude] offered_ready[OF assms(5), of digest Claude] by (simp_all only: src)
  obtain h w where ev: "merge_events ?src ?T = Inr (h, w)" using m by (rule record_merge) (simp add: src doc_of_def)
  have arrs: "is_arr v" if "(e, JArr rules) \<in> set ?src" "map_of ?T e = Some v" for e rules v
    using merge_arrays[OF ev ok that] by (auto simp: is_arr_def)
  have agree: "agrees ?T ?src (\<lambda>_. 0)" by (rule panel_all[OF assms(4) ready ok]) (simp, fact arrs)
  have conflicts: "conflict_keys ws = concat (map (\<lambda>p. conflict_keys (warned_at ?T p)) ?src)" by (rule merge_conflicts[OF assms(2,3)])
  from assms(1) show ?thesis
  proof (rule compare_cases)
    assume "st = PanelError" "rows = []" "contributed_hooks c = []"
    then show ?thesis using conflicts by simp
  next
    assume "\<not> has_hook_rules ?src" "rows = []" "st \<noteq> PanelInSync"
    then show ?thesis using conflicts empty_rules_no_conflicts by simp
  next
    fix used
    assume rows: "panel_events ?T ?src (\<lambda>_. 0) = (rows, used)"
      and st: "st = PanelInSync \<longleftrightarrow> \<not> list_ex (\<lambda>(b, _). b = Conflict) rows \<and> \<not> list_ex (\<lambda>(b, _). b = Pending) rows \<and> pending_removals ?T used = 0"
    have "list_all2 same_rule (doc_rules d e) (doc_rules merged e)" if insync: "st = PanelInSync"
    proof -
      have "b = Synced" if "(b, x) \<in> set rows" for b x
        using insync st that by (cases b) (auto simp: list_ex_iff)
      then have synced: "list_all (\<lambda>(b, _). b = Synced) (fst (panel_events ?T ?src (\<lambda>_. 0)))"
        unfolding rows by (auto simp: list_all_iff)
      have taken: "length (owned_of m (rules_at ?T e)) \<le> snd (panel_events ?T ?src (\<lambda>_. 0)) (e, m)" "\<not> stale_malformed (rules_at ?T e)" for m
        using removals_none[OF assms(4), of used] insync st unfolding rows by auto
      have at: "map_of (contributed_hooks merged) e = Option.bind (event_outcome e (map_of ?src e) (map_of ?T e)) (pruned (od_keys ?src) e)"
        using record_at[OF m, of e] ok assms(4) by (simp only: src doc_of_def merged_at_def json.case)
      show ?thesis unfolding rules_at_of at
        by (rule in_sync_event[OF agree synced taken ready offers_objects[OF assms(6)]]) (rule arrs[OF map_of_SomeD])
    qed
    then show ?thesis using agree conflicts unfolding agrees_def rows by simp
  qed
qed

section \<open>A concrete panel\<close>

definition fresh_settings :: members where
  "fresh_settings = [(''hooks'', JObj [(''PreToolUse'', JArr
     [hook_rule ''Bash'' ''mm guard'' (stamped ''PreToolUse''), hook_rule ''Edit'' ''mm lint'' (stamped ''PreToolUse'')])])]"

definition fresh_rows :: "(panel_bucket \<times> string \<times> string \<times> json) list" where
  "fresh_rows = [(Synced, ''PreToolUse'', ''Bash'', hook_rule ''Bash'' ''mm guard'' (stamped ''PreToolUse'')),
     (Synced, ''PreToolUse'', ''Edit'', hook_rule ''Edit'' ''mm lint'' (stamped ''PreToolUse''))]"

lemma panel_agrees_with_sync_witness:
  "panel_conflicts fresh_rows = conflict_keys [] \<and> list_all2 same_rule (doc_rules fresh_settings ''PreToolUse'') (doc_rules fresh_settings ''PreToolUse'')"
proof -
  have "panel_conflicts fresh_rows = conflict_keys [] \<and>
    (PanelInSync = PanelInSync \<longrightarrow> list_all2 same_rule (doc_rules fresh_settings ''PreToolUse'') (doc_rules fresh_settings ''PreToolUse''))"
  proof (rule panel_agrees_with_sync)
    show "compare_hooks (Document team_hooks) (Document fresh_settings) = (PanelInSync, fresh_rows)" by code_simp
    show "gen_merge no_digest Claude (JObj fresh_settings) team_hooks = Inr (fresh_settings, [])" by code_simp
  qed code_simp+
  then show ?thesis by blast
qed

end
