(* ===== verification/Differ.thy ===== *)
theory Differ
  imports Models
begin

text \<open>
  Chunk-level incremental indexing (\<open>indexing/differ.py\<close>): the stored state of a file is
  compared with its freshly computed chunks. Three reservation passes hand stored ids to
  chunks, most specific first; a last pass reuses what is left, sorts every chunk into a
  bucket and deletes the ids nobody took. Ids are canonical UUID texts, on which
  \<open>UUID(cid)\<close> is the identity; the digest of a chunk is a field of the chunk.
\<close>

section \<open>Stored state\<close>

text \<open>The widths of \<open>ChunkState\<close>; \<open>BadState\<close> is any other type or tuple width.\<close>

datatype chunk_state =
    HashOnly string
  | WithHierarchy string "ustr list"
  | WithTags string "ustr list" "string list"
  | WithValidity string "ustr list" "string list" "int option" "int option"
  | WithContext string "ustr list" "string list" "int option" "int option" ustr
  | BadState

datatype diff_error = UnsupportedState

record retrieval_meta =
  rm_context :: "ustr option"
  rm_tags :: "string list option"
  rm_validity :: "(int option \<times> int option) option"

definition no_meta :: retrieval_meta where
  "no_meta = \<lparr>rm_context = None, rm_tags = None, rm_validity = None\<rparr>"

definition differs_from :: "retrieval_meta \<Rightarrow> chunk_metadata \<Rightarrow> bool" where
  "differs_from m md \<longleftrightarrow>
     (case rm_tags m of Some ts \<Rightarrow> set ts \<noteq> set (md_tags md) | None \<Rightarrow> False) \<or>
     (case rm_validity m of
        Some v \<Rightarrow> v \<noteq> (md_valid_from_unix md, md_valid_to_unix md)
      | None \<Rightarrow> False)"

definition meta_matches :: "retrieval_meta \<Rightarrow> chunk_metadata \<Rightarrow> bool" where
  "meta_matches m md \<longleftrightarrow> rm_tags m \<noteq> None \<and> \<not> differs_from m md \<and>
     (rm_context m = None \<or> rm_context m = Some (md_retrieval_context md))"

type_synonym state_parts = "string \<times> ustr list option \<times> retrieval_meta"

fun split_state :: "chunk_state \<Rightarrow> (diff_error, state_parts) result" where
  "split_state (HashOnly h) = Inr (h, None, no_meta)"
| "split_state (WithContext h hier tags vf vt ctx) =
     Inr (h, Some hier, \<lparr>rm_context = Some ctx, rm_tags = Some tags, rm_validity = Some (vf, vt)\<rparr>)"
| "split_state (WithValidity h hier tags vf vt) =
     Inr (h, Some hier, \<lparr>rm_context = None, rm_tags = Some tags, rm_validity = Some (vf, vt)\<rparr>)"
| "split_state (WithTags h hier tags) =
     Inr (h, Some hier, \<lparr>rm_context = None, rm_tags = Some tags, rm_validity = None\<rparr>)"
| "split_state (WithHierarchy h hier) = Inr (h, Some hier, no_meta)"
| "split_state BadState = Inl UnsupportedState"

text \<open>One stored row: \<open>(cid, hierarchy)\<close> in its hash bucket and \<open>existing_meta[cid]\<close>.\<close>

record entry =
  entry_id :: string
  entry_hash :: string
  entry_hierarchy :: "ustr list option"
  entry_meta :: retrieval_meta

definition split_all :: "(string, chunk_state) odict \<Rightarrow> (diff_error, entry list) result" where
  "split_all existing =
     map_res (\<lambda>(cid, st). bind_res (split_state st) (\<lambda>(h, hier, m).
       Inr \<lparr>entry_id = cid, entry_hash = h, entry_hierarchy = hier, entry_meta = m\<rparr>)) existing"

text \<open>The bucket \<open>existing_ids_by_hash.get(h, [])\<close>, in insertion order.\<close>

definition candidates :: "entry list \<Rightarrow> string \<Rightarrow> entry list" where
  "candidates ex h = filter (\<lambda>e. entry_hash e = h) ex"

section \<open>Reservation passes\<close>

type_synonym slot = "entry option"

definition hierarchy_ok :: "bool \<Rightarrow> entry \<Rightarrow> chunk \<Rightarrow> bool" where
  "hierarchy_ok allow_wildcard e c \<longleftrightarrow>
     (if \<not> allow_wildcard
      then entry_hierarchy e = Some (md_heading_hierarchy (ch_metadata c))
      else entry_hierarchy e = None \<or> entry_hierarchy e = Some (md_heading_hierarchy (ch_metadata c)))"

definition reservable :: "bool \<Rightarrow> bool \<Rightarrow> chunk \<Rightarrow> string list \<Rightarrow> entry \<Rightarrow> bool" where
  "reservable require_meta allow_wildcard c used e \<longleftrightarrow>
     entry_id e \<notin> set used \<and> hierarchy_ok allow_wildcard e c \<and>
     (\<not> require_meta \<or> meta_matches (entry_meta e) (ch_metadata c))"

fun reserve :: "bool \<Rightarrow> bool \<Rightarrow> entry list \<Rightarrow> (chunk \<times> slot) list \<Rightarrow> string list
    \<Rightarrow> (chunk \<times> slot) list \<times> string list" where
  "reserve rm aw ex [] used = ([], used)"
| "reserve rm aw ex ((c, Some a) # rest) used =
     (let (rest', used') = reserve rm aw ex rest used in ((c, Some a) # rest', used'))"
| "reserve rm aw ex ((c, None) # rest) used =
     (case find (reservable rm aw c used) (candidates ex (ch_content_hash c)) of
        None \<Rightarrow>
          (let (rest', used') = reserve rm aw ex rest used in ((c, None) # rest', used'))
      | Some e \<Rightarrow>
          (let (rest', used') = reserve rm aw ex rest (entry_id e # used)
           in ((c, Some e) # rest', used')))"

definition reserve_all :: "entry list \<Rightarrow> chunk list \<Rightarrow> (chunk \<times> slot) list \<times> string list" where
  "reserve_all ex new =
     (let (s1, u1) = reserve True False ex (map (\<lambda>c. (c, None)) new) [];
          (s2, u2) = reserve False False ex s1 u1
      in reserve False True ex s2 u2)"

section \<open>Buckets\<close>

datatype bucket = Upsert | Unchanged | MetadataOnly

definition bucket_of :: "entry \<Rightarrow> chunk \<Rightarrow> bucket" where
  "bucket_of e c =
     (let md = ch_metadata c in
      if (entry_hierarchy e \<noteq> None \<and> entry_hierarchy e \<noteq> Some (md_heading_hierarchy md)) \<or>
         (rm_context (entry_meta e) \<noteq> None \<and>
          rm_context (entry_meta e) \<noteq> Some (md_retrieval_context md))
      then Upsert
      else if differs_from (entry_meta e) md then MetadataOnly
      else Unchanged)"

fun place :: "entry list \<Rightarrow> (chunk \<times> slot) list \<Rightarrow> string list
    \<Rightarrow> (bucket \<times> chunk) list \<times> string list" where
  "place ex [] used = ([], used)"
| "place ex ((c, slot) # rest) used =
     (case (case slot of
              Some a \<Rightarrow> Some a
            | None \<Rightarrow> find (\<lambda>e. entry_id e \<notin> set used) (candidates ex (ch_content_hash c))) of
        None \<Rightarrow>
          (let (ps, used') = place ex rest used in ((Upsert, c) # ps, used'))
      | Some e \<Rightarrow>
          (let (ps, used') = place ex rest (List.insert (entry_id e) used)
           in ((bucket_of e c, c\<lparr>ch_id := entry_id e\<rparr>) # ps, used')))"

record diff_result =
  to_upsert :: "chunk list"
  to_delete :: "string list"
  unchanged :: "chunk list"
  metadata_only :: "chunk list"

definition in_bucket :: "bucket \<Rightarrow> (bucket \<times> chunk) list \<Rightarrow> chunk list" where
  "in_bucket b ps = map snd (filter (\<lambda>p. fst p = b) ps)"

definition compute_diff ::
  "(string, chunk_state) odict \<Rightarrow> chunk list \<Rightarrow> (diff_error, diff_result) result" where
  "compute_diff existing new =
     bind_res (split_all existing) (\<lambda>ex.
       let (slots, used) = reserve_all ex new;
           (ps, used') = place ex slots used
       in Inr \<lparr>to_upsert = in_bucket Upsert ps,
               to_delete = filter (\<lambda>cid. cid \<notin> set used') (od_keys existing),
               unchanged = in_bucket Unchanged ps,
               metadata_only = in_bucket MetadataOnly ps\<rparr>)"

section \<open>All passes are one greedy matching\<close>

text \<open>
  The three reservation passes and the implicit fourth one inside the placing loop are
  the same greedy scan with a different admission test.
\<close>

fun greedy :: "(chunk \<Rightarrow> entry \<Rightarrow> bool) \<Rightarrow> entry list \<Rightarrow> (chunk \<times> slot) list \<Rightarrow> string list
    \<Rightarrow> (chunk \<times> slot) list \<times> string list" where
  "greedy P ex [] used = ([], used)"
| "greedy P ex ((c, Some a) # rest) used =
     (let (rest', used') = greedy P ex rest used in ((c, Some a) # rest', used'))"
| "greedy P ex ((c, None) # rest) used =
     (case find (\<lambda>e. entry_id e \<notin> set used \<and> P c e) (candidates ex (ch_content_hash c)) of
        None \<Rightarrow> (let (rest', used') = greedy P ex rest used in ((c, None) # rest', used'))
      | Some e \<Rightarrow>
          (let (rest', used') = greedy P ex rest (entry_id e # used)
           in ((c, Some e) # rest', used')))"

definition pass_test :: "bool \<Rightarrow> bool \<Rightarrow> chunk \<Rightarrow> entry \<Rightarrow> bool" where
  "pass_test rm aw c e \<longleftrightarrow> hierarchy_ok aw e c \<and> (\<not> rm \<or> meta_matches (entry_meta e) (ch_metadata c))"

lemma reserve_greedy: "reserve rm aw ex cs used = greedy (pass_test rm aw) ex cs used"
proof -
  have "reservable rm aw c u = (\<lambda>e. entry_id e \<notin> set u \<and> pass_test rm aw c e)" for c u
    by (auto simp: reservable_def pass_test_def)
  then show ?thesis
    by (induction rm aw ex cs used rule: reserve.induct) (simp_all split: option.split)
qed

definition slot_ids :: "(chunk \<times> slot) list \<Rightarrow> string list" where
  "slot_ids cs = concat (map (\<lambda>p. case snd p of None \<Rightarrow> [] | Some e \<Rightarrow> [entry_id e]) cs)"

lemma slot_ids_simps [simp]:
  "slot_ids [] = []"
  "slot_ids ((c, None) # cs) = slot_ids cs"
  "slot_ids ((c, Some e) # cs) = entry_id e # slot_ids cs"
  by (simp_all add: slot_ids_def)

lemma slot_ids_empty [simp]: "slot_ids (map (\<lambda>c. (c, None)) cs) = []"
  by (induction cs) auto

definition slots_from :: "entry list \<Rightarrow> (chunk \<times> slot) list \<Rightarrow> bool" where
  "slots_from ex cs \<longleftrightarrow>
     list_all (\<lambda>p. pred_option (\<lambda>e. e \<in> set ex \<and> entry_hash e = ch_content_hash (fst p)) (snd p)) cs"

lemma slots_from_simps [simp]:
  "slots_from ex []"
  "slots_from ex ((c, None) # cs) = slots_from ex cs"
  "slots_from ex ((c, Some e) # cs) =
     (e \<in> set ex \<and> entry_hash e = ch_content_hash c \<and> slots_from ex cs)"
  by (simp_all add: slots_from_def)

lemma slots_from_empty [simp]: "slots_from ex (map (\<lambda>c. (c, None)) cs)"
  by (induction cs) auto

lemma find_candidate:
  "find Q (candidates ex h) = Some e \<Longrightarrow> e \<in> set ex \<and> entry_hash e = h \<and> Q e"
  by (auto simp: candidates_def find_Some_iff dest: nth_mem)

lemma greedy_chunks: "map fst (fst (greedy P ex cs used)) = map fst cs"
  by (induction P ex cs used rule: greedy.induct) (auto simp: split_beta split: option.split)

lemma greedy_ids:
  "mset (snd (greedy P ex cs used)) + mset (slot_ids cs)
     = mset used + mset (slot_ids (fst (greedy P ex cs used)))"
  by (induction P ex cs used rule: greedy.induct) (auto simp: split_beta split: option.split)

lemma greedy_distinct: "distinct used \<Longrightarrow> distinct (snd (greedy P ex cs used))"
proof (induction P ex cs used rule: greedy.induct)
  case (3 P ex c rest used)
  let ?f = "find (\<lambda>e. entry_id e \<notin> set used \<and> P c e) (candidates ex (ch_content_hash c))"
  show ?case
  proof (cases ?f)
    case None
    with 3 show ?thesis by (simp add: split_beta)
  next
    case (Some e)
    then have "entry_id e \<notin> set used" using find_candidate by fastforce
    with 3 Some show ?thesis by (simp add: split_beta)
  qed
qed (simp_all add: split_beta)

lemma greedy_slots_from: "slots_from ex cs \<Longrightarrow> slots_from ex (fst (greedy P ex cs used))"
  by (induction P ex cs used rule: greedy.induct)
    (auto simp: split_beta split: option.split dest: find_candidate)

lemma greedy_full: "None \<notin> snd ` set cs \<Longrightarrow> greedy P ex cs used = (cs, used)"
  by (induction P ex cs used rule: greedy.induct) (auto simp: split_beta split: option.split)

text \<open>The four passes together, and the state they leave.\<close>

definition assign_ids :: "entry list \<Rightarrow> chunk list \<Rightarrow> (chunk \<times> slot) list \<times> string list" where
  "assign_ids ex new =
     (let (s3, u3) = reserve_all ex new in greedy (\<lambda>_ _. True) ex s3 u3)"

lemma assign_ids_unfold:
  "assign_ids ex new =
     (let (s1, u1) = greedy (pass_test True False) ex (map (\<lambda>c. (c, None)) new) [];
          (s2, u2) = greedy (pass_test False False) ex s1 u1;
          (s3, u3) = greedy (pass_test False True) ex s2 u2
      in greedy (\<lambda>_ _. True) ex s3 u3)"
  by (simp add: assign_ids_def reserve_all_def reserve_greedy split_beta Let_def)

definition passes_ok :: "entry list \<Rightarrow> chunk list \<Rightarrow> (chunk \<times> slot) list \<times> string list \<Rightarrow> bool" where
  "passes_ok ex new r \<longleftrightarrow> map fst (fst r) = new \<and> mset (slot_ids (fst r)) = mset (snd r)
     \<and> distinct (snd r) \<and> slots_from ex (fst r)"

lemma passes_ok_start: "passes_ok ex new (map (\<lambda>c. (c, None)) new, [])"
  by (simp add: passes_ok_def comp_def)

lemma passes_ok_step:
  assumes "passes_ok ex new (cs, used)"
  shows "passes_ok ex new (greedy P ex cs used)"
proof -
  have "mset (slot_ids (fst (greedy P ex cs used))) = mset (snd (greedy P ex cs used))"
    using greedy_ids[of P ex cs used] assms by (simp add: passes_ok_def)
  with assms show ?thesis
    by (simp add: passes_ok_def greedy_chunks greedy_distinct greedy_slots_from)
qed

lemma passes_ok_reserve: "passes_ok ex new (reserve_all ex new)"
  by (simp add: reserve_all_def reserve_greedy split_beta Let_def passes_ok_step passes_ok_start)

lemma passes_ok_assign: "passes_ok ex new (assign_ids ex new)"
  by (simp add: assign_ids_def split_beta passes_ok_step passes_ok_reserve)

section \<open>The placing loop\<close>

definition emit :: "chunk \<times> slot \<Rightarrow> bucket \<times> chunk" where
  "emit p = (case snd p of
      None \<Rightarrow> (Upsert, fst p)
    | Some e \<Rightarrow> (bucket_of e (fst p), (fst p)\<lparr>ch_id := entry_id e\<rparr>))"

lemma emit_simps [simp]:
  "emit (c, None) = (Upsert, c)"
  "emit (c, Some e) = (bucket_of e c, c\<lparr>ch_id := entry_id e\<rparr>)"
  by (simp_all add: emit_def)

lemma place_greedy:
  "set (slot_ids cs) \<subseteq> set used \<Longrightarrow>
   place ex cs used = map_prod (map emit) id (greedy (\<lambda>_ _. True) ex cs used)"
proof (induction ex cs used rule: place.induct)
  case (1 ex used)
  then show ?case by simp
next
  case (2 ex c slot rest used)
  show ?case
  proof (cases slot)
    case (Some e)
    with 2 show ?thesis
      by (simp add: split_beta Let_def List.insert_def)
  next
    case None
    let ?f = "find (\<lambda>e. entry_id e \<notin> set used) (candidates ex (ch_content_hash c))"
    show ?thesis
    proof (cases ?f)
      case None
      with 2 \<open>slot = None\<close> show ?thesis by (simp add: split_beta Let_def)
    next
      case (Some e)
      then have "entry_id e \<notin> set used" using find_candidate by fastforce
      moreover have "set (slot_ids rest) \<subseteq> set (List.insert (entry_id e) used)"
        using "2.prems" \<open>slot = None\<close> by auto
      ultimately show ?thesis
        using 2(2) Some \<open>slot = None\<close> by (simp add: split_beta Let_def List.insert_def)
    qed
  qed
qed

lemma place_assign:
  assumes "reserve_all ex new = (slots, used)"
  shows "place ex slots used = map_prod (map emit) id (assign_ids ex new)"
proof -
  have "set (slot_ids slots) = set used"
    using passes_ok_reserve[of ex new] assms by (metis fst_conv mset_eq_setD passes_ok_def snd_conv)
  then show ?thesis
    using assms by (simp add: place_greedy assign_ids_def)
qed

definition diff_of :: "(string, chunk_state) odict \<Rightarrow> (chunk \<times> slot) list \<Rightarrow> string list
    \<Rightarrow> diff_result" where
  "diff_of existing cs used =
     \<lparr>to_upsert = in_bucket Upsert (map emit cs),
      to_delete = filter (\<lambda>cid. cid \<notin> set used) (od_keys existing),
      unchanged = in_bucket Unchanged (map emit cs),
      metadata_only = in_bucket MetadataOnly (map emit cs)\<rparr>"

lemma compute_diff_assign:
  "compute_diff existing new =
     bind_res (split_all existing) (\<lambda>ex.
       Inr (diff_of existing (fst (assign_ids ex new)) (snd (assign_ids ex new))))"
proof -
  have "(case reserve_all ex new of (slots, used) \<Rightarrow> place ex slots used)
      = map_prod (map emit) id (assign_ids ex new)" for ex
    by (cases "reserve_all ex new") (simp add: place_assign)
  then show ?thesis
    by (cases "split_all existing")
      (simp_all add: compute_diff_def diff_of_def Let_def split_beta)
qed

lemma split_all_keys: "split_all existing = Inr ex \<Longrightarrow> map entry_id ex = od_keys existing"
  by (induction existing arbitrary: ex) (auto simp: split_all_def bind_res_Inr_conv split_beta)

lemma split_all_entry:
  assumes "split_all existing = Inr ex" and "od_ok existing" and "e \<in> set ex"
  shows "\<exists>st. map_of existing (entry_id e) = Some st \<and> split_state st = Inr (entry_hash e, entry_hierarchy e, entry_meta e)"
proof -
  have "\<exists>p \<in> set existing. fst p = entry_id e \<and>
      split_state (snd p) = Inr (entry_hash e, entry_hierarchy e, entry_meta e)"
    using assms(1,3)
    by (induction existing arbitrary: ex) (fastforce simp: split_all_def bind_res_Inr_conv)+
  with assms(2) show ?thesis by (metis map_of_is_SomeI prod.collapse)
qed

lemma mset_buckets:
  "mset (in_bucket Upsert ps @ in_bucket Unchanged ps @ in_bucket MetadataOnly ps)
     = mset (map snd ps)"
proof (induction ps)
  case (Cons p ps)
  then show ?case by (cases "fst p") (simp_all add: in_bucket_def)
qed (simp add: in_bucket_def)

section \<open>Correctness of the diff\<close>

definition forget_id :: "chunk \<Rightarrow> chunk" where
  "forget_id c = c\<lparr>ch_id := []\<rparr>"

definition diff_output :: "diff_result \<Rightarrow> chunk list" where
  "diff_output r = to_upsert r @ unchanged r @ metadata_only r"

lemma forget_emit: "forget_id (snd (emit p)) = forget_id (fst p)"
  by (cases p, cases "snd p") (auto simp: forget_id_def emit_def)

lemma mset_output: "mset (diff_output (diff_of existing cs used)) = mset (map (snd \<circ> emit) cs)"
  using mset_buckets[of "map emit cs"] by (simp add: diff_output_def diff_of_def)

lemma kept_ids:
  assumes "slots_from ex cs" and "\<forall>c \<in> set (map fst cs). ch_id c \<notin> K" and "entry_id ` set ex \<subseteq> K"
  shows "filter (\<lambda>i. i \<in> K) (map (\<lambda>p. ch_id (snd (emit p))) cs) = slot_ids cs"
  using assms
proof (induction cs)
  case (Cons p cs)
  obtain c s where "p = (c, s)" by fastforce
  with Cons show ?case by (cases s) auto
qed simp

lemma used_plus_deleted:
  assumes "distinct keys" "distinct used" "set used \<subseteq> set keys"
  shows "mset used + mset (filter (\<lambda>k. k \<notin> set used) keys) = mset keys"
proof -
  have "mset used = mset (filter (\<lambda>k. k \<in> set used) keys)"
    using assms by (subst set_eq_iff_mset_eq_distinct[symmetric]) auto
  then show ?thesis
    using multiset_partition[of "mset keys" "\<lambda>k. k \<in> set used"] by simp
qed

lemma slot_ids_in: "slots_from ex cs \<Longrightarrow> set (slot_ids cs) \<subseteq> entry_id ` set ex"
proof (induction cs)
  case (Cons p cs)
  obtain c s where "p = (c, s)" by fastforce
  with Cons show ?case by (cases s) auto
qed simp

text \<open>
  C18. A diff loses and invents nothing: apart from reassigned ids the buckets together are
  exactly the new chunks, and every stored id is either carried by exactly one of them or
  listed for deletion, never both and never twice (chunks start with ids the file's rows do
  not have).
\<close>

theorem diff_partition:
  assumes "compute_diff existing new = Inr r" and "od_ok existing"
    and fresh: "\<forall>c \<in> set new. ch_id c \<notin> set (od_keys existing)"
  shows "mset (map forget_id (diff_output r)) = mset (map forget_id new) \<and>
    mset (filter (\<lambda>i. i \<in> set (od_keys existing)) (map ch_id (diff_output r)))
      + mset (to_delete r) = mset (od_keys existing)"
proof -
  obtain ex cs used where ex: "split_all existing = Inr ex"
    and cs: "assign_ids ex new = (cs, used)" and r: "r = diff_of existing cs used"
    using assms(1) by (cases "split_all existing", auto simp: compute_diff_assign)
      (metis prod.collapse)
  let ?K = "set (od_keys existing)"
  have ok: "map fst cs = new" "mset (slot_ids cs) = mset used" "distinct used" "slots_from ex cs"
    using passes_ok_assign[of ex new] cs by (simp_all add: passes_ok_def)
  have K: "entry_id ` set ex = ?K"
    using split_all_keys[OF ex] by (metis list.set_map)
  have "mset (map forget_id (diff_output r)) = mset (map forget_id new)"
  proof -
    have "mset (map forget_id (diff_output r)) = mset (map (forget_id \<circ> fst) cs)"
      using mset_output[of existing cs used]
      by (simp add: r forget_emit image_mset.compositionality comp_def)
    then show ?thesis using ok(1) by (metis list.map_comp)
  qed
  moreover have "mset (filter (\<lambda>i. i \<in> ?K) (map ch_id (diff_output r))) = mset (slot_ids cs)"
  proof -
    have "mset (map ch_id (diff_output r)) = mset (map (\<lambda>p. ch_id (snd (emit p))) cs)"
      using mset_output[of existing cs used]
      by (simp add: r image_mset.compositionality comp_def)
    then have "mset (filter (\<lambda>i. i \<in> ?K) (map ch_id (diff_output r)))
        = mset (filter (\<lambda>i. i \<in> ?K) (map (\<lambda>p. ch_id (snd (emit p))) cs))"
      by (simp only: mset_filter)
    moreover have "filter (\<lambda>i. i \<in> ?K) (map (\<lambda>p. ch_id (snd (emit p))) cs) = slot_ids cs"
      using kept_ids[OF ok(4), of ?K] fresh ok(1) K by simp
    ultimately show ?thesis by (simp only:)
  qed
  moreover have "mset used + mset (to_delete r) = mset (od_keys existing)"
  proof -
    have "set used \<subseteq> ?K" using slot_ids_in[OF ok(4)] ok(2) K by (metis mset_eq_setD)
    then show ?thesis using used_plus_deleted[OF assms(2) ok(3)] by (simp add: r diff_of_def)
  qed
  ultimately show ?thesis using ok(2) by simp
qed


definition sample_rows :: "(string, chunk_state) odict" where
  "sample_rows = [(''a'', WithContext ''h1'' [] [] None None []), (''b'', HashOnly ''h1''),
     (''c'', WithTags ''h2'' [] [''x'']), (''d'', HashOnly ''h9'')]"

definition sample_new :: "chunk list" where
  "sample_new = [sample_chunk ''n1'' ''h1'' [65], sample_chunk ''n2'' ''h2'' [66],
     sample_chunk ''n3'' ''h3'' [67], sample_chunk ''n4'' ''h1'' [65]]"

definition sample_diff :: diff_result where
  "sample_diff = \<lparr>to_upsert = [sample_chunk ''n3'' ''h3'' [67]], to_delete = [''d''],
     unchanged = [sample_chunk ''a'' ''h1'' [65], sample_chunk ''b'' ''h1'' [65]],
     metadata_only = [sample_chunk ''c'' ''h2'' [66]]\<rparr>"

lemma sample_diff_computed: "compute_diff sample_rows sample_new = Inr sample_diff"
  by code_simp

theorem diff_partition_witness:
  "compute_diff sample_rows sample_new = Inr sample_diff \<and>
   mset (filter (\<lambda>i. i \<in> set (od_keys sample_rows)) (map ch_id (diff_output sample_diff)))
      + mset (to_delete sample_diff) = {#''a'', ''b'', ''c'', ''d''#}"
  using diff_partition[OF sample_diff_computed] sample_diff_computed
  by (simp add: sample_rows_def sample_new_def sample_chunk_def)

lemma in_bucket_emit:
  "c \<in> set (in_bucket b (map emit cs)) \<Longrightarrow> \<exists>c0 s. (c0, s) \<in> set cs \<and> emit (c0, s) = (b, c)"
  by (auto simp: in_bucket_def simp del: emit_simps) (metis prod.collapse)

definition row_text_current ::
  "(string, chunk_state) odict \<Rightarrow> chunk \<Rightarrow> retrieval_meta \<Rightarrow> bool" where
  "row_text_current existing c m \<longleftrightarrow>
     (\<exists>st hier. map_of existing (ch_id c) = Some st
        \<and> split_state st = Inr (ch_content_hash c, hier, m)
        \<and> (hier = None \<or> hier = Some (md_heading_hierarchy (ch_metadata c)))
        \<and> (rm_context m = None \<or> rm_context m = Some (md_retrieval_context (ch_metadata c))))"

lemma emit_reused:
  assumes "emit (c0, s) = (b, c)" and "b \<noteq> Upsert"
    and "slots_from ex [(c0, s)]" and "split_all existing = Inr ex" and "od_ok existing"
  shows "\<exists>m. row_text_current existing c m \<and>
     (b = Unchanged \<longleftrightarrow> \<not> differs_from m (ch_metadata c))"
proof -
  obtain e where s: "s = Some e" using assms(1,2) by (cases s) auto
  with assms have c: "c = c0\<lparr>ch_id := entry_id e\<rparr>" and b: "b = bucket_of e c0"
    and e: "e \<in> set ex" "entry_hash e = ch_content_hash c0" by auto
  obtain st where "map_of existing (entry_id e) = Some st" "split_state st = Inr (entry_hash e, entry_hierarchy e, entry_meta e)"
    using split_all_entry[OF assms(4,5) e(1)] by blast
  with b c e assms(2) show ?thesis
    by (intro exI[of _ "entry_meta e"])
      (auto simp: row_text_current_def bucket_of_def Let_def split: if_splits)
qed

text \<open>
  No stale row is kept: a chunk left unchanged, or rewritten in its metadata only,
  carries the id of a stored row with the same digest, the same heading path and the same
  description wherever the row recorded them; it is left alone exactly when the tags (as a
  set) and the validity window the row recorded agree too.
\<close>

theorem kept_rows_current:
  assumes "compute_diff existing new = Inr r" and "od_ok existing"
  shows "(\<forall>c \<in> set (unchanged r). \<exists>m. row_text_current existing c m \<and>
            \<not> differs_from m (ch_metadata c)) \<and>
         (\<forall>c \<in> set (metadata_only r). \<exists>m. row_text_current existing c m \<and>
            differs_from m (ch_metadata c))"
proof -
  obtain ex where ex: "split_all existing = Inr ex"
    and r: "r = diff_of existing (fst (assign_ids ex new)) (snd (assign_ids ex new))"
    using assms(1) by (cases "split_all existing") (auto simp: compute_diff_assign)
  have "slots_from ex (fst (assign_ids ex new))"
    using passes_ok_assign[of ex new] by (simp add: passes_ok_def)
  then have from_ex: "slots_from ex [p]" if "p \<in> set (fst (assign_ids ex new))" for p
    using that by (auto simp: slots_from_def list_all_iff)
  have kept: "\<exists>m. row_text_current existing c m \<and>
      (b = Unchanged \<longleftrightarrow> \<not> differs_from m (ch_metadata c))"
    if mem: "c \<in> set (in_bucket b (map emit (fst (assign_ids ex new))))" and nb: "b \<noteq> Upsert"
    for c b
  proof -
    obtain c0 s where p: "(c0, s) \<in> set (fst (assign_ids ex new))" "emit (c0, s) = (b, c)"
      using in_bucket_emit[OF mem] by blast
    show ?thesis
      by (rule emit_reused[OF p(2) nb from_ex[OF p(1)] ex assms(2)])
  qed
  show ?thesis
    using kept[where b = Unchanged] kept[where b = MetadataOnly]
    by (simp add: r diff_of_def)
qed

theorem kept_rows_current_witness:
  "\<exists>m. row_text_current sample_rows (sample_chunk ''c'' ''h2'' [66]) m \<and>
      differs_from m (ch_metadata (sample_chunk ''c'' ''h2'' [66]))"
proof -
  have "od_ok sample_rows" by (simp add: sample_rows_def)
  from kept_rows_current[OF sample_diff_computed this] show ?thesis
    by (simp add: sample_diff_def)
qed

section \<open>Re-indexing unchanged content\<close>

definition stored_state :: "chunk \<Rightarrow> chunk_state" where
  "stored_state c = (let md = ch_metadata c in
     WithContext (ch_content_hash c) (md_heading_hierarchy md) (md_tags md)
       (md_valid_from_unix md) (md_valid_to_unix md) (md_retrieval_context md))"

text \<open>What a diff can tell two chunks apart by.\<close>

definition diff_key where
  "diff_key c = (let md = ch_metadata c in
     (ch_content_hash c, md_heading_hierarchy md, set (md_tags md),
      md_valid_from_unix md, md_valid_to_unix md, md_retrieval_context md))"

definition entry_of :: "chunk \<Rightarrow> entry" where
  "entry_of c = (let md = ch_metadata c in
     \<lparr>entry_id = ch_id c, entry_hash = ch_content_hash c,
      entry_hierarchy = Some (md_heading_hierarchy md),
      entry_meta = \<lparr>rm_context = Some (md_retrieval_context md), rm_tags = Some (md_tags md),
        rm_validity = Some (md_valid_from_unix md, md_valid_to_unix md)\<rparr>\<rparr>)"

lemma split_all_stored:
  "split_all (map (\<lambda>c. (ch_id c, stored_state c)) old) = Inr (map entry_of old)"
  by (induction old) (auto simp: split_all_def stored_state_def entry_of_def Let_def)

lemma filter_take_id:
  assumes "distinct (map entry_id ex)" "e \<in> set ex" "entry_id e \<notin> U"
  shows "mset (filter (\<lambda>x. entry_id x \<notin> U) ex)
    = add_mset e (mset (filter (\<lambda>x. entry_id x \<notin> insert (entry_id e) U) ex))"
proof -
  have "filter (\<lambda>x. entry_id x \<notin> U \<and> entry_id x = entry_id e) ex = [e]"
    using assms
  proof (induction ex)
    case (Cons x ex)
    show ?case
    proof (cases "x = e")
      case True
      with Cons.prems have "filter (\<lambda>x. entry_id x \<notin> U \<and> entry_id x = entry_id e) ex = []"
        by (force simp: filter_empty_conv image_iff)
      with True Cons.prems show ?thesis by simp
    next
      case False
      with Cons.prems have "entry_id x \<noteq> entry_id e" by (auto simp: image_iff)
      with False Cons show ?thesis by simp
    qed
  qed simp
  then have one: "filter_mset (\<lambda>x. entry_id x = entry_id e) (mset (filter (\<lambda>x. entry_id x \<notin> U) ex)) = {#e#}"
    by (simp flip: mset_filter add: conj_commute)
  have rest: "filter_mset (\<lambda>x. \<not> entry_id x = entry_id e) (mset (filter (\<lambda>x. entry_id x \<notin> U) ex))
      = mset (filter (\<lambda>x. entry_id x \<notin> insert (entry_id e) U) ex)"
    by (simp flip: mset_filter add: conj_commute)
  show ?thesis
    using multiset_partition[of "mset (filter (\<lambda>x. entry_id x \<notin> U) ex)" "\<lambda>x. entry_id x = entry_id e"]
    unfolding one rest by simp
qed

lemma greedy_complete:
  assumes "\<forall>p \<in> set cs. \<forall>e \<in> set ex.
      (entry_hash e = ch_content_hash (fst p) \<and> P (fst p) e) \<longleftrightarrow> ek e = ck (fst p)"
    and "distinct (map entry_id ex)" and "\<forall>p \<in> set cs. snd p = None"
    and "mset (map (ck \<circ> fst) cs) \<subseteq># mset (map ek (filter (\<lambda>e. entry_id e \<notin> set used) ex))"
  shows "None \<notin> snd ` set (fst (greedy P ex cs used))"
  using assms
proof (induction cs arbitrary: used)
  case (Cons p rest)
  obtain c where p: "p = (c, None)" using Cons.prems(3) by (cases p) auto
  let ?Q = "\<lambda>e. entry_id e \<notin> set used \<and> P c e"
  have "ck c \<in># mset (map ek (filter (\<lambda>e. entry_id e \<notin> set used) ex))"
    using Cons.prems(4) p by (auto dest: mset_subset_eqD)
  then obtain e0 where "e0 \<in> set ex" "entry_id e0 \<notin> set used" "ek e0 = ck c" by auto
  with Cons.prems(1) p have "e0 \<in> set (candidates ex (ch_content_hash c))" "?Q e0"
    by (auto simp: candidates_def)
  then obtain e where e: "find ?Q (candidates ex (ch_content_hash c)) = Some e"
    by (metis (no_types, lifting) find_None_iff option.exhaust)
  then have ex: "e \<in> set ex" "entry_id e \<notin> set used" "ek e = ck c"
    using find_candidate[OF e] Cons.prems(1) p by auto
  have "mset (map (ck \<circ> fst) rest)
      \<subseteq># mset (map ek (filter (\<lambda>x. entry_id x \<notin> set (entry_id e # used)) ex))"
    using Cons.prems(4) filter_take_id[OF Cons.prems(2) ex(1,2)] p ex(3) by (simp add: comp_def)
  then have "None \<notin> snd ` set (fst (greedy P ex rest (entry_id e # used)))"
    using Cons.prems(1-3) by (intro Cons.IH) (auto simp: comp_def)
  with e p show ?case by (simp add: split_beta)
qed simp

definition entry_key where
  "entry_key e = (entry_hash e, entry_hierarchy e, map_option set (rm_tags (entry_meta e)),
     rm_validity (entry_meta e), rm_context (entry_meta e))"

lemma first_pass_exact:
  assumes "e \<in> set (map entry_of old)"
  shows "(entry_hash e = ch_content_hash c \<and> pass_test True False c e)
    \<longleftrightarrow> entry_key e = entry_key (entry_of c)"
  using assms
  by (auto simp: entry_of_def entry_key_def pass_test_def hierarchy_ok_def meta_matches_def
      differs_from_def Let_def)

lemma entry_key_diff_key:
  "entry_key (entry_of c) = (case diff_key c of (h, hier, ts, vf, vt, ctx) \<Rightarrow>
     (h, Some hier, Some ts, Some (vf, vt), Some ctx))"
  by (simp add: entry_key_def entry_of_def diff_key_def Let_def)

lemma assign_ids_one_pass:
  assumes "None \<notin> snd ` set (fst (greedy (pass_test True False) ex (map (\<lambda>c. (c, None)) new) []))"
  shows "assign_ids ex new = greedy (pass_test True False) ex (map (\<lambda>c. (c, None)) new) []"
  using assms by (simp add: assign_ids_unfold split_beta Let_def greedy_full)

lemma greedy_admits:
  assumes "(c, Some e) \<in> set (fst (greedy P ex cs used))" and "(c, Some e) \<notin> set cs"
  shows "P c e"
  using assms
proof (induction P ex cs used rule: greedy.induct)
  case (3 P ex c' rest used)
  then show ?case
    by (auto simp: split_beta split: option.splits dest: find_candidate)
qed (auto simp: split_beta)

lemma emit_exact:
  assumes "pass_test True False c e" and "rm_context (entry_meta e) \<noteq> None"
  shows "emit (c, Some e) = (Unchanged, c\<lparr>ch_id := entry_id e\<rparr>)"
  using assms
  by (auto simp: pass_test_def hierarchy_ok_def meta_matches_def bucket_of_def Let_def)

lemma slot_ids_all:
  "\<forall>p \<in> set cs. snd p \<noteq> None \<Longrightarrow> slot_ids cs = map (\<lambda>p. ch_id (snd (emit p))) cs"
  by (induction cs) (auto simp: slot_ids_def emit_def)

text \<open>Stored rows and permuted chunks: the first pass alone assigns every chunk.\<close>

definition exact_pass :: "chunk list \<Rightarrow> chunk list \<Rightarrow> (chunk \<times> slot) list \<times> string list" where
  "exact_pass old new =
     greedy (pass_test True False) (map entry_of old) (map (\<lambda>c. (c, None)) new) []"

lemma entry_of_ids [simp]: "entry_id (entry_of c) = ch_id c"
  by (simp add: entry_of_def Let_def)

lemma exact_pass_full:
  assumes "distinct (map ch_id old)" and "mset (map diff_key new) = mset (map diff_key old)"
  shows "None \<notin> snd ` set (fst (exact_pass old new))"
proof -
  have "mset (map (entry_key \<circ> entry_of) new) = mset (map (entry_key \<circ> entry_of) old)"
    using arg_cong[OF assms(2), of "image_mset (\<lambda>(h, hier, ts, vf, vt, ctx).
        (h, Some hier, Some ts, Some (vf, vt), Some ctx))"]
    by (simp add: image_mset.compositionality comp_def entry_key_diff_key)
  then show ?thesis
    using assms(1) first_pass_exact unfolding exact_pass_def
    by (intro greedy_complete[where ek = entry_key and ck = "entry_key \<circ> entry_of"])
      (simp_all add: comp_def)
qed

lemma exact_pass_assign:
  assumes "distinct (map ch_id old)" and "mset (map diff_key new) = mset (map diff_key old)"
  shows "assign_ids (map entry_of old) new = exact_pass old new"
  using assign_ids_one_pass exact_pass_full[OF assms] by (simp add: exact_pass_def)

lemma exact_pass_emit:
  assumes "distinct (map ch_id old)" and "mset (map diff_key new) = mset (map diff_key old)"
    and mem: "p \<in> set (fst (exact_pass old new))"
  shows "snd p \<noteq> None \<and> fst (emit p) = Unchanged"
proof -
  have "snd p \<noteq> None" using exact_pass_full[OF assms(1,2)] mem by (metis image_eqI)
  then obtain c e where p: "p = (c, Some e)" by (cases p) auto
  have "pass_test True False c e"
    by (rule greedy_admits[of c e]) (use mem p in \<open>auto simp: exact_pass_def\<close>)
  moreover have "e \<in> set (map entry_of old)"
    using passes_ok_assign[of "map entry_of old" new] exact_pass_assign[OF assms(1,2)] mem p
    by (auto simp: passes_ok_def slots_from_def list_all_iff)
  then have "rm_context (entry_meta e) \<noteq> None" by (auto simp: entry_of_def Let_def)
  ultimately show ?thesis using p emit_exact by simp
qed

lemma exact_pass_used:
  assumes "distinct (map ch_id old)" and "mset (map diff_key new) = mset (map diff_key old)"
  shows "mset (snd (exact_pass old new)) = mset (map ch_id old)"
proof -
  let ?g = "exact_pass old new" and ?ex = "map entry_of old"
  have ok: "passes_ok ?ex new ?g"
    using passes_ok_assign[of ?ex new] exact_pass_assign[OF assms] by simp
  then have "length (snd ?g) = length (slot_ids (fst ?g))"
    by (metis mset_eq_length passes_ok_def)
  also have "\<dots> = length (map fst (fst ?g))"
    using exact_pass_emit[OF assms] by (subst slot_ids_all) auto
  also have "\<dots> = length old"
    using ok assms(2) by (metis length_map mset_eq_length passes_ok_def)
  finally have len: "length (snd ?g) = length old" .
  have "set (snd ?g) \<subseteq> entry_id ` set ?ex"
    using slot_ids_in[of ?ex "fst ?g"] ok by (metis mset_eq_setD passes_ok_def)
  then have sub: "set (snd ?g) \<subseteq> set (map ch_id old)" by auto
  have dist: "distinct (snd ?g)" using ok by (simp add: passes_ok_def)
  with sub len assms(1) have "set (snd ?g) = set (map ch_id old)"
    by (metis card_subset_eq distinct_card length_map List.finite_set)
  with dist assms(1) show ?thesis by (metis set_eq_iff_mset_eq_distinct)
qed

text \<open>
  Re-indexing content that did not change is free, in any order: when the chunks of a
  file are, up to order, the chunks its rows were stored from (text, headings, tag set,
  validity window and description), nothing is embedded, rewritten or deleted, and every
  row keeps its id, also when several chunks have identical text.
\<close>

theorem reindex_is_noop:
  assumes "distinct (map ch_id old)" and "mset (map diff_key new) = mset (map diff_key old)"
  shows "\<exists>r. compute_diff (map (\<lambda>c. (ch_id c, stored_state c)) old) new = Inr r \<and>
    to_upsert r = [] \<and> metadata_only r = [] \<and> to_delete r = [] \<and>
    mset (map ch_id (unchanged r)) = mset (map ch_id old)"
proof -
  let ?E = "map (\<lambda>c. (ch_id c, stored_state c)) old" and ?g = "exact_pass old new"
  have "mset (slot_ids (fst ?g)) = mset (snd ?g)"
    using passes_ok_assign[of "map entry_of old" new] exact_pass_assign[OF assms]
    by (simp add: passes_ok_def)
  then have ids: "mset (map (\<lambda>p. ch_id (snd (emit p))) (fst ?g)) = mset (map ch_id old)"
    using exact_pass_used[OF assms] slot_ids_all exact_pass_emit[OF assms] by metis
  have buckets: "in_bucket b (map emit (fst ?g)) =
      (if b = Unchanged then map (snd \<circ> emit) (fst ?g) else [])" for b
    using exact_pass_emit[OF assms] by (auto simp: in_bucket_def filter_empty_conv filter_id_conv)
  have "set (map ch_id old) \<subseteq> set (snd ?g)"
    using exact_pass_used[OF assms] by (metis equalityE mset_eq_setD)
  then have "to_delete (diff_of ?E (fst ?g) (snd ?g)) = []"
    by (auto simp: diff_of_def filter_empty_conv)
  then show ?thesis
    using ids
    by (simp add: compute_diff_assign split_all_stored exact_pass_assign[OF assms])
      (simp add: diff_of_def buckets image_mset.compositionality comp_def)
qed


theorem reindex_is_noop_witness:
  "\<exists>r. compute_diff (map (\<lambda>c. (ch_id c, stored_state c))
        [sample_chunk ''a'' ''h1'' [65], sample_chunk ''b'' ''h1'' [65]])
        [sample_chunk ''n2'' ''h1'' [65], sample_chunk ''n1'' ''h1'' [65]] = Inr r \<and>
     to_upsert r = [] \<and> metadata_only r = [] \<and> to_delete r = [] \<and>
     mset (map ch_id (unchanged r)) = {#''a'', ''b''#}"
  using reindex_is_noop[of "[sample_chunk ''a'' ''h1'' [65], sample_chunk ''b'' ''h1'' [65]]"
      "[sample_chunk ''n2'' ''h1'' [65], sample_chunk ''n1'' ''h1'' [65]]"]
  by (simp add: sample_chunk_def diff_key_def)

end
