(* ===== verification/Debounce.thy ===== *)
theory Debounce
  imports Json "HOL-Library.Sublist"
begin

text \<open>
  The debounce queue of \<open>mm index --debounce-window\<close> (\<open>indexing/debounce.py\<close>): the queue
  file and its reader, enqueueing, claiming a batch under a lease, running the callbacks
  without the lock and settling only the claims still owned. Every critical section of
  \<open>_Lock\<close> is one function on the queue. Clock values are reals; a random claim token and
  the value of the clock at each call are arguments.
\<close>

section \<open>The queue file\<close>

datatype queue_error =
    Unreadable | Corrupt | UnsupportedVersion | ClaimError
  | Escaped py_exc

record queue_entry =
  qe_first_seen :: real
  qe_last_seen :: real
  qe_namespace :: json
  qe_force :: bool
  qe_attempts :: int
  qe_claim_id :: "string option"
  qe_claimed_at :: "real option"

type_synonym queue = "(string, queue_entry) odict"

definition QUEUE_VERSION :: int where "QUEUE_VERSION = 2"
definition MAX_DRAIN_ATTEMPTS :: int where "MAX_DRAIN_ATTEMPTS = 5"
definition CLAIM_LEASE :: real where "CLAIM_LEASE = 3600"
definition CLAIM_FUTURE_SKEW :: real where "CLAIM_FUTURE_SKEW = 5"

datatype entry_error = Bad | Raised py_exc

definition lift_exc :: "(py_exc, 'a) result \<Rightarrow> (entry_error, 'a) result" where
  "lift_exc r = (case r of Inl e \<Rightarrow> Inl (Raised e) | Inr x \<Rightarrow> Inr x)"

lemma lift_exc_simps [simp]:
  "lift_exc (Inl e) = Inl (Raised e)" "lift_exc (Inr x) = Inr x"
  by (simp_all add: lift_exc_def)

definition check :: "bool \<Rightarrow> (entry_error, unit) result" where
  "check b = (if b then Inr () else Inl Bad)"

lemma check_simps [simp]: "check True = Inr ()" "check False = Inl Bad"
  by (simp_all add: check_def)

definition from_dict ::
  "(string \<Rightarrow> real option option) \<Rightarrow> (string \<Rightarrow> int option) \<Rightarrow> json
    \<Rightarrow> (entry_error, queue_entry) result" where
  "from_dict float_str int_str j =
     (case j of
        JObj d \<Rightarrow>
          bind_res (lift_exc (bind_res (j_at d ''first_seen'') (py_float float_str))) (\<lambda>first_seen.
          bind_res (lift_exc (bind_res (j_at d ''last_seen'') (py_float float_str))) (\<lambda>last_seen.
          bind_res (lift_exc (py_int int_str (j_get_or d ''attempts'' (JInt 0)))) (\<lambda>attempts.
          bind_res (if j_get d ''claimed_at'' = JNull then Inr None
                    else bind_res (lift_exc (py_float float_str (j_get d ''claimed_at'')))
                           (\<lambda>c. Inr (Some c))) (\<lambda>claimed_at.
          bind_res (check (first_seen \<noteq> None \<and> last_seen \<noteq> None)) (\<lambda>_.
          bind_res (check (claimed_at \<noteq> Some None)) (\<lambda>_.
          bind_res (check (attempts \<ge> 0)) (\<lambda>_.
          bind_res (case j_get_or d ''force'' (JBool False) of JBool b \<Rightarrow> Inr b | _ \<Rightarrow> Inl Bad) (\<lambda>force.
          bind_res (case j_get d ''claim_id'' of
                      JNull \<Rightarrow> Inr None | JStr s \<Rightarrow> Inr (Some s) | _ \<Rightarrow> Inl Bad) (\<lambda>claim_id.
          Inr \<lparr>qe_first_seen = the first_seen, qe_last_seen = the last_seen,
               qe_namespace = j_get d ''namespace'', qe_force = force, qe_attempts = attempts,
               qe_claim_id = claim_id, qe_claimed_at = Option.bind claimed_at id\<rparr>)))))))))
      | _ \<Rightarrow> Inl Bad)"

text \<open>
  What reading the file gives: no file, an I/O error, bytes that do not decode or parse, or
  a document.
\<close>

datatype queue_file = Missing | ReadError | Garbage | Document json

fun entry_outcome :: "(entry_error, 'a) result \<Rightarrow> (queue_error, 'a) result" where
  "entry_outcome (Inr x) = Inr x"
| "entry_outcome (Inl Bad) = Inl Corrupt"
| "entry_outcome (Inl (Raised e)) =
     (if e \<in> {KeyErr, TypeErr, ValueErr} then Inl Corrupt else Inl (Escaped e))"

definition load ::
  "(string \<Rightarrow> real option option) \<Rightarrow> (string \<Rightarrow> int option) \<Rightarrow> queue_file
    \<Rightarrow> (queue_error, queue) result" where
  "load float_str int_str f =
     (case f of
        Missing \<Rightarrow> Inr []
      | ReadError \<Rightarrow> Inl Unreadable
      | Garbage \<Rightarrow> Inl Corrupt
      | Document (JObj raw) \<Rightarrow>
          (case j_get_or raw ''version'' (JInt 1) of
             JInt version \<Rightarrow>
               if version < 1 then Inl Corrupt
               else if version > QUEUE_VERSION then Inl UnsupportedVersion
               else (case j_get_or raw ''entries'' (JObj []) of
                       JObj entries \<Rightarrow>
                         map_res (\<lambda>(p, d). bind_res (entry_outcome (from_dict float_str int_str d))
                           (\<lambda>e. Inr (p, e))) entries
                     | _ \<Rightarrow> Inl Corrupt)
           | _ \<Rightarrow> Inl Corrupt)
      | Document _ \<Rightarrow> Inl Corrupt)"

definition opt_json :: "('a \<Rightarrow> json) \<Rightarrow> 'a option \<Rightarrow> json" where
  "opt_json f x = (case x of None \<Rightarrow> JNull | Some y \<Rightarrow> f y)"

definition entry_json :: "queue_entry \<Rightarrow> json" where
  "entry_json e = JObj [(''first_seen'', JFloat (qe_first_seen e)),
     (''last_seen'', JFloat (qe_last_seen e)), (''namespace'', qe_namespace e),
     (''force'', JBool (qe_force e)), (''attempts'', JInt (qe_attempts e)),
     (''claim_id'', opt_json JStr (qe_claim_id e)),
     (''claimed_at'', opt_json JFloat (qe_claimed_at e))]"

definition save :: "queue \<Rightarrow> queue_file" where
  "save q = Document (JObj [(''version'', JInt QUEUE_VERSION),
     (''entries'', JObj (map (\<lambda>(p, e). (p, entry_json e)) q))])"

section \<open>Critical sections\<close>

definition enqueue :: "string \<Rightarrow> json \<Rightarrow> bool \<Rightarrow> real \<Rightarrow> queue \<Rightarrow> queue" where
  "enqueue path namespace force ts q =
     (case map_of q path of
        None \<Rightarrow> od_set path \<lparr>qe_first_seen = ts, qe_last_seen = ts, qe_namespace = namespace,
          qe_force = force, qe_attempts = 0, qe_claim_id = None, qe_claimed_at = None\<rparr> q
      | Some e \<Rightarrow> od_set path (e\<lparr>qe_last_seen := ts, qe_namespace := namespace, qe_force := force,
          qe_attempts := 0, qe_claim_id := None, qe_claimed_at := None\<rparr>) q)"

definition ready :: "queue_entry \<Rightarrow> real \<Rightarrow> real \<Rightarrow> bool" where
  "ready e window now \<longleftrightarrow> now - qe_last_seen e \<ge> window"

definition claimable :: "queue_entry \<Rightarrow> real \<Rightarrow> (queue_error, bool) result" where
  "claimable e now =
     (if qe_claim_id e = None then Inr True
      else case qe_claimed_at e of
        None \<Rightarrow> Inl ClaimError
      | Some t \<Rightarrow> if t > now + CLAIM_FUTURE_SKEW then Inl ClaimError
                  else Inr (now - t \<ge> CLAIM_LEASE))"

type_synonym claims = "(string, string \<times> queue_entry) odict"

text \<open>\<open>token p\<close> is the random token drawn for path \<open>p\<close> in this call.\<close>

fun claim_loop :: "(string \<Rightarrow> queue_entry \<Rightarrow> bool) \<Rightarrow> real \<Rightarrow> (string \<Rightarrow> string) \<Rightarrow> queue
    \<Rightarrow> (queue_error, queue \<times> claims) result" where
  "claim_loop pred now token [] = Inr ([], [])"
| "claim_loop pred now token ((p, e) # q) =
     bind_res (if \<not> pred p e then Inr False else claimable e now) (\<lambda>ok.
       if \<not> ok then bind_res (claim_loop pred now token q) (\<lambda>(q', cs). Inr ((p, e) # q', cs))
       else (let e' = e\<lparr>qe_claim_id := Some (token p), qe_claimed_at := Some now\<rparr>
             in bind_res (claim_loop pred now token q) (\<lambda>(q', cs).
                  Inr ((p, e') # q', (p, token p, e') # cs))))"

definition claim_entries :: "(string \<Rightarrow> queue_entry \<Rightarrow> bool) \<Rightarrow> real \<Rightarrow> (string \<Rightarrow> string) \<Rightarrow> queue
    \<Rightarrow> (queue_error, queue \<times> claims) result" where
  "claim_entries pred now token q = claim_loop pred now token q"

definition owned :: "string \<Rightarrow> string \<Rightarrow> queue \<Rightarrow> bool" where
  "owned p cid q \<longleftrightarrow> (case map_of q p of None \<Rightarrow> False | Some e \<Rightarrow> qe_claim_id e = Some cid)"

definition refresh_claim_if_owned :: "string \<Rightarrow> string \<Rightarrow> real \<Rightarrow> queue \<Rightarrow> bool \<times> queue" where
  "refresh_claim_if_owned p cid now q =
     (case map_of q p of
        None \<Rightarrow> (False, q)
      | Some e \<Rightarrow> if qe_claim_id e \<noteq> Some cid then (False, q)
                  else (True, od_set p (e\<lparr>qe_claimed_at := Some now\<rparr>) q))"

section \<open>Running the callbacks and settling\<close>

text \<open>
  An exception as \<open>_record_failure\<close> inspects it: its \<open>repr\<close>, whether it is one of the
  retryable or permanent classes, and its \<open>retryable\<close> attribute when that is a boolean.
\<close>

record failure =
  fl_repr :: string
  fl_retryable_class :: bool
  fl_permanent_class :: bool
  fl_marker :: "bool option"

datatype callback = Indexed | Skipped | Failed failure | Cancelled

datatype outcome = Settled | Error failure

record drain_result =
  dr_indexed :: "string list"
  dr_skipped :: "string list"
  dr_errors :: "(string \<times> string) list"
  dr_retryable_errors :: "(string \<times> string) list"
  dr_dropped :: "(string \<times> string) list"
  dr_retryable_dropped :: "(string \<times> string) list"
  dr_remaining :: nat

definition empty_result :: drain_result where
  "empty_result = \<lparr>dr_indexed = [], dr_skipped = [], dr_errors = [], dr_retryable_errors = [],
     dr_dropped = [], dr_retryable_dropped = [], dr_remaining = 0\<rparr>"

definition explicitly_permanent_only :: "failure \<Rightarrow> bool" where
  "explicitly_permanent_only x \<longleftrightarrow>
     (fl_permanent_class x \<or> fl_marker x = Some False) \<and>
     \<not> (fl_retryable_class x \<or> fl_marker x = Some True)"

definition record_failure ::
  "string \<Rightarrow> queue_entry \<Rightarrow> failure \<Rightarrow> queue \<Rightarrow> drain_result \<Rightarrow> queue \<times> drain_result" where
  "record_failure p e x q r =
     (let item = (p, fl_repr x) in
      if explicitly_permanent_only x
      then (od_del p q, r\<lparr>dr_dropped := dr_dropped r @ [item]\<rparr>)
      else let e' = e\<lparr>qe_attempts := qe_attempts e + 1\<rparr> in
        if qe_attempts e' < MAX_DRAIN_ATTEMPTS
        then (od_set p e' q, r\<lparr>dr_errors := dr_errors r @ [item],
                               dr_retryable_errors := dr_retryable_errors r @ [item]\<rparr>)
        else (od_del p q, r\<lparr>dr_dropped := dr_dropped r @ [item],
                            dr_retryable_dropped := dr_retryable_dropped r @ [item]\<rparr>))"

text \<open>The last critical section; a missing outcome would be a \<open>KeyError\<close>.\<close>

definition settle_one :: "string \<Rightarrow> string \<Rightarrow> (string, outcome) odict \<Rightarrow> queue \<Rightarrow> drain_result
    \<Rightarrow> (queue_error, queue \<times> drain_result) result" where
  "settle_one p cid outcomes q r =
     (case map_of q p of
        None \<Rightarrow> Inr (q, r)
      | Some e \<Rightarrow>
          if qe_claim_id e \<noteq> Some cid then Inr (q, r)
          else (case map_of outcomes p of
                  None \<Rightarrow> Inl (Escaped KeyErr)
                | Some Settled \<Rightarrow> Inr (od_del p q, r)
                | Some (Error x) \<Rightarrow>
                    Inr (record_failure p (e\<lparr>qe_claim_id := None, qe_claimed_at := None\<rparr>) x q r)))"

fun settle :: "claims \<Rightarrow> (string, outcome) odict \<Rightarrow> queue \<Rightarrow> drain_result
    \<Rightarrow> (queue_error, queue \<times> drain_result) result" where
  "settle [] outcomes q r = Inr (q, r)"
| "settle ((p, cid, _) # cs) outcomes q r =
     bind_res (settle_one p cid outcomes q r) (\<lambda>(q', r'). settle cs outcomes q' r')"

definition settle_all :: "claims \<Rightarrow> (string, outcome) odict \<Rightarrow> queue \<Rightarrow> drain_result
    \<Rightarrow> (queue_error, queue \<times> drain_result) result" where
  "settle_all cs outcomes q r =
     map_sum id (\<lambda>(q', r'). (q', r'\<lparr>dr_remaining := length q'\<rparr>)) (settle cs outcomes q r)"

text \<open>The critical section of a cancelled drain.\<close>

fun release :: "claims \<Rightarrow> queue \<Rightarrow> queue" where
  "release [] q = q"
| "release ((p, cid, _) # cs) q =
     (case map_of q p of
        None \<Rightarrow> release cs q
      | Some e \<Rightarrow>
          if qe_claim_id e \<noteq> Some cid then release cs q
          else release cs (od_set p (e\<lparr>qe_claim_id := None, qe_claimed_at := None\<rparr>) q))"

text \<open>
  \<open>_run_claims\<close> releases the lock between its critical sections. \<open>env p\<close> is what the other
  processes did to the queue since our last section, observed when we come to path \<open>p\<close>
  (\<open>None\<close>: when we settle or release); \<open>clock p\<close> is the time of the refresh and \<open>indexer\<close>
  the callback. The loop stops at a cancellation.
\<close>

record run_state =
  rs_queue :: queue
  rs_outcomes :: "(string, outcome) odict"
  rs_result :: drain_result
  rs_cancelled :: bool

fun run_loop :: "(string option \<Rightarrow> queue \<Rightarrow> queue) \<Rightarrow> (string \<Rightarrow> real)
    \<Rightarrow> (string \<Rightarrow> json \<Rightarrow> bool \<Rightarrow> callback) \<Rightarrow> claims \<Rightarrow> run_state \<Rightarrow> run_state" where
  "run_loop env clock indexer [] s = s"
| "run_loop env clock indexer ((p, cid, e) # cs) s =
     (let refreshed = refresh_claim_if_owned p cid (clock p) (env (Some p) (rs_queue s));
          s' = s\<lparr>rs_queue := snd refreshed\<rparr>
      in if \<not> fst refreshed then run_loop env clock indexer cs s'
         else case indexer p (qe_namespace e) (qe_force e) of
           Skipped \<Rightarrow> run_loop env clock indexer cs
             (s'\<lparr>rs_outcomes := od_set p Settled (rs_outcomes s),
                 rs_result := (rs_result s)\<lparr>dr_skipped := dr_skipped (rs_result s) @ [p]\<rparr>\<rparr>)
         | Indexed \<Rightarrow> run_loop env clock indexer cs
             (s'\<lparr>rs_outcomes := od_set p Settled (rs_outcomes s),
                 rs_result := (rs_result s)\<lparr>dr_indexed := dr_indexed (rs_result s) @ [p]\<rparr>\<rparr>)
         | Failed x \<Rightarrow> run_loop env clock indexer cs
             (s'\<lparr>rs_outcomes := od_set p (Error x) (rs_outcomes s)\<rparr>)
         | Cancelled \<Rightarrow> s'\<lparr>rs_cancelled := True\<rparr>)"

text \<open>The queue afterwards, and the result unless the drain was cancelled.\<close>

definition run_claims :: "(string option \<Rightarrow> queue \<Rightarrow> queue) \<Rightarrow> (string \<Rightarrow> real)
    \<Rightarrow> (string \<Rightarrow> json \<Rightarrow> bool \<Rightarrow> callback) \<Rightarrow> claims \<Rightarrow> queue
    \<Rightarrow> (queue_error, queue \<times> drain_result option) result" where
  "run_claims env clock indexer cs q =
     (let s = run_loop env clock indexer cs
            \<lparr>rs_queue = q, rs_outcomes = [], rs_result = empty_result, rs_cancelled = False\<rparr>;
          q' = env None (rs_queue s)
      in if rs_cancelled s then Inr (release cs q', None)
         else map_sum id (map_prod id Some) (settle_all cs (rs_outcomes s) q' (rs_result s)))"

definition drain_ready where
  "drain_ready window now token env clock indexer q =
     bind_res (claim_entries (\<lambda>p e. ready e window now) now token q) (\<lambda>(q', cs).
       run_claims env clock indexer cs q')"

definition drain_all where
  "drain_all selected now token env clock indexer q =
     bind_res (claim_entries (\<lambda>p e. case selected of None \<Rightarrow> True | Some ps \<Rightarrow> p \<in> set ps) now token q)
       (\<lambda>(q', cs). run_claims env clock indexer cs q')"

record snapshot =
  ss_depth :: nat
  ss_oldest_first_seen :: "real option"
  ss_oldest_path :: "string option"

definition status_snapshot :: "queue \<Rightarrow> snapshot" where
  "status_snapshot q =
     (if q = [] then \<lparr>ss_depth = 0, ss_oldest_first_seen = None, ss_oldest_path = None\<rparr>
      else let (p, e) = arg_min_list (\<lambda>kv. qe_first_seen (snd kv)) q
           in \<lparr>ss_depth = length q, ss_oldest_first_seen = Some (qe_first_seen e),
               ss_oldest_path = Some p\<rparr>)"

section \<open>Reading back what was written\<close>

lemma from_dict_entry_json:
  "qe_attempts e \<ge> 0 \<Longrightarrow> from_dict float_str int_str (entry_json e) = Inr e"
  by (cases "qe_claim_id e"; cases "qe_claimed_at e")
    (simp_all add: from_dict_def entry_json_def j_at_def j_get_def j_get_or_def opt_json_def)

text \<open>
  A saved queue reads back as itself, entry for entry and in order, whatever the flags,
  claims and timestamps of its entries.
\<close>

theorem queue_roundtrip:
  assumes "\<forall>(p, e) \<in> set q. qe_attempts e \<ge> 0"
  shows "load float_str int_str (save q) = Inr q"
proof -
  have "map_res (\<lambda>(p, d). bind_res (entry_outcome (from_dict float_str int_str d)) (\<lambda>e. Inr (p, e)))
      (map (\<lambda>(p, e). (p, entry_json e)) q) = Inr q"
    using assms by (induction q) (auto simp: from_dict_entry_json)
  then show ?thesis by (simp add: load_def save_def j_get_or_def QUEUE_VERSION_def)
qed

definition sample_entry :: queue_entry where
  "sample_entry = \<lparr>qe_first_seen = 1, qe_last_seen = 2, qe_namespace = JNull, qe_force = False,
     qe_attempts = 3, qe_claim_id = Some ''t1'', qe_claimed_at = Some 2\<rparr>"

theorem queue_roundtrip_witness:
  "load (\<lambda>_. None) (\<lambda>_. None) (save [(''/m/a.md'', sample_entry)]) = Inr [(''/m/a.md'', sample_entry)]"
  by (rule queue_roundtrip) (simp add: sample_entry_def)

lemma entry_outcome_escapes:
  "entry_outcome r = Inl (Escaped e) \<Longrightarrow> r = Inl (Raised OverflowErr) \<and> e = OverflowErr"
  by (cases e; cases r rule: entry_outcome.cases) (auto split: if_splits)

lemma map_res_Inl: "map_res f xs = Inl e \<Longrightarrow> \<exists>x \<in> set xs. f x = Inl e"
proof (induction xs)
  case (Cons x xs)
  then show ?case by (cases "f x"; cases "map_res f xs") auto
qed simp

text \<open>
  What reading a queue can raise. Every failure is a classified \<open>DebounceQueueError\<close>
  except one: an \<open>OverflowError\<close>, which a document can cause (\<open>"attempts": Infinity\<close> is valid
  for \<open>json.loads\<close>, and \<open>int(inf)\<close> overflows), escapes the handler unclassified.
\<close>

theorem load_escapes_only_overflow:
  "load float_str int_str f \<notin> Inl ` {Escaped KeyErr, Escaped TypeErr, Escaped ValueErr} \<and>
   load float_str int_str (Document (JObj [(''version'', JInt 2), (''entries'', JObj [(''p'',
      JObj [(''first_seen'', JInt 0), (''last_seen'', JInt 0), (''attempts'', JInfinite False)])])]))
     = Inl (Escaped OverflowErr)"
proof
  have "e = OverflowErr" if "load float_str int_str f = Inl (Escaped e)" for e
    using that
    by (auto simp: load_def bind_res_def split: queue_file.splits json.splits if_splits sum.splits
        dest!: map_res_Inl entry_outcome_escapes)
  then show "load float_str int_str f \<notin> Inl ` {Escaped KeyErr, Escaped TypeErr, Escaped ValueErr}"
    by auto
next
  show "load float_str int_str (Document (JObj [(''version'', JInt 2), (''entries'', JObj [(''p'',
      JObj [(''first_seen'', JInt 0), (''last_seen'', JInt 0), (''attempts'', JInfinite False)])])]))
     = Inl (Escaped OverflowErr)"
    by (simp add: load_def from_dict_def j_at_def j_get_or_def FLOAT_INT_LIMIT_def QUEUE_VERSION_def)
qed

section \<open>The queue under any interleaving\<close>

datatype event =
    Enqueue string json bool real
  | Claim "string \<Rightarrow> queue_entry \<Rightarrow> bool" real "string \<Rightarrow> string"
  | Refresh string string real
  | Settle claims "(string, outcome) odict" drain_result
  | Release claims

fun queue_step :: "queue \<Rightarrow> event \<Rightarrow> queue" where
  "queue_step q (Enqueue p ns force ts) = enqueue p ns force ts q"
| "queue_step q (Claim pred now token) =
     (case claim_entries pred now token q of Inl _ \<Rightarrow> q | Inr (q', _) \<Rightarrow> q')"
| "queue_step q (Refresh p cid now) = snd (refresh_claim_if_owned p cid now q)"
| "queue_step q (Settle cs outcomes r) =
     (case settle_all cs outcomes q r of Inl _ \<Rightarrow> q | Inr (q', _) \<Rightarrow> q')"
| "queue_step q (Release cs) = release cs q"

text \<open>A claim leaves an entry alone or marks it; nothing else happens in its loop.\<close>

definition mark :: "real \<Rightarrow> (string \<Rightarrow> string) \<Rightarrow> string \<Rightarrow> queue_entry \<Rightarrow> queue_entry" where
  "mark now token p e = e\<lparr>qe_claim_id := Some (token p), qe_claimed_at := Some now\<rparr>"

lemma mark_simps [simp]:
  "qe_claim_id (mark now token p e) = Some (token p)"
  "qe_claimed_at (mark now token p e) = Some now"
  "qe_namespace (mark now token p e) = qe_namespace e"
  "qe_force (mark now token p e) = qe_force e"
  "qe_attempts (mark now token p e) = qe_attempts e"
  by (simp_all add: mark_def)

lemma claim_loop_ConsE:
  assumes "claim_loop pred now token ((p, e) # q) = Inr (q', cs)"
  obtains (skip) q1 where "claim_loop pred now token q = Inr (q1, cs)" "q' = (p, e) # q1"
  | (take) q1 cs1 where "claim_loop pred now token q = Inr (q1, cs1)"
      "q' = (p, mark now token p e) # q1" "cs = (p, token p, mark now token p e) # cs1"
      "pred p e" "claimable e now = Inr True"
proof -
  obtain ok where ok: "(if \<not> pred p e then Inr False else claimable e now) = Inr ok"
    using assms by (auto simp: bind_res_Inr_conv)
  show thesis
  proof (cases ok)
    case False
    with assms ok skip show thesis by (auto simp: bind_res_Inr_conv)
  next
    case True
    then have "pred p e" "claimable e now = Inr True" using ok by (auto split: if_splits)
    with assms take show thesis by (auto simp: bind_res_Inr_conv Let_def mark_def)
  qed
qed

lemma claim_loop_entry:
  "claim_loop pred now token q = Inr (q', cs) \<Longrightarrow>
     map_of q' p = map_of q p \<or> (\<exists>e. map_of q p = Some e \<and> map_of q' p = Some (mark now token p e))"
proof (induction q arbitrary: q' cs)
  case (Cons x q)
  obtain p0 e0 where x: "x = (p0, e0)" by fastforce
  from Cons.prems[unfolded x] show ?case
    by (cases rule: claim_loop_ConsE) (use Cons.IH x in \<open>auto split: if_splits\<close>)
qed simp

lemma claim_loop_keys:
  "claim_loop pred now token q = Inr (q', cs) \<Longrightarrow> map fst q' = map fst q \<and> subseq (map fst cs) (map fst q)"
proof (induction q arbitrary: q' cs)
  case (Cons x q)
  obtain p0 e0 where x: "x = (p0, e0)" by fastforce
  from Cons.prems[unfolded x] show ?case
    by (cases rule: claim_loop_ConsE) (use Cons.IH x in \<open>auto intro: subseq_Cons'\<close>)
qed simp

text \<open>\<open>disowned p t\<close>: the entry of \<open>p\<close>, if any, does not carry the claim token \<open>t\<close>.\<close>

definition disowned :: "string \<Rightarrow> string \<Rightarrow> queue \<Rightarrow> bool" where
  "disowned p t q \<longleftrightarrow> \<not> owned p t q"

lemma disowned_iff: "disowned p t q \<longleftrightarrow> (\<forall>e. map_of q p = Some e \<longrightarrow> qe_claim_id e \<noteq> Some t)"
  by (auto simp: disowned_def owned_def split: option.splits)

lemma disowned_set [simp]:
  "disowned p t (od_set p' e q) \<longleftrightarrow> (if p = p' then qe_claim_id e \<noteq> Some t else disowned p t q)"
  by (simp add: disowned_iff)

lemma disowned_del [simp]: "disowned p t q \<Longrightarrow> disowned p t (od_del p' q)"
  by (simp add: disowned_iff)

lemma disowned_enqueue [step_preserves]: "disowned p t q \<Longrightarrow> disowned p t (enqueue p' ns f ts q)"
  by (simp add: enqueue_def split: option.split)

lemma disowned_claim [step_preserves]:
  "claim_entries pred now token q = Inr (q', cs) \<Longrightarrow> token p \<noteq> t \<Longrightarrow> disowned p t q \<Longrightarrow> disowned p t q'"
  using claim_loop_entry[of pred now token q q' cs p]
  by (auto simp: claim_entries_def disowned_iff mark_def)

lemma disowned_refresh [step_preserves]:
  "disowned p t q \<Longrightarrow> disowned p t (snd (refresh_claim_if_owned p' cid now q))"
  by (auto simp: refresh_claim_if_owned_def disowned_iff split: option.split)

lemma disowned_release [step_preserves]: "disowned p t q \<Longrightarrow> disowned p t (release cs q)"
  by (induction cs q rule: release.induct) (auto split: option.splits)

text \<open>What settling makes of an owned entry.\<close>

fun settled_entry :: "outcome \<Rightarrow> queue_entry \<Rightarrow> queue_entry option" where
  "settled_entry Settled e = None"
| "settled_entry (Error x) e =
     (if explicitly_permanent_only x \<or> qe_attempts e + 1 \<ge> MAX_DRAIN_ATTEMPTS then None
      else Some (e\<lparr>qe_attempts := qe_attempts e + 1, qe_claim_id := None, qe_claimed_at := None\<rparr>))"

lemma map_of_record_failure:
  "map_of (fst (record_failure p e x q r)) y =
     (if y = p
      then (if explicitly_permanent_only x \<or> qe_attempts e + 1 \<ge> MAX_DRAIN_ATTEMPTS then None
            else Some (e\<lparr>qe_attempts := qe_attempts e + 1\<rparr>))
      else map_of q y)"
  by (simp add: record_failure_def Let_def)

lemma map_of_settle_one:
  assumes "settle_one p cid outcomes q r = Inr (q', r')"
  shows "map_of q' y =
     (if y = p \<and> owned p cid q
      then settled_entry (the (map_of outcomes p)) (the (map_of q p)) else map_of q y)"
proof -
  have rf: "map_of q' y = (if y = p
      then (if explicitly_permanent_only x \<or> qe_attempts e + 1 \<ge> MAX_DRAIN_ATTEMPTS then None
            else Some (e\<lparr>qe_attempts := qe_attempts e + 1\<rparr>))
      else map_of q y)" if "record_failure p e x q r = (q', r')" for e x
    using map_of_record_failure[of p e x q r y] that by simp
  from assms show ?thesis
    by (auto simp: settle_one_def owned_def split: option.splits if_splits outcome.splits dest!: rf)
qed

lemma settle_one_disowned:
  "settle_one p' cid outcomes q r = Inr (q', r') \<Longrightarrow> disowned p t q \<Longrightarrow> disowned p t q'"
  by (cases "the (map_of outcomes p')")
    (auto simp: disowned_iff map_of_settle_one split: if_splits)

lemma disowned_settle [step_preserves]:
  "settle cs outcomes q r = Inr (q', r') \<Longrightarrow> disowned p t q \<Longrightarrow> disowned p t q'"
  by (induction cs outcomes q r rule: settle.induct)
    (auto simp: bind_res_Inr_conv dest: settle_one_disowned)

text \<open>A section leaves alone the entries its tokens do not own.\<close>

lemma settle_disowned:
  "settle cs outcomes q r = Inr (q', r') \<Longrightarrow> \<forall>t e0. (p, t, e0) \<in> set cs \<longrightarrow> disowned p t q \<Longrightarrow>
     map_of q' p = map_of q p"
proof (induction cs outcomes q r rule: settle.induct)
  case (2 p' cid e0 cs outcomes q r)
  then obtain q1 r1 where s: "settle_one p' cid outcomes q r = Inr (q1, r1)"
    "settle cs outcomes q1 r1 = Inr (q', r')"
    by (auto simp: bind_res_Inr_conv)
  have "\<forall>t e0. (p, t, e0) \<in> set cs \<longrightarrow> disowned p t q1"
    using 2(3) settle_one_disowned[OF s(1)] by auto
  then have "map_of q' p = map_of q1 p" using 2(1) s by auto
  also have "\<dots> = map_of q p"
    using map_of_settle_one[OF s(1), of p] 2(3) by (auto simp: disowned_def)
  finally show ?case .
qed simp

lemma release_disowned:
  "\<forall>t e0. (p, t, e0) \<in> set cs \<longrightarrow> disowned p t q \<Longrightarrow> map_of (release cs q) p = map_of q p"
proof (induction cs q rule: release.induct)
  case (2 p' cid e0 cs q)
  show ?case
  proof (cases "owned p' cid q")
    case True
    then have "p' \<noteq> p" using 2(4) by (auto simp: disowned_def)
    with 2 True show ?thesis by (auto simp: owned_def split: option.splits)
  next
    case False
    then show ?thesis using 2 by (auto simp: owned_def split: option.splits)
  qed
qed simp

section \<open>A newer write survives\<close>

fun fresh_event :: "string \<Rightarrow> string \<Rightarrow> event \<Rightarrow> bool" where
  "fresh_event p t (Claim pred now token) = (token p \<noteq> t)"
| "fresh_event p t _ = True"

lemma settle_all_Inr: "settle_all cs outcomes q r = Inr (q', r') \<Longrightarrow> \<exists>r0. settle cs outcomes q r = Inr (q', r0)"
  by (cases "settle cs outcomes q r") (auto simp: settle_all_def)

interpretation ownership: machine queue_step "\<lambda>_. fresh_event p t" "disowned p t" for p t
proof
  fix q e
  assume "disowned p t q" "fresh_event p t e"
  then show "disowned p t (queue_step q e)"
    by (cases e) (auto split: sum.split dest!: settle_all_Inr intro: step_preserves)
qed

lemma disowned_after_enqueue: "disowned p t (enqueue p ns f ts q)"
  by (simp add: enqueue_def disowned_iff split: option.split)

text \<open>
  C37. A write is never lost to an older drain. Once a path has been enqueued, no drain that
  claimed it before can touch its entry any more: whatever the other processes do in between
  (their random tokens being new), its refresh is refused and neither its settlement nor its
  cancellation changes the entry.
\<close>

theorem newer_write_survives:
  assumes "legal_run (\<lambda>_. fresh_event p t) queue_step (enqueue p ns f ts q) es"
    and "\<forall>t' e0. (p, t', e0) \<in> set cs \<longrightarrow> t' = t"
  shows "let q' = foldl queue_step (enqueue p ns f ts q) es in
     refresh_claim_if_owned p t now q' = (False, q') \<and>
     map_of (queue_step q' (Settle cs outcomes r)) p = map_of q' p \<and>
     map_of (queue_step q' (Release cs)) p = map_of q' p"
proof -
  let ?q = "foldl queue_step (enqueue p ns f ts q) es"
  have d: "disowned p t ?q"
    by (rule ownership.run_inv[OF disowned_after_enqueue assms(1)])
  then have "refresh_claim_if_owned p t now ?q = (False, ?q)"
    by (auto simp: refresh_claim_if_owned_def disowned_iff split: option.split)
  moreover have "map_of (queue_step ?q (Settle cs outcomes r)) p = map_of ?q p"
    using d assms(2) by (auto split: sum.split dest!: settle_all_Inr intro!: settle_disowned)
  moreover have "map_of (queue_step ?q (Release cs)) p = map_of ?q p"
    using d assms(2) by (auto intro!: release_disowned)
  ultimately show ?thesis by (simp add: Let_def)
qed

theorem newer_write_survives_witness:
  "let q' = foldl queue_step (enqueue ''a'' JNull True 9 [(''a'', sample_entry)])
       [Claim (\<lambda>_ _. True) 20 (\<lambda>_. ''t2'')] in
     map_of (queue_step q' (Settle [(''a'', ''t1'', sample_entry)] [(''a'', Settled)] empty_result)) ''a''
       = map_of q' ''a''"
  using newer_write_survives[of "''a''" "''t1''" JNull True 9 "[(''a'', sample_entry)]"
      "[Claim (\<lambda>_ _. True) 20 (\<lambda>_. ''t2'')]" "[(''a'', ''t1'', sample_entry)]" 0 "[(''a'', Settled)]" empty_result]
  by (simp add: Let_def)

section \<open>The retry budget\<close>

definition budget_ok :: "queue \<Rightarrow> bool" where
  "budget_ok q \<longleftrightarrow> (\<forall>p e. map_of q p = Some e \<longrightarrow> 0 \<le> qe_attempts e \<and> qe_attempts e < MAX_DRAIN_ATTEMPTS)"

lemma budget_set [simp]:
  "budget_ok q \<Longrightarrow> 0 \<le> qe_attempts e \<Longrightarrow> qe_attempts e < MAX_DRAIN_ATTEMPTS \<Longrightarrow> budget_ok (od_set p e q)"
  by (simp add: budget_ok_def)

lemma budget_enqueue: "budget_ok q \<Longrightarrow> budget_ok (enqueue p ns f ts q)"
  by (auto simp: enqueue_def MAX_DRAIN_ATTEMPTS_def split: option.split)

lemma budget_claim: "claim_entries pred now token q = Inr (q', cs) \<Longrightarrow> budget_ok q \<Longrightarrow> budget_ok q'"
  unfolding claim_entries_def budget_ok_def
proof (intro allI impI)
  fix p e'
  assume c: "claim_loop pred now token q = Inr (q', cs)"
    and ok: "\<forall>p e. map_of q p = Some e \<longrightarrow> 0 \<le> qe_attempts e \<and> qe_attempts e < MAX_DRAIN_ATTEMPTS"
    and e': "map_of q' p = Some e'"
  from claim_loop_entry[OF c, of p] e' obtain e where "map_of q p = Some e" "qe_attempts e' = qe_attempts e"
    by (cases "map_of q p") (auto simp: mark_def)
  with ok show "0 \<le> qe_attempts e' \<and> qe_attempts e' < MAX_DRAIN_ATTEMPTS" by simp
qed

lemma budget_refresh: "budget_ok q \<Longrightarrow> budget_ok (snd (refresh_claim_if_owned p cid now q))"
  by (auto simp: refresh_claim_if_owned_def budget_ok_def split: option.split)

lemma settled_entry_budget:
  "settled_entry x e = Some e' \<Longrightarrow> 0 \<le> qe_attempts e \<Longrightarrow>
     0 \<le> qe_attempts e' \<and> qe_attempts e' < MAX_DRAIN_ATTEMPTS \<and> qe_attempts e' = qe_attempts e + 1"
  by (cases x) (auto split: if_splits)

lemma budget_settle_one:
  "settle_one p cid outcomes q r = Inr (q', r') \<Longrightarrow> budget_ok q \<Longrightarrow> budget_ok q'"
  by (auto simp: budget_ok_def map_of_settle_one owned_def split: if_splits option.splits
      dest: settled_entry_budget)

lemma budget_settle: "settle cs outcomes q r = Inr (q', r') \<Longrightarrow> budget_ok q \<Longrightarrow> budget_ok q'"
  by (induction cs outcomes q r rule: settle.induct)
    (auto simp: bind_res_Inr_conv dest: budget_settle_one)

lemma budget_release: "budget_ok q \<Longrightarrow> budget_ok (release cs q)"
proof (induction cs q rule: release.induct)
  case (2 p cid e0 cs q)
  show ?case
  proof (cases "map_of q p")
    case None
    with 2 show ?thesis by simp
  next
    case (Some e)
    then have "0 \<le> qe_attempts e" "qe_attempts e < MAX_DRAIN_ATTEMPTS"
      using 2(4) unfolding budget_ok_def by blast+
    then show ?thesis using 2 Some by simp
  qed
qed simp

interpretation budget: machine queue_step "\<lambda>_ _. True" budget_ok
proof
  fix q e
  assume "budget_ok q"
  then show "budget_ok (queue_step q e)"
    by (cases e) (auto split: sum.split dest!: settle_all_Inr
        intro: budget_enqueue budget_claim budget_refresh budget_settle budget_release)
qed

section \<open>What one undisturbed drain does\<close>

text \<open>The fate of an entry when every callback of the drain returns or fails.\<close>

definition drained_entry :: "(string \<Rightarrow> json \<Rightarrow> bool \<Rightarrow> callback) \<Rightarrow> string \<Rightarrow> queue_entry \<Rightarrow> queue_entry option" where
  "drained_entry indexer p e =
     (case indexer p (qe_namespace e) (qe_force e) of
        Failed x \<Rightarrow> settled_entry (Error x) e
      | _ \<Rightarrow> None)"

definition outcome_of :: "callback \<Rightarrow> outcome" where
  "outcome_of c = (case c of Failed x \<Rightarrow> Error x | _ \<Rightarrow> Settled)"

definition never_cancels :: "(string \<Rightarrow> json \<Rightarrow> bool \<Rightarrow> callback) \<Rightarrow> bool" where
  "never_cancels indexer \<longleftrightarrow> (\<forall>p ns f. indexer p ns f \<noteq> Cancelled)"

definition all_unclaimed :: "queue \<Rightarrow> bool" where
  "all_unclaimed q \<longleftrightarrow> (\<forall>(p, e) \<in> set q. qe_claim_id e = None)"

lemma claim_loop_all:
  "all_unclaimed q \<Longrightarrow> claim_loop (\<lambda>_ _. True) now token q =
     Inr (map (\<lambda>(p, e). (p, mark now token p e)) q, map (\<lambda>(p, e). (p, token p, mark now token p e)) q)"
  by (induction q) (auto simp: all_unclaimed_def claimable_def mark_def Let_def)

lemma run_loop_alone:
  assumes "never_cancels indexer" "distinct (map fst cs)"
    and "\<forall>(p, cid, e) \<in> set cs. owned p cid (rs_queue s)"
  shows "let s' = run_loop (\<lambda>_ q. q) clock indexer cs s in
     rs_cancelled s' = rs_cancelled s \<and>
     (\<forall>p. map_of (rs_outcomes s') p = (case map_of cs p of
        Some (cid, e) \<Rightarrow> Some (outcome_of (indexer p (qe_namespace e) (qe_force e)))
      | None \<Rightarrow> map_of (rs_outcomes s) p)) \<and>
     (\<forall>p. map_of (rs_queue s') p = (case map_of cs p of
        Some _ \<Rightarrow> map_option (\<lambda>e. e\<lparr>qe_claimed_at := Some (clock p)\<rparr>) (map_of (rs_queue s) p)
      | None \<Rightarrow> map_of (rs_queue s) p))"
  using assms(2,3)
proof (induction cs arbitrary: s)
  case (Cons c cs)
  obtain p cid e where c: "c = (p, cid, e)" by (cases c) auto
  obtain e0 where e0: "map_of (rs_queue s) p = Some e0" "qe_claim_id e0 = Some cid"
    using Cons.prems(2) c by (auto simp: owned_def split: option.splits)
  let ?q = "od_set p (e0\<lparr>qe_claimed_at := Some (clock p)\<rparr>) (rs_queue s)"
  have r: "refresh_claim_if_owned p cid (clock p) (rs_queue s) = (True, ?q)"
    using e0 by (simp add: refresh_claim_if_owned_def)
  have p: "map_of cs p = None" using Cons.prems(1) c by (simp add: map_of_eq_None_iff)
  have own: "\<forall>(p', cid', e') \<in> set cs. owned p' cid' ?q"
    using Cons.prems c by (force simp: owned_def)
  have step: "run_loop (\<lambda>_ q. q) clock indexer (c # cs) s = run_loop (\<lambda>_ q. q) clock indexer cs s1 \<and>
      rs_queue s1 = ?q \<and> rs_cancelled s1 = rs_cancelled s \<and>
      rs_outcomes s1 = od_set p (outcome_of (indexer p (qe_namespace e) (qe_force e))) (rs_outcomes s)"
    if "s1 = (case indexer p (qe_namespace e) (qe_force e) of
        Skipped \<Rightarrow> s\<lparr>rs_queue := ?q, rs_outcomes := od_set p Settled (rs_outcomes s),
          rs_result := (rs_result s)\<lparr>dr_skipped := dr_skipped (rs_result s) @ [p]\<rparr>\<rparr>
      | Indexed \<Rightarrow> s\<lparr>rs_queue := ?q, rs_outcomes := od_set p Settled (rs_outcomes s),
          rs_result := (rs_result s)\<lparr>dr_indexed := dr_indexed (rs_result s) @ [p]\<rparr>\<rparr>
      | Failed x \<Rightarrow> s\<lparr>rs_queue := ?q, rs_outcomes := od_set p (Error x) (rs_outcomes s)\<rparr>
      | Cancelled \<Rightarrow> s)" for s1
    using that assms(1) r c
    by (auto simp: Let_def outcome_of_def never_cancels_def split: callback.splits)
  obtain s1 where s1: "run_loop (\<lambda>_ q. q) clock indexer (c # cs) s = run_loop (\<lambda>_ q. q) clock indexer cs s1"
    "rs_queue s1 = ?q" "rs_cancelled s1 = rs_cancelled s"
    "rs_outcomes s1 = od_set p (outcome_of (indexer p (qe_namespace e) (qe_force e))) (rs_outcomes s)"
    using step by blast
  have "let s' = run_loop (\<lambda>_ q. q) clock indexer cs s1 in
     rs_cancelled s' = rs_cancelled s1 \<and>
     (\<forall>p. map_of (rs_outcomes s') p = (case map_of cs p of
        Some (cid, e) \<Rightarrow> Some (outcome_of (indexer p (qe_namespace e) (qe_force e)))
      | None \<Rightarrow> map_of (rs_outcomes s1) p)) \<and>
     (\<forall>p. map_of (rs_queue s') p = (case map_of cs p of
        Some _ \<Rightarrow> map_option (\<lambda>e. e\<lparr>qe_claimed_at := Some (clock p)\<rparr>) (map_of (rs_queue s1) p)
      | None \<Rightarrow> map_of (rs_queue s1) p))"
    using Cons.IH[of s1] Cons.prems(1) own s1(2) by simp
  then show ?case
    using s1 p e0(1) c by (auto simp: Let_def split: option.split)
qed simp

lemma settle_alone:
  assumes "distinct (map fst cs)" and "\<forall>(p, cid, e) \<in> set cs. owned p cid q \<and> map_of outcomes p \<noteq> None"
  shows "\<exists>q' r'. settle cs outcomes q r = Inr (q', r') \<and>
     (\<forall>p. map_of q' p = (if p \<in> fst ` set cs
        then settled_entry (the (map_of outcomes p)) (the (map_of q p)) else map_of q p))"
  using assms
proof (induction cs arbitrary: q r)
  case (Cons c cs)
  obtain p cid e where c: "c = (p, cid, e)" by (cases c) auto
  have own: "owned p cid q" "map_of outcomes p \<noteq> None" using Cons.prems(2) c by auto
  then obtain q1 r1 where s: "settle_one p cid outcomes q r = Inr (q1, r1)"
    by (fastforce simp: settle_one_def owned_def split: option.splits outcome.splits)
  note m = map_of_settle_one[OF s]
  have keep: "map_of q1 y = map_of q y" if "y \<in> fst ` set cs" for y
    using m[of y] that Cons.prems(1) c by auto
  then have "\<forall>(p, cid, e) \<in> set cs. owned p cid q1 \<and> map_of outcomes p \<noteq> None"
    using Cons.prems(2) by (force simp: owned_def)
  then obtain q' r' where "settle cs outcomes q1 r1 = Inr (q', r')"
    "\<forall>p. map_of q' p = (if p \<in> fst ` set cs
        then settled_entry (the (map_of outcomes p)) (the (map_of q1 p)) else map_of q1 p)"
    using Cons.IH[of q1 r1] Cons.prems(1) by auto
  note rest = this
  have pn: "p \<notin> fst ` set cs" using Cons.prems(1) c by simp
  have "map_of q' y = (if y \<in> fst ` set (c # cs)
      then settled_entry (the (map_of outcomes y)) (the (map_of q y)) else map_of q y)" for y
    using rest(2) m[of y] keep[of y] own(1) pn c by (cases "y = p") simp_all
  moreover have "settle (c # cs) outcomes q r = Inr (q', r')" using s rest(1) c by simp
  ultimately show ?case by blast
qed simp

lemma drain_all_alone:
  assumes "od_ok q" "all_unclaimed q" "never_cancels indexer"
  shows "\<exists>q' r. drain_all None now token (\<lambda>_ q. q) clock indexer q = Inr (q', Some r) \<and>
    (\<forall>p. map_of q' p = Option.bind (map_of q p) (drained_entry indexer p))"
proof -
  let ?marked = "map (\<lambda>(p, e). (p, mark now token p e)) q"
  let ?claims = "map (\<lambda>(p, e). (p, token p, mark now token p e)) q"
  let ?init = "\<lparr>rs_queue = ?marked, rs_outcomes = [], rs_result = empty_result, rs_cancelled = False\<rparr>"
  let ?s = "run_loop (\<lambda>_ q. q) clock indexer ?claims ?init"
  have keys: "map fst ?claims = map fst q" by (induction q) auto
  have q1: "map_of ?marked p = map_option (mark now token p) (map_of q p)" for p
    by (induction q) auto
  have cs: "map_of ?claims p = map_option (\<lambda>e. (token p, mark now token p e)) (map_of q p)" for p
    by (induction q) auto
  have own: "\<forall>(p, cid, e) \<in> set ?claims. owned p cid (rs_queue ?init)"
    using assms(1) q1 by (auto simp: owned_def)
  have path: "p \<in> fst ` set ?claims \<longleftrightarrow> map_of q p \<noteq> None" for p
    using arg_cong[OF keys, of set] unfolding map_of_eq_None_iff by (simp only: set_map) simp
  have dist: "distinct (map fst ?claims)" by (simp only: keys assms(1))
  note loop = run_loop_alone[OF assms(3) dist own, of clock, unfolded Let_def]
  have s: "rs_cancelled ?s = False"
    "map_of (rs_outcomes ?s) p = map_option (\<lambda>e. outcome_of (indexer p (qe_namespace e) (qe_force e))) (map_of q p)"
    "map_of (rs_queue ?s) p = map_option (\<lambda>e. (mark now token p e)\<lparr>qe_claimed_at := Some (clock p)\<rparr>) (map_of q p)"
    for p
    using loop cs[of p] q1[of p] by (cases "map_of q p", simp_all)+
  have "\<forall>(p, cid, e) \<in> set ?claims. owned p cid (rs_queue ?s) \<and> map_of (rs_outcomes ?s) p \<noteq> None"
    using assms(1) s(2,3) by (auto simp: owned_def)
  from settle_alone[OF dist this, of "rs_result ?s"] obtain q' r' where
    q': "settle ?claims (rs_outcomes ?s) (rs_queue ?s) (rs_result ?s) = Inr (q', r')"
    and q'_map: "\<forall>p. map_of q' p = (if p \<in> fst ` set ?claims
        then settled_entry (the (map_of (rs_outcomes ?s) p)) (the (map_of (rs_queue ?s) p))
        else map_of (rs_queue ?s) p)"
    by blast
  have "map_of q' p = Option.bind (map_of q p) (drained_entry indexer p)" for p
  proof (cases "map_of q p")
    case None
    then have "p \<notin> fst ` set ?claims" using path by blast
    with None q'_map[rule_format, of p] s(3)[of p] show ?thesis by simp
  next
    case (Some e)
    then have "p \<in> fst ` set ?claims" using path by blast
    with Some q'_map[rule_format, of p] s(2,3)[of p] assms(3) show ?thesis
      by (auto simp: drained_entry_def outcome_of_def never_cancels_def mark_def split: callback.split)
  qed
  moreover have "drain_all None now token (\<lambda>_ q. q) clock indexer q
      = Inr (q', Some (r'\<lparr>dr_remaining := length q'\<rparr>))"
    using claim_loop_all[OF assms(2), of now token] s(1) q'
    by (simp add: drain_all_def claim_entries_def run_claims_def Let_def settle_all_def)
  ultimately show ?thesis by blast
qed

lemma od_ok_refresh: "od_ok q \<Longrightarrow> od_ok (snd (refresh_claim_if_owned p cid now q))"
  by (simp add: refresh_claim_if_owned_def split: option.split)

lemma od_ok_run_loop: "od_ok (rs_queue s) \<Longrightarrow> od_ok (rs_queue (run_loop (\<lambda>_ q. q) clock indexer cs s))"
  by (induction "\<lambda>(_ :: string option) (q :: queue). q" clock indexer cs s rule: run_loop.induct)
    (auto simp: Let_def split_beta od_ok_refresh split: callback.split)

lemma od_ok_settle: "settle cs outcomes q r = Inr (q', r') \<Longrightarrow> od_ok q \<Longrightarrow> od_ok q'"
proof (induction cs outcomes q r rule: settle.induct)
  case (2 p cid e cs outcomes q r)
  then obtain q1 r1 where s: "settle_one p cid outcomes q r = Inr (q1, r1)"
    "settle cs outcomes q1 r1 = Inr (q', r')"
    by (auto simp: bind_res_Inr_conv)
  have "od_ok (fst (record_failure p e x q r))" for e x
    using 2(3) by (simp add: record_failure_def Let_def)
  from this have "od_ok q1"
    using s(1) 2(3)
    by (auto simp: settle_one_def split: option.splits if_splits outcome.splits) (metis fst_conv)
  with 2(1) s show ?case by auto
qed simp

lemma od_ok_claim_loop: "claim_loop pred now token q = Inr (q', cs) \<Longrightarrow> od_ok q \<Longrightarrow> od_ok q'"
  using claim_loop_keys by metis

lemma od_ok_drain_all:
  assumes "drain_all sel now token (\<lambda>_ q. q) clock indexer q = Inr (q', Some r)" "od_ok q"
  shows "od_ok q' \<and> dr_remaining r = length q'"
proof -
  obtain q1 cs where c: "claim_entries (\<lambda>p e. case sel of None \<Rightarrow> True | Some ps \<Rightarrow> p \<in> set ps) now token q = Inr (q1, cs)"
    and run: "run_claims (\<lambda>_ q. q) clock indexer cs q1 = Inr (q', Some r)"
    using assms(1) by (auto simp: drain_all_def bind_res_Inr_conv)
  have "od_ok q1" using od_ok_claim_loop c assms(2) by (simp add: claim_entries_def)
  then have ok: "od_ok (rs_queue (run_loop (\<lambda>_ q. q) clock indexer cs
      \<lparr>rs_queue = q1, rs_outcomes = [], rs_result = empty_result, rs_cancelled = False\<rparr>))"
    by (intro od_ok_run_loop) simp
  show ?thesis
    using run od_ok_settle[OF _ ok]
    by (auto simp: run_claims_def Let_def settle_all_def split: if_splits)
      (auto simp: map_sum_def split: sum.splits)
qed

text \<open>
  What \<open>drain_all\<close> does to every entry when no other process interferes, no row is
  claimed and no callback is cancelled: an indexed or skipped path leaves the queue, a
  permanent failure drops it, a retryable one costs an attempt and releases the claim, and
  the fifth attempt drops it. Nothing else changes, and \<open>remaining\<close> counts what is left.
\<close>

theorem drain_all_spec:
  assumes "od_ok q" "all_unclaimed q" "never_cancels indexer"
  shows "\<exists>q' r. drain_all None now token (\<lambda>_ q. q) clock indexer q = Inr (q', Some r) \<and>
    (\<forall>p. map_of q' p = Option.bind (map_of q p) (drained_entry indexer p)) \<and>
    dr_remaining r = length q'"
  using drain_all_alone[OF assms, of now token clock] od_ok_drain_all[OF _ assms(1)] by blast

definition boom :: failure where
  "boom = \<lparr>fl_repr = ''OSError()'', fl_retryable_class = False, fl_permanent_class = False,
     fl_marker = None\<rparr>"

theorem drain_all_spec_witness:
  "\<exists>q' r. drain_all None 9 (\<lambda>_. ''t'') (\<lambda>_ q. q) (\<lambda>_. 9) (\<lambda>p ns f. if f then Indexed else Failed boom)
      [(''a'', sample_entry\<lparr>qe_claim_id := None\<rparr>), (''b'', sample_entry\<lparr>qe_claim_id := None, qe_force := True\<rparr>)]
      = Inr (q', Some r) \<and>
    map_option qe_attempts (map_of q' ''a'') = Some 4 \<and> map_of q' ''b'' = None"
proof -
  let ?q = "[(''a'', sample_entry\<lparr>qe_claim_id := None\<rparr>), (''b'', sample_entry\<lparr>qe_claim_id := None, qe_force := True\<rparr>)]"
  let ?ix = "\<lambda>(p :: string) (ns :: json) f. if f then Indexed else Failed boom"
  have "od_ok ?q" "all_unclaimed ?q" "never_cancels ?ix"
    by (simp_all add: all_unclaimed_def never_cancels_def)
  from drain_all_spec[OF this, of 9 "\<lambda>_. ''t''" "\<lambda>_. 9"] obtain q' r where
    q': "drain_all None 9 (\<lambda>_. ''t'') (\<lambda>_ q. q) (\<lambda>_. 9) ?ix ?q = Inr (q', Some r)"
    "\<forall>p. map_of q' p = Option.bind (map_of ?q p) (drained_entry ?ix p)" by blast
  have "map_option qe_attempts (map_of q' ''a'') = Some 4" "map_of q' ''b'' = None"
    using q'(2)[rule_format, of "''a''"] q'(2)[rule_format, of "''b''"]
    by (simp_all add: drained_entry_def sample_entry_def boom_def explicitly_permanent_only_def MAX_DRAIN_ATTEMPTS_def)
  with q'(1) show ?thesis by blast
qed

record round =
  ro_now :: real
  ro_token :: "string \<Rightarrow> string"
  ro_clock :: "string \<Rightarrow> real"
  ro_indexer :: "string \<Rightarrow> json \<Rightarrow> bool \<Rightarrow> callback"

fun drains :: "round list \<Rightarrow> queue \<Rightarrow> (queue_error, queue) result" where
  "drains [] q = Inr q"
| "drains (x # xs) q =
     bind_res (drain_all None (ro_now x) (ro_token x) (\<lambda>_ q. q) (ro_clock x) (ro_indexer x) q)
       (\<lambda>(q', _). drains xs q')"

definition keeps_failing :: "string \<Rightarrow> round \<Rightarrow> bool" where
  "keeps_failing p x \<longleftrightarrow> never_cancels (ro_indexer x) \<and>
     (\<forall>ns f. \<exists>y. ro_indexer x p ns f = Failed y \<and> \<not> explicitly_permanent_only y)"

lemma drained_entry_unclaimed: "drained_entry indexer p e = Some e' \<Longrightarrow> qe_claim_id e' = None"
  by (auto simp: drained_entry_def split: callback.splits if_splits)

lemma unclaimed_after_drain:
  "od_ok q' \<Longrightarrow> \<forall>p. map_of q' p = Option.bind (map_of q p) (drained_entry indexer p) \<Longrightarrow> all_unclaimed q'"
  by (auto simp: all_unclaimed_def bind_eq_Some_conv dest!: map_of_is_SomeI drained_entry_unclaimed)

lemma drained_attempts:
  "keeps_failing p x \<Longrightarrow> map_option qe_attempts (drained_entry (ro_indexer x) p e) =
     (if qe_attempts e + 1 \<ge> MAX_DRAIN_ATTEMPTS then None else Some (qe_attempts e + 1))"
  unfolding keeps_failing_def drained_entry_def
  by (elim conjE allE[of _ "qe_namespace e"] allE[of _ "qe_force e"] exE) auto

lemma drains_attempts:
  "list_all (keeps_failing p) xs \<Longrightarrow> od_ok q \<Longrightarrow> all_unclaimed q \<Longrightarrow>
   pred_option (\<lambda>e. qe_attempts e < MAX_DRAIN_ATTEMPTS) (map_of q p) \<Longrightarrow>
   \<exists>q'. drains xs q = Inr q' \<and> map_option qe_attempts (map_of q' p) =
     Option.bind (map_option qe_attempts (map_of q p))
       (\<lambda>a. if a + int (length xs) \<ge> MAX_DRAIN_ATTEMPTS then None else Some (a + int (length xs)))"
proof (induction xs arbitrary: q)
  case Nil
  then show ?case by (cases "map_of q p") auto
next
  case (Cons x xs)
  have x: "keeps_failing p x" "never_cancels (ro_indexer x)"
    using Cons.prems(1) by (auto simp: keeps_failing_def)
  obtain q1 r where q1: "drain_all None (ro_now x) (ro_token x) (\<lambda>_ q. q) (ro_clock x) (ro_indexer x) q = Inr (q1, Some r)"
    and m: "\<forall>p. map_of q1 p = Option.bind (map_of q p) (drained_entry (ro_indexer x) p)"
    using drain_all_alone[OF Cons.prems(2,3) x(2)] by blast
  have ok: "od_ok q1" using od_ok_drain_all[OF q1 Cons.prems(2)] by simp
  have att: "map_option qe_attempts (map_of q1 p) = Option.bind (map_option qe_attempts (map_of q p))
      (\<lambda>a. if a + 1 \<ge> MAX_DRAIN_ATTEMPTS then None else Some (a + 1))"
    using m[rule_format, of p] drained_attempts[OF x(1)] by (cases "map_of q p") auto
  then have "pred_option (\<lambda>e. qe_attempts e < MAX_DRAIN_ATTEMPTS) (map_of q1 p)"
    by (cases "map_of q p"; cases "map_of q1 p") (auto split: if_splits)
  then obtain q' where "drains xs q1 = Inr q'" "map_option qe_attempts (map_of q' p) =
     Option.bind (map_option qe_attempts (map_of q1 p))
       (\<lambda>a. if a + int (length xs) \<ge> MAX_DRAIN_ATTEMPTS then None else Some (a + int (length xs)))"
    using Cons.IH[OF _ ok unclaimed_after_drain[OF ok m]] Cons.prems(1) by auto
  then show ?case
    using q1 by (intro exI[of _ q']) (cases "map_of q p", auto simp: att)
qed

text \<open>
  C38. The retry budget ends: an entry whose indexing keeps failing retryably, and that is
  not written again, loses one attempt per drain and is gone from the queue as soon as its
  attempts reach five; until then it stays queued, whatever happens to other entries.
\<close>

theorem retry_budget:
  assumes "list_all (keeps_failing p) xs" "od_ok q" "all_unclaimed q"
    and "map_of q p = Some e" "qe_attempts e < MAX_DRAIN_ATTEMPTS"
  shows "\<exists>q'. drains xs q = Inr q' \<and>
    (if qe_attempts e + int (length xs) \<ge> MAX_DRAIN_ATTEMPTS then map_of q' p = None
     else map_option qe_attempts (map_of q' p) = Some (qe_attempts e + int (length xs)))"
  using drains_attempts[OF assms(1-3)] assms(4,5) by (auto split: if_splits)

definition failing_round :: round where
  "failing_round = \<lparr>ro_now = 9, ro_token = (\<lambda>_. ''t''), ro_clock = (\<lambda>_. 9), ro_indexer = (\<lambda>_ _ _. Failed boom)\<rparr>"

theorem retry_budget_witness:
  "\<exists>q'. drains [failing_round, failing_round] [(''a'', sample_entry\<lparr>qe_claim_id := None\<rparr>)] = Inr q' \<and>
    map_of q' ''a'' = None"
proof -
  have "list_all (keeps_failing ''a'') [failing_round, failing_round]"
    by (simp add: keeps_failing_def failing_round_def never_cancels_def boom_def explicitly_permanent_only_def)
  from retry_budget[OF this, of "[(''a'', sample_entry\<lparr>qe_claim_id := None\<rparr>)]" "sample_entry\<lparr>qe_claim_id := None\<rparr>"]
  show ?thesis by (simp add: all_unclaimed_def sample_entry_def MAX_DRAIN_ATTEMPTS_def)
qed

section \<open>A drain under interference settles everything it still owns\<close>

definition env_ok :: "(string option \<Rightarrow> queue \<Rightarrow> queue) \<Rightarrow> claims \<Rightarrow> bool" where
  "env_ok env cs \<longleftrightarrow> (\<forall>x p t e q. (p, t, e) \<in> set cs \<longrightarrow> disowned p t q \<longrightarrow> disowned p t (env x q))"

lemma refresh_mine: "fst (refresh_claim_if_owned p cid now q) \<longleftrightarrow> owned p cid q"
  by (auto simp: refresh_claim_if_owned_def owned_def split: option.split)

lemma run_loop_keeps:
  "(\<And>x q. disowned p t q \<Longrightarrow> disowned p t (env x q)) \<Longrightarrow> disowned p t (rs_queue s) \<Longrightarrow>
     disowned p t (rs_queue (run_loop env clock indexer cs s))"
  by (induction env clock indexer cs s rule: run_loop.induct)
    (simp_all add: Let_def split_beta disowned_refresh split: callback.split)

lemma run_loop_outcomes:
  "map_of (rs_outcomes s) p \<noteq> None \<Longrightarrow> map_of (rs_outcomes (run_loop env clock indexer cs s)) p \<noteq> None"
  by (induction env clock indexer cs s rule: run_loop.induct)
    (simp_all add: Let_def split_beta split: callback.split)

lemma run_loop_covers:
  "env_ok env cs \<Longrightarrow> (p, t, e) \<in> set cs \<Longrightarrow> \<not> rs_cancelled (run_loop env clock indexer cs s) \<Longrightarrow>
     map_of (rs_outcomes (run_loop env clock indexer cs s)) p \<noteq> None \<or>
     disowned p t (rs_queue (run_loop env clock indexer cs s))"
proof (induction env clock indexer cs s rule: run_loop.induct)
  case (2 env clock indexer p' cid e' cs s)
  let ?r = "refresh_claim_if_owned p' cid (clock p') (env (Some p') (rs_queue s))"
  have env: "env_ok env cs" using "2.prems"(1) unfolding env_ok_def by (meson list.set_intros(2))
  show ?case
  proof (cases "fst ?r")
    case False
    then have d: "disowned p' cid (snd ?r)"
      by (auto simp: refresh_claim_if_owned_def disowned_iff split: option.splits if_splits)
    show ?thesis
    proof (cases "(p, t, e) \<in> set cs")
      case True
      with 2 False env show ?thesis by (simp add: Let_def split_beta)
    next
      case not: False
      then have pt: "p' = p" "cid = t" using "2.prems"(2) by auto
      have "disowned p t (rs_queue (run_loop env clock indexer cs (s\<lparr>rs_queue := snd ?r\<rparr>)))"
        using d pt "2.prems"(1) by (intro run_loop_keeps) (auto simp: env_ok_def)
      with False show ?thesis by (simp add: Let_def split_beta)
    qed
  next
    case mine: True
    show ?thesis
    proof (cases "(p, t, e) \<in> set cs")
      case True
      with 2 mine env show ?thesis
        by (cases "indexer p' (qe_namespace e') (qe_force e')") (simp_all add: Let_def split_beta)
    next
      case False
      then have pt: "p' = p" using "2.prems"(2) by auto
      with "2.prems"(3) mine show ?thesis
        by (cases "indexer p' (qe_namespace e') (qe_force e')")
          (simp_all add: Let_def split_beta run_loop_outcomes)
    qed
  qed
qed simp

lemma settle_total:
  "\<forall>(p, t, e) \<in> set cs. map_of outcomes p \<noteq> None \<or> disowned p t q \<Longrightarrow>
     \<exists>q' r'. settle cs outcomes q r = Inr (q', r')"
proof (induction cs arbitrary: q r)
  case (Cons c cs)
  obtain p t e where c: "c = (p, t, e)" by (cases c) auto
  obtain q1 r1 where s: "settle_one p t outcomes q r = Inr (q1, r1)"
    using Cons.prems c
    by (cases "map_of q p"; cases "map_of outcomes p")
      (fastforce simp: settle_one_def disowned_iff split: outcome.splits)+
  have "\<forall>(p, t, e) \<in> set cs. map_of outcomes p \<noteq> None \<or> disowned p t q1"
    using Cons.prems settle_one_disowned[OF s] by fastforce
  then obtain q' r' where "settle cs outcomes q1 r1 = Inr (q', r')" using Cons.IH by blast
  with s c show ?case by simp
qed simp

text \<open>
  A drain never stumbles over its own bookkeeping: whatever other processes do to the
  queue between its critical sections, short of reproducing one of its random tokens, every
  claim it still owns at the end has a recorded outcome, so \<open>_run_claims\<close> returns and the
  lookup \<open>outcomes[path_str]\<close> cannot fail.
\<close>

theorem run_claims_returns:
  assumes "env_ok env cs"
  shows "\<exists>q' r. run_claims env clock indexer cs q = Inr (q', r)"
proof -
  let ?s = "run_loop env clock indexer cs
      \<lparr>rs_queue = q, rs_outcomes = [], rs_result = empty_result, rs_cancelled = False\<rparr>"
  show ?thesis
  proof (cases "rs_cancelled ?s")
    case True
    then show ?thesis by (simp add: run_claims_def Let_def)
  next
    case False
    have "\<forall>(p, t, e) \<in> set cs. map_of (rs_outcomes ?s) p \<noteq> None \<or> disowned p t (env None (rs_queue ?s))"
      using run_loop_covers[OF assms _ False] assms by (fastforce simp: env_ok_def)
    from settle_total[OF this, of "rs_result ?s"] False show ?thesis
      by (auto simp: run_claims_def Let_def settle_all_def)
  qed
qed

theorem run_claims_returns_witness:
  "\<exists>q' r. run_claims (\<lambda>_ q. enqueue ''a'' JNull False 7 q) (\<lambda>_. 8) (\<lambda>_ _ _. Indexed)
     [(''a'', ''t1'', sample_entry)] [(''a'', sample_entry)] = Inr (q', r)"
proof -
  have "env_ok (\<lambda>_ q. enqueue ''a'' JNull False 7 q) [(''a'', ''t1'', sample_entry)]"
    by (simp add: env_ok_def disowned_enqueue)
  from run_claims_returns[OF this] show ?thesis by blast
qed

end
