(* ===== verification/Formation.thy ===== *)
theory Formation
  imports Json "HOL-Library.Product_Lexorder" "HOL-Library.List_Lexorder" "HOL-Library.Char_ord"
begin

text \<open>
  Review-first memory formation: the candidate state machine and its audit trail, and the
  temporal assertions (\<open>storage/mixins/formation.py\<close>), and the idempotent proposal of
  \<open>formation.py\<close>. The tables of \<open>sqlite_schema.py\<close> are lists in rowid order; a method is
  one function on the database, atomic because its statements run in one transaction that
  is rolled back when it raises. Times are whole seconds: the stored texts are UTC with
  \<open>timespec="seconds"\<close>, whose order as text is their order in time.
\<close>

section \<open>Tables\<close>

datatype status = Pending | Writing | Approved | Rejected | Expired | WriteUncertain

text \<open>A JSON column holds a document, or text that does not parse (\<open>None\<close>).\<close>

record candidate =
  ca_id :: string
  ca_session :: string
  ca_kind :: string
  ca_operation :: string
  ca_destination :: string
  ca_content :: ustr
  ca_evidence :: "json option"
  ca_matched :: "json option"
  ca_confidence :: real
  ca_sensitivity :: string
  ca_diff :: ustr
  ca_status :: status
  ca_extractor :: string
  ca_fingerprint :: string
  ca_reviewer :: "ustr option"
  ca_reason :: "ustr option"
  ca_created :: int
  ca_expires :: int
  ca_decided :: "int option"
  ca_claim_started :: "int option"

record transition =
  tr_candidate :: string
  tr_from :: status
  tr_to :: status
  tr_actor :: ustr
  tr_reason :: ustr
  tr_created :: int

record entity =
  en_id :: string
  en_name :: ustr
  en_type :: string

datatype assertion_status = Active | Superseded

record assertion =
  as_id :: string
  as_subject :: string
  as_predicate :: string
  as_object :: ustr
  as_chunk :: "string option"
  as_recorded :: int
  as_valid_from :: "int option"
  as_valid_to :: "int option"
  as_status :: assertion_status
  as_confidence :: real

datatype edge_type = Supersedes | Contradicts | Supports

record formation_db =
  fd_sessions :: "string list"
  fd_chunks :: "string list"
  fd_candidates :: "candidate list"
  fd_transitions :: "transition list"
  fd_entities :: "entity list"
  fd_assertions :: "assertion list"
  fd_edges :: "(string \<times> string \<times> edge_type) list"
  fd_tx_active :: bool

datatype form_error = StorageFail | ValueFail | RuntimeFail | IntegrityFail

type_synonym 'a outcome_of = "(form_error, 'a) result \<times> formation_db"

section \<open>Candidates\<close>

definition candidate_row :: "candidate \<Rightarrow> (form_error, candidate) result" where
  "candidate_row c =
     (case (ca_evidence c, ca_matched c) of
        (Some (JArr _), Some (JArr _)) \<Rightarrow> Inr c
      | _ \<Rightarrow> Inl StorageFail)"

definition validated_reviewer :: "ustr \<Rightarrow> (form_error, ustr) result" where
  "validated_reviewer reviewer = (if strip reviewer = [] then Inl ValueFail else Inr (strip reviewer))"

definition add_memory_candidate :: "candidate \<Rightarrow> formation_db \<Rightarrow> bool outcome_of" where
  "add_memory_candidate c db =
     (if list_ex (\<lambda>d. ca_id d = ca_id c \<or>
           (ca_session d = ca_session c \<and> ca_fingerprint d = ca_fingerprint c)) (fd_candidates db)
      then (Inr False, db)
      else if ca_session c \<notin> set (fd_sessions db) then (Inl IntegrityFail, db)
      else (Inr True, db\<lparr>fd_candidates := fd_candidates db @ [c\<lparr>ca_status := Pending,
              ca_reviewer := None, ca_reason := None, ca_decided := None, ca_claim_started := None\<rparr>]\<rparr>))"

text \<open>\<open>UPDATE ... SET status='expired' WHERE status='pending' AND expires_at <= now\<close>\<close>

definition expire_where :: "(candidate \<Rightarrow> bool) \<Rightarrow> int \<Rightarrow> formation_db \<Rightarrow> formation_db" where
  "expire_where P now db = db\<lparr>fd_candidates := map (\<lambda>c.
     if P c \<and> ca_status c = Pending \<and> ca_expires c \<le> now then c\<lparr>ca_status := Expired\<rparr> else c)
     (fd_candidates db)\<rparr>"

definition list_memory_candidates :: "status \<Rightarrow> nat \<Rightarrow> int \<Rightarrow> formation_db \<Rightarrow> candidate list outcome_of" where
  "list_memory_candidates st limit now db =
     (let db' = expire_where (\<lambda>_. True) now db
      in (map_res candidate_row
            (take limit (sort_key ca_created (filter (\<lambda>c. ca_status c = st) (fd_candidates db')))), db'))"

definition fetch_one :: "(candidate \<Rightarrow> bool) \<Rightarrow> formation_db \<Rightarrow> (form_error, candidate option) result" where
  "fetch_one P db =
     (case find P (fd_candidates db) of
        None \<Rightarrow> Inr None
      | Some c \<Rightarrow> bind_res (candidate_row c) (\<lambda>r. Inr (Some r)))"

definition get_memory_candidate :: "string \<Rightarrow> int \<Rightarrow> formation_db \<Rightarrow> candidate option outcome_of" where
  "get_memory_candidate cid now db =
     (let db' = expire_where (\<lambda>c. ca_id c = cid) now db in (fetch_one (\<lambda>c. ca_id c = cid) db', db'))"

definition get_memory_candidate_by_fingerprint ::
  "string \<Rightarrow> string \<Rightarrow> int \<Rightarrow> formation_db \<Rightarrow> candidate option outcome_of" where
  "get_memory_candidate_by_fingerprint session fp now db =
     (let P = (\<lambda>c. ca_session c = session \<and> ca_fingerprint c = fp);
          db' = expire_where P now db
      in (fetch_one P db', db'))"

definition record_candidate_transition ::
  "string \<Rightarrow> status \<Rightarrow> status \<Rightarrow> ustr \<Rightarrow> ustr \<Rightarrow> int \<Rightarrow> formation_db \<Rightarrow> formation_db" where
  "record_candidate_transition cid from_status to_status actor reason now db =
     db\<lparr>fd_transitions := fd_transitions db @ [\<lparr>tr_candidate = cid, tr_from = from_status,
       tr_to = to_status, tr_actor = actor, tr_reason = reason, tr_created = now\<rparr>]\<rparr>"

text \<open>
  The shape every transition has: an UPDATE guarded by the id, the expected status and
  perhaps one more condition, and, when it changed a row, a line in the audit trail. The
  result is \<open>cursor.rowcount > 0\<close>.
\<close>

definition guarded_update ::
  "string \<Rightarrow> status \<Rightarrow> (candidate \<Rightarrow> bool) \<Rightarrow> (candidate \<Rightarrow> candidate) \<Rightarrow> status \<Rightarrow> ustr \<Rightarrow> ustr \<Rightarrow> int
    \<Rightarrow> formation_db \<Rightarrow> bool \<times> formation_db" where
  "guarded_update cid from_status guard f to_status actor reason now db =
     (let hit = (\<lambda>c. ca_id c = cid \<and> ca_status c = from_status \<and> guard c);
          db' = db\<lparr>fd_candidates := map (\<lambda>c. if hit c then (f c)\<lparr>ca_status := to_status\<rparr> else c) (fd_candidates db)\<rparr>
      in if list_ex hit (fd_candidates db)
         then (True, record_candidate_transition cid from_status to_status actor reason now db')
         else (False, db))"

definition require_transaction_idle :: "formation_db \<Rightarrow> (form_error, unit) result" where
  "require_transaction_idle db = (if fd_tx_active db then Inl StorageFail else Inr ())"

definition or_text :: "ustr \<Rightarrow> string \<Rightarrow> ustr" where
  "or_text reason dflt = (if reason = [] then lit dflt else reason)"

definition claim_memory_candidate ::
  "string \<Rightarrow> ustr \<Rightarrow> ustr \<Rightarrow> int \<Rightarrow> int \<Rightarrow> formation_db \<Rightarrow> candidate option outcome_of" where
  "claim_memory_candidate cid reviewer reason now now2 db =
     (case validated_reviewer reviewer of
        Inl e \<Rightarrow> (Inl e, db)
      | Inr who \<Rightarrow>
          (case require_transaction_idle db of
             Inl e \<Rightarrow> (Inl e, db)
           | Inr _ \<Rightarrow>
               (let (won, db') = guarded_update cid Pending (\<lambda>c. ca_expires c > now)
                      (\<lambda>c. c\<lparr>ca_reviewer := Some who, ca_reason := Some reason, ca_claim_started := Some now\<rparr>)
                      Writing who (or_text reason ''approval claim'') now db
                in if \<not> won then (Inr None, db') else get_memory_candidate cid now2 db')))"

definition release_memory_candidate :: "string \<Rightarrow> ustr \<Rightarrow> ustr \<Rightarrow> int \<Rightarrow> formation_db \<Rightarrow> bool outcome_of" where
  "release_memory_candidate cid actor reason now db =
     (case require_transaction_idle db of
        Inl e \<Rightarrow> (Inl e, db)
      | Inr _ \<Rightarrow> apfst Inr (guarded_update cid Writing (\<lambda>_. True)
          (\<lambda>c. c\<lparr>ca_reviewer := None, ca_reason := None, ca_claim_started := None\<rparr>) Pending actor reason now db))"

definition mark_claimed_candidate_write_uncertain ::
  "string \<Rightarrow> ustr \<Rightarrow> ustr \<Rightarrow> int \<Rightarrow> formation_db \<Rightarrow> bool outcome_of" where
  "mark_claimed_candidate_write_uncertain cid actor reason now db =
     (case require_transaction_idle db of
        Inl e \<Rightarrow> (Inl e, db)
      | Inr _ \<Rightarrow> apfst Inr (guarded_update cid Writing (\<lambda>_. True)
          (\<lambda>c. c\<lparr>ca_reviewer := Some actor, ca_reason := Some reason, ca_decided := Some now,
             ca_claim_started := None\<rparr>) WriteUncertain actor reason now db))"

definition finalize_memory_candidate :: "string \<Rightarrow> int \<Rightarrow> formation_db \<Rightarrow> bool outcome_of" where
  "finalize_memory_candidate cid now db =
     (case require_transaction_idle db of
        Inl e \<Rightarrow> (Inl e, db)
      | Inr _ \<Rightarrow> apfst Inr (guarded_update cid Writing (\<lambda>_. True)
          (\<lambda>c. c\<lparr>ca_decided := Some now, ca_claim_started := None\<rparr>) Approved (lit ''system'')
          (lit ''durable write completed'') now db))"

text \<open>
  \<open>cutoff\<close> is \<open>None\<close> when \<open>stale_before\<close> is not an ISO-8601 time with a timezone; \<open>reason\<close>
  is the text built from it.
\<close>

definition stale_claims :: "int \<Rightarrow> nat \<Rightarrow> formation_db \<Rightarrow> string list" where
  "stale_claims cutoff limit db =
     map ca_id (take limit (sort_key (\<lambda>c. (the (ca_claim_started c), ca_id c))
       (filter (\<lambda>c. ca_status c = Writing \<and> pred_option (\<lambda>t. t \<le> cutoff) (ca_claim_started c) \<and>
          ca_claim_started c \<noteq> None) (fd_candidates db))))"

fun recover_loop :: "ustr \<Rightarrow> ustr \<Rightarrow> int \<Rightarrow> string list \<Rightarrow> formation_db \<Rightarrow> string list \<times> formation_db" where
  "recover_loop actor reason now [] db = ([], db)"
| "recover_loop actor reason now (cid # cids) db =
     (let r = guarded_update cid Writing (\<lambda>_. True)
            (\<lambda>c. c\<lparr>ca_reviewer := None, ca_reason := None, ca_claim_started := None\<rparr>) Pending actor reason now db;
          rest = recover_loop actor reason now cids (snd r)
      in (if fst r then cid # fst rest else fst rest, snd rest))"

definition recover_stale_memory_candidates ::
  "int option \<Rightarrow> ustr \<Rightarrow> ustr \<Rightarrow> int \<Rightarrow> int \<Rightarrow> formation_db \<Rightarrow> string list outcome_of" where
  "recover_stale_memory_candidates cutoff actor reason limit now db =
     (case require_transaction_idle db of
        Inl e \<Rightarrow> (Inl e, db)
      | Inr _ \<Rightarrow>
          if limit < 1 \<or> limit > 1000 then (Inl ValueFail, db)
          else if strip actor = [] then (Inl ValueFail, db)
          else (case cutoff of
              None \<Rightarrow> (Inl ValueFail, db)
            | Some t \<Rightarrow> apfst Inr (recover_loop actor reason now (stale_claims t (nat limit) db) db)))"

definition mark_memory_candidate_write_uncertain ::
  "string \<Rightarrow> ustr \<Rightarrow> ustr \<Rightarrow> int \<Rightarrow> formation_db \<Rightarrow> bool outcome_of" where
  "mark_memory_candidate_write_uncertain cid actor reason now db =
     (case require_transaction_idle db of
        Inl e \<Rightarrow> (Inl e, db)
      | Inr _ \<Rightarrow> apfst Inr (guarded_update cid Pending (\<lambda>_. True)
          (\<lambda>c. c\<lparr>ca_reviewer := Some actor, ca_reason := Some reason, ca_decided := Some now,
             ca_claim_started := None\<rparr>) WriteUncertain actor reason now db))"

definition resolve_uncertain_memory_candidate ::
  "string \<Rightarrow> ustr \<Rightarrow> ustr \<Rightarrow> int \<Rightarrow> formation_db \<Rightarrow> bool outcome_of" where
  "resolve_uncertain_memory_candidate cid reviewer reason now db =
     (if strip reviewer = [] \<or> strip reason = [] then (Inl ValueFail, db)
      else apfst Inr (guarded_update cid WriteUncertain (\<lambda>_. True)
          (\<lambda>c. c\<lparr>ca_reviewer := Some reviewer, ca_reason := Some reason, ca_decided := Some now,
             ca_claim_started := None\<rparr>) Rejected reviewer reason now db))"

definition list_memory_candidate_transitions :: "string \<Rightarrow> formation_db \<Rightarrow> transition list" where
  "list_memory_candidate_transitions cid db = filter (\<lambda>t. tr_candidate t = cid) (fd_transitions db)"

definition decide_memory_candidate ::
  "string \<Rightarrow> status \<Rightarrow> ustr \<Rightarrow> ustr \<Rightarrow> int \<Rightarrow> formation_db \<Rightarrow> bool outcome_of" where
  "decide_memory_candidate cid st reviewer reason now db =
     (if st \<notin> {Approved, Rejected} then (Inl ValueFail, db)
      else case validated_reviewer reviewer of
        Inl e \<Rightarrow> (Inl e, db)
      | Inr who \<Rightarrow> apfst Inr (guarded_update cid Pending (\<lambda>_. True)
          (\<lambda>c. c\<lparr>ca_reviewer := Some who, ca_reason := Some reason, ca_decided := Some now\<rparr>) st who
          (or_text reason (if st = Approved then ''candidate approved'' else ''candidate rejected'')) now db))"

section \<open>Assertions\<close>

definition add_assertion :: "assertion \<Rightarrow> string \<Rightarrow> ustr \<Rightarrow> string \<Rightarrow> formation_db \<Rightarrow> unit outcome_of" where
  "add_assertion a entity_id name etype db =
     (let taken = list_ex (\<lambda>e. en_id e = entity_id \<or> (en_name e = name \<and> en_type e = etype)) (fd_entities db);
          ents = (if taken then fd_entities db
                  else fd_entities db @ [\<lparr>en_id = entity_id, en_name = name, en_type = etype\<rparr>])
      in case find (\<lambda>e. en_name e = name \<and> en_type e = etype) ents of
           None \<Rightarrow> (Inl ValueFail, db)
         | Some e \<Rightarrow>
             if as_id a \<in> as_id ` set (fd_assertions db) \<or> \<not> pred_option (\<lambda>i. i \<in> set (fd_chunks db)) (as_chunk a)
             then (Inl IntegrityFail, db)
             else (Inr (), db\<lparr>fd_entities := ents,
               fd_assertions := fd_assertions db @ [a\<lparr>as_subject := en_id e, as_status := Active\<rparr>]\<rparr>))"

definition link_assertions :: "string \<Rightarrow> string \<Rightarrow> edge_type option \<Rightarrow> formation_db \<Rightarrow> unit outcome_of" where
  "link_assertions source_id target_id edge db =
     (case edge of
        None \<Rightarrow> (Inl ValueFail, db)
      | Some e \<Rightarrow>
          if (source_id, target_id, e) \<in> set (fd_edges db) \<or>
             (source_id \<in> as_id ` set (fd_assertions db) \<and> target_id \<in> as_id ` set (fd_assertions db))
          then (Inr (), db\<lparr>fd_edges := List.insert (source_id, target_id, e) (fd_edges db),
                 fd_assertions := (if e = Supersedes
                   then map (\<lambda>a. if as_id a = target_id then a\<lparr>as_status := Superseded\<rparr> else a) (fd_assertions db)
                   else fd_assertions db)\<rparr>)
          else (Inl IntegrityFail, db))"

definition holds_at :: "int option \<Rightarrow> assertion \<Rightarrow> bool" where
  "holds_at as_of a \<longleftrightarrow>
     (as_of = None \<or> as_valid_from a = None \<or> the (as_valid_from a) \<le> the as_of) \<and>
     (as_of = None \<or> as_valid_to a = None \<or> the (as_valid_to a) > the as_of) \<and>
     (as_of = None \<or> as_recorded a \<le> the as_of)"

definition query_assertions ::
  "ustr \<Rightarrow> string option \<Rightarrow> int option \<Rightarrow> formation_db \<Rightarrow> (assertion \<times> entity) list" where
  "query_assertions name predicate as_of db =
     sort_desc (\<lambda>(a, e). as_recorded a)
       (filter (\<lambda>(a, e). en_id e = as_subject a \<and> en_name e = name \<and> as_status a = Active \<and>
            (predicate = None \<or> predicate = Some (as_predicate a)) \<and> holds_at as_of a)
         (concat (map (\<lambda>a. map (\<lambda>e. (a, e)) (fd_entities db)) (fd_assertions db))))"

section \<open>The candidate state machine\<close>

datatype form_event =
    Add candidate
  | ListBy status nat int
  | Get string int
  | GetByFingerprint string string int
  | Claim string ustr ustr int int
  | Release string ustr ustr int
  | MarkClaimedUncertain string ustr ustr int
  | Finalize string int
  | Recover "int option" ustr ustr int int
  | MarkUncertain string ustr ustr int
  | Resolve string ustr ustr int
  | Decide string status ustr ustr int

fun form_step :: "formation_db \<Rightarrow> form_event \<Rightarrow> formation_db" where
  "form_step db (Add c) = snd (add_memory_candidate c db)"
| "form_step db (ListBy st limit now) = snd (list_memory_candidates st limit now db)"
| "form_step db (Get cid now) = snd (get_memory_candidate cid now db)"
| "form_step db (GetByFingerprint s f now) = snd (get_memory_candidate_by_fingerprint s f now db)"
| "form_step db (Claim cid who why now now2) = snd (claim_memory_candidate cid who why now now2 db)"
| "form_step db (Release cid who why now) = snd (release_memory_candidate cid who why now db)"
| "form_step db (MarkClaimedUncertain cid who why now) = snd (mark_claimed_candidate_write_uncertain cid who why now db)"
| "form_step db (Finalize cid now) = snd (finalize_memory_candidate cid now db)"
| "form_step db (Recover cutoff who why limit now) = snd (recover_stale_memory_candidates cutoff who why limit now db)"
| "form_step db (MarkUncertain cid who why now) = snd (mark_memory_candidate_write_uncertain cid who why now db)"
| "form_step db (Resolve cid who why now) = snd (resolve_uncertain_memory_candidate cid who why now db)"
| "form_step db (Decide cid st who why now) = snd (decide_memory_candidate cid st who why now db)"

text \<open>The moves the audit trail may record.\<close>

inductive moves :: "status \<Rightarrow> status \<Rightarrow> bool" where
  claim: "moves Pending Writing"
| release: "moves Writing Pending"
| finalize: "moves Writing Approved"
| claimed_uncertain: "moves Writing WriteUncertain"
| recovered_uncertain: "moves Pending WriteUncertain"
| resolve: "moves WriteUncertain Rejected"
| approve: "moves Pending Approved"
| reject: "moves Pending Rejected"

code_pred moves .

inductive_cases moves_fromE: "moves s t"

lemmas moves_intros = moves.intros

text \<open>
  Every method is built from three effects on the tables: inserting a pending row, expiring
  pending rows, and guarded updates along a move.
\<close>

inductive effect :: "formation_db \<Rightarrow> formation_db \<Rightarrow> bool" where
  same: "effect db db"
| insert: "\<forall>d \<in> set (fd_candidates db). ca_id d \<noteq> ca_id c \<Longrightarrow> ca_status c = Pending \<Longrightarrow>
    effect db (db\<lparr>fd_candidates := fd_candidates db @ [c]\<rparr>)"
| expire: "effect db (expire_where P now db)"
| update: "moves s t \<Longrightarrow> \<forall>c. ca_id (f c) = ca_id c \<Longrightarrow>
    effect db (snd (guarded_update cid s guard f t who why now db))"
| seq: "effect db db1 \<Longrightarrow> effect db1 db2 \<Longrightarrow> effect db db2"

lemma recover_loop_effect: "effect db (snd (recover_loop actor reason now cids db))"
proof (induction cids arbitrary: db)
  case (Cons cid cids)
  show ?case
    unfolding recover_loop.simps Let_def snd_conv
    by (rule effect.seq[OF effect.update Cons.IH]) (auto intro: moves_intros)
qed (simp add: effect.same)

lemma form_step_effect: "effect db (form_step db e)"
proof (cases e)
  case (Claim cid who why now now2)
  let ?who = "strip who"
  let ?g = "guarded_update cid Pending (\<lambda>c. ca_expires c > now)
      (\<lambda>c. c\<lparr>ca_reviewer := Some ?who, ca_reason := Some why, ca_claim_started := Some now\<rparr>)
      Writing ?who (or_text why ''approval claim'') now db"
  have "effect db (snd ?g)" by (auto intro: effect.update moves_intros)
  moreover from this have "effect db (snd (get_memory_candidate cid now2 (snd ?g)))"
    by (auto simp: get_memory_candidate_def Let_def intro: effect.seq effect.expire)
  ultimately show ?thesis
    using Claim
    by (simp add: claim_memory_candidate_def validated_reviewer_def require_transaction_idle_def
        split_beta effect.same)
next
  case (Add c)
  then show ?thesis
    by (auto simp: add_memory_candidate_def list_ex_iff intro!: effect.same effect.insert)
next
  case (Recover cutoff who why limit now)
  then show ?thesis
    by (auto simp: recover_stale_memory_candidates_def require_transaction_idle_def
        split: option.split intro: effect.same recover_loop_effect)
qed (auto simp: list_memory_candidates_def get_memory_candidate_def get_memory_candidate_by_fingerprint_def
    release_memory_candidate_def mark_claimed_candidate_write_uncertain_def finalize_memory_candidate_def
    mark_memory_candidate_write_uncertain_def resolve_uncertain_memory_candidate_def
    decide_memory_candidate_def validated_reviewer_def require_transaction_idle_def Let_def
    intro!: effect.same effect.expire effect.update intro: moves_intros)

section \<open>The audit trail\<close>

fun trail :: "status \<Rightarrow> transition list \<Rightarrow> status option" where
  "trail s [] = Some s"
| "trail s (t # ts) = (if tr_from t = s \<and> moves s (tr_to t) then trail (tr_to t) ts else None)"

lemma trail_append: "trail s (ts @ us) = Option.bind (trail s ts) (\<lambda>s'. trail s' us)"
  by (induction ts arbitrary: s) auto

text \<open>
  The trail of every candidate chains from \<open>pending\<close> to its current status; the one change
  without a line is the expiry of a pending row. Ids are the primary key, and the trail
  speaks of existing rows only.
\<close>

definition explains :: "formation_db \<Rightarrow> candidate \<Rightarrow> bool" where
  "explains db c \<longleftrightarrow> (\<exists>s. trail Pending (list_memory_candidate_transitions (ca_id c) db) = Some s \<and>
     (ca_status c = s \<or> (s = Pending \<and> ca_status c = Expired)))"

definition audit_ok :: "formation_db \<Rightarrow> bool" where
  "audit_ok db \<longleftrightarrow> distinct (map ca_id (fd_candidates db)) \<and>
     (\<forall>t \<in> set (fd_transitions db). tr_candidate t \<in> ca_id ` set (fd_candidates db)) \<and>
     (\<forall>c \<in> set (fd_candidates db). explains db c)"

lemma guarded_update_miss: "\<not> fst (guarded_update cid s guard f t who why now db) \<Longrightarrow>
    snd (guarded_update cid s guard f t who why now db) = db"
  by (simp add: guarded_update_def Let_def split: if_splits)

lemma map_ids [simp]: "(\<And>c. ca_id (g c) = ca_id c) \<Longrightarrow> map ca_id (map g cs) = map ca_id cs"
  by (simp add: comp_def)

lemma log_other: "cid \<noteq> ca_id c \<Longrightarrow>
    list_memory_candidate_transitions (ca_id c) (record_candidate_transition cid s t who why now db)
      = list_memory_candidate_transitions (ca_id c) db"
  by (simp add: list_memory_candidate_transitions_def record_candidate_transition_def)

lemma audit_update:
  assumes ok: "audit_ok db" and m: "moves s t" and f: "\<forall>c. ca_id (f c) = ca_id c"
  shows "audit_ok (snd (guarded_update cid s guard f t who why now db))"
proof (cases "fst (guarded_update cid s guard f t who why now db)")
  case False
  with ok show ?thesis by (simp add: guarded_update_miss)
next
  case True
  let ?hit = "\<lambda>c. ca_id c = cid \<and> ca_status c = s \<and> guard c"
  let ?g = "\<lambda>c. if ?hit c then (f c)\<lparr>ca_status := t\<rparr> else c"
  let ?db = "db\<lparr>fd_candidates := map ?g (fd_candidates db)\<rparr>"
  let ?db' = "record_candidate_transition cid s t who why now ?db"
  have db': "snd (guarded_update cid s guard f t who why now db) = ?db'"
    and hit: "list_ex ?hit (fd_candidates db)"
    using True by (auto simp: guarded_update_def Let_def split: if_splits)
  then obtain c0 where c0: "c0 \<in> set (fd_candidates db)" "?hit c0" by (auto simp: list_ex_iff)
  have gid: "ca_id (?g c) = ca_id c" for c using f by simp
  have logs: "list_memory_candidate_transitions x ?db = list_memory_candidate_transitions x db" for x
    by (simp add: list_memory_candidate_transitions_def)
  have "explains ?db' (?g c)" if c: "c \<in> set (fd_candidates db)" for c
  proof (cases "ca_id c = cid")
    case other: False
    have "explains db c" using ok c by (auto simp: audit_ok_def)
    with other show ?thesis by (simp add: explains_def log_other logs)
  next
    case True
    then have "c = c0"
      using ok c c0 by (auto simp: audit_ok_def distinct_map dest: inj_onD)
    with c0 have hc: "?hit c" by simp
    obtain s' where s': "trail Pending (list_memory_candidate_transitions cid db) = Some s'"
      "ca_status c = s' \<or> (s' = Pending \<and> ca_status c = Expired)"
      using ok c hc by (auto simp: audit_ok_def explains_def)
    have "s \<noteq> Expired" using m by (cases rule: moves.cases) auto
    with s' hc have "s' = s" by auto
    then have "trail Pending (list_memory_candidate_transitions cid ?db') = Some t"
      using s'(1) m logs[of cid]
      by (simp add: list_memory_candidate_transitions_def record_candidate_transition_def trail_append)
    with hc f show ?thesis by (simp add: explains_def)
  qed
  then have "\<forall>c \<in> ?g ` set (fd_candidates db). explains ?db' c" by blast
  moreover have cs: "fd_candidates ?db' = map ?g (fd_candidates db)"
    by (simp add: record_candidate_transition_def)
  ultimately have ex: "\<forall>c \<in> set (fd_candidates ?db'). explains ?db' c"
    by (simp only: cs set_map)
  have ids: "map ca_id (fd_candidates ?db') = map ca_id (fd_candidates db)"
    unfolding record_candidate_transition_def using gid by (simp add: comp_def)
  have "ca_id ` set (fd_candidates ?db') = ca_id ` set (fd_candidates db)"
    unfolding set_map[symmetric] ids ..
  moreover have "set (fd_transitions ?db') = insert \<lparr>tr_candidate = cid, tr_from = s, tr_to = t,
      tr_actor = who, tr_reason = why, tr_created = now\<rparr> (set (fd_transitions db))"
    by (simp add: record_candidate_transition_def)
  moreover have "cid \<in> ca_id ` set (fd_candidates db)" using c0 by auto
  ultimately have "\<forall>t \<in> set (fd_transitions ?db'). tr_candidate t \<in> ca_id ` set (fd_candidates ?db')"
    using ok by (simp add: audit_ok_def)
  with ex ids ok show ?thesis unfolding db' audit_ok_def by simp
qed

lemma audit_expire: "audit_ok db \<Longrightarrow> audit_ok (expire_where P now db)"
proof -
  assume ok: "audit_ok db"
  let ?g = "\<lambda>c. if P c \<and> ca_status c = Pending \<and> ca_expires c \<le> now then c\<lparr>ca_status := Expired\<rparr> else c"
  have ids: "map ca_id (map ?g (fd_candidates db)) = map ca_id (fd_candidates db)"
    by (rule map_ids) simp
  have ex: "explains (expire_where P now db) (?g c)" if "explains db c" for c
    using that by (auto simp: explains_def expire_where_def list_memory_candidate_transitions_def)
  have cs: "fd_candidates (expire_where P now db) = map ?g (fd_candidates db)"
    "fd_transitions (expire_where P now db) = fd_transitions db"
    by (simp_all add: expire_where_def)
  have "\<forall>c \<in> set (fd_candidates (expire_where P now db)). explains (expire_where P now db) c"
    unfolding cs using ok ex by (auto simp only: audit_ok_def set_map ball_simps)
  moreover have "ca_id ` set (fd_candidates (expire_where P now db)) = ca_id ` set (fd_candidates db)"
    unfolding cs set_map[symmetric] ids ..
  ultimately show ?thesis
    using ok unfolding audit_ok_def by (simp only: cs ids) simp
qed

lemma audit_insert:
  assumes "audit_ok db" and new: "\<forall>d \<in> set (fd_candidates db). ca_id d \<noteq> ca_id c" and "ca_status c = Pending"
  shows "audit_ok (db\<lparr>fd_candidates := fd_candidates db @ [c]\<rparr>)"
proof -
  have "list_memory_candidate_transitions (ca_id c) db = []"
    using assms by (fastforce simp: audit_ok_def list_memory_candidate_transitions_def filter_empty_conv)
  then show ?thesis
    using assms by (auto simp: audit_ok_def explains_def list_memory_candidate_transitions_def)
qed

lemma audit_effect: "effect db db' \<Longrightarrow> audit_ok db \<Longrightarrow> audit_ok db'"
  by (induction rule: effect.induct) (auto intro: audit_insert audit_expire audit_update)

interpretation audit: machine form_step "\<lambda>_ _. True" audit_ok
  by unfold_locales (rule audit_effect[OF form_step_effect])

text \<open>
  C39. The audit trail is complete but for expiry: from an empty store, after any sequence of
  candidate operations, the recorded transitions of every candidate form a chain of allowed
  moves from \<open>pending\<close> that ends in its current status, or in \<open>pending\<close> when the candidate is
  \<open>expired\<close>: expiry of a pending row is the only change of a status that leaves no line.
\<close>

theorem audit_trail_complete:
  assumes "fd_candidates db = []" and "fd_transitions db = []"
    and "c \<in> set (fd_candidates (foldl form_step db es))"
  shows "\<exists>s. trail Pending (list_memory_candidate_transitions (ca_id c) (foldl form_step db es)) = Some s \<and>
     (ca_status c = s \<or> (s = Pending \<and> ca_status c = Expired))"
proof -
  have "audit_ok db" using assms(1,2) by (simp add: audit_ok_def)
  from audit.run_inv[OF this, of es] assms(3) show ?thesis by (simp add: audit_ok_def explains_def)
qed

definition sample_candidate :: candidate where
  "sample_candidate = \<lparr>ca_id = ''c1'', ca_session = ''s1'', ca_kind = ''fact'', ca_operation = ''add'',
     ca_destination = ''memory'', ca_content = [65], ca_evidence = Some (JArr []), ca_matched = Some (JArr []),
     ca_confidence = 1, ca_sensitivity = ''normal'', ca_diff = [], ca_status = Pending,
     ca_extractor = ''heuristic-v1'', ca_fingerprint = ''f1'', ca_reviewer = None, ca_reason = None,
     ca_created = 0, ca_expires = 100, ca_decided = None, ca_claim_started = None\<rparr>"

definition empty_db :: formation_db where
  "empty_db = \<lparr>fd_sessions = [''s1''], fd_chunks = [], fd_candidates = [], fd_transitions = [],
     fd_entities = [], fd_assertions = [], fd_edges = [], fd_tx_active = False\<rparr>"

theorem audit_trail_complete_witness:
  "\<exists>s. trail Pending (list_memory_candidate_transitions ''c1''
       (foldl form_step empty_db [Add sample_candidate, Claim ''c1'' [65] [] 10 11, Finalize ''c1'' 12])) = Some s \<and>
     s = Approved"
proof -
  let ?db = "foldl form_step empty_db [Add sample_candidate, Claim ''c1'' [65] [] 10 11, Finalize ''c1'' 12]"
  let ?c = "sample_candidate\<lparr>ca_status := Approved, ca_reviewer := Some [65], ca_reason := Some [],
      ca_decided := Some 12\<rparr>"
  have "?c \<in> set (fd_candidates ?db)"
    by (simp add: empty_db_def sample_candidate_def add_memory_candidate_def claim_memory_candidate_def
        validated_reviewer_def strip_def is_space_def require_transaction_idle_def guarded_update_def
        record_candidate_transition_def get_memory_candidate_def expire_where_def finalize_memory_candidate_def
        Let_def)
  from audit_trail_complete[OF _ _ this] show ?thesis by (simp add: empty_db_def sample_candidate_def)
qed

section \<open>Decisions are final, claims are exclusive\<close>

lemma effect_final:
  "effect db db' \<Longrightarrow> c \<in> set (fd_candidates db) \<Longrightarrow> ca_status c \<in> {Approved, Rejected, Expired} \<Longrightarrow>
     c \<in> set (fd_candidates db')"
proof (induction rule: effect.induct)
  case (expire P now db)
  then show ?case by (force simp: expire_where_def)
next
  case (update s t f cid guard who why now db)
  have "ca_status c \<noteq> s" using update by (auto elim: moves.cases)
  with update.prems show ?case
    by (force simp: guarded_update_def Let_def record_candidate_transition_def)
qed auto

interpretation finality: machine form_step "\<lambda>_ _. True"
    "\<lambda>db. c \<in> set (fd_candidates db) \<and> ca_status c \<in> {Approved, Rejected, Expired}" for c
  by unfold_locales (use effect_final[OF form_step_effect] in blast)

text \<open>
  A decision is final: once a candidate is approved, rejected or expired, no sequence of
  operations changes anything in its row.
\<close>

theorem decision_is_final:
  assumes "c \<in> set (fd_candidates db)" and "ca_status c \<in> {Approved, Rejected, Expired}"
  shows "c \<in> set (fd_candidates (foldl form_step db es))"
  using finality.run_inv[of c db es] assms by simp

theorem decision_is_final_witness:
  "sample_candidate\<lparr>ca_status := Rejected\<rparr> \<in> set (fd_candidates (foldl form_step
     (empty_db\<lparr>fd_candidates := [sample_candidate\<lparr>ca_status := Rejected\<rparr>]\<rparr>)
     [Claim ''c1'' [65] [] 1 1, Decide ''c1'' Approved [65] [] 2]))"
  by (rule decision_is_final) simp_all

definition claim_attempt :: "string \<Rightarrow> ustr \<times> ustr \<times> int \<times> int \<Rightarrow> formation_db \<Rightarrow> bool \<times> formation_db" where
  "claim_attempt cid req db =
     (case req of (who, why, now, now2) \<Rightarrow>
       (let r = claim_memory_candidate cid who why now now2 db
        in ((case fst r of Inr (Some _) \<Rightarrow> True | _ \<Rightarrow> False), snd r)))"

definition claim_open :: "string \<Rightarrow> formation_db \<Rightarrow> bool" where
  "claim_open cid db \<longleftrightarrow> (\<exists>c \<in> set (fd_candidates db). ca_id c = cid \<and> ca_status c = Pending)"

definition ids_unique :: "formation_db \<Rightarrow> bool" where
  "ids_unique db \<longleftrightarrow> distinct (map ca_id (fd_candidates db))"

lemma ids_unique_expire [simp]: "ids_unique (expire_where P now db) = ids_unique db"
  by (simp add: ids_unique_def expire_where_def comp_def if_distrib cong: if_cong)

lemma claim_open_expire: "claim_open cid (expire_where P now db) \<Longrightarrow> claim_open cid db"
  by (auto simp: claim_open_def expire_where_def split: if_splits)

lemma ids_unique_update:
  assumes "\<forall>c. ca_id (f c) = ca_id c"
  shows "ids_unique (snd (guarded_update cid s guard f t who why now db)) = ids_unique db"
proof -
  have "map ca_id (map (\<lambda>c. if ca_id c = cid \<and> ca_status c = s \<and> guard c
      then (f c)\<lparr>ca_status := t\<rparr> else c) (fd_candidates db)) = map ca_id (fd_candidates db)"
    by (rule map_ids) (use assms in simp)
  then show ?thesis
    by (simp add: ids_unique_def guarded_update_def Let_def record_candidate_transition_def del: map_map)
qed

lemma claim_open_update_other:
  "t \<noteq> Pending \<Longrightarrow> claim_open cid (snd (guarded_update cid' s guard f t who why now db)) \<Longrightarrow>
     \<forall>c. ca_id (f c) = ca_id c \<Longrightarrow> claim_open cid db"
  by (auto simp: claim_open_def guarded_update_def Let_def record_candidate_transition_def split: if_splits)

lemma claim_closes:
  assumes u: "ids_unique db" and won: "fst (guarded_update cid Pending guard f Writing who why now db)"
    and f: "\<forall>c. ca_id (f c) = ca_id c"
  shows "claim_open cid db \<and> \<not> claim_open cid (snd (guarded_update cid Pending guard f Writing who why now db))"
proof -
  let ?hit = "\<lambda>c. ca_id c = cid \<and> ca_status c = Pending \<and> guard c"
  obtain c0 where c0: "c0 \<in> set (fd_candidates db)" "?hit c0"
    using won by (auto simp: guarded_update_def Let_def list_ex_iff split: if_splits)
  have only: "c = c0" if "c \<in> set (fd_candidates db)" "ca_id c = cid" for c
    using u c0 that by (auto simp: ids_unique_def distinct_map dest: inj_onD)
  have after: "fd_candidates (snd (guarded_update cid Pending guard f Writing who why now db))
      = map (\<lambda>c. if ?hit c then (f c)\<lparr>ca_status := Writing\<rparr> else c) (fd_candidates db)"
    using won by (auto simp: guarded_update_def Let_def record_candidate_transition_def split: if_splits)
  have "ca_status (if ?hit c then (f c)\<lparr>ca_status := Writing\<rparr> else c) = Writing"
    if "c \<in> set (fd_candidates db)" "ca_id (if ?hit c then (f c)\<lparr>ca_status := Writing\<rparr> else c) = cid" for c
  proof (cases "?hit c")
    case False
    with that have "c = c0" using only by simp
    with False c0 show ?thesis by simp
  qed simp
  then have "\<not> claim_open cid (snd (guarded_update cid Pending guard f Writing who why now db))"
    unfolding claim_open_def after set_map by (metis (no_types, lifting) image_iff status.distinct(1))
  with c0 show ?thesis by (auto simp: claim_open_def)
qed

definition claim_update where
  "claim_update cid who why now db = guarded_update cid Pending (\<lambda>c. ca_expires c > now)
     (\<lambda>c. c\<lparr>ca_reviewer := Some (strip who), ca_reason := Some why, ca_claim_started := Some now\<rparr>)
     Writing (strip who) (or_text why ''approval claim'') now db"

lemma claim_attempt_eq:
  "claim_attempt cid (who, why, now, now2) db =
     (if strip who = [] \<or> fd_tx_active db \<or> \<not> fst (claim_update cid who why now db)
      then (False, if strip who = [] \<or> fd_tx_active db then db else snd (claim_update cid who why now db))
      else let r = get_memory_candidate cid now2 (snd (claim_update cid who why now db))
        in ((case fst r of Inr (Some _) \<Rightarrow> True | _ \<Rightarrow> False), snd r))"
  by (simp add: claim_attempt_def claim_memory_candidate_def validated_reviewer_def
      require_transaction_idle_def claim_update_def Let_def split_beta)

lemma claim_update_unique [simp]: "ids_unique (snd (claim_update cid who why now db)) = ids_unique db"
  by (simp add: claim_update_def ids_unique_update)

lemma claim_update_open: "claim_open cid (snd (claim_update cid who why now db)) \<Longrightarrow> claim_open cid db"
  unfolding claim_update_def by (erule claim_open_update_other[rotated]) simp_all

lemma claim_update_closes: "ids_unique db \<Longrightarrow> fst (claim_update cid who why now db) \<Longrightarrow>
    claim_open cid db \<and> \<not> claim_open cid (snd (claim_update cid who why now db))"
  unfolding claim_update_def by (rule claim_closes) simp_all

lemma snd_get: "snd (get_memory_candidate cid now db) = expire_where (\<lambda>c. ca_id c = cid) now db"
  by (simp add: get_memory_candidate_def Let_def)

interpretation claims: test_and_set ids_unique "claim_open cid" "claim_attempt cid" for cid
proof
  fix db and req :: "ustr \<times> ustr \<times> int \<times> int"
  assume ok: "ids_unique db"
  obtain who why now now2 where req: "req = (who, why, now, now2)" by (cases req) auto
  show "ids_unique (snd (claim_attempt cid req db))"
    using ok by (simp add: req claim_attempt_eq Let_def snd_get)
  show "claim_open cid db" if "fst (claim_attempt cid req db)"
    using that claim_update_closes[OF ok]
    by (auto simp: req claim_attempt_eq Let_def split: if_splits)
  show "\<not> claim_open cid (snd (claim_attempt cid req db))" if "fst (claim_attempt cid req db)"
    using that claim_update_closes[OF ok]
    by (auto simp: req claim_attempt_eq Let_def snd_get dest: claim_open_expire split: if_splits)
  show "\<not> claim_open cid (snd (claim_attempt cid req db))" if "\<not> claim_open cid db"
    using that
    by (auto simp: req claim_attempt_eq Let_def snd_get
        dest!: claim_open_expire claim_update_open split: if_splits)
qed

text \<open>
  Approval is claimed at most once: of any sequence of claims for a candidate, by whom
  and at whatever times, at most one is given the candidate to write.
\<close>

theorem claim_is_exclusive:
  assumes "distinct (map ca_id (fd_candidates db))"
  shows "length (filter (\<lambda>w. w) (attempts (claim_attempt cid) reqs db)) \<le> 1"
  using claims.at_most_one_winner[of db cid reqs] assms by (simp add: ids_unique_def)

theorem claim_is_exclusive_witness:
  "length (filter (\<lambda>w. w) (attempts (claim_attempt ''c1'') [([65], [], 1, 1), ([66], [], 2, 2)]
     (empty_db\<lparr>fd_candidates := [sample_candidate]\<rparr>))) \<le> 1"
  by (rule claim_is_exclusive) simp

section \<open>Recovering stale claims\<close>

definition released :: "candidate \<Rightarrow> candidate" where
  "released c = c\<lparr>ca_status := Pending, ca_reviewer := None, ca_reason := None, ca_claim_started := None\<rparr>"

lemma released_id [simp]: "ca_id (released c) = ca_id c"
  by (simp add: released_def)

lemma recover_step:
  assumes "ids_unique db" "c \<in> set (fd_candidates db)" "ca_status c = Writing"
  shows "fst (guarded_update (ca_id c) Writing (\<lambda>_. True)
      (\<lambda>c. c\<lparr>ca_reviewer := None, ca_reason := None, ca_claim_started := None\<rparr>) Pending actor reason now db) \<and>
    fd_candidates (snd (guarded_update (ca_id c) Writing (\<lambda>_. True)
      (\<lambda>c. c\<lparr>ca_reviewer := None, ca_reason := None, ca_claim_started := None\<rparr>) Pending actor reason now db))
      = map (\<lambda>d. if ca_id d = ca_id c then released d else d) (fd_candidates db)"
proof -
  have only: "d = c" if "d \<in> set (fd_candidates db)" "ca_id d = ca_id c" for d
    using assms(1,2) that by (auto simp: ids_unique_def distinct_map dest: inj_onD)
  have "fst (guarded_update (ca_id c) Writing (\<lambda>_. True)
      (\<lambda>c. c\<lparr>ca_reviewer := None, ca_reason := None, ca_claim_started := None\<rparr>) Pending actor reason now db)"
    using assms(2,3) by (auto simp: guarded_update_def Let_def list_ex_iff)
  moreover have "map (\<lambda>d. if ca_id d = ca_id c \<and> ca_status d = Writing \<and> True
        then d\<lparr>ca_reviewer := None, ca_reason := None, ca_claim_started := None, ca_status := Pending\<rparr> else d) (fd_candidates db)
      = map (\<lambda>d. if ca_id d = ca_id c then released d else d) (fd_candidates db)"
    using only assms(3) by (auto simp: released_def)
  ultimately show ?thesis
    by (auto simp: guarded_update_def Let_def record_candidate_transition_def split: if_splits)
qed

lemma recover_loop_all:
  "ids_unique db \<Longrightarrow> distinct cids \<Longrightarrow>
   \<forall>i \<in> set cids. \<exists>c \<in> set (fd_candidates db). ca_id c = i \<and> ca_status c = Writing \<Longrightarrow>
   fst (recover_loop actor reason now cids db) = cids \<and>
   fd_candidates (snd (recover_loop actor reason now cids db))
     = map (\<lambda>c. if ca_id c \<in> set cids then released c else c) (fd_candidates db)"
proof (induction cids arbitrary: db)
  case (Cons i cids)
  obtain c where c: "c \<in> set (fd_candidates db)" "ca_id c = i" "ca_status c = Writing"
    using Cons.prems(3) by auto
  let ?g = "guarded_update i Writing (\<lambda>_. True)
      (\<lambda>c. c\<lparr>ca_reviewer := None, ca_reason := None, ca_claim_started := None\<rparr>) Pending actor reason now db"
  have g: "fst ?g" "fd_candidates (snd ?g) = map (\<lambda>d. if ca_id d = i then released d else d) (fd_candidates db)"
    using recover_step[OF Cons.prems(1) c(1,3), of actor reason now] c(2) by simp_all
  have u: "ids_unique (snd ?g)" using Cons.prems(1) by (simp add: ids_unique_update)
  have "\<forall>j \<in> set cids. \<exists>d \<in> set (fd_candidates (snd ?g)). ca_id d = j \<and> ca_status d = Writing"
    using Cons.prems(2,3) g(2) by (force simp: image_iff)
  with Cons.IH[OF u] Cons.prems(2) g show ?case
    by (simp add: Let_def)
qed simp

text \<open>
  Recovery returns exactly the stale claims: with unique ids, the recovered ids are the
  oldest \<open>limit\<close> claims started at or before the cutoff, each of those rows is back to
  \<open>pending\<close> without a reviewer, and no other row changes.
\<close>

theorem recovery_exact:
  assumes "distinct (map ca_id (fd_candidates db))"
    and "recover_stale_memory_candidates (Some cutoff) actor reason limit now db = (Inr ids, db')"
  shows "ids = stale_claims cutoff (nat limit) db \<and> length ids \<le> nat limit \<and>
    fd_candidates db' = map (\<lambda>c. if ca_id c \<in> set ids then released c else c) (fd_candidates db) \<and>
    (\<forall>c \<in> set (fd_candidates db). ca_id c \<in> set ids \<longrightarrow>
       ca_status c = Writing \<and> pred_option (\<lambda>t. t \<le> cutoff) (ca_claim_started c))"
proof -
  let ?stale = "\<lambda>c. ca_status c = Writing \<and> pred_option (\<lambda>t. t \<le> cutoff) (ca_claim_started c) \<and> ca_claim_started c \<noteq> None"
  let ?row = "take (nat limit) (sort_key (\<lambda>c. (the (ca_claim_started c), ca_id c)) (filter ?stale (fd_candidates db)))"
  have rows: "set ?row \<subseteq> set (filter ?stale (fd_candidates db))"
    using set_take_subset by fastforce
  have loop: "(ids, db') = recover_loop actor reason now (stale_claims cutoff (nat limit) db) db"
    using assms(2)
    by (auto simp: recover_stale_memory_candidates_def require_transaction_idle_def apfst_def map_prod_def
        split: if_splits prod.splits)
  have "distinct (map ca_id (sort_key (\<lambda>c. (the (ca_claim_started c), ca_id c)) (filter ?stale (fd_candidates db))))"
    using assms(1) by (simp add: distinct_map inj_on_def)
  then have dist: "distinct (stale_claims cutoff (nat limit) db)"
    unfolding stale_claims_def take_map[symmetric] by (rule distinct_take)
  have ex: "\<forall>i \<in> set (stale_claims cutoff (nat limit) db). \<exists>c \<in> set (fd_candidates db). ca_id c = i \<and> ca_status c = Writing"
    using rows by (force simp: stale_claims_def)
  have res: "ids = stale_claims cutoff (nat limit) db"
    "fd_candidates db' = map (\<lambda>c. if ca_id c \<in> set ids then released c else c) (fd_candidates db)"
    using recover_loop_all[OF assms(1)[folded ids_unique_def] dist ex, of actor reason now]
    unfolding loop[symmetric] by (auto simp only: fst_conv snd_conv)
  have "ca_status c = Writing \<and> pred_option (\<lambda>t. t \<le> cutoff) (ca_claim_started c)"
    if c: "c \<in> set (fd_candidates db)" and i: "ca_id c \<in> set ids" for c
  proof -
    obtain d where "d \<in> set ?row" "ca_id d = ca_id c" using i unfolding res(1) stale_claims_def by auto
    then have "d \<in> set (fd_candidates db)" "?stale d" "ca_id d = ca_id c" using rows by auto
    moreover from this have "d = c" using assms(1) c by (auto simp: distinct_map dest: inj_onD)
    ultimately show ?thesis by simp
  qed
  moreover have "length ids \<le> nat limit" unfolding res(1) stale_claims_def by simp
  ultimately show ?thesis using res by blast
qed

definition stuck_db :: formation_db where
  "stuck_db = empty_db\<lparr>fd_candidates :=
     [sample_candidate\<lparr>ca_status := Writing, ca_claim_started := Some 5\<rparr>,
      sample_candidate\<lparr>ca_id := ''c2'', ca_fingerprint := ''f2'', ca_status := Writing, ca_claim_started := Some 50\<rparr>]\<rparr>"

theorem recovery_exact_witness:
  "\<exists>db'. recover_stale_memory_candidates (Some 10) [65] [] 100 60 stuck_db = (Inr [''c1''], db') \<and>
     [''c1''] = stale_claims 10 100 stuck_db"
proof -
  have s: "stale_claims 10 100 stuck_db = [''c1'']"
    by (simp add: stale_claims_def stuck_db_def sample_candidate_def)
  have loop: "fst (recover_loop [65] [] 60 [''c1''] stuck_db) = [''c1'']"
    by (simp add: stuck_db_def empty_db_def guarded_update_def sample_candidate_def record_candidate_transition_def)
  have idle: "fd_tx_active stuck_db = False" by (simp add: stuck_db_def empty_db_def)
  have run: "recover_stale_memory_candidates (Some 10) [65] [] 100 60 stuck_db
      = (Inr [''c1''], snd (recover_loop [65] [] 60 [''c1''] stuck_db))"
    by (simp add: recover_stale_memory_candidates_def require_transaction_idle_def strip_def is_space_def s
        idle loop prod_eq_iff del: recover_loop.simps)
  have "distinct (map ca_id (fd_candidates stuck_db))" by (simp add: stuck_db_def sample_candidate_def)
  from recovery_exact[OF this run] run show ?thesis by auto
qed

section \<open>Assertions\<close>

text \<open>
  A query over the assertions answers with exactly the active assertions about that name
  that match the predicate and hold at the asked time, newest first; an assertion that has
  been superseded is never among them.
\<close>

theorem query_assertions_exact:
  "(set (query_assertions name predicate as_of db) =
     {(a, e). a \<in> set (fd_assertions db) \<and> e \<in> set (fd_entities db) \<and> en_id e = as_subject a \<and>
        en_name e = name \<and> as_status a = Active \<and>
        (predicate = None \<or> predicate = Some (as_predicate a)) \<and> holds_at as_of a}) \<and>
   descending (map (\<lambda>(a, e). as_recorded a) (query_assertions name predicate as_of db)) \<and>
   (fst (link_assertions s t (Some Supersedes) db) = Inr () \<and>
      (a, e) \<in> set (query_assertions name predicate as_of (snd (link_assertions s t (Some Supersedes) db)))
      \<longrightarrow> as_id a \<noteq> t)"
proof -
  have members: "set (query_assertions name predicate as_of db) =
     {(a, e). a \<in> set (fd_assertions db) \<and> e \<in> set (fd_entities db) \<and> en_id e = as_subject a \<and>
        en_name e = name \<and> as_status a = Active \<and>
        (predicate = None \<or> predicate = Some (as_predicate a)) \<and> holds_at as_of a}" for db
    by (auto simp: query_assertions_def)
  have final: "as_id a \<noteq> t"
    if ok: "fst (link_assertions s t (Some Supersedes) db) = Inr ()"
      and hit: "(a, e) \<in> set (query_assertions name predicate as_of (snd (link_assertions s t (Some Supersedes) db)))"
  proof -
    let ?sup = "\<lambda>a. if as_id a = t then a\<lparr>as_status := Superseded\<rparr> else a"
    have mem: "a \<in> set (fd_assertions (snd (link_assertions s t (Some Supersedes) db)))"
      and "as_status a = Active"
      using hit unfolding members by auto
    have "fd_assertions (snd (link_assertions s t (Some Supersedes) db)) = map ?sup (fd_assertions db)"
      using ok by (auto simp: link_assertions_def split: if_splits)
    with mem have "a \<in> ?sup ` set (fd_assertions db)" by (simp only: set_map)
    then obtain a0 where "a = ?sup a0" by (rule imageE)
    with \<open>as_status a = Active\<close> show ?thesis by (cases "as_id a0 = t") simp_all
  qed
  have desc: "descending (map (\<lambda>(a, e). as_recorded a) (query_assertions name predicate as_of db))"
    unfolding query_assertions_def by (rule descending_sort_desc)
  show ?thesis by (intro conjI impI members desc) (elim conjE, rule final)
qed

definition sample_assertion :: "string \<Rightarrow> assertion" where
  "sample_assertion i = \<lparr>as_id = i, as_subject = ''e1'', as_predicate = ''uses'', as_object = [65], as_chunk = None,
     as_recorded = 3, as_valid_from = None, as_valid_to = None, as_status = Active, as_confidence = 1\<rparr>"

definition assertion_db :: formation_db where
  "assertion_db = empty_db\<lparr>fd_entities := [\<lparr>en_id = ''e1'', en_name = [77], en_type = ''x''\<rparr>],
     fd_assertions := [sample_assertion ''a1'', sample_assertion ''a2'']\<rparr>"

theorem query_assertions_exact_witness:
  "(sample_assertion ''a2'', \<lparr>en_id = ''e1'', en_name = [77], en_type = ''x''\<rparr>) \<in>
      set (query_assertions [77] None None (snd (link_assertions ''a2'' ''a1'' (Some Supersedes) assertion_db))) \<and>
   as_id (sample_assertion ''a2'') \<noteq> ''a1''"
proof -
  have linked: "fst (link_assertions ''a2'' ''a1'' (Some Supersedes) assertion_db) = Inr ()"
    by (simp add: link_assertions_def assertion_db_def sample_assertion_def)
  have hit: "(sample_assertion ''a2'', \<lparr>en_id = ''e1'', en_name = [77], en_type = ''x''\<rparr>) \<in>
      set (query_assertions [77] None None (snd (link_assertions ''a2'' ''a1'' (Some Supersedes) assertion_db)))"
    by (simp add: query_assertions_def link_assertions_def assertion_db_def sample_assertion_def holds_at_def empty_db_def)
  show ?thesis
    using query_assertions_exact[of "[77]" None None assertion_db "''a2''" "''a1''" "sample_assertion ''a2''"
      "\<lparr>en_id = ''e1'', en_name = [77], en_type = ''x''\<rparr>"] linked hit by blast
qed

end
