(* ===== verification/Proposals.thy ===== *)
theory Proposals
  imports Formation Models
begin

text \<open>
  Producing review candidates and the evidence shown beside them (\<open>formation.py\<close>,
  \<open>search/conflict.py\<close>). Parameters: the compiled regular expressions (\<open>hits\<close>, by the
  index of the pattern, and \<open>supersede_hit\<close>), the privacy scanner, SHA-256, \<open>casefold\<close> and
  \<open>lower\<close>, fresh uuids, the dense search and the rounding of displayed scores.
\<close>

section \<open>Classification and proposals\<close>

definition KIND_PATTERNS :: "(string \<times> real) list" where
  "KIND_PATTERNS = [(''decision'', 95 / 100), (''preference'', 9 / 10), (''procedure'', 9 / 10),
     (''action'', 85 / 100), (''fact'', 75 / 100)]"

record classification =
  cl_kind :: string
  cl_operation :: string
  cl_destination :: string
  cl_confidence :: real

definition classify :: "(string \<Rightarrow> ustr \<Rightarrow> bool) \<Rightarrow> (ustr \<Rightarrow> bool) \<Rightarrow> ustr \<Rightarrow> classification option" where
  "classify hits supersede_hit content =
     (case find (\<lambda>(name, _). hits name content) KIND_PATTERNS of
        None \<Rightarrow> None
      | Some (kind, confidence) \<Rightarrow> Some \<lparr>cl_kind = kind,
          cl_operation = (if supersede_hit content then ''supersede'' else ''add''),
          cl_destination = (if kind = ''procedure'' then ''pinned'' else ''memory''),
          cl_confidence = confidence\<rparr>)"

record session_event =
  ev_id :: json
  ev_content :: ustr
  ev_chunk_ids :: json

record environment =
  env_hits :: "string \<Rightarrow> ustr \<Rightarrow> bool"
  env_supersede :: "ustr \<Rightarrow> bool"
  env_private :: "ustr \<Rightarrow> bool"
  env_digest :: "string list \<Rightarrow> ustr \<Rightarrow> string"
  env_casefold :: "ustr \<Rightarrow> ustr"
  env_text :: "ustr \<Rightarrow> string"

definition month :: int where "month = 30 * 24 * 3600"

text \<open>\<open>env_digest\<close> hashes the NUL-separated parts; \<open>env_text\<close> carries text into a JSON string.\<close>

definition event_candidate ::
  "environment \<Rightarrow> string \<Rightarrow> int \<Rightarrow> string \<Rightarrow> session_event \<Rightarrow> ustr \<Rightarrow> classification \<Rightarrow> candidate" where
  "event_candidate env session now uuid ev content cl =
     \<lparr>ca_id = uuid, ca_session = session, ca_kind = cl_kind cl, ca_operation = cl_operation cl,
      ca_destination = cl_destination cl, ca_content = take 2000 content,
      ca_evidence = Some (JArr [JObj [(''event_id'', ev_id ev), (''chunk_ids'', ev_chunk_ids ev),
        (''span'', JArr [JInt 0, JInt (int (min (length content) 2000))])]]),
      ca_matched = Some (JArr []), ca_confidence = cl_confidence cl, ca_sensitivity = ''normal'',
      ca_diff = [43, 32] @ take 2000 content, ca_status = Pending, ca_extractor = ''heuristic-v1'',
      ca_fingerprint = env_digest env [cl_kind cl, cl_operation cl, cl_destination cl] (env_casefold env content),
      ca_reviewer = None, ca_reason = None, ca_created = now, ca_expires = now + month,
      ca_decided = None, ca_claim_started = None\<rparr>"

text \<open>\<open>uuids\<close> supplies one fresh id per candidate built; an insert that raises ends the scan.\<close>

fun scan_events :: "environment \<Rightarrow> string \<Rightarrow> int \<Rightarrow> (nat \<Rightarrow> string) \<Rightarrow> nat \<Rightarrow> session_event list
    \<Rightarrow> formation_db \<Rightarrow> candidate list outcome_of" where
  "scan_events env session now uuids n [] db = (Inr [], db)"
| "scan_events env session now uuids n (ev # evs) db =
     (let content = strip (ev_content ev) in
      case classify (env_hits env) (env_supersede env) content of
        None \<Rightarrow> scan_events env session now uuids n evs db
      | Some cl \<Rightarrow>
          if content = [] \<or> env_private env content then scan_events env session now uuids n evs db
          else (let c = event_candidate env session now (uuids n) ev content cl;
                    r = add_memory_candidate c db
                in case fst r of
                     Inl e \<Rightarrow> (Inl e, snd r)
                   | Inr created \<Rightarrow>
                       (let rest = scan_events env session now uuids (n + 1) evs (snd r)
                        in (bind_res (fst rest) (\<lambda>cs. Inr (if created then c # cs else cs)), snd rest))))"

definition scan_session_candidates where
  "scan_session_candidates env session now uuids events db = scan_events env session now uuids 0 events db"

definition proposal_candidate ::
  "environment \<Rightarrow> int \<Rightarrow> string \<Rightarrow> string \<Rightarrow> string \<Rightarrow> ustr \<Rightarrow> ustr \<Rightarrow> ustr \<Rightarrow> candidate" where
  "proposal_candidate env now uuid session fingerprint body source ref =
     (let cl = (case classify (env_hits env) (env_supersede env) body of
          Some cl \<Rightarrow> cl
        | None \<Rightarrow> \<lparr>cl_kind = ''proposed'', cl_operation = ''add'', cl_destination = ''memory'', cl_confidence = 1 / 2\<rparr>)
      in \<lparr>ca_id = uuid, ca_session = session, ca_kind = cl_kind cl, ca_operation = cl_operation cl,
          ca_destination = cl_destination cl, ca_content = body,
          ca_evidence = Some (JArr [JObj [(''source'', JStr (env_text env source)), (''source_ref'', JStr (env_text env ref))]]),
          ca_matched = Some (JArr []), ca_confidence = cl_confidence cl, ca_sensitivity = ''normal'',
          ca_diff = [43, 32] @ body, ca_status = Pending, ca_extractor = ''external-proposal-v1'',
          ca_fingerprint = fingerprint, ca_reviewer = None, ca_reason = None, ca_created = now,
          ca_expires = now + month, ca_decided = None, ca_claim_started = None\<rparr>)"

definition create_session :: "string \<Rightarrow> formation_db \<Rightarrow> formation_db" where
  "create_session sid db =
     (if sid \<in> set (fd_sessions db) then db else db\<lparr>fd_sessions := fd_sessions db @ [sid]\<rparr>)"

definition external_session :: "environment \<Rightarrow> ustr \<Rightarrow> string \<Rightarrow> string" where
  "external_session env source fingerprint = ''external:'' @ env_text env source @ '':'' @ take 24 fingerprint"

definition proposal_fingerprint :: "environment \<Rightarrow> ustr \<Rightarrow> ustr \<Rightarrow> string" where
  "proposal_fingerprint env source key = env_digest env [''external'', env_text env source] key"

definition propose_memory_candidate ::
  "environment \<Rightarrow> ustr \<Rightarrow> ustr \<Rightarrow> ustr \<Rightarrow> ustr \<Rightarrow> int \<Rightarrow> string \<Rightarrow> formation_db
    \<Rightarrow> (candidate \<times> bool) outcome_of" where
  "propose_memory_candidate env content source source_ref key now uuid db =
     (let body = strip content; ref = strip source_ref in
      if body = [] then (Inl ValueFail, db)
      else if length body > 2000 then (Inl ValueFail, db)
      else if length source > 128 \<or> length source_ref > 512 \<or> length key > 256 then (Inl ValueFail, db)
      else if strip source = [] \<or> strip key = [] then (Inl ValueFail, db)
      else if env_private env body \<or> (ref \<noteq> [] \<and> env_private env ref) then (Inl ValueFail, db)
      else
        let fp = proposal_fingerprint env (strip source) (strip key);
            session = external_session env (strip source) fp;
            c = proposal_candidate env now uuid session fp body (strip source) ref;
            r = add_memory_candidate c (create_session session db)
        in case fst r of
             Inl e \<Rightarrow> (Inl e, snd r)
           | Inr True \<Rightarrow> (Inr (c, False), snd r)
           | Inr False \<Rightarrow>
               (let g = get_memory_candidate_by_fingerprint session fp now (snd r) in
                (case fst g of
                   Inl e \<Rightarrow> Inl e
                 | Inr None \<Rightarrow> Inl RuntimeFail
                 | Inr (Some old) \<Rightarrow>
                     if ca_content old \<noteq> body then Inl ValueFail else Inr (old, True), snd g)))"

section \<open>Neighbour evidence\<close>

definition NEIGHBOUR_EXCERPT_CHARS :: nat where "NEIGHBOUR_EXCERPT_CHARS = 300"

text \<open>\<open>text.split()\<close>: the maximal runs of characters that are not whitespace.\<close>

fun words_of :: "ustr \<Rightarrow> ustr \<Rightarrow> ustr list" where
  "words_of acc [] = (if acc = [] then [] else [acc])"
| "words_of acc (c # s) =
     (if is_space c then (if acc = [] then [] else [acc]) @ words_of [] s else words_of (acc @ [c]) s)"

definition excerpt :: "ustr \<Rightarrow> ustr" where
  "excerpt text =
     (let flat = join_with [32] (words_of [] text)
      in if length flat \<le> NEIGHBOUR_EXCERPT_CHARS then flat
         else take NEIGHBOUR_EXCERPT_CHARS flat @ [46, 46, 46])"

definition currently_valid :: "chunk \<Rightarrow> int \<Rightarrow> bool" where
  "currently_valid c as_of \<longleftrightarrow>
     (case md_valid_from_unix (ch_metadata c) of None \<Rightarrow> True | Some lo \<Rightarrow> lo \<le> as_of) \<and>
     (case md_valid_to_unix (ch_metadata c) of None \<Rightarrow> True | Some hi \<Rightarrow> as_of \<le> hi)"

definition DENSE_SCORE_THRESHOLD :: real where "DENSE_SCORE_THRESHOLD = 75 / 100"
definition CONFLICT_OVERLAP_MAX :: real where "CONFLICT_OVERLAP_MAX = 3 / 10"
definition RESTATEMENT_OVERLAP_MIN :: real where "RESTATEMENT_OVERLAP_MIN = 6 / 10"

datatype label = RestatementCandidate | PotentialConflict | Related

definition jaccard_tokens :: "(ustr \<Rightarrow> ustr) \<Rightarrow> ustr \<Rightarrow> ustr \<Rightarrow> real" where
  "jaccard_tokens lower a b =
     (let ta = set (words_of [] (lower a)); tb = set (words_of [] (lower b))
      in if ta = {} \<or> tb = {} then 0 else real (card (ta \<inter> tb)) / real (card (ta \<union> tb)))"

definition label_of :: "real \<Rightarrow> real \<Rightarrow> label" where
  "label_of dense_score overlap =
     (if overlap \<ge> RESTATEMENT_OVERLAP_MIN then RestatementCandidate
      else if dense_score \<ge> DENSE_SCORE_THRESHOLD \<and> overlap < CONFLICT_OVERLAP_MAX then PotentialConflict
      else Related)"

record neighbour =
  nb_chunk :: chunk
  nb_dense_score :: real
  nb_text_overlap :: real
  nb_label :: label

datatype lookup_error = DimensionMismatch | LookupFailed

definition neighbour_of :: "(ustr \<Rightarrow> ustr) \<Rightarrow> ustr \<Rightarrow> search_result \<Rightarrow> neighbour" where
  "neighbour_of lower content r =
     (let overlap = jaccard_tokens lower content (ch_content (sr_chunk r))
      in \<lparr>nb_chunk = sr_chunk r, nb_dense_score = sr_score r, nb_text_overlap = overlap,
          nb_label = label_of (sr_score r) overlap\<rparr>)"

text \<open>\<open>dense content k\<close>: embedding \<open>content\<close> as a document and the store's dense search.\<close>

definition find_neighbours ::
  "(ustr \<Rightarrow> ustr) \<Rightarrow> (ustr \<Rightarrow> nat \<Rightarrow> (lookup_error, search_result list) result) \<Rightarrow> ustr \<Rightarrow> nat
    \<Rightarrow> (lookup_error, neighbour list) result" where
  "find_neighbours lower dense content top_k =
     bind_res (dense content top_k) (\<lambda>results.
       Inr (take top_k (sort_desc nb_dense_score (map (neighbour_of lower content) results))))"

record conflict =
  cf_existing :: chunk
  cf_similarity :: real
  cf_text_overlap :: real
  cf_score :: real

definition detect_conflicts ::
  "(ustr \<Rightarrow> ustr) \<Rightarrow> (ustr \<Rightarrow> nat \<Rightarrow> (lookup_error, search_result list) result) \<Rightarrow> ustr \<Rightarrow> real \<Rightarrow> nat
    \<Rightarrow> conflict list" where
  "detect_conflicts lower dense content threshold max_candidates =
     (case find_neighbours lower dense content 10 of
        Inl _ \<Rightarrow> []
      | Inr ns \<Rightarrow> take max_candidates (sort_desc cf_score
          (map (\<lambda>n. \<lparr>cf_existing = nb_chunk n, cf_similarity = nb_dense_score n,
              cf_text_overlap = nb_text_overlap n, cf_score = nb_dense_score n - nb_text_overlap n\<rparr>)
            (filter (\<lambda>n. nb_dense_score n \<ge> threshold \<and> nb_text_overlap n < CONFLICT_OVERLAP_MAX) ns))))"

datatype evidence_status = Available | DenseDisabled | DenseNotIndexed | DimensionMismatched | Unavailable

record evidence_row =
  er_chunk_id :: string
  er_excerpt :: ustr
  er_dense_score :: real
  er_text_overlap :: real
  er_label :: label
  er_currently_valid :: bool

record envelope =
  ep_status :: evidence_status
  ep_coverage :: "(nat \<times> nat) option"
  ep_neighbours :: "evidence_row list"
  ep_summary :: "label \<Rightarrow> nat"

definition add_evidence :: "(real \<Rightarrow> real) \<Rightarrow> int \<Rightarrow> envelope \<Rightarrow> neighbour \<Rightarrow> envelope" where
  "add_evidence round4 as_of ep n = ep\<lparr>ep_neighbours := ep_neighbours ep @
       [\<lparr>er_chunk_id = ch_id (nb_chunk n), er_excerpt = excerpt (ch_content (nb_chunk n)),
         er_dense_score = round4 (nb_dense_score n), er_text_overlap = round4 (nb_text_overlap n),
         er_label = nb_label n, er_currently_valid = currently_valid (nb_chunk n) as_of\<rparr>],
     ep_summary := (ep_summary ep)(nb_label n := ep_summary ep (nb_label n) + 1)\<rparr>"

text \<open>
  \<open>coverage\<close> is what the probe of the scope answered, \<open>(total, with_dense)\<close>, or \<open>None\<close> when
  the store has none or the probe failed.
\<close>

definition candidate_neighbour_evidence ::
  "(ustr \<Rightarrow> ustr) \<Rightarrow> (real \<Rightarrow> real) \<Rightarrow> (ustr \<Rightarrow> nat \<Rightarrow> (lookup_error, search_result list) result)
    \<Rightarrow> bool \<Rightarrow> (nat \<times> nat) option \<Rightarrow> nat \<Rightarrow> int \<Rightarrow> ustr \<Rightarrow> envelope" where
  "candidate_neighbour_evidence lower round4 dense dense_enabled coverage top_k as_of content =
     (let empty = \<lparr>ep_status = Available, ep_coverage = None, ep_neighbours = [], ep_summary = (\<lambda>_. 0)\<rparr> in
      if \<not> dense_enabled then empty\<lparr>ep_status := DenseDisabled\<rparr>
      else let env = empty\<lparr>ep_coverage := coverage\<rparr> in
        if (case coverage of Some (all_chunks, with_dense) \<Rightarrow> all_chunks > 0 \<and> with_dense = 0 | None \<Rightarrow> False)
        then env\<lparr>ep_status := DenseNotIndexed\<rparr>
        else case find_neighbours lower dense content top_k of
          Inl DimensionMismatch \<Rightarrow> env\<lparr>ep_status := DimensionMismatched\<rparr>
        | Inl LookupFailed \<Rightarrow> env\<lparr>ep_status := Unavailable\<rparr>
        | Inr ns \<Rightarrow> foldl (add_evidence round4 as_of) env ns)"

section \<open>Proposals are idempotent\<close>

lemma find_expired:
  assumes "\<And>c. P (c\<lparr>ca_status := Expired\<rparr>) = P c"
  shows "\<exists>g. (\<forall>c. g c = c \<or> g c = c\<lparr>ca_status := Expired\<rparr>) \<and>
    find P (fd_candidates (expire_where Q now db)) = map_option g (find P (fd_candidates db)) \<and>
    map ca_id (fd_candidates (expire_where Q now db)) = map ca_id (fd_candidates db)"
proof -
  let ?g = "\<lambda>c. if Q c \<and> ca_status c = Pending \<and> ca_expires c \<le> now then c\<lparr>ca_status := Expired\<rparr> else c"
  have "find P (map ?g cs) = map_option ?g (find P cs)" for cs
    by (induction cs) (auto simp: assms)
  moreover have "map ca_id (map ?g cs) = map ca_id cs" for cs by (induction cs) auto
  ultimately show ?thesis by (intro exI[of _ ?g]) (simp add: expire_where_def)
qed

definition keyed :: "string \<Rightarrow> string \<Rightarrow> candidate \<Rightarrow> bool" where
  "keyed session fp c \<longleftrightarrow> ca_session c = session \<and> ca_fingerprint c = fp"

lemma get_by_fingerprint_keyed:
  "get_memory_candidate_by_fingerprint session fp now db =
     (fetch_one (keyed session fp) (expire_where (keyed session fp) now db),
      expire_where (keyed session fp) now db)"
  by (simp add: get_memory_candidate_by_fingerprint_def keyed_def[abs_def] Let_def)

text \<open>The row a key has been used for, and a second use of the key.\<close>

definition used_for :: "string \<Rightarrow> string \<Rightarrow> candidate \<Rightarrow> formation_db \<Rightarrow> bool" where
  "used_for session fp old db \<longleftrightarrow> session \<in> set (fd_sessions db) \<and>
     find (keyed session fp) (fd_candidates db) = Some old \<and> candidate_row old = Inr old"

definition valid_proposal :: "environment \<Rightarrow> ustr \<Rightarrow> ustr \<Rightarrow> ustr \<Rightarrow> ustr \<Rightarrow> bool" where
  "valid_proposal env content source source_ref key \<longleftrightarrow> strip content \<noteq> [] \<and> length (strip content) \<le> 2000 \<and>
     length source \<le> 128 \<and> length source_ref \<le> 512 \<and> length key \<le> 256 \<and> strip source \<noteq> [] \<and> strip key \<noteq> [] \<and>
     \<not> env_private env (strip content) \<and> (strip source_ref = [] \<or> \<not> env_private env (strip source_ref))"

lemma propose_valid:
  assumes "fst (propose_memory_candidate env content source source_ref key now uuid db) = Inr r"
  shows "valid_proposal env content source source_ref key"
  using assms by (auto simp: propose_memory_candidate_def valid_proposal_def Let_def split: if_splits)

lemma candidate_row_expired: "candidate_row c = Inr c \<Longrightarrow>
    candidate_row (c\<lparr>ca_status := Expired\<rparr>) = Inr (c\<lparr>ca_status := Expired\<rparr>)"
  by (auto simp: candidate_row_def split: option.splits json.splits)

lemma candidate_row_same: "candidate_row c = Inr d \<Longrightarrow> d = c"
  by (auto simp: candidate_row_def split: option.splits json.splits)

lemma propose_again:
  assumes v: "valid_proposal env content source source_ref key"
    and "fp = proposal_fingerprint env (strip source) (strip key)" "session = external_session env (strip source) fp"
    and used: "used_for session fp old db"
  shows "let r = propose_memory_candidate env content source source_ref key now uuid db in
    map ca_id (fd_candidates (snd r)) = map ca_id (fd_candidates db) \<and>
    (if ca_content old = strip content
     then \<exists>c. fst r = Inr (c, True) \<and> ca_id c = ca_id old \<and> ca_content c = ca_content old
     else fst r = Inl ValueFail)"
proof -
  let ?c = "proposal_candidate env now uuid session fp (strip content) (strip source) (strip source_ref)"
  obtain g where g: "\<forall>c. g c = c \<or> g c = c\<lparr>ca_status := Expired\<rparr>"
    "find (keyed session fp) (fd_candidates (expire_where (keyed session fp) now db)) = Some (g old)"
    "map ca_id (fd_candidates (expire_where (keyed session fp) now db)) = map ca_id (fd_candidates db)"
    using find_expired[of "keyed session fp" "keyed session fp" now db] used
    by (auto simp: used_for_def keyed_def)
  have "old \<in> set (fd_candidates db)" "keyed session fp old"
    using used by (auto simp: used_for_def find_Some_iff)
  moreover have "ca_session ?c = session" "ca_fingerprint ?c = fp"
    by (simp_all add: proposal_candidate_def Let_def)
  ultimately have "list_ex (\<lambda>d. ca_id d = ca_id ?c \<or> (ca_session d = ca_session ?c \<and> ca_fingerprint d = ca_fingerprint ?c)) (fd_candidates db)"
    by (auto simp: list_ex_iff keyed_def)
  then have add: "add_memory_candidate ?c db = (Inr False, db)"
    by (simp add: add_memory_candidate_def)
  have row: "candidate_row (g old) = Inr (g old)" "ca_id (g old) = ca_id old" "ca_content (g old) = ca_content old"
    using g(1)[rule_format, of old] used candidate_row_expired by (auto simp: used_for_def)
  have cs: "create_session session db = db" using used by (simp add: create_session_def used_for_def)
  have "propose_memory_candidate env content source source_ref key now uuid db =
      (if ca_content old \<noteq> strip content then Inl ValueFail else Inr (g old, True),
       expire_where (keyed session fp) now db)"
    using v add cs g(2) row
    by (auto simp: propose_memory_candidate_def valid_proposal_def Let_def get_by_fingerprint_keyed fetch_one_def
        assms(2,3)[symmetric])
  then show ?thesis using g(3) row by (simp add: Let_def)
qed

lemma propose_first:
  assumes r: "propose_memory_candidate env content source source_ref key now uuid db = (Inr (c, replay), db1)"
    and "fp = proposal_fingerprint env (strip source) (strip key)" "session = external_session env (strip source) fp"
  shows "used_for session fp c db1 \<and> ca_content c = strip content"
proof -
  let ?c = "proposal_candidate env now uuid session fp (strip content) (strip source) (strip source_ref)"
  let ?db = "create_session session db"
  let ?a = "add_memory_candidate ?c ?db"
  have v: "valid_proposal env content source source_ref key" using propose_valid r by (metis fst_conv)
  have eq: "propose_memory_candidate env content source source_ref key now uuid db =
     (case fst ?a of Inl e \<Rightarrow> (Inl e, snd ?a) | Inr True \<Rightarrow> (Inr (?c, False), snd ?a)
      | Inr False \<Rightarrow>
         (let g = get_memory_candidate_by_fingerprint session fp now (snd ?a) in
          (case fst g of Inl e \<Rightarrow> Inl e | Inr None \<Rightarrow> Inl RuntimeFail
           | Inr (Some old) \<Rightarrow> if ca_content old \<noteq> strip content then Inl ValueFail else Inr (old, True), snd g)))"
    using v unfolding assms(2,3) by (auto simp: propose_memory_candidate_def valid_proposal_def Let_def split: sum.split bool.split)
  have sess: "session \<in> set (fd_sessions ?db)" by (simp add: create_session_def)
  have c: "ca_content ?c = strip content" "keyed session fp ?c" "candidate_row ?c = Inr ?c"
    by (simp_all add: proposal_candidate_def Let_def keyed_def candidate_row_def)
  show ?thesis
  proof (cases "fst ?a = Inr True")
    case True
    then have cc: "c = ?c" "db1 = snd ?a" using r eq by auto
    have "snd ?a = ?db\<lparr>fd_candidates := fd_candidates ?db @ [?c]\<rparr>"
      and none: "find (keyed session fp) (fd_candidates ?db) = None"
      using True c(2)
      by (auto simp: add_memory_candidate_def find_None_iff list_ex_iff keyed_def proposal_candidate_def Let_def
          split: if_splits)
    moreover have "find (keyed session fp) (xs @ [?c]) = Some ?c" if "find (keyed session fp) xs = None" for xs
      using that c(2) by (induction xs) (auto split: if_splits)
    ultimately show ?thesis using cc c sess by (simp add: used_for_def)
  next
    case False
    then have a: "fst ?a = Inr False" using r eq by (auto split: sum.splits bool.splits)
    then have db: "snd ?a = ?db" by (auto simp: add_memory_candidate_def split: if_splits)
    have db1: "db1 = expire_where (keyed session fp) now ?db"
      and f: "fetch_one (keyed session fp) db1 = Inr (Some c)" and content: "ca_content c = strip content"
      using r eq a db
      by (auto simp: Let_def get_by_fingerprint_keyed split: sum.splits option.splits if_splits)
    have "fd_sessions db1 = fd_sessions ?db" by (simp add: db1 expire_where_def)
    moreover have "find (keyed session fp) (fd_candidates db1) = Some c \<and> candidate_row c = Inr c"
      using f candidate_row_same by (fastforce simp: fetch_one_def bind_res_Inr_conv split: option.splits)
    ultimately show ?thesis using content sess by (simp add: used_for_def)
  qed
qed

text \<open>
  An external proposal is queued once per idempotency key: after a proposal has been
  accepted, proposing again under the same source and key, at any later time and with any
  fresh id, adds no row; with the same text it returns the candidate of the first call as a
  replay, with another valid text it is refused.
\<close>

theorem proposal_idempotent:
  assumes "propose_memory_candidate env content source source_ref key now uuid db = (Inr (c, replay), db1)"
    and "valid_proposal env content' source source_ref' key"
  shows "let r = propose_memory_candidate env content' source source_ref' key now' uuid' db1 in
    map ca_id (fd_candidates (snd r)) = map ca_id (fd_candidates db1) \<and>
    (if strip content' = strip content
     then \<exists>c'. fst r = Inr (c', True) \<and> ca_id c' = ca_id c \<and> ca_content c' = ca_content c
     else fst r = Inl ValueFail)"
  using propose_again[OF assms(2) refl refl conjunct1[OF propose_first[OF assms(1) refl refl]], of now' uuid']
    propose_first[OF assms(1) refl refl]
  by (auto simp: Let_def split: if_splits)

definition sample_env :: environment where
  "sample_env = \<lparr>env_hits = (\<lambda>_ _. False), env_supersede = (\<lambda>_. False), env_private = (\<lambda>_. False),
     env_digest = (\<lambda>_ _. ''d''), env_casefold = id, env_text = (\<lambda>_. ''s'')\<rparr>"

theorem proposal_idempotent_witness:
  "\<exists>c db1. propose_memory_candidate sample_env [65] [66] [] [67] 10 ''u1'' (empty_db\<lparr>fd_sessions := []\<rparr>) = (Inr (c, False), db1) \<and>
     (\<exists>c'. fst (propose_memory_candidate sample_env [65] [66] [] [67] 20 ''u2'' db1) = Inr (c', True) \<and> ca_id c' = ca_id c)"
proof -
  let ?r = "propose_memory_candidate sample_env [65] [66] [] [67] 10 ''u1'' (empty_db\<lparr>fd_sessions := []\<rparr>)"
  have "\<exists>c db1. ?r = (Inr (c, False), db1)"
    by (simp add: propose_memory_candidate_def strip_def is_space_def sample_env_def Let_def
        add_memory_candidate_def create_session_def proposal_candidate_def empty_db_def)
  then obtain c db1 where r: "?r = (Inr (c, False), db1)" by blast
  have v: "valid_proposal sample_env [65] [66] [] [67]"
    by (simp add: valid_proposal_def strip_def is_space_def sample_env_def)
  from proposal_idempotent[OF r v, of 20 "''u2''"] r show ?thesis by (auto simp: Let_def)
qed

section \<open>Scanning a session\<close>

lemma add_member: "add_memory_candidate c db = (Inr True, db') \<Longrightarrow> ca_status c = Pending \<Longrightarrow>
    ca_reviewer c = None \<Longrightarrow> ca_reason c = None \<Longrightarrow> ca_decided c = None \<Longrightarrow> ca_claim_started c = None \<Longrightarrow>
    fd_candidates db' = fd_candidates db @ [c]"
  by (auto simp: add_memory_candidate_def split: if_splits)

lemma add_not_true: "fst (add_memory_candidate c db) \<noteq> Inr True \<Longrightarrow> snd (add_memory_candidate c db) = db"
  by (auto simp: add_memory_candidate_def split: if_splits)

definition scanned_from :: "environment \<Rightarrow> string \<Rightarrow> session_event list \<Rightarrow> candidate \<Rightarrow> bool" where
  "scanned_from env session evs c \<longleftrightarrow> ca_session c = session \<and> ca_status c = Pending \<and>
     (\<exists>ev \<in> set evs. ca_content c = take 2000 (strip (ev_content ev)) \<and> strip (ev_content ev) \<noteq> [] \<and>
        \<not> env_private env (strip (ev_content ev)) \<and>
        classify (env_hits env) (env_supersede env) (strip (ev_content ev)) \<noteq> None)"

lemma event_candidate_fields:
  "ca_status (event_candidate env session now u ev content cl) = Pending"
  "ca_reviewer (event_candidate env session now u ev content cl) = None"
  "ca_reason (event_candidate env session now u ev content cl) = None"
  "ca_decided (event_candidate env session now u ev content cl) = None"
  "ca_claim_started (event_candidate env session now u ev content cl) = None"
  "ca_session (event_candidate env session now u ev content cl) = session"
  "ca_content (event_candidate env session now u ev content cl) = take 2000 content"
  by (simp_all add: event_candidate_def)

lemma scan_events_sound:
  "scan_events env session now uuids n evs db = (Inr cs, db') \<Longrightarrow>
     fd_candidates db' = fd_candidates db @ cs \<and> list_all (scanned_from env session evs) cs"
proof (induction env session now uuids n evs db arbitrary: cs rule: scan_events.induct)
  case (2 env session now uuids n ev evs db)
  let ?t = "strip (ev_content ev)"
  have mono: "list_all (scanned_from env session evs) xs \<Longrightarrow> list_all (scanned_from env session (ev # evs)) xs" for xs
    by (auto simp: list_all_iff scanned_from_def)
  show ?case
  proof (cases "classify (env_hits env) (env_supersede env) ?t")
    case None
    with 2 mono show ?thesis by auto
  next
    case (Some cl)
    show ?thesis
    proof (cases "?t = [] \<or> env_private env ?t")
      case True
      with 2 Some mono show ?thesis by auto
    next
      case False
      let ?c = "event_candidate env session now (uuids n) ev ?t cl"
      let ?r = "add_memory_candidate ?c db"
      obtain created where created: "fst ?r = Inr created"
        using 2(4) Some False by (cases "fst ?r") (auto simp: Let_def)
      obtain xs where xs: "scan_events env session now uuids (n + 1) evs (snd ?r) = (Inr xs, db')"
        "cs = (if created then ?c # xs else xs)"
        using 2(4) Some False created
        by (cases "fst (scan_events env session now uuids (n + 1) evs (snd ?r))") (auto simp: Let_def prod_eq_iff)
      then have ih: "fd_candidates db' = fd_candidates (snd ?r) @ xs" "list_all (scanned_from env session evs) xs"
        using 2(3)[OF refl Some False refl refl created] by auto
      have "fd_candidates (snd ?r) = (if created then fd_candidates db @ [?c] else fd_candidates db)"
        using created add_member[of ?c db "snd ?r"] add_not_true[of ?c db]
        by (auto simp: event_candidate_fields prod_eq_iff)
      moreover have "scanned_from env session (ev # evs) ?c"
        using Some False by (simp add: scanned_from_def event_candidate_fields)
      ultimately show ?thesis using ih xs(2) mono by simp
    qed
  qed
qed simp

text \<open>
  Scanning a session only queues: the rows it adds are exactly the candidates it
  reports, in order; each is pending, belongs to the session, quotes at most 2000 characters
  of one of its events, and never of an event the privacy scanner flags.
\<close>

theorem scan_only_queues:
  assumes "scan_session_candidates env session now uuids events db = (Inr cs, db')"
  shows "fd_candidates db' = fd_candidates db @ cs \<and> list_all (scanned_from env session events) cs"
  using scan_events_sound assms by (simp add: scan_session_candidates_def)

definition sample_event :: session_event where
  "sample_event = \<lparr>ev_id = JInt 1, ev_content = [65], ev_chunk_ids = JArr []\<rparr>"

theorem scan_only_queues_witness:
  "\<exists>cs db'. scan_session_candidates (sample_env\<lparr>env_hits := (\<lambda>k _. k = ''fact'')\<rparr>) ''s1'' 5 (\<lambda>_. ''u'')
       [sample_event] empty_db = (Inr cs, db') \<and> length cs = 1 \<and> fd_candidates db' = fd_candidates empty_db @ cs"
proof -
  let ?e = "sample_env\<lparr>env_hits := (\<lambda>k _. k = ''fact'')\<rparr>"
  let ?r = "scan_session_candidates ?e ''s1'' 5 (\<lambda>_. ''u'') [sample_event] empty_db"
  have "\<exists>cs db'. ?r = (Inr cs, db') \<and> length cs = 1"
    by (simp add: scan_session_candidates_def sample_event_def strip_def is_space_def sample_env_def Let_def
        classify_def KIND_PATTERNS_def add_memory_candidate_def event_candidate_def empty_db_def)
  then show ?thesis using scan_only_queues[of ?e "''s1''" 5 "\<lambda>_. ''u''" "[sample_event]" empty_db] by blast
qed

section \<open>Evidence\<close>

definition tally :: "neighbour list \<Rightarrow> label \<Rightarrow> nat" where
  "tally ns l = length (filter (\<lambda>n. nb_label n = l) ns)"

lemma evidence_fold:
  "let ep' = foldl (add_evidence round4 as_of) ep ns in
     ep_status ep' = ep_status ep \<and> ep_coverage ep' = ep_coverage ep \<and>
     map er_label (ep_neighbours ep') = map er_label (ep_neighbours ep) @ map nb_label ns \<and>
     ep_summary ep' = (\<lambda>l. ep_summary ep l + tally ns l)"
proof (induction ns arbitrary: ep)
  case (Cons n ns)
  show ?case
    using Cons.IH[of "add_evidence round4 as_of ep n"]
    by (auto simp: Let_def add_evidence_def tally_def fun_eq_iff)
qed (simp add: tally_def)

lemma filter_labels: "length (filter (\<lambda>r. f r = l) rs) = length (filter (\<lambda>x. x = l) (map f rs))"
  by (simp add: filter_map comp_def)

lemma label_conflict: "label_of d ov = PotentialConflict \<longleftrightarrow> d \<ge> DENSE_SCORE_THRESHOLD \<and> ov < CONFLICT_OVERLAP_MAX"
  by (auto simp: label_of_def CONFLICT_OVERLAP_MAX_def RESTATEMENT_OVERLAP_MIN_def)

lemma neighbour_labels:
  "find_neighbours lower dense content k = Inr ns \<Longrightarrow>
     length ns \<le> k \<and> descending (map nb_dense_score ns) \<and>
     (\<forall>n \<in> set ns. nb_label n = label_of (nb_dense_score n) (nb_text_overlap n))"
proof -
  assume "find_neighbours lower dense content k = Inr ns"
  then obtain rs where ns: "ns = take k (sort_desc nb_dense_score (map (neighbour_of lower content) rs))"
    by (auto simp: find_neighbours_def bind_res_Inr_conv)
  have "descending (map nb_dense_score ns)"
    unfolding ns take_map[symmetric] by (intro sorted_wrt_take descending_sort_desc)
  then show ?thesis unfolding ns by (auto simp: neighbour_of_def Let_def dest!: in_set_takeD)
qed

text \<open>
  Evidence is never passed off as an answer: an envelope is \<open>available\<close> exactly when the
  store can see vectors of the scope and the lookup succeeded; otherwise it lists no
  neighbour and counts none. When it is available it lists at most \<open>top_k\<close> neighbours, and
  its summary counts exactly the labels of the rows it lists.
\<close>

theorem evidence_envelope:
  "let ep = candidate_neighbour_evidence lower round4 dense enabled coverage top_k as_of content in
     (ep_status ep = Available) = (enabled \<and> \<not> (\<exists>t. coverage = Some (t, 0) \<and> t > 0) \<and>
        (\<exists>ns. find_neighbours lower dense content top_k = Inr ns)) \<and>
     length (ep_neighbours ep) \<le> (if ep_status ep = Available then top_k else 0) \<and>
     (\<forall>l. ep_summary ep l = length (filter (\<lambda>r. er_label r = l) (ep_neighbours ep)))"
proof (cases "enabled \<and> \<not> (\<exists>t. coverage = Some (t, 0) \<and> t > 0)")
  case False
  then show ?thesis
    by (auto simp: candidate_neighbour_evidence_def Let_def split: option.split prod.split)
next
  case True
  then have seen: "\<not> (case coverage of Some (t, d) \<Rightarrow> t > 0 \<and> d = 0 | None \<Rightarrow> False)"
    by (auto split: option.splits)
  show ?thesis
  proof (cases "find_neighbours lower dense content top_k")
    case (Inl e)
    with True seen show ?thesis
      by (cases e) (simp_all add: candidate_neighbour_evidence_def Let_def)
  next
    case (Inr ns)
    let ?ep = "\<lparr>ep_status = Available, ep_coverage = coverage, ep_neighbours = [], ep_summary = (\<lambda>_. 0)\<rparr>"
    let ?r = "foldl (add_evidence round4 as_of) ?ep ns"
    have fold: "ep_status ?r = Available" "map er_label (ep_neighbours ?r) = map nb_label ns"
      "ep_summary ?r = tally ns"
      using evidence_fold[of round4 as_of ?ep ns] by (simp_all add: Let_def)
    have "candidate_neighbour_evidence lower round4 dense enabled coverage top_k as_of content = ?r"
      using Inr True seen by (simp add: candidate_neighbour_evidence_def Let_def)
    moreover have "length (ep_neighbours ?r) \<le> top_k"
      using neighbour_labels[OF Inr] fold(2) by (metis length_map)
    moreover have "tally ns l = length (filter (\<lambda>r. er_label r = l) (ep_neighbours ?r))" for l
      using filter_labels[of er_label l "ep_neighbours ?r"] filter_labels[of nb_label l ns]
      unfolding fold(2) tally_def by argo
    ultimately show ?thesis using Inr True fold(1,3) by (auto simp: Let_def)
  qed
qed

text \<open>
  Conflict detection agrees with the labels shown to reviewers: with the default
  threshold and enough room the reported conflicts are, as a multiset, exactly the ten
  nearest neighbours labelled \<open>potential_conflict\<close>, strongest conflict first.
\<close>

theorem conflicts_are_labelled:
  assumes "find_neighbours lower dense content 10 = Inr ns" and "10 \<le> k"
  shows "mset (map cf_existing (detect_conflicts lower dense content DENSE_SCORE_THRESHOLD k))
      = mset (map nb_chunk (filter (\<lambda>n. nb_label n = PotentialConflict) ns)) \<and>
    descending (map cf_score (detect_conflicts lower dense content DENSE_SCORE_THRESHOLD k))"
proof -
  let ?sel = "filter (\<lambda>n. nb_dense_score n \<ge> DENSE_SCORE_THRESHOLD \<and> nb_text_overlap n < CONFLICT_OVERLAP_MAX) ns"
  let ?mk = "\<lambda>n. \<lparr>cf_existing = nb_chunk n, cf_similarity = nb_dense_score n,
              cf_text_overlap = nb_text_overlap n, cf_score = nb_dense_score n - nb_text_overlap n\<rparr>"
  have n: "length ns \<le> 10" "\<forall>n \<in> set ns. nb_label n = label_of (nb_dense_score n) (nb_text_overlap n)"
    using neighbour_labels[OF assms(1)] by auto
  have sel: "filter (\<lambda>n. nb_label n = PotentialConflict) ns = ?sel"
    using n(2) by (intro filter_cong) (auto simp: label_conflict)
  have "length ?sel \<le> k" using n(1) assms(2) by (meson le_trans length_filter_le)
  then have d: "detect_conflicts lower dense content DENSE_SCORE_THRESHOLD k = sort_desc cf_score (map ?mk ?sel)"
    by (simp add: detect_conflicts_def assms(1))
  have "mset (map cf_existing (sort_desc cf_score (map ?mk ?sel))) = image_mset cf_existing (mset (map ?mk ?sel))"
    by (simp only: mset_map mset_sort_desc)
  also have "\<dots> = mset (map nb_chunk ?sel)" by (simp add: image_mset.compositionality comp_def)
  finally show ?thesis unfolding d sel using descending_sort_desc by blast
qed

theorem conflicts_are_labelled_witness:
  "mset (map cf_existing (detect_conflicts id (\<lambda>_ _. Inr []) [65] DENSE_SCORE_THRESHOLD 10)) = {#}"
  using conflicts_are_labelled[of id "\<lambda>_ _. Inr []" "[65]" "[]" 10] by (simp add: find_neighbours_def)

end
