(* ===== verification/Ranking.thy ===== *)
theory Ranking
  imports Models
begin

text \<open>
  Fusing and re-ranking hits: reciprocal rank fusion, the score stages (time decay, access,
  importance and entity boosts) and MMR (\<open>search/fusion.py\<close>, \<open>decay.py\<close>, \<open>access.py\<close>,
  \<open>importance.py\<close>, \<open>entity_boost.py\<close>, \<open>mmr.py\<close>). Scores are reals, without rounding; a
  Python \<open>sort(reverse=True)\<close> and \<open>heapq.nlargest\<close> are the stable descending sort.
\<close>

section \<open>Reciprocal rank fusion\<close>

datatype fusion_error = StrictZip

fun add_ranks :: "real \<Rightarrow> nat \<Rightarrow> nat \<Rightarrow> 'a list \<Rightarrow> ('a, real) odict \<Rightarrow> ('a, real) odict" where
  "add_ranks weight k rank [] scores = scores"
| "add_ranks weight k rank (x # xs) scores =
     add_ranks weight k (rank + 1) xs
       (od_set x ((case map_of scores x of None \<Rightarrow> 0 | Some s \<Rightarrow> s) + weight / real (k + rank)) scores)"

fun accumulate :: "nat \<Rightarrow> ('a list \<times> real) list \<Rightarrow> ('a, real) odict \<Rightarrow> ('a, real) odict" where
  "accumulate k [] scores = scores"
| "accumulate k ((xs, weight) # rest) scores =
     (if weight \<le> 0 then accumulate k rest scores
      else accumulate k rest (add_ranks weight k 1 xs scores))"

definition weighted_rank_scores ::
  "'a list list \<Rightarrow> real list \<Rightarrow> nat \<Rightarrow> (fusion_error, ('a, real) odict) result" where
  "weighted_rank_scores legs weights k =
     (if length legs \<noteq> length weights then Inl StrictZip else Inr (accumulate k (zip legs weights) []))"

text \<open>What the loop over the lists records for each hit.\<close>

record hit_info =
  hi_chunk :: chunk
  hi_count :: nat
  hi_first_list :: nat
  hi_via :: bool

definition add_hit :: "nat \<Rightarrow> (string \<rightharpoonup> hit_info) \<Rightarrow> search_result \<Rightarrow> (string \<rightharpoonup> hit_info)" where
  "add_hit idx m r =
     m(ch_id (sr_chunk r) \<mapsto>
       (case m (ch_id (sr_chunk r)) of
          None \<Rightarrow> \<lparr>hi_chunk = sr_chunk r, hi_count = 1, hi_first_list = idx, hi_via = sr_via_session_summary r\<rparr>
        | Some h \<Rightarrow> h\<lparr>hi_chunk := sr_chunk r, hi_count := hi_count h + 1,
            hi_via := hi_via h \<or> sr_via_session_summary r\<rparr>))"

fun collect_hits :: "nat \<Rightarrow> (search_result list \<times> real) list \<Rightarrow> (string \<rightharpoonup> hit_info) \<Rightarrow> (string \<rightharpoonup> hit_info)" where
  "collect_hits idx [] m = m"
| "collect_hits idx ((rs, weight) # rest) m =
     collect_hits (idx + 1) rest (if weight \<le> 0 then m else foldl (add_hit idx) m rs)"

definition pad_weights :: "nat \<Rightarrow> real list option \<Rightarrow> real list" where
  "pad_weights n weights =
     (case weights of
        None \<Rightarrow> replicate n 1
      | Some ws \<Rightarrow> if length ws < n then ws @ replicate (n - length ws) 1 else ws)"

text \<open>\<open>leg i\<close> is the text of the default label \<open>f"leg{i}"\<close>.\<close>

definition pad_labels :: "(nat \<Rightarrow> string) \<Rightarrow> nat \<Rightarrow> string list option \<Rightarrow> string list" where
  "pad_labels leg n labels =
     (let ls = (case labels of None \<Rightarrow> [''bm25'', ''dense''] | Some ls \<Rightarrow> ls)
      in if length ls < n then ls @ map leg [length ls..<n] else ls)"

definition source_label :: "string list \<Rightarrow> (string \<rightharpoonup> hit_info) \<Rightarrow> string \<Rightarrow> string" where
  "source_label labels m cid =
     (case m cid of
        None \<Rightarrow> ''fused''
      | Some h \<Rightarrow> if hi_count h \<ge> 2 then ''fused'' else labels ! hi_first_list h)"

definition fused_result :: "string list \<Rightarrow> (string \<rightharpoonup> hit_info) \<Rightarrow> nat \<Rightarrow> string \<times> real \<Rightarrow> search_result" where
  "fused_result labels m i item =
     \<lparr>sr_chunk = hi_chunk (the (m (fst item))), sr_score = snd item, sr_rank = i + 1,
      sr_source = source_label labels m (fst item), sr_context = None,
      sr_via_session_summary = (case m (fst item) of None \<Rightarrow> False | Some h \<Rightarrow> hi_via h)\<rparr>"

definition number_with :: "(nat \<Rightarrow> 'a \<Rightarrow> 'b) \<Rightarrow> 'a list \<Rightarrow> 'b list" where
  "number_with f xs = map (\<lambda>(i, x). f i x) (enumerate 0 xs)"

definition reciprocal_rank_fusion ::
  "(nat \<Rightarrow> string) \<Rightarrow> search_result list list \<Rightarrow> nat \<Rightarrow> nat \<Rightarrow> real list option \<Rightarrow> string list option
    \<Rightarrow> (fusion_error, search_result list) result" where
  "reciprocal_rank_fusion leg legs k top_k weights labels =
     (let n = length legs; ws = pad_weights n weights; ls = pad_labels leg n labels in
      bind_res (weighted_rank_scores (map (map (\<lambda>r. ch_id (sr_chunk r))) legs) (take n ws) k) (\<lambda>scores.
        let m = collect_hits 0 (zip legs ws) Map.empty;
            top = take top_k (sort_desc snd scores)
        in Inr (number_with (fused_result ls m) top)))"

section \<open>Score stages\<close>

definition boosted_score :: "real \<Rightarrow> real \<Rightarrow> real" where
  "boosted_score score factor =
     (if score < 0 then (if factor \<noteq> 0 then score / factor else score) else score * factor)"

definition access_boost :: "int \<Rightarrow> real \<Rightarrow> real" where
  "access_boost n max_boost =
     (if n \<le> 0 then 1 else 1 + (max_boost - 1) * ln (1 + of_int n) / ln (1 + 100))"

definition entity_boost_factor :: "nat \<Rightarrow> int \<Rightarrow> real \<Rightarrow> real" where
  "entity_boost_factor matched total_entities max_boost =
     (if total_entities \<le> 0 \<or> matched \<le> 0 then 1
      else 1 + (max_boost - 1) * (of_int (min (int matched) total_entities) / of_int total_entities))"

definition compute_importance :: "int \<Rightarrow> int \<Rightarrow> int \<Rightarrow> real \<Rightarrow> real list \<Rightarrow> real" where
  "compute_importance access_count tag_count relation_count age_days weights =
     (let ws = (if length weights \<ge> 4 then take 4 weights else [3/10, 2/10, 3/10, 2/10]);
          access_score = ln (1 + of_int access_count) / ln (1 + 100);
          tag_score = min (of_int tag_count / 5) 1;
          relation_score = ln (1 + of_int relation_count) / ln (1 + 20);
          recency_score = exp (- (1/100) * max age_days 0);
          raw = ws ! 0 * access_score + ws ! 1 * tag_score + ws ! 2 * relation_score + ws ! 3 * recency_score
      in min (max raw 0) 1)"

definition decay_factor :: "real \<Rightarrow> real \<Rightarrow> real" where
  "decay_factor age_days half_life_days =
     (if age_days \<le> 0 then 1 else if half_life_days \<le> 0 then 1
      else exp (- ln 2 * age_days / half_life_days))"

definition rescored :: "(search_result \<Rightarrow> real) \<Rightarrow> search_result \<Rightarrow> search_result" where
  "rescored f r = \<lparr>sr_chunk = sr_chunk r, sr_score = f r, sr_rank = sr_rank r, sr_source = sr_source r,
     sr_context = None, sr_via_session_summary = False\<rparr>"

definition reranked :: "nat \<Rightarrow> search_result \<Rightarrow> search_result" where
  "reranked i r = \<lparr>sr_chunk = sr_chunk r, sr_score = sr_score r, sr_rank = i + 1, sr_source = sr_source r,
     sr_context = None, sr_via_session_summary = False\<rparr>"

definition access_score_of :: "(string \<rightharpoonup> int) \<Rightarrow> real \<Rightarrow> search_result \<Rightarrow> real" where
  "access_score_of counts max_boost r =
     boosted_score (sr_score r) (access_boost (case counts (ch_id (sr_chunk r)) of None \<Rightarrow> 0 | Some n \<Rightarrow> n) max_boost)"

definition apply_access_boost :: "(string \<rightharpoonup> int) \<Rightarrow> real \<Rightarrow> search_result list \<Rightarrow> search_result list" where
  "apply_access_boost counts max_boost results =
     number_with reranked (sort_desc sr_score (map (rescored (access_score_of counts max_boost)) results))"

definition entity_score_of :: "(string \<rightharpoonup> (string \<times> string) set) \<Rightarrow> int \<Rightarrow> real \<Rightarrow> search_result \<Rightarrow> real" where
  "entity_score_of matches n max_boost r =
     boosted_score (sr_score r)
       (entity_boost_factor (case matches (ch_id (sr_chunk r)) of None \<Rightarrow> 0 | Some s \<Rightarrow> card s) n max_boost)"

definition apply_entity_boost ::
  "(string \<rightharpoonup> (string \<times> string) set) \<Rightarrow> int \<Rightarrow> real \<Rightarrow> search_result list \<Rightarrow> search_result list" where
  "apply_entity_boost matches n max_boost results =
     (if results = [] \<or> n \<le> 0 then results
      else number_with reranked (sort_desc sr_score (map (rescored (entity_score_of matches n max_boost)) results)))"

definition importance_score_of :: "(string \<rightharpoonup> real) \<Rightarrow> real \<Rightarrow> search_result \<Rightarrow> real" where
  "importance_score_of scores max_boost r =
     boosted_score (sr_score r)
       (1 + (max_boost - 1) * (case scores (ch_id (sr_chunk r)) of None \<Rightarrow> 0 | Some s \<Rightarrow> s))"

definition apply_importance_boost :: "(string \<rightharpoonup> real) \<Rightarrow> real \<Rightarrow> search_result list \<Rightarrow> search_result list" where
  "apply_importance_boost scores max_boost results =
     (if results = [] then results
      else number_with reranked (sort_desc sr_score (map (rescored (importance_score_of scores max_boost)) results)))"

definition decayed_score :: "real \<Rightarrow> int \<Rightarrow> search_result \<Rightarrow> real" where
  "decayed_score half_life now r =
     sr_score r * decay_factor (max 0 (of_int (now - ch_updated_at (sr_chunk r)) / 86400)) half_life"

definition apply_score_decay :: "real \<Rightarrow> int \<Rightarrow> search_result list \<Rightarrow> search_result list" where
  "apply_score_decay half_life now results =
     (if results = [] \<or> half_life \<le> 0 then results
      else number_with reranked (sort_desc sr_score (map (rescored (decayed_score half_life now)) results)))"

record expire_stats =
  es_total :: nat
  es_expired :: nat
  es_deleted :: nat

text \<open>
  \<open>selected\<close> holds the chunks of every selected source, in the order of the sorted sources;
  \<open>delete_chunks\<close> is the storage's own deletion count.
\<close>

definition expire_chunks :: "(string list \<Rightarrow> nat) \<Rightarrow> chunk list list \<Rightarrow> real \<Rightarrow> bool \<Rightarrow> int \<Rightarrow> expire_stats" where
  "expire_chunks delete_chunks selected max_age_days dry_run now =
     (let chunks = concat (map (take 10000) selected);
          to_delete = map ch_id (filter (\<lambda>c. of_int (now - ch_updated_at c) \<ge> max_age_days * 86400) chunks)
      in \<lparr>es_total = length chunks, es_expired = length to_delete,
          es_deleted = (if \<not> dry_run \<and> to_delete \<noteq> [] then delete_chunks to_delete else 0)\<rparr>)"

section \<open>Maximal marginal relevance\<close>

definition dot_product :: "real list \<Rightarrow> real list \<Rightarrow> real" where
  "dot_product a b = sum_list (map (\<lambda>(x, y). x * y) (zip a b))"

definition cosine_similarity :: "real list \<Rightarrow> real list \<Rightarrow> real" where
  "cosine_similarity a b =
     (if length a \<noteq> length b \<or> a = [] then 0
      else let norm_a = sqrt (dot_product a a); norm_b = sqrt (dot_product b b)
        in if norm_a < 1 / 10 ^ 10 \<or> norm_b < 1 / 10 ^ 10 then 0
           else dot_product a b / (norm_a * norm_b))"

text \<open>The cache as an association list, later assignments in front.\<close>

fun sim_cache :: "(string \<Rightarrow> real list) \<Rightarrow> string list \<Rightarrow> ((string \<times> string) \<times> real) list" where
  "sim_cache embs [] = []"
| "sim_cache embs (a # rest) =
     sim_cache embs rest @ concat (rev (map (\<lambda>b.
       let s = (if embs a \<noteq> [] \<and> embs b \<noteq> [] then cosine_similarity (embs a) (embs b) else 0)
       in [((b, a), s), ((a, b), s)]) rest))"

definition lookup_sim :: "((string \<times> string) \<times> real) list \<Rightarrow> string \<Rightarrow> string \<Rightarrow> real" where
  "lookup_sim cache a b = (case map_of cache (a, b) of None \<Rightarrow> 0 | Some s \<Rightarrow> s)"

definition mmr_score ::
  "((string \<times> string) \<times> real) list \<Rightarrow> real \<Rightarrow> real \<Rightarrow> search_result list \<Rightarrow> search_result \<Rightarrow> real" where
  "mmr_score cache lam max_score selected r =
     lam * (sr_score r / max_score)
     - (1 - lam) * (case map (\<lambda>s. lookup_sim cache (ch_id (sr_chunk r)) (ch_id (sr_chunk s))) selected of
                      [] \<Rightarrow> 0 | x # xs \<Rightarrow> fold max xs x)"

text \<open>The index of the first maximal score: \<open>>\<close> against a running best.\<close>

fun best_index :: "(search_result \<Rightarrow> real) \<Rightarrow> nat \<Rightarrow> search_result list \<Rightarrow> real option \<Rightarrow> nat \<Rightarrow> nat" where
  "best_index f i [] best best_idx = best_idx"
| "best_index f i (r # rs) best best_idx =
     (if (case best of None \<Rightarrow> True | Some b \<Rightarrow> f r > b) then best_index f (i + 1) rs (Some (f r)) i
      else best_index f (i + 1) rs best best_idx)"

definition remove_nth :: "nat \<Rightarrow> 'a list \<Rightarrow> 'a list" where
  "remove_nth i xs = take i xs @ drop (Suc i) xs"

function mmr_loop :: "(search_result list \<Rightarrow> search_result \<Rightarrow> real) \<Rightarrow> int \<Rightarrow> search_result list
    \<Rightarrow> search_result list \<Rightarrow> search_result list" where
  "mmr_loop score top_k selected remaining =
     (if remaining \<noteq> [] \<and> int (length selected) < top_k
      then let i = best_index (score selected) 0 remaining None 0
           in mmr_loop score top_k (selected @ [remaining ! i]) (remove_nth i remaining)
      else selected)"
  by pat_completeness auto

definition mmr_result :: "nat \<Rightarrow> search_result \<Rightarrow> search_result" where
  "mmr_result i r = \<lparr>sr_chunk = sr_chunk r, sr_score = sr_score r, sr_rank = i + 1, sr_source = ''mmr'',
     sr_context = None, sr_via_session_summary = False\<rparr>"

definition max_score_of :: "search_result list \<Rightarrow> real" where
  "max_score_of results =
     (case map sr_score results of [] \<Rightarrow> 1
      | x # xs \<Rightarrow> (let m = fold max xs x in if m < 1 / 10 ^ 10 then 1 else m))"

lemma best_index_range:
  "best_index f i rs best b = b \<or> (i \<le> best_index f i rs best b \<and> best_index f i rs best b < i + length rs)"
proof (induction f i rs best b rule: best_index.induct)
  case (2 f i r rs best b)
  then show ?case by (auto split: option.splits)
qed simp

lemma best_index_less: "rs \<noteq> [] \<Longrightarrow> best_index f 0 rs None 0 < length rs"
  using best_index_range[of f 0 rs None 0] by (cases rs) auto

termination mmr_loop
  by (relation "measure (\<lambda>(score, top_k, selected, remaining). length remaining)")
    (use best_index_less in \<open>auto simp: remove_nth_def Let_def min_def dest!: leD\<close>)

declare mmr_loop.simps [simp del]

definition apply_mmr ::
  "(string \<rightharpoonup> real list) \<Rightarrow> real \<Rightarrow> int option \<Rightarrow> search_result list \<Rightarrow> search_result list" where
  "apply_mmr embeddings lam top_k results =
     (let k = (case top_k of None \<Rightarrow> int (length results) | Some k \<Rightarrow> k) in
      if length results \<le> 1 then number_with mmr_result results
      else let cache = sim_cache (\<lambda>i. case embeddings i of None \<Rightarrow> [] | Some e \<Rightarrow> e)
                 (map (\<lambda>r. ch_id (sr_chunk r)) results)
        in number_with mmr_result
             (mmr_loop (mmr_score cache lam (max_score_of results)) k [hd results] (tl results)))"

section \<open>The score stages share one contract\<close>

lemma number_with_simps [simp]:
  "length (number_with f xs) = length xs"
  "i < length xs \<Longrightarrow> number_with f xs ! i = f i (xs ! i)"
  by (simp_all add: number_with_def nth_enumerate_eq)

lemma set_number: "r \<in> set (number_with f xs) \<Longrightarrow> \<exists>i x. x \<in> set xs \<and> r = f i x"
  by (fastforce simp: in_set_conv_nth)

lemma map_number: "(\<And>i x. g (f i x) = h x) \<Longrightarrow> map g (number_with f xs) = map h xs"
  by (rule nth_equalityI) simp_all

lemma number_ranks: "(\<And>i x. sr_rank (f i x) = i + 1) \<Longrightarrow> map sr_rank (number_with f xs) = [1..<length xs + 1]"
  by (rule nth_equalityI) (simp_all add: nth_upt del: upt_Suc)

text \<open>
  A stage either leaves the results alone or gives every hit a new score, sorts by it and
  renumbers.
\<close>

locale score_stage =
  fixes stage :: "search_result list \<Rightarrow> search_result list"
    and new_score :: "search_result \<Rightarrow> real"
    and active :: "search_result list \<Rightarrow> bool"
  assumes idle: "\<not> active rs \<Longrightarrow> stage rs = rs"
    and runs: "active rs \<Longrightarrow> stage rs = number_with reranked (sort_desc sr_score (map (rescored new_score) rs))"
begin

lemma keeps_chunks: "mset (map sr_chunk (stage rs)) = mset (map sr_chunk rs)"
proof (cases "active rs")
  case True
  have "map sr_chunk (stage rs) = map sr_chunk (sort_desc sr_score (map (rescored new_score) rs))"
    unfolding runs[OF True] by (rule map_number) (simp add: reranked_def)
  then have "mset (map sr_chunk (stage rs)) = image_mset sr_chunk (mset (map (rescored new_score) rs))"
    by (simp only: mset_map mset_sort_desc)
  also have "\<dots> = mset (map sr_chunk rs)"
    by (simp add: image_mset.compositionality comp_def rescored_def)
  finally show ?thesis .
qed (simp add: idle)

lemma sorts: "active rs \<Longrightarrow> descending (map sr_score (stage rs))"
proof -
  assume a: "active rs"
  have "map sr_score (stage rs) = map sr_score (sort_desc sr_score (map (rescored new_score) rs))"
    unfolding runs[OF a] by (rule map_number) (simp add: reranked_def)
  then show ?thesis using descending_sort_desc by metis
qed

lemma ranks: "active rs \<Longrightarrow> map sr_rank (stage rs) = [1..<length rs + 1]"
  unfolding runs by (subst number_ranks) (simp_all add: reranked_def)

lemma new_scores: "active rs \<Longrightarrow> mset (map (\<lambda>r. (sr_chunk r, sr_score r)) (stage rs))
    = mset (map (\<lambda>r. (sr_chunk r, new_score r)) rs)"
proof -
  assume a: "active rs"
  have "map (\<lambda>r. (sr_chunk r, sr_score r)) (stage rs)
      = map (\<lambda>r. (sr_chunk r, sr_score r)) (sort_desc sr_score (map (rescored new_score) rs))"
    unfolding runs[OF a] by (rule map_number) (simp add: reranked_def)
  then have "mset (map (\<lambda>r. (sr_chunk r, sr_score r)) (stage rs))
      = image_mset (\<lambda>r. (sr_chunk r, sr_score r)) (mset (map (rescored new_score) rs))"
    by (simp only: mset_map mset_sort_desc)
  then show ?thesis by (simp add: image_mset.compositionality comp_def rescored_def)
qed

lemma drops_flag: "active rs \<Longrightarrow> r \<in> set (stage rs) \<Longrightarrow> \<not> sr_via_session_summary r"
  unfolding runs by (drule set_number) (auto simp: reranked_def)

end

interpretation access: score_stage "apply_access_boost counts b" "access_score_of counts b" "\<lambda>_. True" for counts b
  by unfold_locales (simp_all add: apply_access_boost_def)

interpretation entity: score_stage "apply_entity_boost matches n b" "entity_score_of matches n b"
    "\<lambda>rs. rs \<noteq> [] \<and> n > 0" for matches n b
  by unfold_locales (auto simp: apply_entity_boost_def)

interpretation importance: score_stage "apply_importance_boost scores b" "importance_score_of scores b"
    "\<lambda>rs. rs \<noteq> []" for scores b
  by unfold_locales (auto simp: apply_importance_boost_def)

interpretation decay: score_stage "apply_score_decay h now" "decayed_score h now"
    "\<lambda>rs. rs \<noteq> [] \<and> h > 0" for h now
  by unfold_locales (auto simp: apply_score_decay_def)

text \<open>What a stage owes its caller: the same chunks with the new scores, sorted and numbered.\<close>

definition stage_result :: "(search_result \<Rightarrow> real) \<Rightarrow> search_result list \<Rightarrow> search_result list \<Rightarrow> bool" where
  "stage_result f rs out \<longleftrightarrow>
     mset (map (\<lambda>r. (sr_chunk r, sr_score r)) out) = mset (map (\<lambda>r. (sr_chunk r, f r)) rs) \<and>
     descending (map sr_score out) \<and> map sr_rank out = [1..<length rs + 1]"

lemma stage_result_Nil [simp]: "stage_result f [] []"
  by (simp add: stage_result_def)

context score_stage
begin

lemma result: "active rs \<Longrightarrow> stage_result new_score rs (stage rs)"
  unfolding stage_result_def by (intro conjI new_scores sorts ranks)

end

text \<open>
  Re-scoring loses nothing: each of the four stages returns the same chunks, each with
  the score its stage gives it, sorted by it and numbered from one; the entity stage without
  query entities and the decay stage without a half-life leave the results as they were.
\<close>

theorem stages_permute:
  "stage_result (access_score_of counts b) rs (apply_access_boost counts b rs) \<and>
   (if n \<le> 0 then apply_entity_boost matches n b rs = rs
    else stage_result (entity_score_of matches n b) rs (apply_entity_boost matches n b rs)) \<and>
   stage_result (importance_score_of scores b) rs (apply_importance_boost scores b rs) \<and>
   (if h \<le> 0 then apply_score_decay h now rs = rs
    else stage_result (decayed_score h now) rs (apply_score_decay h now rs))"
proof (cases "rs = []")
  case True
  then show ?thesis
    using access.result[of counts b "[]"]
    by (simp add: apply_entity_boost_def apply_importance_boost_def apply_score_decay_def)
next
  case False
  then show ?thesis
    using access.result[of counts b rs] entity.result[of rs n matches b] importance.result[of rs scores b]
      decay.result[of rs h now] entity.idle[of rs n matches b] decay.idle[of rs h now]
    by (simp split: if_split)
qed

section \<open>Boosts only promote\<close>

lemma boosted_score_up: "factor \<ge> 1 \<Longrightarrow> boosted_score s factor \<ge> s"
proof (cases "s < 0")
  case True
  assume "factor \<ge> 1"
  then have "s \<le> s / factor" using True by (simp add: le_divide_eq mult_le_cancel_left1)
  with True \<open>factor \<ge> 1\<close> show ?thesis by (simp add: boosted_score_def)
next
  case False
  assume "factor \<ge> 1"
  with False show ?thesis by (simp add: boosted_score_def mult_le_cancel_left1)
qed

lemma boosted_score_mono: "1 \<le> f \<Longrightarrow> f \<le> g \<Longrightarrow> boosted_score s f \<le> boosted_score s g"
proof (cases "s < 0")
  case True
  assume "1 \<le> f" "f \<le> g"
  with True show ?thesis by (simp add: boosted_score_def frac_le_eq divide_simps)
next
  case False
  assume "1 \<le> f" "f \<le> g"
  with False show ?thesis by (simp add: boosted_score_def mult_left_mono)
qed

lemma access_boost_ge1: "b \<ge> 1 \<Longrightarrow> access_boost n b \<ge> 1"
  by (simp add: access_boost_def)

lemma entity_boost_ge1: "b \<ge> 1 \<Longrightarrow> entity_boost_factor m n b \<ge> 1"
  by (simp add: entity_boost_factor_def)

lemma entity_boost_le: "b \<ge> 1 \<Longrightarrow> entity_boost_factor m n b \<le> b"
proof (cases "n \<le> 0 \<or> m \<le> 0")
  case False
  assume b: "b \<ge> 1"
  have "of_int (min (int m) n) / of_int n \<le> (1 :: real)" using False by (simp add: divide_le_eq)
  then have "(b - 1) * (of_int (min (int m) n) / of_int n) \<le> (b - 1) * 1"
    using b by (intro mult_left_mono) auto
  with False show ?thesis by (simp add: entity_boost_factor_def)
qed (simp add: entity_boost_factor_def)

text \<open>
  A boost never demotes: with a configured maximum of at least one, no hit leaves the
  access, entity or importance stage with a lower score than it had, on either side of zero,
  and a larger factor never gives a smaller score.
\<close>

theorem boosts_only_promote:
  assumes "1 \<le> b" and "\<forall>v \<in> ran scores. 0 \<le> v" and "1 \<le> f" and "f \<le> g"
  shows "sr_score r \<le> access_score_of counts b r \<and> sr_score r \<le> entity_score_of matches n b r \<and>
    sr_score r \<le> importance_score_of scores b r \<and> boosted_score s f \<le> boosted_score s g"
proof (intro conjI)
  have "0 \<le> (case scores (ch_id (sr_chunk r)) of None \<Rightarrow> 0 | Some v \<Rightarrow> v)"
    using assms(2) by (auto simp: ran_def split: option.split)
  then have "1 \<le> 1 + (b - 1) * (case scores (ch_id (sr_chunk r)) of None \<Rightarrow> 0 | Some v \<Rightarrow> v)"
    using assms(1) by simp
  then show "sr_score r \<le> importance_score_of scores b r"
    unfolding importance_score_of_def by (rule boosted_score_up)
qed (use assms in \<open>auto simp: access_score_of_def entity_score_of_def
      intro: boosted_score_up boosted_score_mono access_boost_ge1 entity_boost_ge1\<close>)

definition sample_hit :: "string \<Rightarrow> real \<Rightarrow> search_result" where
  "sample_hit i s = \<lparr>sr_chunk = sample_chunk i ''h'' [65], sr_score = s, sr_rank = 1, sr_source = ''bm25'',
     sr_context = None, sr_via_session_summary = False\<rparr>"

theorem boosts_only_promote_witness:
  "- 1 \<le> importance_score_of [''a'' \<mapsto> 1] 2 (sample_hit ''a'' (- 1)) \<and> boosted_score (- 1) 1 \<le> boosted_score (- 1) 2"
  using boosts_only_promote[of 2 "[''a'' \<mapsto> 1]" 1 2 "sample_hit ''a'' (- 1)" Map.empty Map.empty 0 "- 1"]
  by (simp add: sample_hit_def)

text \<open>
  Two behaviours the surrounding text does not expect. The access factor is not capped: past
  a hundred accesses it exceeds the configured maximum. And the decay multiplies whatever
  sign the score has, so on the negative scores of a reranker an older chunk gains.
\<close>

lemma access_boost_exceeds_max: "1 < b \<Longrightarrow> b < access_boost 101 b"
proof -
  assume b: "1 < b"
  have "ln (101 :: real) < ln 102" by simp
  moreover have "(0 :: real) < ln 101" by simp
  ultimately have "1 < ln 102 / ln (101 :: real)" by simp
  then have "(b - 1) * 1 < (b - 1) * (ln 102 / ln 101)" using b by (intro mult_strict_left_mono) auto
  then show ?thesis by (simp add: access_boost_def)
qed

lemma decay_promotes_negative:
  "sr_score r < 0 \<Longrightarrow> 0 < h \<Longrightarrow> ch_updated_at (sr_chunk r) < now \<Longrightarrow> sr_score r < decayed_score h now r"
proof -
  assume a: "sr_score r < 0" "0 < h" "ch_updated_at (sr_chunk r) < now"
  let ?age = "of_int (now - ch_updated_at (sr_chunk r)) / 86400 :: real"
  have age: "?age > 0" using a(3) by simp
  then have "decay_factor (max 0 ?age) h = exp (- ln 2 * ?age / h)" using a(2) by (simp add: decay_factor_def)
  moreover have "- ln 2 * ?age / h < 0" using age a(2) by (intro divide_neg_pos mult_neg_pos) auto
  ultimately have "decay_factor (max 0 ?age) h < 1" by simp
  then show ?thesis using a(1) by (simp add: decayed_score_def)
qed

text \<open>
  Which way time decay moves a hit: with a positive half-life, a hit older than now with
  a score of zero or more keeps a score between zero and what it had, and half of it after
  one half-life; a negative score (a reranker's logit) rises instead.
\<close>

theorem decay_direction:
  assumes "0 < h" and "ch_updated_at (sr_chunk r) < now"
  shows "(if sr_score r < 0 then sr_score r < decayed_score h now r
     else 0 \<le> decayed_score h now r \<and> decayed_score h now r \<le> sr_score r) \<and> decay_factor h h = 1 / 2"
proof -
  let ?age = "max 0 (of_int (now - ch_updated_at (sr_chunk r)) / 86400) :: real"
  have "decay_factor ?age h \<le> 1" "0 < decay_factor ?age h"
    using assms(1) by (simp_all add: decay_factor_def divide_le_0_iff mult_le_0_iff)
  then have "\<not> sr_score r < 0 \<Longrightarrow> 0 \<le> decayed_score h now r \<and> decayed_score h now r \<le> sr_score r"
    by (simp add: decayed_score_def mult_left_le)
  moreover have "decay_factor h h = 1 / 2" using assms(1) by (simp add: decay_factor_def exp_minus)
  ultimately show ?thesis using decay_promotes_negative[OF _ assms] by simp
qed

theorem decay_direction_witness:
  "- 1 < decayed_score 30 86400 (sample_hit ''a'' (- 1)) \<and> decayed_score 30 86400 (sample_hit ''a'' 1) \<le> 1"
  using decay_direction[of 30 "sample_hit ''a'' (- 1)" 86400] decay_direction[of 30 "sample_hit ''a'' 1" 86400]
  by (simp add: sample_hit_def sample_chunk_def)

lemma stages_drop_flag:
  "r \<in> set (apply_access_boost counts b rs) \<Longrightarrow> \<not> sr_via_session_summary r"
  "rs \<noteq> [] \<Longrightarrow> 0 < h \<Longrightarrow> r \<in> set (apply_score_decay h now rs) \<Longrightarrow> \<not> sr_via_session_summary r"
  using access.drops_flag decay.drops_flag by blast+

section \<open>Fusion computes the RRF sum\<close>

text \<open>The formula of the documentation: the sum over the legs that count.\<close>

definition rank_sum :: "nat \<Rightarrow> real \<Rightarrow> nat \<Rightarrow> string list \<Rightarrow> string \<Rightarrow> real" where
  "rank_sum k w first xs cid = (\<Sum>(rank, x) \<leftarrow> enumerate first xs. if x = cid then w / real (k + rank) else 0)"

definition rrf_score :: "nat \<Rightarrow> (string list \<times> real) list \<Rightarrow> string \<Rightarrow> real" where
  "rrf_score k legs cid = (\<Sum>(xs, w) \<leftarrow> legs. if w \<le> 0 then 0 else rank_sum k w 1 xs cid)"

lemma rank_sum_simps [simp]:
  "rank_sum k w n [] cid = 0"
  "rank_sum k w n (x # xs) cid = (if x = cid then w / real (k + n) else 0) + rank_sum k w (Suc n) xs cid"
  by (simp_all add: rank_sum_def)

lemma rank_sum_absent: "cid \<notin> set xs \<Longrightarrow> rank_sum k w n xs cid = 0"
  by (induction xs arbitrary: n) auto

definition counted :: "(string list \<times> real) list \<Rightarrow> string set" where
  "counted legs = (\<Union>(xs, w) \<in> set legs. if w \<le> 0 then {} else set xs)"

lemma add_ranks_map:
  "map_of (add_ranks w k rank xs scores) cid =
     (if cid \<in> set xs \<or> map_of scores cid \<noteq> None
      then Some ((case map_of scores cid of None \<Rightarrow> 0 | Some s \<Rightarrow> s) + rank_sum k w rank xs cid)
      else None)"
  by (induction w k rank xs scores rule: add_ranks.induct) (auto split: option.splits)

lemma add_ranks_ok: "od_ok scores \<Longrightarrow> od_ok (add_ranks w k rank xs scores)"
  by (induction w k rank xs scores rule: add_ranks.induct) simp_all

lemma accumulate_map:
  "map_of (accumulate k legs scores) cid =
     (if cid \<in> counted legs \<or> map_of scores cid \<noteq> None
      then Some ((case map_of scores cid of None \<Rightarrow> 0 | Some s \<Rightarrow> s) + rrf_score k legs cid) else None)"
proof (induction k legs scores rule: accumulate.induct)
  case (1 k scores)
  then show ?case by (auto simp: counted_def rrf_score_def split: option.split)
next
  case (2 k xs w rest scores)
  then show ?case
    by (auto simp: counted_def rrf_score_def add_ranks_map rank_sum_absent split: option.splits)
qed

lemma accumulate_ok: "od_ok scores \<Longrightarrow> od_ok (accumulate k legs scores)"
  by (induction k legs scores rule: accumulate.induct) (simp_all add: add_ranks_ok)

text \<open>The hits recorded for a chunk.\<close>

definition hits_good :: "(string \<rightharpoonup> hit_info) \<Rightarrow> search_result set \<Rightarrow> bool" where
  "hits_good m S \<longleftrightarrow> (\<forall>cid. (m cid = None \<longleftrightarrow> (\<forall>r \<in> S. ch_id (sr_chunk r) \<noteq> cid)) \<and>
     (\<forall>h. m cid = Some h \<longrightarrow> ch_id (hi_chunk h) = cid \<and>
        (hi_via h \<longleftrightarrow> (\<exists>r \<in> S. ch_id (sr_chunk r) = cid \<and> sr_via_session_summary r))))"

lemma add_hit_good: "hits_good m S \<Longrightarrow> hits_good (add_hit idx m r) (insert r S)"
  unfolding hits_good_def add_hit_def by (auto split: option.splits)

lemma fold_hits_good: "hits_good m S \<Longrightarrow> hits_good (foldl (add_hit idx) m rs) (S \<union> set rs)"
proof (induction rs arbitrary: m S)
  case (Cons r rs)
  from Cons.IH[OF add_hit_good[OF Cons.prems, of idx r]] show ?case by simp
qed simp

definition counted_results :: "(search_result list \<times> real) list \<Rightarrow> search_result set" where
  "counted_results legs = (\<Union>(rs, w) \<in> set legs. if w \<le> 0 then {} else set rs)"

lemma collect_hits_good: "hits_good m S \<Longrightarrow> hits_good (collect_hits idx legs m) (S \<union> counted_results legs)"
proof (induction idx legs m arbitrary: S rule: collect_hits.induct)
  case (2 idx rs w rest m)
  show ?case
  proof (cases "w \<le> 0")
    case True
    with 2(1)[of S] 2(2) show ?thesis by (simp add: counted_results_def)
  next
    case False
    with 2(1)[of "S \<union> set rs"] fold_hits_good[OF 2(2), of idx rs] show ?thesis
      by (simp add: counted_results_def Un_assoc)
  qed
qed (simp add: counted_results_def)

lemma take_drop_descending:
  assumes "x \<in> set (take n (sort_desc f xs))" and "y \<in> set xs" "y \<notin> set (take n (sort_desc f xs))"
  shows "f y \<le> f x"
proof -
  let ?s = "sort_desc f xs"
  have "descending (map f (take n ?s @ drop n ?s))" using descending_sort_desc by simp
  then have "\<forall>a \<in> set (take n ?s). \<forall>b \<in> set (drop n ?s). f a \<ge> f b"
    by (auto simp: sorted_wrt_append simp del: append_take_drop_id)
  moreover have "y \<in> set (take n ?s @ drop n ?s)" using assms(2) by simp
  ultimately show ?thesis using assms(1,3) unfolding set_append by blast
qed

abbreviation hit_id :: "search_result \<Rightarrow> string" where
  "hit_id r \<equiv> ch_id (sr_chunk r)"

definition id_legs :: "(search_result list \<times> real) list \<Rightarrow> (string list \<times> real) list" where
  "id_legs legs = map (\<lambda>(rs, w). (map hit_id rs, w)) legs"

lemma zip_id_legs: "zip (map (map hit_id) legs) (take (length legs) ws) = id_legs (zip legs ws)"
  unfolding id_legs_def
proof (induction legs arbitrary: ws)
  case (Cons l legs)
  show ?case by (cases ws) (simp_all add: Cons.IH)
qed simp

lemma counted_id_legs: "counted (id_legs legs) = hit_id ` counted_results legs"
proof (induction legs)
  case (Cons l legs)
  have "counted (id_legs (l # legs)) = (if snd l \<le> 0 then {} else hit_id ` set (fst l)) \<union> counted (id_legs legs)"
    "counted_results (l # legs) = (if snd l \<le> 0 then {} else set (fst l)) \<union> counted_results legs"
    by (cases l; simp add: counted_def counted_results_def id_legs_def)+
  then show ?case by (simp add: Cons.IH image_Un)
qed (simp add: counted_def counted_results_def id_legs_def)

lemma fused_scores:
  assumes "(cid, s) \<in> set (accumulate k legs [])"
  shows "cid \<in> counted legs \<and> s = rrf_score k legs cid"
proof -
  have "map_of (accumulate k legs []) cid = Some s"
    using assms accumulate_ok[of "[]" k legs] by simp
  then show ?thesis using accumulate_map[of k legs "[]" cid] by (auto split: if_splits)
qed

lemma accumulate_keys: "fst ` set (accumulate k legs []) = counted legs"
proof -
  have "cid \<in> fst ` set (accumulate k legs []) \<longleftrightarrow> cid \<in> counted legs" for cid
    using accumulate_map[of k legs "[]" cid] map_of_eq_None_iff[of "accumulate k legs []" cid]
    by (auto split: if_splits)
  then show ?thesis by blast
qed

lemma hits_good_found:
  "hits_good m S \<Longrightarrow> cid \<in> hit_id ` S \<Longrightarrow> \<exists>h. m cid = Some h \<and> ch_id (hi_chunk h) = cid \<and>
     hi_via h = (\<exists>r \<in> S. hit_id r = cid \<and> sr_via_session_summary r)"
  unfolding hits_good_def by (cases "m cid") auto

text \<open>
  Fusion returns the best chunks by the documented sum: it never fails, every returned
  hit has score \<open>sum of weight / (k + rank)\<close> over its occurrences in the legs of positive
  weight, is listed once, carries the session-summary flag when one of those occurrences did,
  and no chunk left out scores more than one returned; a leg of weight zero contributes
  nothing. The list is as long as \<open>top_k\<close> and the chunks allow, sorted and numbered from one.
\<close>

theorem fusion_is_rrf:
  "\<exists>out. reciprocal_rank_fusion leg legs k top_k weights labels = Inr out \<and>
     (let counting = zip legs (pad_weights (length legs) weights) in
      length out = min top_k (card (hit_id ` counted_results counting)) \<and>
      distinct (map hit_id out) \<and> descending (map sr_score out) \<and> map sr_rank out = [1..<length out + 1] \<and>
      (\<forall>r \<in> set out. sr_score r = rrf_score k (id_legs counting) (hit_id r) \<and>
         sr_via_session_summary r = (\<exists>h \<in> counted_results counting. hit_id h = hit_id r \<and> sr_via_session_summary h)) \<and>
      (\<forall>h \<in> counted_results counting. \<forall>r \<in> set out. hit_id h \<notin> hit_id ` set out \<longrightarrow>
         rrf_score k (id_legs counting) (hit_id h) \<le> sr_score r))"
proof -
  let ?c = "zip legs (pad_weights (length legs) weights)"
  let ?sc = "accumulate k (id_legs ?c) []"
  let ?m = "collect_hits 0 ?c Map.empty"
  let ?top = "take top_k (sort_desc snd ?sc)"
  let ?out = "number_with (fused_result (pad_labels leg (length legs) labels) ?m) ?top"
  have "length (take (length legs) (pad_weights (length legs) weights)) = length legs"
    by (auto simp: pad_weights_def split: option.split)
  then have run: "reciprocal_rank_fusion leg legs k top_k weights labels = Inr ?out"
    by (simp add: reciprocal_rank_fusion_def weighted_rank_scores_def Let_def zip_id_legs)
  have good: "hits_good ?m (counted_results ?c)"
    using collect_hits_good[of Map.empty "{}" 0 ?c] by (simp add: hits_good_def)
  have top: "cid \<in> hit_id ` counted_results ?c \<and> s = rrf_score k (id_legs ?c) cid" if "(cid, s) \<in> set ?top" for cid s
    using that fused_scores[of cid s k "id_legs ?c"] by (auto simp: counted_id_legs dest!: in_set_takeD)
  have hit: "hit_id (fused_result ls ?m i x) = fst x \<and> sr_score (fused_result ls ?m i x) = snd x \<and>
      (sr_via_session_summary (fused_result ls ?m i x)
        = (\<exists>h \<in> counted_results ?c. hit_id h = fst x \<and> sr_via_session_summary h))"
    if "x \<in> set ?top" for ls i x
  proof -
    have "fst x \<in> hit_id ` counted_results ?c" using top[of "fst x" "snd x"] that by simp
    from hits_good_found[OF good this] obtain h where m: "?m (fst x) = Some h" "ch_id (hi_chunk h) = fst x"
      "hi_via h = (\<exists>h \<in> counted_results ?c. hit_id h = fst x \<and> sr_via_session_summary h)"
      by (elim exE conjE)
    with m show ?thesis by (simp add: fused_result_def)
  qed
  have ids: "map hit_id ?out = map fst ?top" and scores: "map sr_score ?out = map snd ?top"
    by (rule nth_equalityI, simp, simp add: hit nth_mem del: nth_take length_take)+
  have "distinct (map fst (sort_desc snd ?sc))"
    using accumulate_ok[of "[]" k "id_legs ?c"] by (simp add: distinct_map)
  then have dist: "distinct (map hit_id ?out)" unfolding ids take_map[symmetric] by (rule distinct_take)
  have "length ?sc = card (fst ` set ?sc)"
    using accumulate_ok[of "[]" k "id_legs ?c"] distinct_card[of "map fst ?sc"] by simp
  then have len: "length ?out = min top_k (card (hit_id ` counted_results ?c))"
    by (simp add: accumulate_keys counted_id_legs min.commute)
  have each: "sr_score r = rrf_score k (id_legs ?c) (hit_id r) \<and> (hit_id r, sr_score r) \<in> set ?top \<and>
      sr_via_session_summary r = (\<exists>h \<in> counted_results ?c. hit_id h = hit_id r \<and> sr_via_session_summary h)"
    if r: "r \<in> set ?out" for r
  proof -
    obtain i x where x: "x \<in> set ?top" "r = fused_result (pad_labels leg (length legs) labels) ?m i x"
      using set_number[OF r] by blast
    note h = hit[OF x(1), of "pad_labels leg (length legs) labels" i, folded x(2)]
    have "(hit_id r, sr_score r) = x" using h by (simp add: prod_eq_iff)
    with x(1) have "(hit_id r, sr_score r) \<in> set ?top" by simp
    with top[OF this] h show ?thesis by simp
  qed
  have left: "rrf_score k (id_legs ?c) (hit_id h) \<le> sr_score r"
    if h: "h \<in> counted_results ?c" and r: "r \<in> set ?out" and no: "hit_id h \<notin> hit_id ` set ?out" for h r
  proof -
    obtain s where s: "(hit_id h, s) \<in> set ?sc"
      using h accumulate_keys[of k "id_legs ?c"] by (force simp: counted_id_legs image_iff)
    have "hit_id ` set ?out = fst ` set ?top" using arg_cong[OF ids, of set] by (simp only: set_map)
    then have "hit_id h \<notin> fst ` set ?top" using no by (rule subst)
    then have "(hit_id h, s) \<notin> set ?top" by force
    from take_drop_descending[OF _ s this] each[OF r] have "s \<le> sr_score r" by fastforce
    with fused_scores[OF s] show ?thesis by simp
  qed
  have "descending (map sr_score ?out)"
    unfolding scores take_map[symmetric] by (intro sorted_wrt_take descending_sort_desc)
  moreover have "map sr_rank ?out = [1..<length ?out + 1]"
    by (subst number_ranks) (simp_all add: fused_result_def)
  ultimately show ?thesis
    using run len dist each left unfolding Let_def by blast
qed

text \<open>Non-vacuity: two legs that both find \<open>b\<close>, the second of weight two.\<close>

theorem fusion_is_rrf_witness:
  "rrf_score 60 (id_legs (zip [[sample_hit ''a'' 1, sample_hit ''b'' 1], [sample_hit ''b'' 1]] [1, 2])) ''b'' = 1 / 62 + 2 / 61 \<and>
   (\<exists>out. reciprocal_rank_fusion (\<lambda>_. []) [[sample_hit ''a'' 1, sample_hit ''b'' 1], [sample_hit ''b'' 1]] 60 1 (Some [1, 2]) None = Inr out \<and>
     length out = 1)"
proof
  show "rrf_score 60 (id_legs (zip [[sample_hit ''a'' 1, sample_hit ''b'' 1], [sample_hit ''b'' 1]] [1, 2])) ''b'' = 1 / 62 + 2 / 61"
    by (simp add: rrf_score_def id_legs_def sample_hit_def sample_chunk_def)
  have "card (hit_id ` counted_results (zip [[sample_hit ''a'' 1, sample_hit ''b'' 1], [sample_hit ''b'' 1]] [1, 2])) = 2"
    by (simp add: counted_results_def sample_hit_def sample_chunk_def card_insert_if)
  then show "\<exists>out. reciprocal_rank_fusion (\<lambda>_. []) [[sample_hit ''a'' 1, sample_hit ''b'' 1], [sample_hit ''b'' 1]] 60 1 (Some [1, 2]) None = Inr out \<and>
     length out = 1"
    using fusion_is_rrf[of "\<lambda>_. []" "[[sample_hit ''a'' 1, sample_hit ''b'' 1], [sample_hit ''b'' 1]]" 60 1 "Some [1, 2]" None]
    by (auto simp: Let_def pad_weights_def)
qed

section \<open>MMR is greedy on its objective\<close>

lemma best_index_max:
  assumes "length ps = i" and "bi < i" and "\<forall>p \<in> set ps. f p \<le> f (ps ! bi)"
  shows "best_index f i rs (Some (f (ps ! bi))) bi < length (ps @ rs) \<and>
    (\<forall>x \<in> set (ps @ rs). f x \<le> f ((ps @ rs) ! best_index f i rs (Some (f (ps ! bi))) bi))"
  using assms
proof (induction rs arbitrary: ps i bi)
  case Nil
  then show ?case by simp
next
  case (Cons r rs)
  show ?case
  proof (cases "f r > f (ps ! bi)")
    case True
    have r: "(ps @ [r]) ! i = r" using Cons.prems(1) by (simp add: nth_append)
    have "\<forall>p \<in> set (ps @ [r]). f p \<le> f r" using Cons.prems(3) True by fastforce
    with Cons.IH[of "ps @ [r]" "i + 1" i, unfolded r] Cons.prems(1) True show ?thesis by simp
  next
    case False
    have r: "(ps @ [r]) ! bi = ps ! bi" using Cons.prems(1,2) by (simp add: nth_append)
    have "\<forall>p \<in> set (ps @ [r]). f p \<le> f (ps ! bi)" using Cons.prems(3) False by simp
    with Cons.IH[of "ps @ [r]" "i + 1" bi, unfolded r] Cons.prems(1,2) False show ?thesis by simp
  qed
qed

lemma best_index_best:
  assumes "rs \<noteq> []" and "x \<in> set rs"
  shows "f x \<le> f (rs ! best_index f 0 rs None 0)"
proof (cases rs)
  case (Cons r rest)
  with best_index_max[of "[r]" 1 0 f rest] assms(2) show ?thesis by auto
qed (use assms in simp)

lemma mset_remove_nth: "i < length xs \<Longrightarrow> mset xs = add_mset (xs ! i) (mset (remove_nth i xs))"
proof -
  assume "i < length xs"
  then have "xs = take i xs @ xs ! i # drop (Suc i) xs" by (rule id_take_nth_drop)
  then have "mset xs = mset (take i xs @ xs ! i # drop (Suc i) xs)" by simp
  then show ?thesis by (simp add: remove_nth_def)
qed

text \<open>What the loop picks: each pick is maximal among everything still to be picked.\<close>

definition greedy :: "('a list \<Rightarrow> 'a \<Rightarrow> real) \<Rightarrow> 'a list \<Rightarrow> 'a list \<Rightarrow> 'a list \<Rightarrow> bool" where
  "greedy score sel picked rest \<longleftrightarrow> (\<forall>i < length picked. \<forall>r \<in> set (drop i picked) \<union> set rest.
     score (sel @ take i picked) r \<le> score (sel @ take i picked) (picked ! i))"

lemma greedy_Cons:
  "(\<forall>r \<in> insert p (set picked \<union> set rest). score sel r \<le> score sel p) \<Longrightarrow> greedy score (sel @ [p]) picked rest
    \<Longrightarrow> greedy score sel (p # picked) rest"
  unfolding greedy_def
proof (intro allI impI ballI)
  fix i r
  assume first: "\<forall>r \<in> insert p (set picked \<union> set rest). score sel r \<le> score sel p"
    and later: "\<forall>i < length picked. \<forall>r \<in> set (drop i picked) \<union> set rest.
      score ((sel @ [p]) @ take i picked) r \<le> score ((sel @ [p]) @ take i picked) (picked ! i)"
    and i: "i < length (p # picked)" and r: "r \<in> set (drop i (p # picked)) \<union> set rest"
  show "score (sel @ take i (p # picked)) r \<le> score (sel @ take i (p # picked)) ((p # picked) ! i)"
  proof (cases i)
    case 0
    with first r show ?thesis by auto
  next
    case (Suc j)
    with later i r show ?thesis by simp
  qed
qed

lemma mmr_loop_greedy:
  "\<exists>picked rest. mmr_loop score k sel rem = sel @ picked \<and> mset rem = mset picked + mset rest \<and>
     length picked = min (length rem) (nat (k - int (length sel))) \<and> greedy score sel picked rest"
proof (induction score k sel rem rule: mmr_loop.induct)
  case (1 score k sel rem)
  show ?case
  proof (cases "rem \<noteq> [] \<and> int (length sel) < k")
    case False
    then have "mmr_loop score k sel rem = sel @ []" by (subst mmr_loop.simps) auto
    with False show ?thesis by (intro exI[of _ "[]"] exI[of _ rem]) (auto simp: greedy_def)
  next
    case True
    let ?i = "best_index (score sel) 0 rem None 0"
    let ?rem = "remove_nth ?i rem"
    have less: "?i < length rem" using True by (simp add: best_index_less)
    from 1[OF True refl] obtain picked rest where p:
      "mmr_loop score k (sel @ [rem ! ?i]) ?rem = (sel @ [rem ! ?i]) @ picked" "mset ?rem = mset picked + mset rest"
      "length picked = min (length ?rem) (nat (k - int (length (sel @ [rem ! ?i]))))"
      "greedy score (sel @ [rem ! ?i]) picked rest" by blast
    have m: "mset rem = mset (rem ! ?i # picked) + mset rest"
      using mset_remove_nth[OF less] p(2) by simp
    then have "set rem = insert (rem ! ?i) (set picked \<union> set rest)"
      using set_mset_mset[of rem] unfolding m by simp
    then have "\<forall>r \<in> insert (rem ! ?i) (set picked \<union> set rest). score sel r \<le> score sel (rem ! ?i)"
      using True best_index_best[of rem _ "score sel"] by blast
    from greedy_Cons[OF this p(4)] have "greedy score sel (rem ! ?i # picked) rest" .
    moreover have "mmr_loop score k sel rem = sel @ rem ! ?i # picked"
      using True p(1) by (subst mmr_loop.simps) (simp add: Let_def)
    moreover have "length (rem ! ?i # picked) = min (length rem) (nat (k - int (length sel)))"
      using p(3) less True by (simp add: remove_nth_def) arith
    ultimately show ?thesis using m by blast
  qed
qed

text \<open>The cache answers with the cosine of every pair of two different hits.\<close>

lemma cosine_commute: "cosine_similarity a b = cosine_similarity b a"
proof -
  have "dot_product a b = dot_product b a"
    unfolding dot_product_def
    by (induction a b rule: list_induct2') (simp_all add: mult.commute)
  then show ?thesis by (auto simp: cosine_similarity_def Let_def mult.commute)
qed

lemma sim_cache_sound: "((a, b), s) \<in> set (sim_cache embs ids) \<Longrightarrow> s = cosine_similarity (embs a) (embs b)"
proof (induction embs ids rule: sim_cache.induct)
  case (2 embs x rest)
  then show ?case by (auto simp: Let_def cosine_commute) (auto simp: cosine_similarity_def)
qed simp

lemma sim_cache_present: "{#a, b#} \<subseteq># mset ids \<Longrightarrow> (a, b) \<in> fst ` set (sim_cache embs ids)"
proof (induction embs ids rule: sim_cache.induct)
  case (2 embs x rest)
  show ?case
  proof (cases "a = x \<or> b = x")
    case True
    with 2(2) have "(a = x \<and> b \<in> set rest) \<or> (b = x \<and> a \<in> set rest)"
      by (auto simp: add_mset_commute)
    then show ?thesis by (force simp: Let_def)
  next
    case False
    with 2(2) have "{#a, b#} \<subseteq># mset rest"
      by (auto simp: subseteq_mset_def split: if_splits)
    with 2(1) show ?thesis by auto
  qed
qed simp

lemma lookup_sim_cosine:
  assumes "{#a, b#} \<subseteq># mset ids"
  shows "lookup_sim (sim_cache embs ids) a b = cosine_similarity (embs a) (embs b)"
proof (cases "map_of (sim_cache embs ids) (a, b)")
  case None
  with sim_cache_present[OF assms, of embs] show ?thesis by (simp add: map_of_eq_None_iff)
next
  case (Some s)
  from sim_cache_sound[OF map_of_SomeD[OF this]] Some show ?thesis by (simp add: lookup_sim_def)
qed

definition hit_embedding :: "(string \<rightharpoonup> real list) \<Rightarrow> search_result \<Rightarrow> real list" where
  "hit_embedding embs r = (case embs (hit_id r) of None \<Rightarrow> [] | Some e \<Rightarrow> e)"

text \<open>The objective of the documentation, without the cache.\<close>

definition mmr_objective ::
  "(string \<rightharpoonup> real list) \<Rightarrow> real \<Rightarrow> real \<Rightarrow> search_result list \<Rightarrow> search_result \<Rightarrow> real" where
  "mmr_objective embs lam m sel r = lam * (sr_score r / m)
     - (1 - lam) * Max ((\<lambda>s. cosine_similarity (hit_embedding embs r) (hit_embedding embs s)) ` set sel)"

lemma mmr_score_objective:
  assumes "sel \<noteq> []" and "\<forall>s \<in> set sel. {#hit_id r, hit_id s#} \<subseteq># mset ids"
  shows "mmr_score (sim_cache (\<lambda>i. case embs i of None \<Rightarrow> [] | Some e \<Rightarrow> e) ids) lam m sel r
    = mmr_objective embs lam m sel r"
proof -
  let ?c = "sim_cache (\<lambda>i. case embs i of None \<Rightarrow> [] | Some e \<Rightarrow> e) ids"
  have sims: "map (\<lambda>s. lookup_sim ?c (hit_id r) (hit_id s)) sel
      = map (\<lambda>s. cosine_similarity (hit_embedding embs r) (hit_embedding embs s)) sel"
    using assms(2) by (auto simp: lookup_sim_cosine hit_embedding_def)
  obtain x xs where "sel = x # xs" using assms(1) by (cases sel) auto
  then show ?thesis
    unfolding mmr_score_def mmr_objective_def sims
    by (simp add: Max.set_eq_fold[symmetric] del: Max_insert)
qed

lemma two_of_split:
  assumes "mset xs = mset ys + mset zs" and "i < length ys" and "r \<in> set (drop i ys) \<union> set zs"
    and "s \<in> set (take i ys)"
  shows "{#f r, f s#} \<subseteq># mset (map f xs)"
proof -
  have "mset xs = mset (take i ys) + (mset (drop i ys) + mset zs)"
    using assms(1) by (metis add.assoc append_take_drop_id mset_append)
  moreover obtain A where "mset (take i ys) = add_mset s A" using assms(4) by (metis insert_DiffM set_mset_mset)
  moreover obtain B where "mset (drop i ys) + mset zs = add_mset r B"
    using assms(3) by (metis insert_DiffM set_mset_mset set_mset_union)
  ultimately have "mset (map f xs) = {#f r, f s#} + image_mset f (A + B)" by simp
  then show ?thesis by (metis mset_subset_eq_add_left)
qed

text \<open>
  C40. MMR is the documented greedy selection: it keeps the top hit first, returns as many of
  the hits as \<open>top_k\<close> asks for (at least one), none twice, and every further pick maximises
  relevance against similarity to the hits already picked, over all the hits not yet picked;
  the precomputed similarities give the same choice as computing them on the spot.
\<close>

theorem mmr_is_greedy:
  assumes "results \<noteq> []"
  shows "\<exists>sel rest. apply_mmr embs lam top_k results = number_with mmr_result sel \<and>
    mset results = mset sel + mset rest \<and> hd sel = hd results \<and>
    length sel = max 1 (min (length results) (case top_k of None \<Rightarrow> length results | Some k \<Rightarrow> nat k)) \<and>
    (\<forall>i. 1 \<le> i \<and> i < length sel \<longrightarrow> (\<forall>r \<in> set (drop i sel) \<union> set rest.
       mmr_objective embs lam (max_score_of results) (take i sel) r
         \<le> mmr_objective embs lam (max_score_of results) (take i sel) (sel ! i)))"
proof (cases "length results \<le> 1")
  case True
  then have one: "length results = 1" using assms by (cases results) auto
  have "apply_mmr embs lam top_k results = number_with mmr_result results"
    unfolding apply_mmr_def Let_def using True by simp
  with one show ?thesis by (intro exI[of _ results] exI[of _ "[]"]) simp
next
  case False
  obtain x xs where res: "results = x # xs" using assms by (cases results) auto
  let ?ids = "map hit_id results"
  let ?c = "sim_cache (\<lambda>i. case embs i of None \<Rightarrow> [] | Some e \<Rightarrow> e) ?ids"
  let ?k = "case top_k of None \<Rightarrow> int (length results) | Some k \<Rightarrow> k"
  let ?f = "mmr_score ?c lam (max_score_of results)"
  let ?g = "mmr_objective embs lam (max_score_of results)"
  obtain picked rest where p: "mmr_loop ?f ?k [x] xs = [x] @ picked" "mset xs = mset picked + mset rest"
    "length picked = min (length xs) (nat (?k - int (length [x])))" "greedy ?f [x] picked rest"
    using mmr_loop_greedy[of ?f ?k "[x]" xs] by (elim exE conjE) (rule that)
  have run: "apply_mmr embs lam top_k results = number_with mmr_result (x # picked)"
    unfolding apply_mmr_def Let_def using False p(1) by (simp add: res)
  have all: "mset results = mset (x # picked) + mset rest" using p(2) res by simp
  have pick: "?g (take i (x # picked)) r \<le> ?g (take i (x # picked)) ((x # picked) ! i)"
    if i: "1 \<le> i" "i < length (x # picked)" and r: "r \<in> set (drop i (x # picked)) \<union> set rest" for i r
  proof -
    obtain j where j: "i = Suc j" using i(1) by (cases i) auto
    have "?f (take i (x # picked)) r \<le> ?f (take i (x # picked)) ((x # picked) ! i)"
      using p(4) i(2) r unfolding greedy_def j by simp
    moreover have "?f (take i (x # picked)) q = ?g (take i (x # picked)) q"
      if "q \<in> set (drop i (x # picked)) \<union> set rest" for q
      using two_of_split[OF all i(2) that, of _ hit_id] i(1)
      by (intro mmr_score_objective) auto
    moreover have "(x # picked) ! i \<in> set (drop i (x # picked))"
      using i(2) by (metis Cons_nth_drop_Suc list.set_intros(1))
    ultimately show ?thesis using r by simp
  qed
  have "length (x # picked) = max 1 (min (length results) (case top_k of None \<Rightarrow> length results | Some k \<Rightarrow> nat k))"
    using p(3) res by (auto split: option.splits)
  with run all pick show ?thesis
    by (intro exI[of _ "x # picked"] exI[of _ rest]) (simp add: res)
qed

theorem mmr_is_greedy_witness:
  "\<exists>sel rest. apply_mmr Map.empty (1/2) (Some 1) [sample_hit ''a'' 2, sample_hit ''b'' 1] = number_with mmr_result sel \<and>
    length sel = 1 \<and> hd sel = sample_hit ''a'' 2"
  using mmr_is_greedy[of "[sample_hit ''a'' 2, sample_hit ''b'' 1]" Map.empty "1/2" "Some 1"] by auto

end
