(* ===== verification/Ledgers.thy ===== *)
theory Ledgers
  imports Json "HOL-Library.List_Lexorder" "HOL-Library.Char_ord"
begin

text \<open>
  The two claim ledgers of the storage: keyed writes (\<open>storage/mixins/idempotency.py\<close>) and
  cron schedules (\<open>storage/mixins/schedules.py\<close>). One method is one atomic function. ISO
  timestamps of the idempotency table all have second precision in UTC, so they order like the
  instants they stand for and are integers here; every reading of the clock is an argument.
\<close>

datatype ledger_error = TransactionActive

section \<open>Idempotency keys\<close>

type_synonym ledger_key = "string \<times> string"

record ledger_row =
  lr_result :: "string option"
  lr_created :: int
  lr_expires :: int

record ledger_db =
  ld_rows :: "ledger_key \<rightharpoonup> ledger_row"
  ld_tx_active :: bool

definition IDEMPOTENCY_TTL_S :: int where
  "IDEMPOTENCY_TTL_S = 24 * 60 * 60"

datatype claim_answer = Won | Completed string | InFlight

definition require_idle :: "ledger_db \<Rightarrow> (ledger_error, unit) result" where
  "require_idle db = (if ld_tx_active db then Inl TransactionActive else Inr ())"

definition purge_expired :: "int \<Rightarrow> ledger_db \<Rightarrow> ledger_db" where
  "purge_expired now db = db\<lparr>ld_rows := (\<lambda>k. case ld_rows db k of None \<Rightarrow> None
     | Some r \<Rightarrow> if lr_expires r < now then None else Some r)\<rparr>"

definition idempotency_get :: "ledger_key \<Rightarrow> int \<Rightarrow> ledger_db \<Rightarrow> string option" where
  "idempotency_get k now db =
     (case ld_rows db k of None \<Rightarrow> None | Some r \<Rightarrow> if lr_expires r > now then lr_result r else None)"

text \<open>The clock is read for \<open>created_at\<close>, for the expiry and inside the purge.\<close>

record claim_clock =
  cl_created :: int
  cl_base :: int
  cl_purge :: int

definition idempotency_claim ::
  "ledger_key \<Rightarrow> int \<Rightarrow> claim_clock \<Rightarrow> ledger_db \<Rightarrow> (ledger_error, claim_answer) result \<times> ledger_db" where
  "idempotency_claim k ttl t db =
     (case require_idle db of
        Inl e \<Rightarrow> (Inl e, db)
      | Inr _ \<Rightarrow>
          (let db' = purge_expired (cl_purge t) db in
           case ld_rows db' k of
             None \<Rightarrow> (Inr Won, db'\<lparr>ld_rows := (ld_rows db')(k \<mapsto>
                 \<lparr>lr_result = None, lr_created = cl_created t, lr_expires = cl_base t + ttl\<rparr>)\<rparr>)
           | Some r \<Rightarrow> (Inr (case lr_result r of Some s \<Rightarrow> Completed s | None \<Rightarrow> InFlight), db')))"

definition idempotency_complete ::
  "ledger_key \<Rightarrow> string \<Rightarrow> int \<Rightarrow> int \<Rightarrow> ledger_db \<Rightarrow> (ledger_error, unit) result \<times> ledger_db" where
  "idempotency_complete k result ttl now db =
     (case require_idle db of
        Inl e \<Rightarrow> (Inl e, db)
      | Inr _ \<Rightarrow> (Inr (), db\<lparr>ld_rows := (case ld_rows db k of None \<Rightarrow> ld_rows db
          | Some r \<Rightarrow> (ld_rows db)(k \<mapsto> r\<lparr>lr_result := Some result, lr_expires := now + ttl\<rparr>))\<rparr>))"

definition idempotency_release :: "ledger_key \<Rightarrow> ledger_db \<Rightarrow> (ledger_error, unit) result \<times> ledger_db" where
  "idempotency_release k db =
     (case require_idle db of
        Inl e \<Rightarrow> (Inl e, db)
      | Inr _ \<Rightarrow> (Inr (), db\<lparr>ld_rows := (case ld_rows db k of None \<Rightarrow> ld_rows db
          | Some r \<Rightarrow> if lr_result r = None then (ld_rows db)(k := None) else ld_rows db)\<rparr>))"

text \<open>The calls of all processes, in the order the write lock admits them.\<close>

datatype ledger_event =
    ClaimKey ledger_key int claim_clock
  | CompleteKey ledger_key string int int
  | ReleaseKey ledger_key

primrec ledger_step :: "ledger_event \<Rightarrow> ledger_db \<Rightarrow> ledger_db" where
  "ledger_step (ClaimKey k ttl t) db = snd (idempotency_claim k ttl t db)"
| "ledger_step (CompleteKey k result ttl now) db = snd (idempotency_complete k result ttl now db)"
| "ledger_step (ReleaseKey k) db = snd (idempotency_release k db)"

text \<open>How often a run lets a caller write under a key, and how often it gives the key back.\<close>

definition wins_key :: "ledger_key \<Rightarrow> ledger_event \<Rightarrow> ledger_db \<Rightarrow> bool" where
  "wins_key k e db = (case e of ClaimKey k' ttl t \<Rightarrow> k' = k \<and> fst (idempotency_claim k' ttl t db) = Inr Won | _ \<Rightarrow> False)"

primrec writes_under :: "ledger_key \<Rightarrow> ledger_event list \<Rightarrow> ledger_db \<Rightarrow> nat" where
  "writes_under k [] db = 0"
| "writes_under k (e # es) db = (if wins_key k e db then 1 else 0) + writes_under k es (ledger_step e db)"

definition releases_of :: "ledger_key \<Rightarrow> ledger_event list \<Rightarrow> nat" where
  "releases_of k es = length (filter (\<lambda>e. e = ReleaseKey k) es)"

text \<open>Every clock reading is at most \<open>horizon\<close> and no row written expires before it.\<close>

primrec in_time :: "int \<Rightarrow> ledger_event \<Rightarrow> bool" where
  "in_time horizon (ClaimKey k ttl t) \<longleftrightarrow> cl_purge t \<le> horizon \<and> horizon \<le> cl_base t + ttl"
| "in_time horizon (CompleteKey k result ttl now) \<longleftrightarrow> horizon \<le> now + ttl"
| "in_time horizon (ReleaseKey k) \<longleftrightarrow> True"

definition held :: "int \<Rightarrow> ledger_key \<Rightarrow> ledger_db \<Rightarrow> bool" where
  "held horizon k db \<longleftrightarrow> (case ld_rows db k of None \<Rightarrow> False | Some r \<Rightarrow> horizon \<le> lr_expires r)"

lemmas ledger_defs = idempotency_claim_def idempotency_complete_def idempotency_release_def
  require_idle_def purge_expired_def

lemma held_step: "in_time horizon e \<Longrightarrow> held horizon k db \<Longrightarrow> e \<noteq> ReleaseKey k \<Longrightarrow>
    held horizon k (ledger_step e db) \<and> \<not> wins_key k e db"
  by (cases e) (auto simp: ledger_defs held_def wins_key_def Let_def split: option.splits if_splits)

lemma won_held: "in_time horizon e \<Longrightarrow> wins_key k e db \<Longrightarrow> held horizon k (ledger_step e db)"
  by (cases e) (auto simp: ledger_defs held_def wins_key_def Let_def split: option.splits if_splits)

lemma release_wins: "\<not> wins_key k (ReleaseKey k') db"
  by (simp add: wins_key_def)

lemma writes_bounded:
  "list_all (in_time horizon) es \<Longrightarrow> writes_under k es db \<le> (if held horizon k db then 0 else 1) + releases_of k es"
proof (induction es arbitrary: db)
  case (Cons e es)
  have ih: "writes_under k es (ledger_step e db)
      \<le> (if held horizon k (ledger_step e db) then 0 else 1) + releases_of k es"
    using Cons by simp
  show ?case
  proof (cases "e = ReleaseKey k")
    case True
    with ih show ?thesis by (auto simp: releases_of_def release_wins split: if_splits)
  next
    case False
    with ih held_step[of horizon e k db] won_held[of horizon e k db] Cons.prems show ?thesis
      by (auto simp: releases_of_def split: if_splits)
  qed
qed (simp add: releases_of_def)

text \<open>
  A keyed write happens once: whatever claims, completions and releases any processes make,
  on this key and on others, as long as the rows live (no claim purges later than the horizon
  that every expiry reaches), the number of callers told to write under the key is at most one,
  plus one for every explicit release of it, and none if the key is held at the start.
\<close>

theorem keyed_write_once:
  assumes "list_all (in_time horizon) events"
  shows "writes_under k events db \<le> (if held horizon k db then 0 else 1) + releases_of k events"
  using writes_bounded[OF assms] .

definition sample_clock :: "int \<Rightarrow> claim_clock" where
  "sample_clock t = \<lparr>cl_created = t, cl_base = t, cl_purge = t\<rparr>"

definition empty_ledger :: ledger_db where
  "empty_ledger = \<lparr>ld_rows = Map.empty, ld_tx_active = False\<rparr>"

theorem keyed_write_once_witness:
  "writes_under (''mem_add'', ''k'') [ClaimKey (''mem_add'', ''k'') 86400 (sample_clock 0),
     ClaimKey (''mem_add'', ''k'') 86400 (sample_clock 5), CompleteKey (''mem_add'', ''k'') ''done'' 86400 9,
     ClaimKey (''mem_add'', ''k'') 86400 (sample_clock 50)] empty_ledger \<le> 1"
  using keyed_write_once[of 100 "[ClaimKey (''mem_add'', ''k'') 86400 (sample_clock 0),
     ClaimKey (''mem_add'', ''k'') 86400 (sample_clock 5), CompleteKey (''mem_add'', ''k'') ''done'' 86400 9,
     ClaimKey (''mem_add'', ''k'') 86400 (sample_clock 50)]" "(''mem_add'', ''k'')" empty_ledger]
  by (simp add: sample_clock_def held_def empty_ledger_def releases_of_def)

text \<open>
  What a key answers over its life. A claim that wins and is completed replays exactly its
  result to reads before the expiry and to claims up to it; a claim that is released can be won
  again; a claim that is never completed shows no result, keeps later claims waiting until it
  expires, and from then on the key can be won: a crash never blocks a key for good.
\<close>

theorem claim_lifecycle:
  assumes won: "idempotency_claim k ttl t db = (Inr Won, db1)"
  shows "idempotency_get k now db1 = None \<and>
    (let db2 = snd (idempotency_complete k result ttl2 fin db1) in
       (now < fin + ttl2 \<longrightarrow> idempotency_get k now db2 = Some result) \<and>
       (cl_purge t2 \<le> fin + ttl2 \<longrightarrow> fst (idempotency_claim k ttl3 t2 db2) = Inr (Completed result))) \<and>
    fst (idempotency_claim k ttl3 t2 (snd (idempotency_release k db1))) = Inr Won \<and>
    fst (idempotency_claim k ttl3 t2 db1) = Inr (if cl_purge t2 \<le> cl_base t + ttl then InFlight else Won)"
proof -
  have idle: "\<not> ld_tx_active db" using won by (auto simp: ledger_defs split: if_splits)
  have "ld_rows (purge_expired (cl_purge t) db) k = None"
    using won idle by (auto simp: idempotency_claim_def require_idle_def Let_def split: option.splits)
  then have row: "ld_rows db1 k = Some \<lparr>lr_result = None, lr_created = cl_created t, lr_expires = cl_base t + ttl\<rparr>"
    and tx: "\<not> ld_tx_active db1"
    using won idle by (auto simp: idempotency_claim_def require_idle_def purge_expired_def Let_def)
  have get: "idempotency_get k now db1 = None" by (simp add: idempotency_get_def row)
  have completed: "let db2 = snd (idempotency_complete k result ttl2 fin db1) in
       (now < fin + ttl2 \<longrightarrow> idempotency_get k now db2 = Some result) \<and>
       (cl_purge t2 \<le> fin + ttl2 \<longrightarrow> fst (idempotency_claim k ttl3 t2 db2) = Inr (Completed result))"
    using row tx by (auto simp: ledger_defs idempotency_get_def Let_def)
  have released: "fst (idempotency_claim k ttl3 t2 (snd (idempotency_release k db1))) = Inr Won"
    using row tx by (auto simp: ledger_defs Let_def)
  have crash: "fst (idempotency_claim k ttl3 t2 db1) = Inr (if cl_purge t2 \<le> cl_base t + ttl then InFlight else Won)"
    using row tx by (auto simp: ledger_defs Let_def)
  from get completed released crash show ?thesis by blast
qed

theorem claim_lifecycle_witness:
  "fst (idempotency_claim (''t'', ''k'') 10 (sample_clock 11)
     (snd (idempotency_claim (''t'', ''k'') 10 (sample_clock 0) empty_ledger))) = Inr Won"
proof -
  have "idempotency_claim (''t'', ''k'') 10 (sample_clock 0) empty_ledger
      = (Inr Won, snd (idempotency_claim (''t'', ''k'') 10 (sample_clock 0) empty_ledger))"
    by (simp add: ledger_defs empty_ledger_def Let_def)
  from claim_lifecycle[OF this, of _ _ _ _ "sample_clock 11"] show ?thesis
    by (simp add: sample_clock_def)
qed

section \<open>Schedules\<close>

record schedule_row =
  sc_id :: string
  sc_cron_expr :: string
  sc_job_kind :: string
  sc_params_json :: string
  sc_enabled :: bool
  sc_created_at :: string
  sc_last_run_at :: "string option"
  sc_last_run_status :: "string option"
  sc_last_run_error :: "string option"
  sc_last_run_result :: "string option"

record schedule_db =
  sdb_rows :: "schedule_row list"
  sdb_tx_active :: bool

datatype schedule_error = ScheduleTxActive | ParamsUnreadable | BadTimestamp

text \<open>A row as the methods return it; the names of the fields are those of the row.\<close>

record schedule_view =
  sv_row :: schedule_row
  sv_params :: json
  sv_last_run_result :: "(string \<times> json) list option"

text \<open>\<open>loads\<close> is \<open>json.loads\<close>: None for a \<open>ValueError\<close>.\<close>

definition decode_result ::
  "(string \<Rightarrow> json option) \<Rightarrow> string option \<Rightarrow> string option \<Rightarrow> (string \<times> json) list option" where
  "decode_result loads last_run_at raw =
     (case raw of
        None \<Rightarrow> None
      | Some s \<Rightarrow>
          (case loads s of
             Some (JObj env) \<Rightarrow>
               (case j_get env ''result'' of
                  JObj d \<Rightarrow>
                    if j_get env ''run_at'' = (case last_run_at of None \<Rightarrow> JNull | Some t \<Rightarrow> JStr t) then Some d else None
                | _ \<Rightarrow> None)
           | _ \<Rightarrow> None))"

definition row_to_dict :: "(string \<Rightarrow> json option) \<Rightarrow> schedule_row \<Rightarrow> (schedule_error, schedule_view) result" where
  "row_to_dict loads r =
     (case (if sc_params_json r \<noteq> [] then loads (sc_params_json r) else Some (JObj [])) of
        None \<Rightarrow> Inl ParamsUnreadable
      | Some ps \<Rightarrow> Inr \<lparr>sv_row = r, sv_params = ps,
          sv_last_run_result = decode_result loads (sc_last_run_at r) (sc_last_run_result r)\<rparr>)"

definition schedule_insert ::
  "(json \<Rightarrow> string) \<Rightarrow> string \<Rightarrow> string \<Rightarrow> string \<Rightarrow> string \<Rightarrow> json option \<Rightarrow> schedule_db \<Rightarrow> schedule_db" where
  "schedule_insert dumps ident now cron_expr job_kind params db =
     db\<lparr>sdb_rows := sdb_rows db @ [\<lparr>sc_id = ident, sc_cron_expr = cron_expr, sc_job_kind = job_kind,
       sc_params_json = dumps (case params of None \<Rightarrow> JObj [] | Some p \<Rightarrow> p), sc_enabled = True, sc_created_at = now,
       sc_last_run_at = None, sc_last_run_status = None, sc_last_run_error = None, sc_last_run_result = None\<rparr>]\<rparr>"

definition schedule_get ::
  "(string \<Rightarrow> json option) \<Rightarrow> string \<Rightarrow> schedule_db \<Rightarrow> (schedule_error, schedule_view option) result" where
  "schedule_get loads ident db =
     (case find (\<lambda>r. sc_id r = ident) (sdb_rows db) of
        None \<Rightarrow> Inr None
      | Some r \<Rightarrow> bind_res (row_to_dict loads r) (\<lambda>v. Inr (Some v)))"

definition schedule_list_all ::
  "(string \<Rightarrow> json option) \<Rightarrow> schedule_db \<Rightarrow> (schedule_error, schedule_view list) result" where
  "schedule_list_all loads db = map_res (row_to_dict loads) (sort_key sc_created_at (sdb_rows db))"

text \<open>
  \<open>next_fire\<close> is \<open>croniter(...).get_next\<close>, None for an expression it rejects; \<open>parse_iso\<close> is
  \<open>_parse_iso_utc\<close>, None for a \<open>ValueError\<close>.
\<close>

definition is_due ::
  "(string \<Rightarrow> int \<Rightarrow> int option) \<Rightarrow> (string \<Rightarrow> int option) \<Rightarrow> int \<Rightarrow> schedule_view \<Rightarrow> (schedule_error, bool) result" where
  "is_due next_fire parse_iso now v =
     (let r = sv_row v;
          base = (case sc_last_run_at r of Some t \<Rightarrow> if t \<noteq> [] then t else sc_created_at r | None \<Rightarrow> sc_created_at r)
      in case parse_iso base of
           None \<Rightarrow> Inl BadTimestamp
         | Some b \<Rightarrow> Inr (case next_fire (sc_cron_expr r) b of None \<Rightarrow> False | Some n \<Rightarrow> n \<le> now))"

fun due_loop ::
  "(string \<Rightarrow> json option) \<Rightarrow> (string \<Rightarrow> int \<Rightarrow> int option) \<Rightarrow> (string \<Rightarrow> int option) \<Rightarrow> int \<Rightarrow> schedule_row list
    \<Rightarrow> (schedule_error, schedule_view list) result" where
  "due_loop loads next_fire parse_iso now [] = Inr []"
| "due_loop loads next_fire parse_iso now (r # rs) =
     bind_res (row_to_dict loads r) (\<lambda>v.
       bind_res (is_due next_fire parse_iso now v) (\<lambda>due.
         bind_res (due_loop loads next_fire parse_iso now rs) (\<lambda>vs. Inr (if due then v # vs else vs))))"

definition schedule_list_due ::
  "(string \<Rightarrow> json option) \<Rightarrow> (string \<Rightarrow> int \<Rightarrow> int option) \<Rightarrow> (string \<Rightarrow> int option) \<Rightarrow> int \<Rightarrow> schedule_db
    \<Rightarrow> (schedule_error, schedule_view list) result" where
  "schedule_list_due loads next_fire parse_iso now db =
     due_loop loads next_fire parse_iso now (filter sc_enabled (sdb_rows db))"

text \<open>An UPDATE of the rows that satisfy its WHERE, with its \<open>rowcount\<close>.\<close>

definition update_rows ::
  "(schedule_row \<Rightarrow> bool) \<Rightarrow> (schedule_row \<Rightarrow> schedule_row) \<Rightarrow> schedule_db \<Rightarrow> nat \<times> schedule_db" where
  "update_rows hit f db = (length (filter hit (sdb_rows db)),
     db\<lparr>sdb_rows := map (\<lambda>r. if hit r then f r else r) (sdb_rows db)\<rparr>)"

definition schedule_set_enabled :: "string \<Rightarrow> bool \<Rightarrow> schedule_db \<Rightarrow> bool \<times> schedule_db" where
  "schedule_set_enabled ident enabled db =
     apfst (\<lambda>n. n > 0) (update_rows (\<lambda>r. sc_id r = ident) (\<lambda>r. r\<lparr>sc_enabled := enabled\<rparr>) db)"

definition schedule_delete :: "string \<Rightarrow> schedule_db \<Rightarrow> bool \<times> schedule_db" where
  "schedule_delete ident db =
     (list_ex (\<lambda>r. sc_id r = ident) (sdb_rows db), db\<lparr>sdb_rows := filter (\<lambda>r. sc_id r \<noteq> ident) (sdb_rows db)\<rparr>)"

text \<open>\<open>run_stamp\<close> formats an instant with microseconds.\<close>

definition schedule_try_claim ::
  "(int \<Rightarrow> string) \<Rightarrow> string \<Rightarrow> string option \<Rightarrow> int \<Rightarrow> schedule_db \<Rightarrow> (schedule_error, bool) result \<times> schedule_db" where
  "schedule_try_claim run_stamp ident prev_last_run_at now db =
     (if sdb_tx_active db then (Inl ScheduleTxActive, db)
      else apfst (\<lambda>n. Inr (n = 1)) (update_rows (\<lambda>r. sc_id r = ident \<and> sc_last_run_at r = prev_last_run_at)
        (\<lambda>r. r\<lparr>sc_last_run_at := Some (run_stamp now), sc_last_run_status := Some ''running'',
           sc_last_run_error := None, sc_last_run_result := None\<rparr>) db))"

definition schedule_mark_run ::
  "(int \<Rightarrow> string) \<Rightarrow> (json \<Rightarrow> string) \<Rightarrow> string \<Rightarrow> string \<Rightarrow> string option \<Rightarrow> int \<Rightarrow> (string \<times> json) list option
    \<Rightarrow> schedule_db \<Rightarrow> (schedule_error, unit) result \<times> schedule_db" where
  "schedule_mark_run run_stamp dumps ident status error now result db =
     (if sdb_tx_active db then (Inl ScheduleTxActive, db)
      else let stamp = run_stamp now;
               payload = (case result of None \<Rightarrow> None
                 | Some d \<Rightarrow> Some (dumps (JObj [(''run_at'', JStr stamp), (''result'', JObj d)])))
        in (Inr (), snd (update_rows (\<lambda>r. sc_id r = ident)
             (\<lambda>r. r\<lparr>sc_last_run_at := Some stamp, sc_last_run_status := Some status, sc_last_run_error := error,
                sc_last_run_result := payload\<rparr>) db)))"

text \<open>A claim as an attempt, and the slot it competes for.\<close>

definition slot_attempt :: "(int \<Rightarrow> string) \<Rightarrow> string \<Rightarrow> string option \<Rightarrow> int \<Rightarrow> schedule_db \<Rightarrow> bool \<times> schedule_db" where
  "slot_attempt run_stamp ident prev now db =
     apfst (\<lambda>r. r = Inr True) (schedule_try_claim run_stamp ident prev now db)"

definition slot_free :: "string \<Rightarrow> string option \<Rightarrow> schedule_db \<Rightarrow> bool" where
  "slot_free ident prev db \<longleftrightarrow> (\<exists>r \<in> set (sdb_rows db). sc_id r = ident \<and> sc_last_run_at r = prev)"

lemma slot_attempt_cases:
  "slot_attempt run_stamp ident prev now db =
     (if sdb_tx_active db then (False, db)
      else apfst (\<lambda>n. n = 1) (update_rows (\<lambda>r. sc_id r = ident \<and> sc_last_run_at r = prev)
        (\<lambda>r. r\<lparr>sc_last_run_at := Some (run_stamp now), sc_last_run_status := Some ''running'',
           sc_last_run_error := None, sc_last_run_result := None\<rparr>) db))"
  by (simp add: slot_attempt_def schedule_try_claim_def update_rows_def)

lemma slot_taken:
  assumes "Some (run_stamp now) \<noteq> prev" and "\<not> sdb_tx_active db"
  shows "\<not> slot_free ident prev (snd (slot_attempt run_stamp ident prev now db))"
proof
  let ?g = "\<lambda>r. if sc_id r = ident \<and> sc_last_run_at r = prev
      then r\<lparr>sc_last_run_at := Some (run_stamp now), sc_last_run_status := Some ''running'',
        sc_last_run_error := None, sc_last_run_result := None\<rparr> else r"
  have rows: "sdb_rows (snd (slot_attempt run_stamp ident prev now db)) = map ?g (sdb_rows db)"
    using assms(2) by (simp add: slot_attempt_cases update_rows_def)
  assume "slot_free ident prev (snd (slot_attempt run_stamp ident prev now db))"
  then obtain r :: schedule_row where "sc_id (?g r) = ident" "sc_last_run_at (?g r) = prev"
    unfolding slot_free_def rows set_map by blast
  with assms(1) show False by (simp split: if_splits)
qed

lemma slot_won: "fst (slot_attempt run_stamp ident prev now db) \<Longrightarrow> slot_free ident prev db \<and> \<not> sdb_tx_active db"
proof -
  assume won: "fst (slot_attempt run_stamp ident prev now db)"
  then have "length (filter (\<lambda>r. sc_id r = ident \<and> sc_last_run_at r = prev) (sdb_rows db)) = 1" and tx: "\<not> sdb_tx_active db"
    by (auto simp: slot_attempt_cases update_rows_def split: if_splits)
  then have "filter (\<lambda>r. sc_id r = ident \<and> sc_last_run_at r = prev) (sdb_rows db) \<noteq> []" by auto
  with tx show ?thesis unfolding slot_free_def filter_empty_conv by blast
qed

interpretation slots: timed_test_and_set "\<lambda>_. True" "slot_free ident prev"
    "\<lambda>now. Some (run_stamp now) \<noteq> prev" "slot_attempt run_stamp ident prev" for ident prev run_stamp
proof (unfold_locales, goal_cases)
  case (4 db now)
  then show ?case using slot_taken[of run_stamp now prev db ident] by (cases "sdb_tx_active db") (auto simp: slot_attempt_cases)
qed (use slot_won slot_taken in blast)+

definition run_envelope :: "string option \<Rightarrow> (string \<times> json) list \<Rightarrow> json" where
  "run_envelope stamp d =
     JObj [(''run_at'', case stamp of None \<Rightarrow> JNull | Some t \<Rightarrow> JStr t), (''result'', JObj d)]"

lemma decode_envelope:
  "loads (dumps (run_envelope stamp d)) = Some (run_envelope stamp d) \<Longrightarrow>
   decode_result loads latest (Some (dumps (run_envelope stamp d))) = (if stamp = latest then Some d else None)"
  by (simp add: decode_result_def run_envelope_def j_get_def split: option.split)

lemma find_updated:
  "find (\<lambda>r. sc_id r = ident) (map (\<lambda>r. if sc_id r = ident then f r else r) rs)
     = map_option f (find (\<lambda>r. sc_id r = ident) rs)" if "\<And>r. sc_id (f r) = sc_id r"
  using that by (induction rs) auto

text \<open>
  A cron slot fires at most once: of the dispatchers that read the same due row, whenever
  they claim it, at most one wins. The result a reader sees is the one of the latest run: what
  \<open>schedule_mark_run\<close> stores is read back, and a stored result whose envelope carries another
  run's time stamp is never shown. (\<open>json.loads\<close> reads the envelopes \<open>json.dumps\<close> writes.)
\<close>

theorem slot_fires_once:
  assumes "list_all (\<lambda>now. Some (run_stamp now) \<noteq> prev) nows"
    and json: "\<And>stamp. loads (dumps (run_envelope stamp d)) = Some (run_envelope stamp d)"
    and got: "schedule_get loads ident (snd (schedule_mark_run run_stamp dumps ident status error now (Some d) db)) = Inr (Some v)"
    and idle: "\<not> sdb_tx_active db" and old: "stamp \<noteq> latest"
  shows "length (filter (\<lambda>w. w) (attempts (slot_attempt run_stamp ident prev) nows db)) \<le> 1 \<and>
    sv_last_run_result v = Some d \<and> sc_last_run_at (sv_row v) = Some (run_stamp now) \<and>
    decode_result loads latest (Some (dumps (run_envelope stamp d))) = None"
proof -
  let ?set = "\<lambda>r. r\<lparr>sc_last_run_at := Some (run_stamp now), sc_last_run_status := Some status, sc_last_run_error := error,
    sc_last_run_result := Some (dumps (run_envelope (Some (run_stamp now)) d))\<rparr>"
  have rows: "sdb_rows (snd (schedule_mark_run run_stamp dumps ident status error now (Some d) db))
      = map (\<lambda>r. if sc_id r = ident then ?set r else r) (sdb_rows db)"
    using idle by (simp add: schedule_mark_run_def update_rows_def Let_def run_envelope_def)
  have "find (\<lambda>r. sc_id r = ident) (map (\<lambda>r. if sc_id r = ident then ?set r else r) (sdb_rows db))
      = map_option ?set (find (\<lambda>r. sc_id r = ident) (sdb_rows db))" by (rule find_updated) simp
  with got obtain r where r: "row_to_dict loads (?set r) = Inr v"
    unfolding schedule_get_def rows by (auto simp: bind_res_Inr_conv split: option.splits)
  have decode: "decode_result loads l (Some (dumps (run_envelope st d))) = (if st = l then Some d else None)" for l st
    by (rule decode_envelope) (rule json)
  from r have "sv_last_run_result v = Some d" "sc_last_run_at (sv_row v) = Some (run_stamp now)"
    by (auto simp: row_to_dict_def decode split: option.splits)
  then show ?thesis
    using slots.one_legal_winner[OF TrueI assms(1)] decode old by simp
qed

definition sample_loads :: "string \<Rightarrow> json option" where
  "sample_loads s = Some (run_envelope (case s of [] \<Rightarrow> None | c # t \<Rightarrow> Some t) [])"

definition sample_dumps :: "json \<Rightarrow> string" where
  "sample_dumps j = (case j of JObj ((k, JStr t) # _) \<Rightarrow> ''s'' @ t | _ \<Rightarrow> [])"

definition sample_schedules :: schedule_db where
  "sample_schedules = \<lparr>sdb_rows = [\<lparr>sc_id = ''s'', sc_cron_expr = ''* * * * *'', sc_job_kind = ''compact'',
     sc_params_json = [], sc_enabled = True, sc_created_at = ''0'', sc_last_run_at = None, sc_last_run_status = None,
     sc_last_run_error = None, sc_last_run_result = None\<rparr>], sdb_tx_active = False\<rparr>"

theorem slot_fires_once_witness:
  "length (filter (\<lambda>w. w) (attempts (slot_attempt (\<lambda>_. ''1'') ''s'' None) [60, 61] sample_schedules)) \<le> 1"
proof -
  have "sample_loads (sample_dumps (run_envelope stamp [])) = Some (run_envelope stamp [])" for stamp
    by (simp add: sample_loads_def sample_dumps_def run_envelope_def split: option.split)
  moreover have "\<exists>v. schedule_get sample_loads ''s''
      (snd (schedule_mark_run (\<lambda>_. ''1'') sample_dumps ''s'' ''ok'' None 62 (Some []) sample_schedules)) = Inr (Some v)"
    by (simp add: schedule_get_def schedule_mark_run_def sample_schedules_def update_rows_def Let_def row_to_dict_def)
  ultimately show ?thesis
    using slot_fires_once[of "\<lambda>_. ''1''" None "[60, 61]" sample_loads sample_dumps "[]" "''s''" "''ok''" None 62
      sample_schedules _ "Some ''0''" None]
    by (auto simp: sample_schedules_def)
qed

end
