(* ===== verification/Spec2Isabelle.thy ===== *)
theory Spec2Isabelle
  imports Pinned Indexing Versions DirSwap SourceHolds Dedup NamespaceLocks Gate HookPanel Differ Filters Debounce Formation Proposals Ranking Budget Packing CodeChunks JsonChunks Ledgers
begin

text \<open>
  Verification of memtomem, a long-term memory for coding agents: Markdown files are cut into
  chunks, the chunks are stored in SQLite and searched, and artifacts that several agents share
  (skills, agents, commands) are versioned and swapped on disk. Paths below are relative to
  \<open>packages/memtomem/src/memtomem\<close>.

  How the parts fit together. A file that changed enters the debounce queue (Debounce). When its
  turn comes the engine cuts it into chunks with exact token budgets (Budget, Packing,
  CodeChunks, JsonChunks), merges short ones and lends overlap (Merging), and drops or masks what
  must not be stored (Indexing). The diff against the stored state of the file decides which rows
  are inserted, rewritten, kept and deleted (Differ). A file that disappeared, was replaced by a
  link or was refused keeps its rows, but is held out of search (SourceHolds). Namespaces are
  renamed, merged and assigned under the locks of the files their rows come from (Namespaces,
  NamespaceLocks). A search restricts rows by namespace and scope (Filters), fuses its result lists and re-ranks them (Ranking), and the hits fill what
  room the pinned blocks leave in a context bundle (Pinned). Sessions and agents propose
  memories, which a reviewer decides on (Proposals, Formation). Writes that may be retried, and
  jobs that may be started twice, go through a ledger (Ledgers). Search quality is watched by
  replaying labelled queries, comparing the reports and gating on the comparison (Metrics,
  Replay, Gate). Beside the store, artifacts have
  immutable versions with labels (Versions) and are replaced as whole directories (DirSwap), and
  hook rules are merged into the settings of each agent runtime (HookSettings, HookPanel).

  The theories, and the code each models.
  \<^item> \<open>Prelude\<close>: Python values, results, ordered dictionaries, the stable sort, and the locales
    that several components interpret: \<open>machine\<close> (a run of legal events keeps an invariant,
    also every prefix of it), \<open>test_and_set\<close> and \<open>timed_test_and_set\<close> (among competing attempts
    at most one wins). \<open>Models\<close>: the records of \<open>models.py\<close>. \<open>Json\<close>: JSON values and the
    conversions \<open>int\<close> and \<open>float\<close> with their exceptions.
  \<^item> \<open>Budget\<close>, \<open>Packing\<close>, \<open>CodeChunks\<close>, \<open>JsonChunks\<close>: \<open>chunking/bounded.py\<close>. Spans partition the
    text, every chunk fits the budget and is the text at its lines, unless the function raises;
    the pieces of a JSON document account for every member of it.
    The locale \<open>span_pass\<close> states what each regrouping pass promises; it is interpreted on the
    three passes and on their composition.
  \<^item> \<open>Merging\<close>: the merging and overlap passes of \<open>indexing/engine.py\<close>. No line and no heading is
    lost by a merge that is not a heading inversion; the overlap pass frames each chunk with the
    edges of its neighbours and records these as its loan.
  \<^item> \<open>Indexing\<close>: \<open>chunk_content\<close> and the ownership sweep. Chunks that may be edited never share a
    source line with another chunk.
  \<^item> \<open>Differ\<close>: \<open>indexing/differ.py\<close>. Each new chunk and each stored row is accounted for once,
    kept rows are current, and indexing an unchanged file changes nothing.
  \<^item> \<open>Filters\<close>: \<open>models.py\<close>, \<open>search/visibility.py\<close>, \<open>storage/sqlite_helpers.py\<close>,
    \<open>sqlite_scope.py\<close>, \<open>sqlite_namespace.py\<close>. The predicates evaluated in Python agree with the
    SQL fragments, under SQLite's three-valued logic and \<open>LIKE\<close>.
  \<^item> \<open>Ranking\<close>: \<open>search/fusion.py\<close>, \<open>mmr.py\<close>, \<open>decay.py\<close>, \<open>access.py\<close>, \<open>importance.py\<close>,
    \<open>entity_boost.py\<close>, over exact reals. Fusion is reciprocal rank fusion, MMR is the greedy
    choice; the locale \<open>score_stage\<close> is the contract of the four score stages.
  \<^item> \<open>Pinned\<close>: \<open>pinned.py\<close> and \<open>memory_scope.py\<close>: listing with its precedence and every way it
    fails, set and get, and a bundle that never exceeds its budget.
  \<^item> \<open>Formation\<close>, \<open>Proposals\<close>: \<open>storage/mixins/formation.py\<close>, \<open>formation.py\<close>, \<open>search/conflict.py\<close>.
    The audit trail tells the whole history, a claim is exclusive, a decision final, a repeated
    proposal idempotent, and scanning a session only queues.
  \<^item> \<open>SourceHolds\<close>: \<open>storage/sqlite_source_holds_ops.py\<close>, the terms of \<open>sqlite_visibility.py\<close>, and
    the deletes, the orphan scan and sweep and the index pass that work with them. A source is out
    of search while it is held; the visibility epoch is a sound cache key, a refusal lasts, a
    release prepared before a journaled delete changes nothing, and no hold outlives its source.
    The locale \<open>delete_order\<close> says what every delete keeps; it is interpreted on the epoch, the
    generations, the holds and the rows. \<open>Dedup\<close>: \<open>search/dedup.py\<close>. The scan names each pair of
    duplicates once; a merge keeps its promise to the keeper and to every other row, or does nothing.
  \<^item> \<open>Namespaces\<close>: \<open>storage/sqlite_namespace.py\<close> with the tables of \<open>sqlite_schema.py\<close> it writes,
    and \<open>NamespaceLocks\<close>: \<open>services/namespace_management.py\<close>. A rename or an assignment loses no
    content, drops only what the target holds already, and what referred to a dropped chunk refers
    to the one that stands for it; a failed write changes nothing; a coordinated rename acts under
    the locks of all its sources on the rows it froze. The locale \<open>merge_planner\<close> states what a
    plan of duplicates owes; it is interpreted on the two planners. The batches of 500 rows and
    the three attempts of the coordinator are the constants of the code.
  \<^item> \<open>Metrics\<close>, \<open>Replay\<close>, \<open>Gate\<close>: \<open>quality/metrics.py\<close>, \<open>replay.py\<close>, \<open>compare.py\<close>, \<open>gate.py\<close>. The
    retrieval metrics are bounded; a replay's report passes the comparator's validation exactly
    when each search kept to the limit and returned named hits with finite scores; every delta and
    average of a comparison is the one its rankings earn; a gate that passes under
    a floor bounds the change of the recomputed metric, and no allowlist waives a failed search.
  \<^item> \<open>HookSettings\<close>, \<open>HookPanel\<close>: \<open>context/settings.py\<close> and the comparison of
    \<open>web/routes/settings_sync.py\<close>. A synchronisation keeps the user's settings and rules, brings
    memtomem's own rules up to date or warns, and is a fixed point when every canonical rule runs a
    command; the panel, written apart from the merge, lists the same conflicts.
  \<^item> \<open>Ledgers\<close>: \<open>storage/mixins/idempotency.py\<close> and \<open>schedules.py\<close>: a key is written once, a slot
    fires once.
  \<^item> \<open>Debounce\<close>: \<open>indexing/debounce.py\<close>. A write that arrives while an older one is running is not
    lost, attempts are bounded, and the queue file reads back.
  \<^item> \<open>Versions\<close>: \<open>context/versioning.py\<close>. Snapshots are immutable under every operation and every
    crash, and a manifest reads back as written; \<open>DirSwap\<close>: \<open>context/_dir_swap.py\<close>, the names of \<open>context/_names.py\<close> and the reaper of
    \<open>context/skills.py\<close>. An artifact is never lost, and recovery converges.

  Conventions. A Python string whose characters matter is a list of code points (\<open>ustr\<close>), one
  that is only compared is a HOL string; integers are unbounded as in Python; floats are exact
  reals, with infinities and NaN where a function tests for them. An exception is the left of a
  sum type, and every operation that can raise returns such a sum. State is passed explicitly:
  a method that runs inside one transaction or under one lock is one function on the tables. A
  file system operation in \<open>Versions\<close> and \<open>DirSwap\<close> is the list of its atomic effects; a crash
  keeps a prefix of the list, so the theorems about crashes quantify over prefixes. All
  recursion is total: structural, or with a measure. No fuel is used; the JSON walk is bounded by
  the nesting limit of the code itself, 33 levels.

  Parameters. What the code calls but does not define is an argument: the tokenizer, the
  parsers behind the chunkers, the JSON and YAML readers, croniter, digests and casefolding,
  clocks, random tokens and uuids, the dense search, the privacy scanner, and which system calls
  fail. Hypotheses about them are named in the theorem (for instance that fresh tokens do not
  repeat), and each has a witness with a concrete function.

  Not modelled. The command line, the MCP server, the web routes and user interface, the plugins
  and integrations translate requests and print results. Embedding and language model providers
  call services. Locks, transactions and fsync are trusted to do what they say: they are the
  atomicity assumptions above. The tables of the storage that no modelled component owns, the
  configuration loader, the file watcher, and the installation, migration and transfer commands
  of the context gateway have state of their own and are left out so far; the
  manifest of components lists each with its reason.
\<close>

end
